(* ===== verification/QPrelude.thy ===== *)
theory QPrelude
  imports Main "HOL-Library.Word" "HOL-Library.Multiset" "HOL-Library.Monad_Syntax"
begin

unbundle bit_operations_syntax

text \<open>
  Shared vocabulary of the development: the machine types of the C sources, checked memory
  accesses (an access outside an object is \<open>None\<close>, which stands for undefined behaviour of the
  C program), C strings, and lemmas on lists and words that the components share.
\<close>

section \<open>Types\<close>

type_synonym u8 = "8 word"
type_synonym u16 = "16 word"
type_synonym u32 = "32 word"
type_synonym u64 = "64 word"
type_synonym bytes = "u8 list"

text \<open>Facts that turn checked memory accesses into plain list operations.\<close>

named_theorems mem_simps

section \<open>Checked memory\<close>

text \<open>
  A memory object is the list of its cells. \<open>mem_get\<close> and \<open>mem_set\<close> are one load and one
  store, \<open>mem_slice\<close> is a block read and \<open>mem_blit\<close> a block write (\<open>memcpy\<close> from a
  different object).
\<close>

definition mem_get :: "'a list \<Rightarrow> nat \<Rightarrow> 'a option" where
  "mem_get m i = (if i < length m then Some (m ! i) else None)"

definition mem_set :: "'a list \<Rightarrow> nat \<Rightarrow> 'a \<Rightarrow> 'a list option" where
  "mem_set m i v = (if i < length m then Some (m[i := v]) else None)"

definition mem_slice :: "'a list \<Rightarrow> nat \<Rightarrow> nat \<Rightarrow> 'a list option" where
  "mem_slice m off n = (if off + n \<le> length m then Some (take n (drop off m)) else None)"

definition mem_blit :: "'a list \<Rightarrow> nat \<Rightarrow> 'a list \<Rightarrow> 'a list option" where
  "mem_blit m off src =
     (if off + length src \<le> length m
      then Some (take off m @ src @ drop (off + length src) m) else None)"

lemma mem_get_eq [mem_simps]: "i < length m \<Longrightarrow> mem_get m i = Some (m ! i)"
  by (simp add: mem_get_def)

lemma mem_get_None [mem_simps]: "length m \<le> i \<Longrightarrow> mem_get m i = None"
  by (simp add: mem_get_def)

lemma mem_set_eq [mem_simps]: "i < length m \<Longrightarrow> mem_set m i v = Some (m[i := v])"
  by (simp add: mem_set_def)

lemma mem_slice_eq [mem_simps]:
  "off + n \<le> length m \<Longrightarrow> mem_slice m off n = Some (take n (drop off m))"
  by (simp add: mem_slice_def)

lemma mem_blit_eq [mem_simps]:
  "off + length src \<le> length m \<Longrightarrow>
   mem_blit m off src = Some (take off m @ src @ drop (off + length src) m)"
  by (simp add: mem_blit_def)

lemma mem_blit_length: "mem_blit m off src = Some m' \<Longrightarrow> length m' = length m"
  by (auto simp: mem_blit_def split: if_splits)

section \<open>C strings\<close>

text \<open>The characters of a C string: everything before the first NUL.\<close>

definition cstr :: "bytes \<Rightarrow> bytes" where
  "cstr m = takeWhile (\<lambda>c. c \<noteq> 0) m"

definition terminated :: "bytes \<Rightarrow> bool" where
  "terminated m \<longleftrightarrow> 0 \<in> set m"

text \<open>\<open>strlen\<close> of the C library: undefined when the object holds no NUL.\<close>

fun strlen :: "bytes \<Rightarrow> nat option" where
  "strlen [] = None"
| "strlen (c # m) = (if c = 0 then Some 0 else map_option Suc (strlen m))"

lemma cstr_simps [simp]:
  "cstr [] = []"
  "cstr (c # m) = (if c = 0 then [] else c # cstr m)"
  by (simp_all add: cstr_def)

lemma terminated_simps [simp]:
  "\<not> terminated []"
  "terminated (c # m) \<longleftrightarrow> c = 0 \<or> terminated m"
  by (auto simp: terminated_def)

lemma strlen_terminated: "terminated m \<Longrightarrow> strlen m = Some (length (cstr m))"
  by (induction m) auto

lemma strlen_unterminated: "\<not> terminated m \<Longrightarrow> strlen m = None"
  by (induction m) auto

lemma terminated_length: "terminated m \<Longrightarrow> length (cstr m) < length m"
  by (induction m) auto

lemma cstr_append_zero [simp]: "0 \<notin> set s \<Longrightarrow> cstr (s @ 0 # m) = s"
  by (induction s) auto

lemma zero_notin_cstr [simp]: "0 \<notin> set (cstr m)"
  by (induction m) auto

lemma take_cstr: "take (length (cstr m)) m = cstr m"
  by (induction m) auto

section \<open>Lists\<close>

lemma take_drop_take:
  "off + len \<le> n \<Longrightarrow> take len (drop off (take n xs)) = take len (drop off xs)"
  by (simp add: drop_take min_def)

lemma take_blit:
  "off \<le> n \<Longrightarrow> off + length d \<le> length m \<Longrightarrow> n \<le> length m \<Longrightarrow>
   take (max n (off + length d)) (take off m @ d @ drop (off + length d) m)
     = take off (take n m) @ d @ drop (off + length d) (take n m)"
  by (cases "n \<le> off + length d") (auto simp: max_def drop_take min_def neq_Nil_conv)

definition swap_at :: "'a list \<Rightarrow> nat \<Rightarrow> nat \<Rightarrow> 'a list" where
  "swap_at xs i j = xs[i := xs ! j, j := xs ! i]"

lemma length_swap_at [simp]: "length (swap_at xs i j) = length xs"
  by (simp add: swap_at_def)

lemma mset_swap_at [simp]:
  "i < length xs \<Longrightarrow> j < length xs \<Longrightarrow> mset (swap_at xs i j) = mset xs"
  by (simp add: swap_at_def mset_swap)

lemma nth_swap_at:
  "i < length xs \<Longrightarrow> j < length xs \<Longrightarrow>
   swap_at xs i j ! k = (if k = i then xs ! j else if k = j then xs ! i else xs ! k)"
  by (auto simp: swap_at_def nth_list_update)

section \<open>Words\<close>

lemma unat_drop_bit: "unat (drop_bit n (w :: 'a::len word)) = unat w div 2 ^ n"
  by (simp add: unat_drop_bit_eq flip: drop_bit_eq_div)

lemma unat_push_bit_small:
  "unat (w :: 'a::len word) * 2 ^ n < 2 ^ LENGTH('a) \<Longrightarrow> unat (push_bit n w) = unat w * 2 ^ n"
  unfolding unsigned_push_bit_eq by (simp add: push_bit_eq_mult take_bit_eq_mod)

lemma unat_plus_no_wrap:
  "unat (x :: 'a::len word) + unat y < 2 ^ LENGTH('a) \<Longrightarrow> unat (x + y) = unat x + unat y"
  by (simp add: unat_word_ariths)

lemma unat_and_mask: "unat ((w :: 'a::len word) AND mask n) = unat w mod 2 ^ n"
  unfolding take_bit_eq_mask [symmetric] unsigned_take_bit_eq by (simp add: take_bit_eq_mod)

section \<open>Chains\<close>

text \<open>A list linked through a successor function, with 0 as its end.\<close>

primrec chain :: "(nat \<Rightarrow> nat) \<Rightarrow> nat \<Rightarrow> nat list \<Rightarrow> bool" where
  "chain f i [] \<longleftrightarrow> i = 0"
| "chain f i (x # xs) \<longleftrightarrow> i = x \<and> x \<noteq> 0 \<and> chain f (f x) xs"

lemma chain_unique: "chain f i xs \<Longrightarrow> chain f i ys \<Longrightarrow> xs = ys"
proof (induction xs arbitrary: i ys)
  case (Cons x xs)
  then show ?case by (cases ys) auto
qed (case_tac ys, auto)

lemma chain_nonzero: "chain f i xs \<Longrightarrow> 0 \<notin> set xs"
  by (induction xs arbitrary: i) auto

lemma chain_suffix: "chain f i (xs @ y # ys) \<Longrightarrow> chain f y (y # ys)"
  by (induction xs arbitrary: i) auto

lemma chain_distinct: "chain f i xs \<Longrightarrow> distinct xs"
proof (induction xs arbitrary: i)
  case (Cons x xs)
  have "x \<notin> set xs"
  proof
    assume "x \<in> set xs"
    then obtain us vs where xs: "xs = us @ x # vs" by (auto simp: in_set_conv_decomp)
    have "chain f x (x # vs)" using chain_suffix [of f i "x # us" x vs] Cons.prems xs by simp
    then have "x # vs = x # xs" using Cons.prems by (intro chain_unique [of f x]) auto
    then show False using xs by simp
  qed
  then show ?case using Cons by auto
qed simp

lemma chain_cong: "(\<And>x. x \<in> set xs \<Longrightarrow> f x = g x) \<Longrightarrow> chain f i xs = chain g i xs"
  by (induction xs arbitrary: i) auto

lemma chain_upd: "u \<notin> set xs \<Longrightarrow> chain (f(u := v)) i xs = chain f i xs"
  by (rule chain_cong) auto

lemma chain_unlink:
  assumes "chain f i (xs @ y # x # ys)"
  shows "chain (f(y := f x)) i (xs @ y # ys)"
proof -
  have d: "distinct (xs @ y # x # ys)" using assms by (rule chain_distinct)
  have "chain f y (y # x # ys)" using chain_suffix assms by blast
  then have c: "chain (f(y := f x)) (f x) ys" using d by (auto simp: chain_upd)
  show ?thesis using assms d
  proof (induction xs arbitrary: i)
    case Nil
    then show ?case using c by (simp add: fun_upd_def)
  next
    case (Cons z xs)
    then show ?case by auto
  qed
qed

end
