(* ===== verification/QCutils.thy ===== *)
theory QCutils
  imports QPrelude
begin

text \<open>
  The C string helpers and the dynamic byte buffer of the contract engine
  (\<^verbatim>\<open>src/src/qjsi/quickjs_i.c\<close>, lines 2046 to 2219, \<^verbatim>\<open>DynBuf\<close> of
  \<^verbatim>\<open>cutils_i.h\<close>). Every load and store is checked: \<open>None\<close> is an access outside its object.
\<close>

section \<open>Bounded string copies\<close>

text \<open>The \<open>for(;;)\<close> loop of \<open>pstrcpy_jsi\<close>; \<open>q\<close> is the write index, \<open>lim\<close> is
  \<open>buf_size - 1\<close>.\<close>

fun pstrcpy_loop :: "bytes \<Rightarrow> nat \<Rightarrow> nat \<Rightarrow> bytes \<Rightarrow> bytes option" where
  "pstrcpy_loop buf q lim [] = None"
| "pstrcpy_loop buf q lim (c # str) =
     (if c = 0 \<or> lim \<le> q then mem_set buf q 0
      else (case mem_set buf q c of None \<Rightarrow> None
            | Some buf' \<Rightarrow> pstrcpy_loop buf' (Suc q) lim str))"

definition pstrcpy_jsi :: "bytes \<Rightarrow> int \<Rightarrow> bytes \<Rightarrow> bytes option" where
  "pstrcpy_jsi buf buf_size str =
     (if buf_size \<le> 0 then Some buf else pstrcpy_loop buf 0 (nat (buf_size - 1)) str)"

definition pstrcat :: "bytes \<Rightarrow> int \<Rightarrow> bytes \<Rightarrow> bytes option" where
  "pstrcat buf buf_size s =
     (case strlen buf of None \<Rightarrow> None
      | Some len \<Rightarrow>
          (if int len < buf_size
           then map_option (\<lambda>tl. take len buf @ tl)
                  (pstrcpy_jsi (drop len buf) (buf_size - int len) s)
           else Some buf))"

text \<open>\<open>strstart\<close> returns the rest of \<open>str\<close> after the prefix \<open>val\<close> (the value stored
  through \<open>ptr\<close>); the outer option is a read outside one of the strings.\<close>

fun strstart :: "bytes \<Rightarrow> bytes \<Rightarrow> bytes option option" where
  "strstart p [] = None"
| "strstart p (q # qs) =
     (if q = 0 then Some (Some p)
      else (case p of [] \<Rightarrow> None
            | c # cs \<Rightarrow> if c \<noteq> q then Some None else strstart cs qs))"

definition has_suffix :: "bytes \<Rightarrow> bytes \<Rightarrow> bool option" where
  "has_suffix str suffix =
     (case (strlen str, strlen suffix) of
        (Some len, Some slen) \<Rightarrow>
          (if slen \<le> len
           then (case (mem_slice str (len - slen) slen, mem_slice suffix 0 slen) of
                   (Some a, Some b) \<Rightarrow> Some (a = b)
                 | _ \<Rightarrow> None)
           else Some False)
      | _ \<Rightarrow> None)"

lemma pstrcpy_loop_spec:
  "terminated str \<Longrightarrow> lim < length buf \<Longrightarrow> q \<le> lim \<Longrightarrow>
   pstrcpy_loop buf q lim str =
     Some (take q buf @ take (lim - q) (cstr str) @ [0]
           @ drop (Suc (q + length (take (lim - q) (cstr str)))) buf)"
proof (induction buf q lim str rule: pstrcpy_loop.induct)
  case (1 buf q lim)
  then show ?case by simp
next
  case (2 buf q lim c str)
  show ?case
  proof (cases "c = 0 \<or> lim \<le> q")
    case True
    with 2 show ?thesis by (auto simp: mem_simps upd_conv_take_nth_drop)
  next
    case False
    with 2 have IH: "pstrcpy_loop (buf[q := c]) (Suc q) lim str =
      Some (take (Suc q) (buf[q := c]) @ take (lim - Suc q) (cstr str) @ [0]
        @ drop (Suc (Suc q + length (take (lim - Suc q) (cstr str)))) (buf[q := c]))"
      by (simp add: mem_simps)
    have "take (Suc q) (buf[q := c]) = take q buf @ [c]"
      using False 2 by (simp add: take_Suc_conv_app_nth)
    moreover have "take (lim - q) (c # cstr str) = c # take (lim - Suc q) (cstr str)"
      using False by (simp add: take_Cons' Suc_diff_Suc)
    ultimately show ?thesis using False 2 IH by (simp add: mem_simps)
  qed
qed

lemma pstrcpy_spec:
  assumes "terminated str" and "0 < buf_size" and "buf_size \<le> int (length buf)"
  defines "t \<equiv> take (nat (buf_size - 1)) (cstr str)"
  shows "pstrcpy_jsi buf buf_size str = Some (t @ 0 # drop (Suc (length t)) buf)"
  using assms pstrcpy_loop_spec [of str "nat (buf_size - 1)" buf 0]
  by (simp add: pstrcpy_jsi_def)

lemma zero_notin_take_cstr [simp]: "0 \<notin> set (take n (cstr m))"
  by (meson in_set_takeD zero_notin_cstr)

lemma pstrcat_spec:
  assumes b: "terminated buf" and s: "terminated s"
    and lt: "int (length (cstr buf)) < buf_size" and le: "buf_size \<le> int (length buf)"
  shows "\<exists>buf'. pstrcat buf buf_size s = Some buf' \<and> length buf' = length buf
    \<and> cstr buf' = take (nat (buf_size - 1)) (cstr buf @ cstr s)"
proof -
  define n where "n = length (cstr buf)"
  define t where "t = take (nat (buf_size - int n - 1)) (cstr s)"
  have "pstrcpy_jsi (drop n buf) (buf_size - int n) s =
    Some (t @ 0 # drop (Suc (length t)) (drop n buf))"
    using pstrcpy_spec [OF s, of "buf_size - int n" "drop n buf"] lt le terminated_length [OF b]
    by (simp add: n_def t_def)
  then have eq: "pstrcat buf buf_size s =
    Some (cstr buf @ t @ 0 # drop (Suc (length t)) (drop n buf))"
    using lt by (simp add: pstrcat_def strlen_terminated [OF b] n_def take_cstr)
  have "nat (buf_size - 1) - n = nat (buf_size - int n - 1)" by linarith
  moreover have "take (nat (buf_size - 1)) (cstr buf) = cstr buf"
    using lt n_def by simp
  ultimately have "cstr buf @ t = take (nat (buf_size - 1)) (cstr buf @ cstr s)"
    by (simp add: t_def n_def)
  moreover have "cstr (cstr buf @ t @ 0 # drop (Suc (length t)) (drop n buf)) = cstr buf @ t"
    using cstr_append_zero [of "cstr buf @ t"] by (simp add: t_def)
  moreover have "length t + n < length buf"
    using lt le by (auto simp: t_def n_def)
  ultimately show ?thesis
    using eq by (intro exI [of _ "cstr buf @ t @ 0 # drop (Suc (length t)) (drop n buf)"])
      (simp add: n_def)
qed

lemma strstart_spec:
  "terminated p \<Longrightarrow> terminated q \<Longrightarrow>
   strstart p q = Some (if take (length (cstr q)) (cstr p) = cstr q
                        then Some (drop (length (cstr q)) p) else None)"
proof (induction p q rule: strstart.induct)
  case (2 p q qs)
  then show ?case by (cases p) auto
qed simp

lemma has_suffix_spec:
  assumes "terminated str" and "terminated suf"
  shows "has_suffix str suf = Some (\<exists>pre. cstr str = pre @ cstr suf)"
proof (cases "length (cstr suf) \<le> length (cstr str)")
  case False
  then have "\<not> (\<exists>pre. cstr str = pre @ cstr suf)" by auto
  with False show ?thesis
    using assms by (simp add: has_suffix_def strlen_terminated)
next
  case True
  define k where "k = length (cstr str) - length (cstr suf)"
  have "take (length (cstr suf)) (drop k str) = drop k (cstr str)"
    using True take_cstr [of str] by (metis drop_take k_def diff_diff_cancel)
  moreover have "drop k (cstr str) = cstr suf \<longleftrightarrow> (\<exists>pre. cstr str = pre @ cstr suf)"
    using True by (auto simp: k_def) (metis append_take_drop_id)
  ultimately show ?thesis
    using assms True terminated_length [of str] terminated_length [of suf]
    by (simp add: has_suffix_def strlen_terminated mem_simps take_cstr k_def)
qed

section \<open>The dynamic buffer\<close>

text \<open>
  \<open>db_buf\<close> is the block behind \<open>buf\<close> (\<open>None\<close> is \<open>NULL\<close>), so its length is what
  the allocator handed out. The \<open>opaque\<close> pointer only serves the allocator and is part of
  \<open>db_realloc_func\<close>: old block, new size, and the new block or \<open>None\<close> on failure. Sizes
  are \<open>size_t\<close>, so their sums wrap.
\<close>

record dynbuf =
  db_buf :: "bytes option"
  db_size :: u64
  db_allocated_size :: u64
  db_error :: bool
  db_realloc_func :: "bytes option \<Rightarrow> u64 \<Rightarrow> bytes option"

definition blk :: "bytes option \<Rightarrow> bytes" where
  "blk b = (case b of None \<Rightarrow> [] | Some m \<Rightarrow> m)"

text \<open>The C library's \<open>realloc\<close>: it may fail for any size (\<open>avail\<close>), keeps the common
  prefix and leaves the rest indeterminate (\<open>junk\<close>).\<close>

definition dbuf_jsi_default_realloc ::
  "(u64 \<Rightarrow> bool) \<Rightarrow> (nat \<Rightarrow> u8) \<Rightarrow> bytes option \<Rightarrow> u64 \<Rightarrow> bytes option" where
  "dbuf_jsi_default_realloc avail junk ptr n =
     (if avail n
      then Some (take (unat n) (blk ptr) @ map junk [length (blk ptr) ..< unat n]) else None)"

definition dbuf_jsi_init2 ::
  "(bytes option \<Rightarrow> u64 \<Rightarrow> bytes option) \<Rightarrow> (bytes option \<Rightarrow> u64 \<Rightarrow> bytes option) option \<Rightarrow> dynbuf"
where
  "dbuf_jsi_init2 def_realloc realloc_func =
     \<lparr>db_buf = None, db_size = 0, db_allocated_size = 0, db_error = False,
      db_realloc_func = (case realloc_func of None \<Rightarrow> def_realloc | Some f \<Rightarrow> f)\<rparr>"

definition dbuf_jsi_init :: "(bytes option \<Rightarrow> u64 \<Rightarrow> bytes option) \<Rightarrow> dynbuf" where
  "dbuf_jsi_init def_realloc = dbuf_jsi_init2 def_realloc None"

definition dbuf_jsi_realloc :: "dynbuf \<Rightarrow> u64 \<Rightarrow> int \<times> dynbuf" where
  "dbuf_jsi_realloc s new_size =
     (if new_size > db_allocated_size s then
        if db_error s then (-1, s)
        else
          let size = db_allocated_size s * 3 div 2;
              new_size = (if size > new_size then size else new_size)
          in case db_realloc_func s (db_buf s) new_size of
               None \<Rightarrow> (-1, s\<lparr>db_error := True\<rparr>)
             | Some new_buf \<Rightarrow> (0, s\<lparr>db_buf := Some new_buf, db_allocated_size := new_size\<rparr>)
      else (0, s))"

text \<open>A block write through \<open>s->buf\<close>.\<close>

definition db_memcpy :: "dynbuf \<Rightarrow> nat \<Rightarrow> bytes \<Rightarrow> dynbuf option" where
  "db_memcpy s off src =
     (case mem_blit (blk (db_buf s)) off src of None \<Rightarrow> None
      | Some m \<Rightarrow> Some (s\<lparr>db_buf := map_option (\<lambda>_. m) (db_buf s)\<rparr>))"

definition dbuf_jsi_write :: "dynbuf \<Rightarrow> u64 \<Rightarrow> bytes \<Rightarrow> u64 \<Rightarrow> (int \<times> dynbuf) option" where
  "dbuf_jsi_write s offset data len =
     (let end = offset + len; (r, s) = dbuf_jsi_realloc s end in
      if r \<noteq> 0 then Some (-1, s)
      else do {
        d \<leftarrow> mem_slice data 0 (unat len);
        s \<leftarrow> db_memcpy s (unat offset) d;
        Some (0, if end > db_size s then s\<lparr>db_size := end\<rparr> else s)
      })"

definition dbuf_jsi_put :: "dynbuf \<Rightarrow> bytes \<Rightarrow> u64 \<Rightarrow> (int \<times> dynbuf) option" where
  "dbuf_jsi_put s data len =
     (let (r, s) = (if db_size s + len > db_allocated_size s
                    then dbuf_jsi_realloc s (db_size s + len) else (0, s)) in
      if r \<noteq> 0 then Some (-1, s)
      else do {
        d \<leftarrow> mem_slice data 0 (unat len);
        s \<leftarrow> db_memcpy s (unat (db_size s)) d;
        Some (0, s\<lparr>db_size := db_size s + len\<rparr>)
      })"

text \<open>\<open>memcpy\<close> between two overlapping ranges of the same block is undefined.\<close>

definition dbuf_jsi_put_self :: "dynbuf \<Rightarrow> u64 \<Rightarrow> u64 \<Rightarrow> (int \<times> dynbuf) option" where
  "dbuf_jsi_put_self s offset len =
     (let (r, s) = (if db_size s + len > db_allocated_size s
                    then dbuf_jsi_realloc s (db_size s + len) else (0, s)) in
      if r \<noteq> 0 then Some (-1, s)
      else if unat len \<noteq> 0 \<and> unat offset < unat (db_size s) + unat len
              \<and> unat (db_size s) < unat offset + unat len then None
      else do {
        d \<leftarrow> mem_slice (blk (db_buf s)) (unat offset) (unat len);
        s \<leftarrow> db_memcpy s (unat (db_size s)) d;
        Some (0, s\<lparr>db_size := db_size s + len\<rparr>)
      })"

definition dbuf_jsi_putc :: "dynbuf \<Rightarrow> u8 \<Rightarrow> (int \<times> dynbuf) option" where
  "dbuf_jsi_putc s c = dbuf_jsi_put s [c] 1"

definition dbuf_jsi_putstr :: "dynbuf \<Rightarrow> bytes \<Rightarrow> (int \<times> dynbuf) option" where
  "dbuf_jsi_putstr s str =
     (case strlen str of None \<Rightarrow> None | Some n \<Rightarrow> dbuf_jsi_put s str (of_nat n))"

text \<open>\<open>vsnprintf\<close> of the C library is represented by the text it formats (\<open>None\<close> when it
  reports an error); it writes at most its size argument, NUL included.\<close>

definition dbuf_jsi_printf :: "dynbuf \<Rightarrow> bytes option \<Rightarrow> (int \<times> dynbuf) option" where
  "dbuf_jsi_printf s formatted =
     (case formatted of None \<Rightarrow> Some (-1, s)
      | Some out \<Rightarrow>
          let len = of_nat (length out) :: u64 in
          if length out < 128 then dbuf_jsi_put s (out @ [0]) len
          else
            let (r, s) = dbuf_jsi_realloc s (db_size s + len + 1) in
            if r \<noteq> 0 then Some (-1, s)
            else
              let room = unat (db_allocated_size s - db_size s);
                  wr = (if room = 0 then [] else take (room - 1) out @ [0]) in
              (case db_memcpy s (unat (db_size s)) wr of None \<Rightarrow> None
               | Some s \<Rightarrow> Some (0, s\<lparr>db_size := db_size s + len\<rparr>)))"

text \<open>\<open>dbuf_jsi_free\<close> returns the block it hands back to the allocator (if any) and the
  cleared buffer; \<open>memset\<close> also clears the function pointer, so the cleared buffer keeps no
  usable allocator.\<close>

definition dbuf_jsi_free :: "dynbuf \<Rightarrow> bytes option \<times> dynbuf" where
  "dbuf_jsi_free s =
     (db_buf s,
      \<lparr>db_buf = None, db_size = 0, db_allocated_size = 0, db_error = False,
       db_realloc_func = (\<lambda>_ _. None)\<rparr>)"

section \<open>The contract of the allocator and of the buffer\<close>

text \<open>What the C standard promises of a \<open>realloc\<close>-like function.\<close>

locale reallocator =
  fixes ra :: "bytes option \<Rightarrow> u64 \<Rightarrow> bytes option"
  assumes ra_length: "ra b n = Some m \<Longrightarrow> length m = unat n"
    and ra_prefix: "ra b n = Some m \<Longrightarrow> length (blk b) \<le> unat n \<Longrightarrow> take (length (blk b)) m = blk b"

interpretation libc: reallocator "dbuf_jsi_default_realloc avail junk"
proof
  show "length m = unat n" if "dbuf_jsi_default_realloc avail junk b n = Some m" for b n m
    using that by (auto simp: dbuf_jsi_default_realloc_def split: if_splits)
  show "take (length (blk b)) m = blk b"
    if "dbuf_jsi_default_realloc avail junk b n = Some m" "length (blk b) \<le> unat n" for b n m
    using that by (auto simp: dbuf_jsi_default_realloc_def split: if_splits)
qed

text \<open>Well-formedness: the block has the recorded size and holds the used bytes.\<close>

definition dbuf_ok :: "dynbuf \<Rightarrow> bool" where
  "dbuf_ok s \<longleftrightarrow> length (blk (db_buf s)) = unat (db_allocated_size s)
     \<and> db_size s \<le> db_allocated_size s"

definition dbuf_contents :: "dynbuf \<Rightarrow> bytes" where
  "dbuf_contents s = take (unat (db_size s)) (blk (db_buf s))"

lemma dbuf_init_ok:
  "dbuf_ok (dbuf_jsi_init2 d r)" "dbuf_contents (dbuf_jsi_init2 d r) = []"
  by (simp_all add: dbuf_ok_def dbuf_contents_def dbuf_jsi_init2_def blk_def)

lemma dbuf_contents_length: "dbuf_ok s \<Longrightarrow> length (dbuf_contents s) = unat (db_size s)"
  by (simp add: dbuf_ok_def dbuf_contents_def word_le_nat_alt)

text \<open>What an operation leaves of the buffer it was given.\<close>

definition dbuf_keeps :: "dynbuf \<Rightarrow> dynbuf \<Rightarrow> bool" where
  "dbuf_keeps s s' \<longleftrightarrow> dbuf_ok s' \<and> dbuf_contents s' = dbuf_contents s
     \<and> db_size s' = db_size s \<and> db_realloc_func s' = db_realloc_func s"

lemma dbuf_keeps_refl: "dbuf_ok s \<Longrightarrow> dbuf_keeps s s"
  by (simp add: dbuf_keeps_def)

context reallocator
begin

lemma realloc_cases:
  assumes ok: "dbuf_ok s" and ra: "db_realloc_func s = ra"
    and res: "dbuf_jsi_realloc s n = (r, s')"
  shows "dbuf_keeps s s' \<and> (r = 0 \<and> n \<le> db_allocated_size s' \<or> r = -1 \<and> db_error s')"
proof (cases "n > db_allocated_size s \<and> \<not> db_error s")
    case False
    with res ok show ?thesis
      by (auto simp: dbuf_jsi_realloc_def dbuf_keeps_def split: if_splits)
  next
    case grow: True
    define m where "m = (if db_allocated_size s * 3 div 2 > n then db_allocated_size s * 3 div 2 else n)"
    have m: "n \<le> m" "db_allocated_size s \<le> m" using grow by (auto simp: m_def)
    show ?thesis
    proof (cases "ra (db_buf s) m")
      case None
      with grow res ra ok show ?thesis
        by (auto simp: dbuf_jsi_realloc_def m_def dbuf_keeps_def dbuf_ok_def dbuf_contents_def Let_def)
    next
      case (Some b)
      with grow res ra have s': "r = 0" "s' = s\<lparr>db_buf := Some b, db_allocated_size := m\<rparr>"
        by (auto simp: dbuf_jsi_realloc_def m_def Let_def)
      have len: "length (blk (db_buf s)) \<le> unat m"
        using ok m by (simp add: dbuf_ok_def word_le_nat_alt)
      have "take (unat (db_size s)) b = take (unat (db_size s)) (take (length (blk (db_buf s))) b)"
        using ok by (simp add: dbuf_ok_def word_le_nat_alt)
      then have "take (unat (db_size s)) b = take (unat (db_size s)) (blk (db_buf s))"
        using ra_prefix [OF Some len] by simp
      with s' m ra_length [OF Some] ok show ?thesis
        by (auto simp: dbuf_keeps_def dbuf_ok_def dbuf_contents_def blk_def)
    qed
  qed

end

lemma dbuf_reserve_eq:
  "(if n > db_allocated_size s then dbuf_jsi_realloc s n else (0, s)) = dbuf_jsi_realloc s n"
  by (simp add: dbuf_jsi_realloc_def)

text \<open>Writing inside the allocated block.\<close>

lemma db_memcpy_ok:
  assumes "dbuf_ok s" and "off + length d \<le> unat (db_allocated_size s)"
  shows "\<exists>s'. db_memcpy s off d = Some s' \<and> dbuf_ok s'
    \<and> blk (db_buf s') = take off (blk (db_buf s)) @ d @ drop (off + length d) (blk (db_buf s))
    \<and> db_size s' = db_size s \<and> db_error s' = db_error s
    \<and> db_allocated_size s' = db_allocated_size s \<and> db_realloc_func s' = db_realloc_func s"
  using assms
  by (cases "db_buf s") (auto simp: db_memcpy_def dbuf_ok_def mem_simps blk_def)

text \<open>Appending \<open>d\<close> to the used bytes, or reporting an allocation failure.\<close>

definition appends :: "dynbuf \<Rightarrow> bytes \<Rightarrow> int \<Rightarrow> dynbuf \<Rightarrow> bool" where
  "appends s d r s' \<longleftrightarrow> dbuf_ok s' \<and> db_realloc_func s' = db_realloc_func s
     \<and> (r = 0 \<and> dbuf_contents s' = dbuf_contents s @ d
        \<or> r = -1 \<and> db_error s' \<and> dbuf_contents s' = dbuf_contents s)"

lemma db_append_ok:
  assumes ok: "dbuf_ok s" and room: "unat (db_size s) + length d \<le> unat (db_allocated_size s)"
    and len: "length d = unat len"
  shows "\<exists>s'. db_memcpy s (unat (db_size s)) d = Some s'
    \<and> appends s d 0 (s'\<lparr>db_size := db_size s' + len\<rparr>)"
proof -
  obtain s' where s': "db_memcpy s (unat (db_size s)) d = Some s'" "dbuf_ok s'"
    "blk (db_buf s') = take (unat (db_size s)) (blk (db_buf s)) @ d
       @ drop (unat (db_size s) + length d) (blk (db_buf s))"
    "db_size s' = db_size s" "db_allocated_size s' = db_allocated_size s"
    "db_realloc_func s' = db_realloc_func s"
    using db_memcpy_ok [OF ok room] by blast
  have "unat (db_size s) + unat len < 2 ^ LENGTH(64)"
    using room len unsigned_less [of "db_allocated_size s", where ?'a = nat] by simp
  then have u: "unat (db_size s + len) = unat (db_size s) + length d"
    using len by (simp add: unat_plus_no_wrap)
  have "length (take (unat (db_size s)) (blk (db_buf s))) = unat (db_size s)"
    using dbuf_contents_length [OF ok] by (simp add: dbuf_contents_def)
  with s' u room show ?thesis
    by (auto simp: appends_def dbuf_ok_def dbuf_contents_def word_le_nat_alt)
qed

lemma appends_keeps: "dbuf_keeps s t \<Longrightarrow> appends t d r s' \<Longrightarrow> appends s d r s'"
  by (simp add: appends_def dbuf_keeps_def)

lemma appends_fail: "dbuf_keeps s t \<Longrightarrow> db_error t \<Longrightarrow> appends s d (-1) t"
  by (simp add: appends_def dbuf_keeps_def)

context reallocator
begin

lemma put_appends:
  assumes ok: "dbuf_ok s" and ra: "db_realloc_func s = ra"
    and data: "unat len \<le> length data" and nowrap: "unat (db_size s) + unat len < 2 ^ 64"
  shows "\<exists>r s'. dbuf_jsi_put s data len = Some (r, s') \<and> appends s (take (unat len) data) r s'"
proof -
  obtain r t where t: "dbuf_jsi_realloc s (db_size s + len) = (r, t)" by fastforce
  from realloc_cases [OF ok ra t] have keep: "dbuf_keeps s t" by blast
  from realloc_cases [OF ok ra t] consider
    (grown) "r = 0" "db_size s + len \<le> db_allocated_size t" | (failed) "r = -1" "db_error t"
    by blast
  then show ?thesis
  proof cases
    case failed
    with t keep show ?thesis
      by (auto simp: dbuf_jsi_put_def dbuf_reserve_eq intro: appends_fail)
  next
    case grown
    have "unat (db_size t) + length (take (unat len) data) \<le> unat (db_allocated_size t)"
      using grown keep nowrap data
      by (simp add: dbuf_keeps_def word_le_nat_alt unat_plus_no_wrap)
    then obtain s' where "db_memcpy t (unat (db_size t)) (take (unat len) data) = Some s'"
      and "appends t (take (unat len) data) 0 (s'\<lparr>db_size := db_size s' + len\<rparr>)"
      using db_append_ok [of t "take (unat len) data" len] keep data
      by (auto simp: dbuf_keeps_def)
    with grown t keep data show ?thesis
      by (auto simp: dbuf_jsi_put_def dbuf_reserve_eq mem_simps intro: appends_keeps)
  qed
qed

lemma put_self_appends:
  assumes ok: "dbuf_ok s" and ra: "db_realloc_func s = ra"
    and inside: "unat off + unat len \<le> unat (db_size s)"
    and nowrap: "unat (db_size s) + unat len < 2 ^ 64"
  shows "\<exists>r s'. dbuf_jsi_put_self s off len = Some (r, s')
    \<and> appends s (take (unat len) (drop (unat off) (dbuf_contents s))) r s'"
proof -
  obtain r t where t: "dbuf_jsi_realloc s (db_size s + len) = (r, t)" by fastforce
  from realloc_cases [OF ok ra t] have keep: "dbuf_keeps s t" by blast
  let ?d = "take (unat len) (drop (unat off) (blk (db_buf t)))"
  from realloc_cases [OF ok ra t] consider
    (grown) "r = 0" "db_size s + len \<le> db_allocated_size t" | (failed) "r = -1" "db_error t"
    by blast
  then show ?thesis
  proof cases
    case failed
    with t keep show ?thesis
      by (auto simp: dbuf_jsi_put_self_def dbuf_reserve_eq intro: appends_fail)
  next
    case grown
    have room: "unat (db_size t) + unat len \<le> unat (db_allocated_size t)"
      using grown keep nowrap by (simp add: dbuf_keeps_def word_le_nat_alt unat_plus_no_wrap)
    have blkt: "length (blk (db_buf t)) = unat (db_allocated_size t)" "db_size t = db_size s"
      using keep by (auto simp: dbuf_keeps_def dbuf_ok_def)
    have "?d = take (unat len) (drop (unat off) (dbuf_contents t))"
      using inside blkt(2) by (simp add: dbuf_contents_def take_drop_take)
    then have d: "?d = take (unat len) (drop (unat off) (dbuf_contents s))"
      using keep by (simp add: dbuf_keeps_def)
    have "length ?d = unat len" using room inside blkt by simp
    then obtain s' where "db_memcpy t (unat (db_size t)) ?d = Some s'"
      and "appends t ?d 0 (s'\<lparr>db_size := db_size s' + len\<rparr>)"
      using db_append_ok [of t ?d len] keep room by (auto simp: dbuf_keeps_def)
    with grown t keep inside blkt room d show ?thesis
      by (auto simp: dbuf_jsi_put_self_def dbuf_reserve_eq mem_simps intro: appends_keeps)
  qed
qed

lemma write_overwrites:
  assumes ok: "dbuf_ok s" and ra: "db_realloc_func s = ra"
    and off: "off \<le> db_size s" and data: "unat len \<le> length data"
    and nowrap: "unat off + unat len < 2 ^ 64"
  shows "\<exists>r s'. dbuf_jsi_write s off data len = Some (r, s') \<and> dbuf_ok s'
    \<and> (r = 0 \<and> dbuf_contents s' = take (unat off) (dbuf_contents s) @ take (unat len) data
                @ drop (unat off + unat len) (dbuf_contents s)
       \<or> r = -1 \<and> db_error s' \<and> dbuf_contents s' = dbuf_contents s)"
proof -
  obtain r t where t: "dbuf_jsi_realloc s (off + len) = (r, t)" by fastforce
  from realloc_cases [OF ok ra t] have keep: "dbuf_keeps s t" by blast
  from realloc_cases [OF ok ra t] consider
    (grown) "r = 0" "off + len \<le> db_allocated_size t" | (failed) "r = -1" "db_error t"
    by blast
  then show ?thesis
  proof cases
    case failed
    with t keep show ?thesis by (auto simp: dbuf_jsi_write_def dbuf_keeps_def)
  next
    case grown
    let ?d = "take (unat len) data"
    have u: "unat (off + len) = unat off + unat len" using nowrap by (simp add: unat_plus_no_wrap)
    have "unat off + length ?d \<le> unat (db_allocated_size t)"
      using grown data u by (simp add: word_le_nat_alt)
    then obtain s' where s': "db_memcpy t (unat off) ?d = Some s'" "dbuf_ok s'"
      "blk (db_buf s') = take (unat off) (blk (db_buf t)) @ ?d
         @ drop (unat off + length ?d) (blk (db_buf t))"
      "db_size s' = db_size t" "db_allocated_size s' = db_allocated_size t"
      using db_memcpy_ok [of t "unat off" ?d] keep by (auto simp: dbuf_keeps_def)
    have tk: "db_size t = db_size s" "dbuf_contents t = dbuf_contents s"
      "length (blk (db_buf t)) = unat (db_allocated_size t)"
      using keep by (auto simp: dbuf_keeps_def dbuf_ok_def)
    have ct: "dbuf_contents s = take (unat (db_size s)) (blk (db_buf t))"
      using tk by (simp add: dbuf_contents_def)
    let ?e = "if off + len > db_size s' then s'\<lparr>db_size := off + len\<rparr> else s'"
    have "dbuf_ok ?e" using s' grown by (auto simp: dbuf_ok_def)
    moreover have "dbuf_contents ?e = take (unat off) (dbuf_contents s) @ ?d
        @ drop (unat off + unat len) (dbuf_contents s)"
    proof -
      have "dbuf_contents ?e = take (max (unat (db_size s)) (unat off + length ?d)) (blk (db_buf s'))"
        using data u s'(4) tk by (auto simp: dbuf_contents_def word_less_nat_alt max_def)
      then show ?thesis
        using off data u tk grown keep
          take_blit [of "unat off" "unat (db_size s)" ?d "blk (db_buf t)"]
        by (simp add: ct s'(3) word_le_nat_alt dbuf_keeps_def dbuf_ok_def)
    qed
    ultimately show ?thesis
      using grown t s'(1) data by (auto simp: dbuf_jsi_write_def mem_simps Let_def)
  qed
qed

end

text \<open>Once an allocation has failed the buffer never grows again.\<close>

lemma dbuf_error_sticky:
  assumes "db_error s" and "dbuf_jsi_put s data len = Some (r, s')"
  shows "db_error s' \<and> db_allocated_size s' = db_allocated_size s"
  using assms
  by (auto simp: dbuf_jsi_put_def dbuf_reserve_eq dbuf_jsi_realloc_def db_memcpy_def
      split: if_splits option.splits Option.bind_splits)

section \<open>Properties\<close>

text \<open>Concatenating into a bounded buffer writes inside the buffer, keeps it NUL terminated and
  leaves the longest prefix of the concatenation that fits in \<open>buf_size - 1\<close> characters.\<close>

lemma pstrcat_truncates:
  assumes "terminated buf" and "terminated s"
    and "int (length (cstr buf)) < buf_size" and "buf_size \<le> int (length buf)"
  shows "\<exists>buf'. pstrcat buf buf_size s = Some buf' \<and> length buf' = length buf
    \<and> cstr buf' = take (nat (buf_size - 1)) (cstr buf @ cstr s)"
  using assms by (rule pstrcat_spec)

text \<open>C12: with the default allocator, an append to a well-formed dynamic buffer never writes outside
  the allocated block; it either appends exactly the given bytes or fails, sets the error flag and
  keeps the contents. Well-formedness is kept in both cases.\<close>

theorem dbuf_put_appends:
  assumes "dbuf_ok s" and "db_realloc_func s = dbuf_jsi_default_realloc avail junk"
    and "unat len \<le> length data" and "unat (db_size s) + unat len < 2 ^ 64"
  shows "\<exists>r s'. dbuf_jsi_put s data len = Some (r, s') \<and> dbuf_ok s'
    \<and> (r = 0 \<and> dbuf_contents s' = dbuf_contents s @ take (unat len) data
       \<or> r = -1 \<and> db_error s' \<and> dbuf_contents s' = dbuf_contents s)"
  using libc.put_appends [OF assms] by (auto simp: appends_def)

theorem dbuf_put_appends_witness:
  "\<exists>r s'. dbuf_jsi_put (dbuf_jsi_init (dbuf_jsi_default_realloc (\<lambda>n. n < 100) (\<lambda>_. 0))) [1, 2, 3] 2
       = Some (r, s') \<and> dbuf_ok s'
    \<and> (r = 0 \<and> dbuf_contents s' = [1, 2] \<or> r = -1 \<and> db_error s' \<and> dbuf_contents s' = [])"
  using dbuf_put_appends [of "dbuf_jsi_init (dbuf_jsi_default_realloc (\<lambda>n. n < 100) (\<lambda>_. 0))"
      "\<lambda>n. n < 100" "\<lambda>_. 0" 2 "[1, 2, 3]"] dbuf_init_ok
  by (simp add: dbuf_jsi_init_def dbuf_jsi_init2_def dbuf_ok_def dbuf_contents_def blk_def)

text \<open>a write at an offset inside the used part overwrites and, past the end, extends the
  contents; nothing else changes, and a failed allocation changes nothing.\<close>

lemma dbuf_write_overwrites:
  assumes "dbuf_ok s" and "db_realloc_func s = dbuf_jsi_default_realloc avail junk"
    and "off \<le> db_size s" and "unat len \<le> length data" and "unat off + unat len < 2 ^ 64"
  shows "\<exists>r s'. dbuf_jsi_write s off data len = Some (r, s') \<and> dbuf_ok s'
    \<and> (r = 0 \<and> dbuf_contents s' = take (unat off) (dbuf_contents s) @ take (unat len) data
                @ drop (unat off + unat len) (dbuf_contents s)
       \<or> r = -1 \<and> db_error s' \<and> dbuf_contents s' = dbuf_contents s)"
  using assms by (rule libc.write_overwrites)

end
