(* ===== verification/QUtf8.thy ===== *)
theory QUtf8
  imports QPrelude
begin

text \<open>
  UTF-8 encoding and decoding of code points (\<^verbatim>\<open>unicode_jsi_to_utf8\<close> and
  \<^verbatim>\<open>unicode_jsi_from_utf8\<close> of \<^verbatim>\<open>src/src/qjsi/quickjs_i.c\<close>, lines 2220 to 2319) and the
  UTF-16 surrogate arithmetic of \<^verbatim>\<open>cutils_i.h\<close>. The codec covers 31 bits (up to six bytes).
\<close>

section \<open>Definitions\<close>

text \<open>The bytes stored to \<open>buf\<close>; their number is the return value. Values of \<open>2^31\<close> and
  above store nothing and return 0.\<close>

definition unicode_jsi_to_utf8 :: "u32 \<Rightarrow> bytes" where
  "unicode_jsi_to_utf8 c =
     (let tail = (\<lambda>n. [ucast ((drop_bit n c AND 0x3f) OR 0x80)]) in
      if c < 0x80 then [ucast c]
      else if c \<ge> 0x80000000 then []
      else (if c < 0x800 then [ucast (drop_bit 6 c OR 0xc0)]
            else (if c < 0x10000 then [ucast (drop_bit 12 c OR 0xe0)]
                  else (if c < 0x200000 then [ucast (drop_bit 18 c OR 0xf0)]
                        else (if c < 0x4000000 then [ucast (drop_bit 24 c OR 0xf8)]
                              else ucast (drop_bit 30 c OR 0xfc) # tail 24) @ tail 18)
                       @ tail 12)
                 @ tail 6)
           @ tail 0)"

definition utf8_min_code :: "u32 list" where
  "utf8_min_code = [0x80, 0x800, 0x10000, 0x00200000, 0x04000000]"

definition utf8_first_code_mask :: "u32 list" where
  "utf8_first_code_mask = [0x1f, 0xf, 0x7, 0x3, 0x1]"

text \<open>The \<open>switch\<close> on the first byte: the number of continuation bytes.\<close>

definition utf8_seq_len :: "u8 \<Rightarrow> nat option" where
  "utf8_seq_len c =
     (if 0xc0 \<le> c \<and> c \<le> 0xdf then Some 1
      else if 0xe0 \<le> c \<and> c \<le> 0xef then Some 2
      else if 0xf0 \<le> c \<and> c \<le> 0xf7 then Some 3
      else if 0xf8 \<le> c \<and> c \<le> 0xfb then Some 4
      else if c = 0xfc \<or> c = 0xfd then Some 5
      else None)"

text \<open>The loop over the continuation bytes. The outer option is a read past the object, the
  inner one the result \<open>-1\<close>.\<close>

fun utf8_tail :: "nat \<Rightarrow> u32 \<Rightarrow> bytes \<Rightarrow> (u32 \<times> bytes) option option" where
  "utf8_tail 0 c p = Some (Some (c, p))"
| "utf8_tail (Suc l) c [] = None"
| "utf8_tail (Suc l) c (b # p) =
     (if b < 0x80 \<or> b \<ge> 0xc0 then Some None
      else utf8_tail l (push_bit 6 c OR (ucast b AND 0x3f)) p)"

definition unicode_jsi_from_utf8 :: "bytes \<Rightarrow> int \<Rightarrow> (u32 \<times> bytes) option option" where
  "unicode_jsi_from_utf8 p max_len =
     (case p of [] \<Rightarrow> None
      | b # p \<Rightarrow>
          if b < 0x80 then Some (Some (ucast b, p))
          else (case utf8_seq_len b of None \<Rightarrow> Some None
                | Some l \<Rightarrow>
                    if int l > max_len - 1 then Some None
                    else (case utf8_tail l (ucast b AND utf8_first_code_mask ! (l - 1)) p of
                            None \<Rightarrow> None
                          | Some None \<Rightarrow> Some None
                          | Some (Some (c, p')) \<Rightarrow>
                              if c < utf8_min_code ! (l - 1) then Some None
                              else Some (Some (c, p')))))"

definition is_surrogate :: "u32 \<Rightarrow> bool" where
  "is_surrogate c \<longleftrightarrow> drop_bit 11 c = drop_bit 11 0xD800"

definition is_hi_surrogate :: "u32 \<Rightarrow> bool" where
  "is_hi_surrogate c \<longleftrightarrow> drop_bit 10 c = drop_bit 10 0xD800"

definition is_lo_surrogate :: "u32 \<Rightarrow> bool" where
  "is_lo_surrogate c \<longleftrightarrow> drop_bit 10 c = drop_bit 10 0xDC00"

definition get_hi_surrogate :: "u32 \<Rightarrow> u32" where
  "get_hi_surrogate c = drop_bit 10 c - drop_bit 10 0x10000 + 0xD800"

definition get_lo_surrogate :: "u32 \<Rightarrow> u32" where
  "get_lo_surrogate c = (c AND 0x3FF) OR 0xDC00"

definition from_surrogate :: "u32 \<Rightarrow> u32 \<Rightarrow> u32" where
  "from_surrogate hi lo = 0x10000 + 0x400 * (hi - 0xD800) + (lo - 0xDC00)"

section \<open>Bytes as numbers\<close>

lemma take_bit_self: "unat (x :: 'a::len word) < 2 ^ k \<Longrightarrow> take_bit k x = x"
  by (simp add: word_unat_eq_iff unsigned_take_bit_eq take_bit_nat_eq_self)

lemma or_disjoint:
  assumes "take_bit k x = (x :: 'a::len word)" and "take_bit k m = 0"
  shows "x OR m = x + m"
proof -
  have "x AND m = take_bit k x AND m" using assms by simp
  also have "\<dots> = x AND take_bit k m" by (simp add: take_bit_eq_mask ac_simps)
  finally have "x AND m = 0" using assms by simp
  then show ?thesis using disjunctive_add_eq_or [of x m] by simp
qed

lemma unat_or_disjoint:
  assumes "unat (x :: 'a::len word) < 2 ^ k" and "take_bit k m = 0"
    and "unat x + unat m < 2 ^ LENGTH('a)"
  shows "unat (x OR m) = unat x + unat m"
  using assms or_disjoint [OF take_bit_self [OF assms(1)] assms(2)]
  by (simp add: unat_word_ariths)

lemma and_3f: "unat ((x :: u32) AND 0x3f) = unat x mod 64"
  using unat_and_mask [of x 6] by (simp add: mask_eq_exp_minus_1)

lemma unat_ucast_u8: "unat (x :: u32) < 256 \<Longrightarrow> unat (ucast x :: u8) = unat x"
  by (simp add: unsigned_ucast_eq take_bit_nat_eq_self)

lemma unat_tail_byte:
  "unat (ucast ((drop_bit n (c::u32) AND 0x3f) OR 0x80) :: u8) = 128 + unat c div 2 ^ n mod 64"
proof -
  let ?x = "drop_bit n c AND 0x3f"
  have x: "unat ?x = unat c div 2 ^ n mod 64" by (simp only: and_3f unat_drop_bit)
  then have "unat (?x OR 0x80) = unat ?x + 128"
    using unat_or_disjoint [of ?x 7 "0x80"] by simp
  then show ?thesis using x by (simp add: unat_ucast_u8)
qed

lemma unat_lead_byte:
  assumes "unat (c::u32) div 2 ^ n < 2 ^ k" and "take_bit k m = 0"
    and "unat m + 2 ^ k \<le> 256"
  shows "unat (ucast (drop_bit n c OR m) :: u8) = unat m + unat c div 2 ^ n"
proof -
  have x: "unat (drop_bit n c) = unat c div 2 ^ n" by (simp only: unat_drop_bit)
  then have "unat (drop_bit n c OR m) = unat c div 2 ^ n + unat m"
    using assms unat_or_disjoint [of "drop_bit n c" k m] by simp
  then show ?thesis using assms by (simp add: unat_ucast_u8)
qed

lemma unat_shift_in:
  assumes "unat c < 2 ^ 26"
  shows "unat (push_bit 6 c OR (ucast (b::u8) AND 0x3f) :: u32) = unat c * 64 + unat b mod 64"
proof -
  have b: "unat (ucast b AND 0x3f :: u32) = unat b mod 64"
    using unsigned_less [of b, where ?'a = nat]
    by (simp add: and_3f unsigned_ucast_eq take_bit_nat_eq_self)
  have p: "unat (push_bit 6 c) = unat c * 64"
    using assms unat_push_bit_small [of c 6] by simp
  have "take_bit 6 (push_bit 6 c) = 0" by (simp add: take_bit_push_bit)
  then show ?thesis
    using unat_or_disjoint [of "ucast b AND 0x3f :: u32" 6 "push_bit 6 c"] b p assms
    by (simp add: or.commute)
qed

section \<open>The encoding as numbers\<close>

definition utf8_enc :: "nat \<Rightarrow> nat list" where
  "utf8_enc n =
     (if n < 0x80 then [n]
      else if n < 0x800 then [192 + n div 64, 128 + n mod 64]
      else if n < 0x10000 then [224 + n div 4096, 128 + n div 64 mod 64, 128 + n mod 64]
      else if n < 0x200000
        then [240 + n div 262144, 128 + n div 4096 mod 64, 128 + n div 64 mod 64, 128 + n mod 64]
      else if n < 0x4000000
        then [248 + n div 16777216, 128 + n div 262144 mod 64, 128 + n div 4096 mod 64,
              128 + n div 64 mod 64, 128 + n mod 64]
      else [252 + n div 1073741824, 128 + n div 16777216 mod 64, 128 + n div 262144 mod 64,
            128 + n div 4096 mod 64, 128 + n div 64 mod 64, 128 + n mod 64])"

lemma unat_to_utf8:
  assumes "c < 0x80000000"
  shows "map unat (unicode_jsi_to_utf8 c) = utf8_enc (unat c)"
proof -
  define n where "n = unat c"
  note tail = unat_tail_byte [of _ c, folded n_def]
  have n: "n < 0x80000000" using assms by (simp add: n_def word_less_nat_alt)
  have lead:
    "n < 0x800 \<Longrightarrow> unat (ucast (drop_bit 6 c OR 0xc0) :: u8) = 192 + n div 64"
    "n < 0x10000 \<Longrightarrow> unat (ucast (drop_bit 12 c OR 0xe0) :: u8) = 224 + n div 4096"
    "n < 0x200000 \<Longrightarrow> unat (ucast (drop_bit 18 c OR 0xf0) :: u8) = 240 + n div 262144"
    "n < 0x4000000 \<Longrightarrow> unat (ucast (drop_bit 24 c OR 0xf8) :: u8) = 248 + n div 16777216"
    "unat (ucast (drop_bit 30 c OR 0xfc) :: u8) = 252 + n div 1073741824"
    using n unat_lead_byte [of c 6 5 "0xc0"] unat_lead_byte [of c 12 4 "0xe0"]
      unat_lead_byte [of c 18 3 "0xf0"] unat_lead_byte [of c 24 2 "0xf8"]
      unat_lead_byte [of c 30 1 "0xfc"]
    by (simp_all add: n_def less_mult_imp_div_less)
  have small: "n < 128 \<Longrightarrow> unat (ucast c :: u8) = n" by (simp add: n_def unat_ucast_u8)
  show ?thesis
    using assms n lead small tail [of 0] tail [of 6] tail [of 12] tail [of 18] tail [of 24]
    by (simp add: unicode_jsi_to_utf8_def utf8_enc_def word_less_nat_alt word_le_nat_alt
        n_def [symmetric] Let_def)
qed

definition is_tail :: "u8 \<Rightarrow> bool" where
  "is_tail b \<longleftrightarrow> 128 \<le> unat b \<and> unat b < 192"

abbreviation (input) utf8_acc :: "nat \<Rightarrow> bytes \<Rightarrow> nat" where
  "utf8_acc \<equiv> foldl (\<lambda>a b. a * 64 + unat b mod 64)"

lemma utf8_tail_step:
  fixes b :: u8 and c :: u32
  assumes "Suc (unat c) * 64 ^ Suc l \<le> 2 ^ 32"
  defines "c' \<equiv> (push_bit 6 c OR (ucast b AND 0x3f) :: u32)"
  shows "unat c' = unat c * 64 + unat b mod 64" and "Suc (unat c') * 64 ^ l \<le> 2 ^ 32"
proof -
  have "Suc (unat c) * 64 * 1 \<le> Suc (unat c) * 64 * 64 ^ l"
    by (rule mult_le_mono2) simp
  also have "\<dots> \<le> 2 ^ 32" using assms(1) by (simp add: algebra_simps)
  finally have "unat c < 2 ^ 26" by simp
  then show u: "unat c' = unat c * 64 + unat b mod 64"
    unfolding c'_def by (rule unat_shift_in)
  have "Suc (unat c') \<le> Suc (unat c) * 64" using u by simp
  then have "Suc (unat c') * 64 ^ l \<le> Suc (unat c) * 64 * 64 ^ l" by (rule mult_le_mono1)
  then show "Suc (unat c') * 64 ^ l \<le> 2 ^ 32" using assms(1) by (simp add: algebra_simps)
qed

lemma is_tail_iff: "is_tail b \<longleftrightarrow> \<not> (b < 0x80 \<or> b \<ge> 0xc0)"
  by (auto simp: is_tail_def word_less_nat_alt word_le_nat_alt)

lemma utf8_tail_ok:
  "Suc (unat c) * 64 ^ length bs \<le> 2 ^ 32 \<Longrightarrow> list_all is_tail bs \<Longrightarrow>
   \<exists>v. utf8_tail (length bs) c (bs @ rest) = Some (Some (v, rest)) \<and> unat v = utf8_acc (unat c) bs"
proof (induction bs arbitrary: c)
  case (Cons b bs)
  let ?c = "push_bit 6 c OR (ucast b AND 0x3f) :: u32"
  have b: "Suc (unat c) * 64 ^ Suc (length bs) \<le> 2 ^ 32" using Cons.prems(1) by simp
  obtain v where "utf8_tail (length bs) ?c (bs @ rest) = Some (Some (v, rest))"
    "unat v = utf8_acc (unat ?c) bs"
    using Cons.IH [OF utf8_tail_step(2) [OF b]] Cons.prems(2) by auto
  then show ?case using Cons.prems(2) utf8_tail_step(1) [OF b] by (auto simp: is_tail_iff)
qed simp

lemma utf8_tail_inv:
  "utf8_tail l c p = Some (Some (v, rest)) \<Longrightarrow> Suc (unat c) * 64 ^ l \<le> 2 ^ 32 \<Longrightarrow>
   \<exists>bs. p = bs @ rest \<and> length bs = l \<and> list_all is_tail bs \<and> unat v = utf8_acc (unat c) bs"
proof (induction l c p rule: utf8_tail.induct)
  case (3 l c b p)
  let ?c = "push_bit 6 c OR (ucast b AND 0x3f) :: u32"
  have b: "is_tail b" using 3 by (simp add: is_tail_iff split: if_splits)
  obtain bs where bs: "p = bs @ rest" "length bs = l" "list_all is_tail bs"
    "unat v = utf8_acc (unat ?c) bs"
    using 3 utf8_tail_step(2) [of c l b] by (auto split: if_splits)
  then show ?case
    using b utf8_tail_step(1) [OF "3.prems"(2)] by (intro exI [of _ "b # bs"]) simp
qed simp_all

section \<open>Round trips\<close>

lemma utf8_seq_len_nat:
  "utf8_seq_len b =
     (let n = unat b in
      if n < 192 then None else if n < 224 then Some 1 else if n < 240 then Some 2
      else if n < 248 then Some 3 else if n < 252 then Some 4 else if n < 254 then Some 5 else None)"
proof -
  have "b = 0xfc \<longleftrightarrow> unat b = 252" "b = 0xfd \<longleftrightarrow> unat b = 253"
    by (simp_all add: word_unat_eq_iff)
  then show ?thesis by (auto simp: utf8_seq_len_def word_le_nat_alt Let_def)
qed

lemma and_low_mask: "unat (ucast (b::u8) AND mask k :: u32) = unat b mod 2 ^ k"
  using unsigned_less [of b, where ?'a = nat]
  by (simp add: unat_and_mask unsigned_ucast_eq take_bit_nat_eq_self)

lemma unat_first_code:
  assumes "utf8_seq_len b = Some l"
  shows "unat (ucast b AND utf8_first_code_mask ! (l - 1)) = unat b mod 2 ^ (6 - l)"
    and "1 \<le> l \<and> l \<le> 5"
  using assms and_low_mask [of b 5] and_low_mask [of b 4] and_low_mask [of b 3]
    and_low_mask [of b 2] and_low_mask [of b 1]
  by (auto simp: utf8_seq_len_def utf8_first_code_mask_def mask_eq_exp_minus_1 split: if_splits)

lemma first_code_bound_exact:
  assumes "1 \<le> l \<and> l \<le> (5::nat)" shows "Suc (n mod 2 ^ (6 - l)) * 64 ^ l \<le> 2 ^ (6 + 5 * l)"
proof -
  have "Suc (n mod 2 ^ (6 - l)) \<le> 2 ^ (6 - l)" by (simp add: Suc_leI)
  then have "Suc (n mod 2 ^ (6 - l)) * 64 ^ l \<le> 2 ^ (6 - l) * 64 ^ l"
    by (rule mult_le_mono1)
  also have "\<dots> = 2 ^ (6 - l) * 2 ^ (6 * l)" by (simp add: power_mult)
  also have "\<dots> = 2 ^ (6 + 5 * l)" using assms by (simp flip: power_add)
  finally show ?thesis .
qed

lemma first_code_bound:
  assumes "1 \<le> l \<and> l \<le> (5::nat)" shows "Suc (n mod 2 ^ (6 - l)) * 64 ^ l \<le> 2 ^ 32"
proof -
  have "(2::nat) ^ (6 + 5 * l) \<le> 2 ^ 32" by (rule power_increasing) (use assms in auto)
  with first_code_bound_exact [OF assms, of n] show ?thesis by simp
qed

lemma map_unat_eq: "map unat (xs :: bytes) = map unat ys \<Longrightarrow> xs = ys"
  by (metis inj_map_eq_map inj_def word_unat_eq_iff)

lemma utf8_list_all_tail: "list_all is_tail bs \<longleftrightarrow> list_all (\<lambda>n. 128 \<le> n \<and> n < 192) (map unat bs)"
  by (simp add: list_all_iff is_tail_def)

text \<open>Decoding as a computation on the numeric values of a well-formed sequence.\<close>

lemma from_utf8_seq:
  assumes l: "utf8_seq_len b = Some l" and bs: "length bs = l" "list_all is_tail bs"
    and max: "int l \<le> max_len - 1"
  shows "\<exists>v. unat v = utf8_acc (unat b mod 2 ^ (6 - l)) bs
    \<and> unicode_jsi_from_utf8 (b # bs @ rest) max_len =
        (if v < utf8_min_code ! (l - 1) then Some None else Some (Some (v, rest)))"
proof -
  let ?c = "ucast b AND utf8_first_code_mask ! (l - 1) :: u32"
  have "Suc (unat ?c) * 64 ^ length bs \<le> 2 ^ 32"
    using unat_first_code [OF l] first_code_bound [of l "unat b"] bs(1) by simp
  from utf8_tail_ok [OF this bs(2), of rest] obtain v
    where v: "utf8_tail l ?c (bs @ rest) = Some (Some (v, rest))"
      "unat v = utf8_acc (unat b mod 2 ^ (6 - l)) bs"
    using unat_first_code(1) [OF l] bs(1) by auto
  have "\<not> b < 0x80"
    using l by (auto simp: utf8_seq_len_nat word_less_nat_alt Let_def split: if_splits)
  with v l max show ?thesis
    by (intro exI [of _ v]) (simp add: unicode_jsi_from_utf8_def)
qed

lemma utf8_mods:
  "x < 32 \<Longrightarrow> (192 + x) mod 32 = (x::nat)" "x < 16 \<Longrightarrow> (224 + x) mod 16 = (x::nat)"
  "x < 8 \<Longrightarrow> (240 + x) mod 8 = (x::nat)" "x < 4 \<Longrightarrow> (248 + x) mod 4 = (x::nat)"
  "x < 2 \<Longrightarrow> (252 + x) mod 2 = (x::nat)" "(128 + x mod 64) mod 64 = (x::nat) mod 64"
  using mod_mult_self4 [of 32 6 x] mod_mult_self4 [of 16 14 x] mod_mult_self4 [of 8 30 x]
    mod_mult_self4 [of 4 62 x] mod_mult_self4 [of 2 126 x] mod_mult_self4 [of 64 2 "x mod 64"]
  by simp_all

lemma utf8_step: "n div (m * 64) * 64 + n div m mod 64 = n div (m::nat)"
  by (simp add: div_mult2_eq)

lemmas utf8_steps = utf8_step [of n 1, simplified] utf8_step [of n 64, simplified]
  utf8_step [of n 4096, simplified] utf8_step [of n 262144, simplified]
  utf8_step [of n 16777216, simplified] for n

lemma utf8_enc_shape:
  assumes "map unat (b # bs) = utf8_enc n" and "128 \<le> n" "n < 0x80000000"
  shows "utf8_seq_len b = Some (length bs) \<and> list_all is_tail bs
    \<and> utf8_acc (unat b mod 2 ^ (6 - length bs)) bs = n
    \<and> unat (utf8_min_code ! (length bs - 1)) \<le> n"
proof -
  note shape = utf8_seq_len_nat is_tail_def utf8_min_code_def Let_def utf8_mods utf8_steps
    less_mult_imp_div_less
  consider "n < 0x800" | "0x800 \<le> n" "n < 0x10000" | "0x10000 \<le> n" "n < 0x200000"
    | "0x200000 \<le> n" "n < 0x4000000" | "0x4000000 \<le> n" by linarith
  then show ?thesis
  proof cases
    case 1
    then obtain b1 where "bs = [b1]" "unat b = 192 + n div 64" "unat b1 = 128 + n mod 64"
      using assms by (auto simp: utf8_enc_def map_eq_Cons_conv)
    then show ?thesis using 1 assms(2) by (simp add: shape)
  next
    case 2
    then obtain b1 b2 where "bs = [b1, b2]" "unat b = 224 + n div 4096"
      "unat b1 = 128 + n div 64 mod 64" "unat b2 = 128 + n mod 64"
      using assms by (auto simp: utf8_enc_def map_eq_Cons_conv)
    then show ?thesis using 2 by (simp add: shape)
  next
    case 3
    then obtain b1 b2 b3 where "bs = [b1, b2, b3]" "unat b = 240 + n div 262144"
      "unat b1 = 128 + n div 4096 mod 64" "unat b2 = 128 + n div 64 mod 64" "unat b3 = 128 + n mod 64"
      using assms by (auto simp: utf8_enc_def map_eq_Cons_conv)
    then show ?thesis using 3 by (simp add: shape)
  next
    case 4
    then obtain b1 b2 b3 b4 where "bs = [b1, b2, b3, b4]" "unat b = 248 + n div 16777216"
      "unat b1 = 128 + n div 262144 mod 64" "unat b2 = 128 + n div 4096 mod 64"
      "unat b3 = 128 + n div 64 mod 64" "unat b4 = 128 + n mod 64"
      using assms by (auto simp: utf8_enc_def map_eq_Cons_conv)
    then show ?thesis using 4 by (simp add: shape)
  next
    case 5
    then obtain b1 b2 b3 b4 b5 where "bs = [b1, b2, b3, b4, b5]" "unat b = 252 + n div 1073741824"
      "unat b1 = 128 + n div 16777216 mod 64" "unat b2 = 128 + n div 262144 mod 64"
      "unat b3 = 128 + n div 4096 mod 64" "unat b4 = 128 + n div 64 mod 64" "unat b5 = 128 + n mod 64"
      using assms by (auto simp: utf8_enc_def map_eq_Cons_conv)
    then show ?thesis using 5 assms(3) by (simp add: shape)
  qed
qed

lemma add_mod_offset:
  assumes "m dvd k" "k \<le> n" "n < k + (m::nat)" shows "n = k + n mod m"
proof -
  obtain x where x: "n = k + x" "x < m" using assms by (metis le_add_diff_inverse add_less_cancel_left)
  with assms(1) show ?thesis by (simp add: mod_add_left_eq [symmetric])
qed

lemma is_tail_mod: "is_tail b \<Longrightarrow> unat b = 128 + unat b mod 64"
  by (rule add_mod_offset) (simp_all add: is_tail_def)

definition utf8_lead :: "nat list" where
  "utf8_lead = [192, 224, 240, 248, 252]"

lemma utf8_lead_mod:
  assumes "utf8_seq_len b = Some l" shows "unat b = utf8_lead ! (l - 1) + unat b mod 2 ^ (6 - l)"
proof -
  have "(l = 1 \<and> 192 \<le> unat b \<and> unat b < 224) \<or> (l = 2 \<and> 224 \<le> unat b \<and> unat b < 240)
      \<or> (l = 3 \<and> 240 \<le> unat b \<and> unat b < 248) \<or> (l = 4 \<and> 248 \<le> unat b \<and> unat b < 252)
      \<or> (l = 5 \<and> 252 \<le> unat b \<and> unat b < 254)"
    using assms by (auto simp: utf8_seq_len_nat Let_def split: if_splits)
  then show ?thesis by (elim disjE conjE) (rule add_mod_offset; simp add: utf8_lead_def)+
qed

lemma utf8_acc_inj:
  "length bs = length bs' \<Longrightarrow> list_all is_tail bs \<Longrightarrow> list_all is_tail bs' \<Longrightarrow>
   utf8_acc h bs = utf8_acc h' bs' \<Longrightarrow> h = h' \<and> bs = bs'"
proof (induction bs bs' arbitrary: h h' rule: list_induct2)
  case (Cons b bs b' bs')
  then have eq: "h * 64 + unat b mod 64 = h' * 64 + unat b' mod 64" and "bs = bs'"
    by fastforce+
  have lt: "unat b mod 64 < 64" "unat b' mod 64 < 64" by simp_all
  have "h = h'" using eq lt by linarith
  with eq have "unat b mod 64 = unat b' mod 64" by simp
  moreover have "is_tail b" "is_tail b'" using Cons.prems by simp_all
  note is_tail_mod [OF this(1)] is_tail_mod [OF this(2)]
  ultimately have "unat b = unat b'" by metis
  then show ?case using \<open>bs = bs'\<close> \<open>h = h'\<close> by (simp add: word_unat_eq_iff)
qed simp

lemma utf8_acc_bound: "utf8_acc h bs < Suc h * 64 ^ length bs"
proof (induction bs arbitrary: h)
  case (Cons b bs)
  have "utf8_acc h (b # bs) < Suc (h * 64 + unat b mod 64) * 64 ^ length bs"
    using Cons [of "h * 64 + unat b mod 64"] by simp
  also have "\<dots> \<le> Suc h * 64 * 64 ^ length bs" by (rule mult_le_mono1) simp
  finally show ?case by (simp add: algebra_simps)
qed simp

lemma utf8_seq_bound:
  assumes "utf8_seq_len b = Some l" and "length bs = l"
  shows "utf8_acc (unat b mod 2 ^ (6 - l)) bs < 2 ^ (6 + 5 * l)"
  using utf8_acc_bound [of "unat b mod 2 ^ (6 - l)" bs] assms
    first_code_bound_exact [OF unat_first_code(2) [OF assms(1)], of "unat b"] by simp

lemma to_utf8_Cons:
  assumes "128 \<le> unat c" and "c < 0x80000000"
  obtains b bs where "unicode_jsi_to_utf8 c = b # bs" "utf8_seq_len b = Some (length bs)"
    "list_all is_tail bs" "utf8_acc (unat b mod 2 ^ (6 - length bs)) bs = unat c"
    "unat (utf8_min_code ! (length bs - 1)) \<le> unat c"
proof -
  have enc: "map unat (unicode_jsi_to_utf8 c) = utf8_enc (unat c)" by (rule unat_to_utf8 [OF assms(2)])
  then obtain b bs where b: "unicode_jsi_to_utf8 c = b # bs"
    by (cases "unicode_jsi_to_utf8 c") (auto simp: utf8_enc_def split: if_splits)
  have "unat c < 0x80000000" using assms(2) by (simp add: word_less_nat_alt)
  with utf8_enc_shape [of b bs "unat c"] enc b assms(1) show ?thesis by (auto intro: that)
qed

lemma to_utf8_small:
  "unat c < 128 \<Longrightarrow> unicode_jsi_to_utf8 c = [ucast c]"
  by (simp add: unicode_jsi_to_utf8_def word_less_nat_alt)

lemma utf8_decode_encode_small:
  assumes "unat (c::u32) < 128" shows "unicode_jsi_from_utf8 (ucast c # rest) max_len = Some (Some (c, rest))"
proof -
  have "unat (ucast c :: u8) = unat c" using assms by (simp add: unat_ucast_u8)
  moreover have "ucast (ucast c :: u8) = c"
    using assms by (simp add: word_unat_eq_iff unsigned_ucast_eq take_bit_self [of c 8])
  ultimately show ?thesis using assms by (simp add: unicode_jsi_from_utf8_def word_less_nat_alt)
qed

lemma utf8_decode_encode:
  assumes "c < 0x80000000" and "int (length (unicode_jsi_to_utf8 c)) \<le> max_len"
  shows "unicode_jsi_from_utf8 (unicode_jsi_to_utf8 c @ rest) max_len = Some (Some (c, rest))"
proof (cases "unat c < 128")
  case True
  then show ?thesis by (simp add: to_utf8_small utf8_decode_encode_small)
next
  case False
  then obtain b bs where b: "unicode_jsi_to_utf8 c = b # bs" "utf8_seq_len b = Some (length bs)"
    "list_all is_tail bs" "utf8_acc (unat b mod 2 ^ (6 - length bs)) bs = unat c"
    "unat (utf8_min_code ! (length bs - 1)) \<le> unat c"
    using to_utf8_Cons assms(1) by (metis not_less)
  obtain v where "unat v = unat c" and "unicode_jsi_from_utf8 (b # bs @ rest) max_len =
      (if v < utf8_min_code ! (length bs - 1) then Some None else Some (Some (v, rest)))"
    using from_utf8_seq [OF b(2) refl b(3), of max_len rest] assms(2) b by auto
  then show ?thesis using b by (simp add: word_unat_eq_iff word_less_nat_alt)
qed

lemma utf8_lead_inj:
  "utf8_seq_len b = Some l \<Longrightarrow> utf8_seq_len b' = Some l \<Longrightarrow>
   unat b mod 2 ^ (6 - l) = unat b' mod 2 ^ (6 - l) \<Longrightarrow> b = b'"
  using utf8_lead_mod [of b l] utf8_lead_mod [of b' l] word_unat_eq_iff [of b b'] by metis

lemma utf8_len_unique:
  assumes "1 \<le> l" "l \<le> 5" "1 \<le> l'" "l' \<le> 5"
    and "unat (utf8_min_code ! (l - 1)) \<le> n" "n < 2 ^ (6 + 5 * l)"
    and "unat (utf8_min_code ! (l' - 1)) \<le> n" "n < 2 ^ (6 + 5 * l')"
  shows "l = l'"
proof -
  have "l \<in> {1, 2, 3, 4, 5}" "l' \<in> {1, 2, 3, 4, 5}" using assms by auto
  then show ?thesis using assms(5-8) by (auto simp: utf8_min_code_def)
qed

lemma utf8_encode_decode:
  assumes "unicode_jsi_from_utf8 p max_len = Some (Some (c, rest))"
  shows "p = unicode_jsi_to_utf8 c @ rest \<and> c < 0x80000000"
proof -
  obtain b q where p: "p = b # q" using assms by (cases p) (auto simp: unicode_jsi_from_utf8_def)
  show ?thesis
  proof (cases "b < 0x80")
    case True
    then have "c = ucast b" "q = rest" using assms p by (auto simp: unicode_jsi_from_utf8_def)
    moreover have "unat (ucast b :: u32) = unat b"
      using unsigned_less [of b, where ?'a = nat] by (simp add: unsigned_ucast_eq take_bit_nat_eq_self)
    moreover have "ucast (ucast b :: u32) = b" by (simp add: ucast_up_ucast_id is_up)
    ultimately show ?thesis using True p by (simp add: to_utf8_small word_less_nat_alt)
  next
    case False
    then obtain l where l: "utf8_seq_len b = Some l"
      and t: "utf8_tail l (ucast b AND utf8_first_code_mask ! (l - 1)) q = Some (Some (c, rest))"
      and min: "unat (utf8_min_code ! (l - 1)) \<le> unat c"
      using assms p by (auto simp: unicode_jsi_from_utf8_def word_less_nat_alt
          split: option.splits if_splits)
    let ?h = "unat b mod 2 ^ (6 - l)"
    note l15 = unat_first_code(2) [OF l]
    obtain bs where bs: "q = bs @ rest" "length bs = l" "list_all is_tail bs" "unat c = utf8_acc ?h bs"
      using utf8_tail_inv [OF t] first_code_bound [OF l15] unat_first_code(1) [OF l] by auto
    have up: "unat c < 2 ^ (6 + 5 * l)" using utf8_seq_bound [OF l bs(2)] bs(4) by simp
    have "l \<in> {1, 2, 3, 4, 5}" using l15 by auto
    with up min have "c < 0x80000000" "128 \<le> unat c"
      by (auto simp: word_less_nat_alt utf8_min_code_def)
    then obtain b' bs' where e: "unicode_jsi_to_utf8 c = b' # bs'" "utf8_seq_len b' = Some (length bs')"
      "list_all is_tail bs'" "utf8_acc (unat b' mod 2 ^ (6 - length bs')) bs' = unat c"
      "unat (utf8_min_code ! (length bs' - 1)) \<le> unat c"
      using to_utf8_Cons by metis
    have "length bs' = l"
      using utf8_len_unique [of "length bs'" l "unat c"] utf8_seq_bound [OF e(2) refl]
        unat_first_code(2) [OF e(2)] l15 e min up by simp
    moreover have "utf8_acc (unat b' mod 2 ^ (6 - l)) bs' = utf8_acc ?h bs"
      using e(4) bs(4) calculation by simp
    ultimately have "unat b' mod 2 ^ (6 - l) = ?h" and "bs' = bs"
      using utf8_acc_inj [of bs' bs] bs(2,3) e(3) by metis+
    then have "b' = b \<and> bs' = bs"
      using utf8_lead_inj [of b' l b] l e(2) \<open>length bs' = l\<close> by metis
    then show ?thesis using e(1) p bs(1) \<open>c < 0x80000000\<close> by simp
  qed
qed

section \<open>Surrogate pairs\<close>

lemma get_lo_surrogate_eq: "get_lo_surrogate c = take_bit 10 c + 0xDC00"
  using or_disjoint [of 10 "take_bit 10 c" "0xDC00"] take_bit_eq_mask [of 10 c]
  by (simp add: get_lo_surrogate_def mask_eq_exp_minus_1)

lemma surrogates_join: "from_surrogate (get_hi_surrogate c) (get_lo_surrogate c) = c"
proof -
  have d: "drop_bit 10 (0x10000 :: u32) = 64" by simp
  have "from_surrogate (get_hi_surrogate c) (get_lo_surrogate c)
    = 0x400 * drop_bit 10 c + take_bit 10 c"
    unfolding from_surrogate_def get_hi_surrogate_def get_lo_surrogate_eq d
    by (simp add: algebra_simps)
  also have "\<dots> = push_bit 10 (drop_bit 10 c) + take_bit 10 c"
    by (simp only: push_bit_eq_mult) (simp add: mult.commute)
  finally show ?thesis by (simp only: bits_ident)
qed

lemma drop_bit_eq_iff_unat:
  "drop_bit n (x :: 'a::len word) = drop_bit n y \<longleftrightarrow> unat x div 2 ^ n = unat y div 2 ^ n"
  by (simp only: word_unat_eq_iff unat_drop_bit)

lemma surrogates_classified:
  assumes "0x10000 \<le> c" "c \<le> 0x10FFFF"
  shows "is_hi_surrogate (get_hi_surrogate c)" and "is_lo_surrogate (get_lo_surrogate c)"
proof -
  have n: "0x10000 \<le> unat c" "unat c \<le> 0x10FFFF" using assms by (simp_all add: word_le_nat_alt)
  have d: "unat (drop_bit 10 c) = unat c div 1024" by (simp only: unat_drop_bit) simp
  with n have r: "64 \<le> unat (drop_bit 10 c)" "unat (drop_bit 10 c) < 1088" by auto
  then have "unat (drop_bit 10 c - 64) = unat (drop_bit 10 c) - 64"
    by (simp add: unat_sub word_le_nat_alt)
  with r have "unat (get_hi_surrogate c) = unat (drop_bit 10 c) - 64 + 0xD800"
    by (simp add: get_hi_surrogate_def unat_word_ariths)
  with r show "is_hi_surrogate (get_hi_surrogate c)"
    unfolding is_hi_surrogate_def drop_bit_eq_iff_unat by auto
  have t: "unat (take_bit 10 c) = unat c mod 1024"
    unfolding unsigned_take_bit_eq by (simp add: take_bit_eq_mod)
  then have "unat (take_bit 10 c) < 1024" by simp
  moreover from this have "unat (get_lo_surrogate c) = unat (take_bit 10 c) + 0xDC00"
    unfolding get_lo_surrogate_eq by (simp only: unat_word_ariths) simp
  ultimately show "is_lo_surrogate (get_lo_surrogate c)"
    unfolding is_lo_surrogate_def drop_bit_eq_iff_unat by auto
qed

section \<open>Properties\<close>

text \<open>C10: decoding the encoding of any 31-bit code point returns the code point and the position
  after it.\<close>

theorem utf8_roundtrip:
  assumes "c < 0x80000000" and "int (length (unicode_jsi_to_utf8 c)) \<le> max_len"
  shows "unicode_jsi_from_utf8 (unicode_jsi_to_utf8 c @ rest) max_len = Some (Some (c, rest))"
  using assms by (rule utf8_decode_encode)

theorem utf8_roundtrip_witness:
  "unicode_jsi_from_utf8 (unicode_jsi_to_utf8 0x20AC @ [65]) 6 = Some (Some (0x20AC, [65]))"
  using utf8_roundtrip [of "0x20AC" 6 "[65]"] by (simp add: unicode_jsi_to_utf8_def Let_def)

text \<open>C11: the decoder is strict: it accepts only the (shortest) encoding the encoder produces, so an
  overlong or malformed sequence is rejected.\<close>

theorem utf8_canonical:
  assumes "unicode_jsi_from_utf8 p max_len = Some (Some (c, rest))"
  shows "p = unicode_jsi_to_utf8 c @ rest \<and> c < 0x80000000"
  using assms by (rule utf8_encode_decode)

theorem utf8_canonical_witness:
  "[0xC3, 0xA9, 7] = unicode_jsi_to_utf8 0xE9 @ [7 :: u8] \<and> (0xE9 :: u32) < 0x80000000"
proof -
  have "unicode_jsi_from_utf8 [0xC3, 0xA9, 7] 3 = Some (Some (0xE9, [7]))"
    by (simp add: unicode_jsi_from_utf8_def utf8_seq_len_def utf8_first_code_mask_def utf8_min_code_def)
  then show ?thesis by (rule utf8_canonical)
qed

text \<open>a supplementary code point is split into a high and a low surrogate that are recognised as
  such and that join to the code point again.\<close>

lemma surrogate_pair_roundtrip:
  assumes "0x10000 \<le> c" and "c \<le> 0x10FFFF"
  shows "is_hi_surrogate (get_hi_surrogate c) \<and> is_lo_surrogate (get_lo_surrogate c)
    \<and> from_surrogate (get_hi_surrogate c) (get_lo_surrogate c) = c"
  using surrogates_classified [OF assms] surrogates_join by auto

end
