(* ===== verification/QSort.thy ===== *)
theory QSort
  imports QPrelude
begin

text \<open>
  The introspective quicksort of the contract engine (\<^verbatim>\<open>heapsortx\<close>, \<^verbatim>\<open>med3\<close>,
  \<^verbatim>\<open>rqsort_jsi\<close> of \<^verbatim>\<open>src/src/qjsi/quickjs_i.c\<close>, lines 2461 to 2618). An array is the list
  of its elements and positions are element indices: a byte offset \<open>i * size\<close> of the source is the
  index \<open>i\<close> here, and the element exchange is \<open>swap_at\<close> (theory QExchange proves that the
  byte-wise exchange routines implement it). \<open>cmp\<close> is the caller's comparison function.
\<close>

section \<open>Heap sort\<close>

text \<open>The child of \<open>r\<close> the inner loop compares with: the second one when it is at least
  the first.\<close>

definition sift_child :: "('a \<Rightarrow> 'a \<Rightarrow> int) \<Rightarrow> 'a list \<Rightarrow> nat \<Rightarrow> nat \<Rightarrow> nat" where
  "sift_child cmp xs r n =
     (let c = 2 * r + 1 in if c < n - 1 \<and> cmp (xs ! c) (xs ! (c + 1)) \<le> 0 then c + 1 else c)"

lemma sift_child_bounds: "2 * r + 1 < n \<Longrightarrow> r < sift_child cmp xs r n \<and> sift_child cmp xs r n < n"
  by (auto simp: sift_child_def Let_def)

text \<open>The inner \<open>for\<close> loop, which sinks the element at \<open>r\<close> in the heap of size \<open>n\<close>.\<close>

function sift :: "('a \<Rightarrow> 'a \<Rightarrow> int) \<Rightarrow> 'a list \<Rightarrow> nat \<Rightarrow> nat \<Rightarrow> 'a list" where
  "sift cmp xs r n =
     (if 2 * r + 1 < n then
        (let c = sift_child cmp xs r n in
         if cmp (xs ! r) (xs ! c) > 0 then xs else sift cmp (swap_at xs r c) c n)
      else xs)"
  by pat_completeness auto
termination
  by (relation "measure (\<lambda>(cmp, xs, r, n). n - r)")
    (auto simp: diff_less_mono2 sift_child_bounds)

declare sift.simps [simp del]

fun hs_build :: "('a \<Rightarrow> 'a \<Rightarrow> int) \<Rightarrow> nat \<Rightarrow> nat \<Rightarrow> 'a list \<Rightarrow> 'a list" where
  "hs_build cmp n 0 xs = xs"
| "hs_build cmp n (Suc i) xs = hs_build cmp n i (sift cmp xs i n)"

fun hs_extract :: "('a \<Rightarrow> 'a \<Rightarrow> int) \<Rightarrow> nat \<Rightarrow> 'a list \<Rightarrow> 'a list" where
  "hs_extract cmp 0 xs = xs"
| "hs_extract cmp (Suc i) xs = hs_extract cmp i (sift cmp (swap_at xs 0 (Suc i)) 0 (Suc i))"

definition heapsortx :: "('a \<Rightarrow> 'a \<Rightarrow> int) \<Rightarrow> 'a list \<Rightarrow> 'a list" where
  "heapsortx cmp xs =
     (if length xs > 1
      then hs_extract cmp (length xs - 1) (hs_build cmp (length xs) (length xs div 2) xs)
      else xs)"

section \<open>Quick sort\<close>

definition med3 :: "('a \<Rightarrow> 'a \<Rightarrow> int) \<Rightarrow> 'a list \<Rightarrow> nat \<Rightarrow> nat \<Rightarrow> nat \<Rightarrow> nat" where
  "med3 cmp xs a b c =
     (if cmp (xs ! a) (xs ! b) < 0
      then (if cmp (xs ! b) (xs ! c) < 0 then b else if cmp (xs ! a) (xs ! c) < 0 then c else a)
      else (if cmp (xs ! b) (xs ! c) > 0 then b else if cmp (xs ! a) (xs ! c) < 0 then a else c))"

text \<open>The block exchange: \<open>k\<close> elements at \<open>a\<close> with \<open>k\<close> elements at \<open>b\<close>.\<close>

fun swap_block :: "'a list \<Rightarrow> nat \<Rightarrow> nat \<Rightarrow> nat \<Rightarrow> 'a list" where
  "swap_block xs a b 0 = xs"
| "swap_block xs a b (Suc k) = swap_block (swap_at xs a b) (Suc a) (Suc b) k"

text \<open>
  The two scans and the loop of the three-way partition. All positions are relative to the
  segment start \<open>p\<close>: \<open>i\<close> is \<open>i\<close> and \<open>pi\<close>, \<open>lt\<close> is \<open>lt\<close> and \<open>plt\<close>,
  \<open>gt\<close> is \<open>gt\<close> and \<open>pgt\<close>, which the source advances together.
\<close>

function part_up ::
  "('a \<Rightarrow> 'a \<Rightarrow> int) \<Rightarrow> nat \<Rightarrow> 'a list \<Rightarrow> nat \<Rightarrow> nat \<Rightarrow> nat \<Rightarrow> 'a list \<times> nat \<times> nat" where
  "part_up cmp p xs i lt pj =
     (if i < pj \<and> cmp (xs ! p) (xs ! (p + i)) \<ge> 0
      then if cmp (xs ! p) (xs ! (p + i)) = 0
           then part_up cmp p (swap_at xs (p + lt) (p + i)) (Suc i) (Suc lt) pj
           else part_up cmp p xs (Suc i) lt pj
      else (xs, i, lt))"
  by pat_completeness auto
termination
  by (relation "measure (\<lambda>(cmp, p, xs, i, lt, pj). pj - i)") auto

fun part_down ::
  "('a \<Rightarrow> 'a \<Rightarrow> int) \<Rightarrow> nat \<Rightarrow> 'a list \<Rightarrow> nat \<Rightarrow> nat \<Rightarrow> nat \<Rightarrow> 'a list \<times> nat \<times> nat" where
  "part_down cmp p xs i 0 gt = (xs, 0, gt)"
| "part_down cmp p xs i (Suc pj) gt =
     (if i < pj \<and> cmp (xs ! p) (xs ! (p + pj)) \<le> 0
      then if cmp (xs ! p) (xs ! (p + pj)) = 0
           then part_down cmp p (swap_at xs (p + (gt - 1)) (p + pj)) i pj (gt - 1)
           else part_down cmp p xs i pj gt
      else (xs, pj, gt))"

declare part_up.simps [simp del] part_down.simps [simp del]

lemma part_up_mono:
  "part_up cmp p xs i lt pj = (xs', i', lt') \<Longrightarrow> i \<le> i' \<and> lt \<le> lt' \<and> lt' \<le> lt + (i' - i)
     \<and> (i \<le> pj \<longrightarrow> i' \<le> pj)"
proof (induction cmp p xs i lt pj rule: part_up.induct)
  case (1 cmp p xs i lt pj)
  note eq = "1.prems" [unfolded part_up.simps [of cmp p xs i lt pj]]
  show ?case
  proof (cases "i < pj \<and> cmp (xs ! p) (xs ! (p + i)) \<ge> 0")
    case True
    show ?thesis
    proof (cases "cmp (xs ! p) (xs ! (p + i)) = 0")
      case c: True
      with eq True have "part_up cmp p (swap_at xs (p + lt) (p + i)) (Suc i) (Suc lt) pj = (xs', i', lt')"
        by simp
      from "1.IH"(1) [OF True c this] True show ?thesis by auto
    next
      case c: False
      with eq True have "part_up cmp p xs (Suc i) lt pj = (xs', i', lt')" by simp
      from "1.IH"(2) [OF True c this] True show ?thesis by auto
    qed
  next
    case False
    with eq show ?thesis by auto
  qed
qed

lemma part_down_mono:
  "part_down cmp p xs i pj gt = (xs', pj', gt') \<Longrightarrow> pj' \<le> pj - 1 \<and> gt' \<le> gt \<and> gt \<le> gt' + (pj - 1 - pj')
     \<and> (i \<le> pj \<longrightarrow> i \<le> Suc pj')"
proof (induction cmp p xs i pj gt rule: part_down.induct)
  case (2 cmp p xs i pj gt)
  note eq = "2.prems" [unfolded part_down.simps(2)]
  show ?case
  proof (cases "i < pj \<and> cmp (xs ! p) (xs ! (p + pj)) \<le> 0")
    case True
    show ?thesis
    proof (cases "cmp (xs ! p) (xs ! (p + pj)) = 0")
      case c: True
      with eq True have "part_down cmp p (swap_at xs (p + (gt - 1)) (p + pj)) i pj (gt - 1) = (xs', pj', gt')"
        by simp
      from "2.IH"(1) [OF True c this] True show ?thesis by auto
    next
      case c: False
      with eq True have "part_down cmp p xs i pj gt = (xs', pj', gt')" by simp
      from "2.IH"(2) [OF True c this] True show ?thesis by auto
    qed
  next
    case False
    with eq show ?thesis by auto
  qed
qed (simp add: part_down.simps)

function partition_loop ::
  "('a \<Rightarrow> 'a \<Rightarrow> int) \<Rightarrow> nat \<Rightarrow> 'a list \<Rightarrow> nat \<Rightarrow> nat \<Rightarrow> nat \<Rightarrow> nat \<Rightarrow> 'a list \<times> nat \<times> nat \<times> nat" where
  "partition_loop cmp p xs i lt pj gt =
     (case part_up cmp p xs i lt pj of (xs1, i1, lt1) \<Rightarrow>
        (case part_down cmp p xs1 i1 pj gt of (xs2, pj2, gt2) \<Rightarrow>
           if i1 \<ge> pj2 then (xs2, i1, lt1, gt2)
           else partition_loop cmp p (swap_at xs2 (p + i1) (p + pj2)) (Suc i1) lt1 pj2 gt2))"
  by pat_completeness auto
termination
  by (relation "measure (\<lambda>(cmp, p, xs, i, lt, pj, gt). pj - i)")
    (fastforce dest: part_up_mono [OF sym] part_down_mono [OF sym])+

declare partition_loop.simps [simp del]

lemma partition_loop_bounds:
  "partition_loop cmp p xs i lt pj gt = (xs', i', lt', gt') \<Longrightarrow>
   1 \<le> lt \<Longrightarrow> lt \<le> i \<Longrightarrow> i \<le> pj \<Longrightarrow> pj \<le> gt \<Longrightarrow>
   1 \<le> lt' \<and> lt' \<le> i' \<and> i' \<le> gt' \<and> gt' \<le> gt"
proof (induction cmp p xs i lt pj gt rule: partition_loop.induct)
  case (1 cmp p xs i lt pj gt)
  obtain xs1 i1 lt1 where up: "part_up cmp p xs i lt pj = (xs1, i1, lt1)" by (metis surj_pair)
  obtain xs2 pj2 gt2 where down: "part_down cmp p xs1 i1 pj gt = (xs2, pj2, gt2)" by (metis surj_pair)
  note b = part_up_mono [OF up] part_down_mono [OF down] "1.prems"(2-5)
  show ?case
  proof (cases "i1 \<ge> pj2")
    case True
    with "1.prems"(1) up down have "(xs', i', lt', gt') = (xs2, i1, lt1, gt2)"
      by (simp add: partition_loop.simps [of cmp p xs i lt pj gt])
    with b show ?thesis by auto
  next
    case False
    have "partition_loop cmp p (swap_at xs2 (p + i1) (p + pj2)) (Suc i1) lt1 pj2 gt2 = (xs', i', lt', gt')"
      using "1.prems"(1) up down False by (simp add: partition_loop.simps [of cmp p xs i lt pj gt])
    from "1.IH" [OF up [symmetric] refl down [symmetric] refl False this] b False
    show ?thesis by linarith
  qed
qed

text \<open>One round of the \<open>while (nmemb > 6)\<close> loop: choose the pivot, partition, and move the
  elements equal to the pivot to the middle. The result is the array, the size of the smaller part
  and the start of the greater part.\<close>

definition rq_split ::
  "('a \<Rightarrow> 'a \<Rightarrow> int) \<Rightarrow> 'a list \<Rightarrow> nat \<Rightarrow> nat \<Rightarrow> 'a list \<times> nat \<times> nat" where
  "rq_split cmp xs p n =
     (let m4 = n div 4;
          m = med3 cmp xs (p + m4) (p + 2 * m4) (p + 3 * m4);
          (xs, i, lt, gt) = partition_loop cmp p (swap_at xs p m) 1 1 n n;
          span = min lt (i - lt);
          xs = swap_block xs p (p + i - span) span;
          span2 = min (n - gt) (gt - i);
          xs = swap_block xs (p + i) (p + n - span2) span2
      in (xs, i - lt, n - (gt - i)))"

lemma rq_split_bounds:
  assumes "rq_split cmp xs p n = (xs', lt, gt)" and "1 \<le> n"
  shows "lt < gt \<and> gt \<le> n"
proof -
  obtain ys i l g where pl: "partition_loop cmp p
      (swap_at xs p (med3 cmp xs (p + n div 4) (p + 2 * (n div 4)) (p + 3 * (n div 4)))) 1 1 n n
      = (ys, i, l, g)" by (metis surj_pair)
  from partition_loop_bounds [OF pl] assms(2)
  have "1 \<le> l \<and> l \<le> i \<and> i \<le> g \<and> g \<le> n" by simp
  moreover have "lt = i - l" "gt = n - (g - i)"
    using assms(1) pl by (simp_all add: rq_split_def Let_def)
  ultimately show ?thesis by auto
qed

text \<open>Insertion sort of a small segment.\<close>

fun ins_down :: "('a \<Rightarrow> 'a \<Rightarrow> int) \<Rightarrow> nat \<Rightarrow> nat \<Rightarrow> 'a list \<Rightarrow> 'a list" where
  "ins_down cmp p 0 xs = xs"
| "ins_down cmp p (Suc j) xs =
     (if cmp (xs ! (p + j)) (xs ! (p + Suc j)) > 0
      then ins_down cmp p j (swap_at xs (p + Suc j) (p + j)) else xs)"

function ins_up :: "('a \<Rightarrow> 'a \<Rightarrow> int) \<Rightarrow> nat \<Rightarrow> nat \<Rightarrow> nat \<Rightarrow> 'a list \<Rightarrow> 'a list" where
  "ins_up cmp p i n xs = (if i < n then ins_up cmp p (Suc i) n (ins_down cmp p i xs) else xs)"
  by pat_completeness auto
termination
  by (relation "measure (\<lambda>(cmp, p, i, n, xs). n - i)") auto

declare ins_up.simps [simp del]

text \<open>Heap sort of the segment of \<open>n\<close> elements at \<open>p\<close>.\<close>

definition heap_segment :: "('a \<Rightarrow> 'a \<Rightarrow> int) \<Rightarrow> 'a list \<Rightarrow> nat \<Rightarrow> nat \<Rightarrow> 'a list" where
  "heap_segment cmp xs p n = take p xs @ heapsortx cmp (take n (drop p xs)) @ drop (p + n) xs"

text \<open>A segment that is not split: heap sort when the depth limit is reached, insertion sort when it
  is small.\<close>

definition rq_small :: "('a \<Rightarrow> 'a \<Rightarrow> int) \<Rightarrow> 'a list \<Rightarrow> nat \<Rightarrow> nat \<Rightarrow> 'a list" where
  "rq_small cmp xs p n = (if n > 6 then heap_segment cmp xs p n else ins_up cmp p 1 n xs)"

text \<open>
  The outer loop: \<open>(p, n, depth)\<close> is the segment being processed and \<open>stack\<close> the pending
  ones, top first. The array \<open>stack[50]\<close> is fixed: pushing a 51st entry would write outside it,
  and is \<open>None\<close>.
\<close>

function (sequential) rq_loop ::
  "('a \<Rightarrow> 'a \<Rightarrow> int) \<Rightarrow> 'a list \<Rightarrow> nat \<Rightarrow> nat \<Rightarrow> nat \<Rightarrow> (nat \<times> nat \<times> nat) list \<Rightarrow> 'a list option"
where
  "rq_loop cmp xs p n depth stack =
     (if n > 6 \<and> depth < 50 then
        (case rq_split cmp xs p n of (xs', lt, gt) \<Rightarrow>
           if length stack \<ge> 50 then None
           else if lt > n - gt
           then rq_loop cmp xs' (p + gt) (n - gt) (Suc depth) ((p, lt, Suc depth) # stack)
           else rq_loop cmp xs' p lt (Suc depth) ((p + gt, n - gt, Suc depth) # stack))
      else
        (case stack of [] \<Rightarrow> Some (rq_small cmp xs p n)
         | (p', n', depth') # stack' \<Rightarrow> rq_loop cmp (rq_small cmp xs p n) p' n' depth' stack'))"
  by pat_completeness auto
termination
  by (relation "measures [\<lambda>(cmp, xs, p, n, depth, stack). n + sum_list (map (\<lambda>(p, n, d). n) stack),
        \<lambda>(cmp, xs, p, n, depth, stack). length stack]")
    (auto dest: rq_split_bounds [OF sym])

declare rq_loop.simps [simp del]

definition rqsort_jsi :: "('a \<Rightarrow> 'a \<Rightarrow> int) \<Rightarrow> 'a list \<Rightarrow> 'a list option" where
  "rqsort_jsi cmp xs =
     (if length xs < 2 then Some xs else rq_loop cmp xs 0 (length xs) 0 [])"

section \<open>Permutation, bounds and termination for any comparison function\<close>

text \<open>\<open>perm_in a b xs ys\<close>: \<open>ys\<close> rearranges the positions \<open>a .. b - 1\<close> of
  \<open>xs\<close> and keeps the others.\<close>

definition perm_in :: "nat \<Rightarrow> nat \<Rightarrow> 'a list \<Rightarrow> 'a list \<Rightarrow> bool" where
  "perm_in a b xs ys \<longleftrightarrow> length ys = length xs \<and> mset ys = mset xs
     \<and> (\<forall>k < length xs. k < a \<or> b \<le> k \<longrightarrow> ys ! k = xs ! k)"

lemma perm_in_refl [simp, intro]: "perm_in a b xs xs"
  by (simp add: perm_in_def)

lemma perm_in_trans [trans]: "perm_in a b xs ys \<Longrightarrow> perm_in a b ys zs \<Longrightarrow> perm_in a b xs zs"
  by (simp add: perm_in_def)

lemma perm_in_widen: "perm_in a b xs ys \<Longrightarrow> a' \<le> a \<Longrightarrow> b \<le> b' \<Longrightarrow> perm_in a' b' xs ys"
  by (simp add: perm_in_def)

lemma perm_in_swap [intro]:
  "a \<le> i \<Longrightarrow> i < b \<Longrightarrow> a \<le> j \<Longrightarrow> j < b \<Longrightarrow> b \<le> length xs \<Longrightarrow> perm_in a b xs (swap_at xs i j)"
  by (auto simp: perm_in_def nth_swap_at)

lemma perm_in_length: "perm_in a b xs ys \<Longrightarrow> length ys = length xs"
  by (simp add: perm_in_def)

lemma perm_in_slices:
  assumes "perm_in a b xs ys" "a \<le> b" "b \<le> length xs"
  shows "mset (take (b - a) (drop a ys)) = mset (take (b - a) (drop a xs))"
proof -
  have dec: "mset zs = mset (take a zs) + mset (take (b - a) (drop a zs)) + mset (drop b zs)"
    if "length zs = length xs" for zs :: "'a list"
  proof -
    have "zs = take a zs @ take (b - a) (drop a zs) @ drop (b - a) (drop a zs)"
      by (simp only: append_take_drop_id)
    then have "mset zs = mset (take a zs) + (mset (take (b - a) (drop a zs)) + mset (drop (b - a) (drop a zs)))"
      by (metis mset_append)
    then show ?thesis using assms(2) by (simp add: add.assoc)
  qed
  have "take a ys = take a xs" "drop b ys = drop b xs"
    using assms by (auto simp: perm_in_def intro!: nth_equalityI)
  moreover have "mset ys = mset xs" "length ys = length xs" using assms(1) by (simp_all add: perm_in_def)
  ultimately have "mset (take a xs) + mset (take (b - a) (drop a ys)) + mset (drop b xs)
      = mset (take a xs) + mset (take (b - a) (drop a xs)) + mset (drop b xs)"
    using dec [OF refl] dec [of ys] by metis
  then show ?thesis by (simp only: add_right_cancel add_left_cancel)
qed

lemma perm_in_nth:
  assumes "perm_in a b xs ys" "a \<le> k" "k < b" "b \<le> length xs"
  obtains j where "a \<le> j" "j < b" "ys ! k = xs ! j"
proof -
  have "ys ! k \<in> set (take (b - a) (drop a ys))"
    using assms perm_in_length [OF assms(1)] by (auto simp: in_set_conv_nth intro!: exI [of _ "k - a"])
  then have "ys ! k \<in> set (take (b - a) (drop a xs))"
    using perm_in_slices [OF assms(1)] assms by (metis le_trans less_imp_le mset_eq_setD)
  then obtain m where "m < b - a" "ys ! k = xs ! (a + m)"
    using assms by (auto simp: in_set_conv_nth)
  then show ?thesis using that [of "a + m"] by auto
qed

lemma sift_step:
  "2 * r + 1 < n \<Longrightarrow> \<not> cmp (xs ! r) (xs ! sift_child cmp xs r n) > 0 \<Longrightarrow>
   sift cmp xs r n = sift cmp (swap_at xs r (sift_child cmp xs r n)) (sift_child cmp xs r n) n"
  by (subst sift.simps) (simp add: Let_def)

lemma sift_stop:
  "\<not> (2 * r + 1 < n \<and> \<not> cmp (xs ! r) (xs ! sift_child cmp xs r n) > 0) \<Longrightarrow> sift cmp xs r n = xs"
  by (subst sift.simps) (auto simp: Let_def)

lemma sift_perm: "r < n \<Longrightarrow> n \<le> length xs \<Longrightarrow> perm_in 0 n xs (sift cmp xs r n)"
proof (induction cmp xs r n rule: sift.induct)
  case (1 cmp xs r n)
  define c where "c = sift_child cmp xs r n"
  show ?case
  proof (cases "2 * r + 1 < n \<and> \<not> cmp (xs ! r) (xs ! c) > 0")
    case True
    then have c: "r < c" "c < n" by (auto simp: c_def sift_child_bounds)
    have "perm_in 0 n (swap_at xs r c) (sift cmp (swap_at xs r c) c n)"
      using "1.IH" [OF _ c_def] True c "1.prems" by simp
    moreover have "perm_in 0 n xs (swap_at xs r c)" using c "1.prems" by (intro perm_in_swap) auto
    ultimately show ?thesis using sift_step [of r n cmp xs] True c_def by (metis perm_in_trans)
  next
    case False
    then show ?thesis using sift_stop [of r n cmp xs] c_def by simp
  qed
qed

lemma hs_build_perm: "i \<le> n \<Longrightarrow> n \<le> length xs \<Longrightarrow> perm_in 0 n xs (hs_build cmp n i xs)"
proof (induction i arbitrary: xs)
  case (Suc i)
  have s: "perm_in 0 n xs (sift cmp xs i n)" using Suc.prems by (intro sift_perm) auto
  with Suc.prems have "perm_in 0 n (sift cmp xs i n) (hs_build cmp n i (sift cmp xs i n))"
    using perm_in_length [OF s] by (intro Suc.IH) auto
  with s show ?case by (auto intro: perm_in_trans)
qed simp

lemma hs_extract_perm: "i < length xs \<Longrightarrow> perm_in 0 (Suc i) xs (hs_extract cmp i xs)"
proof (induction i arbitrary: xs)
  case (Suc i)
  let ?ys = "sift cmp (swap_at xs 0 (Suc i)) 0 (Suc i)"
  have w: "perm_in 0 (Suc (Suc i)) u v" if "perm_in 0 (Suc i) u v" for u v :: "'a list"
    using that by (rule perm_in_widen) auto
  have "perm_in 0 (Suc (Suc i)) xs (swap_at xs 0 (Suc i))" using Suc.prems by (intro perm_in_swap) auto
  also have "perm_in 0 (Suc (Suc i)) (swap_at xs 0 (Suc i)) ?ys"
    using Suc.prems by (intro w sift_perm) auto
  finally have s: "perm_in 0 (Suc (Suc i)) xs ?ys" .
  also have "perm_in 0 (Suc (Suc i)) ?ys (hs_extract cmp i ?ys)"
    using Suc.prems perm_in_length [OF s] by (intro w Suc.IH) auto
  finally show ?case by simp
qed simp

lemma heapsortx_perm: "mset (heapsortx cmp xs) = mset xs"
proof (cases "length xs > 1")
  case True
  let ?b = "hs_build cmp (length xs) (length xs div 2) xs"
  have b: "perm_in 0 (length xs) xs ?b" by (intro hs_build_perm) auto
  then have "length xs - 1 < length ?b" using True perm_in_length [OF b] by linarith
  from hs_extract_perm [OF this, of cmp] b True show ?thesis
    by (simp add: heapsortx_def perm_in_def)
qed (simp add: heapsortx_def)

lemma heap_segment_perm:
  assumes "p + n \<le> length xs" shows "perm_in p (p + n) xs (heap_segment cmp xs p n)"
proof -
  have l: "length (heapsortx cmp (take n (drop p xs))) = n"
    using heapsortx_perm [of cmp "take n (drop p xs)"] assms by (metis size_mset length_take length_drop
      add_le_imp_le_diff min.absorb2 add.commute)
  have "mset xs = mset (take p xs @ take n (drop p xs) @ drop n (drop p xs))"
    by (simp only: append_take_drop_id)
  with l assms show ?thesis
    by (auto simp: perm_in_def heap_segment_def heapsortx_perm nth_append add.commute)
qed

section \<open>The partition\<close>

text \<open>
  The comment of the source on the four parts of the array, as an invariant of the scans for the
  pivot value \<open>v\<close>: equal in \<open>0 .. lt\<close>, smaller in \<open>lt .. i\<close>, not yet looked at in
  \<open>i .. pj\<close>, greater in \<open>pj .. gt\<close>, equal in \<open>gt .. n\<close>.
\<close>

definition part_inv ::
  "('a \<Rightarrow> 'a \<Rightarrow> int) \<Rightarrow> 'a \<Rightarrow> nat \<Rightarrow> nat \<Rightarrow> 'a list \<Rightarrow> nat \<Rightarrow> nat \<Rightarrow> nat \<Rightarrow> nat \<Rightarrow> bool" where
  "part_inv cmp v p n xs i lt pj gt \<longleftrightarrow>
     xs ! p = v \<and> p + n \<le> length xs \<and> 1 \<le> lt \<and> lt \<le> i \<and> i \<le> pj \<and> pj \<le> gt \<and> gt \<le> n
     \<and> (\<forall>k. 1 \<le> k \<and> k < lt \<longrightarrow> cmp v (xs ! (p + k)) = 0)
     \<and> (\<forall>k. lt \<le> k \<and> k < i \<longrightarrow> cmp v (xs ! (p + k)) > 0)
     \<and> (\<forall>k. pj \<le> k \<and> k < gt \<longrightarrow> cmp v (xs ! (p + k)) < 0)
     \<and> (\<forall>k. gt \<le> k \<and> k < n \<longrightarrow> cmp v (xs ! (p + k)) = 0)"

lemma part_inv_up_eq:
  assumes "part_inv cmp v p n xs i lt pj gt" "i < pj" "cmp v (xs ! (p + i)) = 0"
  shows "part_inv cmp v p n (swap_at xs (p + lt) (p + i)) (Suc i) (Suc lt) pj gt"
    and "perm_in (Suc p) (p + n) xs (swap_at xs (p + lt) (p + i))"
proof -
  note inv = assms(1) [unfolded part_inv_def]
  have nth: "swap_at xs (p + lt) (p + i) ! m
      = (if m = p + lt then xs ! (p + i) else if m = p + i then xs ! (p + lt) else xs ! m)" for m
    using inv assms(2) by (intro nth_swap_at) auto
  show "part_inv cmp v p n (swap_at xs (p + lt) (p + i)) (Suc i) (Suc lt) pj gt"
    unfolding part_inv_def nth using inv assms(2,3) by (auto simp: less_Suc_eq)
  show "perm_in (Suc p) (p + n) xs (swap_at xs (p + lt) (p + i))"
    using inv assms(2) by (intro perm_in_swap) auto
qed

lemma part_inv_up_gt:
  assumes "part_inv cmp v p n xs i lt pj gt" "i < pj" "cmp v (xs ! (p + i)) > 0"
  shows "part_inv cmp v p n xs (Suc i) lt pj gt"
  using assms unfolding part_inv_def by (auto simp: less_Suc_eq)

lemma part_up_inv:
  "part_up cmp p xs i lt pj = (xs', i', lt') \<Longrightarrow> part_inv cmp v p n xs i lt pj gt \<Longrightarrow>
   part_inv cmp v p n xs' i' lt' pj gt \<and> perm_in (Suc p) (p + n) xs xs'
     \<and> (i' < pj \<longrightarrow> cmp v (xs' ! (p + i')) < 0)"
proof (induction cmp p xs i lt pj rule: part_up.induct)
  case (1 cmp p xs i lt pj)
  note eq = "1.prems"(1) [unfolded part_up.simps [of cmp p xs i lt pj]] and inv = "1.prems"(2)
  have v: "xs ! p = v" using inv by (simp add: part_inv_def)
  show ?case
  proof (cases "i < pj \<and> cmp (xs ! p) (xs ! (p + i)) \<ge> 0")
    case True
    show ?thesis
    proof (cases "cmp (xs ! p) (xs ! (p + i)) = 0")
      case c: True
      let ?ys = "swap_at xs (p + lt) (p + i)"
      have r: "part_up cmp p ?ys (Suc i) (Suc lt) pj = (xs', i', lt')" using eq True c by simp
      note st = part_inv_up_eq [OF inv] True c v
      show ?thesis using "1.IH"(1) [OF True c r] st by (auto intro: perm_in_trans)
    next
      case c: False
      have r: "part_up cmp p xs (Suc i) lt pj = (xs', i', lt')" using eq True c by simp
      show ?thesis using "1.IH"(2) [OF True c r] part_inv_up_gt [OF inv] True c v by auto
    qed
  next
    case False
    with eq inv v show ?thesis by auto
  qed
qed

lemma part_invI:
  assumes "xs ! p = v" "p + n \<le> length xs" "1 \<le> lt" "lt \<le> i" "i \<le> pj" "pj \<le> gt" "gt \<le> n"
    and "\<And>k. 1 \<le> k \<Longrightarrow> k < lt \<Longrightarrow> cmp v (xs ! (p + k)) = 0"
    and "\<And>k. lt \<le> k \<Longrightarrow> k < i \<Longrightarrow> cmp v (xs ! (p + k)) > 0"
    and "\<And>k. pj \<le> k \<Longrightarrow> k < gt \<Longrightarrow> cmp v (xs ! (p + k)) < 0"
    and "\<And>k. gt \<le> k \<Longrightarrow> k < n \<Longrightarrow> cmp v (xs ! (p + k)) = 0"
  shows "part_inv cmp v p n xs i lt pj gt"
  using assms by (simp add: part_inv_def)

lemma part_inv_down_lt:
  assumes inv: "part_inv cmp v p n xs i lt (Suc q) gt" and "i \<le> q" "cmp v (xs ! (p + q)) < 0"
  shows "part_inv cmp v p n xs i lt q gt"
proof (rule part_invI)
  fix k assume "q \<le> k" "k < gt"
  then show "cmp v (xs ! (p + k)) < 0"
    using inv assms(3) by (cases "k = q") (auto simp: part_inv_def)
qed (use assms in \<open>auto simp: part_inv_def\<close>)

lemma part_inv_down_eq:
  assumes inv: "part_inv cmp v p n xs i lt (Suc q) gt" and "i < q" "cmp v (xs ! (p + q)) = 0"
  shows "part_inv cmp v p n (swap_at xs (p + (gt - 1)) (p + q)) i lt q (gt - 1)"
    and "perm_in (Suc p) (p + n) xs (swap_at xs (p + (gt - 1)) (p + q))"
    and "swap_at xs (p + (gt - 1)) (p + q) ! (p + i) = xs ! (p + i)"
proof -
  define g where "g = gt - 1"
  have g: "gt = Suc g" "i < g" "q \<le> g" "g < n" "p + n \<le> length xs" "1 \<le> lt" "lt \<le> i"
    using inv assms(2) by (auto simp: part_inv_def g_def)
  have nth: "swap_at xs (p + g) (p + q) ! m
      = (if m = p + g then xs ! (p + q) else if m = p + q then xs ! (p + g) else xs ! m)" for m
    using g by (intro nth_swap_at) auto
  have "part_inv cmp v p n (swap_at xs (p + g) (p + q)) i lt q g"
  proof (rule part_invI)
    fix k assume "q \<le> k" "k < g"
    then show "cmp v (swap_at xs (p + g) (p + q) ! (p + k)) < 0"
      using inv g unfolding nth by (cases "k = q") (auto simp: part_inv_def)
  next
    fix k assume "g \<le> k" "k < n"
    then show "cmp v (swap_at xs (p + g) (p + q) ! (p + k)) = 0"
      using inv g assms(3) unfolding nth by (cases "k = g") (auto simp: part_inv_def)
  qed (use inv g assms(2) in \<open>auto simp: part_inv_def nth\<close>)
  then show "part_inv cmp v p n (swap_at xs (p + (gt - 1)) (p + q)) i lt q (gt - 1)"
    by (simp add: g_def)
  show "perm_in (Suc p) (p + n) xs (swap_at xs (p + (gt - 1)) (p + q))"
    using g assms(2) by (intro perm_in_swap) auto
  show "swap_at xs (p + (gt - 1)) (p + q) ! (p + i) = xs ! (p + i)"
    using nth [of "p + i"] g assms(2) by simp
qed

text \<open>After the downward scan either the middle part is empty or both scans found an element
  of the wrong side.\<close>

lemma part_down_inv:
  "part_down cmp p xs i pj gt = (xs', pj', gt') \<Longrightarrow> part_inv cmp v p n xs i lt pj gt \<Longrightarrow>
   (i < pj \<Longrightarrow> cmp v (xs ! (p + i)) < 0) \<Longrightarrow>
   perm_in (Suc p) (p + n) xs xs'
   \<and> (if pj' \<le> i then part_inv cmp v p n xs' i lt i gt'
      else part_inv cmp v p n xs' i lt (Suc pj') gt' \<and> cmp v (xs' ! (p + i)) < 0
           \<and> cmp v (xs' ! (p + pj')) > 0)"
proof (induction cmp p xs i pj gt rule: part_down.induct)
  case (1 cmp p xs i gt)
  then show ?case by (auto simp: part_inv_def)
next
  case (2 cmp p xs i q gt)
  note eq = "2.prems"(1) [unfolded part_down.simps(2)] and inv = "2.prems"(2)
  have v: "xs ! p = v" using inv by (simp add: part_inv_def)
  show ?case
  proof (cases "i < q \<and> cmp (xs ! p) (xs ! (p + q)) \<le> 0")
    case True
    then have i: "cmp v (xs ! (p + i)) < 0" using "2.prems"(3) by simp
    show ?thesis
    proof (cases "cmp (xs ! p) (xs ! (p + q)) = 0")
      case c: True
      have r: "part_down cmp p (swap_at xs (p + (gt - 1)) (p + q)) i q (gt - 1) = (xs', pj', gt')"
        using eq True c by simp
      show ?thesis
        using "2.IH"(1) [OF True c r] part_inv_down_eq [OF inv] True c v i
        by (auto intro: perm_in_trans)
    next
      case c: False
      have r: "part_down cmp p xs i q gt = (xs', pj', gt')" using eq True c by simp
      show ?thesis using "2.IH"(2) [OF True c r] part_inv_down_lt [OF inv] True c v i by auto
    qed
  next
    case False
    with eq have r: "xs' = xs" "pj' = q" "gt' = gt" by auto
    show ?thesis
    proof (cases "q \<le> i")
      case q: True
      have "part_inv cmp v p n xs i lt i gt"
      proof (cases "i = q")
        case i: True
        then show ?thesis using part_inv_down_lt [OF inv] "2.prems"(3) by auto
      next
        case i: False
        then have "i = Suc q" using inv q by (simp add: part_inv_def)
        then show ?thesis using inv by simp
      qed
      then show ?thesis using r q by auto
    next
      case q: False
      then show ?thesis using r False inv v "2.prems"(3) by auto
    qed
  qed
qed

lemma part_inv_cross:
  assumes inv: "part_inv cmp v p n xs i lt (Suc q) gt" and "i < q"
    and lo: "cmp v (xs ! (p + i)) < 0" and hi: "cmp v (xs ! (p + q)) > 0"
  shows "part_inv cmp v p n (swap_at xs (p + i) (p + q)) (Suc i) lt q gt"
    and "perm_in (Suc p) (p + n) xs (swap_at xs (p + i) (p + q))"
proof -
  have b: "p + n \<le> length xs" "1 \<le> lt" "lt \<le> i" "q < n" "q < gt" "gt \<le> n" "xs ! p = v"
    using inv by (auto simp: part_inv_def)
  have nth: "swap_at xs (p + i) (p + q) ! m
      = (if m = p + i then xs ! (p + q) else if m = p + q then xs ! (p + i) else xs ! m)" for m
    using b assms(2) by (intro nth_swap_at) auto
  show "part_inv cmp v p n (swap_at xs (p + i) (p + q)) (Suc i) lt q gt"
  proof (rule part_invI)
    fix k assume "lt \<le> k" "k < Suc i"
    then show "cmp v (swap_at xs (p + i) (p + q) ! (p + k)) > 0"
      using inv assms(2) hi unfolding nth by (cases "k = i") (auto simp: part_inv_def)
  next
    fix k assume "q \<le> k" "k < gt"
    then show "cmp v (swap_at xs (p + i) (p + q) ! (p + k)) < 0"
      using inv assms(2) lo unfolding nth by (cases "k = q") (auto simp: part_inv_def)
  qed (use inv b assms(2) in \<open>auto simp: part_inv_def nth\<close>)
  show "perm_in (Suc p) (p + n) xs (swap_at xs (p + i) (p + q))"
    using b assms(2) by (intro perm_in_swap) auto
qed

lemma partition_loop_inv:
  "partition_loop cmp p xs i lt pj gt = (xs', i', lt', gt') \<Longrightarrow> part_inv cmp v p n xs i lt pj gt \<Longrightarrow>
   perm_in (Suc p) (p + n) xs xs' \<and> part_inv cmp v p n xs' i' lt' i' gt'"
proof (induction cmp p xs i lt pj gt rule: partition_loop.induct)
  case (1 cmp p xs i lt pj gt)
  obtain xs1 i1 lt1 where up: "part_up cmp p xs i lt pj = (xs1, i1, lt1)" by (metis surj_pair)
  obtain xs2 pj2 gt2 where down: "part_down cmp p xs1 i1 pj gt = (xs2, pj2, gt2)" by (metis surj_pair)
  note u = part_up_inv [OF up "1.prems"(2)]
  then have d: "perm_in (Suc p) (p + n) xs1 xs2
   \<and> (if pj2 \<le> i1 then part_inv cmp v p n xs2 i1 lt1 i1 gt2
      else part_inv cmp v p n xs2 i1 lt1 (Suc pj2) gt2 \<and> cmp v (xs2 ! (p + i1)) < 0
           \<and> cmp v (xs2 ! (p + pj2)) > 0)"
    by (intro part_down_inv [OF down]) auto
  from u d have perm: "perm_in (Suc p) (p + n) xs xs2" by (blast intro: perm_in_trans)
  show ?case
  proof (cases "i1 \<ge> pj2")
    case True
    with "1.prems"(1) up down have "(xs', i', lt', gt') = (xs2, i1, lt1, gt2)"
      by (simp add: partition_loop.simps [of cmp p xs i lt pj gt])
    with d True perm show ?thesis by auto
  next
    case False
    have r: "partition_loop cmp p (swap_at xs2 (p + i1) (p + pj2)) (Suc i1) lt1 pj2 gt2 = (xs', i', lt', gt')"
      using "1.prems"(1) up down False by (simp add: partition_loop.simps [of cmp p xs i lt pj gt])
    have c: "part_inv cmp v p n (swap_at xs2 (p + i1) (p + pj2)) (Suc i1) lt1 pj2 gt2"
      "perm_in (Suc p) (p + n) xs2 (swap_at xs2 (p + i1) (p + pj2))"
      using part_inv_cross [of cmp v p n xs2 i1 lt1 pj2 gt2] d False by auto
    from "1.IH" [OF up [symmetric] refl down [symmetric] refl False r c(1)] perm c(2)
    show ?thesis by (blast intro: perm_in_trans)
  qed
qed

lemma swap_block_length [simp]: "length (swap_block xs a b k) = length xs"
  by (induction xs a b k rule: swap_block.induct) auto

lemma swap_block_nth:
  "a + k \<le> b \<Longrightarrow> b + k \<le> length xs \<Longrightarrow>
   swap_block xs a b k ! j =
     (if a \<le> j \<and> j < a + k then xs ! (b + (j - a))
      else if b \<le> j \<and> j < b + k then xs ! (a + (j - b)) else xs ! j)"
proof (induction xs a b k rule: swap_block.induct)
  case (2 xs a b k)
  have IH: "swap_block (swap_at xs a b) (Suc a) (Suc b) k ! j =
     (if Suc a \<le> j \<and> j < Suc a + k then swap_at xs a b ! (Suc b + (j - Suc a))
      else if Suc b \<le> j \<and> j < Suc b + k then swap_at xs a b ! (Suc a + (j - Suc b))
      else swap_at xs a b ! j)" using 2 by simp
  have sw: "swap_at xs a b ! m = (if m = a then xs ! b else if m = b then xs ! a else xs ! m)" for m
    using 2 by (intro nth_swap_at) auto
  consider "j = a" | "j = b" | "Suc a \<le> j" "j < Suc a + k" | "Suc b \<le> j" "j < Suc b + k"
    | "j < a \<or> a + k < j \<and> j < b \<or> b + k < j" by linarith
  then show ?case
  proof cases
    case 3
    have "Suc b + (j - Suc a) = b + (j - a)" "b + (j - a) \<noteq> a" "b + (j - a) \<noteq> b"
      using 3 "2.prems" by auto
    then show ?thesis using 3 IH sw [of "b + (j - a)"] by simp
  next
    case 4
    have "Suc a + (j - Suc b) = a + (j - b)" "a + (j - b) \<noteq> a" "a + (j - b) \<noteq> b"
      using 4 "2.prems" by auto
    then show ?thesis using 4 IH sw [of "a + (j - b)"] "2.prems" by simp
  qed (use 2 IH sw [of j] in auto)
qed auto

lemma swap_block_perm:
  "l \<le> a \<Longrightarrow> a + k \<le> u \<Longrightarrow> l \<le> b \<Longrightarrow> b + k \<le> u \<Longrightarrow> u \<le> length xs \<Longrightarrow>
   perm_in l u xs (swap_block xs a b k)"
proof (induction xs a b k rule: swap_block.induct)
  case (2 xs a b k)
  have "perm_in l u xs (swap_at xs a b)" using 2 by (intro perm_in_swap) auto
  moreover have "perm_in l u (swap_at xs a b) (swap_block (swap_at xs a b) (Suc a) (Suc b) k)"
    using 2 by (intro "2.IH") auto
  ultimately show ?case by (auto intro: perm_in_trans)
qed simp

text \<open>Exchanging the smaller of two adjacent blocks with the far end of the other moves the first
  block behind the second.\<close>

lemma block_rotate:
  assumes l: "l \<le> tot" and tot: "b + tot \<le> length xs"
    and P: "\<And>k. k < l \<Longrightarrow> P (xs ! (b + k))"
    and Q: "\<And>k. l \<le> k \<Longrightarrow> k < tot \<Longrightarrow> Q (xs ! (b + k))"
  defines "span \<equiv> min l (tot - l)"
  defines "ys \<equiv> swap_block xs b (b + tot - span) span"
  shows "k < tot - l \<Longrightarrow> Q (ys ! (b + k))"
    and "tot - l \<le> k \<Longrightarrow> k < tot \<Longrightarrow> P (ys ! (b + k))"
    and "m < b \<or> b + tot \<le> m \<Longrightarrow> ys ! m = xs ! m"
proof -
  have sp: "2 * span \<le> tot" using l by (auto simp: span_def)
  have nth: "ys ! j = (if b \<le> j \<and> j < b + span then xs ! (b + tot - span + (j - b))
      else if b + tot - span \<le> j \<and> j < b + tot - span + span then xs ! (b + (j - (b + tot - span)))
      else xs ! j)" for j
    unfolding ys_def by (rule swap_block_nth) (use sp tot in auto)
  show "Q (ys ! (b + k))" if k: "k < tot - l"
  proof (cases "k < span")
    case True
    then have "ys ! (b + k) = xs ! (b + (tot - span + k))" using sp by (simp add: nth add.assoc)
    then show ?thesis using Q [of "tot - span + k"] True l by (auto simp: span_def)
  next
    case False
    moreover have "\<not> tot - span \<le> k" using False k l by (auto simp: span_def min_def split: if_splits)
    ultimately have "ys ! (b + k) = xs ! (b + k)" using sp by (auto simp: nth)
    moreover have "l \<le> k" using False k by (auto simp: span_def)
    ultimately show ?thesis using Q [of k] k by simp
  qed
  show "P (ys ! (b + k))" if k: "tot - l \<le> k" "k < tot"
  proof (cases "tot - span \<le> k")
    case True
    then have "ys ! (b + k) = xs ! (b + (k - (tot - span)))" using sp k by (auto simp: nth)
    then show ?thesis using P [of "k - (tot - span)"] True k l by (auto simp: span_def)
  next
    case False
    then have "\<not> k < span" "k < l" using k l by (auto simp: span_def min_def split: if_splits)
    moreover from this False have "ys ! (b + k) = xs ! (b + k)" using sp by (auto simp: nth)
    ultimately show ?thesis using P [of k] by simp
  qed
  show "ys ! m = xs ! m" if "m < b \<or> b + tot \<le> m" using that sp by (auto simp: nth)
qed

lemma med3_range: "a < u \<Longrightarrow> b < u \<Longrightarrow> c < u \<Longrightarrow> l \<le> a \<Longrightarrow> l \<le> b \<Longrightarrow> l \<le> c \<Longrightarrow>
  l \<le> med3 cmp xs a b c \<and> med3 cmp xs a b c < u"
  by (simp add: med3_def)

lemma rq_split_spec:
  assumes res: "rq_split cmp xs p n = (xs', lt, gt)" and len: "p + n \<le> length xs" and n: "1 \<le> n"
  shows "perm_in p (p + n) xs xs'"
    and "\<exists>v. (\<forall>k < lt. cmp v (xs' ! (p + k)) > 0)
      \<and> (\<forall>k. lt \<le> k \<and> k < gt \<longrightarrow> cmp v (xs' ! (p + k)) = 0 \<or> xs' ! (p + k) = v)
      \<and> (\<forall>k. gt \<le> k \<and> k < n \<longrightarrow> cmp v (xs' ! (p + k)) < 0)"
proof -
  define m where "m = med3 cmp xs (p + n div 4) (p + 2 * (n div 4)) (p + 3 * (n div 4))"
  have m: "p \<le> m" "m < p + n"
    using n med3_range [of "p + n div 4" "p + n" "p + 2 * (n div 4)" "p + 3 * (n div 4)" p cmp xs]
    by (simp_all add: m_def)
  define v where "v = swap_at xs p m ! p"
  obtain ys i l g where pl: "partition_loop cmp p (swap_at xs p m) 1 1 n n = (ys, i, l, g)"
    by (metis surj_pair)
  have "part_inv cmp v p n (swap_at xs p m) 1 1 n n"
    by (rule part_invI) (use len n in \<open>auto simp: v_def\<close>)
  from partition_loop_inv [OF pl this] have py: "perm_in (Suc p) (p + n) (swap_at xs p m) ys"
    and inv: "part_inv cmp v p n ys i l i g" by auto
  have b: "1 \<le> l" "l \<le> i" "i \<le> g" "g \<le> n" "ys ! p = v" "p + n \<le> length ys"
    using inv by (auto simp: part_inv_def)
  define zs where "zs = swap_block ys p (p + i - min l (i - l)) (min l (i - l))"
  define ws where "ws = swap_block zs (p + i) (p + n - min (n - g) (g - i)) (min (n - g) (g - i))"
  have r: "xs' = ws" "lt = i - l" "gt = n - (g - i)"
    using res pl by (auto simp: rq_split_def Let_def m_def zs_def ws_def)
  have "perm_in p (p + n) xs (swap_at xs p m)" using m len by (intro perm_in_swap) auto
  also have "perm_in p (p + n) (swap_at xs p m) ys" using py by (rule perm_in_widen) auto
  also have "perm_in p (p + n) ys zs" unfolding zs_def using b by (intro swap_block_perm) auto
  also have "perm_in p (p + n) zs ws" unfolding ws_def using b
    by (intro swap_block_perm) (auto simp: zs_def)
  finally show "perm_in p (p + n) xs xs'" by (simp add: r)
  let ?E = "\<lambda>x. cmp v x = 0 \<or> x = v"
  have E: "?E (ys ! (p + k))" if "k < l" for k
    using that inv b(5) by (cases "k = 0") (auto simp: part_inv_def)
  have G: "cmp v (ys ! (p + k)) > 0" if "l \<le> k" "k < i" for k using that inv by (auto simp: part_inv_def)
  note z = block_rotate [of l i p ys ?E "\<lambda>x. cmp v x > 0", folded zs_def, OF b(2) _ E G]
  have L: "cmp v (zs ! (p + i + k)) < 0" if "k < g - i" for k
    using z(3) [of "p + i + k"] b that inv by (auto simp: part_inv_def add.assoc)
  have E2: "?E (zs ! (p + i + k))" if "g - i \<le> k" "k < n - i" for k
  proof -
    have "g \<le> i + k" "i + k < n" using that b by auto
    then have "cmp v (ys ! (p + (i + k))) = 0" using inv unfolding part_inv_def by blast
    then show ?thesis using z(3) [of "p + i + k"] b by (simp add: add.assoc)
  qed
  have eqs: "p + i + (n - i) = p + n" "n - i - (g - i) = n - g" using b by auto
  have h: "g - i \<le> n - i" "p + i + (n - i) \<le> length zs" using b by (auto simp: zs_def)
  note w = block_rotate [of "g - i" "n - i" "p + i" zs "\<lambda>x. cmp v x < 0" ?E, OF h L E2,
      unfolded eqs min.commute [of "g - i" "n - g"], folded ws_def]
  have low: "ws ! (p + k) = zs ! (p + k)" if "k < i" for k using w(3) [of "p + k"] that by simp
  show "\<exists>v. (\<forall>k < lt. cmp v (xs' ! (p + k)) > 0)
      \<and> (\<forall>k. lt \<le> k \<and> k < gt \<longrightarrow> cmp v (xs' ! (p + k)) = 0 \<or> xs' ! (p + k) = v)
      \<and> (\<forall>k. gt \<le> k \<and> k < n \<longrightarrow> cmp v (xs' ! (p + k)) < 0)"
  proof (intro exI [of _ v] conjI allI impI)
    show "cmp v (xs' ! (p + k)) > 0" if "k < lt" for k
      using that z(1) [of k] low [of k] b r by simp
    show "cmp v (xs' ! (p + k)) = 0 \<or> xs' ! (p + k) = v" if "lt \<le> k \<and> k < gt" for k
    proof (cases "k < i")
      case True
      then show ?thesis using that z(2) [of k] low [of k] b r by simp
    next
      case False
      then obtain j where "k = i + j" by (metis le_add_diff_inverse not_less)
      moreover from this have "j < n - g" using that b r by linarith
      ultimately show ?thesis using w(1) [of j] r by (simp add: add.assoc)
    qed
    show "cmp v (xs' ! (p + k)) < 0" if "gt \<le> k \<and> k < n" for k
    proof -
      have "i \<le> k" using that b r by linarith
      then obtain j where "k = i + j" by (metis le_add_diff_inverse)
      moreover from this have "n - g \<le> j" "j < n - i" using that b r by linarith+
      ultimately show ?thesis using w(2) [of j] r by (simp add: add.assoc)
    qed
  qed
qed

section \<open>The whole sort returns a permutation for any comparison function\<close>

lemma ins_down_perm: "j < n \<Longrightarrow> p + n \<le> length xs \<Longrightarrow> perm_in p (p + n) xs (ins_down cmp p j xs)"
proof (induction cmp p j xs rule: ins_down.induct)
  case (2 cmp p j xs)
  have "perm_in p (p + n) xs (swap_at xs (p + Suc j) (p + j))" using 2 by (intro perm_in_swap) auto
  with 2 show ?case by (auto intro: perm_in_trans)
qed simp

lemma ins_up_perm: "p + n \<le> length xs \<Longrightarrow> perm_in p (p + n) xs (ins_up cmp p i n xs)"
proof (induction cmp p i n xs rule: ins_up.induct)
  case (1 cmp p i n xs)
  show ?case
  proof (cases "i < n")
    case True
    have s: "perm_in p (p + n) xs (ins_down cmp p i xs)" using True "1.prems" by (rule ins_down_perm)
    then have "perm_in p (p + n) (ins_down cmp p i xs) (ins_up cmp p (Suc i) n (ins_down cmp p i xs))"
      using 1 True perm_in_length [OF s] by simp
    with s True show ?thesis by (auto simp: ins_up.simps [of cmp p i n xs] intro: perm_in_trans)
  qed (simp add: ins_up.simps [of cmp p i n xs])
qed

lemma rq_small_perm: "p + n \<le> length xs \<Longrightarrow> perm_in p (p + n) xs (rq_small cmp xs p n)"
  by (simp add: rq_small_def heap_segment_perm ins_up_perm)

text \<open>Depths on the stack decrease strictly from top to bottom and are bounded by the current
  one, so the stack never holds more entries than the current depth.\<close>

definition stack_ok :: "nat \<Rightarrow> (nat \<times> nat \<times> nat) list \<Rightarrow> bool" where
  "stack_ok depth stack \<longleftrightarrow> sorted_wrt (\<lambda>(p, n, d) (p', n', d'). d > d') stack
     \<and> (\<forall>(p, n, d) \<in> set stack. 1 \<le> d \<and> d \<le> depth)"

lemma stack_ok_length: "stack_ok depth stack \<Longrightarrow> length stack \<le> depth"
proof (induction stack arbitrary: depth)
  case (Cons e stack)
  obtain p n d where e: "e = (p, n, d)" by (cases e)
  have "stack_ok (d - 1) stack" using Cons.prems by (fastforce simp: stack_ok_def e)
  from Cons.IH [OF this] Cons.prems show ?case by (auto simp: stack_ok_def e)
qed simp

lemma stack_ok_push: "stack_ok depth stack \<Longrightarrow> stack_ok (Suc depth) ((p, n, Suc depth) # stack)"
  by (fastforce simp: stack_ok_def)

lemma stack_ok_pop: "stack_ok depth ((p, n, d) # stack) \<Longrightarrow> stack_ok d stack \<and> d \<le> depth"
  by (fastforce simp: stack_ok_def)

text \<open>The loop, one step at a time: \<open>J\<close> is any property that a split and the sorting of a small
  segment preserve; it then holds of the result.\<close>

lemma rq_loop_split:
  assumes "6 < n" "depth < 50" "rq_split cmp xs p n = (xs', lt, gt)" "length stack < 50"
  shows "rq_loop cmp xs p n depth stack =
    (if lt > n - gt
     then rq_loop cmp xs' (p + gt) (n - gt) (Suc depth) ((p, lt, Suc depth) # stack)
     else rq_loop cmp xs' p lt (Suc depth) ((p + gt, n - gt, Suc depth) # stack))"
  using assms by (subst rq_loop.simps) simp

lemma rq_loop_small:
  assumes "\<not> (6 < n \<and> depth < 50)"
  shows "rq_loop cmp xs p n depth stack =
    (case stack of [] \<Rightarrow> Some (rq_small cmp xs p n)
     | (p', n', depth') # stack' \<Rightarrow> rq_loop cmp (rq_small cmp xs p n) p' n' depth' stack')"
  using assms by (subst rq_loop.simps) auto

lemma rq_loop_invariant:
  assumes split: "\<And>xs p n xs' lt gt S. J xs ((p, n) # S) \<Longrightarrow> 6 < n \<Longrightarrow> rq_split cmp xs p n = (xs', lt, gt) \<Longrightarrow>
      J xs' ((p, lt) # (p + gt, n - gt) # S) \<and> J xs' ((p + gt, n - gt) # (p, lt) # S)"
    and small: "\<And>xs p n S. J xs ((p, n) # S) \<Longrightarrow> J (rq_small cmp xs p n) S"
    and "J xs ((p, n) # map (\<lambda>(p, n, d). (p, n)) stack)" "stack_ok depth stack" "depth \<le> 50"
  shows "\<exists>ys. rq_loop cmp xs p n depth stack = Some ys \<and> J ys []"
  using assms
proof (induction cmp xs p n depth stack rule: rq_loop.induct)
  case (1 cmp xs p n depth stack)
  note J = "1.prems"(3) and ok = "1.prems"(4)
  show ?case
  proof (cases "6 < n \<and> depth < 50")
    case True
    obtain xs' lt gt where sp: "rq_split cmp xs p n = (xs', lt, gt)" by (metis surj_pair)
    have len: "length stack < 50" using stack_ok_length [OF ok] True by simp
    note J' = "1.prems"(1) [OF J _ sp] and eq = rq_loop_split [OF _ _ sp len]
    show ?thesis
    proof (cases "lt > n - gt")
      case c: True
      have "\<exists>ys. rq_loop cmp xs' (p + gt) (n - gt) (Suc depth) ((p, lt, Suc depth) # stack) = Some ys \<and> J ys []"
        by (rule "1.IH"(1) [OF True sp [symmetric] refl _ c "1.prems"(1,2)])
          (use len J' True stack_ok_push [OF ok] in auto)
      then show ?thesis using eq True c by simp
    next
      case c: False
      have "\<exists>ys. rq_loop cmp xs' p lt (Suc depth) ((p + gt, n - gt, Suc depth) # stack) = Some ys \<and> J ys []"
        by (rule "1.IH"(2) [OF True sp [symmetric] refl _ c "1.prems"(1,2)])
          (use len J' True stack_ok_push [OF ok] in auto)
      then show ?thesis using eq True c by simp
    qed
  next
    case False
    note J' = "1.prems"(2) [OF J] and eq = rq_loop_small [OF False, of cmp xs p stack]
    show ?thesis
    proof (cases stack)
      case Nil
      then show ?thesis using eq J' by simp
    next
      case (Cons e stack')
      obtain p' n' d' where e: "e = (p', n', d')" by (cases e)
      have "\<exists>ys. rq_loop cmp (rq_small cmp xs p n) p' n' d' stack' = Some ys \<and> J ys []"
        by (rule "1.IH"(3) [OF False Cons e [symmetric] refl "1.prems"(1,2)])
          (use J' Cons e stack_ok_pop [of depth p' n' d' stack'] ok "1.prems"(5) in auto)
      then show ?thesis using eq Cons e by simp
    qed
  qed
qed

text \<open>
  Segments stay inside the array: the loop returns a rearrangement, whatever the comparison
  function answers.
\<close>

definition segs_in :: "nat \<Rightarrow> (nat \<times> nat) list \<Rightarrow> bool" where
  "segs_in len S \<longleftrightarrow> (\<forall>(p, n) \<in> set S. p + n \<le> len)"

lemma segs_in_split:
  "segs_in len ((p, n) # S) \<Longrightarrow> lt < gt \<Longrightarrow> gt \<le> n \<Longrightarrow>
   segs_in len ((p, lt) # (p + gt, n - gt) # S) \<and> segs_in len ((p + gt, n - gt) # (p, lt) # S)"
  by (auto simp: segs_in_def)

lemma rqsort_permutes: "\<exists>ys. rqsort_jsi cmp xs = Some ys \<and> mset ys = mset xs"
proof (cases "length xs < 2")
  case True
  then show ?thesis by (simp add: rqsort_jsi_def)
next
  case False
  let ?J = "\<lambda>ys S. mset ys = mset xs \<and> length ys = length xs \<and> segs_in (length xs) S"
  have "\<exists>ys. rq_loop cmp xs 0 (length xs) 0 [] = Some ys \<and> ?J ys []"
  proof (rule rq_loop_invariant [where J = ?J])
    fix zs p n zs' lt gt S
    assume J: "?J zs ((p, n) # S)" and n: "6 < n" and sp: "rq_split cmp zs p n = (zs', lt, gt)"
    have "perm_in p (p + n) zs zs'"
      using rq_split_spec(1) [OF sp] J n by (simp add: segs_in_def)
    then show "?J zs' ((p, lt) # (p + gt, n - gt) # S) \<and> ?J zs' ((p + gt, n - gt) # (p, lt) # S)"
      using rq_split_bounds [OF sp] segs_in_split [of _ p n S lt gt] J n by (simp add: perm_in_def)
  next
    fix zs p n S assume J: "?J zs ((p, n) # S)"
    then show "?J (rq_small cmp zs p n) S"
      using rq_small_perm [of p n zs cmp] by (simp add: segs_in_def perm_in_def)
  qed (simp_all add: segs_in_def stack_ok_def)
  with False show ?thesis by (auto simp: rqsort_jsi_def)
qed

section \<open>Properties\<close>

text \<open>C8: whatever the comparison function answers, even inconsistently, the sort ends, never
  overflows its fixed stack of 50 segments, and returns a rearrangement of its input.\<close>

theorem rqsort_total:
  "\<exists>ys. rqsort_jsi cmp xs = Some ys \<and> mset ys = mset xs"
  by (rule rqsort_permutes)

end
