(* ===== verification/QExchange.thy ===== *)
theory QExchange
  imports QSort
begin

text \<open>
  The element exchange of the sort (\<^verbatim>\<open>src/src/qjsi/quickjs_i.c\<close>, lines 2326 to 2459) at the level
  of bytes. Memory is the list of its bytes, indexed by address. An unsigned integer of \<open>k\<close>
  bytes has no padding, so a value of the type is its \<open>k\<close> bytes; a load or store is defined
  only inside memory and at a multiple of \<open>k\<close>.
\<close>

section \<open>Definitions\<close>

definition uint_get :: "nat \<Rightarrow> bytes \<Rightarrow> nat \<Rightarrow> bytes option" where
  "uint_get k mem a = (if k dvd a then mem_slice mem a k else None)"

definition uint_set :: "nat \<Rightarrow> bytes \<Rightarrow> nat \<Rightarrow> bytes \<Rightarrow> bytes option" where
  "uint_set k mem a v = (if k dvd a \<and> length v = k then mem_blit mem a v else None)"

text \<open>\<open>t = *ap; *ap = *bp; *bp = t\<close> at the width \<open>k\<close>, and the loop that advances both
  pointers.\<close>

definition exch_unit :: "nat \<Rightarrow> bytes \<Rightarrow> nat \<Rightarrow> nat \<Rightarrow> bytes option" where
  "exch_unit k mem a b = do {
     t \<leftarrow> uint_get k mem a;
     u \<leftarrow> uint_get k mem b;
     mem \<leftarrow> uint_set k mem a u;
     uint_set k mem b t }"

fun exch_loop :: "nat \<Rightarrow> bytes \<Rightarrow> nat \<Rightarrow> nat \<Rightarrow> nat \<Rightarrow> bytes option" where
  "exch_loop k mem a b 0 = Some mem"
| "exch_loop k mem a b (Suc n) = do {
     mem \<leftarrow> exch_unit k mem a b;
     exch_loop k mem (a + k) (b + k) n }"

definition exchange_bytes :: "bytes \<Rightarrow> nat \<Rightarrow> nat \<Rightarrow> nat \<Rightarrow> bytes option" where
  "exchange_bytes mem a b sz = exch_loop 1 mem a b sz"

definition exchange_one_byte :: "bytes \<Rightarrow> nat \<Rightarrow> nat \<Rightarrow> nat \<Rightarrow> bytes option" where
  "exchange_one_byte mem a b sz = exch_unit 1 mem a b"

definition exchange_int16s :: "bytes \<Rightarrow> nat \<Rightarrow> nat \<Rightarrow> nat \<Rightarrow> bytes option" where
  "exchange_int16s mem a b sz = exch_loop 2 mem a b (sz div 2)"

definition exchange_one_int16 :: "bytes \<Rightarrow> nat \<Rightarrow> nat \<Rightarrow> nat \<Rightarrow> bytes option" where
  "exchange_one_int16 mem a b sz = exch_unit 2 mem a b"

definition exchange_int32s :: "bytes \<Rightarrow> nat \<Rightarrow> nat \<Rightarrow> nat \<Rightarrow> bytes option" where
  "exchange_int32s mem a b sz = exch_loop 4 mem a b (sz div 4)"

definition exchange_one_int32 :: "bytes \<Rightarrow> nat \<Rightarrow> nat \<Rightarrow> nat \<Rightarrow> bytes option" where
  "exchange_one_int32 mem a b sz = exch_unit 4 mem a b"

definition exchange_int64s :: "bytes \<Rightarrow> nat \<Rightarrow> nat \<Rightarrow> nat \<Rightarrow> bytes option" where
  "exchange_int64s mem a b sz = exch_loop 8 mem a b (sz div 8)"

definition exchange_one_int64 :: "bytes \<Rightarrow> nat \<Rightarrow> nat \<Rightarrow> nat \<Rightarrow> bytes option" where
  "exchange_one_int64 mem a b sz = exch_unit 8 mem a b"

text \<open>The 128-bit variants move two 64-bit integers: both of \<open>a\<close> are read before any store.\<close>

definition exchange_one_int128 :: "bytes \<Rightarrow> nat \<Rightarrow> nat \<Rightarrow> nat \<Rightarrow> bytes option" where
  "exchange_one_int128 mem a b sz = do {
     t \<leftarrow> uint_get 8 mem a;
     u \<leftarrow> uint_get 8 mem (a + 8);
     b0 \<leftarrow> uint_get 8 mem b;
     mem \<leftarrow> uint_set 8 mem a b0;
     b1 \<leftarrow> uint_get 8 mem (b + 8);
     mem \<leftarrow> uint_set 8 mem (a + 8) b1;
     mem \<leftarrow> uint_set 8 mem b t;
     uint_set 8 mem (b + 8) u }"

fun exch_loop128 :: "bytes \<Rightarrow> nat \<Rightarrow> nat \<Rightarrow> nat \<Rightarrow> bytes option" where
  "exch_loop128 mem a b 0 = Some mem"
| "exch_loop128 mem a b (Suc n) = do {
     mem \<leftarrow> exchange_one_int128 mem a b 16;
     exch_loop128 mem (a + 16) (b + 16) n }"

definition exchange_int128s :: "bytes \<Rightarrow> nat \<Rightarrow> nat \<Rightarrow> nat \<Rightarrow> bytes option" where
  "exchange_int128s mem a b sz = exch_loop128 mem a b (sz div 16)"

definition exchange_func :: "nat \<Rightarrow> nat \<Rightarrow> bytes \<Rightarrow> nat \<Rightarrow> nat \<Rightarrow> nat \<Rightarrow> bytes option" where
  "exchange_func base sz =
     (let k = (base OR sz) AND 15 in
      if k = 0 then (if sz = 16 then exchange_one_int128 else exchange_int128s)
      else if k = 8 then (if sz = 8 then exchange_one_int64 else exchange_int64s)
      else if k = 4 \<or> k = 12 then (if sz = 4 then exchange_one_int32 else exchange_int32s)
      else if k = 2 \<or> k = 6 \<or> k = 10 \<or> k = 14
        then (if sz = 2 then exchange_one_int16 else exchange_int16s)
      else (if sz = 1 then exchange_one_byte else exchange_bytes))"

section \<open>Exchanging two regions\<close>

text \<open>\<open>swapped mem mem' a b n\<close>: the regions of \<open>n\<close> bytes at \<open>a\<close> and \<open>b\<close> are
  exchanged and nothing else changes. The regions are equal or disjoint (\<open>apart\<close>).\<close>

definition swap_pos :: "nat \<Rightarrow> nat \<Rightarrow> nat \<Rightarrow> nat \<Rightarrow> nat" where
  "swap_pos a b n i =
     (if a \<le> i \<and> i < a + n then b + (i - a) else if b \<le> i \<and> i < b + n then a + (i - b) else i)"

definition swapped :: "'a list \<Rightarrow> 'a list \<Rightarrow> nat \<Rightarrow> nat \<Rightarrow> nat \<Rightarrow> bool" where
  "swapped mem mem' a b n \<longleftrightarrow> length mem' = length mem \<and>
     (\<forall>i < length mem. mem' ! i = mem ! swap_pos a b n i)"

definition apart :: "nat \<Rightarrow> nat \<Rightarrow> nat \<Rightarrow> bool" where
  "apart a b n \<longleftrightarrow> a = b \<or> a + n \<le> b \<or> b + n \<le> a"

lemma nth_blit:
  "off + length d \<le> length m \<Longrightarrow> i < length m \<Longrightarrow>
   (take off m @ d @ drop (off + length d) m) ! i =
     (if off \<le> i \<and> i < off + length d then d ! (i - off) else m ! i)"
  by (auto simp: nth_append)

lemma nth_blit_from:
  "off + k \<le> length m \<Longrightarrow> y + k \<le> length m' \<Longrightarrow> i < length m \<Longrightarrow>
   (take off m @ take k (drop y m') @ drop (off + k) m) ! i =
     (if off \<le> i \<and> i < off + k then m' ! (y + (i - off)) else m ! i)"
  using nth_blit [of off "take k (drop y m')" m i] by (auto simp: min_absorb2)

lemma exch_unit_swaps:
  assumes "k dvd a" "k dvd b" "a + k \<le> length mem" "b + k \<le> length mem" "apart a b k"
  shows "\<exists>mem'. exch_unit k mem a b = Some mem' \<and> swapped mem mem' a b k"
proof -
  let ?t = "take k (drop a mem)" and ?u = "take k (drop b mem)"
  let ?m1 = "take a mem @ ?u @ drop (a + k) mem"
  let ?m2 = "take b ?m1 @ ?t @ drop (b + k) ?m1"
  have len: "length ?t = k" "length ?u = k" "length ?m1 = length mem" using assms by auto
  have "exch_unit k mem a b = Some ?m2"
    using assms len by (simp add: exch_unit_def uint_get_def uint_set_def mem_slice_def mem_blit_def)
  moreover have "?m1 ! i = (if a \<le> i \<and> i < a + k then ?u ! (i - a) else mem ! i)" if "i < length mem" for i
    using nth_blit [of a ?u mem i] that assms len by simp
  moreover have "?m2 ! i = (if b \<le> i \<and> i < b + k then ?t ! (i - b) else ?m1 ! i)" if "i < length mem" for i
    using nth_blit [of b ?t ?m1 i] that assms len by simp
  ultimately have "swapped mem ?m2 a b k"
    using assms len unfolding swapped_def apart_def swap_pos_def by auto
  with \<open>exch_unit k mem a b = Some ?m2\<close> show ?thesis by blast
qed

lemma swap_pos_compose:
  "apart a b (n + m) \<Longrightarrow> swap_pos a b n (swap_pos (a + n) (b + n) m i) = swap_pos a b (n + m) i"
proof -
  assume ap: "apart a b (n + m)"
  then consider "a = b" | "a + (n + m) \<le> b" | "b + (n + m) \<le> a" by (auto simp: apart_def)
  then show ?thesis
  proof cases
    case 1
    then show ?thesis by (simp add: swap_pos_def)
  next
    case 2
    consider "i < a" | "a \<le> i" "i < a + n" | "a + n \<le> i" "i < a + n + m" | "a + n + m \<le> i" "i < b"
      | "b \<le> i" "i < b + n" | "b + n \<le> i" "i < b + n + m" | "b + n + m \<le> i" by linarith
    then show ?thesis by cases (use 2 in \<open>simp_all add: swap_pos_def, arith+\<close>)
  next
    case 3
    consider "i < b" | "b \<le> i" "i < b + n" | "b + n \<le> i" "i < b + n + m" | "b + n + m \<le> i" "i < a"
      | "a \<le> i" "i < a + n" | "a + n \<le> i" "i < a + n + m" | "a + n + m \<le> i" by linarith
    then show ?thesis by cases (use 3 in \<open>simp_all add: swap_pos_def, arith+\<close>)
  qed
qed

lemma swap_pos_bound:
  "a + n \<le> l \<Longrightarrow> b + n \<le> l \<Longrightarrow> i < l \<Longrightarrow> swap_pos a b n i < l"
  by (auto simp: swap_pos_def)

lemma swapped_compose:
  assumes "swapped mem m1 a b n" "swapped m1 m2 (a + n) (b + n) m" "apart a b (n + m)"
    "a + n + m \<le> length mem" "b + n + m \<le> length mem"
  shows "swapped mem m2 a b (n + m)"
  using assms swap_pos_bound [of "a + n" m "length mem" "b + n"] swap_pos_compose [OF assms(3)]
  by (simp add: swapped_def)

lemma exch_loop_swaps:
  assumes "k dvd a" "k dvd b" "a + n * k \<le> length mem" "b + n * k \<le> length mem" "apart a b (n * k)"
  shows "\<exists>mem'. exch_loop k mem a b n = Some mem' \<and> swapped mem mem' a b (n * k)"
  using assms
proof (induction k mem a b n rule: exch_loop.induct)
  case (1 k mem a b)
  then show ?case by (auto simp: swapped_def swap_pos_def)
next
  case (2 k mem a b n)
  have "apart a b k" using "2.prems" by (auto simp: apart_def)
  then obtain m1 where m1: "exch_unit k mem a b = Some m1" "swapped mem m1 a b k"
    using exch_unit_swaps [of k a b mem] "2.prems" by auto
  have "apart (a + k) (b + k) (n * k)" using "2.prems" by (auto simp: apart_def)
  moreover have "length m1 = length mem" using m1 by (simp add: swapped_def)
  ultimately obtain m2 where m2: "exch_loop k m1 (a + k) (b + k) n = Some m2" "swapped m1 m2 (a + k) (b + k) (n * k)"
    using "2.IH" [OF m1(1)] "2.prems" by auto
  have "swapped mem m2 a b (k + n * k)"
    using m1(2) m2(2) "2.prems" by (intro swapped_compose) auto
  with m1 m2 show ?case by simp
qed

lemma exch_one_int128_swaps:
  assumes "8 dvd a" "8 dvd b" "a + 16 \<le> length mem" "b + 16 \<le> length mem" "apart a b 16"
  shows "\<exists>mem'. exchange_one_int128 mem a b sz = Some mem' \<and> swapped mem mem' a b 16"
proof -
  let ?g = "\<lambda>m x. take 8 (drop x m)"
  define m1 where "m1 = take a mem @ ?g mem b @ drop (a + 8) mem"
  define m2 where "m2 = take (a + 8) m1 @ ?g m1 (b + 8) @ drop (a + 8 + 8) m1"
  define m3 where "m3 = take b m2 @ ?g mem a @ drop (b + 8) m2"
  define m4 where "m4 = take (b + 8) m3 @ ?g mem (a + 8) @ drop (b + 8 + 8) m3"
  have l1: "length m1 = length mem" using assms by (simp add: m1_def)
  have l2: "length m2 = length mem" using assms l1 by (simp add: m2_def)
  have l3: "length m3 = length mem" using assms l2 by (simp add: m3_def)
  have l4: "length m4 = length mem" using assms l3 by (simp add: m4_def)
  note len = l1 l2 l3 l4
  have al: "8 dvd a + 8" "8 dvd b + 8" using assms by auto
  have gl: "length (?g m x) = 8" if "x + 8 \<le> length m" for m :: bytes and x using that by simp
  have st: "uint_set 8 m x v = Some (take x m @ v @ drop (x + 8) m)"
    if "8 dvd x" "length v = 8" "x + 8 \<le> length m" for m x v using that by (simp add: uint_set_def mem_blit_def)
  have gt: "uint_get 8 m x = Some (?g m x)" if "8 dvd x" "x + 8 \<le> length m" for m x
    using that by (simp add: uint_get_def mem_slice_def)
  have s1: "uint_set 8 mem a (?g mem b) = Some m1" unfolding m1_def using assms by (intro st gl) auto
  have s2: "uint_set 8 m1 (a + 8) (?g m1 (b + 8)) = Some m2"
    unfolding m2_def using assms len al by (intro st gl) auto
  have s3: "uint_set 8 m2 b (?g mem a) = Some m3" unfolding m3_def using assms len by (intro st gl) auto
  have s4: "uint_set 8 m3 (b + 8) (?g mem (a + 8)) = Some m4"
    unfolding m4_def using assms len al by (intro st gl) auto
  have eq: "exchange_one_int128 mem a b sz = Some m4"
    using assms len al by (simp add: exchange_one_int128_def gt s1 s2 s3 s4)
  have n1: "m1 ! i = (if a \<le> i \<and> i < a + 8 then mem ! (b + (i - a)) else mem ! i)" if "i < length mem" for i
    unfolding m1_def using that assms by (intro nth_blit_from) auto
  have n2: "m2 ! i = (if a + 8 \<le> i \<and> i < a + 8 + 8 then m1 ! (b + 8 + (i - (a + 8))) else m1 ! i)"
    if "i < length mem" for i unfolding m2_def using that assms len by (intro nth_blit_from) auto
  have n3: "m3 ! i = (if b \<le> i \<and> i < b + 8 then mem ! (a + (i - b)) else m2 ! i)" if "i < length mem" for i
    unfolding m3_def using that assms len by (intro nth_blit_from) auto
  have n4: "m4 ! i = (if b + 8 \<le> i \<and> i < b + 8 + 8 then mem ! (a + 8 + (i - (b + 8))) else m3 ! i)"
    if "i < length mem" for i unfolding m4_def using that assms len by (intro nth_blit_from) auto
  have "m4 ! i = mem ! swap_pos a b 16 i" if i: "i < length mem" for i
  proof -
    have "m1 ! (b + 8 + (i - (a + 8))) = mem ! (b + (i - a))" if "a + 8 \<le> i" "i < a + 16"
      using n1 [of "b + 8 + (i - (a + 8))"] that assms by (auto simp: apart_def)
    then show ?thesis using n1 [OF i] n2 [OF i] n3 [OF i] n4 [OF i] assms(5) by (auto simp: swap_pos_def apart_def)
  qed
  with eq len show ?thesis by (auto simp: swapped_def)
qed

lemma exch_loop128_swaps:
  assumes "8 dvd a" "8 dvd b" "a + n * 16 \<le> length mem" "b + n * 16 \<le> length mem" "apart a b (n * 16)"
  shows "\<exists>mem'. exch_loop128 mem a b n = Some mem' \<and> swapped mem mem' a b (n * 16)"
  using assms
proof (induction mem a b n rule: exch_loop128.induct)
  case (1 mem a b)
  then show ?case by (auto simp: swapped_def swap_pos_def)
next
  case (2 mem a b n)
  have "apart a b 16" using "2.prems" by (auto simp: apart_def)
  then obtain m1 where m1: "exchange_one_int128 mem a b 16 = Some m1" "swapped mem m1 a b 16"
    using exch_one_int128_swaps [of a b mem] "2.prems" by auto
  have "apart (a + 16) (b + 16) (n * 16)" using "2.prems" by (auto simp: apart_def)
  moreover have "length m1 = length mem" using m1 by (simp add: swapped_def)
  ultimately obtain m2 where m2: "exch_loop128 m1 (a + 16) (b + 16) n = Some m2"
      "swapped m1 m2 (a + 16) (b + 16) (n * 16)"
    using "2.IH" [OF m1(1)] "2.prems" by auto
  have "swapped mem m2 a b (16 + n * 16)"
    using m1(2) m2(2) "2.prems" by (intro swapped_compose) auto
  with m1 m2 show ?case by simp
qed

section \<open>The selected routine\<close>

lemma pow_dvd_or: "2 ^ m dvd x OR y \<longleftrightarrow> 2 ^ m dvd x \<and> 2 ^ m dvd (y :: nat)"
  by (simp flip: take_bit_eq_0_iff add: or_eq_0_iff)

lemma and_15_mod: "x AND 15 = x mod (16 :: nat)"
  using take_bit_eq_mask [of 4 x] by (simp add: take_bit_eq_mod mask_eq_exp_minus_1)

text \<open>Every width the selector may pick divides the base address and the element size.\<close>

lemma exchange_func_cases:
  obtains u where "u \<in> {1, 2, 4, 8}" "u dvd base" "u dvd sz"
      "exchange_func base sz = (\<lambda>mem a b n. if sz = u then exch_unit u mem a b else exch_loop u mem a b (n div u))"
  | "16 dvd base" "16 dvd sz"
      "exchange_func base sz = (\<lambda>mem a b n. if sz = 16 then exchange_one_int128 mem a b n else exch_loop128 mem a b (n div 16))"
proof -
  define x where "x = base OR sz"
  have d: "2 ^ m dvd x \<longleftrightarrow> 2 ^ m dvd base \<and> 2 ^ m dvd sz" for m unfolding x_def by (rule pow_dvd_or)
  note defs = exchange_func_def Let_def and_15_mod x_def [symmetric] exchange_one_byte_def exchange_bytes_def
    exchange_one_int16_def exchange_int16s_def exchange_one_int32_def exchange_int32s_def
    exchange_one_int64_def exchange_int64s_def exchange_int128s_def fun_eq_iff
  consider "x mod 16 = 0" | "x mod 16 = 8" | "x mod 16 = 4 \<or> x mod 16 = 12"
    | "x mod 16 = 2 \<or> x mod 16 = 6 \<or> x mod 16 = 10 \<or> x mod 16 = 14"
    | "x mod 16 \<notin> {0, 2, 4, 6, 8, 10, 12, 14}" by auto
  then show thesis
  proof cases
    case 1
    then have "2 ^ 4 dvd x" by (simp add: dvd_eq_mod_eq_0)
    with 1 show thesis using d [of 4] by (intro that(2)) (auto simp: defs)
  next
    case 2
    then have "2 ^ 3 dvd x" by (simp add: dvd_eq_mod_eq_0) presburger
    with 2 show thesis using d [of 3] by (intro that(1) [of 8]) (auto simp: defs)
  next
    case 3
    then have "2 ^ 2 dvd x" by (simp add: dvd_eq_mod_eq_0) presburger
    with 3 show thesis using d [of 2] by (intro that(1) [of 4]) (auto simp: defs)
  next
    case 4
    then have "2 ^ 1 dvd x" by (simp add: dvd_eq_mod_eq_0) presburger
    with 4 show thesis using d [of 1] by (intro that(1) [of 2]) (auto simp: defs)
  next
    case 5
    then show thesis by (intro that(1) [of 1]) (auto simp: defs)
  qed
qed

lemma exchange_func_swaps:
  assumes a: "a = base + i * s" and b: "b = base + j * s" and sz: "sz = s \<and> n = s \<or> 16 < sz \<and> n = m * s"
    and s: "\<And>u. u dvd sz \<Longrightarrow> u \<in> {1, 2, 4, 8, 16} \<Longrightarrow> u dvd s"
    and bnd: "a + n \<le> length mem" "b + n \<le> length mem" "apart a b n"
  shows "\<exists>mem'. exchange_func base sz mem a b n = Some mem' \<and> swapped mem mem' a b n"
proof (cases rule: exchange_func_cases [of base sz])
  case (1 u)
  have u: "u dvd s" using s 1 by blast
  then have dv: "u dvd a" "u dvd b" "u dvd n" using 1 a b sz by auto
  show ?thesis
  proof (cases "sz = u")
    case True
    then have "n = u" using sz 1 by auto
    then show ?thesis using exch_unit_swaps [of u a b mem] 1 dv bnd True by simp
  next
    case False
    then show ?thesis using exch_loop_swaps [of u a b "n div u" mem] 1 dv bnd by simp
  qed
next
  case 2
  have u: "16 dvd s" using s 2 by blast
  then have dv: "16 dvd a" "16 dvd b" "16 dvd n" using 2 a b sz by auto
  then have dv8: "8 dvd a" "8 dvd b" by (auto elim: dvd_trans [rotated])
  show ?thesis
  proof (cases "sz = 16")
    case True
    then have "n = 16" using sz by auto
    then show ?thesis using exch_one_int128_swaps [OF dv8, of mem] 2 bnd True by simp
  next
    case False
    then show ?thesis using exch_loop128_swaps [OF dv8, of "n div 16" mem] 2 dv bnd by simp
  qed
qed

section \<open>Elements of an array\<close>

text \<open>The elements of the array of \<open>n\<close> elements of \<open>s\<close> bytes at \<open>base\<close>.\<close>

definition elems :: "bytes \<Rightarrow> nat \<Rightarrow> nat \<Rightarrow> nat \<Rightarrow> bytes list" where
  "elems mem base s n = map (\<lambda>i. take s (drop (base + i * s) mem)) [0 ..< n]"

lemma elem_le: "r < s \<Longrightarrow> i * s \<le> k * s + r \<longleftrightarrow> i \<le> (k :: nat)"
proof
  assume "r < s" "i * s \<le> k * s + r"
  then have "i * s div s \<le> (k * s + r) div s" using div_le_mono by blast
  then show "i \<le> k" using \<open>r < s\<close> by simp
next
  assume "i \<le> k"
  then have "i * s \<le> k * s" by simp
  then show "i * s \<le> k * s + r" by (rule trans_le_add1)
qed

lemma elem_less: "r < s \<Longrightarrow> k * s + r < i * s \<longleftrightarrow> (k :: nat) < i"
  using elem_le [of r s i k] by linarith

lemma swap_pos_elem:
  assumes "r < s"
  shows "swap_pos (base + i * s) (base + j * s) (m * s) (base + k * s + r) = base + swap_pos i j m k * s + r"
proof -
  have le: "base + x * s \<le> base + k * s + r \<longleftrightarrow> x \<le> k" for x using elem_le [OF assms, of x k] by simp
  have lt: "base + k * s + r < base + x * s + m * s \<longleftrightarrow> k < x + m" for x
    using elem_less [OF assms, of k "x + m"] by (simp add: algebra_simps)
  have df: "base + y * s + (base + k * s + r - (base + x * s)) = base + (y + (k - x)) * s + r" if "x \<le> k" for x y
    using that by (auto simp: le_iff_add algebra_simps)
  show ?thesis unfolding swap_pos_def le lt using df by (auto split: if_split)
qed

lemma swap_pos_elem_bound: "i + m \<le> n \<Longrightarrow> j + m \<le> n \<Longrightarrow> k < n \<Longrightarrow> swap_pos i j m k < n"
  by (auto simp: swap_pos_def)

lemma elems_swapped:
  assumes sw: "swapped mem mem' (base + i * s) (base + j * s) (m * s)"
    and len: "base + n * s \<le> length mem" and ij: "i + m \<le> n" "j + m \<le> n" and k: "k < n"
  shows "elems mem' base s n ! k = elems mem base s n ! swap_pos i j m k"
proof -
  have inside: "base + x * s + r < length mem" if "x < n" "r < s" for x r
    using elem_less [OF that(2), of x n] that len by linarith
  have room: "base + x * s + s \<le> length mem" if "x < n" for x
  proof -
    have "(x + 1) * s \<le> n * s" using that by (intro mult_le_mono1) simp
    then show ?thesis using len by simp
  qed
  let ?k = "swap_pos i j m k"
  have k': "?k < n" using ij k by (rule swap_pos_elem_bound)
  have l: "length mem' = length mem" using sw by (simp add: swapped_def)
  have "take s (drop (base + k * s) mem') = take s (drop (base + ?k * s) mem)"
  proof (rule nth_equalityI)
    show "length (take s (drop (base + k * s) mem')) = length (take s (drop (base + ?k * s) mem))"
      using room [OF k] room [OF k'] l by simp
    fix r assume "r < length (take s (drop (base + k * s) mem'))"
    then have r: "r < s" by simp
    have "mem' ! (base + k * s + r) = mem ! (base + ?k * s + r)"
      using sw inside [OF k r] by (simp add: swapped_def flip: swap_pos_elem [OF r])
    then show "take s (drop (base + k * s) mem') ! r = take s (drop (base + ?k * s) mem) ! r"
      using r inside [OF k r] inside [OF k' r] l by simp
  qed
  then show ?thesis using k k' by (simp add: elems_def)
qed

text \<open>On elements, an exchange of one element is \<open>swap_at\<close> and of a block \<open>swap_block\<close>.\<close>

lemma elems_swap_at:
  assumes "swapped mem mem' (base + i * s) (base + j * s) s"
    and "base + n * s \<le> length mem" "i < n" "j < n"
  shows "elems mem' base s n = swap_at (elems mem base s n) i j"
proof (rule nth_equalityI)
  fix k assume "k < length (elems mem' base s n)"
  then have "k < n" by (simp add: elems_def)
  then have "elems mem' base s n ! k = elems mem base s n ! swap_pos i j 1 k"
    using elems_swapped [of mem mem' base i s j 1 n k] assms by simp
  also have "\<dots> = swap_at (elems mem base s n) i j ! k"
    using assms by (subst nth_swap_at) (auto simp: swap_pos_def elems_def)
  finally show "elems mem' base s n ! k = swap_at (elems mem base s n) i j ! k" .
qed (simp add: elems_def)

lemma elems_swap_block:
  assumes "swapped mem mem' (base + i * s) (base + j * s) (m * s)"
    and "base + n * s \<le> length mem" "i + m \<le> j" "j + m \<le> n"
  shows "elems mem' base s n = swap_block (elems mem base s n) i j m"
proof (rule nth_equalityI)
  show "length (elems mem' base s n) = length (swap_block (elems mem base s n) i j m)"
    by (simp add: elems_def)
  fix k assume "k < length (elems mem' base s n)"
  then have k: "k < n" by (simp add: elems_def)
  then have "elems mem' base s n ! k = elems mem base s n ! swap_pos i j m k"
    using elems_swapped [of mem mem' base i s j m n k] assms by simp
  also have "\<dots> = swap_block (elems mem base s n) i j m ! k"
    using assms k swap_block_nth [of i m j "elems mem base s n" k] by (auto simp: swap_pos_def elems_def)
  finally show "elems mem' base s n ! k = swap_block (elems mem base s n) i j m ! k" .
qed

section \<open>Properties\<close>

text \<open>C9: the routine selected for an array makes only aligned accesses inside the array and
  exchanges exactly the two elements, so on the list of elements it is \<open>swap_at\<close>.\<close>

theorem exchange_is_swap:
  assumes "i < n" "j < n" and "base + n * s \<le> length mem"
  shows "\<exists>mem'. exchange_func base s mem (base + i * s) (base + j * s) s = Some mem'
    \<and> elems mem' base s n = swap_at (elems mem base s n) i j"
proof -
  have "(x + 1) * s \<le> n * s" if "x < n" for x using that by (intro mult_le_mono1) simp
  from this [OF assms(1)] this [OF assms(2)] have b: "base + i * s + s \<le> length mem" "base + j * s + s \<le> length mem"
    using assms(3) by simp_all
  have "i = j \<or> (i + 1) * s \<le> j * s \<or> (j + 1) * s \<le> i * s"
    by (metis Suc_eq_plus1 mult_le_mono1 not_less_eq_eq le_antisym)
  then have "apart (base + i * s) (base + j * s) s" by (auto simp: apart_def)
  with b obtain mem' where "exchange_func base s mem (base + i * s) (base + j * s) s = Some mem'"
      "swapped mem mem' (base + i * s) (base + j * s) s"
    using exchange_func_swaps [of "base + i * s" base i s "base + j * s" j s s 1 mem] by auto
  with elems_swap_at assms show ?thesis by blast
qed

theorem exchange_is_swap_witness:
  "\<exists>mem'. exchange_func 4 4 [0,0,0,0, 1,2,3,4, 5,6,7,8, 9,10,11,12] (4 + 0 * 4) (4 + 2 * 4) 4 = Some mem'
    \<and> elems mem' 4 4 3 = swap_at (elems [0,0,0,0, 1,2,3,4, 5,6,7,8, 9,10,11,12] 4 4 3) 0 2"
  by (rule exchange_is_swap) auto

text \<open>the routine selected for block moves (\<open>size | 128\<close>) exchanges two disjoint blocks of
  elements, so on the list of elements it is \<open>swap_block\<close>.\<close>

lemma exchange_is_block_swap:
  assumes "0 < s" "i + m \<le> j" "j + m \<le> n" and "base + n * s \<le> length mem"
  shows "\<exists>mem'. exchange_func base (s OR 128) mem (base + i * s) (base + j * s) (m * s) = Some mem'
    \<and> elems mem' base s n = swap_block (elems mem base s n) i j m"
proof -
  have le: "(i + m) * s \<le> j * s" "(j + m) * s \<le> n * s" using assms by (auto intro: mult_le_mono1)
  then have b: "base + i * s + m * s \<le> length mem" "base + j * s + m * s \<le> length mem"
    "apart (base + i * s) (base + j * s) (m * s)"
    using assms(4) by (auto simp: algebra_simps apart_def)
  have "u dvd s" if "u dvd s OR 128" "u \<in> {1, 2, 4, 8, 16}" for u
    using that pow_dvd_or [of 0 s 128] pow_dvd_or [of 1 s 128] pow_dvd_or [of 2 s 128]
      pow_dvd_or [of 3 s 128] pow_dvd_or [of 4 s 128] by auto
  moreover have "16 < s OR 128"
  proof -
    have "odd ((s OR 128) div 2 ^ 7)" unfolding bit_iff_odd [symmetric] bit_or_iff by (simp add: bit_iff_odd)
    then have "(s OR 128) div 2 ^ 7 \<noteq> 0" by (metis even_zero)
    then show ?thesis by (simp add: div_eq_0_iff)
  qed
  ultimately obtain mem' where
    "exchange_func base (s OR 128) mem (base + i * s) (base + j * s) (m * s) = Some mem'"
      "swapped mem mem' (base + i * s) (base + j * s) (m * s)"
    using exchange_func_swaps [of "base + i * s" base i s "base + j * s" j "s OR 128" "m * s" m mem] b by auto
  with elems_swap_block assms show ?thesis by blast
qed

end
