(* ===== verification/QSortOrder.thy ===== *)
theory QSortOrder
  imports QSort
begin

text \<open>
  Sortedness: for a comparison function that describes a total preorder, \<^verbatim>\<open>heapsortx\<close> and
  \<^verbatim>\<open>rqsort_jsi\<close> order the array. The contract of the comparison function is the locale
  \<open>cmp_order\<close>; theory QString interprets it on the default array comparison.
\<close>

locale cmp_order =
  fixes cmp :: "'a \<Rightarrow> 'a \<Rightarrow> int"
  assumes cmp_flip: "cmp x y > 0 \<longleftrightarrow> cmp y x < 0"
    and cmp_trans: "cmp x y \<le> 0 \<Longrightarrow> cmp y z \<le> 0 \<Longrightarrow> cmp x z \<le> 0"
begin

abbreviation le :: "'a \<Rightarrow> 'a \<Rightarrow> bool" where
  "le x y \<equiv> cmp x y \<le> 0"

lemma cmp_self [simp]: "cmp x x = 0"
  using cmp_flip [of x x] by linarith

lemma le_flip: "cmp x y \<ge> 0 \<longleftrightarrow> le y x"
  using cmp_flip [of y x] by linarith

lemma le_total: "le x y \<or> le y x"
  using cmp_flip [of x y] by linarith

lemma eq_flip: "cmp x y = 0 \<Longrightarrow> cmp y x = 0"
  using cmp_flip [of x y] cmp_flip [of y x] by linarith

text \<open>The heap property below the nodes from \<open>m\<close> on.\<close>

definition heap_at :: "'a list \<Rightarrow> nat \<Rightarrow> nat \<Rightarrow> bool" where
  "heap_at xs m n \<longleftrightarrow>
     (\<forall>k. 1 \<le> k \<and> k < n \<and> m \<le> (k - 1) div 2 \<longrightarrow> le (xs ! k) (xs ! ((k - 1) div 2)))"

lemma sift_child_max:
  assumes "2 * r + 1 < n" "1 \<le> k" "k < n" "(k - 1) div 2 = r"
  shows "le (xs ! k) (xs ! sift_child cmp xs r n)"
proof -
  have "k = 2 * r + 1 \<or> k = 2 * r + 2" using assms by presburger
  then show ?thesis
    using assms le_total [of "xs ! (2 * r + 1)" "xs ! (2 * r + 2)"]
    by (auto simp: sift_child_def Let_def)
qed

lemma sift_child_parent: "(sift_child cmp xs r n - 1) div 2 = r" "1 \<le> sift_child cmp xs r n"
  by (auto simp: sift_child_def Let_def)

lemma sift_heap:
  "n \<le> length xs \<Longrightarrow> m \<le> r \<Longrightarrow> r < n \<Longrightarrow>
   (\<And>k. 1 \<le> k \<Longrightarrow> k < n \<Longrightarrow> m \<le> (k - 1) div 2 \<Longrightarrow> (k - 1) div 2 \<noteq> r \<Longrightarrow>
      le (xs ! k) (xs ! ((k - 1) div 2))) \<Longrightarrow>
   (\<And>k. 1 \<le> k \<Longrightarrow> k < n \<Longrightarrow> (k - 1) div 2 = r \<Longrightarrow> 1 \<le> r \<Longrightarrow> m \<le> (r - 1) div 2 \<Longrightarrow>
      le (xs ! k) (xs ! ((r - 1) div 2))) \<Longrightarrow>
   heap_at (sift cmp xs r n) m n"
proof (induction "n - r" arbitrary: xs r rule: less_induct)
  case less
  define c where "c = sift_child cmp xs r n"
  show ?case
  proof (cases "2 * r + 1 < n \<and> \<not> cmp (xs ! r) (xs ! c) > 0")
    case False
    then have "sift cmp xs r n = xs" using sift_stop [of r n cmp xs] c_def by simp
    moreover have "le (xs ! k) (xs ! ((k - 1) div 2))" if k: "1 \<le> k" "k < n" "m \<le> (k - 1) div 2" for k
    proof (cases "(k - 1) div 2 = r")
      case True
      then have r: "2 * r + 1 < n" using k by presburger
      then have "le (xs ! c) (xs ! r)" using False cmp_flip [of "xs ! r" "xs ! c"] by simp
      then show ?thesis
        using sift_child_max [OF r k(1,2) True, of xs] True c_def cmp_trans by blast
    qed (use less.prems(4) k in blast)
    ultimately show ?thesis by (simp add: heap_at_def)
  next
    case True
    then have c: "r < c" "c < n" "(c - 1) div 2 = r" "1 \<le> c"
      using sift_child_bounds [of r n cmp xs] sift_child_parent [of xs r n] by (auto simp: c_def)
    let ?ys = "swap_at xs r c"
    have nth: "?ys ! k = (if k = r then xs ! c else if k = c then xs ! r else xs ! k)" for k
      using c less.prems by (intro nth_swap_at) auto
    have "heap_at (sift cmp ?ys c n) m n"
    proof (rule less.hyps)
      show "n - c < n - r" using c by simp
      show "n \<le> length ?ys" "m \<le> c" "c < n" using c less.prems by simp_all
    next
      fix k assume k: "1 \<le> k" "k < n" "m \<le> (k - 1) div 2" "(k - 1) div 2 \<noteq> c"
      consider "(k - 1) div 2 = r" | "k = r" "(k - 1) div 2 \<noteq> r" | "(k - 1) div 2 \<noteq> r" "k \<noteq> r" by blast
      then show "le (?ys ! k) (?ys ! ((k - 1) div 2))"
      proof cases
        case 1
        then have "k \<noteq> r" using k by auto
        moreover have "le (xs ! k) (xs ! c)"
          using sift_child_max [of r n k xs] 1 k True by (simp add: c_def)
        ultimately show ?thesis using 1 True c by (simp add: nth)
      next
        case 2
        then show ?thesis using less.prems(5) [of c] c k by (simp add: nth)
      next
        case 3
        then have "k \<noteq> c" using c by auto
        then show ?thesis using less.prems(4) [OF k(1-3)] 3 k by (simp add: nth)
      qed
    next
      fix k assume k: "1 \<le> k" "k < n" "(k - 1) div 2 = c" "1 \<le> c" "m \<le> (c - 1) div 2"
      then have "k \<noteq> r" "k \<noteq> c" "c \<noteq> r" using c by auto
      then show "le (?ys ! k) (?ys ! ((c - 1) div 2))"
        using less.prems(2) less.prems(4) [of k] k c by (simp add: nth)
    qed
    then show ?thesis using sift_step [of r n cmp xs] True by (simp add: c_def)
  qed
qed

lemma hs_build_heap:
  "i \<le> n \<Longrightarrow> n \<le> length xs \<Longrightarrow> heap_at xs i n \<Longrightarrow> heap_at (hs_build cmp n i xs) 0 n"
proof (induction i arbitrary: xs)
  case (Suc i)
  have "heap_at (sift cmp xs i n) i n"
    by (rule sift_heap) (use Suc.prems in \<open>auto simp: heap_at_def Suc_le_eq le_less\<close>)
  moreover have "length (sift cmp xs i n) = length xs"
    using Suc.prems by (intro perm_in_length [OF sift_perm]) auto
  ultimately show ?case using Suc by simp
qed simp

lemma heap_root: "heap_at xs 0 n \<Longrightarrow> k < n \<Longrightarrow> le (xs ! k) (xs ! 0)"
proof (induction k rule: less_induct)
  case (less k)
  show ?case
  proof (cases "k = 0")
    case False
    then have "(k - 1) div 2 < k" by linarith
    then have "le (xs ! ((k - 1) div 2)) (xs ! 0)" using less by simp
    moreover have "le (xs ! k) (xs ! ((k - 1) div 2))" using less.prems False by (simp add: heap_at_def)
    ultimately show ?thesis by (blast intro: cmp_trans)
  qed simp
qed

text \<open>During extraction the positions above \<open>i\<close> hold the greatest elements in order.\<close>

definition extracted :: "'a list \<Rightarrow> nat \<Rightarrow> bool" where
  "extracted xs i \<longleftrightarrow> (\<forall>a b. a < b \<and> i < b \<and> b < length xs \<longrightarrow> le (xs ! a) (xs ! b))"

lemma hs_extract_sorted:
  "i < length xs \<Longrightarrow> heap_at xs 0 (Suc i) \<Longrightarrow> extracted xs i \<Longrightarrow> extracted (hs_extract cmp i xs) 0"
proof (induction i arbitrary: xs)
  case (Suc i)
  let ?s = "swap_at xs 0 (Suc i)" and ?ys = "sift cmp (swap_at xs 0 (Suc i)) 0 (Suc i)"
  have nth: "?s ! k = (if k = 0 then xs ! Suc i else if k = Suc i then xs ! 0 else xs ! k)" for k
    using Suc.prems by (intro nth_swap_at) auto
  have perm: "perm_in 0 (Suc i) ?s ?ys" using Suc.prems by (intro sift_perm) auto
  have len: "length ?ys = length xs" using perm_in_length [OF perm] by simp
  have "heap_at ?ys 0 (Suc i)"
    by (rule sift_heap) (use Suc.prems in \<open>auto simp: heap_at_def nth\<close>)
  moreover have "extracted ?ys i"
    unfolding extracted_def
  proof (intro allI impI)
    fix a b assume ab: "a < b \<and> i < b \<and> b < length ?ys"
    have up: "?ys ! k = ?s ! k" if "Suc i \<le> k" "k < length xs" for k using perm that by (simp add: perm_in_def)
    have low: "\<exists>j \<le> Suc i. ?ys ! a = xs ! j" if la: "a \<le> i"
    proof -
      obtain j where "j < Suc i" "?ys ! a = ?s ! j"
        by (rule perm_in_nth [OF perm, of a]) (use la Suc.prems in auto)
      then show ?thesis
        by (intro exI [of _ "if j = 0 then Suc i else j"]) (auto simp: nth)
    qed
    show "le (?ys ! a) (?ys ! b)"
    proof (cases "b = Suc i")
      case True
      then have "?ys ! b = xs ! 0" using up [of b] ab len by (simp add: nth)
      moreover obtain j where "j \<le> Suc i" "?ys ! a = xs ! j" using low ab True by auto
      ultimately show ?thesis using heap_root [OF Suc.prems(2), of j] by simp
    next
      case False
      then have b: "?ys ! b = xs ! b" using up [of b] ab len by (simp add: nth)
      show ?thesis
      proof (cases "a \<le> i")
        case True
        then obtain j where "j \<le> Suc i" "?ys ! a = xs ! j" using low by auto
        then show ?thesis using Suc.prems(3) b ab False len by (auto simp: extracted_def)
      next
        case a: False
        then have "?ys ! a = (if a = Suc i then xs ! 0 else xs ! a)"
          using up [of a] ab len by (simp add: nth)
        then show ?thesis using Suc.prems(3) b ab a False len by (auto simp: extracted_def)
      qed
    qed
  qed
  ultimately show ?case using Suc.IH [of ?ys] Suc.prems(1) len by simp
qed simp

lemma extracted_sorted: "extracted xs 0 \<longleftrightarrow> sorted_wrt le xs"
  by (auto simp: extracted_def sorted_wrt_iff_nth_less)

lemma heapsortx_sorted: "sorted_wrt le (heapsortx cmp xs)"
proof (cases "length xs > 1")
  case True
  let ?b = "hs_build cmp (length xs) (length xs div 2) xs"
  have "heap_at xs (length xs div 2) (length xs)" by (auto simp: heap_at_def)
  then have "heap_at ?b 0 (length xs)" by (intro hs_build_heap) auto
  moreover have "Suc (length xs - 1) = length xs" using True by simp
  ultimately have h: "heap_at ?b 0 (Suc (length xs - 1))" by simp
  have "length ?b = length xs" by (intro perm_in_length [OF hs_build_perm]) auto
  moreover from this have "extracted ?b (length xs - 1)" by (auto simp: extracted_def)
  ultimately have "extracted (hs_extract cmp (length xs - 1) ?b) 0"
    using hs_extract_sorted [OF _ h] True by auto
  then show ?thesis using True by (simp add: heapsortx_def extracted_sorted)
next
  case False
  then show ?thesis by (cases xs) (auto simp: heapsortx_def)
qed

text \<open>Insertion sort.\<close>

definition seg_sorted :: "'a list \<Rightarrow> nat \<Rightarrow> nat \<Rightarrow> bool" where
  "seg_sorted xs p n \<longleftrightarrow> (\<forall>a b. a < b \<and> b < n \<longrightarrow> le (xs ! (p + a)) (xs ! (p + b)))"

lemma ins_down_sorted:
  "j < n \<Longrightarrow> p + n \<le> length xs \<Longrightarrow>
   (\<And>a b. a < b \<Longrightarrow> b < n \<Longrightarrow> b \<noteq> j \<Longrightarrow> le (xs ! (p + a)) (xs ! (p + b))) \<Longrightarrow>
   seg_sorted (ins_down cmp p j xs) p n"
proof (induction j arbitrary: xs)
  case (Suc j)
  show ?case
  proof (cases "cmp (xs ! (p + j)) (xs ! (p + Suc j)) > 0")
    case True
    let ?ys = "swap_at xs (p + Suc j) (p + j)"
    have nth: "swap_at xs (Suc (p + j)) (p + j) ! k
        = (if k = Suc (p + j) then xs ! (p + j) else if k = p + j then xs ! Suc (p + j) else xs ! k)" for k
      using Suc.prems by (intro nth_swap_at) auto
    have "le (xs ! (p + Suc j)) (xs ! (p + j))" using True cmp_flip [of "xs ! (p + j)"] by simp
    then have "seg_sorted (ins_down cmp p j ?ys) p n"
    proof (intro Suc.IH)
      fix a b assume ab: "a < b" "b < n" "b \<noteq> j"
        and sw: "le (xs ! (p + Suc j)) (xs ! (p + j))"
      show "le (?ys ! (p + a)) (?ys ! (p + b))"
      proof (cases "b = Suc j")
        case True
        then show ?thesis using ab sw Suc.prems(3) [of a j] Suc.prems(1) by (simp add: nth)
      next
        case False
        then show ?thesis
          using ab Suc.prems(3) [of a b] Suc.prems(3) [of j b] Suc.prems(3) [of "Suc j" b] by (simp add: nth)
      qed
    qed (use Suc.prems in auto)
    with True show ?thesis by simp
  next
    case False
    then have "le (xs ! (p + j)) (xs ! (p + Suc j))" by simp
    moreover have "le (xs ! (p + a)) (xs ! (p + j))" if "a < j" for a using Suc.prems that by simp
    ultimately have low: "le (xs ! (p + a)) (xs ! (p + Suc j))" if "a < Suc j" for a
      using that cmp_trans less_Suc_eq by metis
    have "le (xs ! (p + a)) (xs ! (p + b))" if "a < b" "b < n" for a b
      using low [of a] Suc.prems(3) [of a b] that by (cases "b = Suc j") auto
    with False show ?thesis by (auto simp: seg_sorted_def)
  qed
qed (auto simp: seg_sorted_def)

lemma ins_up_sorted:
  "p + n \<le> length xs \<Longrightarrow> i \<le> n \<Longrightarrow> seg_sorted xs p i \<Longrightarrow> seg_sorted (ins_up cmp p i n xs) p n"
proof (induction "n - i" arbitrary: i xs)
  case 0
  then have "i = n" by simp
  then show ?case using 0 by (subst ins_up.simps) simp
next
  case (Suc d)
  then have i: "i < n" by simp
  have perm: "perm_in p (p + n) xs (ins_down cmp p i xs)" using i Suc.prems(1) by (rule ins_down_perm)
  have "seg_sorted (ins_down cmp p i xs) p (Suc i)"
    by (rule ins_down_sorted) (use Suc.prems i in \<open>auto simp: seg_sorted_def less_Suc_eq\<close>)
  then have "seg_sorted (ins_up cmp p (Suc i) n (ins_down cmp p i xs)) p n"
    using Suc i perm_in_length [OF perm] by (intro Suc.hyps(1)) auto
  with i show ?case by (simp add: ins_up.simps [of cmp p i n xs])
qed

lemma heap_segment_sorted:
  assumes "p + n \<le> length xs" shows "seg_sorted (heap_segment cmp xs p n) p n"
proof -
  let ?h = "heapsortx cmp (take n (drop p xs))"
  have l: "length ?h = n"
    using heapsortx_perm [of cmp "take n (drop p xs)", THEN arg_cong [where f = size]] assms by simp
  then have "heap_segment cmp xs p n ! (p + a) = ?h ! a" if "a < n" for a
    using that assms by (simp add: heap_segment_def nth_append)
  with l heapsortx_sorted [of "take n (drop p xs)"] show ?thesis
    by (auto simp: seg_sorted_def sorted_wrt_iff_nth_less)
qed

lemma rq_small_sorted: "p + n \<le> length xs \<Longrightarrow> seg_sorted (rq_small cmp xs p n) p n"
proof (cases "n > 6")
  case False
  assume "p + n \<le> length xs"
  then show ?thesis
    using False ins_up_sorted [of p n xs 1] by (cases n) (auto simp: rq_small_def seg_sorted_def ins_up.simps)
qed (simp add: rq_small_def heap_segment_sorted)

text \<open>
  The invariant of the main loop: the array is ordered except inside the pending segments, which
  are disjoint and lie in the array.
\<close>

definition ordered_mod :: "'a list \<Rightarrow> (nat \<times> nat) list \<Rightarrow> bool" where
  "ordered_mod xs S \<longleftrightarrow> (\<forall>i j. i < j \<and> j < length xs \<longrightarrow>
     le (xs ! i) (xs ! j) \<or> (\<exists>(p, n) \<in> set S. p \<le> i \<and> j < p + n))"

fun disj_segs :: "(nat \<times> nat) list \<Rightarrow> bool" where
  "disj_segs [] \<longleftrightarrow> True"
| "disj_segs ((p, n) # S) \<longleftrightarrow> (\<forall>(q, m) \<in> set S. p + n \<le> q \<or> q + m \<le> p) \<and> disj_segs S"

definition pending :: "'a list \<Rightarrow> (nat \<times> nat) list \<Rightarrow> bool" where
  "pending xs S \<longleftrightarrow> ordered_mod xs S \<and> disj_segs S \<and> segs_in (length xs) S"

text \<open>Rearranging one pending segment keeps the order of every pair that is not inside it.\<close>

lemma pending_outside:
  assumes pend: "pending xs ((p, n) # S)" and perm: "perm_in p (p + n) xs xs'"
    and ij: "i < j" "j < length xs" and out: "\<not> (p \<le> i \<and> j < p + n)"
  shows "le (xs' ! i) (xs' ! j) \<or> (\<exists>(q, m) \<in> set S. q \<le> i \<and> j < q + m)"
proof -
  have pn: "p + n \<le> length xs" using pend by (simp add: pending_def segs_in_def)
  have ord: "le (xs ! a) (xs ! b) \<or> (\<exists>(q, m) \<in> set S. q \<le> a \<and> b < q + m)"
    if "a < b" "b < length xs" "\<not> (p \<le> a \<and> b < p + n)" for a b
    using pend that by (auto simp: pending_def ordered_mod_def)
  have apart: "\<not> (q \<le> a \<and> b < q + m)" if "(q, m) \<in> set S" "a < b" "p \<le> a \<and> a < p + n \<or> p \<le> b \<and> b < p + n" for a b q m
    using pend that by (fastforce simp: pending_def)
  consider "j < p \<or> p + n \<le> i \<or> i < p \<and> p + n \<le> j" | "i < p" "p \<le> j" "j < p + n"
    | "p \<le> i" "i < p + n" "p + n \<le> j" using out ij by linarith
  then show ?thesis
  proof cases
    case 1
    then have "xs' ! i = xs ! i" "xs' ! j = xs ! j" using perm ij by (auto simp: perm_in_def)
    then show ?thesis using ord [OF ij out] by simp
  next
    case 2
    obtain b where b: "p \<le> b" "b < p + n" "xs' ! j = xs ! b"
      by (rule perm_in_nth [OF perm 2(2,3) pn])
    then have "le (xs ! i) (xs ! b)" using ord [of i b] apart [of _ _ i b] 2 pn by fastforce
    then show ?thesis using b 2 perm ij by (simp add: perm_in_def)
  next
    case 3
    obtain a where a: "p \<le> a" "a < p + n" "xs' ! i = xs ! a"
      by (rule perm_in_nth [OF perm 3(1,2) pn])
    then have "le (xs ! a) (xs ! j)" using ord [of a j] apart [of _ _ a j] 3 ij by fastforce
    then show ?thesis using a 3 perm ij by (simp add: perm_in_def)
  qed
qed

lemma pending_small:
  assumes pend: "pending xs ((p, n) # S)" and perm: "perm_in p (p + n) xs xs'"
    and sorted: "seg_sorted xs' p n"
  shows "pending xs' S"
proof -
  have "le (xs' ! i) (xs' ! j) \<or> (\<exists>(q, m) \<in> set S. q \<le> i \<and> j < q + m)" if ij: "i < j" "j < length xs" for i j
  proof (cases "p \<le> i \<and> j < p + n")
    case True
    then obtain a b where ab: "i = p + a" "j = p + b" using ij by (metis le_add_diff_inverse le_trans less_imp_le)
    then show ?thesis using sorted ij True by (auto simp: seg_sorted_def)
  qed (rule pending_outside [OF pend perm ij])
  then show ?thesis
    using pend perm_in_length [OF perm] by (auto simp: pending_def ordered_mod_def segs_in_def)
qed

text \<open>A split leaves two smaller pending segments: the elements below the pivot come first, those
  equivalent to it stay in the middle, those above it come last.\<close>

lemma split_ordered:
  assumes v: "\<And>k. k < lt \<Longrightarrow> cmp v (xs ! (p + k)) > 0"
      "\<And>k. lt \<le> k \<Longrightarrow> k < gt \<Longrightarrow> cmp v (xs ! (p + k)) = 0 \<or> xs ! (p + k) = v"
      "\<And>k. gt \<le> k \<Longrightarrow> k < n \<Longrightarrow> cmp v (xs ! (p + k)) < 0"
    and ab: "a < b" "b < n" and out: "\<not> b < lt" "\<not> gt \<le> a"
  shows "le (xs ! (p + a)) (xs ! (p + b))"
proof -
  have "le (xs ! (p + a)) v"
    using v(1) [of a] v(2) [of a] out le_flip [of v "xs ! (p + a)"] by (cases "a < lt") auto
  moreover have "le v (xs ! (p + b))"
    using v(2) [of b] v(3) [of b] out ab by (cases "gt \<le> b") auto
  ultimately show ?thesis by (rule cmp_trans)
qed

lemma pending_split:
  assumes pend: "pending xs ((p, n) # S)" and n: "1 \<le> n" and sp: "rq_split cmp xs p n = (xs', lt, gt)"
  shows "pending xs' ((p, lt) # (p + gt, n - gt) # S)" (is ?A)
    and "pending xs' ((p + gt, n - gt) # (p, lt) # S)" (is ?B)
proof -
  have len: "p + n \<le> length xs" using pend by (simp add: pending_def segs_in_def)
  have perm: "perm_in p (p + n) xs xs'" using rq_split_spec(1) [OF sp] len n by simp
  obtain v where v: "\<And>k. k < lt \<Longrightarrow> cmp v (xs' ! (p + k)) > 0"
      "\<And>k. lt \<le> k \<Longrightarrow> k < gt \<Longrightarrow> cmp v (xs' ! (p + k)) = 0 \<or> xs' ! (p + k) = v"
      "\<And>k. gt \<le> k \<Longrightarrow> k < n \<Longrightarrow> cmp v (xs' ! (p + k)) < 0"
    using rq_split_spec(2) [OF sp] len n by blast
  have b: "lt < gt" "gt \<le> n" using rq_split_bounds [OF sp n] by auto
  have ord: "ordered_mod xs' ((p, lt) # (p + gt, n - gt) # S)"
    unfolding ordered_mod_def
  proof (intro allI impI)
    fix i j assume ij: "i < j \<and> j < length xs'"
    show "le (xs' ! i) (xs' ! j) \<or> (\<exists>(q, m) \<in> set ((p, lt) # (p + gt, n - gt) # S). q \<le> i \<and> j < q + m)"
    proof (cases "p \<le> i \<and> j < p + n")
      case True
      then obtain a c where ac: "i = p + a" "j = p + c" using ij by (metis le_add_diff_inverse le_trans less_imp_le)
      then show ?thesis
        using split_ordered [of lt v xs' p gt n a c, OF v] ij True b by (cases "c < lt \<or> gt \<le> a") auto
    next
      case False
      then show ?thesis using pending_outside [OF pend perm] ij perm_in_length [OF perm] by auto
    qed
  qed
  then have ord': "ordered_mod xs' ((p + gt, n - gt) # (p, lt) # S)" by (auto simp: ordered_mod_def)
  have "disj_segs ((p, lt) # (p + gt, n - gt) # S)" using pend b by (fastforce simp: pending_def)
  moreover from this have "disj_segs ((p + gt, n - gt) # (p, lt) # S)" by auto
  ultimately show ?A ?B
    using ord ord' pend perm_in_length [OF perm] segs_in_split [of "length xs" p n S lt gt] b
    by (simp_all add: pending_def)
qed

lemma rqsort_sorts:
  "\<exists>ys. rqsort_jsi cmp xs = Some ys \<and> mset ys = mset xs \<and> sorted_wrt le ys"
proof (cases "length xs < 2")
  case True
  then have "sorted_wrt le xs" by (cases xs rule: remdups_adj.cases) auto
  then show ?thesis using True by (simp add: rqsort_jsi_def)
next
  case False
  let ?J = "\<lambda>ys S. mset ys = mset xs \<and> pending ys S"
  have "\<exists>ys. rq_loop cmp xs 0 (length xs) 0 [] = Some ys \<and> ?J ys []"
  proof (rule rq_loop_invariant [where J = ?J])
    fix zs p n zs' lt gt S
    assume J: "?J zs ((p, n) # S)" and n: "6 < n" and sp: "rq_split cmp zs p n = (zs', lt, gt)"
    have "mset zs' = mset zs"
      using rq_split_spec(1) [OF sp] J n by (simp add: pending_def segs_in_def perm_in_def)
    then show "?J zs' ((p, lt) # (p + gt, n - gt) # S) \<and> ?J zs' ((p + gt, n - gt) # (p, lt) # S)"
      using pending_split [OF _ _ sp] J n by simp
  next
    fix zs p n S assume J: "?J zs ((p, n) # S)"
    then have "perm_in p (p + n) zs (rq_small cmp zs p n)" "seg_sorted (rq_small cmp zs p n) p n"
      by (auto intro!: rq_small_perm rq_small_sorted simp: pending_def segs_in_def)
    then show "?J (rq_small cmp zs p n) S" using pending_small J by (auto simp: perm_in_def)
  qed (auto simp: segs_in_def stack_ok_def pending_def ordered_mod_def)
  then show ?thesis
    using False by (auto simp: rqsort_jsi_def pending_def ordered_mod_def sorted_wrt_iff_nth_less)
qed

end

section \<open>Properties\<close>

text \<open>C7: for a comparison function that is antisymmetric in sign and transitive, the sort returns
  an ordered rearrangement of its input.\<close>

theorem rqsort_orders:
  assumes "\<And>x y. cmp x y > 0 \<longleftrightarrow> cmp y x < 0"
    and "\<And>x y z. cmp x y \<le> 0 \<Longrightarrow> cmp y z \<le> 0 \<Longrightarrow> cmp x z \<le> 0"
  shows "\<exists>ys. rqsort_jsi cmp xs = Some ys \<and> mset ys = mset xs \<and> sorted_wrt (\<lambda>x y. cmp x y \<le> 0) ys"
  by (rule cmp_order.rqsort_sorts, unfold_locales) (use assms in blast)+

theorem rqsort_orders_witness:
  "\<exists>ys. rqsort_jsi (\<lambda>x y :: int. x - y) [3, 1, 2, 9, 5, 7, 0, 4] = Some ys
     \<and> mset ys = mset [3, 1, 2, 9, 5, 7, 0, 4] \<and> sorted_wrt (\<lambda>x y. x - y \<le> 0) ys"
  by (rule rqsort_orders [of "\<lambda>x y :: int. x - y"]) auto

end
