(* ===== verification/QPow.thy ===== *)
theory QPow
  imports QPrelude
begin

text \<open>
  The proof-of-work search of \<^verbatim>\<open>src/src/js/test/pow.c\<close>: its SHA-256, the test for leading zero
  bits and the nonce loop of \<^verbatim>\<open>main\<close>. The digest is proved equal to a reference definition of
  SHA-256 (padding, blocks, compression with rotations), the bit test is proved to be a bound on the
  digest read as a big-endian number, and the loop is proved to return the least suitable nonce.
\<close>

section \<open>SHA-256\<close>

record sha256_ctx =
  h_st :: "u32 list"
  len_st :: u64
  buf_st :: bytes
  buf_len :: nat

text \<open>The round constants, one list per line of the table.\<close>

definition k_tab :: "u32 list" where
  "k_tab = concat [
    [0x428a2f98, 0x71374491, 0xb5c0fbcf, 0xe9b5dba5, 0x3956c25b, 0x59f111f1, 0x923f82a4, 0xab1c5ed5],
    [0xd807aa98, 0x12835b01, 0x243185be, 0x550c7dc3, 0x72be5d74, 0x80deb1fe, 0x9bdc06a7, 0xc19bf174],
    [0xe49b69c1, 0xefbe4786, 0x0fc19dc6, 0x240ca1cc, 0x2de92c6f, 0x4a7484aa, 0x5cb0a9dc, 0x76f988da],
    [0x983e5152, 0xa831c66d, 0xb00327c8, 0xbf597fc7, 0xc6e00bf3, 0xd5a79147, 0x06ca6351, 0x14292967],
    [0x27b70a85, 0x2e1b2138, 0x4d2c6dfc, 0x53380d13, 0x650a7354, 0x766a0abb, 0x81c2c92e, 0x92722c85],
    [0xa2bfe8a1, 0xa81a664b, 0xc24b8b70, 0xc76c51a3, 0xd192e819, 0xd6990624, 0xf40e3585, 0x106aa070],
    [0x19a4c116, 0x1e376c08, 0x2748774c, 0x34b0bcb5, 0x391c0cb3, 0x4ed8aa4a, 0x5b9cca4f, 0x682e6ff3],
    [0x748f82ee, 0x78a5636f, 0x84c87814, 0x8cc70208, 0x90befffa, 0xa4506ceb, 0xbef9a3f7, 0xc67178f2]]"

definition sha256_h0 :: "u32 list" where
  "sha256_h0 = [0x6a09e667, 0xbb67ae85, 0x3c6ef372, 0xa54ff53a,
                0x510e527f, 0x9b05688c, 0x1f83d9ab, 0x5be0cd19]"

text \<open>The automatic variable is uninitialised: \<open>junk\<close> is what its buffer happens to hold.\<close>

definition sha256_init :: "bytes \<Rightarrow> sha256_ctx" where
  "sha256_init junk = \<lparr>h_st = sha256_h0, len_st = 0, buf_st = junk, buf_len = 0\<rparr>"

text \<open>The message schedule: sixteen big-endian words of the block, then the recurrence.\<close>

definition be_word :: "bytes \<Rightarrow> nat \<Rightarrow> u32" where
  "be_word p i = (push_bit 24 (ucast (p ! (4 * i)))) OR (push_bit 16 (ucast (p ! (4 * i + 1))))
     OR (push_bit 8 (ucast (p ! (4 * i + 2)))) OR ucast (p ! (4 * i + 3))"

definition sched_next :: "u32 list \<Rightarrow> nat \<Rightarrow> u32" where
  "sched_next w i =
     (let x = w ! (i - 15); y = w ! (i - 2);
          s0 = (drop_bit 7 x OR push_bit 25 x) XOR (drop_bit 18 x OR push_bit 14 x) XOR drop_bit 3 x;
          s1 = (drop_bit 17 y OR push_bit 15 y) XOR (drop_bit 19 y OR push_bit 13 y) XOR drop_bit 10 y
      in w ! (i - 16) + s0 + w ! (i - 7) + s1)"

definition sha_schedule :: "bytes \<Rightarrow> u32 list" where
  "sha_schedule p = foldl (\<lambda>w i. w @ [sched_next w i]) (map (be_word p) [0 ..< 16]) [16 ..< 64]"

text \<open>One round on the eight working variables \<open>a, b, d, e, f, g, h, t1\<close> of the source.\<close>

type_synonym sha_vars = "u32 \<times> u32 \<times> u32 \<times> u32 \<times> u32 \<times> u32 \<times> u32 \<times> u32"

definition sha_round :: "u32 \<Rightarrow> u32 \<Rightarrow> sha_vars \<Rightarrow> sha_vars" where
  "sha_round ki wi v = (case v of (a, b, d, e, f, g, h, t1) \<Rightarrow>
     let S1 = (drop_bit 6 f OR push_bit 26 f) XOR (drop_bit 11 f OR push_bit 21 f)
              XOR (drop_bit 25 f OR push_bit 7 f);
         ch = (f AND g) XOR (NOT f AND h);
         temp1 = t1 + S1 + ch + ki + wi;
         S0 = (drop_bit 2 a OR push_bit 30 a) XOR (drop_bit 13 a OR push_bit 19 a)
              XOR (drop_bit 22 a OR push_bit 10 a);
         maj = (a AND b) XOR (a AND d) XOR (b AND d);
         temp2 = S0 + maj
     in (temp1 + temp2, a, b, d, e + temp1, f, g, h))"

fun sha_rounds :: "u32 list \<Rightarrow> u32 list \<Rightarrow> sha_vars \<Rightarrow> sha_vars" where
  "sha_rounds (k # ks) (w # ws) v = sha_rounds ks ws (sha_round k w v)"
| "sha_rounds _ _ v = v"

definition sha256_compress :: "u32 list \<Rightarrow> bytes \<Rightarrow> u32 list" where
  "sha256_compress hs p =
     (case sha_rounds k_tab (sha_schedule p)
             (hs ! 0, hs ! 1, hs ! 2, hs ! 3, hs ! 4, hs ! 5, hs ! 6, hs ! 7) of
        (a, b, d, e, f, g, h, t1) \<Rightarrow>
          [hs ! 0 + a, hs ! 1 + b, hs ! 2 + d, hs ! 3 + e,
           hs ! 4 + f, hs ! 5 + g, hs ! 6 + h, hs ! 7 + t1])"

definition sha256_transform :: "sha256_ctx \<Rightarrow> bytes \<Rightarrow> sha256_ctx" where
  "sha256_transform c p = c\<lparr>h_st := sha256_compress (h_st c) p\<rparr>"

text \<open>One byte of the loop of \<open>sha256_update\<close>; a store outside \<open>buf[64]\<close> would be
  \<open>None\<close>.\<close>

definition sha256_byte :: "u8 \<Rightarrow> sha256_ctx \<Rightarrow> sha256_ctx option" where
  "sha256_byte x c = do {
     buf \<leftarrow> mem_set (buf_st c) (buf_len c) x;
     let c = c\<lparr>buf_st := buf, buf_len := buf_len c + 1\<rparr>;
     Some (if buf_len c = 64 then (sha256_transform c (buf_st c))\<lparr>buf_len := 0\<rparr> else c) }"

fun sha256_loop :: "bytes \<Rightarrow> sha256_ctx \<Rightarrow> sha256_ctx option" where
  "sha256_loop [] c = Some c"
| "sha256_loop (x # p) c = do { c \<leftarrow> sha256_byte x c; sha256_loop p c }"

definition sha256_update :: "sha256_ctx \<Rightarrow> bytes \<Rightarrow> sha256_ctx option" where
  "sha256_update c data = sha256_loop data (c\<lparr>len_st := len_st c + of_nat (length data)\<rparr>)"

text \<open>The padding loop of \<open>sha256_final\<close>. It ends for every \<open>buf_len \<le> 64\<close>;
  \<open>fuel\<close> bounds the number of iterations (65 suffice, see \<open>sha_pad_fuel\<close>).\<close>

fun sha256_pad :: "nat \<Rightarrow> sha256_ctx \<Rightarrow> sha256_ctx option" where
  "sha256_pad 0 c = None"
| "sha256_pad (Suc fuel) c =
     (if buf_len c = 56 then Some c
      else
        let c = (if buf_len c = 64 then (sha256_transform c (buf_st c))\<lparr>buf_len := 0\<rparr> else c) in
        do { buf \<leftarrow> mem_set (buf_st c) (buf_len c) 0;
             sha256_pad fuel (c\<lparr>buf_st := buf, buf_len := buf_len c + 1\<rparr>) })"

definition be64 :: "u64 \<Rightarrow> bytes" where
  "be64 n = map (\<lambda>i. ucast (drop_bit (56 - 8 * i) n AND 0xff)) [0 ..< 8]"

definition be32 :: "u32 \<Rightarrow> bytes" where
  "be32 n = [ucast (drop_bit 24 n AND 0xff), ucast (drop_bit 16 n AND 0xff),
             ucast (drop_bit 8 n AND 0xff), ucast (n AND 0xff)]"

definition sha256_final :: "sha256_ctx \<Rightarrow> bytes option" where
  "sha256_final c = do {
     buf \<leftarrow> mem_set (buf_st c) (buf_len c) 0x80;
     c \<leftarrow> sha256_pad 65 (c\<lparr>buf_st := buf, buf_len := buf_len c + 1\<rparr>);
     buf \<leftarrow> mem_blit (buf_st c) 56 (be64 (len_st c * 8));
     let c = sha256_transform (c\<lparr>buf_st := buf\<rparr>) buf;
     Some (concat (map be32 (h_st c))) }"

text \<open>The three calls of \<open>main\<close>.\<close>

definition sha256 :: "bytes \<Rightarrow> bytes \<Rightarrow> bytes option" where
  "sha256 junk msg = do { c \<leftarrow> sha256_update (sha256_init junk) msg; sha256_final c }"

section \<open>The leading zero bits\<close>

fun zero_bytes :: "bytes \<Rightarrow> nat \<Rightarrow> nat \<Rightarrow> bool option" where
  "zero_bytes hash i 0 = Some True"
| "zero_bytes hash i (Suc n) = do {
     x \<leftarrow> mem_get hash i;
     if x \<noteq> 0 then Some False else zero_bytes hash (Suc i) n }"

definition hash_has_leading_zero_bits :: "bytes \<Rightarrow> nat \<Rightarrow> bool option" where
  "hash_has_leading_zero_bits hash bits = do {
     z \<leftarrow> zero_bytes hash 0 (bits div 8);
     if \<not> z then Some False
     else if bits mod 8 > 0 then do {
       x \<leftarrow> mem_get hash (bits div 8);
       let mask = push_bit (8 - bits mod 8) (0xFF :: u8);
       Some (x AND mask = 0) }
     else Some True }"

section \<open>The nonce loop\<close>

text \<open>\<open>%u\<close> of \<open>snprintf\<close>.\<close>

fun dec_digits :: "nat \<Rightarrow> bytes" where
  "dec_digits n = (if n < 10 then [] else dec_digits (n div 10)) @ [of_nat (48 + n mod 10)]"

declare dec_digits.simps [simp del]

definition ascii :: "string \<Rightarrow> bytes" where
  "ascii s = map (\<lambda>c. of_nat (of_char c)) s"

definition pow_message :: "u32 \<Rightarrow> bytes" where
  "pow_message nonce = ascii ''register:sergey:ABC123PUBKEY1:'' @ dec_digits (unat nonce)"

definition pow_accepts :: "bytes \<Rightarrow> u32 \<Rightarrow> bool option" where
  "pow_accepts junk nonce = do {
     hash \<leftarrow> sha256 junk (pow_message nonce);
     hash_has_leading_zero_bits hash 23 }"

text \<open>\<open>main\<close> loops until a nonce is accepted; the nonce wraps at \<open>2^32\<close>, so it may run
  forever. The result is the nonce it prints.\<close>

partial_function (option) pow_search :: "bytes \<Rightarrow> u32 \<Rightarrow> u32 option" where
  "pow_search junk nonce =
     (case pow_accepts junk nonce of None \<Rightarrow> None
      | Some found \<Rightarrow> if found then Some nonce else pow_search junk (nonce + 1))"

definition pow_main :: "bytes \<Rightarrow> u32 option" where
  "pow_main junk = pow_search junk 0"

section \<open>Reference definition of SHA-256\<close>

text \<open>FIPS 180-4 in terms of rotations, on a padded message cut into blocks of 64 bytes.\<close>

definition ref_Sigma0 :: "u32 \<Rightarrow> u32" where
  "ref_Sigma0 x = word_rotr 2 x XOR word_rotr 13 x XOR word_rotr 22 x"

definition ref_Sigma1 :: "u32 \<Rightarrow> u32" where
  "ref_Sigma1 x = word_rotr 6 x XOR word_rotr 11 x XOR word_rotr 25 x"

definition ref_sigma0 :: "u32 \<Rightarrow> u32" where
  "ref_sigma0 x = word_rotr 7 x XOR word_rotr 18 x XOR drop_bit 3 x"

definition ref_sigma1 :: "u32 \<Rightarrow> u32" where
  "ref_sigma1 x = word_rotr 17 x XOR word_rotr 19 x XOR drop_bit 10 x"

definition ref_Ch :: "u32 \<Rightarrow> u32 \<Rightarrow> u32 \<Rightarrow> u32" where
  "ref_Ch x y z = (x AND y) XOR (NOT x AND z)"

definition ref_Maj :: "u32 \<Rightarrow> u32 \<Rightarrow> u32 \<Rightarrow> u32" where
  "ref_Maj x y z = (x AND y) XOR (x AND z) XOR (y AND z)"

definition ref_schedule :: "bytes \<Rightarrow> u32 list" where
  "ref_schedule p = foldl (\<lambda>w t. w @ [ref_sigma1 (w ! (t - 2)) + w ! (t - 7) + ref_sigma0 (w ! (t - 15))
     + w ! (t - 16)]) (map (be_word p) [0 ..< 16]) [16 ..< 64]"

definition ref_round :: "sha_vars \<Rightarrow> u32 \<times> u32 \<Rightarrow> sha_vars" where
  "ref_round v kw = (case v of (a, b, c, d, e, f, g, h) \<Rightarrow>
     let T1 = h + ref_Sigma1 e + ref_Ch e f g + fst kw + snd kw;
         T2 = ref_Sigma0 a + ref_Maj a b c
     in (T1 + T2, a, b, c, d + T1, e, f, g))"

definition ref_compress :: "u32 list \<Rightarrow> bytes \<Rightarrow> u32 list" where
  "ref_compress hs p =
     (case foldl ref_round (hs ! 0, hs ! 1, hs ! 2, hs ! 3, hs ! 4, hs ! 5, hs ! 6, hs ! 7)
             (zip k_tab (ref_schedule p)) of
        (a, b, c, d, e, f, g, h) \<Rightarrow>
          [a + hs ! 0, b + hs ! 1, c + hs ! 2, d + hs ! 3, e + hs ! 4, f + hs ! 5, g + hs ! 6, h + hs ! 7])"

definition ref_pad :: "bytes \<Rightarrow> bytes" where
  "ref_pad m = m @ 0x80 # replicate ((119 - length m mod 64) mod 64) 0 @ be64 (of_nat (8 * length m))"

function hash_blocks :: "(u32 list \<Rightarrow> bytes \<Rightarrow> u32 list) \<Rightarrow> u32 list \<Rightarrow> bytes \<Rightarrow> u32 list" where
  "hash_blocks f hs m = (if length m < 64 then hs else hash_blocks f (f hs (take 64 m)) (drop 64 m))"
  by pat_completeness auto
termination by (relation "measure (\<lambda>(f, hs, m). length m)") auto

declare hash_blocks.simps [simp del]

definition sha256_reference :: "bytes \<Rightarrow> bytes" where
  "sha256_reference m = concat (map be32 (hash_blocks ref_compress sha256_h0 (ref_pad m)))"

lemma rotr_shifts:
  "0 < n \<Longrightarrow> n < 32 \<Longrightarrow> drop_bit n x OR push_bit (32 - n) x = word_rotr n (x :: u32)"
proof (rule bit_word_eqI)
  fix i assume n: "0 < n" "n < 32" and i: "i < LENGTH(32)"
  show "bit (drop_bit n x OR push_bit (32 - n) x) i = bit (word_rotr n x) i"
  proof (cases "i + n < 32")
    case True
    then show ?thesis using n i by (auto simp: bit_simps bit_word_rotr_iff add.commute)
  next
    case False
    then have "(i + n) mod 32 = i - (32 - n)" using n i by (simp add: mod_if)
    moreover have "\<not> bit x (n + i)" using False by (auto dest: bit_imp_le_length)
    ultimately show ?thesis using n i False by (auto simp: bit_simps bit_word_rotr_iff add.commute)
  qed
qed

lemmas rotr_eqs = rotr_shifts [of 2] rotr_shifts [of 6] rotr_shifts [of 7] rotr_shifts [of 11]
  rotr_shifts [of 13] rotr_shifts [of 17] rotr_shifts [of 18] rotr_shifts [of 19]
  rotr_shifts [of 22] rotr_shifts [of 25]

lemma sha_round_ref: "sha_round k w v = ref_round v (k, w)"
  by (simp add: sha_round_def ref_round_def Let_def rotr_eqs [simplified] ref_Sigma0_def ref_Sigma1_def
      ref_Ch_def ref_Maj_def split: prod.split)

lemma sha_rounds_ref: "sha_rounds ks ws v = foldl ref_round v (zip ks ws)"
  by (induction ks ws v rule: sha_rounds.induct) (auto simp: sha_round_ref)

lemma sched_next_ref:
  "sched_next w t = ref_sigma1 (w ! (t - 2)) + w ! (t - 7) + ref_sigma0 (w ! (t - 15)) + w ! (t - 16)"
  by (simp add: sched_next_def Let_def rotr_eqs [simplified] ref_sigma0_def ref_sigma1_def)

lemma sha_schedule_ref: "sha_schedule = ref_schedule"
  by (simp only: fun_eq_iff sha_schedule_def ref_schedule_def sched_next_ref simp_thms)

lemma compress_ref: "sha256_compress = ref_compress"
  by (simp add: fun_eq_iff sha256_compress_def ref_compress_def sha_rounds_ref sha_schedule_ref
      add.commute split: prod.split)

section \<open>The streaming implementation computes the reference\<close>

lemma hash_blocks_append:
  "64 dvd length full \<Longrightarrow> length b = 64 \<Longrightarrow> hash_blocks f hs (full @ b) = f (hash_blocks f hs full) b"
proof (induction f hs full rule: hash_blocks.induct)
  case (1 f hs m)
  show ?case
  proof (cases "length m < 64")
    case True
    then have "m = []" using "1.prems" by (auto dest: dvd_imp_le)
    then show ?thesis
      using "1.prems" by (simp add: hash_blocks.simps [of f hs] hash_blocks.simps [of f "f hs b"])
  next
    case False
    then have "64 dvd length (drop 64 m)" using "1.prems"(1) by (simp add: dvd_diff_nat)
    with 1 False show ?thesis
      by (simp add: hash_blocks.simps [of f hs m] hash_blocks.simps [of f hs "m @ b"])
  qed
qed

text \<open>\<open>absorbed c m\<close>: the context has consumed the message \<open>m\<close>.\<close>

definition absorbed :: "sha256_ctx \<Rightarrow> bytes \<Rightarrow> bool" where
  "absorbed c m \<longleftrightarrow> length (buf_st c) = 64 \<and> buf_len c \<le> 64 \<and>
     (\<exists>full. m = full @ take (buf_len c) (buf_st c) \<and> 64 dvd length full
        \<and> h_st c = hash_blocks sha256_compress sha256_h0 full)"

lemma absorbed_store:
  assumes "absorbed c m" and "buf_len c < 64"
  shows "absorbed (c\<lparr>buf_st := (buf_st c)[buf_len c := x], buf_len := buf_len c + 1\<rparr>) (m @ [x])"
  using assms by (auto simp: absorbed_def take_Suc_conv_app_nth)

lemma absorbed_flush:
  assumes "absorbed c m" and "buf_len c = 64"
  shows "absorbed ((sha256_transform c (buf_st c))\<lparr>buf_len := 0\<rparr>) m"
  using assms
  by (auto simp: absorbed_def sha256_transform_def hash_blocks_append intro!: exI [of _ m])

lemma sha256_byte_absorbs:
  assumes "absorbed c m" and "buf_len c < 64"
  shows "\<exists>c'. sha256_byte x c = Some c' \<and> absorbed c' (m @ [x]) \<and> buf_len c' < 64 \<and> len_st c' = len_st c"
proof -
  let ?c = "c\<lparr>buf_st := (buf_st c)[buf_len c := x], buf_len := buf_len c + 1\<rparr>"
  have ab: "absorbed ?c (m @ [x])" by (rule absorbed_store [OF assms])
  have st: "mem_set (buf_st c) (buf_len c) x = Some ((buf_st c)[buf_len c := x])"
    using assms by (simp add: absorbed_def mem_simps)
  show ?thesis
  proof (cases "buf_len c + 1 = 64")
    case True
    then show ?thesis using absorbed_flush [OF ab] st by (simp add: sha256_byte_def sha256_transform_def)
  next
    case False
    then show ?thesis using ab st assms by (simp add: sha256_byte_def)
  qed
qed

lemma sha256_loop_absorbs:
  "absorbed c m \<Longrightarrow> buf_len c < 64 \<Longrightarrow>
   \<exists>c'. sha256_loop p c = Some c' \<and> absorbed c' (m @ p) \<and> buf_len c' < 64 \<and> len_st c' = len_st c"
proof (induction p arbitrary: c m)
  case (Cons x p)
  from sha256_byte_absorbs [OF Cons.prems, of x] obtain c1
    where c1: "sha256_byte x c = Some c1" "absorbed c1 (m @ [x])" "buf_len c1 < 64" "len_st c1 = len_st c" by blast
  from Cons.IH [OF c1(2,3)] c1 show ?case by auto
qed simp

lemma absorbed_init: "length junk = 64 \<Longrightarrow> absorbed (sha256_init junk) []"
  by (simp add: absorbed_def sha256_init_def hash_blocks.simps)

lemma absorbed_len: "absorbed c m \<Longrightarrow> buf_len c < 64 \<Longrightarrow> buf_len c = length m mod 64"
  by (auto simp: absorbed_def)

definition pad_zeros :: "nat \<Rightarrow> nat" where
  "pad_zeros l = (if l \<le> 56 then 56 - l else 120 - l)"

lemma pad_zeros_mod: "l < 64 \<Longrightarrow> pad_zeros (l + 1) = (119 - l) mod 64"
proof (cases "l \<le> 55")
  case True
  then have "119 - l = 64 + (55 - l)" by simp
  then have "(119 - l) mod 64 = (55 - l) mod 64" by (metis mod_add_self1)
  then show ?thesis using True by (simp add: pad_zeros_def)
qed (simp add: pad_zeros_def)

lemma sha_pad_fuel:
  "absorbed c m \<Longrightarrow> pad_zeros (buf_len c) < fuel \<Longrightarrow>
   \<exists>c'. sha256_pad fuel c = Some c' \<and> absorbed c' (m @ replicate (pad_zeros (buf_len c)) 0)
     \<and> buf_len c' = 56 \<and> len_st c' = len_st c"
proof (induction fuel arbitrary: c m)
  case (Suc fuel)
  show ?case
  proof (cases "buf_len c = 56")
    case True
    then show ?thesis using Suc.prems by (simp add: pad_zeros_def)
  next
    case False
    define d where "d = (if buf_len c = 64 then (sha256_transform c (buf_st c))\<lparr>buf_len := 0\<rparr> else c)"
    have d: "absorbed d m" "buf_len d < 64" "len_st d = len_st c"
      using Suc.prems absorbed_flush [of c m] by (auto simp: d_def absorbed_def sha256_transform_def)
    let ?e = "d\<lparr>buf_st := (buf_st d)[buf_len d := 0], buf_len := buf_len d + 1\<rparr>"
    have e: "absorbed ?e (m @ [0])" by (rule absorbed_store [OF d(1,2)])
    have z: "pad_zeros (buf_len c) = Suc (pad_zeros (buf_len d + 1))"
    proof -
      have "buf_len d = (if buf_len c = 64 then 0 else buf_len c)" "buf_len c \<le> 64"
        using Suc.prems(1) by (auto simp: d_def absorbed_def)
      then show ?thesis using False by (auto simp: pad_zeros_def)
    qed
    have "\<exists>c'. sha256_pad fuel ?e = Some c' \<and> absorbed c' ((m @ [0]) @ replicate (pad_zeros (buf_len ?e)) 0)
       \<and> buf_len c' = 56 \<and> len_st c' = len_st ?e"
      using Suc.IH [OF e] Suc.prems(2) z by simp
    moreover have "sha256_pad (Suc fuel) c = sha256_pad fuel ?e"
      using False d by (simp add: d_def [symmetric] Let_def absorbed_def mem_simps)
    ultimately show ?thesis using z d by simp
  qed
qed simp

lemma sha256_computes:
  assumes "length junk = 64"
  shows "sha256 junk m = Some (sha256_reference m)"
proof -
  let ?c0 = "(sha256_init junk)\<lparr>len_st := of_nat (length m)\<rparr>"
  have "absorbed ?c0 []" "buf_len ?c0 < 64" using absorbed_init [OF assms]
    by (auto simp: absorbed_def sha256_init_def)
  from sha256_loop_absorbs [OF this, of m] obtain c where c: "sha256_loop m ?c0 = Some c"
    "absorbed c m" "buf_len c < 64" "len_st c = of_nat (length m)" by auto
  let ?d = "c\<lparr>buf_st := (buf_st c)[buf_len c := 0x80], buf_len := buf_len c + 1\<rparr>"
  have d: "absorbed ?d (m @ [0x80])" by (rule absorbed_store [OF c(2,3)])
  have "pad_zeros (buf_len ?d) < 65" by (auto simp: pad_zeros_def)
  from sha_pad_fuel [OF d this] obtain e where e: "sha256_pad 65 ?d = Some e" "buf_len e = 56"
    "absorbed e ((m @ [0x80]) @ replicate (pad_zeros (buf_len ?d)) 0)" "len_st e = of_nat (length m)"
    using c by auto
  have "pad_zeros (buf_len ?d) = (119 - length m mod 64) mod 64"
    using pad_zeros_mod [OF c(3)] absorbed_len [OF c(2,3)] by simp
  then obtain full where full: "m @ 0x80 # replicate ((119 - length m mod 64) mod 64) 0 = full @ take 56 (buf_st e)"
    "64 dvd length full" "h_st e = hash_blocks sha256_compress sha256_h0 full" "length (buf_st e) = 64"
    using e by (auto simp: absorbed_def)
  let ?b = "take 56 (buf_st e) @ be64 (len_st e * 8)"
  have l: "length (be64 n) = 8" for n by (simp add: be64_def)
  have "mem_blit (buf_st e) 56 (be64 (len_st e * 8)) = Some ?b" using full l by (simp add: mem_blit_def)
  moreover have "sha256_compress (h_st e) ?b = hash_blocks sha256_compress sha256_h0 (full @ ?b)"
    using full l by (simp add: hash_blocks_append)
  moreover have "full @ ?b = ref_pad m"
    using full(1) e(4) by (simp add: ref_pad_def mult.commute flip: append_assoc)
  moreover have "mem_set (buf_st c) (buf_len c) 0x80 = Some ((buf_st c)[buf_len c := 0x80])"
    using c by (simp add: absorbed_def mem_simps)
  ultimately show ?thesis
    using c e by (simp add: sha256_def sha256_update_def sha256_final_def sha256_transform_def
        sha256_reference_def compress_ref sha256_init_def)
qed

section \<open>The bit test as a bound on the digest\<close>

definition be_nat :: "bytes \<Rightarrow> nat" where
  "be_nat bs = foldl (\<lambda>n b. n * 256 + unat b) 0 bs"

lemma foldl_be: "foldl (\<lambda>n (b :: u8). n * 256 + unat b) a bs = a * 256 ^ length bs + be_nat bs"
proof (induction bs rule: rev_induct)
  case (snoc b bs)
  then show ?case by (simp add: be_nat_def algebra_simps)
qed (simp add: be_nat_def)

lemma be_nat_append: "be_nat (xs @ ys) = be_nat xs * 256 ^ length ys + be_nat ys"
  using foldl_be [of "be_nat xs" ys] by (simp add: be_nat_def)

lemma be_nat_Cons: "be_nat (x # xs) = unat x * 256 ^ length xs + be_nat xs"
  using be_nat_append [of "[x]" xs] by (simp add: be_nat_def)

lemma be_nat_Nil [simp]: "be_nat [] = 0"
  by (simp add: be_nat_def)

lemma be_nat_bound: "be_nat xs < 256 ^ length xs"
proof (induction xs)
  case (Cons x xs)
  have "unat x + 1 \<le> 256" using unsigned_less [of x, where ?'a = nat] by simp
  then have "(unat x + 1) * 256 ^ length xs \<le> 256 * 256 ^ length xs" by (rule mult_le_mono1)
  then have "unat x * 256 ^ length xs + 256 ^ length xs \<le> 256 * 256 ^ length xs"
    by (simp only: add_mult_distrib mult_1)
  with Cons show ?case unfolding be_nat_Cons list.size(4) add_Suc_right add_0_right power_Suc by linarith
qed simp

lemma be_nat_zero: "be_nat xs = 0 \<longleftrightarrow> (\<forall>x \<in> set xs. x = 0)"
  by (induction xs) (auto simp: be_nat_Cons unat_eq_0)

lemma zero_bytes_spec:
  "i + n \<le> length hash \<Longrightarrow> zero_bytes hash i n = Some (be_nat (take n (drop i hash)) = 0)"
proof (induction hash i n rule: zero_bytes.induct)
  case (2 hash i n)
  then have "drop i hash = hash ! i # drop (Suc i) hash" by (simp add: Cons_nth_drop_Suc)
  with 2 show ?case by (auto simp: mem_simps be_nat_Cons unat_eq_0)
qed simp

lemma high_bits_zero: "(x :: u8) AND push_bit n 0xFF = 0 \<longleftrightarrow> unat x < 2 ^ n"
proof -
  have "(0xFF :: u8) = - 1" by simp
  then have "x AND push_bit n 0xFF = x AND NOT (mask n)" by (simp only: push_bit_minus_one_eq_not_mask)
  moreover have "x AND NOT (mask n) = 0 \<longleftrightarrow> take_bit n x = x"
    by (auto simp: bit_eq_iff bit_simps bit_mask_iff)
  moreover have "take_bit n x = x \<longleftrightarrow> unat x < 2 ^ n"
    by (metis take_bit_nat_eq_self take_bit_nat_less_exp unsigned_take_bit_eq word_unat_eq_iff)
  ultimately show ?thesis by simp
qed

lemma lead_byte_bound:
  assumes "b < 256 ^ k" "r \<le> 8"
  shows "x * 256 ^ k + b < 2 ^ (8 * k + (8 - r)) \<longleftrightarrow> (x :: nat) < 2 ^ (8 - r)"
proof -
  have p: "(2 :: nat) ^ (8 * k + (8 - r)) = 2 ^ (8 - r) * 256 ^ k" by (simp add: power_add power_mult)
  show ?thesis
  proof
    assume "x * 256 ^ k + b < 2 ^ (8 * k + (8 - r))"
    then have "x * 256 ^ k < 2 ^ (8 - r) * 256 ^ k" unfolding p by linarith
    then show "x < 2 ^ (8 - r)" by simp
  next
    assume "x < 2 ^ (8 - r)"
    then have "(x + 1) * 256 ^ k \<le> 2 ^ (8 - r) * 256 ^ k" by (intro mult_le_mono1) simp
    then show "x * 256 ^ k + b < 2 ^ (8 * k + (8 - r))" unfolding p using assms by (simp add: algebra_simps)
  qed
qed

lemma leading_zero_bits_spec:
  assumes "bits \<le> 8 * length hash"
  shows "hash_has_leading_zero_bits hash bits = Some (be_nat hash < 2 ^ (8 * length hash - bits))"
proof -
  define q r where "q = bits div 8" and "r = bits mod 8"
  have bits: "bits = 8 * q + r" "r < 8" by (simp_all add: q_def r_def)
  then have q: "q \<le> length hash" using assms by linarith
  have z: "zero_bytes hash 0 q = Some (be_nat (take q hash) = 0)" using zero_bytes_spec [of 0 q hash] q by simp
  have split: "be_nat hash = be_nat (take q hash) * 256 ^ (length hash - q) + be_nat (drop q hash)"
    using be_nat_append [of "take q hash" "drop q hash"] by simp
  show ?thesis
  proof (cases "be_nat (take q hash) = 0")
    case False
    have "256 ^ (length hash - q) \<le> be_nat hash" using False split by (simp add: trans_le_add1)
    moreover have "(2 :: nat) ^ (8 * length hash - bits) \<le> 2 ^ (8 * (length hash - q))"
      using bits by (intro power_increasing) auto
    ultimately have "\<not> be_nat hash < 2 ^ (8 * length hash - bits)" by (simp add: power_mult)
    then show ?thesis using False z by (simp add: hash_has_leading_zero_bits_def q_def)
  next
    case True
    show ?thesis
    proof (cases "r = 0")
      case r: True
      have "be_nat (drop q hash) < 256 ^ (length hash - q)" using be_nat_bound [of "drop q hash"] by simp
      moreover have "8 * length hash - bits = 8 * (length hash - q)" using bits r by simp
      ultimately have "be_nat hash < 2 ^ (8 * length hash - bits)" using split True by (simp add: power_mult)
      then show ?thesis using True z r by (simp add: hash_has_leading_zero_bits_def q_def r_def)
    next
      case r: False
      then have ql: "q < length hash" using assms bits by linarith
      define k where "k = length hash - Suc q"
      have "drop q hash = hash ! q # drop (Suc q) hash" using ql by (simp add: Cons_nth_drop_Suc)
      then have "be_nat hash = unat (hash ! q) * 256 ^ k + be_nat (drop (Suc q) hash)"
        using split True by (simp add: be_nat_Cons k_def)
      moreover have "8 * length hash - bits = 8 * k + (8 - r)" using ql bits by (simp add: k_def)
      moreover have "be_nat (drop (Suc q) hash) < 256 ^ k" using be_nat_bound [of "drop (Suc q) hash"] by (simp add: k_def)
      ultimately have "be_nat hash < 2 ^ (8 * length hash - bits) \<longleftrightarrow> unat (hash ! q) < 2 ^ (8 - r)"
        using lead_byte_bound bits(2) by simp
      then show ?thesis using True z r ql
        by (simp add: hash_has_leading_zero_bits_def high_bits_zero mem_simps flip: q_def r_def)
    qed
  qed
qed

section \<open>The search\<close>

lemma length_reference: "length (sha256_reference m) = 32"
proof -
  have "length (hash_blocks ref_compress hs p) = 8" if "length hs = 8" for hs p
    using that
  proof (induction "ref_compress" hs p rule: hash_blocks.induct)
    case (1 hs m)
    have "length (ref_compress hs (take 64 m)) = 8" by (simp add: ref_compress_def split: prod.split)
    with 1 show ?case by (simp add: hash_blocks.simps [of _ hs m])
  qed
  then have "length (hash_blocks ref_compress sha256_h0 (ref_pad m)) = 8" by (simp add: sha256_h0_def)
  moreover have "length (concat (map be32 ws)) = 4 * length ws" for ws
    by (induction ws) (simp_all add: be32_def)
  ultimately show ?thesis by (simp add: sha256_reference_def)
qed

definition good_nonce :: "u32 \<Rightarrow> bool" where
  "good_nonce n \<longleftrightarrow> be_nat (sha256_reference (pow_message n)) < 2 ^ 233"

lemma pow_accepts_good: "length junk = 64 \<Longrightarrow> pow_accepts junk n = Some (good_nonce n)"
  using leading_zero_bits_spec [of 23 "sha256_reference (pow_message n)"]
  by (simp add: pow_accepts_def sha256_computes length_reference good_nonce_def)

lemma pow_search_finds:
  assumes j: "length junk = 64" and n: "good_nonce n"
  shows "k \<le> n \<Longrightarrow> (\<And>i. k \<le> i \<Longrightarrow> i < n \<Longrightarrow> \<not> good_nonce i) \<Longrightarrow> pow_search junk k = Some n"
proof (induction "unat n - unat k" arbitrary: k)
  case 0
  then have "k = n" by (simp add: word_le_nat_alt word_unat_eq_iff)
  then show ?case using n by (subst pow_search.simps) (simp add: pow_accepts_good [OF j])
next
  case (Suc d)
  then have kn: "k < n" by (simp add: word_less_nat_alt)
  then have u: "unat (k + 1) = unat k + 1"
    using unsigned_less [of n, where ?'a = nat] by (subst unat_plus_no_wrap) (auto simp: word_less_nat_alt)
  have "pow_search junk (k + 1) = Some n"
    by (rule Suc.hyps(1)) (use Suc kn u in \<open>auto simp: word_le_nat_alt word_less_nat_alt\<close>)
  then show ?case using Suc.prems(2) [of k] kn by (subst pow_search.simps) (simp add: pow_accepts_good [OF j])
qed

lemma pow_search_good:
  "pow_search junk k = Some n \<Longrightarrow> length junk = 64 \<Longrightarrow> good_nonce n"
proof -
  assume res: "pow_search junk k = Some n" and "length junk = 64"
  have "length junk = 64 \<longrightarrow> good_nonce n"
    by (rule pow_search.raw_induct [of "\<lambda>j k n. length j = 64 \<longrightarrow> good_nonce n", OF _ res])
      (auto simp: pow_accepts_good split: if_splits)
  with \<open>length junk = 64\<close> show ?thesis by blast
qed

lemma pow_main_least:
  assumes "length junk = 64"
  shows "pow_main junk = Some n \<longleftrightarrow> good_nonce n \<and> (\<forall>k < n. \<not> good_nonce k)"
proof
  assume n: "pow_main junk = Some n"
  then have "good_nonce n" using assms by (auto simp: pow_main_def dest: pow_search_good)
  then obtain m where m: "good_nonce m" "\<And>k. k < m \<Longrightarrow> \<not> good_nonce k"
    using exists_least_iff [of good_nonce] by blast
  then have "pow_main junk = Some m"
    using pow_search_finds [OF assms m(1), of 0] by (simp add: pow_main_def)
  with n m show "good_nonce n \<and> (\<forall>k < n. \<not> good_nonce k)" by auto
next
  assume "good_nonce n \<and> (\<forall>k < n. \<not> good_nonce k)"
  then show "pow_main junk = Some n"
    using pow_search_finds [OF assms, of n 0] by (simp add: pow_main_def)
qed

section \<open>Properties\<close>

text \<open>C13: hashing a message with init, update and final gives the SHA-256 of FIPS 180-4 for every
  message, independently of the uninitialised buffer, and never leaves the 64-byte buffer.\<close>

theorem sha256_correct:
  assumes "length junk = 64"
  shows "sha256 junk m = Some (sha256_reference m)"
  using assms by (rule sha256_computes)

theorem sha256_correct_witness:
  "sha256 (replicate 64 0xAA) (ascii ''abc'') = Some (sha256_reference (ascii ''abc''))"
  by (rule sha256_correct) simp

text \<open>the leading-zero test reads inside the hash and holds exactly when the hash, as a big-endian
  number, is below the corresponding power of two.\<close>

lemma leading_zero_bits_bound:
  assumes "bits \<le> 8 * length hash"
  shows "hash_has_leading_zero_bits hash bits = Some (be_nat hash < 2 ^ (8 * length hash - bits))"
  using assms by (rule leading_zero_bits_spec)

text \<open>C14: the nonce loop returns a nonce exactly when it is the least one whose registration message
  hashes below \<open>2^233\<close> (23 leading zero bits); so it ends whenever such a nonce exists.\<close>

theorem pow_main_finds_least:
  assumes "length junk = 64"
  shows "pow_main junk = Some n \<longleftrightarrow>
    be_nat (sha256_reference (pow_message n)) < 2 ^ 233
    \<and> (\<forall>k. k < n \<longrightarrow> 2 ^ 233 \<le> be_nat (sha256_reference (pow_message k)))"
  using pow_main_least [OF assms] by (auto simp: good_nonce_def not_less)

theorem pow_main_finds_least_witness:
  "pow_main (replicate 64 0) = Some 0 \<longleftrightarrow> be_nat (sha256_reference (pow_message 0)) < 2 ^ 233
    \<and> (\<forall>k. k < 0 \<longrightarrow> 2 ^ 233 \<le> be_nat (sha256_reference (pow_message k)))"
  by (rule pow_main_finds_least) simp

text \<open>The test asks for 23 bits, not for three zero bytes: a digest whose third byte is 1 passes.\<close>

lemma pow_test_not_three_bytes:
  "hash_has_leading_zero_bits (0 # 0 # 1 # replicate 29 0xFF) 23 = Some True"
  using be_nat_bound [of "replicate 29 0xFF"]
    leading_zero_bits_spec [of 23 "0 # 0 # 1 # replicate 29 0xFF"] by (simp add: be_nat_Cons)

end
