(* ===== verification/QAlloc.thy ===== *)
theory QAlloc
  imports QPrelude
begin

text \<open>
  The default allocator of the contract engine with its memory limit
  (\<^verbatim>\<open>src/src/qjsi/quickjs_i.c\<close>, lines 2649 to 2782 and 2942 to 3035): the counters
  \<^verbatim>\<open>malloc_count\<close> and \<^verbatim>\<open>malloc_size\<close>, the limit, and the wrappers that raise an
  out-of-memory exception. The C library's allocator is a parameter: the interface
  \<open>libc_alloc\<close> states what it promises.
\<close>

section \<open>Definitions\<close>

text \<open>The heap maps the address of each live block to its bytes; a block is as long as
  \<open>malloc_usable_size\<close> reports.\<close>

type_synonym heap = "nat \<rightharpoonup> bytes"

record malloc_state =
  malloc_count :: u64
  malloc_size :: u64
  malloc_limit :: u64
  ms_heap :: heap

text \<open>The C library: \<open>malloc\<close> maps the heap and a sz to an address and the new block, \<open>realloc\<close>
  also takes the old address; \<open>None\<close> is a \<open>NULL\<close> result.\<close>

record libc =
  lc_malloc :: "heap \<Rightarrow> nat \<Rightarrow> (nat \<times> bytes) option"
  lc_realloc :: "heap \<Rightarrow> nat \<Rightarrow> nat \<Rightarrow> (nat \<times> bytes) option"

definition MALLOC_OVERHEAD :: u64 where
  "MALLOC_OVERHEAD = 8"

definition jsi_def_malloc_usable_size :: "heap \<Rightarrow> nat \<Rightarrow> u64" where
  "jsi_def_malloc_usable_size h ptr = (case h ptr of None \<Rightarrow> 0 | Some b \<Rightarrow> of_nat (length b))"

text \<open>A failed assertion is the outer \<open>None\<close>.\<close>

definition jsi_def_malloc :: "libc \<Rightarrow> malloc_state \<Rightarrow> u64 \<Rightarrow> (nat option \<times> malloc_state) option" where
  "jsi_def_malloc lc s sz =
     (if sz = 0 then None
      else if malloc_size s + sz > malloc_limit s then Some (None, s)
      else (case lc_malloc lc (ms_heap s) (unat sz) of
              None \<Rightarrow> Some (None, s)
            | Some (ptr, b) \<Rightarrow>
                let h = (ms_heap s)(ptr \<mapsto> b) in
                Some (Some ptr, s\<lparr>malloc_count := malloc_count s + 1,
                  malloc_size := malloc_size s + (jsi_def_malloc_usable_size h ptr + MALLOC_OVERHEAD),
                  ms_heap := h\<rparr>)))"

definition jsi_def_free :: "malloc_state \<Rightarrow> nat option \<Rightarrow> malloc_state" where
  "jsi_def_free s ptr =
     (case ptr of None \<Rightarrow> s
      | Some p \<Rightarrow> s\<lparr>malloc_count := malloc_count s - 1,
          malloc_size := malloc_size s - (jsi_def_malloc_usable_size (ms_heap s) p + MALLOC_OVERHEAD),
          ms_heap := (ms_heap s)(p := None)\<rparr>)"

definition jsi_def_realloc ::
  "libc \<Rightarrow> malloc_state \<Rightarrow> nat option \<Rightarrow> u64 \<Rightarrow> (nat option \<times> malloc_state) option" where
  "jsi_def_realloc lc s ptr sz =
     (case ptr of
        None \<Rightarrow> if sz = 0 then Some (None, s) else jsi_def_malloc lc s sz
      | Some p \<Rightarrow>
          let old_size = jsi_def_malloc_usable_size (ms_heap s) p in
          if sz = 0 then
            Some (None, s\<lparr>malloc_count := malloc_count s - 1,
              malloc_size := malloc_size s - (old_size + MALLOC_OVERHEAD),
              ms_heap := (ms_heap s)(p := None)\<rparr>)
          else if malloc_size s + sz - old_size > malloc_limit s then Some (None, s)
          else (case lc_realloc lc (ms_heap s) p (unat sz) of
                  None \<Rightarrow> Some (None, s)
                | Some (q, b) \<Rightarrow>
                    let h = (ms_heap s)(p := None, q \<mapsto> b) in
                    Some (Some q, s\<lparr>malloc_size := malloc_size s + (jsi_def_malloc_usable_size h q - old_size),
                      ms_heap := h\<rparr>)))"

definition JSI_SetMemoryLimit :: "malloc_state \<Rightarrow> u64 \<Rightarrow> malloc_state" where
  "JSI_SetMemoryLimit s limit = s\<lparr>malloc_limit := limit\<rparr>"

text \<open>The fresh allocator state of \<open>JSI_NewRuntime2\<close>: no block, no limit.\<close>

definition new_malloc_state :: malloc_state where
  "new_malloc_state = \<lparr>malloc_count = 0, malloc_size = 0, malloc_limit = - 1, ms_heap = Map.empty\<rparr>"

text \<open>The wrappers of the context: \<open>Inl\<close> is the pending out-of-memory exception. \<open>jsi_realloc2\<close> also
  returns the slack between the usable and the requested sz.\<close>

datatype alloc_error = OutOfMemory

definition jsi_malloc :: "libc \<Rightarrow> malloc_state \<Rightarrow> u64 \<Rightarrow> ((alloc_error + nat) \<times> malloc_state) option" where
  "jsi_malloc lc s sz = do {
     (r, s) \<leftarrow> jsi_def_malloc lc s sz;
     Some (case r of None \<Rightarrow> (Inl OutOfMemory, s) | Some p \<Rightarrow> (Inr p, s)) }"

definition jsi_mallocz_rt :: "libc \<Rightarrow> malloc_state \<Rightarrow> u64 \<Rightarrow> (nat option \<times> malloc_state) option" where
  "jsi_mallocz_rt lc s sz = do {
     (r, s) \<leftarrow> jsi_def_malloc lc s sz;
     case r of None \<Rightarrow> Some (None, s)
     | Some p \<Rightarrow> do {
         m \<leftarrow> ms_heap s p;
         m \<leftarrow> mem_blit m 0 (replicate (unat sz) 0);
         Some (Some p, s\<lparr>ms_heap := (ms_heap s)(p \<mapsto> m)\<rparr>) } }"

definition jsi_realloc ::
  "libc \<Rightarrow> malloc_state \<Rightarrow> nat option \<Rightarrow> u64 \<Rightarrow> ((alloc_error + nat option) \<times> malloc_state) option" where
  "jsi_realloc lc s ptr sz = do {
     (r, s) \<leftarrow> jsi_def_realloc lc s ptr sz;
     Some (if r = None \<and> sz \<noteq> 0 then (Inl OutOfMemory, s) else (Inr r, s)) }"

definition jsi_realloc2 ::
  "libc \<Rightarrow> malloc_state \<Rightarrow> nat option \<Rightarrow> u64 \<Rightarrow> ((alloc_error + nat option \<times> u64) \<times> malloc_state) option"
where
  "jsi_realloc2 lc s ptr sz = do {
     (r, s) \<leftarrow> jsi_def_realloc lc s ptr sz;
     if r = None \<and> sz \<noteq> 0 then Some (Inl OutOfMemory, s)
     else
       let new_size = (case r of None \<Rightarrow> 0 | Some p \<Rightarrow> jsi_def_malloc_usable_size (ms_heap s) p);
           slack = (if new_size > sz then new_size - sz else 0)
       in Some (Inr (r, slack), s) }"

text \<open>A growable array: its block, its capacity in elements. The product is computed in \<open>int\<close>
  arithmetic and sign extended to \<open>size_t\<close>; an overflow of \<open>int\<close> is undefined (\<open>None\<close>).\<close>

definition int_ok :: "int \<Rightarrow> bool" where
  "int_ok x \<longleftrightarrow> - (2 ^ 31) \<le> x \<and> x < 2 ^ 31"

definition jsi_realloc_array ::
  "libc \<Rightarrow> malloc_state \<Rightarrow> nat option \<Rightarrow> int \<Rightarrow> int \<Rightarrow> int \<Rightarrow>
   (((alloc_error + unit) \<times> nat option \<times> int) \<times> malloc_state) option" where
  "jsi_realloc_array lc s arr elem_size psize req_size =
     (let new_size = max req_size (psize * 3 div 2) in
      if \<not> int_ok (psize * 3) \<or> \<not> int_ok (new_size * elem_size) then None
      else do {
        (r, s) \<leftarrow> jsi_realloc2 lc s arr (of_int (new_size * elem_size));
        case r of
          Inl e \<Rightarrow> Some ((Inl e, arr, psize), s)
        | Inr (None, _) \<Rightarrow> Some ((Inl OutOfMemory, arr, psize), s)
        | Inr (Some p, slack) \<Rightarrow>
            Some ((Inr (), Some p, new_size + int (unat slack) div elem_size), s) })"

definition jsi_resize_array ::
  "libc \<Rightarrow> malloc_state \<Rightarrow> nat option \<Rightarrow> int \<Rightarrow> int \<Rightarrow> int \<Rightarrow>
   (((alloc_error + unit) \<times> nat option \<times> int) \<times> malloc_state) option" where
  "jsi_resize_array lc s arr elem_size psize req_size =
     (if req_size > psize then jsi_realloc_array lc s arr elem_size psize req_size
      else Some ((Inr (), arr, psize), s))"

section \<open>The contract of the C library\<close>

definition heap_total :: "heap \<Rightarrow> nat" where
  "heap_total h = (\<Sum>p \<in> dom h. length (the (h p)) + 8)"

text \<open>A new block lies at an unused address, has at least the requested sz, keeps the old bytes
  (\<open>realloc\<close>), and everything fits in the address space.\<close>

locale libc_alloc =
  fixes lc :: libc
  assumes malloc_fresh: "lc_malloc lc h n = Some (p, b) \<Longrightarrow>
      h p = None \<and> n \<le> length b \<and> length b < 2 ^ 64"
    and malloc_fits: "lc_malloc lc h n = Some (p, b) \<Longrightarrow> heap_total (h(p \<mapsto> b)) < 2 ^ 64"
    and realloc_fresh: "lc_realloc lc h p n = Some (q, b) \<Longrightarrow>
      (q = p \<or> h q = None) \<and> n \<le> length b \<and> length b < 2 ^ 64"
    and realloc_keeps: "lc_realloc lc h p n = Some (q, b) \<Longrightarrow> h p = Some a \<Longrightarrow>
      take (min n (length a)) b = take (min n (length a)) a"
    and realloc_fits: "lc_realloc lc h p n = Some (q, b) \<Longrightarrow> heap_total (h(p := None, q \<mapsto> b)) < 2 ^ 64"

section \<open>Accounting\<close>

lemma heap_total_add:
  "finite (dom h) \<Longrightarrow> h p = None \<Longrightarrow> heap_total (h(p \<mapsto> b)) = heap_total h + length b + 8"
  unfolding heap_total_def by (subst dom_fun_upd) (auto simp: domIff intro!: sum.cong)

lemma heap_total_remove:
  assumes "finite (dom h)" "h p = Some a"
  shows "heap_total h = heap_total (h(p := None)) + length a + 8"
  using heap_total_add [of "h(p := None)" p a] assms by (simp add: fun_upd_idem)

lemma heap_total_card: "finite (dom h) \<Longrightarrow> 8 * card (dom h) \<le> heap_total h"
proof -
  assume "finite (dom h)"
  have "(\<Sum>p \<in> dom h. 8) \<le> heap_total h" unfolding heap_total_def by (rule sum_mono) simp
  then show ?thesis by simp
qed

text \<open>The counters describe the heap: the number of blocks, and their usable sizes plus the
  overhead per block.\<close>

definition alloc_inv :: "malloc_state \<Rightarrow> bool" where
  "alloc_inv s \<longleftrightarrow> finite (dom (ms_heap s)) \<and> unat (malloc_count s) = card (dom (ms_heap s))
     \<and> unat (malloc_size s) = heap_total (ms_heap s)"

lemma alloc_inv_new: "alloc_inv new_malloc_state"
  by (simp add: alloc_inv_def new_malloc_state_def heap_total_def)

lemma alloc_inv_limit: "alloc_inv s \<Longrightarrow> alloc_inv (JSI_SetMemoryLimit s l)"
  by (simp add: alloc_inv_def JSI_SetMemoryLimit_def)

lemma unat_eqI: "n < 2 ^ LENGTH('a) \<Longrightarrow> w = of_nat n \<Longrightarrow> unat (w :: 'a::len word) = n"
  by (simp add: unsigned_of_nat take_bit_nat_eq_self)

lemma of_nat_unat_eq: "unat (w :: 'a::len word) = n \<Longrightarrow> w = of_nat n"
  by auto

lemma usable_size_at: "h p = Some b \<Longrightarrow> jsi_def_malloc_usable_size h p = of_nat (length b)"
  by (simp add: jsi_def_malloc_usable_size_def)

lemma alloc_inv_add:
  assumes inv: "alloc_inv s" and p: "ms_heap s p = None" and fits: "heap_total ((ms_heap s)(p \<mapsto> b)) < 2 ^ 64"
  shows "alloc_inv (s\<lparr>malloc_count := malloc_count s + 1,
    malloc_size := malloc_size s + (of_nat (length b) + MALLOC_OVERHEAD), ms_heap := (ms_heap s)(p \<mapsto> b)\<rparr>)"
proof -
  let ?h = "(ms_heap s)(p \<mapsto> b)"
  have fin: "finite (dom (ms_heap s))" and cnt: "malloc_count s = of_nat (card (dom (ms_heap s)))"
    and sz: "malloc_size s = of_nat (heap_total (ms_heap s))"
    using inv by (auto simp: alloc_inv_def dest: of_nat_unat_eq)
  have c: "card (dom ?h) = card (dom (ms_heap s)) + 1" using fin p by (simp add: domIff)
  have t: "heap_total ?h = heap_total (ms_heap s) + length b + 8" using fin p by (rule heap_total_add)
  have "card (dom ?h) < 2 ^ 64" using heap_total_card [of ?h] fin fits by simp
  then have "card (dom (ms_heap s)) + 1 < 2 ^ 64" using c by linarith
  then have "unat (malloc_count s + 1) = card (dom ?h)" unfolding c cnt by (intro unat_eqI) simp_all
  moreover have "unat (malloc_size s + (of_nat (length b) + MALLOC_OVERHEAD)) = heap_total ?h"
    using fits by (intro unat_eqI) (simp_all add: sz t MALLOC_OVERHEAD_def)
  ultimately show ?thesis using fin by (simp add: alloc_inv_def)
qed

lemma alloc_inv_remove:
  assumes inv: "alloc_inv s" and p: "ms_heap s p = Some a"
  shows "alloc_inv (s\<lparr>malloc_count := malloc_count s - 1,
    malloc_size := malloc_size s - (of_nat (length a) + MALLOC_OVERHEAD), ms_heap := (ms_heap s)(p := None)\<rparr>)"
proof -
  let ?h = "(ms_heap s)(p := None)"
  have fin: "finite (dom (ms_heap s))" and cnt: "malloc_count s = of_nat (card (dom (ms_heap s)))"
    and sz: "malloc_size s = of_nat (heap_total (ms_heap s))"
    using inv by (auto simp: alloc_inv_def dest: of_nat_unat_eq)
  have "dom ?h = dom (ms_heap s) - {p}" by auto
  then have c: "card (dom (ms_heap s)) = card (dom ?h) + 1" using card.remove [OF fin domI [of "ms_heap s", OF p]] by simp
  have t: "heap_total (ms_heap s) = heap_total ?h + length a + 8" using fin p by (rule heap_total_remove)
  have lt: "heap_total (ms_heap s) < 2 ^ 64" "card (dom (ms_heap s)) < 2 ^ 64"
    using inv unsigned_less [of "malloc_size s", where ?'a = nat] unsigned_less [of "malloc_count s", where ?'a = nat]
    by (auto simp: alloc_inv_def)
  have "unat (malloc_count s - 1) = card (dom ?h)" using lt(2) unfolding cnt c by (intro unat_eqI) simp_all
  moreover have "unat (malloc_size s - (of_nat (length a) + MALLOC_OVERHEAD)) = heap_total ?h"
    using lt t by (intro unat_eqI) (simp_all add: sz MALLOC_OVERHEAD_def)
  ultimately show ?thesis using fin by (simp add: alloc_inv_def)
qed

lemma alloc_inv_free: "alloc_inv s \<Longrightarrow> ms_heap s p = Some a \<Longrightarrow> alloc_inv (jsi_def_free s (Some p))"
  using alloc_inv_remove [of s p a] by (simp add: jsi_def_free_def usable_size_at)

context libc_alloc
begin

lemma malloc_inv:
  assumes inv: "alloc_inv s" and res: "jsi_def_malloc lc s sz = Some (r, s')"
  shows "alloc_inv s' \<and> (case r of None \<Rightarrow> s' = s
    | Some p \<Rightarrow> ms_heap s p = None \<and> (\<exists>b. ms_heap s' = (ms_heap s)(p \<mapsto> b) \<and> unat sz \<le> length b)
        \<and> malloc_size s + sz \<le> malloc_limit s)"
proof (cases "lc_malloc lc (ms_heap s) (unat sz)")
  case None
  then show ?thesis using assms by (auto simp: jsi_def_malloc_def split: if_splits)
next
  case (Some x)
  then obtain p b where b: "lc_malloc lc (ms_heap s) (unat sz) = Some (p, b)" by (cases x) auto
  show ?thesis
  proof (cases "malloc_size s + sz > malloc_limit s")
    case True
    then show ?thesis using assms by (auto simp: jsi_def_malloc_def split: if_splits)
  next
    case False
    have "alloc_inv (s\<lparr>malloc_count := malloc_count s + 1,
      malloc_size := malloc_size s + (of_nat (length b) + MALLOC_OVERHEAD), ms_heap := (ms_heap s)(p \<mapsto> b)\<rparr>)"
      using malloc_fresh [OF b] malloc_fits [OF b] by (intro alloc_inv_add [OF inv]) auto
    then show ?thesis
      using res b False malloc_fresh [OF b]
      by (auto simp: jsi_def_malloc_def Let_def jsi_def_malloc_usable_size_def split: if_splits)
  qed
qed

text \<open>\<open>realloc\<close> removes the old block and adds the new one.\<close>

lemma realloc_move_inv:
  assumes inv: "alloc_inv s" and p: "ms_heap s p = Some a"
    and b: "lc_realloc lc (ms_heap s) p n = Some (q, b)"
  shows "alloc_inv (s\<lparr>malloc_size := malloc_size s + (of_nat (length b) - of_nat (length a)),
    ms_heap := (ms_heap s)(p := None, q \<mapsto> b)\<rparr>)"
proof -
  let ?s = "s\<lparr>malloc_count := malloc_count s - 1,
    malloc_size := malloc_size s - (of_nat (length a) + MALLOC_OVERHEAD), ms_heap := (ms_heap s)(p := None)\<rparr>"
  have i: "alloc_inv ?s" using inv p by (rule alloc_inv_remove)
  have "ms_heap ?s q = None" "heap_total ((ms_heap ?s)(q \<mapsto> b)) < 2 ^ 64"
    using realloc_fresh [OF b] realloc_fits [OF b] by auto
  from alloc_inv_add [OF i this] show ?thesis by (simp add: algebra_simps)
qed

lemma realloc_inv:
  assumes inv: "alloc_inv s" and live: "\<And>p. ptr = Some p \<Longrightarrow> ms_heap s p \<noteq> None"
    and res: "jsi_def_realloc lc s ptr sz = Some (r, s')"
  shows "alloc_inv s'"
proof (cases ptr)
  case None
  then show ?thesis using res malloc_inv [OF inv] inv by (auto simp: jsi_def_realloc_def split: if_splits)
next
  case (Some p)
  then obtain a where a: "ms_heap s p = Some a" using live by auto
  have dealloc: "alloc_inv (s\<lparr>malloc_count := malloc_count s - 1,
      malloc_size := malloc_size s - (of_nat (length a) + MALLOC_OVERHEAD), ms_heap := (ms_heap s)(p := None)\<rparr>)"
    using inv a by (rule alloc_inv_remove)
  show ?thesis
  proof (cases "lc_realloc lc (ms_heap s) p (unat sz)")
    case None
    then show ?thesis using res inv Some a dealloc
      by (auto simp: jsi_def_realloc_def usable_size_at Let_def split: if_splits)
  next
    case (Some x)
    obtain q b where x: "x = (q, b)" by (cases x)
    have "alloc_inv (s\<lparr>malloc_size := malloc_size s + (of_nat (length b) - of_nat (length a)),
        ms_heap := (ms_heap s)(p := None, q \<mapsto> b)\<rparr>)"
      using realloc_move_inv [OF inv a] Some x by simp
    then show ?thesis using res inv Some x \<open>ptr = Some p\<close> a dealloc
      by (auto simp: jsi_def_realloc_def jsi_def_malloc_usable_size_def Let_def split: if_splits)
  qed
qed

text \<open>A successful reallocation of a live block keeps the common prefix.\<close>

lemma realloc_prefix:
  assumes a: "ms_heap s p = Some a" and res: "jsi_def_realloc lc s (Some p) sz = Some (Some q, s')"
  shows "\<exists>b. ms_heap s' q = Some b \<and> unat sz \<le> length b
    \<and> take (min (unat sz) (length a)) b = take (min (unat sz) (length a)) a"
proof -
  obtain b where b: "lc_realloc lc (ms_heap s) p (unat sz) = Some (q, b)" "ms_heap s' q = Some b"
    using res by (auto simp: jsi_def_realloc_def Let_def split: if_splits option.splits)
  then show ?thesis using realloc_fresh [OF b(1)] realloc_keeps [OF b(1) a] by simp
qed

end

section \<open>A concrete C library\<close>

text \<open>An allocator over a fixed list of addresses that reallocates in place; it fails when the
  address space would be exceeded.\<close>

definition fixed_libc :: libc where
  "fixed_libc = \<lparr>
     lc_malloc = (\<lambda>h n. case find (\<lambda>p. h p = None) [16, 32, 48, 64, 80, 96, 112, 128] of
        None \<Rightarrow> None
      | Some p \<Rightarrow> if n < 2 ^ 64 \<and> heap_total (h(p \<mapsto> replicate n 0)) < 2 ^ 64 then Some (p, replicate n 0) else None),
     lc_realloc = (\<lambda>h p n. let b = take n (case h p of None \<Rightarrow> [] | Some a \<Rightarrow> a) in
        if n < 2 ^ 64 \<and> heap_total (h(p \<mapsto> b @ replicate (n - length b) 0)) < 2 ^ 64
        then Some (p, b @ replicate (n - length b) 0) else None)\<rparr>"

interpretation fixed: libc_alloc fixed_libc
  by unfold_locales
    (auto simp: fixed_libc_def find_Some_iff Let_def split: option.splits if_splits)

section \<open>All histories of the allocator\<close>

text \<open>The states a runtime can reach: calls of the three functions and of \<open>JSI_SetMemoryLimit\<close>, in any
  order; only live blocks are freed or reallocated.\<close>

inductive alloc_reach :: "libc \<Rightarrow> malloc_state \<Rightarrow> bool" for lc where
  start: "alloc_reach lc new_malloc_state"
| malloc: "alloc_reach lc s \<Longrightarrow> jsi_def_malloc lc s sz = Some (r, s') \<Longrightarrow> alloc_reach lc s'"
| free_block: "alloc_reach lc s \<Longrightarrow> ms_heap s p \<noteq> None \<Longrightarrow> alloc_reach lc (jsi_def_free s (Some p))"
| free_null: "alloc_reach lc s \<Longrightarrow> alloc_reach lc (jsi_def_free s None)"
| realloc: "alloc_reach lc s \<Longrightarrow> (\<And>p. ptr = Some p \<Longrightarrow> ms_heap s p \<noteq> None) \<Longrightarrow>
    jsi_def_realloc lc s ptr sz = Some (r, s') \<Longrightarrow> alloc_reach lc s'"
| limit: "alloc_reach lc s \<Longrightarrow> alloc_reach lc (JSI_SetMemoryLimit s l)"

context libc_alloc
begin

lemma reach_inv: "alloc_reach lc s \<Longrightarrow> alloc_inv s"
proof (induction rule: alloc_reach.induct)
  case (realloc s ptr sz r s')
  then show ?case using realloc_inv by blast
qed (auto simp: alloc_inv_new alloc_inv_limit jsi_def_free_def [of _ None]
      dest: malloc_inv intro: alloc_inv_free)

end

section \<open>Properties\<close>

text \<open>C16: in every state a runtime can reach, the counters are exact: \<open>malloc_count\<close> is the number of
  live blocks and \<open>malloc_size\<close> is the sum of their usable sizes and overheads, without wrap-around.\<close>

theorem alloc_accounting:
  assumes "libc_alloc lc" and "alloc_reach lc s"
  shows "finite (dom (ms_heap s)) \<and> unat (malloc_count s) = card (dom (ms_heap s))
    \<and> unat (malloc_size s) = (\<Sum>p \<in> dom (ms_heap s). length (the (ms_heap s p)) + 8)"
  using libc_alloc.reach_inv [OF assms] by (simp add: alloc_inv_def heap_total_def)

theorem alloc_accounting_witness:
  "let s = JSI_SetMemoryLimit new_malloc_state 100 in
   finite (dom (ms_heap s)) \<and> unat (malloc_count s) = card (dom (ms_heap s))
    \<and> unat (malloc_size s) = (\<Sum>p \<in> dom (ms_heap s). length (the (ms_heap s p)) + 8)"
  unfolding Let_def
  by (rule alloc_accounting [OF fixed.libc_alloc_axioms]) (intro alloc_reach.limit alloc_reach.start)



end
