(* ===== verification/QStrBuf.thy ===== *)
theory QStrBuf
  imports QAlloc QUtf8
begin

text \<open>
  Strings under construction: \<^verbatim>\<open>StringBuffer\<close> of \<^verbatim>\<open>src/src/qjsi/quickjs_i.c\<close>, lines 4779 to
  5120. The characters live in the payload of a string block, which holds 8-bit characters or,
  after widening, little-endian 16-bit characters in the same bytes. The payload is a list of
  bytes and every access is checked, so the in-place widening loop, the slack of the allocator and
  the terminating NUL are all covered by the theorems.
\<close>

section \<open>Definitions\<close>

datatype jsi_string = Str8 bytes | Str16 "u16 list"

fun units :: "jsi_string \<Rightarrow> u16 list" where
  "units (Str8 bs) = map ucast bs"
| "units (Str16 us) = us"

datatype str_error = StringTooLong | NoMemory

definition JSI_STRING_LEN_MAX :: nat where
  "JSI_STRING_LEN_MAX = 2 ^ 30 - 1"

text \<open>16-bit cells of the payload.\<close>

definition get16 :: "bytes \<Rightarrow> nat \<Rightarrow> u16 option" where
  "get16 m i = do { lo \<leftarrow> mem_get m (2 * i); hi \<leftarrow> mem_get m (2 * i + 1);
                    Some (ucast lo OR push_bit 8 (ucast hi)) }"

definition set16 :: "bytes \<Rightarrow> nat \<Rightarrow> u16 \<Rightarrow> bytes option" where
  "set16 m i c = do { m \<leftarrow> mem_set m (2 * i) (ucast c); mem_set m (2 * i + 1) (ucast (drop_bit 8 c)) }"

text \<open>\<open>sb_str\<close> is the payload of the block behind \<open>str\<close>. \<open>ra\<close> stands for the calls
  \<open>jsi_realloc2 (s->ctx, s->str, sizeof (JSIString) + n, &slack)\<close> seen from the payload: old payload
  and new payload size, the result is the new payload and the slack; with \<open>None\<close> it is the
  allocation of a new string.\<close>

type_synonym str_alloc = "bytes option \<Rightarrow> nat \<Rightarrow> (bytes \<times> nat) option"

record string_buffer =
  sb_str :: "bytes option"
  sb_len :: nat
  sb_size :: nat
  sb_wide :: bool
  sb_error :: bool

definition payload_bytes :: "nat \<Rightarrow> bool \<Rightarrow> nat" where
  "payload_bytes n wide = (if wide then 2 * n else n + 1)"

definition string_buffer_init2 :: "str_alloc \<Rightarrow> nat \<Rightarrow> bool \<Rightarrow> int \<times> string_buffer" where
  "string_buffer_init2 ra sz wide =
     (case ra None (payload_bytes sz wide) of
        None \<Rightarrow> (-1, \<lparr>sb_str = None, sb_len = 0, sb_size = 0, sb_wide = wide, sb_error = True\<rparr>)
      | Some (m, slack) \<Rightarrow> (0, \<lparr>sb_str = Some m, sb_len = 0, sb_size = sz, sb_wide = wide, sb_error = False\<rparr>))"

definition string_buffer_init :: "str_alloc \<Rightarrow> nat \<Rightarrow> int \<times> string_buffer" where
  "string_buffer_init ra sz = string_buffer_init2 ra sz False"

definition string_buffer_set_error :: "string_buffer \<Rightarrow> int \<times> string_buffer" where
  "string_buffer_set_error s = (-1, s\<lparr>sb_str := None, sb_size := 0, sb_len := 0, sb_error := True\<rparr>)"

text \<open>The loop \<open>for (i = s->len; i-- > 0;) str16[i] = str8[i]\<close>.\<close>

fun widen_loop :: "bytes \<Rightarrow> nat \<Rightarrow> bytes option" where
  "widen_loop m 0 = Some m"
| "widen_loop m (Suc i) = do { c \<leftarrow> mem_get m i; m \<leftarrow> set16 m i (ucast c); widen_loop m i }"

definition string_buffer_widen :: "str_alloc \<Rightarrow> string_buffer \<Rightarrow> nat \<Rightarrow> (int \<times> string_buffer) option" where
  "string_buffer_widen ra s sz =
     (if sb_error s then Some (-1, s)
      else (case ra (sb_str s) (2 * sz) of
              None \<Rightarrow> Some (string_buffer_set_error s)
            | Some (m, slack) \<Rightarrow> do {
                m \<leftarrow> widen_loop m (sb_len s);
                Some (0, s\<lparr>sb_wide := True, sb_size := sz + slack div 2, sb_str := Some m\<rparr>) }))"

definition string_buffer_realloc ::
  "str_alloc \<Rightarrow> string_buffer \<Rightarrow> nat \<Rightarrow> u32 \<Rightarrow> (int \<times> string_buffer) option" where
  "string_buffer_realloc ra s new_len c =
     (if sb_error s then Some (-1, s)
      else if new_len > JSI_STRING_LEN_MAX then Some (string_buffer_set_error s)
      else
        let new_size = min (max new_len (sb_size s * 3 div 2)) JSI_STRING_LEN_MAX in
        if \<not> sb_wide s \<and> c \<ge> 0x100 then string_buffer_widen ra s new_size
        else (case ra (sb_str s) (payload_bytes new_size (sb_wide s)) of
                None \<Rightarrow> Some (string_buffer_set_error s)
              | Some (m, slack) \<Rightarrow>
                  Some (0, s\<lparr>sb_size := min (new_size + (if sb_wide s then slack div 2 else slack)) JSI_STRING_LEN_MAX,
                             sb_str := Some m\<rparr>)))"

text \<open>\<open>s->str->u.str16[s->len++] = c\<close> and \<open>s->str->u.str8[s->len++] = c\<close>.\<close>

definition push16 :: "string_buffer \<Rightarrow> u32 \<Rightarrow> (int \<times> string_buffer) option" where
  "push16 s c = do { m \<leftarrow> sb_str s; m \<leftarrow> set16 m (sb_len s) (ucast c);
                     Some (0, s\<lparr>sb_str := Some m, sb_len := sb_len s + 1\<rparr>) }"

definition push8 :: "string_buffer \<Rightarrow> u32 \<Rightarrow> (int \<times> string_buffer) option" where
  "push8 s c = do { m \<leftarrow> sb_str s; m \<leftarrow> mem_set m (sb_len s) (ucast c);
                    Some (0, s\<lparr>sb_str := Some m, sb_len := sb_len s + 1\<rparr>) }"

definition string_buffer_putc_slow :: "str_alloc \<Rightarrow> string_buffer \<Rightarrow> u32 \<Rightarrow> (int \<times> string_buffer) option" where
  "string_buffer_putc_slow ra s c = do {
     (r, s) \<leftarrow> (if sb_len s \<ge> sb_size s then string_buffer_realloc ra s (sb_len s + 1) c else Some (0, s));
     if r \<noteq> 0 then Some (-1, s)
     else if sb_wide s then push16 s c
     else if c < 0x100 then push8 s c
     else do { (r, s) \<leftarrow> string_buffer_widen ra s (sb_size s);
               if r \<noteq> 0 then Some (-1, s) else push16 s c } }"

definition string_buffer_putc8 :: "str_alloc \<Rightarrow> string_buffer \<Rightarrow> u32 \<Rightarrow> (int \<times> string_buffer) option" where
  "string_buffer_putc8 ra s c = do {
     (r, s) \<leftarrow> (if sb_len s \<ge> sb_size s then string_buffer_realloc ra s (sb_len s + 1) c else Some (0, s));
     if r \<noteq> 0 then Some (-1, s)
     else if sb_wide s then push16 s c else push8 s c }"

definition string_buffer_putc16 :: "str_alloc \<Rightarrow> string_buffer \<Rightarrow> u32 \<Rightarrow> (int \<times> string_buffer) option" where
  "string_buffer_putc16 ra s c =
     (if sb_len s < sb_size s \<and> sb_wide s then push16 s c
      else if sb_len s < sb_size s \<and> c < 0x100 then push8 s c
      else string_buffer_putc_slow ra s c)"

definition string_buffer_putc :: "str_alloc \<Rightarrow> string_buffer \<Rightarrow> u32 \<Rightarrow> (int \<times> string_buffer) option" where
  "string_buffer_putc ra s c =
     (if c \<ge> 0x10000 then do {
        (r, s) \<leftarrow> string_buffer_putc16 ra s (get_hi_surrogate c);
        if r \<noteq> 0 then Some (-1, s) else string_buffer_putc16 ra s (get_lo_surrogate c) }
      else string_buffer_putc16 ra s c)"

text \<open>The copy loops of the block writes; \<open>at\<close> is the first index written. A write of no
  character touches no memory.\<close>

fun store16s :: "bytes \<Rightarrow> nat \<Rightarrow> u16 list \<Rightarrow> bytes option" where
  "store16s m at [] = Some m"
| "store16s m at (c # cs) = do { m \<leftarrow> set16 m at c; store16s m (Suc at) cs }"

fun store8s :: "bytes \<Rightarrow> nat \<Rightarrow> u8 list \<Rightarrow> bytes option" where
  "store8s m at [] = Some m"
| "store8s m at (c # cs) = do { m \<leftarrow> mem_set m at c; store8s m (Suc at) cs }"

definition string_buffer_write8 :: "str_alloc \<Rightarrow> string_buffer \<Rightarrow> bytes \<Rightarrow> (int \<times> string_buffer) option" where
  "string_buffer_write8 ra s p = do {
     (r, s) \<leftarrow> (if sb_len s + length p > sb_size s then string_buffer_realloc ra s (sb_len s + length p) 0
               else Some (0, s));
     if r \<noteq> 0 then Some (-1, s)
     else if p = [] then Some (0, s)
     else do {
       m \<leftarrow> sb_str s;
       m \<leftarrow> (if sb_wide s then store16s m (sb_len s) (map ucast p) else mem_blit m (sb_len s) p);
       Some (0, s\<lparr>sb_str := Some m, sb_len := sb_len s + length p\<rparr>) } }"

definition string_buffer_write16 :: "str_alloc \<Rightarrow> string_buffer \<Rightarrow> u16 list \<Rightarrow> (int \<times> string_buffer) option" where
  "string_buffer_write16 ra s p =
     (let c = foldl (OR) 0 (map ucast p) :: u32 in do {
     (r, s) \<leftarrow> (if sb_len s + length p > sb_size s then string_buffer_realloc ra s (sb_len s + length p) c
               else if \<not> sb_wide s \<and> c \<ge> 0x100 then string_buffer_widen ra s (sb_size s)
               else Some (0, s));
     if r \<noteq> 0 then Some (-1, s)
     else if p = [] then Some (0, s)
     else do {
       m \<leftarrow> sb_str s;
       m \<leftarrow> (if sb_wide s then store16s m (sb_len s) p else store8s m (sb_len s) (map ucast p));
       Some (0, s\<lparr>sb_str := Some m, sb_len := sb_len s + length p\<rparr>) } })"

definition string_buffer_concat ::
  "str_alloc \<Rightarrow> string_buffer \<Rightarrow> jsi_string \<Rightarrow> nat \<Rightarrow> nat \<Rightarrow> (int \<times> string_buffer) option" where
  "string_buffer_concat ra s p from to =
     (if to \<le> from then Some (0, s)
      else (case p of
              Str16 us \<Rightarrow> do { us \<leftarrow> mem_slice us from (to - from); string_buffer_write16 ra s us }
            | Str8 bs \<Rightarrow> do { bs \<leftarrow> mem_slice bs from (to - from); string_buffer_write8 ra s bs }))"

fun fill_loop :: "str_alloc \<Rightarrow> string_buffer \<Rightarrow> u32 \<Rightarrow> nat \<Rightarrow> (int \<times> string_buffer) option" where
  "fill_loop ra s c 0 = Some (0, s)"
| "fill_loop ra s c (Suc n) = do {
     (r, s) \<leftarrow> string_buffer_putc16 ra s c;
     if r \<noteq> 0 then Some (-1, s) else fill_loop ra s c n }"

definition string_buffer_fill :: "str_alloc \<Rightarrow> string_buffer \<Rightarrow> u32 \<Rightarrow> nat \<Rightarrow> (int \<times> string_buffer) option" where
  "string_buffer_fill ra s c n = do {
     (r, s) \<leftarrow> (if sb_len s + n > sb_size s then string_buffer_realloc ra s (sb_len s + n) c
               else Some (0, s));
     if r \<noteq> 0 then Some (-1, s) else fill_loop ra s c n }"

text \<open>The finished string. Shrinking the block may fail, in which case the larger block is kept.
  An error leaves the exception raised when it happened.\<close>

definition read_string :: "bytes \<Rightarrow> nat \<Rightarrow> bool \<Rightarrow> jsi_string option" where
  "read_string m n wide =
     (if wide then map_option Str16 (those (map (get16 m) [0 ..< n]))
      else map_option Str8 (mem_slice m 0 n))"

definition string_buffer_end :: "str_alloc \<Rightarrow> string_buffer \<Rightarrow> (str_error + jsi_string) option" where
  "string_buffer_end ra s =
     (if sb_error s then Some (Inl NoMemory)
      else if sb_len s = 0 then Some (Inr (Str8 []))
      else do {
        m \<leftarrow> sb_str s;
        let m = (if sb_len s < sb_size s
                 then (case ra (Some m) (payload_bytes (sb_len s) (sb_wide s)) of None \<Rightarrow> m | Some (m', _) \<Rightarrow> m')
                 else m);
        m \<leftarrow> (if sb_wide s then Some m else mem_set m (sb_len s) 0);
        map_option Inr (read_string m (sb_len s) (sb_wide s)) })"

section \<open>16-bit cells\<close>

definition cell16 :: "bytes \<Rightarrow> nat \<Rightarrow> u16" where
  "cell16 m i = ucast (m ! (2 * i)) OR push_bit 8 (ucast (m ! (2 * i + 1)))"

lemma get16_eq [mem_simps]: "2 * i + 2 \<le> length m \<Longrightarrow> get16 m i = Some (cell16 m i)"
  by (simp add: get16_def cell16_def mem_simps)

lemma set16_eq [mem_simps]:
  "2 * i + 2 \<le> length m \<Longrightarrow> set16 m i c = Some (m[2 * i := ucast c, 2 * i + 1 := ucast (drop_bit 8 c)])"
  by (simp add: set16_def mem_simps)

lemma join_bytes:
  "(ucast (ucast (c :: u16) :: u8) OR push_bit 8 (ucast (ucast (drop_bit 8 c) :: u8)) :: u16) = c"
proof (rule bit_word_eqI)
  fix n assume "n < LENGTH(16)"
  then show "bit (ucast (ucast c :: u8) OR push_bit 8 (ucast (ucast (drop_bit 8 c) :: u8)) :: u16) n = bit c n"
    by (cases "n < 8") (auto simp: bit_simps)
qed

lemma cell16_set:
  assumes "2 * i + 2 \<le> length m" "2 * j + 2 \<le> length m"
  shows "cell16 (m[2 * i := ucast c, 2 * i + 1 := ucast (drop_bit 8 c)]) j = (if j = i then c else cell16 m j)"
proof -
  have "2 * j \<noteq> Suc (2 * i)" "Suc (2 * j) \<noteq> 2 * i" by presburger+
  then show ?thesis using assms join_bytes [of c] by (auto simp: cell16_def nth_list_update)
qed

lemma cell16_cong: "m ! (2 * i) = m' ! (2 * i) \<Longrightarrow> m ! (2 * i + 1) = m' ! (2 * i + 1) \<Longrightarrow> cell16 m i = cell16 m' i"
  by (simp add: cell16_def)

text \<open>The widening loop runs downwards, so it never overwrites a character it has still to read.\<close>

lemma widen_loop_spec:
  "2 * n \<le> length m \<Longrightarrow> \<exists>m'. widen_loop m n = Some m' \<and> length m' = length m
     \<and> (\<forall>j < n. cell16 m' j = ucast (m ! j)) \<and> (\<forall>k. 2 * n \<le> k \<longrightarrow> m' ! k = m ! k)"
proof (induction m n rule: widen_loop.induct)
  case (2 m i)
  let ?m1 = "m[2 * i := ucast (ucast (m ! i) :: u16), 2 * i + 1 := ucast (drop_bit 8 (ucast (m ! i) :: u16))]"
  have st: "mem_get m i = Some (m ! i)" "set16 m i (ucast (m ! i)) = Some ?m1"
    using "2.prems" by (simp_all add: mem_simps)
  obtain m' where m': "widen_loop ?m1 i = Some m'" "length m' = length m"
    "\<And>j. j < i \<Longrightarrow> cell16 m' j = ucast (?m1 ! j)" "\<And>k. 2 * i \<le> k \<Longrightarrow> m' ! k = ?m1 ! k"
    using "2.IH" [OF st] "2.prems" by auto
  have "cell16 m' j = ucast (m ! j)" if "j < Suc i" for j
  proof (cases "j = i")
    case True
    have "cell16 m' i = cell16 ?m1 i" using m'(4) [of "2 * i"] m'(4) [of "2 * i + 1"] by (intro cell16_cong) auto
    then show ?thesis using True "2.prems" cell16_set [of i m i "ucast (m ! i)"] by simp
  next
    case False
    then show ?thesis using m'(3) [of j] that by simp
  qed
  moreover have "m' ! k = m ! k" if "2 * Suc i \<le> k" for k using that m'(4) [of k] by simp
  ultimately show ?case using m' st by auto
qed simp

section \<open>The contract\<close>

locale str_realloc =
  fixes ra :: str_alloc
  assumes ra_length: "ra b n = Some (m, slack) \<Longrightarrow> length m = n + slack"
    and ra_keeps: "ra (Some old) n = Some (m, slack) \<Longrightarrow>
      take (min n (length old)) m = take (min n (length old)) old"

text \<open>The characters of a buffer, and its invariant.\<close>

definition chars :: "bytes \<Rightarrow> nat \<Rightarrow> bool \<Rightarrow> u16 list" where
  "chars m n wide = (if wide then map (cell16 m) [0 ..< n] else map ucast (take n m))"

definition sb_units :: "string_buffer \<Rightarrow> u16 list" where
  "sb_units s = (case sb_str s of None \<Rightarrow> [] | Some m \<Rightarrow> chars m (sb_len s) (sb_wide s))"

definition sb_ok :: "string_buffer \<Rightarrow> bool" where
  "sb_ok s \<longleftrightarrow> (if sb_error s then sb_str s = None \<and> sb_len s = 0 \<and> sb_size s = 0
     else (\<exists>m. sb_str s = Some m \<and> sb_len s \<le> sb_size s \<and> payload_bytes (sb_size s) (sb_wide s) \<le> length m))"

text \<open>The result of an operation that appends \<open>us\<close>.\<close>

definition sb_appends :: "string_buffer \<Rightarrow> u16 list \<Rightarrow> int \<Rightarrow> string_buffer \<Rightarrow> bool" where
  "sb_appends s us r s' \<longleftrightarrow> sb_ok s' \<and>
     (r = 0 \<and> \<not> sb_error s' \<and> sb_units s' = sb_units s @ us \<or> r = -1 \<and> sb_error s')"

text \<open>A step that may grow the buffer but changes no character; \<open>n\<close> more characters fit.\<close>

definition sb_grows :: "string_buffer \<Rightarrow> nat \<Rightarrow> int \<Rightarrow> string_buffer \<Rightarrow> bool" where
  "sb_grows s n r s' \<longleftrightarrow> sb_ok s' \<and>
     (r = 0 \<and> \<not> sb_error s' \<and> sb_units s' = sb_units s \<and> sb_len s' = sb_len s
        \<and> sb_len s + n \<le> sb_size s' \<and> (sb_wide s \<longrightarrow> sb_wide s')
      \<or> r = -1 \<and> sb_error s')"

lemma sb_error_ok: "sb_ok s \<Longrightarrow> sb_ok (snd (string_buffer_set_error s))"
  by (simp add: sb_ok_def string_buffer_set_error_def)

lemma sb_grows_error: "string_buffer_set_error s = (r, s') \<Longrightarrow> sb_grows s n r s'"
  by (auto simp: sb_grows_def sb_ok_def string_buffer_set_error_def)

lemma length_chars: "payload_bytes n wide \<le> length m \<Longrightarrow> length (chars m n wide) = n"
  by (auto simp: chars_def payload_bytes_def)

lemma chars_prefix:
  assumes "take k m = take k m'" "(if wide then 2 * n else n) \<le> k" "k \<le> length m" "k \<le> length m'"
  shows "chars m n wide = chars m' n wide"
proof -
  have eq: "m ! i = m' ! i" if "i < k" for i using that assms by (metis nth_take)
  show ?thesis
  proof (cases wide)
    case True
    then have "cell16 m i = cell16 m' i" if "i < n" for i
      using eq [of "2 * i"] eq [of "2 * i + 1"] that assms by (intro cell16_cong) auto
    then show ?thesis using True by (simp add: chars_def)
  next
    case False
    have "take n m = take n (take k m)" "take n m' = take n (take k m')" using False assms(2) by simp_all
    then have "take n m = take n m'" using assms(1) by metis
    then show ?thesis using False by (simp add: chars_def)
  qed
qed

context str_realloc
begin

lemma widen_grows:
  assumes ok: "sb_ok s" and nw: "\<not> sb_wide s" and n: "sb_len s + n \<le> sz"
  shows "\<exists>r s'. string_buffer_widen ra s sz = Some (r, s') \<and> sb_grows s n r s' \<and> (r = 0 \<longrightarrow> sb_wide s')"
proof (cases "sb_error s")
  case True
  then show ?thesis using ok by (simp add: string_buffer_widen_def sb_grows_def)
next
  case False
  then obtain m where m: "sb_str s = Some m" "sb_len s \<le> sb_size s" "sb_size s < length m"
    using ok nw by (auto simp: sb_ok_def payload_bytes_def)
  show ?thesis
  proof (cases "ra (Some m) (2 * sz)")
    case None
    then show ?thesis using False m sb_grows_error by (auto simp: string_buffer_widen_def string_buffer_set_error_def)
  next
    case (Some x)
    obtain m1 slack where x: "x = (m1, slack)" by (cases x)
    have l: "length m1 = 2 * sz + slack" using ra_length Some x by simp
    obtain m2 where m2: "widen_loop m1 (sb_len s) = Some m2" "length m2 = length m1"
      "\<And>j. j < sb_len s \<Longrightarrow> cell16 m2 j = ucast (m1 ! j)"
      using widen_loop_spec [of "sb_len s" m1] l n by auto
    have "take (min (2 * sz) (length m)) m1 = take (min (2 * sz) (length m)) m"
      using ra_keeps Some x by simp
    then have "m1 ! j = m ! j" if "j < sb_len s" for j
    proof -
      have "j < min (2 * sz) (length m)" using that m n by linarith
      then show ?thesis using \<open>take (min (2 * sz) (length m)) m1 = _\<close> by (metis nth_take)
    qed
    then have "chars m2 (sb_len s) True = chars m (sb_len s) False"
      using m2(3) m by (auto simp: chars_def intro!: nth_equalityI)
    then show ?thesis
      using False m m2 l nw n Some x
      by (auto simp: string_buffer_widen_def sb_grows_def sb_ok_def sb_units_def payload_bytes_def)
  qed
qed

lemma realloc_grows:
  assumes ok: "sb_ok s" and n: "sb_size s < sb_len s + n"
  shows "\<exists>r s'. string_buffer_realloc ra s (sb_len s + n) c = Some (r, s') \<and> sb_grows s n r s'
    \<and> (r = 0 \<and> c \<ge> 0x100 \<longrightarrow> sb_wide s')"
proof (cases "sb_error s \<or> sb_len s + n > JSI_STRING_LEN_MAX")
  case True
  then show ?thesis using ok sb_grows_error
    by (auto simp: string_buffer_realloc_def sb_grows_def string_buffer_set_error_def sb_ok_def)
next
  case False
  then obtain m where m: "sb_str s = Some m" "sb_len s \<le> sb_size s" "payload_bytes (sb_size s) (sb_wide s) \<le> length m"
    using ok by (auto simp: sb_ok_def)
  define sz where "sz = min (max (sb_len s + n) (sb_size s * 3 div 2)) JSI_STRING_LEN_MAX"
  have sz: "sb_len s + n \<le> sz" "sz \<le> JSI_STRING_LEN_MAX" using False by (auto simp: sz_def)
  show ?thesis
  proof (cases "\<not> sb_wide s \<and> c \<ge> 0x100")
    case True
    then show ?thesis using widen_grows [OF ok _ sz(1)] False
      by (auto simp: string_buffer_realloc_def sz_def [symmetric])
  next
    case nw: False
    show ?thesis
    proof (cases "ra (Some m) (payload_bytes sz (sb_wide s))")
      case None
      then show ?thesis using False nw m sb_grows_error
        by (auto simp: string_buffer_realloc_def sz_def [symmetric] string_buffer_set_error_def)
    next
      case (Some x)
      obtain m1 slack where x: "x = (m1, slack)" by (cases x)
      have l: "length m1 = payload_bytes sz (sb_wide s) + slack" using ra_length Some x by simp
      let ?k = "min (payload_bytes sz (sb_wide s)) (length m)"
      have "take ?k m1 = take ?k m" using ra_keeps Some x by simp
      then have "chars m1 (sb_len s) (sb_wide s) = chars m (sb_len s) (sb_wide s)"
        using l m sz by (intro chars_prefix [of ?k]) (auto simp: payload_bytes_def)
      moreover have "2 * min (sz + slack div 2) JSI_STRING_LEN_MAX \<le> 2 * sz + slack" unfolding min_def by presburger
      ultimately show ?thesis
        using False nw m l sz Some x
        by (auto simp: string_buffer_realloc_def sz_def [symmetric] sb_grows_def sb_ok_def sb_units_def payload_bytes_def)
    qed
  qed
qed

lemma reserve_grows:
  assumes ok: "sb_ok s" and err: "sb_error s \<Longrightarrow> 0 < n"
  shows "\<exists>r s'. (if sb_len s + n > sb_size s then string_buffer_realloc ra s (sb_len s + n) c else Some (0, s))
    = Some (r, s') \<and> sb_grows s n r s'"
proof (cases "sb_len s + n > sb_size s")
  case True
  then show ?thesis using realloc_grows [OF ok True, of c] by auto
next
  case False
  then have "\<not> sb_error s" using ok err by (auto simp: sb_ok_def)
  then show ?thesis using ok False by (simp add: sb_grows_def)
qed

end

lemma chars_snoc16:
  assumes "2 * n + 2 \<le> length m"
  shows "chars (m[2 * n := ucast c, 2 * n + 1 := ucast (drop_bit 8 c)]) (Suc n) True = chars m n True @ [c]"
proof -
  have "cell16 (m[2 * n := ucast c, 2 * n + 1 := ucast (drop_bit 8 c)]) i = cell16 m i" if "i < n" for i
    using cell16_set [of n m i c] that assms by simp
  then show ?thesis using cell16_set [of n m n c] assms by (simp add: chars_def)
qed

lemma chars_snoc8: "n < length m \<Longrightarrow> chars (m[n := c]) (Suc n) False = chars m n False @ [ucast c]"
  by (simp add: chars_def take_Suc_conv_app_nth)

lemma push16_appends:
  assumes "sb_ok s" "\<not> sb_error s" "sb_wide s" "sb_len s < sb_size s"
  shows "\<exists>s'. push16 s c = Some (0, s') \<and> sb_appends s [ucast c] 0 s'"
proof -
  obtain m where m: "sb_str s = Some m" "2 * sb_size s \<le> length m" using assms by (auto simp: sb_ok_def payload_bytes_def)
  have l: "2 * sb_len s + 2 \<le> length m" using m assms by simp
  show ?thesis using assms m chars_snoc16 [OF l, of "ucast c"] set16_eq [OF l, of "ucast c"]
    by (simp add: push16_def sb_appends_def sb_ok_def sb_units_def payload_bytes_def)
qed

lemma push8_appends:
  assumes "sb_ok s" "\<not> sb_error s" "\<not> sb_wide s" "sb_len s < sb_size s"
  shows "\<exists>s'. push8 s c = Some (0, s') \<and> sb_appends s [ucast (ucast c :: u8)] 0 s'"
proof -
  obtain m where m: "sb_str s = Some m" "sb_size s < length m" using assms by (auto simp: sb_ok_def payload_bytes_def)
  then show ?thesis using assms chars_snoc8 [of "sb_len s" m "ucast c"]
    by (simp add: push8_def sb_appends_def sb_ok_def sb_units_def payload_bytes_def mem_simps)
qed

lemma ucast_via_u8: "c < 0x100 \<Longrightarrow> (ucast (ucast (c :: u32) :: u8) :: u16) = ucast c"
  by (simp add: word_unat_eq_iff word_less_nat_alt unsigned_ucast_eq unsigned_take_bit_eq take_bit_nat_eq_self)

lemma sb_appends_after_grow:
  "sb_grows s n 0 t \<Longrightarrow> sb_appends t us r s' \<Longrightarrow> sb_appends s us r s'"
  by (auto simp: sb_grows_def sb_appends_def)

lemma sb_appends_grow_fail: "sb_grows s n r t \<Longrightarrow> r \<noteq> 0 \<Longrightarrow> sb_appends s us (-1) t"
  by (auto simp: sb_grows_def sb_appends_def)

context str_realloc
begin

lemma putc_slow_appends:
  assumes ok: "sb_ok s"
  shows "\<exists>r s'. string_buffer_putc_slow ra s c = Some (r, s') \<and> sb_appends s [ucast c] r s'"
proof -
  obtain r t where t: "(if sb_len s \<ge> sb_size s then string_buffer_realloc ra s (sb_len s + 1) c else Some (0, s))
      = Some (r, t)" and g: "sb_grows s 1 r t"
    using reserve_grows [OF ok, of 1 c] by (auto simp: less_Suc_eq_le)
  show ?thesis
  proof (cases "r = 0")
    case False
    then show ?thesis using t sb_appends_grow_fail [OF g] by (simp add: string_buffer_putc_slow_def)
  next
    case r: True
    have st: "sb_ok t" "\<not> sb_error t" "sb_len t < sb_size t" using g r by (auto simp: sb_grows_def)
    have gt: "sb_grows s 1 0 t" using g r by simp
    consider "sb_wide t" | "\<not> sb_wide t" "c < 0x100" | "\<not> sb_wide t" "\<not> c < 0x100" by blast
    then show ?thesis
    proof cases
      case 1
      then show ?thesis using push16_appends [OF st(1,2) _ st(3), of c] t r sb_appends_after_grow [OF gt]
        by (auto simp: string_buffer_putc_slow_def)
    next
      case 2
      then show ?thesis using push8_appends [OF st(1,2) _ st(3), of c] t r sb_appends_after_grow [OF gt]
        by (auto simp: string_buffer_putc_slow_def ucast_via_u8)
    next
      case 3
      obtain r2 u where u: "string_buffer_widen ra t (sb_size t) = Some (r2, u)" "sb_grows t 1 r2 u" "r2 = 0 \<longrightarrow> sb_wide u"
        using widen_grows [OF st(1) 3(1), of 1 "sb_size t"] st(3) by auto
      show ?thesis
      proof (cases "r2 = 0")
        case False
        then have "sb_appends s [ucast c] (-1) u" using sb_appends_grow_fail [OF u(2)] sb_appends_after_grow [OF gt] by blast
        then show ?thesis using t r 3 u False by (simp add: string_buffer_putc_slow_def)
      next
        case True
        then have "sb_ok u" "\<not> sb_error u" "sb_wide u" "sb_len u < sb_size u" "sb_grows t 1 0 u"
          using u st by (auto simp: sb_grows_def)
        with push16_appends [of u c] sb_appends_after_grow [OF gt] sb_appends_after_grow [of t 1 u] t r 3 u True
        show ?thesis by (fastforce simp: string_buffer_putc_slow_def)
      qed
    qed
  qed
qed

lemma putc16_appends:
  assumes ok: "sb_ok s"
  shows "\<exists>r s'. string_buffer_putc16 ra s c = Some (r, s') \<and> sb_appends s [ucast c] r s'"
proof -
  have "\<not> sb_error s" if "sb_len s < sb_size s" using that ok by (auto simp: sb_ok_def)
  then show ?thesis
    using push16_appends [OF ok, of c] push8_appends [OF ok, of c] putc_slow_appends [OF ok, of c]
    by (cases "sb_len s < sb_size s"; cases "sb_wide s"; cases "c < 0x100")
      (auto simp: string_buffer_putc16_def ucast_via_u8)
qed

lemma putc8_appends:
  assumes ok: "sb_ok s" and c: "c < 0x100"
  shows "\<exists>r s'. string_buffer_putc8 ra s c = Some (r, s') \<and> sb_appends s [ucast c] r s'"
proof -
  obtain r t where t: "(if sb_len s \<ge> sb_size s then string_buffer_realloc ra s (sb_len s + 1) c else Some (0, s))
      = Some (r, t)" and g: "sb_grows s 1 r t"
    using reserve_grows [OF ok, of 1 c] by (auto simp: less_Suc_eq_le)
  show ?thesis
  proof (cases "r = 0")
    case False
    then show ?thesis using t sb_appends_grow_fail [OF g] by (simp add: string_buffer_putc8_def)
  next
    case r: True
    then have st: "sb_ok t" "\<not> sb_error t" "sb_len t < sb_size t" "sb_grows s 1 0 t" using g by (auto simp: sb_grows_def)
    then show ?thesis
      using push16_appends [OF st(1,2) _ st(3), of c] push8_appends [OF st(1,2) _ st(3), of c] t r c
        sb_appends_after_grow [OF st(4)]
      by (cases "sb_wide t") (auto simp: string_buffer_putc8_def ucast_via_u8)
  qed
qed

lemma putc_appends:
  assumes ok: "sb_ok s"
  shows "\<exists>r s'. string_buffer_putc ra s c = Some (r, s') \<and> sb_appends s
    (if c \<ge> 0x10000 then [ucast (get_hi_surrogate c), ucast (get_lo_surrogate c)] else [ucast c]) r s'"
proof (cases "c \<ge> 0x10000")
  case False
  then show ?thesis using putc16_appends [OF ok, of c] by (simp add: string_buffer_putc_def)
next
  case True
  obtain r t where t: "string_buffer_putc16 ra s (get_hi_surrogate c) = Some (r, t)"
    "sb_appends s [ucast (get_hi_surrogate c)] r t" using putc16_appends [OF ok] by blast
  then have "sb_ok t" by (simp add: sb_appends_def)
  then obtain r2 u where u: "string_buffer_putc16 ra t (get_lo_surrogate c) = Some (r2, u)"
    "sb_appends t [ucast (get_lo_surrogate c)] r2 u" using putc16_appends by blast
  show ?thesis using True t u by (auto simp: string_buffer_putc_def sb_appends_def)
qed

end

lemma store16s_chars:
  "2 * (n + length cs) \<le> length m \<Longrightarrow>
   \<exists>m'. store16s m n cs = Some m' \<and> length m' = length m \<and> chars m' (n + length cs) True = chars m n True @ cs"
proof (induction m n cs rule: store16s.induct)
  case (2 m n c cs)
  let ?m = "m[2 * n := ucast c, 2 * n + 1 := ucast (drop_bit 8 c)]"
  have l: "2 * n + 2 \<le> length m" using "2.prems" by simp
  have "\<exists>m'. store16s ?m (Suc n) cs = Some m' \<and> length m' = length ?m
      \<and> chars m' (Suc n + length cs) True = chars ?m (Suc n) True @ cs"
    using "2.IH" [OF set16_eq [OF l]] "2.prems" by simp
  then show ?case using chars_snoc16 [OF l, of c] set16_eq [OF l, of c] by simp
qed simp

lemma store8s_chars:
  "n + length cs \<le> length m \<Longrightarrow>
   \<exists>m'. store8s m n cs = Some m' \<and> length m' = length m
     \<and> chars m' (n + length cs) False = chars m n False @ map ucast cs"
proof (induction m n cs rule: store8s.induct)
  case (2 m n c cs)
  have l: "n < length m" using "2.prems" by simp
  have "\<exists>m'. store8s (m[n := c]) (Suc n) cs = Some m' \<and> length m' = length (m[n := c])
      \<and> chars m' (Suc n + length cs) False = chars (m[n := c]) (Suc n) False @ map ucast cs"
    using "2.IH" [OF mem_set_eq [OF l]] "2.prems" by simp
  then show ?case using chars_snoc8 [OF l, of c] mem_set_eq [OF l, of c] by simp
qed simp

lemma blit_chars:
  "n + length p \<le> length m \<Longrightarrow>
   chars (take n m @ p @ drop (n + length p) m) (n + length p) False = chars m n False @ map ucast p"
  by (simp add: chars_def)

lemma high_byte_zero: "(c :: u32) < 0x100 \<longleftrightarrow> drop_bit 8 c = 0"
  by (simp add: word_less_nat_alt word_unat_eq_iff unat_drop_bit div_eq_0_iff)

lemma unat_widen_u16: "unat (ucast (x :: u16) :: u32) = unat x"
  using unsigned_less [of x, where ?'a = nat] by (simp add: unsigned_ucast_eq take_bit_nat_eq_self)

lemma or_high_zero:
  "foldl (OR) a (map ucast p) < (0x100 :: u32) \<Longrightarrow> a < 0x100 \<and> (\<forall>x \<in> set p. (x :: u16) < 0x100)"
proof (induction p arbitrary: a)
  case (Cons x p)
  then have p: "a OR ucast x < 0x100" "\<forall>x \<in> set p. x < 0x100" by auto
  then have "drop_bit 8 a = 0" "drop_bit 8 (ucast x :: u32) = 0"
    by (simp_all add: high_byte_zero drop_bit_or or_eq_0_iff)
  then have "a < 0x100" "ucast x < (0x100 :: u32)" by (simp_all add: high_byte_zero)
  with p show ?case by (simp add: word_less_nat_alt unat_widen_u16)
qed simp

context str_realloc
begin

text \<open>A reserved buffer, and the copy that fills the reserved room.\<close>

lemma copy_appends:
  assumes g: "sb_grows s (length us) r t" and ne: "us \<noteq> []"
    and m: "\<And>m. sb_str t = Some m \<Longrightarrow> payload_bytes (sb_len t + length us) (sb_wide t) \<le> length m \<Longrightarrow> r = 0 \<Longrightarrow>
      \<exists>m'. copy m = Some m' \<and> length m' = length m
        \<and> chars m' (sb_len t + length us) (sb_wide t) = chars m (sb_len t) (sb_wide t) @ us"
  shows "\<exists>r' s'. (if r \<noteq> 0 then Some (-1, t) else do {
       m \<leftarrow> sb_str t; m \<leftarrow> copy m; Some (0, t\<lparr>sb_str := Some m, sb_len := sb_len t + length us\<rparr>) }) = Some (r', s')
     \<and> sb_appends s us r' s'"
proof (cases "r = 0")
  case False
  then show ?thesis using sb_appends_grow_fail [OF g] by simp
next
  case True
  then have st: "sb_ok t" "\<not> sb_error t" "sb_len t + length us \<le> sb_size t" "sb_grows s (length us) 0 t"
    using g by (auto simp: sb_grows_def)
  then obtain m0 where m0: "sb_str t = Some m0" "payload_bytes (sb_size t) (sb_wide t) \<le> length m0"
    by (auto simp: sb_ok_def)
  then have "payload_bytes (sb_len t + length us) (sb_wide t) \<le> length m0"
    using st by (auto simp: payload_bytes_def split: if_splits)
  from m [OF m0(1) this True] obtain m' where m': "copy m0 = Some m'" "length m' = length m0"
    "chars m' (sb_len t + length us) (sb_wide t) = chars m0 (sb_len t) (sb_wide t) @ us" by blast
  have "sb_appends t us 0 (t\<lparr>sb_str := Some m', sb_len := sb_len t + length us\<rparr>)"
    using st m0 m' by (auto simp: sb_appends_def sb_ok_def sb_units_def)
  then show ?thesis using True m0 m' sb_appends_after_grow [OF st(4)] by auto
qed

lemma write8_appends:
  assumes ok: "sb_ok s" and ne: "sb_error s \<Longrightarrow> p \<noteq> []"
  shows "\<exists>r s'. string_buffer_write8 ra s p = Some (r, s') \<and> sb_appends s (map ucast p) r s'"
proof -
  obtain r t where t: "(if sb_len s + length p > sb_size s then string_buffer_realloc ra s (sb_len s + length p) 0
      else Some (0, s)) = Some (r, t)" and g: "sb_grows s (length p) r t"
    using reserve_grows [OF ok, of "length p" 0] ne by auto
  show ?thesis
  proof (cases "p = []")
    case True
    then have "\<not> sb_error s" "t = s" "r = 0" "sb_len s \<le> sb_size s"
      using ne t ok by (auto simp: sb_ok_def split: if_splits)
    then show ?thesis using True t ok by (simp add: string_buffer_write8_def sb_appends_def)
  next
    case False
    have "\<exists>r' s'. (if r \<noteq> 0 then Some (-1, t) else do {
       m \<leftarrow> sb_str t; m \<leftarrow> (if sb_wide t then store16s m (sb_len t) (map ucast p) else mem_blit m (sb_len t) p);
       Some (0, t\<lparr>sb_str := Some m, sb_len := sb_len t + length (map (ucast :: u8 \<Rightarrow> u16) p)\<rparr>) }) = Some (r', s')
     \<and> sb_appends s (map ucast p) r' s'"
      using g False store16s_chars [of "sb_len t" "map ucast p"] blit_chars [of "sb_len t" p]
      by (intro copy_appends) (auto simp: payload_bytes_def mem_simps split: if_splits)
    then show ?thesis using t False unfolding length_map
      by (cases "r = 0") (simp_all add: string_buffer_write8_def)
  qed
qed

lemma write16_appends:
  assumes ok: "sb_ok s" and ne: "sb_error s \<Longrightarrow> p \<noteq> []"
  shows "\<exists>r s'. string_buffer_write16 ra s p = Some (r, s') \<and> sb_appends s p r s'"
proof -
  define c where "c = (foldl (OR) 0 (map ucast p) :: u32)"
  have "\<exists>r t. (if sb_len s + length p > sb_size s then string_buffer_realloc ra s (sb_len s + length p) c
      else if \<not> sb_wide s \<and> c \<ge> 0x100 then string_buffer_widen ra s (sb_size s) else Some (0, s)) = Some (r, t)
      \<and> sb_grows s (length p) r t \<and> (r = 0 \<and> c \<ge> 0x100 \<longrightarrow> sb_wide t)"
    using realloc_grows [OF ok, of "length p" c] widen_grows [OF ok, of "length p" "sb_size s"] ok ne
    by (cases "sb_error s") (auto simp: sb_grows_def sb_ok_def)
  then obtain r t where t: "(if sb_len s + length p > sb_size s then string_buffer_realloc ra s (sb_len s + length p) c
      else if \<not> sb_wide s \<and> c \<ge> 0x100 then string_buffer_widen ra s (sb_size s) else Some (0, s)) = Some (r, t)"
    and g: "sb_grows s (length p) r t" and w: "r = 0 \<and> c \<ge> 0x100 \<longrightarrow> sb_wide t" by blast
  show ?thesis
  proof (cases "p = []")
    case True
    then have "c = 0" by (simp add: c_def)
    then have "\<not> sb_error s" "t = s" "r = 0" "sb_len s \<le> sb_size s"
      using ne t ok True by (auto simp: sb_ok_def split: if_splits)
    then show ?thesis using True t ok by (simp add: string_buffer_write16_def sb_appends_def Let_def c_def)
  next
    case False
    have u8: "map ucast (map ucast p :: u8 list) = p" if "r = 0" "\<not> sb_wide t"
    proof (unfold map_map o_def, rule map_idI)
      fix x assume "x \<in> set p"
      then have "x < 0x100" using w that or_high_zero [of 0 p] by (auto simp: c_def not_le)
      then show "ucast (ucast x :: u8) = x"
        by (simp add: word_unat_eq_iff word_less_nat_alt unsigned_ucast_eq unsigned_take_bit_eq take_bit_nat_eq_self)
    qed
    have "\<exists>r' s'. (if r \<noteq> 0 then Some (-1, t) else do {
       m \<leftarrow> sb_str t; m \<leftarrow> (if sb_wide t then store16s m (sb_len t) p else store8s m (sb_len t) (map ucast p));
       Some (0, t\<lparr>sb_str := Some m, sb_len := sb_len t + length p\<rparr>) }) = Some (r', s') \<and> sb_appends s p r' s'"
      using g False store16s_chars [of "sb_len t" p] store8s_chars [of "sb_len t" "map ucast p"] u8
      by (intro copy_appends) (auto simp: payload_bytes_def split: if_splits)
    then show ?thesis using False unfolding string_buffer_write16_def Let_def c_def [symmetric] t
      by (cases "r = 0") simp_all
  qed
qed

lemma concat_appends:
  assumes ok: "sb_ok s" "\<not> sb_error s" and to: "to \<le> length (units p)"
  shows "\<exists>r s'. string_buffer_concat ra s p from to = Some (r, s')
    \<and> sb_appends s (take (to - from) (drop from (units p))) r s'"
proof (cases "to \<le> from")
  case True
  then show ?thesis using ok by (simp add: string_buffer_concat_def sb_appends_def)
next
  case False
  then show ?thesis using write8_appends [OF ok(1)] write16_appends [OF ok(1)] ok to
    by (cases p) (auto simp: string_buffer_concat_def mem_simps take_map drop_map)
qed

lemma fill_loop_appends:
  "sb_ok s \<Longrightarrow> \<not> sb_error s \<Longrightarrow>
   \<exists>r s'. fill_loop ra s c n = Some (r, s') \<and> sb_appends s (replicate n (ucast c)) r s'"
proof (induction n arbitrary: s)
  case 0
  then show ?case by (simp add: sb_appends_def)
next
  case (Suc n)
  obtain r t where t: "string_buffer_putc16 ra s c = Some (r, t)" "sb_appends s [ucast c] r t"
    using putc16_appends [OF Suc.prems(1), of c] by blast
  show ?case
  proof (cases "r = 0")
    case False
    then show ?thesis using t by (auto simp: sb_appends_def)
  next
    case True
    then have "sb_ok t" "\<not> sb_error t" using t by (auto simp: sb_appends_def)
    from Suc.IH [OF this] show ?thesis using t True by (auto simp: sb_appends_def)
  qed
qed

lemma fill_appends:
  assumes ok: "sb_ok s" "\<not> sb_error s"
  shows "\<exists>r s'. string_buffer_fill ra s c n = Some (r, s') \<and> sb_appends s (replicate n (ucast c)) r s'"
proof -
  obtain r t where t: "(if sb_len s + n > sb_size s then string_buffer_realloc ra s (sb_len s + n) c
      else Some (0, s)) = Some (r, t)" and g: "sb_grows s n r t"
    using reserve_grows [OF ok(1), of n c] ok by auto
  show ?thesis
  proof (cases "r = 0")
    case False
    then show ?thesis using t sb_appends_grow_fail [OF g] by (simp add: string_buffer_fill_def)
  next
    case True
    then have "sb_ok t" "\<not> sb_error t" "sb_grows s n 0 t" using g by (auto simp: sb_grows_def)
    then show ?thesis using fill_loop_appends [of t c n] t True sb_appends_after_grow
      unfolding string_buffer_fill_def by fastforce
  qed
qed

lemma init2_ok:
  "\<exists>r s'. string_buffer_init2 ra sz wide = (r, s') \<and> sb_ok s' \<and> sb_units s' = []
     \<and> (r = 0 \<and> \<not> sb_error s' \<or> r = -1 \<and> sb_error s')"
proof (cases "ra None (payload_bytes sz wide)")
  case None
  then show ?thesis by (simp add: string_buffer_init2_def sb_ok_def sb_units_def)
next
  case (Some x)
  obtain m slack where "x = (m, slack)" by (cases x)
  then show ?thesis using Some ra_length [of None "payload_bytes sz wide" m slack]
    by (auto simp: string_buffer_init2_def sb_ok_def sb_units_def chars_def)
qed

end

lemma read_string_chars:
  assumes "(if wide then 2 * n else n) \<le> length m"
  shows "\<exists>str. read_string m n wide = Some str \<and> units str = chars m n wide"
proof (cases wide)
  case True
  have "those (map (get16 m) [0 ..< k]) = Some (map (cell16 m) [0 ..< k])" if "k \<le> n" for k
  proof -
    have "map (get16 m) [0 ..< k] = map Some (map (cell16 m) [0 ..< k])"
      using that assms True by (auto simp: mem_simps)
    moreover have "those (map Some xs) = Some xs" for xs :: "u16 list" by (induction xs) auto
    ultimately show ?thesis by metis
  qed
  then show ?thesis using True by (simp add: read_string_def chars_def)
next
  case False
  then show ?thesis using assms by (simp add: read_string_def chars_def mem_simps)
qed

context str_realloc
begin

lemma end_string:
  assumes ok: "sb_ok s"
  shows "\<exists>res. string_buffer_end ra s = Some res
    \<and> (sb_error s \<and> res = Inl NoMemory \<or> \<not> sb_error s \<and> (\<exists>str. res = Inr str \<and> units str = sb_units s))"
proof (cases "sb_error s \<or> sb_len s = 0")
  case True
  then show ?thesis by (auto simp: string_buffer_end_def sb_units_def chars_def split: option.split)
next
  case False
  then obtain m where m: "sb_str s = Some m" "sb_len s \<le> sb_size s" "payload_bytes (sb_size s) (sb_wide s) \<le> length m"
    using ok by (auto simp: sb_ok_def)
  define m1 where "m1 = (if sb_len s < sb_size s
     then (case ra (Some m) (payload_bytes (sb_len s) (sb_wide s)) of None \<Rightarrow> m | Some (m', _) \<Rightarrow> m') else m)"
  have m1: "payload_bytes (sb_len s) (sb_wide s) \<le> length m1 \<and> chars m1 (sb_len s) (sb_wide s) = chars m (sb_len s) (sb_wide s)"
  proof (cases "\<exists>m' k. sb_len s < sb_size s \<and> ra (Some m) (payload_bytes (sb_len s) (sb_wide s)) = Some (m', k)")
    case True
    then obtain m' k where m': "m1 = m'" "ra (Some m) (payload_bytes (sb_len s) (sb_wide s)) = Some (m', k)"
      "sb_len s < sb_size s" by (auto simp: m1_def)
    let ?k = "min (payload_bytes (sb_len s) (sb_wide s)) (length m)"
    have "take ?k m' = take ?k m" using ra_keeps m'(2) by simp
    then show ?thesis using ra_length [OF m'(2)] m m'
      by (auto intro!: chars_prefix [of ?k] simp: payload_bytes_def)
  next
    case False
    then have "m1 = m" by (auto simp: m1_def split: option.split)
    then show ?thesis using m by (auto simp: payload_bytes_def split: if_splits)
  qed
  define m2 where "m2 = (if sb_wide s then m1 else m1[sb_len s := 0])"
  have st: "(if sb_wide s then Some m1 else mem_set m1 (sb_len s) 0) = Some m2"
    using m1 by (auto simp: m2_def mem_simps payload_bytes_def)
  have "chars m2 (sb_len s) (sb_wide s) = chars m1 (sb_len s) (sb_wide s)"
    by (auto simp: m2_def chars_def)
  moreover have "(if sb_wide s then 2 * sb_len s else sb_len s) \<le> length m2"
    using m1 by (auto simp: m2_def payload_bytes_def)
  ultimately obtain str where "read_string m2 (sb_len s) (sb_wide s) = Some str" "units str = sb_units s"
    using read_string_chars [of "sb_wide s" "sb_len s" m2] m1 m by (auto simp: sb_units_def)
  then show ?thesis using False m st unfolding string_buffer_end_def Let_def m1_def by simp
qed

end

section \<open>The runtime's allocator provides the contract\<close>

text \<open>\<open>jsi_realloc2\<close> on a block that holds the 16-byte header of \<open>JSIString\<close> and the payload, in a
  runtime whose allocator state is \<open>s\<close> and whose string block lies at \<open>p\<close>. Payload sizes are at
  most \<open>2 * JSI_STRING_LEN_MAX + 1\<close>.\<close>

definition payload_realloc :: "libc \<Rightarrow> malloc_state \<Rightarrow> nat \<Rightarrow> str_alloc" where
  "payload_realloc lc s p old n =
     (if 2 ^ 32 \<le> n then None
      else (case (case old of
                    None \<Rightarrow> jsi_realloc2 lc s None (of_nat (16 + n))
                  | Some m \<Rightarrow> jsi_realloc2 lc (s\<lparr>ms_heap := (ms_heap s)(p \<mapsto> replicate 16 0 @ m)\<rparr>) (Some p)
                               (of_nat (16 + n))) of
              Some (Inr (Some q, slack), s') \<Rightarrow> map_option (\<lambda>b. (drop 16 b, unat slack)) (ms_heap s' q)
            | _ \<Rightarrow> None))"

context libc_alloc
begin

lemma realloc2_block:
  assumes res: "jsi_realloc2 lc s ptr (of_nat k) = Some (Inr (Some q, slack), s')" and k: "0 < k" "k < 2 ^ 64"
  shows "\<exists>b. ms_heap s' q = Some b \<and> length b = k + unat slack"
proof -
  have u: "unat (of_nat k :: u64) = k" using k(2) by (intro unat_eqI) simp_all
  have r: "jsi_def_realloc lc s ptr (of_nat k) = Some (Some q, s')"
    and sl: "slack = (let n = jsi_def_malloc_usable_size (ms_heap s') q in
      if n > of_nat k then n - of_nat k else 0)"
    using res by (auto simp: jsi_realloc2_def Let_def split: Option.bind_splits if_splits option.splits)
  obtain b where b: "ms_heap s' q = Some b" "k \<le> length b" "length b < 2 ^ 64"
  proof (cases ptr)
    case None
    then obtain b where "lc_malloc lc (ms_heap s) k = Some (q, b)" "ms_heap s' q = Some b"
      using r u by (auto simp: jsi_def_realloc_def jsi_def_malloc_def Let_def split: if_splits option.splits)
    then show thesis using malloc_fresh that by blast
  next
    case (Some p)
    then obtain b where "lc_realloc lc (ms_heap s) p k = Some (q, b)" "ms_heap s' q = Some b"
      using r u by (auto simp: jsi_def_realloc_def Let_def split: if_splits option.splits)
    then show thesis using realloc_fresh that by blast
  qed
  have n: "unat (of_nat (length b) :: u64) = length b" using b(3) by (intro unat_eqI) simp_all
  have "unat slack = length b - k"
    using sl b u n by (auto simp: jsi_def_malloc_usable_size_def Let_def word_less_nat_alt unat_sub word_le_nat_alt split: if_splits)
  then show ?thesis using b by simp
qed

lemma payload_keeps:
  assumes res: "payload_realloc lc s p (Some old) n = Some (m, slack)"
  shows "take (min n (length old)) m = take (min n (length old)) old"
proof -
  let ?s = "s\<lparr>ms_heap := (ms_heap s)(p \<mapsto> replicate 16 0 @ old)\<rparr>"
  obtain q sl s' b where r: "jsi_realloc2 lc ?s (Some p) (of_nat (16 + n)) = Some (Inr (Some q, sl), s')"
    "ms_heap s' q = Some b" "m = drop 16 b" and n: "n < 2 ^ 32"
    using res by (auto simp: payload_realloc_def split: if_splits option.splits sum.splits prod.splits)
  have u: "unat (of_nat (16 + n) :: u64) = 16 + n" using n by (intro unat_eqI) simp_all
  have "jsi_def_realloc lc ?s (Some p) (of_nat (16 + n)) = Some (Some q, s')"
    using r(1) by (auto simp: jsi_realloc2_def Let_def split: Option.bind_splits if_splits option.splits)
  from realloc_prefix [OF _ this, of "replicate 16 0 @ old"] r(2) u
  have "take (min (16 + n) (16 + length old)) b = take (min (16 + n) (16 + length old)) (replicate 16 0 @ old)"
    by simp
  then have "drop 16 (take (min (16 + n) (16 + length old)) b) = drop 16 (take (min (16 + n) (16 + length old)) (replicate 16 0 @ old))"
    by simp
  then show ?thesis using r(3) by (simp add: drop_take min_def split: if_splits)
qed

end

sublocale libc_alloc \<subseteq> str: str_realloc "payload_realloc lc s p" for s p
proof
  fix b n m slack
  assume res: "payload_realloc lc s p b n = Some (m, slack)"
  then obtain t ptr q sl s' blk where r: "jsi_realloc2 lc t ptr (of_nat (16 + n)) = Some (Inr (Some q, sl), s')"
    "ms_heap s' q = Some blk" "m = drop 16 blk" "slack = unat sl" and n: "n < 2 ^ 32"
    by (auto simp: payload_realloc_def split: if_splits option.splits sum.splits prod.splits)
  then show "length m = n + slack" using realloc2_block [OF r(1)] by auto
next
  show "take (min n (length old)) m = take (min n (length old)) old"
    if "payload_realloc lc s p (Some old) n = Some (m, slack)" for old n m slack
    using that by (rule payload_keeps)
qed

context libc_alloc
begin

lemma payload_realloc_ok: "str_realloc (payload_realloc lc s p)"
  by unfold_locales

end

section \<open>Sequences of operations\<close>

text \<open>Callers build a string by a sequence of appends, often without looking at the return codes, and
  ask for the result at the end. \<open>sb_op\<close> is one call, \<open>op_units\<close> what it should append.\<close>

datatype sb_op = OpPutc8 u32 | OpPutc16 u32 | OpPutc u32 | OpWrite8 bytes | OpWrite16 "u16 list"
  | OpConcat jsi_string nat nat | OpFill u32 nat

fun sb_call :: "str_alloc \<Rightarrow> sb_op \<Rightarrow> string_buffer \<Rightarrow> (int \<times> string_buffer) option" where
  "sb_call ra (OpPutc8 c) s = string_buffer_putc8 ra s c"
| "sb_call ra (OpPutc16 c) s = string_buffer_putc16 ra s c"
| "sb_call ra (OpPutc c) s = string_buffer_putc ra s c"
| "sb_call ra (OpWrite8 p) s = string_buffer_write8 ra s p"
| "sb_call ra (OpWrite16 p) s = string_buffer_write16 ra s p"
| "sb_call ra (OpConcat p from to) s = string_buffer_concat ra s p from to"
| "sb_call ra (OpFill c n) s = string_buffer_fill ra s c n"

fun sb_run :: "str_alloc \<Rightarrow> sb_op list \<Rightarrow> string_buffer \<Rightarrow> string_buffer option" where
  "sb_run ra [] s = Some s"
| "sb_run ra (op # ops) s = do { (r, s) \<leftarrow> sb_call ra op s; sb_run ra ops s }"

definition sb_build :: "str_alloc \<Rightarrow> nat \<Rightarrow> bool \<Rightarrow> sb_op list \<Rightarrow> (str_error + jsi_string) option" where
  "sb_build ra sz wide ops = do {
     s \<leftarrow> sb_run ra ops (snd (string_buffer_init2 ra sz wide));
     string_buffer_end ra s }"

fun op_units :: "sb_op \<Rightarrow> u16 list" where
  "op_units (OpPutc8 c) = [ucast c]"
| "op_units (OpPutc16 c) = [ucast c]"
| "op_units (OpPutc c) =
     (if c \<ge> 0x10000 then [ucast (get_hi_surrogate c), ucast (get_lo_surrogate c)] else [ucast c])"
| "op_units (OpWrite8 p) = map ucast p"
| "op_units (OpWrite16 p) = p"
| "op_units (OpConcat p from to) = take (to - from) (drop from (units p))"
| "op_units (OpFill c n) = replicate n (ucast c)"

fun op_ok :: "sb_op \<Rightarrow> bool" where
  "op_ok (OpPutc8 c) \<longleftrightarrow> c < 0x100"
| "op_ok (OpConcat p from to) \<longleftrightarrow> to \<le> length (units p)"
| "op_ok _ \<longleftrightarrow> True"

lemmas sb_op_defs = string_buffer_putc8_def string_buffer_putc16_def string_buffer_putc_def
  string_buffer_putc_slow_def string_buffer_write8_def string_buffer_write16_def string_buffer_concat_def
  string_buffer_fill_def string_buffer_realloc_def

text \<open>After an error every call leaves the buffer as it is.\<close>

lemma sb_call_error:
  assumes "sb_ok s" "sb_error s" "op_ok op"
  shows "\<exists>r. sb_call ra op s = Some (r, s)"
proof -
  have e: "sb_len s = 0" "sb_size s = 0" using assms by (auto simp: sb_ok_def)
  show ?thesis
  proof (cases op)
    case (OpConcat p i j)
    have w8: "\<exists>r. string_buffer_write8 ra s bs = Some (r, s)" for bs
      using e assms by (cases "bs = []") (simp_all add: sb_op_defs)
    have w16: "\<exists>r. string_buffer_write16 ra s us = Some (r, s)" for us
      using e assms by (cases "us = []") (simp_all add: sb_op_defs Let_def)
    show ?thesis using OpConcat assms w8 w16 by (cases p) (auto simp: string_buffer_concat_def mem_simps)
  next
    case (OpWrite8 p)
    then show ?thesis using e assms by (cases "p = []") (simp_all add: sb_op_defs)
  next
    case (OpWrite16 p)
    then show ?thesis using e assms by (cases "p = []") (simp_all add: sb_op_defs Let_def)
  next
    case (OpFill c n)
    then show ?thesis using e assms by (cases "n = 0") (simp_all add: sb_op_defs)
  qed (use e assms in \<open>simp_all add: sb_op_defs\<close>)
qed

context str_realloc
begin

lemma sb_call_appends:
  assumes "sb_ok s" "\<not> sb_error s" "op_ok op"
  shows "\<exists>r s'. sb_call ra op s = Some (r, s') \<and> sb_appends s (op_units op) r s'"
  using assms putc8_appends [of s] putc16_appends [of s] putc_appends [of s] write8_appends [of s]
    write16_appends [of s] concat_appends [of s] fill_appends [of s]
  by (cases op) auto

lemma sb_run_appends:
  "sb_ok s \<Longrightarrow> list_all op_ok ops \<Longrightarrow>
   \<exists>s'. sb_run ra ops s = Some s' \<and> sb_ok s' \<and> (sb_error s \<longrightarrow> sb_error s')
     \<and> (\<not> sb_error s' \<longrightarrow> sb_units s' = sb_units s @ concat (map op_units ops))"
proof (induction ops arbitrary: s)
  case (Cons op ops)
  show ?case
  proof (cases "sb_error s")
    case True
    then show ?thesis using sb_call_error [OF Cons.prems(1), of op ra] Cons.IH [of s] Cons.prems by auto
  next
    case False
    then obtain r t where t: "sb_call ra op s = Some (r, t)" "sb_appends s (op_units op) r t"
      using sb_call_appends [of s op] Cons.prems by auto
    then have "sb_ok t" by (simp add: sb_appends_def)
    from Cons.IH [OF this] t Cons.prems False show ?thesis by (auto simp: sb_appends_def)
  qed
qed simp

lemma sb_build_string:
  assumes "list_all op_ok ops"
  shows "sb_build ra sz wide ops = Some (Inl NoMemory)
    \<or> (\<exists>str. sb_build ra sz wide ops = Some (Inr str) \<and> units str = concat (map op_units ops))"
proof -
  obtain r s where s: "string_buffer_init2 ra sz wide = (r, s)" "sb_ok s" "sb_units s = []"
    using init2_ok [of sz wide] by blast
  obtain t where t: "sb_run ra ops s = Some t" "sb_ok t" "\<not> sb_error t \<longrightarrow> sb_units t = concat (map op_units ops)"
    using sb_run_appends [OF s(2) assms] s(3) by auto
  show ?thesis using end_string [OF t(2)] s t by (auto simp: sb_build_def)
qed

end

section \<open>Properties\<close>



end
