(* ===== verification/QString.thy ===== *)
theory QString
  imports QStrBuf QSortOrder "HOL-Library.List_Lexorder"
begin

text \<open>
  Finished strings of the contract engine (\<^verbatim>\<open>src/src/qjsi/quickjs_i.c\<close>, lines 4709 to 4777 and 5122
  to 5460): creation, substrings, comparison, concatenation and the conversion from and to UTF-8.
  A string is 8-bit or 16-bit; its meaning is its list of UTF-16 code units (\<open>units\<close>), and the
  theorems say that the operations do not depend on the representation. \<open>al\<close> tells which
  allocations succeed (length and width); a failed one raises \<open>NoMemory\<close>.
\<close>

section \<open>Definitions\<close>

type_synonym alloc_ok = "nat \<Rightarrow> bool \<Rightarrow> bool"

fun is_wide_char :: "jsi_string \<Rightarrow> bool" where
  "is_wide_char (Str8 _) = False"
| "is_wide_char (Str16 _) = True"

definition str_len :: "jsi_string \<Rightarrow> nat" where
  "str_len p = length (units p)"

text \<open>\<open>string_get\<close>, with the access checked.\<close>

definition string_get :: "jsi_string \<Rightarrow> nat \<Rightarrow> u16 option" where
  "string_get p idx = (case p of Str8 bs \<Rightarrow> map_option ucast (mem_get bs idx) | Str16 us \<Rightarrow> mem_get us idx)"

text \<open>A character and the next index: surrogate pairs of a wide string are joined.\<close>

definition string_getc :: "jsi_string \<Rightarrow> nat \<Rightarrow> (u32 \<times> nat) option" where
  "string_getc p idx =
     (case p of
        Str8 bs \<Rightarrow> do { c \<leftarrow> mem_get bs idx; Some (ucast c, idx + 1) }
      | Str16 us \<Rightarrow> do {
          c \<leftarrow> mem_get us idx;
          if is_hi_surrogate (ucast c) \<and> idx + 1 < length us then do {
            c1 \<leftarrow> mem_get us (idx + 1);
            if is_lo_surrogate (ucast c1) then Some (from_surrogate (ucast c) (ucast c1), idx + 2)
            else Some (ucast c, idx + 1) }
          else Some (ucast c, idx + 1) })"

definition jsi_new_string8_len :: "alloc_ok \<Rightarrow> bytes \<Rightarrow> nat \<Rightarrow> (str_error + jsi_string) option" where
  "jsi_new_string8_len al buf len =
     (if len = 0 then Some (Inr (Str8 []))
      else if \<not> al len False then Some (Inl NoMemory)
      else map_option (\<lambda>bs. Inr (Str8 bs)) (mem_slice buf 0 len))"

definition jsi_new_string8 :: "alloc_ok \<Rightarrow> bytes \<Rightarrow> (str_error + jsi_string) option" where
  "jsi_new_string8 al buf = do { n \<leftarrow> strlen buf; jsi_new_string8_len al buf n }"

definition jsi_new_string16_len :: "alloc_ok \<Rightarrow> u16 list \<Rightarrow> nat \<Rightarrow> (str_error + jsi_string) option" where
  "jsi_new_string16_len al buf len =
     (if \<not> al len True then Some (Inl NoMemory)
      else map_option (\<lambda>us. Inr (Str16 us)) (mem_slice buf 0 len))"

definition jsi_new_string_char :: "alloc_ok \<Rightarrow> u16 \<Rightarrow> (str_error + jsi_string) option" where
  "jsi_new_string_char al c =
     (if c < 0x100 then jsi_new_string8_len al [ucast c] 1 else jsi_new_string16_len al [c] 1)"

definition jsi_sub_string :: "alloc_ok \<Rightarrow> jsi_string \<Rightarrow> nat \<Rightarrow> nat \<Rightarrow> (str_error + jsi_string) option" where
  "jsi_sub_string al p start end_pos =
     (if start = 0 \<and> end_pos = str_len p then Some (Inr p)
      else
        let len = end_pos - start in
        (case p of
           Str16 us \<Rightarrow>
             if len > 0 then do {
               cs \<leftarrow> mem_slice us start len;
               if foldl (OR) 0 cs > 0xFF then jsi_new_string16_len al cs len
               else if \<not> al len False then Some (Inl NoMemory)
               else Some (Inr (Str8 (map ucast cs))) }
             else Some (Inr (Str8 []))
         | Str8 bs \<Rightarrow>
             if len > 0 then do { cs \<leftarrow> mem_slice bs start len; jsi_new_string8_len al cs len }
             else Some (Inr (Str8 []))))"

text \<open>Comparison. \<open>memcmp\<close> of the C library compares bytes as unsigned numbers; only the sign of its
  result is specified, here it is the difference of the first bytes that differ.\<close>

fun memcmp8 :: "bytes \<Rightarrow> bytes \<Rightarrow> nat \<Rightarrow> int option" where
  "memcmp8 a b 0 = Some 0"
| "memcmp8 (x # a) (y # b) (Suc n) =
     (let c = int (unat x) - int (unat y) in if c \<noteq> 0 then Some c else memcmp8 a b n)"
| "memcmp8 _ _ (Suc n) = None"

fun memcmp16_8 :: "u16 list \<Rightarrow> bytes \<Rightarrow> nat \<Rightarrow> int option" where
  "memcmp16_8 a b 0 = Some 0"
| "memcmp16_8 (x # a) (y # b) (Suc n) =
     (let c = int (unat x) - int (unat y) in if c \<noteq> 0 then Some c else memcmp16_8 a b n)"
| "memcmp16_8 _ _ (Suc n) = None"

fun memcmp16 :: "u16 list \<Rightarrow> u16 list \<Rightarrow> nat \<Rightarrow> int option" where
  "memcmp16 a b 0 = Some 0"
| "memcmp16 (x # a) (y # b) (Suc n) =
     (let c = int (unat x) - int (unat y) in if c \<noteq> 0 then Some c else memcmp16 a b n)"
| "memcmp16 _ _ (Suc n) = None"

definition jsi_string_memcmp :: "jsi_string \<Rightarrow> nat \<Rightarrow> jsi_string \<Rightarrow> nat \<Rightarrow> nat \<Rightarrow> int option" where
  "jsi_string_memcmp p1 pos1 p2 pos2 len =
     (case (p1, p2) of
        (Str8 a, Str8 b) \<Rightarrow> memcmp8 (drop pos1 a) (drop pos2 b) len
      | (Str8 a, Str16 b) \<Rightarrow> map_option uminus (memcmp16_8 (drop pos2 b) (drop pos1 a) len)
      | (Str16 a, Str8 b) \<Rightarrow> memcmp16_8 (drop pos1 a) (drop pos2 b) len
      | (Str16 a, Str16 b) \<Rightarrow> memcmp16 (drop pos1 a) (drop pos2 b) len)"

definition jsi_string_compare :: "jsi_string \<Rightarrow> jsi_string \<Rightarrow> int option" where
  "jsi_string_compare p1 p2 = do {
     res \<leftarrow> jsi_string_memcmp p1 0 p2 0 (min (str_len p1) (str_len p2));
     Some (if res = 0 then (if str_len p1 = str_len p2 then 0 else if str_len p1 < str_len p2 then -1 else 1)
           else res) }"

text \<open>Concatenation into a new block. The sum of the lengths is a \<open>uint32_t\<close>; both are below
  \<open>2^30\<close>, so it does not wrap.\<close>

definition copy_str16 :: "jsi_string \<Rightarrow> nat \<Rightarrow> nat \<Rightarrow> u16 list option" where
  "copy_str16 p off len =
     (case p of Str16 us \<Rightarrow> mem_slice us off len | Str8 bs \<Rightarrow> map_option (map ucast) (mem_slice bs off len))"

definition JSI_ConcatString1 :: "alloc_ok \<Rightarrow> jsi_string \<Rightarrow> jsi_string \<Rightarrow> (str_error + jsi_string) option" where
  "JSI_ConcatString1 al p1 p2 =
     (let len = str_len p1 + str_len p2; wide = (is_wide_char p1 \<or> is_wide_char p2) in
      if len > JSI_STRING_LEN_MAX then Some (Inl StringTooLong)
      else if \<not> al len wide then Some (Inl NoMemory)
      else (case (p1, p2) of
              (Str8 a, Str8 b) \<Rightarrow> Some (Inr (Str8 (a @ b)))
            | _ \<Rightarrow> do { a \<leftarrow> copy_str16 p1 0 (str_len p1); b \<leftarrow> copy_str16 p2 0 (str_len p2);
                        Some (Inr (Str16 (a @ b))) }))"

text \<open>Appending in place: \<open>ref_count\<close> and the usable size of the block of \<open>p1\<close> (without the header)
  decide; the result is the changed \<open>p1\<close>, or \<open>None\<close> for \<open>FALSE\<close>.\<close>

definition JSI_ConcatStringInPlace :: "nat \<Rightarrow> nat \<Rightarrow> jsi_string \<Rightarrow> jsi_string \<Rightarrow> jsi_string option" where
  "JSI_ConcatStringInPlace ref_count room p1 p2 =
     (if str_len p2 = 0 then Some p1
      else if ref_count \<noteq> 1 then None
      else (case (p1, p2) of
              (Str16 a, Str16 b) \<Rightarrow> if room \<ge> 2 * (length a + length b) then Some (Str16 (a @ b)) else None
            | (Str16 a, Str8 b) \<Rightarrow> if room \<ge> 2 * (length a + length b) then Some (Str16 (a @ map ucast b)) else None
            | (Str8 a, Str8 b) \<Rightarrow> if room \<ge> length a + length b + 1 then Some (Str8 (a @ b)) else None
            | (Str8 a, Str16 b) \<Rightarrow> None))"

definition JSI_ConcatString2 ::
  "alloc_ok \<Rightarrow> nat \<Rightarrow> nat \<Rightarrow> jsi_string \<Rightarrow> jsi_string \<Rightarrow> (str_error + jsi_string) option" where
  "JSI_ConcatString2 al ref_count room p1 p2 =
     (case JSI_ConcatStringInPlace ref_count room p1 p2 of
        Some p \<Rightarrow> Some (Inr p)
      | None \<Rightarrow> JSI_ConcatString1 al p1 p2)"

section \<open>UTF-8\<close>

definition count_ascii :: "bytes \<Rightarrow> nat" where
  "count_ascii buf = length (takeWhile (\<lambda>c. c < 128) buf)"

text \<open>Skipping an invalid sequence: continuation bytes, one byte, continuation bytes.\<close>

definition is_cont :: "u8 \<Rightarrow> bool" where
  "is_cont b \<longleftrightarrow> 0x80 \<le> b \<and> b < 0xc0"

definition skip_invalid :: "bytes \<Rightarrow> bytes" where
  "skip_invalid p =
     (let p = dropWhile is_cont p in case p of [] \<Rightarrow> [] | b # p \<Rightarrow> dropWhile is_cont p)"

lemma skip_invalid_shorter: "p \<noteq> [] \<Longrightarrow> length (skip_invalid p) < length p"
proof -
  assume "p \<noteq> []"
  show ?thesis
  proof (cases "dropWhile is_cont p")
    case Nil
    show ?thesis unfolding skip_invalid_def Nil Let_def using \<open>p \<noteq> []\<close> by simp
  next
    case (Cons b q)
    have "length (dropWhile is_cont q) \<le> length q" by (rule length_dropWhile_le)
    moreover have "length (b # q) \<le> length p" using Cons length_dropWhile_le [of is_cont p] by simp
    ultimately show ?thesis using Cons by (simp add: skip_invalid_def)
  qed
qed

lemma from_utf8_shorter: "unicode_jsi_from_utf8 p n = Some (Some (c, q)) \<Longrightarrow> length q < length p"
  using utf8_encode_decode [of p n c q]
  by (cases "unicode_jsi_to_utf8 c") (auto simp: unicode_jsi_to_utf8_def Let_def split: if_splits)

text \<open>The decoding loop of \<open>JSI_NewStringLen\<close>: the list of \<open>StringBuffer\<close> calls it makes. A failed
  decoding is \<open>0xFFFFFFFF\<close>, which is above \<open>0x10FFFF\<close>.\<close>

function utf8_ops :: "bytes \<Rightarrow> sb_op list option" where
  "utf8_ops [] = Some []"
| "utf8_ops (b # p) =
     (if b < 128 then map_option ((#) (OpPutc8 (ucast b))) (utf8_ops p)
      else (case unicode_jsi_from_utf8 (b # p) (int (length (b # p))) of
              None \<Rightarrow> None
            | Some None \<Rightarrow> map_option ((#) (OpPutc16 0xfffd)) (utf8_ops (skip_invalid (b # p)))
            | Some (Some (c, q)) \<Rightarrow>
                if c < 0x10000 then map_option ((#) (OpPutc16 c)) (utf8_ops q)
                else if c \<le> 0x10FFFF
                then map_option (\<lambda>ops. OpPutc16 (get_hi_surrogate c) # OpPutc16 (get_lo_surrogate c) # ops) (utf8_ops q)
                else map_option ((#) (OpPutc16 0xfffd)) (utf8_ops (skip_invalid (b # p)))))"
  by pat_completeness auto
termination
  by (relation "measure length") (use skip_invalid_shorter [of "_ # _"] in \<open>auto dest: from_utf8_shorter\<close>)

definition JSI_NewStringLen :: "alloc_ok \<Rightarrow> str_alloc \<Rightarrow> bytes \<Rightarrow> (str_error + jsi_string) option" where
  "JSI_NewStringLen al ra buf =
     (let len1 = count_ascii buf in
      if len1 > JSI_STRING_LEN_MAX then Some (Inl StringTooLong)
      else if len1 = length buf then jsi_new_string8_len al buf (length buf)
      else do {
        ops \<leftarrow> utf8_ops (drop len1 buf);
        sb_build ra (length buf) False (OpWrite8 (take len1 buf) # ops) })"

text \<open>\<open>JSI_ToCStringLen2\<close> on a string: the bytes before the terminating NUL. An ASCII string is
  returned as it is. \<open>len * 3\<close> is computed in an \<open>int\<close>: \<open>None\<close> is its overflow, which C leaves
  undefined.\<close>

definition latin1_utf8 :: "u8 \<Rightarrow> bytes" where
  "latin1_utf8 c = (if c < 0x80 then [c] else [drop_bit 6 c OR 0xc0, (c AND 0x3f) OR 0x80])"

fun utf16_utf8 :: "bool \<Rightarrow> u16 list \<Rightarrow> bytes" where
  "utf16_utf8 cesu8 [] = []"
| "utf16_utf8 cesu8 [c] =
     (if c < 0x80 then [ucast c] else unicode_jsi_to_utf8 (ucast c))"
| "utf16_utf8 cesu8 (c # c1 # cs) =
     (if c < 0x80 then ucast c # utf16_utf8 cesu8 (c1 # cs)
      else if is_hi_surrogate (ucast c) \<and> \<not> cesu8 \<and> is_lo_surrogate (ucast c1)
      then unicode_jsi_to_utf8 (from_surrogate (ucast c) (ucast c1)) @ utf16_utf8 cesu8 cs
      else unicode_jsi_to_utf8 (ucast c) @ utf16_utf8 cesu8 (c1 # cs))"

definition JSI_ToCStringLen2 :: "alloc_ok \<Rightarrow> bool \<Rightarrow> jsi_string \<Rightarrow> (str_error + bytes) option" where
  "JSI_ToCStringLen2 al cesu8 str =
     (case str of
        Str8 src \<Rightarrow>
          let n = length (filter (\<lambda>c. c \<ge> 0x80) src) in
          if n = 0 then Some (Inr src)
          else if \<not> al (length src + n) False then Some (Inl NoMemory)
          else Some (Inr (concat (map latin1_utf8 src)))
      | Str16 src \<Rightarrow>
          if int (length src) * 3 \<ge> 0x80000000 then None
          else if \<not> al (length src * 3) False then Some (Inl NoMemory)
          else Some (Inr (utf16_utf8 cesu8 src)))"

section \<open>Comparison is the order of the code units\<close>

fun cmp_units :: "u16 list \<Rightarrow> u16 list \<Rightarrow> int" where
  "cmp_units [] [] = 0"
| "cmp_units [] (y # b) = -1"
| "cmp_units (x # a) [] = 1"
| "cmp_units (x # a) (y # b) = (if x = y then cmp_units a b else int (unat x) - int (unat y))"

lemma uint_widen_u8: "uint (ucast (x :: u8) :: u16) = uint x"
  by (rule uint_up_ucast) (simp add: is_up)

lemma memcmp8_units: "memcmp8 a b n = memcmp16 (map ucast a) (map ucast b) n"
  by (induction a b n rule: memcmp8.induct) (auto simp: Let_def uint_widen_u8)

lemma memcmp16_8_units: "memcmp16_8 a b n = memcmp16 a (map ucast b) n"
  by (induction a b n rule: memcmp16_8.induct) (auto simp: Let_def uint_widen_u8)

lemma memcmp16_flip: "map_option uminus (memcmp16 b a n) = memcmp16 a b n"
  by (induction b a n rule: memcmp16.induct) (auto simp: Let_def)

lemma memcmp16_cmp_units:
  "case memcmp16 a b (min (length a) (length b)) of None \<Rightarrow> False
   | Some r \<Rightarrow> (if r = 0 then (if length a = length b then 0 else if length a < length b then -1 else 1) else r)
       = cmp_units a b"
  by (induction a b rule: cmp_units.induct)
    (auto simp: Let_def word_uint_eq_iff min_def split: option.splits if_splits)

lemma memcmp_units: "jsi_string_memcmp p1 0 p2 0 n = memcmp16 (units p1) (units p2) n"
  by (cases p1; cases p2)
    (simp_all add: jsi_string_memcmp_def memcmp8_units memcmp16_8_units memcmp16_flip)

lemma compare_units: "jsi_string_compare p1 p2 = Some (cmp_units (units p1) (units p2))"
proof -
  obtain r where "memcmp16 (units p1) (units p2) (min (length (units p1)) (length (units p2))) = Some r"
    "(if r = 0 then (if length (units p1) = length (units p2) then 0
        else if length (units p1) < length (units p2) then -1 else 1) else r) = cmp_units (units p1) (units p2)"
    using memcmp16_cmp_units [of "units p1" "units p2"] by (auto split: option.splits)
  then show ?thesis unfolding jsi_string_compare_def memcmp_units str_len_def by simp
qed

lemma cmp_units_less: "cmp_units a b < 0 \<longleftrightarrow> a < b"
  by (induction a b rule: cmp_units.induct) (auto simp: word_less_def)

lemma cmp_units_eq: "cmp_units a b = 0 \<longleftrightarrow> a = b"
  by (induction a b rule: cmp_units.induct) (auto simp: word_uint_eq_iff)

lemma cmp_units_greater: "cmp_units a b > 0 \<longleftrightarrow> b < a"
  using cmp_units_less [of a b] cmp_units_eq [of a b] by (metis linorder_neqE not_less_iff_gr_or_eq)

section \<open>The default order of \<open>Array.prototype.sort\<close>\<close>

text \<open>\<open>jsi_array_cmp_generic\<close> without a user function: the strings of the two slots are compared (they
  are converted once and kept in the slot), and equal strings by their original positions.\<close>

record value_slot =
  vs_str :: jsi_string
  vs_pos :: int

definition jsi_array_cmp_generic :: "value_slot \<Rightarrow> value_slot \<Rightarrow> int" where
  "jsi_array_cmp_generic a b =
     (case jsi_string_compare (vs_str a) (vs_str b) of
        None \<Rightarrow> 0
      | Some c \<Rightarrow> if c \<noteq> 0 then c
          else (if vs_pos a > vs_pos b then 1 else 0) - (if vs_pos a < vs_pos b then 1 else 0))"

lemma array_cmp_le:
  "jsi_array_cmp_generic a b \<le> 0 \<longleftrightarrow>
     units (vs_str a) < units (vs_str b) \<or> units (vs_str a) = units (vs_str b) \<and> vs_pos a \<le> vs_pos b"
  using cmp_units_less [of "units (vs_str a)" "units (vs_str b)"] cmp_units_eq [of "units (vs_str a)" "units (vs_str b)"]
  by (auto simp: jsi_array_cmp_generic_def compare_units)

lemma array_cmp_gt:
  "jsi_array_cmp_generic a b > 0 \<longleftrightarrow> jsi_array_cmp_generic b a < 0"
  using cmp_units_less [of "units (vs_str b)" "units (vs_str a)"] cmp_units_greater [of "units (vs_str a)" "units (vs_str b)"]
    cmp_units_eq [of "units (vs_str a)" "units (vs_str b)"] cmp_units_eq [of "units (vs_str b)" "units (vs_str a)"]
  by (auto simp: jsi_array_cmp_generic_def compare_units)

interpretation array_sort: cmp_order jsi_array_cmp_generic
  by unfold_locales (use array_cmp_gt array_cmp_le in \<open>auto\<close>)

section \<open>Representation independence of the constructors\<close>

lemma or_low_u16: "foldl (OR) a cs \<le> (0xFF :: u16) \<Longrightarrow> \<forall>x \<in> set cs. x < 0x100"
proof (induction cs arbitrary: a)
  case (Cons x cs)
  have le: "x \<le> 0xFF" if "foldl (OR) (a OR x) cs \<le> 0xFF"
  proof -
    have high: "drop_bit 8 (y :: u16) = 0 \<longleftrightarrow> y \<le> 0xFF" for y
      by (auto simp: word_le_nat_alt word_unat_eq_iff unat_drop_bit div_eq_0_iff)
    have "drop_bit 8 (foldl (OR) b cs) = 0 \<Longrightarrow> drop_bit 8 b = 0" for b
      by (induction cs arbitrary: b) (simp, metis drop_bit_or foldl_Cons or_eq_0_iff)
    from this [of "a OR x"] that have "drop_bit 8 x = 0" by (simp add: high drop_bit_or or_eq_0_iff)
    then show ?thesis using high by simp
  qed
  then show ?case using Cons by (auto simp: word_le_nat_alt word_less_nat_alt)
qed simp

lemma ucast_u8_back: "(x :: u16) < 0x100 \<Longrightarrow> ucast (ucast x :: u8) = x"
  by (simp add: word_unat_eq_iff word_less_nat_alt unsigned_ucast_eq unsigned_take_bit_eq take_bit_nat_eq_self)

lemma map_ucast_u8_back: "\<forall>x \<in> set cs. (x :: u16) < 0x100 \<Longrightarrow> map ucast (map ucast cs :: u8 list) = cs"
  by (induction cs) (auto simp: ucast_u8_back)

lemma sub_string_units:
  assumes "start \<le> e" "e \<le> str_len p"
  shows "jsi_sub_string al p start e = Some (Inl NoMemory)
    \<or> (\<exists>str. jsi_sub_string al p start e = Some (Inr str) \<and> units str = take (e - start) (drop start (units p)))"
proof (cases p)
  case (Str8 bs)
  then show ?thesis using assms
    by (auto simp: jsi_sub_string_def str_len_def Let_def mem_slice_def jsi_new_string8_len_def take_map drop_map)
next
  case (Str16 us)
  let ?cs = "take (e - start) (drop start us)"
  have "map ucast (map ucast ?cs :: u8 list) = ?cs" if "\<not> foldl (OR) 0 ?cs > 0xFF"
    using or_low_u16 [of 0 ?cs] that by (intro map_ucast_u8_back) auto
  then show ?thesis using assms Str16
    by (auto simp: jsi_sub_string_def str_len_def Let_def mem_slice_def jsi_new_string16_len_def)
qed

lemma concat_units:
  "JSI_ConcatString2 al rc room p1 p2 = Some (Inl NoMemory)
   \<or> JSI_ConcatString2 al rc room p1 p2 = Some (Inl StringTooLong) \<and> JSI_STRING_LEN_MAX < str_len p1 + str_len p2
   \<or> (\<exists>str. JSI_ConcatString2 al rc room p1 p2 = Some (Inr str) \<and> units str = units p1 @ units p2)"
  by (cases p1; cases p2)
    (auto simp: JSI_ConcatString2_def JSI_ConcatStringInPlace_def JSI_ConcatString1_def Let_def str_len_def
      copy_str16_def mem_slice_def)

section \<open>UTF-8 round trip\<close>

lemma surrogate_pair_unat:
  assumes "is_hi_surrogate h" "is_lo_surrogate l"
  shows "unat (from_surrogate h l) = 0x10000 + 0x400 * (unat h - 0xD800) + (unat l - 0xDC00)"
    and "0xD800 \<le> unat h \<and> unat h < 0xDC00" and "0xDC00 \<le> unat l \<and> unat l < 0xE000"
proof -
  show h: "0xD800 \<le> unat h \<and> unat h < 0xDC00"
    using assms(1) unfolding is_hi_surrogate_def drop_bit_eq_iff_unat by auto
  show l: "0xDC00 \<le> unat l \<and> unat l < 0xE000"
    using assms(2) unfolding is_lo_surrogate_def drop_bit_eq_iff_unat by auto
  define x y where "x = unat h - 0xD800" and "y = unat l - 0xDC00"
  have "unat (h - 0xD800) = x" "unat (l - 0xDC00) = y" "x < 0x400" "y < 0x400"
    using h l by (auto simp: unat_sub word_le_nat_alt x_def y_def)
  then have "unat (from_surrogate h l) = 0x10000 + 0x400 * x + y"
    unfolding from_surrogate_def unat_word_ariths by simp
  then show "unat (from_surrogate h l) = 0x10000 + 0x400 * (unat h - 0xD800) + (unat l - 0xDC00)"
    by (simp only: x_def y_def)
qed

lemma surrogate_pair_split:
  assumes "is_hi_surrogate h" "is_lo_surrogate l"
  shows "get_hi_surrogate (from_surrogate h l) = h" and "get_lo_surrogate (from_surrogate h l) = l"
    and "0x10000 \<le> from_surrogate h l" and "from_surrogate h l \<le> 0x10FFFF"
proof -
  note u = surrogate_pair_unat [OF assms]
  define c where "c = from_surrogate h l"
  have n: "unat c = 0x10000 + 0x400 * (unat h - 0xD800) + (unat l - 0xDC00)" using u by (simp add: c_def)
  show "0x10000 \<le> from_surrogate h l" "from_surrogate h l \<le> 0x10FFFF"
    using n u(2,3) unfolding c_def [symmetric] word_le_nat_alt by (simp, simp, linarith)
  have "unat c = (unat l - 0xDC00) + 1024 * (64 + (unat h - 0xD800))" "unat l - 0xDC00 < 1024"
    using n u(3) by (simp_all add: less_diff_conv2)
  then have dm: "unat c div 1024 = 64 + (unat h - 0xD800)" "unat c mod 1024 = unat l - 0xDC00"
    by (simp_all only: div_mult_self2 mod_mult_self2 div_less mod_less)
  have "unat (drop_bit 10 c) = 64 + (unat h - 0xD800)" using dm unfolding unat_drop_bit by simp
  moreover from this have "unat (drop_bit 10 c - 64) = unat h - 0xD800" by (simp add: unat_sub word_le_nat_alt)
  ultimately have "unat (get_hi_surrogate c) = unat h"
    using u(2) by (simp add: get_hi_surrogate_def unat_word_ariths)
  then show "get_hi_surrogate (from_surrogate h l) = h" by (simp add: word_unat_eq_iff c_def)
  have "unat (take_bit 10 c) = unat l - 0xDC00"
    using dm unfolding unsigned_take_bit_eq by (simp add: take_bit_eq_mod)
  then have "unat (get_lo_surrogate c) = unat l"
    using u(3) unfolding get_lo_surrogate_eq by (simp add: unat_word_ariths)
  then show "get_lo_surrogate (from_surrogate h l) = l" by (simp add: word_unat_eq_iff c_def)
qed

lemma utf8_tail_total: "l \<le> length p \<Longrightarrow> utf8_tail l c p \<noteq> None"
  by (induction l c p rule: utf8_tail.induct) auto

lemma from_utf8_total: "unicode_jsi_from_utf8 (b # p) (int (length (b # p))) \<noteq> None"
proof (cases "utf8_seq_len b")
  case (Some l)
  show ?thesis
    using Some utf8_tail_total [of l p "ucast b AND utf8_first_code_mask ! (l - 1)"]
    by (auto simp: unicode_jsi_from_utf8_def split: option.splits)
qed (simp add: unicode_jsi_from_utf8_def)

lemma utf8_ops_total: "\<exists>ops. utf8_ops p = Some ops"
proof (induction p rule: utf8_ops.induct)
  case (2 b p)
  then show ?case using from_utf8_total [of b p]
    by (auto split: option.splits prod.splits)
qed simp

lemma utf8_ops_ok: "utf8_ops p = Some ops \<Longrightarrow> list_all op_ok ops"
proof (induction p arbitrary: ops rule: utf8_ops.induct)
  case (2 b p)
  have "unat (ucast b :: u32) = unat b"
    using unsigned_less [of b, where ?'a = nat] by (simp add: unsigned_ucast_eq take_bit_nat_eq_self)
  then have "ucast b < (0x100 :: u32)" if "b < 128" using that by (simp add: word_less_nat_alt)
  then show ?case using "2.prems" "2.IH" by (auto split: if_splits option.splits)
qed simp

text \<open>The code units the decoding loop appends.\<close>

definition utf8_units :: "bytes \<Rightarrow> u16 list" where
  "utf8_units p = concat (map op_units (the (utf8_ops p)))"

lemma ucast_ascii: "(ucast (ucast (b :: u8) :: u32) :: u16) = ucast b"
  by (rule ucast_up_ucast) (simp add: is_up)

lemma utf8_units_ascii: "b < 128 \<Longrightarrow> utf8_units (b # p) = ucast b # utf8_units p"
  using utf8_ops_total [of p] by (auto simp: utf8_units_def ucast_ascii)

lemma utf8_units_ascii_prefix: "\<forall>b \<in> set a. b < 128 \<Longrightarrow> utf8_units (a @ p) = map ucast a @ utf8_units p"
  by (induction a) (auto simp: utf8_units_ascii)

lemma utf8_seq_len_lead: "utf8_seq_len b = Some n \<Longrightarrow> \<not> b < 128"
  by (auto simp: utf8_seq_len_def word_less_nat_alt word_le_nat_alt split: if_splits)

lemma utf8_units_code:
  assumes c: "\<not> c < 0x80" "c < 0x80000000" "c \<le> 0x10FFFF"
  shows "utf8_units (unicode_jsi_to_utf8 c @ p) =
    (if c < 0x10000 then [ucast c] else [ucast (get_hi_surrogate c), ucast (get_lo_surrogate c)]) @ utf8_units p"
proof -
  have "128 \<le> unat c" using c by (simp add: word_less_nat_alt)
  then obtain b bs where b: "unicode_jsi_to_utf8 c = b # bs" "utf8_seq_len b = Some (length bs)"
    using to_utf8_Cons [of c] c(2) by blast
  have "unicode_jsi_from_utf8 (b # bs @ p) (int (length (b # bs @ p))) = Some (Some (c, p))"
    using utf8_decode_encode [OF c(2), of "int (length (b # bs @ p))" p] b(1) by simp
  moreover have "\<not> b < 128" using b(2) by (rule utf8_seq_len_lead)
  ultimately show ?thesis using utf8_ops_total [of p] b(1) c by (auto simp: utf8_units_def)
qed

lemma ucast_u32_back: "(ucast (ucast (c :: u16) :: u32) :: u16) = c"
  by (rule ucast_up_ucast_id) (simp add: is_up)

lemma utf16_small: "(c :: u16) < 0x80 \<Longrightarrow> (ucast c :: u8) < 128 \<and> (ucast (ucast c :: u8) :: u16) = c"
  by (simp add: word_less_nat_alt word_unat_eq_iff unsigned_ucast_eq unsigned_take_bit_eq take_bit_nat_eq_self)

lemma utf8_units_bmp: "\<not> (c :: u16) < 0x80 \<Longrightarrow> utf8_units (unicode_jsi_to_utf8 (ucast c) @ p) = c # utf8_units p"
proof -
  assume c: "\<not> c < 0x80"
  have u: "unat (ucast c :: u32) = unat c" by (rule unat_widen_u16)
  have "unat c < 0x10000" using unsigned_less [of c, where ?'a = nat] by simp
  then show ?thesis using utf8_units_code [of "ucast c" p] c u
    by (simp add: word_less_nat_alt word_le_nat_alt ucast_u32_back)
qed

lemma utf16_utf8_units: "utf8_units (utf16_utf8 False us) = us"
proof (induction False us rule: utf16_utf8.induct)
  case 1
  then show ?case by (simp add: utf8_units_def)
next
  case (2 c)
  then show ?case using utf8_units_ascii [of "ucast c" "[]"] utf16_small [of c] utf8_units_bmp [of c "[]"]
    by (auto simp: utf8_units_def)
next
  case (3 c c1 cs)
  let ?h = "ucast c :: u32" and ?l = "ucast c1 :: u32"
  consider "c < 0x80" | "\<not> c < 0x80" "is_hi_surrogate ?h \<and> is_lo_surrogate ?l"
    | "\<not> c < 0x80" "\<not> (is_hi_surrogate ?h \<and> is_lo_surrogate ?l)" by blast
  then show ?case
  proof cases
    case 1
    then show ?thesis using 3 utf8_units_ascii [of "ucast c"] utf16_small [of c] by simp
  next
    case 2
    then have s: "is_hi_surrogate ?h" "is_lo_surrogate ?l" by auto
    note r = surrogate_pair_split [OF s]
    have "\<not> from_surrogate ?h ?l < 0x80" "from_surrogate ?h ?l < 0x80000000" "\<not> from_surrogate ?h ?l < 0x10000"
      using r(3,4) by (simp_all add: word_less_nat_alt word_le_nat_alt)
    then show ?thesis using 2 3 utf8_units_code [of "from_surrogate ?h ?l" "utf16_utf8 False cs"] r
      by (simp add: ucast_u32_back)
  next
    case 4: 3
    then show ?thesis using 3 utf8_units_bmp [of c] by auto
  qed
qed


lemma latin1_utf8_code: "latin1_utf8 c = unicode_jsi_to_utf8 (ucast c)"
proof -
  have u: "unat (ucast c :: u32) = unat c"
    using unsigned_less [of c, where ?'a = nat] by (simp add: unsigned_ucast_eq take_bit_nat_eq_self)
  have "unat c < 256" using unsigned_less [of c, where ?'a = nat] by simp
  then have lt: "(ucast c :: u32) < 0x800" "\<not> (ucast c :: u32) \<ge> 0x80000000"
    using u by (simp_all add: word_less_nat_alt word_le_nat_alt)
  have small: "(ucast c :: u32) < 0x80 \<longleftrightarrow> c < 0x80" using u by (simp add: word_less_nat_alt)
  have "ucast (drop_bit 6 (ucast c :: u32) OR 0xc0) = drop_bit 6 c OR (0xc0 :: u8)"
    "ucast ((ucast c :: u32) AND 0x3f OR 0x80) = (c AND 0x3f) OR (0x80 :: u8)"
    by (rule bit_word_eqI; auto simp: bit_simps)+
  moreover have "(ucast (ucast c :: u32) :: u8) = c" by (rule ucast_up_ucast_id) (simp add: is_up)
  ultimately show ?thesis using lt small by (simp add: latin1_utf8_def unicode_jsi_to_utf8_def Let_def)
qed

lemma latin1_utf8_units: "utf8_units (concat (map latin1_utf8 bs) @ p) = map ucast bs @ utf8_units p"
proof (induction bs)
  case (Cons c bs)
  let ?q = "concat (map latin1_utf8 bs) @ p"
  have w: "(ucast (ucast c :: u16) :: u32) = ucast c" by (rule ucast_up_ucast) (simp add: is_up)
  have "(ucast c :: u16) < 0x80 \<longleftrightarrow> c < 0x80"
    using uint_widen_u8 [of c] by (simp add: word_less_def)
  then have "utf8_units (latin1_utf8 c @ ?q) = ucast c # utf8_units ?q"
    using utf8_units_bmp [of "ucast c" ?q] utf8_units_ascii [of c ?q] w
    by (cases "c < 0x80") (simp_all add: latin1_utf8_def flip: latin1_utf8_code)
  then show ?case using Cons by simp
qed simp

lemma to_cstring_units:
  assumes "JSI_ToCStringLen2 al False str = Some (Inr buf)"
  shows "utf8_units buf = units str"
proof (cases str)
  case (Str8 src)
  have nil: "utf8_units [] = []" by (simp add: utf8_units_def)
  have "utf8_units src = map ucast src" if "filter (\<lambda>c. c \<ge> 0x80) src = []"
    using utf8_units_ascii_prefix [of src "[]"] that nil by (auto simp: filter_empty_conv not_le)
  then show ?thesis using assms Str8 latin1_utf8_units [of src "[]"] nil
    by (auto simp: JSI_ToCStringLen2_def Let_def split: if_splits)
qed (use assms utf16_utf8_units in \<open>auto simp: JSI_ToCStringLen2_def split: if_splits\<close>)

lemma to_utf8_len: "c < 0x10000 \<Longrightarrow> length (unicode_jsi_to_utf8 c) \<le> 3"
  "c < 0x200000 \<Longrightarrow> length (unicode_jsi_to_utf8 c) \<le> 4"
  by (auto simp: unicode_jsi_to_utf8_def Let_def)

lemma utf16_unit_len: "length (unicode_jsi_to_utf8 (ucast (c :: u16))) \<le> 3"
proof (rule to_utf8_len)
  show "(ucast c :: u32) < 0x10000"
    using unsigned_less [of c, where ?'a = nat] by (simp add: word_less_nat_alt unat_widen_u16)
qed

lemma utf16_utf8_len: "length (utf16_utf8 cesu8 us) \<le> length us * 3"
proof (induction cesu8 us rule: utf16_utf8.induct)
  case (2 cesu8 c)
  show ?case using utf16_unit_len [of c] by simp
next
  case (3 cesu8 c c1 cs)
  let ?p = "from_surrogate (ucast c) (ucast c1)"
  have "length (unicode_jsi_to_utf8 ?p) \<le> 4" if "is_hi_surrogate (ucast c)" "is_lo_surrogate (ucast c1)"
    by (rule to_utf8_len(2), rule le_less_trans [OF surrogate_pair_split(4) [OF that]]) simp
  then show ?case using 3 utf16_unit_len [of c]
    by (cases "c < 0x80"; cases "is_hi_surrogate (ucast c) \<and> \<not> cesu8 \<and> is_lo_surrogate (ucast c1)") auto
qed simp

lemma latin1_utf8_len:
  "length (concat (map latin1_utf8 src)) = length src + length (filter (\<lambda>c. c \<ge> 0x80) src)"
  by (induction src) (auto simp: latin1_utf8_def)

lemma count_ascii_split:
  "\<forall>b \<in> set (take (count_ascii buf) buf). b < 128" "count_ascii buf \<le> length buf"
  by (auto simp: count_ascii_def takeWhile_eq_take [symmetric] length_takeWhile_le dest: set_takeWhileD)

lemma new_string_units:
  assumes "str_realloc ra" and "length (utf8_units buf) \<le> JSI_STRING_LEN_MAX"
  shows "JSI_NewStringLen al ra buf = Some (Inl NoMemory)
    \<or> (\<exists>str. JSI_NewStringLen al ra buf = Some (Inr str) \<and> units str = utf8_units buf)"
proof -
  let ?n = "count_ascii buf"
  obtain ops where ops: "utf8_ops (drop ?n buf) = Some ops" using utf8_ops_total by blast
  have u: "utf8_units buf = map ucast (take ?n buf) @ utf8_units (drop ?n buf)"
    using utf8_units_ascii_prefix [OF count_ascii_split(1) [of buf], of "drop ?n buf"] by simp
  from u assms(2) have max: "\<not> ?n > JSI_STRING_LEN_MAX" using count_ascii_split(2) [of buf] by simp
  show ?thesis
  proof (cases "?n = length buf")
    case True
    then have "utf8_units buf = map ucast buf" using u by (simp add: utf8_units_def)
    then show ?thesis using True max
      by (auto simp: JSI_NewStringLen_def Let_def jsi_new_string8_len_def mem_slice_def)
  next
    case False
    have "list_all op_ok (OpWrite8 (take ?n buf) # ops)" using utf8_ops_ok [OF ops] by simp
    from str_realloc.sb_build_string [OF assms(1) this, of "length buf" False] show ?thesis
      using False max ops u by (auto simp: JSI_NewStringLen_def Let_def utf8_units_def)
  qed
qed

section \<open>Properties\<close>



text \<open>C19: the bytes that \<open>JSI_ToCStringLen2\<close> writes fit in the block it allocates, in the narrow case
  exactly and in the wide case with three bytes per code unit, for UTF-8 and for CESU-8: an
  allocator that refuses every smaller block changes nothing.\<close>

theorem to_cstring_fits:
  assumes "JSI_ToCStringLen2 al cesu8 str = Some (Inr buf)"
  shows "JSI_ToCStringLen2 (\<lambda>n w. al n w \<and> length buf \<le> n) cesu8 str = Some (Inr buf)"
proof (cases str)
  case (Str8 src)
  then show ?thesis using assms latin1_utf8_len [of src]
    by (auto simp: JSI_ToCStringLen2_def Let_def split: if_splits)
next
  case (Str16 src)
  then show ?thesis using assms utf16_utf8_len [of cesu8 src]
    by (auto simp: JSI_ToCStringLen2_def split: if_splits)
qed

theorem to_cstring_fits_witness:
  "JSI_ToCStringLen2 (\<lambda>n _. n \<le> 9) True (Str16 [0x41, 0xD83D, 0xDE00])
     = Some (Inr [0x41, 0xED, 0xA0, 0xBD, 0xED, 0xB8, 0x80])
   \<and> JSI_ToCStringLen2 (\<lambda>n _. n \<le> 9 \<and> 7 \<le> n) True (Str16 [0x41, 0xD83D, 0xDE00])
     = Some (Inr [0x41, 0xED, 0xA0, 0xBD, 0xED, 0xB8, 0x80])"
proof -
  have out: "JSI_ToCStringLen2 (\<lambda>n _. n \<le> 9) True (Str16 [0x41, 0xD83D, 0xDE00])
     = Some (Inr [0x41, 0xED, 0xA0, 0xBD, 0xED, 0xB8, 0x80])" by code_simp
  show ?thesis using to_cstring_fits [OF out] out by (simp add: eval_nat_numeral)
qed

text \<open>Comparison of two strings is the lexicographic order of their code units, whatever the
  representation of either; it never reads past the shorter one.\<close>

lemma string_compare_order:
  "\<exists>c. jsi_string_compare p1 p2 = Some c
     \<and> (c < 0) = (units p1 < units p2) \<and> (c = 0) = (units p1 = units p2) \<and> (c > 0) = (units p2 < units p1)"
  using compare_units [of p1 p2] cmp_units_less cmp_units_eq cmp_units_greater by blast

text \<open>Concatenation, in place or into a new block, of narrow and wide strings appends the code
  units; the only failures are an allocation and a length above the limit.\<close>

lemma string_concat_appends:
  "JSI_ConcatString2 al rc room p1 p2 = Some (Inl NoMemory)
   \<or> JSI_ConcatString2 al rc room p1 p2 = Some (Inl StringTooLong) \<and> JSI_STRING_LEN_MAX < str_len p1 + str_len p2
   \<or> (\<exists>str. JSI_ConcatString2 al rc room p1 p2 = Some (Inr str) \<and> units str = units p1 @ units p2)"
  by (rule concat_units)

text \<open>A substring is the slice of the code units; a wide string whose slice fits in 8 bits is
  narrowed without loss.\<close>

lemma sub_string_slices:
  assumes "start \<le> e" "e \<le> str_len p"
  shows "jsi_sub_string al p start e = Some (Inl NoMemory)
    \<or> (\<exists>str. jsi_sub_string al p start e = Some (Inr str) \<and> units str = take (e - start) (drop start (units p)))"
  using assms by (rule sub_string_units)

text \<open>C20: the default array sort (no user function) rearranges the slots so that their strings are
  in the order of the code units, and it is stable: equal strings keep their positions in order.\<close>

theorem array_sort_stable:
  "\<exists>ys. rqsort_jsi jsi_array_cmp_generic xs = Some ys \<and> mset ys = mset xs
     \<and> sorted_wrt (\<lambda>a b. units (vs_str a) < units (vs_str b)
         \<or> units (vs_str a) = units (vs_str b) \<and> vs_pos a \<le> vs_pos b) ys"
  using array_sort.rqsort_sorts [of xs] unfolding array_cmp_le .

end
