(* ===== verification/QRope.thy ===== *)
theory QRope
  imports QString
begin

text \<open>
  String ropes of the contract engine (\<^verbatim>\<open>src/src/qjsi/quickjs_i.c\<close>, lines 492 to 501, 5024 to 5053
  and 5480 to 5873): the lazy concatenation tree, its iterator with a fixed stack, comparison,
  linearisation, Boehm-Atkinson-Plass rebalancing in 44 Fibonacci buckets, and the concatenation
  operator that chooses between copying and ropes. Out-of-range array accesses, a null pointer
  dereference and a failed assertion are \<open>None\<close>.

  \<open>jsi_new_string_rope\<close> and the rebalancing call each other; the fuel bounds the nesting of
  rebalancings, and two levels are proved to be enough for strings below 2178309 code units.
\<close>

section \<open>Definitions\<close>

definition JSI_STRING_ROPE_SHORT_LEN :: nat where "JSI_STRING_ROPE_SHORT_LEN = 512"
definition JSI_STRING_ROPE_SHORT2_LEN :: nat where "JSI_STRING_ROPE_SHORT2_LEN = 8192"
definition JSI_STRING_ROPE_MAX_DEPTH :: nat where "JSI_STRING_ROPE_MAX_DEPTH = 60"

text \<open>A string value or a rope: length, width, depth, left and right.\<close>

datatype jsi_rope = RStr jsi_string | RNode nat bool nat jsi_rope jsi_rope

fun string_rope_get_len :: "jsi_rope \<Rightarrow> nat" where
  "string_rope_get_len (RStr p) = str_len p"
| "string_rope_get_len (RNode len _ _ _ _) = len"

fun rope_wide :: "jsi_rope \<Rightarrow> bool" where
  "rope_wide (RStr p) = is_wide_char p"
| "rope_wide (RNode _ wide _ _ _) = wide"

fun rope_depth :: "jsi_rope \<Rightarrow> nat" where
  "rope_depth (RStr _) = 0"
| "rope_depth (RNode _ _ depth _ _) = depth"

fun string_rope_get :: "jsi_rope \<Rightarrow> nat \<Rightarrow> u16 option" where
  "string_rope_get (RStr p) idx = string_get p idx"
| "string_rope_get (RNode _ _ _ l r) idx =
     (if idx < string_rope_get_len l then string_rope_get l idx
      else string_rope_get r (idx - string_rope_get_len l))"

text \<open>The iterator: its stack, the top first. The inner option is the \<open>NULL\<close> at the end, the outer one
  the assertion.\<close>

definition string_rope_iter_init :: "jsi_rope \<Rightarrow> jsi_rope list" where
  "string_rope_iter_init val = [val]"

fun rope_descend :: "jsi_rope \<Rightarrow> jsi_rope list \<Rightarrow> (jsi_string \<times> jsi_rope list) option" where
  "rope_descend (RStr p) st = Some (p, st)"
| "rope_descend (RNode _ _ _ l r) st =
     (if length st < JSI_STRING_ROPE_MAX_DEPTH then rope_descend l (r # st) else None)"

fun string_rope_iter_next :: "jsi_rope list \<Rightarrow> (jsi_string option \<times> jsi_rope list) option" where
  "string_rope_iter_next [] = Some (None, [])"
| "string_rope_iter_next (val # st) = map_option (\<lambda>(p, st). (Some p, st)) (rope_descend val st)"

text \<open>Strings still to be visited, the current one included.\<close>

fun leaves :: "jsi_rope \<Rightarrow> nat" where
  "leaves (RStr _) = 1"
| "leaves (RNode _ _ _ l r) = leaves l + leaves r"

lemma leaves_pos [simp]: "0 < leaves r" by (induction r) auto

definition iter_rem :: "jsi_string option \<Rightarrow> jsi_rope list \<Rightarrow> nat" where
  "iter_rem p it = (if p = None then 0 else 1) + sum_list (map leaves it)"

lemma descend_leaves: "rope_descend v st = Some (p, st') \<Longrightarrow> leaves v + sum_list (map leaves st) = Suc (sum_list (map leaves st'))"
  by (induction v st rule: rope_descend.induct) (auto split: if_splits)

lemma iter_next_rem:
  "string_rope_iter_next it = Some (p', it') \<Longrightarrow> iter_rem p' it' < iter_rem (Some p) it"
  by (cases it) (auto simp: iter_rem_def dest: descend_leaves)

text \<open>One side of the comparison loop: advance past \<open>l\<close> units of the current string.\<close>

definition rope_advance ::
  "jsi_string \<Rightarrow> nat \<Rightarrow> jsi_rope list \<Rightarrow> (jsi_string option \<times> nat \<times> jsi_rope list) option" where
  "rope_advance p pos it =
     (if pos \<ge> str_len p then map_option (\<lambda>(p, it). (p, 0, it)) (string_rope_iter_next it)
      else Some (Some p, pos, it))"

lemma advance_rem:
  assumes "rope_advance s pos it = Some (p', pos', it')"
  shows "iter_rem p' it' \<le> iter_rem (Some s) it" "pos \<ge> str_len s \<Longrightarrow> iter_rem p' it' < iter_rem (Some s) it"
  using assms iter_next_rem [of it p' it' s] by (auto simp: rope_advance_def split: if_splits)

function rope_cmp_loop ::
  "nat \<Rightarrow> jsi_string option \<Rightarrow> nat \<Rightarrow> jsi_rope list \<Rightarrow> jsi_string option \<Rightarrow> nat \<Rightarrow> jsi_rope list \<Rightarrow> int option" where
  "rope_cmp_loop len p1 pos1 it1 p2 pos2 it2 =
     (if len = 0 then Some 0
      else do {
        s1 \<leftarrow> p1; s2 \<leftarrow> p2;
        let l = min (min (str_len s1 - pos1) (str_len s2 - pos2)) len;
        res \<leftarrow> jsi_string_memcmp s1 pos1 s2 pos2 l;
        if res \<noteq> 0 then Some res
        else do {
          (p1', pos1', it1') \<leftarrow> rope_advance s1 (pos1 + l) it1;
          (p2', pos2', it2') \<leftarrow> rope_advance s2 (pos2 + l) it2;
          rope_cmp_loop (len - l) p1' pos1' it1' p2' pos2' it2' } })"
  by pat_completeness auto
termination
proof (relation "measure (\<lambda>(len, p1, pos1, it1, p2, pos2, it2).
    iter_rem p1 it1 + iter_rem p2 it2 + (if len = 0 then 0 else 1))", simp, clarsimp split del: if_split)
  fix len pos1 it1 pos2 it2 s1 s2 p1' pos1' it1' p2' pos2' it2'
  let ?l = "min (min (str_len s1 - pos1) (str_len s2 - pos2)) len"
  assume len: "0 < len" and a: "rope_advance s1 (pos1 + ?l) it1 = Some (p1', pos1', it1')"
    "rope_advance s2 (pos2 + ?l) it2 = Some (p2', pos2', it2')"
  have "pos1 + ?l \<ge> str_len s1 \<or> pos2 + ?l \<ge> str_len s2
      \<or> len \<le> str_len s1 - pos1 \<and> len \<le> str_len s2 - pos2" by (auto simp: min_def)
  then show "iter_rem p1' it1' + iter_rem p2' it2' + (if len \<le> str_len s1 - pos1 \<and> len \<le> str_len s2 - pos2 then 0 else 1)
      < Suc (iter_rem (Some s1) it1 + iter_rem (Some s2) it2)"
    using advance_rem [OF a(1)] advance_rem [OF a(2)] by fastforce
qed

declare rope_cmp_loop.simps [simp del]

definition jsi_string_rope_compare :: "jsi_rope \<Rightarrow> jsi_rope \<Rightarrow> bool \<Rightarrow> int option" where
  "jsi_string_rope_compare op1 op2 eq_only =
     (let len1 = string_rope_get_len op1; len2 = string_rope_get_len op2 in
      if eq_only \<and> len1 \<noteq> len2 then Some 1
      else do {
        (p1, it1) \<leftarrow> string_rope_iter_next (string_rope_iter_init op1);
        (p2, it2) \<leftarrow> string_rope_iter_next (string_rope_iter_init op2);
        res \<leftarrow> rope_cmp_loop (min len1 len2) p1 0 it1 p2 0 it2;
        Some (if res \<noteq> 0 then res else if len1 = len2 then 0 else if len1 < len2 then -1 else 1) })"

text \<open>Appending a string or rope to a buffer (no other value occurs here).\<close>

fun string_buffer_concat_value :: "str_alloc \<Rightarrow> string_buffer \<Rightarrow> jsi_rope \<Rightarrow> (int \<times> string_buffer) option" where
  "string_buffer_concat_value ra s (RStr p) =
     (if sb_error s then Some (-1, s) else string_buffer_concat ra s p 0 (str_len p))"
| "string_buffer_concat_value ra s (RNode _ _ _ l r) =
     (if sb_error s then Some (-1, s)
      else do { (res, s) \<leftarrow> string_buffer_concat_value ra s l;
                if res \<noteq> 0 then Some (-1, s) else string_buffer_concat_value ra s r })"

text \<open>Linearisation: the flat string and the rope as it is left behind; \<open>shared\<close> is
  \<open>ref_count > 1\<close>.\<close>

definition jsi_linearize_string_rope ::
  "str_alloc \<Rightarrow> bool \<Rightarrow> jsi_rope \<Rightarrow> ((str_error + jsi_rope) \<times> jsi_rope) option" where
  "jsi_linearize_string_rope ra shared rope =
     (case rope of
        RStr _ \<Rightarrow> None
      | RNode len wide depth l r \<Rightarrow>
          if (case r of RStr p \<Rightarrow> str_len p = 0 | _ \<Rightarrow> False) then Some (Inr l, rope)
          else (case string_buffer_init2 ra len wide of (res, b) \<Rightarrow>
            if res \<noteq> 0 then Some (Inl NoMemory, rope)
            else do {
              (res, b) \<leftarrow> string_buffer_concat_value ra b rope;
              if res \<noteq> 0 then Some (Inl NoMemory, rope)
              else do {
                ret \<leftarrow> string_buffer_end ra b;
                (case ret of
                   Inl e \<Rightarrow> Some (Inl e, rope)
                 | Inr str \<Rightarrow>
                     Some (Inr (RStr str),
                       if shared then RNode len wide depth (RStr str) (RStr (Str8 [])) else rope)) } }))"

text \<open>A new node, before the test of its depth.\<close>

type_synonym node_ok = "nat \<Rightarrow> bool"

definition rope_node :: "node_ok \<Rightarrow> jsi_rope \<Rightarrow> jsi_rope \<Rightarrow> str_error + jsi_rope" where
  "rope_node nal op1 op2 =
     (let len = string_rope_get_len op1 + string_rope_get_len op2;
          wide = (rope_wide op1 \<or> rope_wide op2);
          depth = max (rope_depth op1) (rope_depth op2) in
      if len > JSI_STRING_LEN_MAX then Inl StringTooLong
      else if \<not> nal len then Inl NoMemory
      else Inr (RNode len wide (depth + 1) op1 op2))"

definition rope_bucket_len :: "nat list" where
  "rope_bucket_len =
     concat [[1, 2, 3, 5], [8, 13, 21, 34], [55, 89, 144, 233], [377, 610, 987, 1597],
       [2584, 4181, 6765, 10946], [17711, 28657, 46368, 75025], [121393, 196418, 317811, 514229],
       [832040, 1346269, 2178309, 3524578], [5702887, 9227465, 14930352, 24157817],
       [39088169, 63245986, 102334155, 165580141], [267914296, 433494437, 701408733, 1134903170]]"

definition ROPE_N_BUCKETS :: nat where "ROPE_N_BUCKETS = 44"

type_synonym buckets = "jsi_rope option list"
type_synonym rope_maker = "jsi_rope \<Rightarrow> jsi_rope \<Rightarrow> (str_error + jsi_rope) option"

text \<open>Concatenation of two possibly empty accumulators: \<open>a\<close> is \<open>JSI_NULL\<close> or a rope.\<close>

definition rope_join :: "rope_maker \<Rightarrow> jsi_rope option \<Rightarrow> jsi_rope option \<Rightarrow> (str_error + jsi_rope option) option" where
  "rope_join mk b a =
     (case (b, a) of
        (None, _) \<Rightarrow> Some (Inr a)
      | (Some b, None) \<Rightarrow> Some (Inr (Some b))
      | (Some b, Some a) \<Rightarrow> map_option (map_sum id Some) (mk b a))"

text \<open>The first loop: concatenate and empty the buckets whose strings are too short. The result \<open>Inl\<close>
  is the return value \<open>-1\<close>, with the buckets as they are then.\<close>

function rb_collect ::
  "rope_maker \<Rightarrow> nat \<Rightarrow> nat \<Rightarrow> jsi_rope option \<Rightarrow> buckets \<Rightarrow> (buckets + nat \<times> jsi_rope option \<times> buckets) option" where
  "rb_collect mk len i a bk =
     (if i + 1 \<ge> length rope_bucket_len then None
      else if len < rope_bucket_len ! (i + 1) then Some (Inr (i, a, bk))
      else if i \<ge> length bk then None
      else do {
        r \<leftarrow> rope_join mk (bk ! i) a;
        (case r of Inl _ \<Rightarrow> Some (Inl (bk[i := None])) | Inr a \<Rightarrow> rb_collect mk len (i + 1) a (bk[i := None])) })"
  by pat_completeness auto
termination by (relation "measure (\<lambda>(_, _, i, _, _). length rope_bucket_len - i)") auto

text \<open>The second loop: carry into the following buckets until one is free.\<close>

function rb_carry :: "rope_maker \<Rightarrow> nat \<Rightarrow> jsi_rope \<Rightarrow> buckets \<Rightarrow> (buckets + buckets) option" where
  "rb_carry mk i a bk =
     (if i \<ge> length bk then None
      else (case bk ! i of
              None \<Rightarrow> Some (Inr (bk[i := Some a]))
            | Some b \<Rightarrow> do {
                r \<leftarrow> mk b a;
                (case r of Inl _ \<Rightarrow> Some (Inl (bk[i := None])) | Inr a \<Rightarrow> rb_carry mk (i + 1) a (bk[i := None])) }))"
  by pat_completeness auto
termination by (relation "measure (\<lambda>(_, i, _, bk). length bk - i)") auto

declare rb_collect.simps [simp del] rb_carry.simps [simp del]

text \<open>The recursion over the leaves. The status of the recursive calls is ignored.\<close>

fun jsi_rebalancee_string_rope_rec :: "rope_maker \<Rightarrow> buckets \<Rightarrow> jsi_rope \<Rightarrow> (bool \<times> buckets) option" where
  "jsi_rebalancee_string_rope_rec mk bk (RStr p) =
     (if str_len p = 0 then Some (True, bk)
      else do {
        r \<leftarrow> rb_collect mk (str_len p) 0 None bk;
        (case r of
           Inl bk \<Rightarrow> Some (False, bk)
         | Inr (i, a, bk) \<Rightarrow> do {
             r \<leftarrow> rope_join mk a (Some (RStr p));
             (case r of
                Inl _ \<Rightarrow> Some (False, bk)
              | Inr None \<Rightarrow> None
              | Inr (Some a) \<Rightarrow> map_option (\<lambda>r. case r of Inl bk \<Rightarrow> (False, bk) | Inr bk \<Rightarrow> (True, bk)) (rb_carry mk i a bk)) }) })"
| "jsi_rebalancee_string_rope_rec mk bk (RNode _ _ _ l r) = do {
     (_, bk) \<leftarrow> jsi_rebalancee_string_rope_rec mk bk l;
     (_, bk) \<leftarrow> jsi_rebalancee_string_rope_rec mk bk r;
     Some (True, bk) }"

fun rb_final :: "rope_maker \<Rightarrow> buckets \<Rightarrow> jsi_rope option \<Rightarrow> (str_error + jsi_rope option) option" where
  "rb_final mk [] a = Some (Inr a)"
| "rb_final mk (b # bk) a = do {
     r \<leftarrow> rope_join mk b a;
     (case r of Inl e \<Rightarrow> Some (Inl e) | Inr a \<Rightarrow> rb_final mk bk a) }"

definition jsi_rebalancee_string_rope :: "rope_maker \<Rightarrow> jsi_rope \<Rightarrow> (str_error + jsi_rope) option" where
  "jsi_rebalancee_string_rope mk rope = do {
     (ok, bk) \<leftarrow> jsi_rebalancee_string_rope_rec mk (replicate ROPE_N_BUCKETS None) rope;
     if \<not> ok then Some (Inl NoMemory)
     else do {
       r \<leftarrow> rb_final mk bk None;
       Some (case r of Inl e \<Rightarrow> Inl e | Inr None \<Rightarrow> Inr (RStr (Str8 [])) | Inr (Some a) \<Rightarrow> Inr a) } }"

primrec jsi_new_string_rope :: "nat \<Rightarrow> node_ok \<Rightarrow> jsi_rope \<Rightarrow> jsi_rope \<Rightarrow> (str_error + jsi_rope) option" where
  "jsi_new_string_rope 0 nal op1 op2 = None"
| "jsi_new_string_rope (Suc fuel) nal op1 op2 =
     (case rope_node nal op1 op2 of
        Inl e \<Rightarrow> Some (Inl e)
      | Inr r \<Rightarrow>
          if rope_depth r > JSI_STRING_ROPE_MAX_DEPTH
          then jsi_rebalancee_string_rope (jsi_new_string_rope fuel nal) r
          else Some (Inr r))"

text \<open>\<open>JSI_ConcatString\<close> on two strings or ropes. \<open>rc\<close> and \<open>room\<close> are the reference count and the
  usable size of the block of \<open>op1\<close>; a string taken out of a rope has at least two references.\<close>

definition JSI_ConcatString ::
  "nat \<Rightarrow> node_ok \<Rightarrow> alloc_ok \<Rightarrow> nat \<Rightarrow> nat \<Rightarrow> jsi_rope \<Rightarrow> jsi_rope \<Rightarrow> (str_error + jsi_rope) option" where
  "JSI_ConcatString fuel nal al rc room op1 op2 =
     (let concat2 = (\<lambda>rc p1 p2. map_option (map_sum id RStr) (JSI_ConcatString2 al rc room p1 p2));
          rope = jsi_new_string_rope fuel nal in
      case (op1, op2) of
        (RStr p1, RStr p2) \<Rightarrow>
          if str_len p2 = 0 then Some (Inr op1)
          else if str_len p2 \<le> JSI_STRING_ROPE_SHORT_LEN \<and> str_len p1 \<le> JSI_STRING_ROPE_SHORT2_LEN
          then concat2 rc p1 p2
          else rope op1 op2
      | (RNode _ _ _ l r, RStr p2) \<Rightarrow>
          if str_len p2 = 0 then Some (Inr op1)
          else if str_len p2 \<le> JSI_STRING_ROPE_SHORT_LEN
          then (case r of
                  RStr q \<Rightarrow>
                    if str_len q \<le> JSI_STRING_ROPE_SHORT_LEN
                    then do { v \<leftarrow> concat2 2 q p2; (case v of Inl e \<Rightarrow> Some (Inl e) | Inr v \<Rightarrow> rope l v) }
                    else rope op1 op2
                | _ \<Rightarrow> rope op1 op2)
          else rope op1 op2
      | (RStr p1, RNode _ _ _ l r) \<Rightarrow>
          if str_len p1 = 0 then Some (Inr op2)
          else (case l of
                  RStr q \<Rightarrow>
                    if str_len q \<le> JSI_STRING_ROPE_SHORT_LEN
                    then do { v \<leftarrow> concat2 rc p1 q; (case v of Inl e \<Rightarrow> Some (Inl e) | Inr v \<Rightarrow> rope v r) }
                    else rope op1 op2
                | _ \<Rightarrow> rope op1 op2)
      | _ \<Rightarrow> rope op1 op2)"

section \<open>Contents and well-formedness\<close>

text \<open>The code units of a rope, and the invariant of ropes: the cached length is exact and positive, the depth is
  an upper bound that fits the iterator stack, and a node with an empty right part has a string on the
  left, which is what linearisation returns then.\<close>

fun flat :: "jsi_rope \<Rightarrow> u16 list" where
  "flat (RStr p) = units p"
| "flat (RNode _ _ _ l r) = flat l @ flat r"

fun is_str :: "jsi_rope \<Rightarrow> bool" where
  "is_str (RStr _) = True"
| "is_str (RNode _ _ _ _ _) = False"

fun rope_ok :: "jsi_rope \<Rightarrow> bool" where
  "rope_ok (RStr p) \<longleftrightarrow> str_len p \<le> JSI_STRING_LEN_MAX"
| "rope_ok (RNode n _ d l r) \<longleftrightarrow>
     n = string_rope_get_len l + string_rope_get_len r \<and> 0 < n \<and> n \<le> JSI_STRING_LEN_MAX
     \<and> rope_depth l < d \<and> rope_depth r < d \<and> d \<le> JSI_STRING_ROPE_MAX_DEPTH
     \<and> (is_str r \<and> string_rope_get_len r = 0 \<longrightarrow> is_str l) \<and> rope_ok l \<and> rope_ok r"

fun height :: "jsi_rope \<Rightarrow> nat" where
  "height (RStr _) = 0"
| "height (RNode _ _ _ l r) = Suc (max (height l) (height r))"

lemma rope_len: "rope_ok r \<Longrightarrow> string_rope_get_len r = length (flat r)"
  by (induction r) (auto simp: str_len_def)

lemma rope_height: "rope_ok r \<Longrightarrow> height r \<le> rope_depth r"
  by (induction r) (auto simp: Suc_le_eq)

lemma rope_depth_max: "rope_ok r \<Longrightarrow> rope_depth r \<le> JSI_STRING_ROPE_MAX_DEPTH"
  by (cases r) auto

lemma rope_get_flat: "rope_ok r \<Longrightarrow> idx < length (flat r) \<Longrightarrow> string_rope_get r idx = Some (flat r ! idx)"
proof (induction r arbitrary: idx)
  case (RStr p)
  then show ?case by (cases p) (auto simp: string_get_def mem_get_def)
qed (auto simp: rope_len nth_append)

section \<open>The iterator and the comparison\<close>

fun stack_fits :: "jsi_rope list \<Rightarrow> bool" where
  "stack_fits [] = True"
| "stack_fits (v # st) \<longleftrightarrow> height v + length st \<le> JSI_STRING_ROPE_MAX_DEPTH \<and> stack_fits st"

abbreviation stack_flat :: "jsi_rope list \<Rightarrow> u16 list" where
  "stack_flat st \<equiv> concat (map flat st)"

lemma descend_ok:
  "height v + length st \<le> JSI_STRING_ROPE_MAX_DEPTH \<Longrightarrow> stack_fits st \<Longrightarrow>
   \<exists>p st'. rope_descend v st = Some (p, st') \<and> stack_fits st' \<and> units p @ stack_flat st' = flat v @ stack_flat st"
proof (induction v st rule: rope_descend.induct)
  case (2 n w d l r st)
  then show ?case by auto
qed simp

lemma iter_next_ok:
  assumes "stack_fits st"
  shows "\<exists>p st'. string_rope_iter_next st = Some (p, st') \<and> stack_fits st'
    \<and> (case p of None \<Rightarrow> st = [] | Some p \<Rightarrow> units p @ stack_flat st' = stack_flat st)"
proof (cases st)
  case (Cons v st')
  then show ?thesis using assms descend_ok [of v st'] by fastforce
qed simp

text \<open>What is left to compare on one side.\<close>

definition side :: "jsi_string option \<Rightarrow> nat \<Rightarrow> jsi_rope list \<Rightarrow> u16 list" where
  "side p pos it = (case p of None \<Rightarrow> [] | Some s \<Rightarrow> drop pos (units s) @ stack_flat it)"

lemma advance_ok:
  assumes "stack_fits it" "pos \<le> str_len s"
  shows "\<exists>p' pos' it'. rope_advance s pos it = Some (p', pos', it') \<and> stack_fits it'
    \<and> side p' pos' it' = side (Some s) pos it \<and> (\<forall>s'. p' = Some s' \<longrightarrow> pos' \<le> str_len s')"
proof (cases "pos \<ge> str_len s")
  case True
  obtain p' it' where "string_rope_iter_next it = Some (p', it')" "stack_fits it'"
    "case p' of None \<Rightarrow> it = [] | Some p \<Rightarrow> units p @ stack_flat it' = stack_flat it"
    using iter_next_ok [OF assms(1)] by blast
  then show ?thesis using True by (auto simp: rope_advance_def side_def str_len_def split: option.splits)
qed (use assms in \<open>auto simp: rope_advance_def side_def\<close>)

lemma memcmp_units_at:
  "jsi_string_memcmp p1 i p2 j n = memcmp16 (drop i (units p1)) (drop j (units p2)) n"
  by (cases p1; cases p2)
    (simp_all add: jsi_string_memcmp_def memcmp8_units memcmp16_8_units memcmp16_flip drop_map)

lemma memcmp16_prefix: "n \<le> length a \<Longrightarrow> n \<le> length b \<Longrightarrow> memcmp16 (a @ a') (b @ b') n = memcmp16 a b n"
  by (induction a b n rule: memcmp16.induct) (auto simp: Let_def)

lemma memcmp16_split:
  "k \<le> n \<Longrightarrow> n \<le> length a \<Longrightarrow> n \<le> length b \<Longrightarrow>
   memcmp16 a b n = (case memcmp16 a b k of None \<Rightarrow> None
     | Some r \<Rightarrow> if r \<noteq> 0 then Some r else memcmp16 (drop k a) (drop k b) (n - k))"
proof (induction a b n arbitrary: k rule: memcmp16.induct)
  case (2 x a y b n)
  then show ?case by (cases k) (auto simp: Let_def split: option.split)
qed auto

lemma memcmp16_total: "n \<le> length a \<Longrightarrow> n \<le> length b \<Longrightarrow> memcmp16 a b n \<noteq> None"
  by (induction a b n rule: memcmp16.induct) (auto simp: Let_def)

lemma rope_cmp_loop_units:
  assumes "stack_fits it1" "stack_fits it2" "len \<le> length (side p1 pos1 it1)" "len \<le> length (side p2 pos2 it2)"
    "\<forall>s. p1 = Some s \<longrightarrow> pos1 \<le> str_len s" "\<forall>s. p2 = Some s \<longrightarrow> pos2 \<le> str_len s"
  shows "rope_cmp_loop len p1 pos1 it1 p2 pos2 it2 = memcmp16 (side p1 pos1 it1) (side p2 pos2 it2) len"
  using assms
proof (induction len p1 pos1 it1 p2 pos2 it2 rule: rope_cmp_loop.induct)
  case (1 len p1 pos1 it1 p2 pos2 it2)
  show ?case
  proof (cases "len = 0")
    case True
    then show ?thesis by (simp add: rope_cmp_loop.simps)
  next
    case False
    then obtain s1 s2 where s: "p1 = Some s1" "p2 = Some s2"
      using 1(4,5) by (cases p1; cases p2) (auto simp: side_def)
    define l where "l = min (min (str_len s1 - pos1) (str_len s2 - pos2)) len"
    have le: "pos1 + l \<le> str_len s1" "pos2 + l \<le> str_len s2" "l \<le> len"
      using 1(6,7) s by (auto simp: l_def min_def)
    obtain q1 j1 t1 where a1: "rope_advance s1 (pos1 + l) it1 = Some (q1, j1, t1)" "stack_fits t1"
      "side q1 j1 t1 = side p1 (pos1 + l) it1" "\<forall>s'. q1 = Some s' \<longrightarrow> j1 \<le> str_len s'"
      using advance_ok [OF 1(2) le(1)] s by auto
    obtain q2 j2 t2 where a2: "rope_advance s2 (pos2 + l) it2 = Some (q2, j2, t2)" "stack_fits t2"
      "side q2 j2 t2 = side p2 (pos2 + l) it2" "\<forall>s'. q2 = Some s' \<longrightarrow> j2 \<le> str_len s'"
      using advance_ok [OF 1(3) le(2)] s by auto
    have dr: "side p1 (pos1 + l) it1 = drop l (side p1 pos1 it1)" "side p2 (pos2 + l) it2 = drop l (side p2 pos2 it2)"
      using le s by (auto simp: side_def str_len_def add.commute)
    have m: "jsi_string_memcmp s1 pos1 s2 pos2 l = memcmp16 (side p1 pos1 it1) (side p2 pos2 it2) l"
      using le s unfolding memcmp_units_at by (simp add: side_def memcmp16_prefix str_len_def)
    have ih: "rope_cmp_loop (len - l) q1 j1 t1 q2 j2 t2 = memcmp16 (side q1 j1 t1) (side q2 j2 t2) (len - l)"
      if "jsi_string_memcmp s1 pos1 s2 pos2 l = Some 0"
      by (rule 1(1) [OF False s(1,2) l_def that _ a1(1) refl refl a2(1) refl refl])
        (use a1 a2 dr 1(4,5) le in auto)
    show ?thesis
      unfolding rope_cmp_loop.simps [of len] memcmp16_split [OF le(3) 1(4,5)] m [symmetric]
      using False s a1 a2 ih dr
      by (cases "jsi_string_memcmp s1 pos1 s2 pos2 l") (auto simp: l_def [symmetric] Let_def)
  qed
qed

lemma rope_compare_units:
  assumes "rope_ok r1" "rope_ok r2"
  shows "\<exists>c. jsi_string_rope_compare r1 r2 False = Some c
    \<and> (c < 0) = (flat r1 < flat r2) \<and> (c = 0) = (flat r1 = flat r2) \<and> (c > 0) = (flat r2 < flat r1)"
proof -
  have fits: "stack_fits [r]" if "rope_ok r" for r
    using rope_height [OF that] rope_depth_max [OF that] by simp
  have next1: "\<exists>p it. string_rope_iter_next [r] = Some (p, it) \<and> stack_fits it \<and> side p 0 it = flat r" if "rope_ok r" for r
    using iter_next_ok [OF fits [OF that]] by (auto simp: side_def split: option.splits)
  obtain p1 it1 where i1: "string_rope_iter_next [r1] = Some (p1, it1)" "stack_fits it1" "side p1 0 it1 = flat r1"
    using next1 [OF assms(1)] by blast
  obtain p2 it2 where i2: "string_rope_iter_next [r2] = Some (p2, it2)" "stack_fits it2" "side p2 0 it2 = flat r2"
    using next1 [OF assms(2)] by blast
  let ?n = "min (length (flat r1)) (length (flat r2))"
  have "rope_cmp_loop ?n p1 0 it1 p2 0 it2 = memcmp16 (flat r1) (flat r2) ?n"
    using rope_cmp_loop_units [OF i1(2) i2(2), of ?n p1 0 p2 0] i1 i2 by simp
  then have "jsi_string_rope_compare r1 r2 False = Some (cmp_units (flat r1) (flat r2))"
    using memcmp16_cmp_units [of "flat r1" "flat r2"] rope_len assms i1 i2
    by (auto simp: jsi_string_rope_compare_def string_rope_iter_init_def Let_def split: option.splits)
  then show ?thesis using cmp_units_less cmp_units_eq cmp_units_greater by auto
qed

lemma rope_compare_eq_only:
  assumes "rope_ok r1" "rope_ok r2"
  shows "\<exists>c. jsi_string_rope_compare r1 r2 True = Some c \<and> (c = 0) = (flat r1 = flat r2)"
proof (cases "string_rope_get_len r1 = string_rope_get_len r2")
  case True
  then have "jsi_string_rope_compare r1 r2 True = jsi_string_rope_compare r1 r2 False"
    by (simp add: jsi_string_rope_compare_def)
  then show ?thesis using rope_compare_units [OF assms] by auto
next
  case False
  then have "flat r1 \<noteq> flat r2" using rope_len assms by metis
  then show ?thesis using False by (simp add: jsi_string_rope_compare_def)
qed

section \<open>Linearisation\<close>

context str_realloc
begin

lemma concat_value_appends:
  "sb_ok s \<Longrightarrow> \<not> sb_error s \<Longrightarrow>
   \<exists>res s'. string_buffer_concat_value ra s r = Some (res, s') \<and> sb_appends s (flat r) res s'"
proof (induction r arbitrary: s)
  case (RStr p)
  then show ?case using concat_appends [of s "str_len p" p 0] by (simp add: str_len_def)
next
  case (RNode n w d l r)
  obtain res t where t: "string_buffer_concat_value ra s l = Some (res, t)" "sb_appends s (flat l) res t"
    using RNode.IH(1) [OF RNode.prems] by blast
  show ?case
  proof (cases "res = 0")
    case True
    then have "sb_ok t" "\<not> sb_error t" "sb_units t = sb_units s @ flat l" using t(2) by (auto simp: sb_appends_def)
    moreover obtain res' u where "string_buffer_concat_value ra t r = Some (res', u)" "sb_appends t (flat r) res' u"
      using RNode.IH(2) calculation by blast
    ultimately show ?thesis using True t RNode.prems by (auto simp: sb_appends_def)
  next
    case False
    then show ?thesis using t RNode.prems by (auto simp: sb_appends_def)
  qed
qed

lemma linearize_flat:
  assumes ok: "rope_ok rope" and node: "rope = RNode len wide depth l r"
  shows "\<exists>res rope'. jsi_linearize_string_rope ra shared rope = Some (res, rope')
    \<and> rope_ok rope' \<and> flat rope' = flat rope
    \<and> (res = Inl NoMemory \<or> (\<exists>str. res = Inr (RStr str) \<and> units str = flat rope))"
proof (cases "case r of RStr p \<Rightarrow> str_len p = 0 | _ \<Rightarrow> False")
  case True
  then obtain p where p: "r = RStr p" "str_len p = 0" by (auto split: jsi_rope.splits)
  then have "is_str l" using ok node by simp
  then show ?thesis using True p ok node by (cases l) (auto simp: jsi_linearize_string_rope_def str_len_def)
next
  case nempty: False
  obtain i b where i: "string_buffer_init2 ra len wide = (i, b)" "sb_ok b" "sb_units b = []" "i = 0 \<longrightarrow> \<not> sb_error b"
    using init2_ok [of len wide] by fastforce
  show ?thesis
  proof (cases "i = 0")
    case True
    obtain res c where c: "string_buffer_concat_value ra b rope = Some (res, c)" "sb_appends b (flat rope) res c"
      using concat_value_appends [of b rope] i True by auto
    show ?thesis
    proof (cases "res = 0")
      case True
      then obtain str where str: "string_buffer_end ra c = Some (Inr str)" "units str = flat rope"
        using end_string [of c] c(2) i(3) by (auto simp: sb_appends_def)
      have "str_len str = len" using ok node str(2) rope_len [OF ok] by (simp add: str_len_def)
      then have "rope_ok (RNode len wide depth (RStr str) (RStr (Str8 [])))"
        using ok node by (auto simp: str_len_def)
      then show ?thesis using nempty node i c str ok True \<open>i = 0\<close>
        by (auto simp: jsi_linearize_string_rope_def)
    next
      case False
      then show ?thesis using nempty node i c ok \<open>i = 0\<close> by (auto simp: jsi_linearize_string_rope_def)
    qed
  next
    case False
    then show ?thesis using nempty node i ok by (auto simp: jsi_linearize_string_rope_def)
  qed
qed

end

section \<open>Rebalancing\<close>

abbreviation F :: "nat \<Rightarrow> nat" where "F i \<equiv> rope_bucket_len ! i"

lemma bucket_len_count [simp]: "length rope_bucket_len = 44"
  by (simp add: rope_bucket_len_def)

lemma bucket_len_sorted: "sorted_wrt (<) rope_bucket_len"
  by (simp add: rope_bucket_len_def)

lemma F_less: "i < j \<Longrightarrow> j < 44 \<Longrightarrow> F i < F j"
  using bucket_len_sorted by (simp add: sorted_wrt_iff_nth_less)

lemma F_le: "i \<le> j \<Longrightarrow> j < 44 \<Longrightarrow> F i \<le> F j"
  using F_less [of i j] by (cases "i = j") auto

lemma F_double: "i < 43 \<Longrightarrow> F (Suc i) \<le> 2 * F i"
proof -
  have "list_all (\<lambda>i. F (Suc i) \<le> 2 * F i) [0..<43]" by (simp add: rope_bucket_len_def upt_rec)
  then show "i < 43 \<Longrightarrow> F (Suc i) \<le> 2 * F i" by (simp add: list_all_iff)
qed

lemma F_30: "F 30 = 2178309" and F_0: "F 0 = 1" and F_43: "F 43 = 1134903170"
  by (simp_all add: rope_bucket_len_def)

lemma bucket_below: "F i \<le> n \<Longrightarrow> n < F j \<Longrightarrow> i < 44 \<Longrightarrow> i < j"
  using F_le [of j i] by (cases "i < j") auto

abbreviation oflat :: "jsi_rope option \<Rightarrow> u16 list" where
  "oflat a \<equiv> (case a of None \<Rightarrow> [] | Some r \<Rightarrow> flat r)"

text \<open>The text held in the buckets from \<open>i\<close> up: higher buckets come first.\<close>

definition bflat :: "nat \<Rightarrow> buckets \<Rightarrow> u16 list" where
  "bflat i bk = concat (map oflat (rev (drop i bk)))"

lemma bflat_step: "i < length bk \<Longrightarrow> bflat i bk = bflat (Suc i) bk @ oflat (bk ! i)"
  by (simp add: bflat_def Cons_nth_drop_Suc [symmetric])

lemma bflat_update [simp]: "i < j \<Longrightarrow> bflat j (bk[i := x]) = bflat j bk"
  by (simp add: bflat_def)

lemma bflat_low: "i \<le> length bk \<Longrightarrow> \<forall>j < i. bk ! j = None \<Longrightarrow> bflat 0 bk = bflat i bk"
proof (induction i)
  case (Suc i)
  then show ?case using bflat_step [of i bk] by simp
qed simp

text \<open>A rope that bucket \<open>i\<close> may hold, and an accumulator of the buckets below \<open>i\<close>.\<close>

definition fits :: "nat \<Rightarrow> jsi_rope \<Rightarrow> bool" where
  "fits i r \<longleftrightarrow> rope_ok r \<and> F i \<le> length (flat r) \<and> rope_depth r \<le> 2 * i"

definition acc_fits :: "nat \<Rightarrow> jsi_rope option \<Rightarrow> bool" where
  "acc_fits i a \<longleftrightarrow> (\<forall>r. a = Some r \<longrightarrow> rope_ok r \<and> flat r \<noteq> [] \<and> rope_depth r < 2 * i)"

definition bk_ok :: "buckets \<Rightarrow> bool" where
  "bk_ok bk \<longleftrightarrow> length bk = ROPE_N_BUCKETS \<and> (\<forall>i < ROPE_N_BUCKETS. \<forall>r. bk ! i = Some r \<longrightarrow> fits i r)"

lemma nth_update_if: "j < length xs \<Longrightarrow> xs[i := x] ! j = (if i = j then x else xs ! j)"
  by (cases "i = j") auto

lemma bk_ok_clear: "bk_ok bk \<Longrightarrow> bk_ok (bk[i := None])"
  by (auto simp: bk_ok_def nth_update_if split: if_splits)

lemma bk_ok_set: "bk_ok bk \<Longrightarrow> fits i r \<Longrightarrow> bk_ok (bk[i := Some r])"
  by (auto simp: bk_ok_def nth_update_if split: if_splits)

text \<open>What rebalancing needs of the node constructor it calls: below the depth limit, concatenating
  two non-empty ropes gives the node of both.\<close>

locale rope_making =
  fixes mk :: rope_maker
  assumes mk_node: "\<lbrakk>rope_ok b; rope_ok a; flat b \<noteq> []; flat a \<noteq> []; length (flat b) + length (flat a) \<le> JSI_STRING_LEN_MAX;
      rope_depth b < JSI_STRING_ROPE_MAX_DEPTH; rope_depth a < JSI_STRING_ROPE_MAX_DEPTH\<rbrakk> \<Longrightarrow>
      \<exists>r. mk b a = Some (Inr r) \<and> rope_ok r \<and> flat r = flat b @ flat a \<and> rope_depth r = Suc (max (rope_depth b) (rope_depth a))"
begin

lemma join_ok:
  assumes a: "acc_fits i a" and b: "\<forall>r. b = Some r \<longrightarrow> fits i r" and i: "i < 30"
    and len: "length (oflat b) + length (oflat a) < F 30"
  shows "\<exists>c. rope_join mk b a = Some (Inr c) \<and> acc_fits (Suc i) c \<and> oflat c = oflat b @ oflat a"
proof (cases "b = None \<or> a = None")
  case True
  have "flat r \<noteq> []" if "fits i r" for r using that F_le [of 0 i] i F_0 by (auto simp: fits_def)
  then show ?thesis using True a b by (cases a; cases b) (auto simp: rope_join_def acc_fits_def fits_def)
next
  case False
  then obtain r q where rq: "b = Some r" "a = Some q" by auto
  have r: "rope_ok r" "flat r \<noteq> []" "rope_depth r \<le> 2 * i" using b rq F_le [of 0 i] i F_0 by (auto simp: fits_def)
  have q: "rope_ok q" "flat q \<noteq> []" "rope_depth q < 2 * i" using a rq by (auto simp: acc_fits_def)
  obtain c where "mk r q = Some (Inr c)" "rope_ok c" "flat c = flat r @ flat q" "rope_depth c = Suc (max (rope_depth r) (rope_depth q))"
    using mk_node [of r q] r q len rq i F_30 by (auto simp: JSI_STRING_LEN_MAX_def JSI_STRING_ROPE_MAX_DEPTH_def)
  then show ?thesis using rq r q by (auto simp: rope_join_def acc_fits_def)
qed

lemma collect_ok:
  assumes "bk_ok bk" "\<forall>j < i. bk ! j = None" "acc_fits i a" "F i \<le> len" "len < F 30" "i < 30"
    "length (bflat i bk) + length (oflat a) < F 30"
  shows "\<exists>k c bk'. rb_collect mk len i a bk = Some (Inr (k, c, bk')) \<and> bk_ok bk' \<and> (\<forall>j < k. bk' ! j = None)
    \<and> acc_fits k c \<and> F k \<le> len \<and> k < 30 \<and> bflat k bk' @ oflat c = bflat i bk @ oflat a"
  using assms
proof (induction "30 - i" arbitrary: i a bk)
  case (Suc n)
  have bk: "length bk = 44" "\<forall>r. bk ! i = Some r \<longrightarrow> fits i r"
    using Suc.prems(1,6) by (auto simp: bk_ok_def ROPE_N_BUCKETS_def)
  have step: "bflat i bk = bflat (Suc i) bk @ oflat (bk ! i)" using bflat_step [of i bk] bk Suc.prems(6) by simp
  show ?case
  proof (cases "len < F (i + 1)")
    case True
    then show ?thesis using Suc.prems by (subst rb_collect.simps) simp
  next
    case False
    obtain c where c: "rope_join mk (bk ! i) a = Some (Inr c)" "acc_fits (Suc i) c" "oflat c = oflat (bk ! i) @ oflat a"
      using join_ok [OF Suc.prems(3) bk(2) Suc.prems(6)] step Suc.prems(7) by auto
    have "Suc i < 30" using False Suc.prems(5,6) by (cases "Suc i = 30") auto
    then have "\<exists>k d bk'. rb_collect mk len (Suc i) c (bk[i := None]) = Some (Inr (k, d, bk')) \<and> bk_ok bk'
      \<and> (\<forall>j < k. bk' ! j = None) \<and> acc_fits k d \<and> F k \<le> len \<and> k < 30
      \<and> bflat k bk' @ oflat d = bflat (Suc i) (bk[i := None]) @ oflat c"
      using Suc.hyps(2) False Suc.prems(2,5,6,7) bk(1) c step bk_ok_clear [OF Suc.prems(1)]
      by (intro Suc.hyps(1)) (auto simp: nth_update_if less_Suc_eq)
    then show ?thesis using False c(1,3) bk(1) Suc.prems(6) step by (subst rb_collect.simps) simp
  qed
qed simp

lemma carry_ok:
  assumes "bk_ok bk" "\<forall>j < i. bk ! j = None" "fits i a" "i < 44" "length (bflat i bk) + length (flat a) < F 30"
  shows "\<exists>bk'. rb_carry mk i a bk = Some (Inr bk') \<and> bk_ok bk' \<and> bflat 0 bk' = bflat i bk @ flat a"
  using assms
proof (induction "44 - i" arbitrary: i a bk)
  case (Suc n)
  have bk: "length bk = 44" "\<forall>r. bk ! i = Some r \<longrightarrow> fits i r"
    using Suc.prems(1,4) by (auto simp: bk_ok_def ROPE_N_BUCKETS_def)
  have i: "i < 30" using Suc.prems(3,4,5) bucket_below [of i "length (flat a)" 30] by (auto simp: fits_def)
  have step: "bflat i bk = bflat (Suc i) bk @ oflat (bk ! i)" using bflat_step [of i bk] bk Suc.prems(4) by simp
  show ?case
  proof (cases "bk ! i")
    case None
    let ?bk = "bk[i := Some a]"
    have "bflat 0 ?bk = bflat i ?bk" using Suc.prems(2,4) bk by (intro bflat_low) (auto simp: nth_update_if)
    also have "\<dots> = bflat i bk @ flat a" using bflat_step [of i ?bk] bk Suc.prems(4) step None by simp
    finally show ?thesis using None bk_ok_set [OF Suc.prems(1,3)] bk(1) Suc.prems(4)
      by (subst rb_carry.simps) simp
  next
    case (Some b)
    have b: "rope_ok b" "F i \<le> length (flat b)" "rope_depth b \<le> 2 * i" using bk Some by (auto simp: fits_def)
    have a: "rope_ok a" "F i \<le> length (flat a)" "rope_depth a \<le> 2 * i" using Suc.prems(3) by (auto simp: fits_def)
    have ne: "flat b \<noteq> []" "flat a \<noteq> []" using a b F_le [of 0 i] F_0 Suc.prems(4) by auto
    obtain c where c: "mk b a = Some (Inr c)" "rope_ok c" "flat c = flat b @ flat a"
      "rope_depth c = Suc (max (rope_depth b) (rope_depth a))"
      using mk_node [OF b(1) a(1) ne] a b i step Some Suc.prems(5) F_30
      by (auto simp: JSI_STRING_LEN_MAX_def JSI_STRING_ROPE_MAX_DEPTH_def)
    have "fits (Suc i) c" using c a b F_double [of i] i by (auto simp: fits_def)
    then have "\<exists>bk'. rb_carry mk (Suc i) c (bk[i := None]) = Some (Inr bk') \<and> bk_ok bk'
      \<and> bflat 0 bk' = bflat (Suc i) (bk[i := None]) @ flat c"
      using Suc.hyps(2) Suc.prems(2,5) bk(1) c step Some i bk_ok_clear [OF Suc.prems(1)]
      by (intro Suc.hyps(1)) (auto simp: nth_update_if less_Suc_eq)
    then show ?thesis using Some c bk(1) Suc.prems(4) step by (subst rb_carry.simps) simp
  qed
qed simp

lemma rec_ok:
  "bk_ok bk \<Longrightarrow> length (bflat 0 bk) + length (flat r) < F 30 \<Longrightarrow>
   \<exists>bk'. jsi_rebalancee_string_rope_rec mk bk r = Some (True, bk') \<and> bk_ok bk' \<and> bflat 0 bk' = bflat 0 bk @ flat r"
proof (induction r arbitrary: bk)
  case (RStr p)
  show ?case
  proof (cases "str_len p = 0")
    case False
    obtain k c bk1 where k: "rb_collect mk (str_len p) 0 None bk = Some (Inr (k, c, bk1))" "bk_ok bk1" "\<forall>j < k. bk1 ! j = None"
      "acc_fits k c" "F k \<le> str_len p" "k < 30" "bflat k bk1 @ oflat c = bflat 0 bk"
    proof -
      have "acc_fits 0 None" "F 0 \<le> str_len p" "str_len p < F 30" "length (bflat 0 bk) + length (oflat None) < F 30"
        using RStr.prems(2) False F_0 by (simp_all add: acc_fits_def str_len_def Suc_le_eq)
      from collect_ok [OF RStr.prems(1) _ this(1-3) _ this(4)] show ?thesis using that by auto
    qed
    have leaf: "rope_ok (RStr p)" "flat (RStr p) \<noteq> []" "rope_depth (RStr p) = 0"
      using RStr.prems(2) F_30 False by (auto simp: str_len_def JSI_STRING_LEN_MAX_def)
    have len: "length (bflat k bk1) + length (oflat c) + length (flat (RStr p)) < F 30"
      using RStr.prems(2) k(7) [symmetric] by simp
    have "\<exists>a. rope_join mk c (Some (RStr p)) = Some (Inr (Some a)) \<and> fits k a \<and> flat a = oflat c @ flat (RStr p)"
    proof (cases c)
      case None
      then show ?thesis using leaf k(5) by (simp add: rope_join_def fits_def str_len_def)
    next
      case (Some q)
      have q: "rope_ok q" "flat q \<noteq> []" "rope_depth q < 2 * k" using k(4) Some by (auto simp: acc_fits_def)
      obtain a where "mk q (RStr p) = Some (Inr a)" "rope_ok a" "flat a = flat q @ flat (RStr p)"
        "rope_depth a = Suc (max (rope_depth q) 0)"
        using mk_node [OF q(1) leaf(1) q(2) leaf(2)] len Some q k(6) F_30 leaf(3)
        by (auto simp: JSI_STRING_LEN_MAX_def JSI_STRING_ROPE_MAX_DEPTH_def)
      then show ?thesis using Some q k(5) by (auto simp: rope_join_def fits_def str_len_def)
    qed
    then obtain a where a: "rope_join mk c (Some (RStr p)) = Some (Inr (Some a))" "fits k a" "flat a = oflat c @ flat (RStr p)"
      by blast
    obtain bk' where "rb_carry mk k a bk1 = Some (Inr bk')" "bk_ok bk'" "bflat 0 bk' = bflat k bk1 @ flat a"
      using carry_ok [OF k(2,3) a(2)] k(6) len a(3) by auto
    then show ?thesis using False k(1,7) a by (simp flip: append_assoc)
  qed (use RStr in \<open>simp add: str_len_def\<close>)
next
  case (RNode n w d l r)
  obtain bk1 where "jsi_rebalancee_string_rope_rec mk bk l = Some (True, bk1)" "bk_ok bk1" "bflat 0 bk1 = bflat 0 bk @ flat l"
    using RNode.IH(1) [OF RNode.prems(1)] RNode.prems(2) by auto
  then show ?case using RNode.IH(2) [of bk1] RNode.prems(2) by auto
qed

lemma final_ok:
  assumes "bk_ok bk" "acc_fits i a" "length (bflat i bk) + length (oflat a) < F 30" "i \<le> 44"
  shows "\<exists>c. rb_final mk (drop i bk) a = Some (Inr c) \<and> oflat c = bflat i bk @ oflat a \<and> (\<forall>r. c = Some r \<longrightarrow> rope_ok r)"
  using assms
proof (induction "44 - i" arbitrary: i a)
  case 0
  then show ?case by (auto simp: bk_ok_def ROPE_N_BUCKETS_def bflat_def acc_fits_def)
next
  case (Suc n)
  have bk: "length bk = 44" "\<forall>r. bk ! i = Some r \<longrightarrow> fits i r" "i < 44"
    using Suc.prems(1,4) Suc.hyps(2) by (auto simp: bk_ok_def ROPE_N_BUCKETS_def)
  have step: "bflat i bk = bflat (Suc i) bk @ oflat (bk ! i)" using bflat_step [of i bk] bk by simp
  have "\<exists>c. rope_join mk (bk ! i) a = Some (Inr c) \<and> acc_fits (Suc i) c \<and> oflat c = oflat (bk ! i) @ oflat a"
  proof (cases "bk ! i")
    case None
    then show ?thesis using Suc.prems(2) by (auto simp: rope_join_def acc_fits_def)
  next
    case (Some b)
    then have "i < 30" using bk bucket_below [of i "length (flat b)" 30] step Suc.prems(3) by (auto simp: fits_def)
    then show ?thesis using join_ok [OF Suc.prems(2) bk(2)] step Suc.prems(3) by auto
  qed
  then obtain c where c: "rope_join mk (bk ! i) a = Some (Inr c)" "acc_fits (Suc i) c" "oflat c = oflat (bk ! i) @ oflat a"
    by blast
  have "\<exists>d. rb_final mk (drop (Suc i) bk) c = Some (Inr d) \<and> oflat d = bflat (Suc i) bk @ oflat c \<and> (\<forall>r. d = Some r \<longrightarrow> rope_ok r)"
    using Suc.hyps(2) Suc.prems c step bk by (intro Suc.hyps(1)) auto
  moreover have "drop i bk = bk ! i # drop (Suc i) bk" using bk by (simp add: Cons_nth_drop_Suc)
  ultimately show ?case using c step by auto
qed

lemma rebalance_ok:
  assumes "length (flat r) < F 30"
  shows "\<exists>r'. jsi_rebalancee_string_rope mk r = Some (Inr r') \<and> rope_ok r' \<and> flat r' = flat r"
proof -
  have "bk_ok (replicate ROPE_N_BUCKETS None)" "bflat 0 (replicate ROPE_N_BUCKETS None) = []"
    by (auto simp: bk_ok_def bflat_def)
  then obtain bk where bk: "jsi_rebalancee_string_rope_rec mk (replicate ROPE_N_BUCKETS None) r = Some (True, bk)"
    "bk_ok bk" "bflat 0 bk = flat r"
    using rec_ok [of "replicate ROPE_N_BUCKETS None" r] assms by auto
  obtain c where "rb_final mk bk None = Some (Inr c)" "oflat c = flat r" "\<forall>r. c = Some r \<longrightarrow> rope_ok r"
    using final_ok [OF bk(2), of 0 None] bk(3) assms by (auto simp: acc_fits_def)
  then show ?thesis using bk by (cases c) (auto simp: jsi_rebalancee_string_rope_def str_len_def)
qed

end

lemma node_ok_all:
  assumes "rope_ok a" "rope_ok b" "flat b \<noteq> [] \<or> is_str a \<and> flat a \<noteq> []" "length (flat a) + length (flat b) \<le> JSI_STRING_LEN_MAX"
  shows "\<exists>r. rope_node (\<lambda>_. True) a b = Inr r \<and> flat r = flat a @ flat b
    \<and> rope_depth r = Suc (max (rope_depth a) (rope_depth b))
    \<and> (rope_depth r \<le> JSI_STRING_ROPE_MAX_DEPTH \<longrightarrow> rope_ok r)"
  using assms rope_len [OF assms(1)] rope_len [OF assms(2)] by (auto simp: rope_node_def Let_def)

interpretation new_rope: rope_making "jsi_new_string_rope (Suc fuel) (\<lambda>_. True)" for fuel
proof
  fix b a
  assume *: "rope_ok b" "rope_ok a" "flat b \<noteq> []" "flat a \<noteq> []" "length (flat b) + length (flat a) \<le> JSI_STRING_LEN_MAX"
    "rope_depth b < JSI_STRING_ROPE_MAX_DEPTH" "rope_depth a < JSI_STRING_ROPE_MAX_DEPTH"
  show "\<exists>r. jsi_new_string_rope (Suc fuel) (\<lambda>_. True) b a = Some (Inr r) \<and> rope_ok r \<and> flat r = flat b @ flat a
      \<and> rope_depth r = Suc (max (rope_depth b) (rope_depth a))"
    using node_ok_all [OF *(1,2)] * by fastforce
qed

lemma new_rope_appends:
  assumes "rope_ok a" "rope_ok b" "flat b \<noteq> [] \<or> is_str a \<and> flat a \<noteq> []" "length (flat a) + length (flat b) < F 30"
  shows "\<exists>r. jsi_new_string_rope (Suc (Suc fuel)) (\<lambda>_. True) a b = Some (Inr r) \<and> rope_ok r \<and> flat r = flat a @ flat b"
proof -
  obtain r where r: "rope_node (\<lambda>_. True) a b = Inr r" "flat r = flat a @ flat b"
    "rope_depth r \<le> JSI_STRING_ROPE_MAX_DEPTH \<longrightarrow> rope_ok r"
    using node_ok_all [OF assms(1-3)] assms(4) F_30 by (auto simp: JSI_STRING_LEN_MAX_def)
  show ?thesis
  proof (cases "rope_depth r > JSI_STRING_ROPE_MAX_DEPTH")
    case True
    then show ?thesis using new_rope.rebalance_ok [of r fuel] r assms(4) by simp
  qed (use r in simp)
qed

lemma concat2_then:
  assumes "length (units p) + length (units q) \<le> JSI_STRING_LEN_MAX"
  shows "(do { v \<leftarrow> map_option (map_sum id RStr) (JSI_ConcatString2 al rc room p q);
               (case v of Inl e \<Rightarrow> Some (Inl e) | Inr v \<Rightarrow> f v) }) = Some (Inl NoMemory)
   \<or> (\<exists>str. units str = units p @ units q
        \<and> do { v \<leftarrow> map_option (map_sum id RStr) (JSI_ConcatString2 al rc room p q);
               (case v of Inl e \<Rightarrow> Some (Inl e) | Inr v \<Rightarrow> f v) } = f (RStr str))"
  using concat_units [of al rc room p q] assms by (auto simp: str_len_def)

lemma concat2_cases:
  assumes "length (units p) + length (units q) \<le> JSI_STRING_LEN_MAX"
  shows "map_option (map_sum id RStr) (JSI_ConcatString2 al rc room p q) = Some (Inl NoMemory)
   \<or> (\<exists>str. map_option (map_sum id RStr) (JSI_ConcatString2 al rc room p q) = Some (Inr (RStr str)) \<and> units str = units p @ units q)"
  using concat_units [of al rc room p q] assms by (auto simp: str_len_def)

lemma rope_nonempty: "rope_ok r \<Longrightarrow> \<not> is_str r \<Longrightarrow> flat r \<noteq> []"
  using rope_len [of r] by (cases r) auto

lemma ConcatString_appends:
  assumes "rope_ok a" "rope_ok b" and len: "length (flat a) + length (flat b) < F 30"
  shows "JSI_ConcatString (Suc (Suc fuel)) (\<lambda>_. True) al rc room a b = Some (Inl NoMemory)
    \<or> (\<exists>r. JSI_ConcatString (Suc (Suc fuel)) (\<lambda>_. True) al rc room a b = Some (Inr r) \<and> rope_ok r \<and> flat r = flat a @ flat b)"
proof -
  let ?mk = "jsi_new_string_rope (Suc (Suc fuel)) (\<lambda>_. True)"
  have node: "\<exists>r. ?mk a b = Some (Inr r) \<and> rope_ok r \<and> flat r = flat a @ flat b" if "flat b \<noteq> []"
    using new_rope_appends [OF assms(1,2) _ len] that by simp
  have small: "rope_ok (RStr str)" if "length (units str) < F 30" for str
    using that F_30 by (simp add: str_len_def JSI_STRING_LEN_MAX_def)
  have MAX: "n \<le> JSI_STRING_LEN_MAX" if "n < F 30" for n using that F_30 by (simp add: JSI_STRING_LEN_MAX_def)
  consider (ss) p q where "a = RStr p" "b = RStr q"
    | (ns) n w d l r q where "a = RNode n w d l r" "b = RStr q"
    | (sn) p n w d l r where "a = RStr p" "b = RNode n w d l r"
    | (nn) n w d l r n' w' d' l' r' where "a = RNode n w d l r" "b = RNode n' w' d' l' r'"
    by (cases a; cases b) auto
  then show ?thesis
  proof cases
    case (ss p q)
    then show ?thesis
      using assms node concat2_cases [of p q al rc room] small MAX [OF len]
      by (auto simp: JSI_ConcatString_def Let_def str_len_def simp del: jsi_new_string_rope.simps)
  next
    case (ns n w d l r q)
    show ?thesis
    proof (cases "str_len q \<noteq> 0 \<and> str_len q \<le> JSI_STRING_ROPE_SHORT_LEN \<and> (\<exists>p. r = RStr p \<and> str_len p \<le> JSI_STRING_ROPE_SHORT_LEN)")
      case True
      then obtain p where p: "r = RStr p" by blast
      have "length (units p) + length (units q) \<le> JSI_STRING_LEN_MAX" using MAX [OF len] ns p by simp
      moreover have "\<exists>t. ?mk l (RStr str) = Some (Inr t) \<and> rope_ok t \<and> flat t = flat a @ flat b"
        if "units str = units p @ units q" for str
        using new_rope_appends [of l "RStr str" fuel] True ns p assms small [of str] that by (auto simp: str_len_def)
      ultimately show ?thesis
        using concat2_then [of p q al 2 room "?mk l"] True ns p
        by (fastforce simp: JSI_ConcatString_def Let_def simp del: jsi_new_string_rope.simps)
    next
      case False
      then show ?thesis using ns assms(1) node
        by (cases r) (auto simp: JSI_ConcatString_def Let_def str_len_def simp del: jsi_new_string_rope.simps)
    qed
  next
    case (sn p n w d l r)
    show ?thesis
    proof (cases "str_len p \<noteq> 0 \<and> (\<exists>q. l = RStr q \<and> str_len q \<le> JSI_STRING_ROPE_SHORT_LEN)")
      case True
      then obtain q where q: "l = RStr q" by blast
      have "length (units p) + length (units q) \<le> JSI_STRING_LEN_MAX" using MAX [OF len] sn q by simp
      moreover have "\<exists>t. ?mk (RStr str) r = Some (Inr t) \<and> rope_ok t \<and> flat t = flat a @ flat b"
        if "units str = units p @ units q" for str
        using new_rope_appends [of "RStr str" r fuel] True sn q assms small [of str] that by (auto simp: str_len_def)
      ultimately show ?thesis
        using concat2_then [of p q al rc room "\<lambda>v. ?mk v r"] True sn q
        by (fastforce simp: JSI_ConcatString_def Let_def simp del: jsi_new_string_rope.simps)
    next
      case False
      then show ?thesis using sn assms(2) node rope_nonempty [OF assms(2)]
        by (cases l) (auto simp: JSI_ConcatString_def Let_def str_len_def simp del: jsi_new_string_rope.simps)
    qed
  next
    case nn
    then show ?thesis using node rope_nonempty [OF assms(2)] by (simp add: JSI_ConcatString_def Let_def)
  qed
qed

section \<open>Properties\<close>



text \<open>C22: the comparison of two well-formed ropes walks both trees without overflowing either iterator
  stack and is the lexicographic order of the code units; the equality-only variant is zero exactly
  for equal texts.\<close>

theorem rope_compare_order:
  assumes "rope_ok r1" and "rope_ok r2"
  shows "\<exists>c e. jsi_string_rope_compare r1 r2 False = Some c \<and> jsi_string_rope_compare r1 r2 True = Some e
    \<and> (c < 0) = (flat r1 < flat r2) \<and> (c > 0) = (flat r2 < flat r1) \<and> (c = 0) = (flat r1 = flat r2)
    \<and> (e = 0) = (flat r1 = flat r2)"
  using rope_compare_units [OF assms] rope_compare_eq_only [OF assms] by blast

theorem rope_compare_order_witness:
  "let r1 = RNode 2 False 1 (RStr (Str8 [1])) (RStr (Str8 [2])); r2 = RStr (Str8 [1, 2]) in
   \<exists>c e. jsi_string_rope_compare r1 r2 False = Some c \<and> jsi_string_rope_compare r1 r2 True = Some e
     \<and> (c < 0) = (flat r1 < flat r2) \<and> (c > 0) = (flat r2 < flat r1) \<and> (c = 0) = (flat r1 = flat r2)
     \<and> (e = 0) = (flat r1 = flat r2)"
  unfolding Let_def
  by (rule rope_compare_order) (simp_all add: str_len_def JSI_STRING_LEN_MAX_def JSI_STRING_ROPE_MAX_DEPTH_def)

text \<open>The character of a well-formed rope at an index below its length is that code unit of its
  text.\<close>

lemma rope_index:
  assumes "rope_ok r" and "idx < string_rope_get_len r"
  shows "string_rope_get r idx = Some (flat r ! idx)"
  using rope_get_flat [OF assms(1)] assms rope_len [OF assms(1)] by simp

text \<open>C23: linearising a well-formed rope yields a flat string (never a rope) with the same text, or
  fails for lack of memory; the rope left behind, rewritten in place when it is shared, is well-formed
  and has the same text.\<close>

theorem rope_linearize:
  assumes "libc_alloc lc" and "rope_ok (RNode len wide depth l r)"
  shows "\<exists>res rope'. jsi_linearize_string_rope (payload_realloc lc s p) shared (RNode len wide depth l r) = Some (res, rope')
    \<and> rope_ok rope' \<and> flat rope' = flat l @ flat r
    \<and> (res = Inl NoMemory \<or> (\<exists>str. res = Inr (RStr str) \<and> units str = flat l @ flat r))"
proof -
  have "str_realloc (payload_realloc lc s p)" using assms(1) by (rule libc_alloc.payload_realloc_ok)
  from str_realloc.linearize_flat [OF this assms(2) refl] show ?thesis by simp
qed

theorem rope_linearize_witness:
  "\<exists>res rope'. jsi_linearize_string_rope (payload_realloc fixed_libc new_malloc_state 16) True
       (RNode 2 False 1 (RStr (Str8 [1])) (RStr (Str8 [2]))) = Some (res, rope')
    \<and> rope_ok rope' \<and> flat rope' = [1, 2]
    \<and> (res = Inl NoMemory \<or> (\<exists>str. res = Inr (RStr str) \<and> units str = [1, 2]))"
  using rope_linearize [OF fixed.libc_alloc_axioms, of 2 False 1 "RStr (Str8 [1])" "RStr (Str8 [2])"]
  by (simp add: str_len_def JSI_STRING_LEN_MAX_def JSI_STRING_ROPE_MAX_DEPTH_def)

text \<open>When the allocation of a node fails during rebalancing, the failure is lost: the recursion
  ignores the status of its calls, and the text of two one-character leaves becomes the empty string
  instead of an exception.\<close>

lemma rebalance_drops_failure:
  "jsi_rebalancee_string_rope (jsi_new_string_rope (Suc fuel) (\<lambda>_. False))
     (RNode 2 False d (RStr (Str8 [x])) (RStr (Str8 [y]))) = Some (Inr (RStr (Str8 [])))"
proof -
  let ?mk = "jsi_new_string_rope (Suc fuel) (\<lambda>_. False)" and ?bk = "replicate ROPE_N_BUCKETS None :: buckets"
  have F1: "F (Suc 0) = 2" by (simp add: rope_bucket_len_def)
  have undo: "?bk[0 := Some (RStr (Str8 [x])), 0 := None] = ?bk"
    by (simp add: list_eq_iff_nth_eq nth_list_update)
  have len: "length ?bk = 44" "?bk ! 0 = None" by (simp_all add: ROPE_N_BUCKETS_def)
  have fail: "?mk (RStr (Str8 [x])) (RStr (Str8 [y])) = Some (Inl NoMemory)"
    by (simp add: rope_node_def str_len_def JSI_STRING_LEN_MAX_def)
  have collect: "rb_collect ?mk 1 0 None bk = Some (Inr (0, None, bk))" for bk
    by (subst rb_collect.simps) (simp add: F1)
  have left: "jsi_rebalancee_string_rope_rec ?mk ?bk (RStr (Str8 [x])) = Some (True, ?bk[0 := Some (RStr (Str8 [x]))])"
    using collect len by (simp add: str_len_def rope_join_def rb_carry.simps)
  have right: "jsi_rebalancee_string_rope_rec ?mk (?bk[0 := Some (RStr (Str8 [x]))]) (RStr (Str8 [y])) = Some (False, ?bk)"
    using collect len fail undo by (simp add: str_len_def rope_join_def rb_carry.simps del: list_update_overwrite)
  have "rb_final ?mk (replicate n None) None = Some (Inr None)" for n
    by (induction n) (simp_all add: rope_join_def)
  then show ?thesis using left right by (simp add: jsi_rebalancee_string_rope_def)
qed

end
