(* ===== verification/QNumber.thy ===== *)
theory QNumber
  imports QRope
begin

text \<open>
  Values and conversions of the contract engine (\<^verbatim>\<open>src/src/qjsi/quickjs_i.c\<close>, lines 4247 to 4274,
  11274 to 11451, 11878 to 12557 and 37775 to 37833). The engine has no floating point numbers: a
  number is an \<open>int64_t\<close>, here a 64-bit word read with \<open>sint\<close>.

  User code runs inside conversions (\<open>Symbol.toPrimitive\<close>, \<open>valueOf\<close>, \<open>toString\<close>). Property lookup and
  function calls are therefore a parameter, the record \<open>host\<close>, acting on a state of any type; the same
  record holds the allocators. An operation is a function from that state to an outcome and the
  new state: \<open>Ok\<close>, a thrown error, or \<open>Undef\<close> where C leaves the behaviour undefined (signed
  overflow, a read past an object, an uninitialised value, recursion without end). A value with the
  tag \<open>JSI_TAG_EXCEPTION\<close> is \<open>Throw\<close> and never an argument.
\<close>

section \<open>Values and outcomes\<close>

type_synonym i64 = "64 word"
type_synonym i32 = "32 word"

text \<open>\<open>JStr\<close> is \<open>JSI_TAG_STRING\<close> for \<open>RStr\<close> and \<open>JSI_TAG_STRING_ROPE\<close> for a node.\<close>

datatype jsi_val = JInt i64 | JBool bool | JNull | JUndefined | JUninitialized | JCatchOffset i64
  | JSymbol nat | JStr jsi_rope | JModule nat | JBytecode nat | JObject nat

datatype jsi_error = TypeError string | RangeError string | SyntaxError string | InternalError string
  | OutOfMemoryError | Thrown jsi_val

datatype 'a outcome = Ok 'a | Throw jsi_error | Undef

type_synonym ('w, 'a) act = "'w \<Rightarrow> 'a outcome \<times> 'w"

definition ret :: "'a \<Rightarrow> ('w, 'a) act" where
  "ret x = (\<lambda>w. (Ok x, w))"

definition throw :: "jsi_error \<Rightarrow> ('w, 'a) act" where
  "throw e = (\<lambda>w. (Throw e, w))"

definition undef :: "('w, 'a) act" where
  "undef = (\<lambda>w. (Undef, w))"

definition bind_act :: "('w, 'a) act \<Rightarrow> ('a \<Rightarrow> ('w, 'b) act) \<Rightarrow> ('w, 'b) act" where
  "bind_act m f = (\<lambda>w. case m w of (Ok x, w) \<Rightarrow> f x w | (Throw e, w) \<Rightarrow> (Throw e, w) | (Undef, w) \<Rightarrow> (Undef, w))"

definition lift_out :: "'a outcome \<Rightarrow> ('w, 'a) act" where
  "lift_out r = (\<lambda>w. (r, w))"

text \<open>The outcome of an operation on strings.\<close>

fun str_out :: "(str_error + 'a) option \<Rightarrow> 'a outcome" where
  "str_out None = Undef"
| "str_out (Some (Inl StringTooLong)) = Throw (InternalError ''string too long'')"
| "str_out (Some (Inl NoMemory)) = Throw OutOfMemoryError"
| "str_out (Some (Inr x)) = Ok x"

record 'w host =
  h_get :: "nat \<Rightarrow> string \<Rightarrow> ('w, jsi_val) act"
  h_is_function :: "jsi_val \<Rightarrow> 'w \<Rightarrow> bool"
  h_call :: "jsi_val \<Rightarrow> jsi_val \<Rightarrow> jsi_val list \<Rightarrow> ('w, jsi_val) act"
  h_htmldda :: "nat \<Rightarrow> 'w \<Rightarrow> bool"
  h_al :: alloc_ok
  h_ra :: str_alloc
  h_node :: node_ok
  h_ref :: "jsi_rope \<Rightarrow> nat \<times> nat"
  h_fuel :: nat

fun is_object :: "jsi_val \<Rightarrow> bool" where
  "is_object (JObject _) = True"
| "is_object _ = False"

definition ascii :: "string \<Rightarrow> bytes" where
  "ascii s = map of_char s"

text \<open>A string value from an ASCII literal (an atom of the engine).\<close>

definition atom_str :: "string \<Rightarrow> jsi_val" where
  "atom_str s = JStr (RStr (Str8 (ascii s)))"

section \<open>Conversion to a primitive and to a truth value\<close>

datatype hint = HINT_STRING | HINT_NUMBER | HINT_NONE

definition hint_name :: "hint \<Rightarrow> string" where
  "hint_name h = (case h of HINT_STRING \<Rightarrow> ''string'' | HINT_NUMBER \<Rightarrow> ''number'' | HINT_NONE \<Rightarrow> ''default'')"

text \<open>The loop over \<open>valueOf\<close> and \<open>toString\<close>.\<close>

fun try_methods :: "'w host \<Rightarrow> nat \<Rightarrow> string list \<Rightarrow> ('w, jsi_val) act" where
  "try_methods h obj [] = throw (TypeError ''toPrimitive'')"
| "try_methods h obj (name # names) =
     bind_act (h_get h obj name) (\<lambda>meth w.
       if h_is_function h meth w
       then bind_act (h_call h meth (JObject obj) []) (\<lambda>r.
              if is_object r then try_methods h obj names else ret r) w
       else try_methods h obj names w)"

definition JSI_ToPrimitiveFree :: "'w host \<Rightarrow> jsi_val \<Rightarrow> hint \<Rightarrow> bool \<Rightarrow> ('w, jsi_val) act" where
  "JSI_ToPrimitiveFree h val hnt force_ordinary =
     (case val of
        JObject obj \<Rightarrow>
          let ordinary = try_methods h obj
                (if hnt = HINT_STRING then [''toString'', ''valueOf''] else [''valueOf'', ''toString'']) in
          if force_ordinary then ordinary
          else bind_act (h_get h obj ''Symbol.toPrimitive'') (\<lambda>meth.
                 if meth \<noteq> JUndefined \<and> meth \<noteq> JNull
                 then bind_act (h_call h meth val [atom_str (hint_name hnt)]) (\<lambda>r.
                        if is_object r then throw (TypeError ''toPrimitive'') else ret r)
                 else ordinary)
      | _ \<Rightarrow> ret val)"

definition JSI_ToBoolFree :: "'w host \<Rightarrow> jsi_val \<Rightarrow> 'w \<Rightarrow> bool" where
  "JSI_ToBoolFree h val w =
     (case val of
        JInt n \<Rightarrow> n \<noteq> 0
      | JBool b \<Rightarrow> b
      | JNull \<Rightarrow> False
      | JUndefined \<Rightarrow> False
      | JStr r \<Rightarrow> string_rope_get_len r \<noteq> 0
      | JObject obj \<Rightarrow> \<not> h_htmldda h obj w
      | _ \<Rightarrow> True)"

section \<open>Scanning numbers\<close>

definition is_digit :: "u8 \<Rightarrow> bool" where
  "is_digit c \<longleftrightarrow> 0x30 \<le> c \<and> c \<le> 0x39"

definition to_digit :: "u8 \<Rightarrow> nat" where
  "to_digit c =
     (if 0x30 \<le> c \<and> c \<le> 0x39 then unat c - 0x30
      else if 0x41 \<le> c \<and> c \<le> 0x5A then unat c - 0x41 + 10
      else if 0x61 \<le> c \<and> c \<le> 0x7A then unat c - 0x61 + 10
      else 36)"

text \<open>White space: the bits of \<open>lre_jsi_ctype_bits\<close> below 256 and the ranges of \<open>char_range_s\<close> above.\<close>

definition lre_jsi_is_space_byte :: "u32 \<Rightarrow> bool" where
  "lre_jsi_is_space_byte c \<longleftrightarrow> 9 \<le> c \<and> c \<le> 13 \<or> c = 0x20 \<or> c = 0xA0"

definition char_range_s :: "(u32 \<times> u32) list" where
  "char_range_s = [(0x0009, 0x000D + 1), (0x0020, 0x0020 + 1), (0x00A0, 0x00A0 + 1), (0x1680, 0x1680 + 1),
     (0x2000, 0x200A + 1), (0x2028, 0x2029 + 1), (0x202F, 0x202F + 1), (0x205F, 0x205F + 1),
     (0x3000, 0x3000 + 1), (0xFEFF, 0xFEFF + 1)]"

fun range_scan :: "(u32 \<times> u32) list \<Rightarrow> u32 \<Rightarrow> bool" where
  "range_scan [] c = False"
| "range_scan ((low, high) # rs) c = (if c < low then False else if c < high then True else range_scan rs c)"

definition lre_jsi_is_space_non_ascii :: "u32 \<Rightarrow> bool" where
  "lre_jsi_is_space_non_ascii c = range_scan (drop 2 char_range_s) c"

definition lre_jsi_is_space :: "u32 \<Rightarrow> bool" where
  "lre_jsi_is_space c = (if c < 256 then lre_jsi_is_space_byte c else lre_jsi_is_space_non_ascii c)"

text \<open>\<open>skip_spaces\<close> on a NUL-terminated string: the rest of it, or \<open>None\<close> for a read past the end.\<close>

definition c_space :: "u8 \<Rightarrow> bool" where
  "c_space c \<longleftrightarrow> 0x09 \<le> c \<and> c \<le> 0x0d \<or> c = 0x20"

function skip_spaces :: "bytes \<Rightarrow> bytes option" where
  "skip_spaces [] = None"
| "skip_spaces (b # p) =
     (if b < 128 then (if c_space b then skip_spaces p else Some (b # p))
      else (case unicode_jsi_from_utf8 (b # p) 6 of
              None \<Rightarrow> None
            | Some None \<Rightarrow> Some (b # p)
            | Some (Some (c, q)) \<Rightarrow> if lre_jsi_is_space c then skip_spaces q else Some (b # p)))"
  by pat_completeness auto
termination by (relation "measure length") (auto dest: from_utf8_shorter)

text \<open>\<open>strtoll\<close> of the C library: white space, a sign, the prefix of base 0 or 16, the longest sequence
  of digits; the value, the rest of the string (all of it when nothing was converted) and \<open>ERANGE\<close>.\<close>

fun digits_value :: "nat \<Rightarrow> int \<Rightarrow> bytes \<Rightarrow> int \<times> bytes" where
  "digits_value base acc [] = (acc, [])"
| "digits_value base acc (c # cs) =
     (if to_digit c < base then digits_value base (acc * int base + int (to_digit c)) cs else (acc, c # cs))"

definition c_sign :: "bytes \<Rightarrow> bool \<times> bytes" where
  "c_sign s = (case s of c # cs \<Rightarrow> if c = 0x2D then (True, cs) else if c = 0x2B then (False, cs) else (False, s)
                | [] \<Rightarrow> (False, s))"

definition c_base :: "nat \<Rightarrow> bytes \<Rightarrow> nat \<times> bytes" where
  "c_base base s =
     (case s of
        z # x # d # cs \<Rightarrow>
          if (base = 0 \<or> base = 16) \<and> z = 0x30 \<and> (x = 0x78 \<or> x = 0x58) \<and> to_digit d < 16 then (16, d # cs)
          else (if base \<noteq> 0 then base else if z = 0x30 then 8 else 10, s)
      | z # cs \<Rightarrow> (if base \<noteq> 0 then base else if z = 0x30 then 8 else 10, s)
      | [] \<Rightarrow> (base, s))"

definition strtoll :: "bytes \<Rightarrow> nat \<Rightarrow> int \<times> bytes \<times> bool" where
  "strtoll str base =
     (case c_sign (dropWhile c_space str) of (neg, s) \<Rightarrow>
      case c_base base s of (b, s) \<Rightarrow>
      case digits_value b 0 s of (v, rest) \<Rightarrow>
        if length rest = length s then (0, str, False)
        else let v = (if neg then - v else v) in
          if v < - 0x8000000000000000 then (- 0x8000000000000000, rest, True)
          else if v > 0x7FFFFFFFFFFFFFFF then (0x7FFFFFFFFFFFFFFF, rest, True)
          else (v, rest, False))"

definition jsi_atof2 :: "bytes \<Rightarrow> nat \<Rightarrow> (i64 \<times> bytes) outcome" where
  "jsi_atof2 str radix =
     (case strtoll str radix of (d, rest, erange) \<Rightarrow>
        if length rest = length str then Throw (SyntaxError ''invalid number literal'')
        else if erange then Throw (RangeError ''number too large'')
        else Ok (word_of_int d, rest))"

text \<open>The general scanner. Positions are indices into the string; \<open>rd\<close> reads the terminating NUL at its
  end, and a position only moves past a byte that is not NUL.\<close>

datatype atod_type = ATOD_TYPE_FLOAT64 | ATOD_TYPE_BIG_INT

record atod_flags =
  INT_ONLY :: bool
  BIN_OCT :: bool
  LEGACY_OCTAL :: bool
  UNDERSCORES :: bool
  SUFFIX :: bool
  atod_type :: atod_type
  PREFIX_AFTER_SIGN :: bool

definition rd :: "bytes \<Rightarrow> nat \<Rightarrow> u8" where
  "rd str i = (if i < length str then str ! i else 0)"

definition is_sep :: "bool \<Rightarrow> u8 \<Rightarrow> bool" where
  "is_sep sep c \<longleftrightarrow> sep \<and> c = 0x5F"

function scan_while :: "(nat \<Rightarrow> bool) \<Rightarrow> bytes \<Rightarrow> nat \<Rightarrow> nat" where
  "scan_while P str i = (if i < length str \<and> P i then scan_while P str (i + 1) else i)"
  by pat_completeness auto
termination by (relation "measure (\<lambda>(_, str, i). length str - i)") auto

declare scan_while.simps [simp del]

text \<open>Sign, prefix and radix: \<open>Inl\<close> is the label \<open>fail\<close> with its position. The result is the sign, the radix, whether a
  separator is allowed, the position and whether the value is \<open>Infinity\<close>.\<close>

definition atof_no_radix_prefix :: "atod_flags \<Rightarrow> bytes \<Rightarrow> nat \<Rightarrow> bool" where
  "atof_no_radix_prefix fl str p \<longleftrightarrow>
     \<not> INT_ONLY fl \<and> atod_type fl = ATOD_TYPE_FLOAT64 \<and> take 8 (drop p str) = ascii ''Infinity''"

definition atof_prefix :: "atod_flags \<Rightarrow> bytes \<Rightarrow> nat \<Rightarrow> nat + bool \<times> nat \<times> bool \<times> nat \<times> bool" where
  "atof_prefix fl str radix =
     (let c = rd str 0; neg = (c = 0x2D); signed = (c = 0x2B \<or> neg); p = (if signed then 1 else 0);
          sep = UNDERSCORES fl; x = rd str (p + 1) in
      if (signed \<and> \<not> PREFIX_AFTER_SIGN fl) \<or> rd str p \<noteq> 0x30
      then (if atof_no_radix_prefix fl str p then Inr (neg, radix, sep, p + 8, True)
            else Inr (neg, if radix = 0 then 10 else radix, sep, p, False))
      else
        let checked = (\<lambda>r q sep. if to_digit (rd str q) \<ge> r then Inl q else Inr (neg, r, sep, q, False)) in
        if (x = 0x78 \<or> x = 0x58) \<and> (radix = 0 \<or> radix = 16) then checked 16 (p + 2) sep
        else if (x = 0x6F \<or> x = 0x4F) \<and> radix = 0 \<and> BIN_OCT fl then checked 8 (p + 2) sep
        else if (x = 0x62 \<or> x = 0x42) \<and> radix = 0 \<and> BIN_OCT fl then checked 2 (p + 2) sep
        else if is_digit x \<and> radix = 0 \<and> LEGACY_OCTAL fl
        then (let i = scan_while (\<lambda>i. 0x30 \<le> rd str i \<and> rd str i \<le> 0x37) str (p + 1) in
              if rd str i = 0x38 \<or> rd str i = 0x39 then Inr (neg, 10, False, p, False)
              else checked 8 (p + 1) False)
        else Inr (neg, if radix = 0 then 10 else radix, sep, p, False))"

text \<open>Digits, fraction and exponent: the end of the number and whether it looks like a float.\<close>

definition atof_int_digits :: "bytes \<Rightarrow> nat \<Rightarrow> bool \<Rightarrow> nat \<Rightarrow> nat" where
  "atof_int_digits str radix sep start =
     scan_while (\<lambda>i. to_digit (rd str i) < radix
       \<or> is_sep sep (rd str i) \<and> (radix \<noteq> 10 \<or> i \<noteq> start + 1 \<or> rd str (i - 1) \<noteq> 0x30)
          \<and> to_digit (rd str (i + 1)) < radix) str start"

definition atof_fraction :: "bytes \<Rightarrow> nat \<Rightarrow> bool \<Rightarrow> nat \<Rightarrow> nat \<Rightarrow> (nat \<times> bool) option" where
  "atof_fraction str radix sep start p =
     (if rd str p = 0x2E \<and> (p > start \<or> to_digit (rd str (p + 1)) < radix)
      then if is_sep sep (rd str (p + 1)) then None
           else Some (scan_while (\<lambda>i. to_digit (rd str i) < radix
                  \<or> is_sep sep (rd str i) \<and> to_digit (rd str (i + 1)) < radix) str (p + 1), True)
      else Some (p, False))"

definition atof_exponent :: "bytes \<Rightarrow> nat \<Rightarrow> bool \<Rightarrow> nat \<Rightarrow> nat \<Rightarrow> bool \<Rightarrow> nat \<times> bool" where
  "atof_exponent str radix sep start p is_float =
     (let c = rd str p in
      if p > start \<and> ((c = 0x65 \<or> c = 0x45) \<and> radix = 10
           \<or> (c = 0x70 \<or> c = 0x50) \<and> (radix = 2 \<or> radix = 8 \<or> radix = 16))
      then let p1 = p + 1; p1 = (if rd str p1 = 0x2B \<or> rd str p1 = 0x2D then p1 + 1 else p1) in
           (if is_digit (rd str p1)
            then scan_while (\<lambda>i. is_digit (rd str i) \<or> is_sep sep (rd str i) \<and> is_digit (rd str (i + 1))) str (p1 + 1)
            else p, True)
      else (p, is_float))"

text \<open>The value and the final position. \<open>Undef\<close> is the uninitialised \<open>val\<close> of the big-integer type.
  \<open>mem\<close> tells whether a buffer for a number of more than 62 characters can be allocated.\<close>

definition jsi_atof :: "(nat \<Rightarrow> bool) \<Rightarrow> bytes \<Rightarrow> nat \<Rightarrow> atod_flags \<Rightarrow> (jsi_val \<times> nat) outcome" where
  "jsi_atof mem str radix fl =
     (case atof_prefix fl str radix of
        Inl p \<Rightarrow> Ok (JUndefined, p)
      | Inr (neg, radix, sep, start, True) \<Rightarrow> Ok (JInt (if neg then -1 else 1), start)
      | Inr (neg, radix, sep, start, False) \<Rightarrow>
          let p = atof_int_digits str radix sep start in
          (case (if INT_ONLY fl then Some (p, False)
                 else map_option (\<lambda>(p, is_float). atof_exponent str radix sep start p is_float)
                        (atof_fraction str radix sep start p)) of
             None \<Rightarrow> Ok (JUndefined, p + 1)
           | Some (p, is_float) \<Rightarrow>
               if p = start then Ok (JUndefined, p)
               else if p - start + 2 > 64 \<and> \<not> mem (p - start + 2) then Throw OutOfMemoryError
               else
                 let buf = (if neg then [0x2D] else []) @ filter (\<lambda>c. c \<noteq> 0x5F) (take (p - start) (drop start str)) @ [0];
                     big = (SUFFIX fl \<and> rd str p = 0x6E) in
                 if \<not> big \<and> (SUFFIX fl \<or> atod_type fl = ATOD_TYPE_FLOAT64) \<and> is_float \<and> radix \<noteq> 10
                 then Ok (JUndefined, p)
                 else if big \<or> atod_type fl = ATOD_TYPE_BIG_INT then Undef
                 else (case strtoll buf radix of (d, rest, erange) \<Rightarrow>
                    if length rest = length buf then Throw (SyntaxError ''invalid number literal'')
                    else if erange then Throw (RangeError ''number too large'')
                    else Ok (JInt (word_of_int d), p))))"

section \<open>Printing\<close>

function u64_digits :: "u64 \<Rightarrow> bytes" where
  "u64_digits u = (0x30 + ucast (u mod 10)) # (if u div 10 > 0 then u64_digits (u div 10) else [])"
  by pat_completeness auto
termination
proof (relation "measure unat", simp)
  fix u :: u64
  assume "u div 10 > 0"
  then have "0 < unat u div 10" by (simp add: word_less_nat_alt unat_div)
  then show "(u div 10, u) \<in> measure unat" by (simp add: unat_div)
qed

declare u64_digits.simps [simp del]

definition u64toa2 :: "i64 \<Rightarrow> bytes" where
  "u64toa2 n =
     (if sint n < 0 then 0x2D # rev (u64_digits (- (n + 1) + 1)) else rev (u64_digits n))"

section \<open>Conversion to a string\<close>

definition string8 :: "'w host \<Rightarrow> bytes \<Rightarrow> jsi_val outcome" where
  "string8 h bs = str_out (map_option (map_sum id (\<lambda>p. JStr (RStr p))) (jsi_new_string8_len (h_al h) bs (length bs)))"

text \<open>The cases of \<open>JSI_ToStringInternal\<close> for values that are not objects. A rope is shared (the caller
  keeps its reference).\<close>

definition to_string_prim :: "'w host \<Rightarrow> jsi_val \<Rightarrow> bool \<Rightarrow> jsi_val outcome" where
  "to_string_prim h val is_ToPropertyKey =
     (case val of
        JStr (RStr p) \<Rightarrow> Ok val
      | JStr r \<Rightarrow> str_out (map_option (\<lambda>(res, _). map_sum id JStr res) (jsi_linearize_string_rope (h_ra h) True r))
      | JInt n \<Rightarrow> string8 h (u64toa2 n)
      | JBool b \<Rightarrow> Ok (atom_str (if b then ''true'' else ''false''))
      | JNull \<Rightarrow> Ok (atom_str ''null'')
      | JUndefined \<Rightarrow> Ok (atom_str ''undefined'')
      | JBytecode _ \<Rightarrow> string8 h (ascii ''[function bytecode]'')
      | JSymbol _ \<Rightarrow> if is_ToPropertyKey then Ok val else Throw (TypeError ''cannot convert symbol to string'')
      | _ \<Rightarrow> string8 h (ascii ''[unsupported type]''))"

definition JSI_ToStringInternal :: "'w host \<Rightarrow> jsi_val \<Rightarrow> bool \<Rightarrow> ('w, jsi_val) act" where
  "JSI_ToStringInternal h val is_ToPropertyKey =
     bind_act (JSI_ToPrimitiveFree h val HINT_STRING False) (\<lambda>v. lift_out (to_string_prim h v is_ToPropertyKey))"

definition JSI_ToString :: "'w host \<Rightarrow> jsi_val \<Rightarrow> ('w, jsi_val) act" where
  "JSI_ToString h val = JSI_ToStringInternal h val False"

text \<open>The bytes of \<open>JSI_ToCStringLen\<close> on any value.\<close>

definition to_c_string :: "'w host \<Rightarrow> jsi_val \<Rightarrow> ('w, bytes) act" where
  "to_c_string h val =
     bind_act (case val of JStr (RStr p) \<Rightarrow> ret val | _ \<Rightarrow> JSI_ToString h val) (\<lambda>v.
       case v of JStr (RStr p) \<Rightarrow> lift_out (str_out (JSI_ToCStringLen2 (h_al h) False p)) | _ \<Rightarrow> undef)"

section \<open>Conversion to a number\<close>

text \<open>A C string to a number: spaces, \<open>strtoll\<close> in base 0, spaces, and nothing else.\<close>

definition string_to_number :: "bytes \<Rightarrow> jsi_val outcome" where
  "string_to_number str =
     (case skip_spaces (str @ [0]) of
        None \<Rightarrow> Undef
      | Some p \<Rightarrow>
          if length p = 1 then Ok (JInt 0)
          else (case jsi_atof2 p 0 of
                  Ok (d, rest) \<Rightarrow>
                    (case skip_spaces rest of
                       None \<Rightarrow> Undef
                     | Some rest \<Rightarrow> Ok (if length rest \<noteq> 1 then JUndefined else JInt d))
                | Throw e \<Rightarrow> Throw e
                | Undef \<Rightarrow> Undef))"

text \<open>The cases of \<open>JSI_ToNumberHintFree\<close> for values that are not objects; the hint is not used.\<close>

definition to_number_prim :: "'w host \<Rightarrow> jsi_val \<Rightarrow> ('w, jsi_val) act" where
  "to_number_prim h val =
     (case val of
        JInt n \<Rightarrow> ret val
      | JBool b \<Rightarrow> ret (JInt (if b then 1 else 0))
      | JNull \<Rightarrow> ret (JInt 0)
      | JUndefined \<Rightarrow> ret JUndefined
      | JStr r \<Rightarrow> bind_act (to_c_string h val) (\<lambda>str. lift_out (string_to_number str))
      | JSymbol _ \<Rightarrow> throw (TypeError ''cannot convert symbol to number'')
      | _ \<Rightarrow> ret JUndefined)"

definition JSI_ToNumberFree :: "'w host \<Rightarrow> jsi_val \<Rightarrow> ('w, jsi_val) act" where
  "JSI_ToNumberFree h val =
     (if is_object val then bind_act (JSI_ToPrimitiveFree h val HINT_NUMBER False) (to_number_prim h)
      else to_number_prim h val)"

text \<open>\<open>JSI_VALUE_GET_INT\<close> for the tags the conversions accept; the label \<open>redo\<close> is reached with the result
  of \<open>JSI_ToNumberFree\<close>.\<close>

fun get_int :: "jsi_val \<Rightarrow> i64 option" where
  "get_int (JInt n) = Some n"
| "get_int (JBool b) = Some (if b then 1 else 0)"
| "get_int JNull = Some 0"
| "get_int JUndefined = Some 0"
| "get_int _ = None"

definition JSI_ToInt64Free :: "'w host \<Rightarrow> jsi_val \<Rightarrow> ('w, i64) act" where
  "JSI_ToInt64Free h val =
     (case get_int val of
        Some n \<Rightarrow> ret n
      | None \<Rightarrow> bind_act (JSI_ToNumberFree h val) (\<lambda>v. case get_int v of Some n \<Rightarrow> ret n | None \<Rightarrow> undef))"

definition JSI_ToIntegerFree :: "'w host \<Rightarrow> jsi_val \<Rightarrow> ('w, jsi_val) act" where
  "JSI_ToIntegerFree h val = bind_act (JSI_ToInt64Free h val) (\<lambda>n. ret (JInt n))"

definition JSI_ToInt64SatFree :: "'w host \<Rightarrow> jsi_val \<Rightarrow> ('w, i64) act" where
  "JSI_ToInt64SatFree h val = JSI_ToInt64Free h val"

text \<open>The 32-bit variants store the 64-bit value in an \<open>int\<close>.\<close>

definition JSI_ToInt32Free :: "'w host \<Rightarrow> jsi_val \<Rightarrow> ('w, i32) act" where
  "JSI_ToInt32Free h val = bind_act (JSI_ToInt64Free h val) (\<lambda>n. ret (ucast n))"

definition JSI_ToInt32SatFree :: "'w host \<Rightarrow> jsi_val \<Rightarrow> ('w, i32) act" where
  "JSI_ToInt32SatFree h val = bind_act (JSI_ToInt64Free h val) (\<lambda>n. ret (ucast n))"

text \<open>Signed addition: \<open>Undef\<close> on overflow.\<close>

definition add_checked :: "int \<Rightarrow> int \<Rightarrow> int \<Rightarrow> int outcome" where
  "add_checked lim a b = (if - lim \<le> a + b \<and> a + b < lim then Ok (a + b) else Undef)"

definition JSI_ToInt32Clamp :: "'w host \<Rightarrow> jsi_val \<Rightarrow> int \<Rightarrow> int \<Rightarrow> int \<Rightarrow> ('w, int) act" where
  "JSI_ToInt32Clamp h val min_v max_v min_offset =
     bind_act (JSI_ToInt32SatFree h val) (\<lambda>n.
       if sint n < min_v
       then bind_act (lift_out (add_checked 0x80000000 (sint n) min_offset)) (\<lambda>v. ret (if v < min_v then min_v else v))
       else ret (if sint n > max_v then max_v else sint n))"

definition JSI_ToInt64Clamp :: "'w host \<Rightarrow> jsi_val \<Rightarrow> int \<Rightarrow> int \<Rightarrow> int \<Rightarrow> ('w, int) act" where
  "JSI_ToInt64Clamp h val min_v max_v neg_offset =
     bind_act (JSI_ToInt64SatFree h val) (\<lambda>n.
       bind_act (if sint n < 0 then lift_out (add_checked 0x8000000000000000 (sint n) neg_offset) else ret (sint n)) (\<lambda>v.
         ret (if v < min_v then min_v else if v > max_v then max_v else v)))"

definition JSI_ToUint8ClampFree :: "'w host \<Rightarrow> jsi_val \<Rightarrow> ('w, int) act" where
  "JSI_ToUint8ClampFree h val = bind_act (JSI_ToInt32Free h val) (\<lambda>n. ret (max 0 (min 255 (sint n))))"

text \<open>The length of an array. The recursive call is bounded by fuel: C calls itself without bound when
  the conversion to a number gives \<open>undefined\<close>.\<close>

fun array_len_int :: "jsi_val \<Rightarrow> i64 option" where
  "array_len_int (JInt n) = Some n"
| "array_len_int (JBool b) = Some (if b then 1 else 0)"
| "array_len_int JNull = Some 0"
| "array_len_int _ = None"

definition invalid_array_length :: "('w, 'a) act" where
  "invalid_array_length = throw (RangeError ''invalid array length'')"

primrec JSI_ToArrayLengthFree :: "nat \<Rightarrow> 'w host \<Rightarrow> jsi_val \<Rightarrow> bool \<Rightarrow> ('w, u32) act" where
  "JSI_ToArrayLengthFree 0 h val is_array_ctor = undef"
| "JSI_ToArrayLengthFree (Suc fuel) h val is_array_ctor =
     (case array_len_int val of
        Some n \<Rightarrow> if sint (ucast n :: i32) < 0 then invalid_array_length else ret (ucast n)
      | None \<Rightarrow>
          if is_array_ctor
          then bind_act (JSI_ToNumberFree h val) (\<lambda>v. JSI_ToArrayLengthFree fuel h v True)
          else bind_act (JSI_ToInt32Free h val) (\<lambda>len.
                 bind_act (JSI_ToNumberFree h val) (\<lambda>v.
                   bind_act (JSI_ToArrayLengthFree fuel h v False) (\<lambda>len1.
                     if len1 \<noteq> len then invalid_array_length else ret len))))"

definition MAX_SAFE_INTEGER :: int where "MAX_SAFE_INTEGER = 2 ^ 53 - 1"

definition JSI_ToIndex :: "'w host \<Rightarrow> jsi_val \<Rightarrow> ('w, u64) act" where
  "JSI_ToIndex h val =
     bind_act (JSI_ToInt64SatFree h val) (\<lambda>v.
       if sint v < 0 \<or> sint v > MAX_SAFE_INTEGER then throw (RangeError ''invalid array index'') else ret v)"

definition JSI_ToLengthFree :: "'w host \<Rightarrow> jsi_val \<Rightarrow> ('w, int) act" where
  "JSI_ToLengthFree h val = JSI_ToInt64Clamp h val 0 MAX_SAFE_INTEGER 0"

definition JSI_NumberIsNegativeOrMinusZero :: "jsi_val \<Rightarrow> bool" where
  "JSI_NumberIsNegativeOrMinusZero val = (case val of JInt n \<Rightarrow> sint (ucast n :: i32) < 0 | _ \<Rightarrow> False)"

text \<open>\<open>parseInt(string, radix)\<close>.\<close>

definition parse_flags :: atod_flags where
  "parse_flags = \<lparr>INT_ONLY = True, BIN_OCT = False, LEGACY_OCTAL = False, UNDERSCORES = False, SUFFIX = False,
     atod_type = ATOD_TYPE_FLOAT64, PREFIX_AFTER_SIGN = True\<rparr>"

definition parse_int_bytes :: "(nat \<Rightarrow> bool) \<Rightarrow> bytes \<Rightarrow> nat \<Rightarrow> jsi_val outcome" where
  "parse_int_bytes mem str radix =
     (case skip_spaces (str @ [0]) of
        None \<Rightarrow> Undef
      | Some p \<Rightarrow>
          let effective = (if radix = 0 then (if rd p 0 = 0x30 \<and> (rd p 1 = 0x78 \<or> rd p 1 = 0x58) then 16 else 10) else radix) in
          (case strtoll p effective of (_, rest, erange) \<Rightarrow>
             if length rest = length p then Throw (TypeError ''parseInt: invalid number'')
             else if erange then Throw (RangeError ''parseInt: number too large'')
             else if rd (dropWhile (\<lambda>c. c = 0x20 \<or> c = 9 \<or> c = 10 \<or> c = 13) rest) 0 \<noteq> 0
             then Throw (TypeError ''parseInt: trailing garbage'')
             else (case jsi_atof mem p radix parse_flags of
                     Ok (v, _) \<Rightarrow> Ok v | Throw e \<Rightarrow> Throw e | Undef \<Rightarrow> Undef)))"

definition jsi_parseInt :: "'w host \<Rightarrow> (nat \<Rightarrow> bool) \<Rightarrow> jsi_val \<Rightarrow> jsi_val \<Rightarrow> ('w, jsi_val) act" where
  "jsi_parseInt h mem arg radix =
     bind_act (to_c_string h arg) (\<lambda>str.
       bind_act (JSI_ToInt64Free h radix) (\<lambda>r.
         if sint r \<noteq> 0 \<and> (sint r < 2 \<or> sint r > 36)
         then throw (RangeError ''parseInt: radix must be 0 or 2..36'')
         else lift_out (parse_int_bytes mem str (nat (sint r)))))"

section \<open>Signed words\<close>

lemma sint64_eq: "sint (n :: i64) = (if uint n < 2 ^ 63 then uint n else uint n - 2 ^ 64)"
proof -
  have "sint n = (uint n + 2 ^ 63) mod 2 ^ 64 - 2 ^ 63"
    using int_word_sint [of "uint n", where ?'a = 64] by simp
  moreover have "0 \<le> uint n" "uint n < 2 ^ 64" using uint_lt2p [of n] by simp_all
  moreover have "(uint n + 2 ^ 63) mod 2 ^ 64 = uint n - 2 ^ 63" if "\<not> uint n < 2 ^ 63"
    using that uint_lt2p [of n] by (subst minus_mod_self2 [symmetric]) simp
  ultimately show ?thesis by simp
qed

lemma sint64_of_int: "- 0x8000000000000000 \<le> x \<Longrightarrow> x < 0x8000000000000000 \<Longrightarrow> sint (word_of_int x :: i64) = x"
  using int_word_sint [of x, where ?'a = 64] by simp

lemma sint64_range: "- 0x8000000000000000 \<le> sint (n :: i64)" "sint (n :: i64) < 0x8000000000000000"
  using sint_range_size [of n] by (simp_all add: word_size)

lemma word_of_sint [simp]: "word_of_int (sint (n :: i64)) = n"
  by (simp flip: scast_eq)

section \<open>Decimal digits\<close>

definition decimal :: "bytes \<Rightarrow> bool" where
  "decimal ds \<longleftrightarrow> list_all is_digit ds"

lemma to_digit_dec: "m < 10 \<Longrightarrow> to_digit (0x30 + word_of_nat m) = m \<and> is_digit (0x30 + word_of_nat m)"
proof -
  assume "m < 10"
  then have "unat (0x30 + word_of_nat m :: u8) = 0x30 + m"
    by (simp add: unat_word_ariths unat_of_nat)
  then show ?thesis using \<open>m < 10\<close> by (simp add: to_digit_def is_digit_def word_le_nat_alt)
qed

lemma u64_digit: "0x30 + ucast (u mod 10 :: u64) = (0x30 + word_of_nat (unat u mod 10) :: u8)"
proof -
  have "unat (u mod 10) = unat u mod 10" by (simp add: unat_mod)
  then show ?thesis using of_nat_unat [of "u mod 10"] by metis
qed

lemma u64_digits_unfold:
  "u64_digits u = (0x30 + word_of_nat (unat u mod 10)) # (if unat u div 10 > 0 then u64_digits (u div 10) else [])"
  by (subst u64_digits.simps) (simp add: u64_digit word_less_nat_alt unat_div)

lemma u64_digits_decimal: "decimal (u64_digits u)"
proof (induction u rule: u64_digits.induct)
  case (1 u)
  then show ?case
    by (subst u64_digits_unfold) (auto simp: decimal_def to_digit_dec word_less_nat_alt unat_div)
qed

lemma digits_value_append:
  "list_all (\<lambda>c. to_digit c < base) ds \<Longrightarrow>
   digits_value base acc (ds @ rest) = digits_value base (foldl (\<lambda>a c. a * int base + int (to_digit c)) acc ds) rest"
  by (induction ds arbitrary: acc) auto

lemma decimal_digits: "decimal ds \<Longrightarrow> list_all (\<lambda>c. to_digit c < 10) ds"
proof (induction ds)
  case (Cons c ds)
  then show ?case by (auto simp: decimal_def is_digit_def to_digit_def word_le_nat_alt)
qed simp

lemma u64_digits_value: "foldl (\<lambda>a c. a * 10 + int (to_digit c)) 0 (rev (u64_digits u)) = int (unat u)"
proof (induction u rule: u64_digits.induct)
  case (1 u)
  have "int (unat u div 10) * 10 + int (unat u mod 10) = int (unat u)"
    by (metis div_mult_mod_eq of_nat_add of_nat_mult of_nat_numeral)
  then show ?case using 1
    by (subst u64_digits_unfold) (auto simp: to_digit_dec word_less_nat_alt unat_div simp flip: of_nat_div)
qed

lemma u64_digits_ne: "u64_digits u \<noteq> []"
  by (subst u64_digits_unfold) simp

lemma u64_digits_last: "0 < u \<Longrightarrow> last (u64_digits u) \<noteq> 0x30"
proof (induction u rule: u64_digits.induct)
  case (1 u)
  show ?case
  proof (cases "unat u div 10 > 0")
    case True
    then have "last (u64_digits u) = last (u64_digits (u div 10))"
      by (subst u64_digits_unfold) (simp add: u64_digits_ne)
    then show ?thesis using 1 True by (simp add: word_less_nat_alt unat_div)
  next
    case False
    then have m: "unat u mod 10 = unat u" "unat u < 10" by (auto simp: div_eq_0_iff)
    then have "to_digit (0x30 + word_of_nat (unat u)) \<noteq> to_digit 0x30"
      using to_digit_dec [of "unat u"] to_digit_dec [of 0] 1(2) by (simp add: word_less_nat_alt)
    then show ?thesis using False m by (subst u64_digits_unfold) auto
  qed
qed

lemma digit_not: "is_digit c \<Longrightarrow> c \<noteq> 0x2D \<and> c \<noteq> 0x2B \<and> \<not> c_space c \<and> c < 128"
  by (auto simp: is_digit_def c_space_def word_le_nat_alt word_less_nat_alt)

text \<open>The digits of a number, most significant first, as the scanners see them.\<close>

lemma u64_digits_head:
  obtains c cs where "rev (u64_digits u) = c # cs" "is_digit c" "decimal cs" "c = 0x30 \<longrightarrow> u = 0 \<and> cs = []"
proof -
  obtain c cs where r: "rev (u64_digits u) = c # cs"
    by (cases "rev (u64_digits u)") (subst (asm) u64_digits_unfold, auto)
  then have d: "is_digit c" "decimal cs" using u64_digits_decimal [of u]
    by (simp_all add: decimal_def list_all_iff flip: set_rev [of "u64_digits u"])
  have "c = last (u64_digits u)" using r by (metis last_rev list.sel(1) rev_rev_ident hd_rev)
  then have "c = 0x30 \<longrightarrow> u = 0" using u64_digits_last [of u] word_neq_0_conv by metis
  moreover have "u = 0 \<Longrightarrow> cs = []" using r u64_digits_unfold [of 0] by simp
  ultimately show ?thesis using that r d by blast
qed

lemma c_base_decimal:
  assumes "c = 0x30 \<longrightarrow> cs = []"
  shows "c_base 0 (c # cs @ [0]) = (if c = 0x30 then 8 else 10, c # cs @ [0])"
    and "c_base 10 (c # cs @ [0]) = (10, c # cs @ [0])"
  using assms by (cases cs; cases "tl cs"; auto simp: c_base_def)+

lemma strtoll_digits:
  assumes "base = 0 \<or> base = 10" and neg: "neg \<longrightarrow> int (unat u) \<le> 0x8000000000000000" "\<not> neg \<longrightarrow> int (unat u) < 0x8000000000000000"
  shows "strtoll ((if neg then [0x2D] else []) @ rev (u64_digits u) @ [0]) base
    = (if neg then - int (unat u) else int (unat u), [0], False)"
proof -
  obtain c cs where c: "rev (u64_digits u) = c # cs" "is_digit c" "decimal cs" "c = 0x30 \<longrightarrow> u = 0 \<and> cs = []"
    by (rule u64_digits_head)
  define b where "b = fst (c_base base (c # cs @ [0]))"
  have cb: "c_base base (c # cs @ [0]) = (b, c # cs @ [0])" "b = 10 \<or> b = 8 \<and> c = 0x30"
    using c_base_decimal [of c cs] assms(1) c(4) by (auto simp: b_def split: if_splits)
  have sign: "c_sign (dropWhile c_space ((if neg then [0x2D] else []) @ c # cs @ [0])) = (neg, c # cs @ [0])"
    using digit_not [OF c(2)] by (auto simp: c_sign_def c_space_def)
  have z: "to_digit 0 = 36" by (simp add: to_digit_def)
  have val: "digits_value b 0 (c # cs @ [0]) = (int (unat u), [0])"
  proof (cases "c = 0x30")
    case True
    then show ?thesis using c(4) cb(2) z by (auto simp: to_digit_def)
  next
    case False
    then have b: "b = 10" using cb by blast
    have "list_all (\<lambda>c. to_digit c < 10) (c # cs)" using decimal_digits [of "c # cs"] c(2,3) by (simp add: decimal_def)
    from digits_value_append [OF this, of 0 "[0]"] show ?thesis
      using u64_digits_value [of u] c(1) b z by simp
  qed
  define v where "v = int (unat u)"
  have v: "0 \<le> v" "neg \<longrightarrow> v \<le> 0x8000000000000000" "\<not> neg \<longrightarrow> v < 0x8000000000000000"
    using neg unfolding v_def by linarith+
  show ?thesis using sign cb(1) val v unfolding strtoll_def c(1) v_def [symmetric]
    by (auto simp: Let_def simp del: digits_value.simps dropWhile.simps)
qed

lemma u64toa2_shape:
  "\<exists>neg u. u64toa2 n = (if neg then [0x2D] else []) @ rev (u64_digits u)
     \<and> (if neg then - int (unat u) else int (unat u)) = sint n
     \<and> (neg \<longrightarrow> int (unat u) \<le> 0x8000000000000000) \<and> (\<not> neg \<longrightarrow> int (unat u) < 0x8000000000000000)"
proof (cases "sint n < 0")
  case True
  then have "uint (- n) = - sint n" using sint64_eq [of n] uint_lt2p [of n]
    by (simp add: uint_word_ariths zmod_zminus1_eq_if split: if_splits)
  then have "- int (unat (- n)) = sint n" by simp
  then show ?thesis using True sint64_range(1) [of n] by (intro exI [of _ True] exI [of _ "- n"]) (auto simp: u64toa2_def)
next
  case False
  then have "int (unat n) = sint n" using sint64_eq [of n] uint_lt2p [of n] by (simp split: if_splits)
  then show ?thesis using False sint64_range(2) [of n] by (intro exI [of _ False] exI [of _ n]) (auto simp: u64toa2_def)
qed

lemma skip_spaces_number: "skip_spaces (u64toa2 n @ [0]) = Some (u64toa2 n @ [0])"
proof -
  obtain neg u where n: "u64toa2 n = (if neg then [0x2D] else []) @ rev (u64_digits u)" using u64toa2_shape by blast
  obtain c cs where "rev (u64_digits u) = c # cs" "is_digit c" using u64_digits_head by blast
  then show ?thesis using n digit_not [of c] by (auto simp: c_space_def)
qed

lemma strtoll_number: "base = 0 \<or> base = 10 \<Longrightarrow> strtoll (u64toa2 n @ [0]) base = (sint n, [0], False)"
proof -
  assume b: "base = 0 \<or> base = 10"
  obtain neg u where u: "u64toa2 n = (if neg then [0x2D] else []) @ rev (u64_digits u)"
    "(if neg then - int (unat u) else int (unat u)) = sint n"
    "neg \<longrightarrow> int (unat u) \<le> 0x8000000000000000" "\<not> neg \<longrightarrow> int (unat u) < 0x8000000000000000"
    using u64toa2_shape [of n] by blast
  show ?thesis using strtoll_digits [OF b u(3,4)] unfolding u(1,2) by simp
qed

lemma u64toa2_ne: "u64toa2 n \<noteq> []"
  by (simp add: u64toa2_def u64_digits_ne)

lemma string_number: "string_to_number (u64toa2 n) = Ok (JInt n)"
proof -
  have "length (u64toa2 n @ [0]) \<noteq> 1" "length (u64toa2 n @ [0]) \<noteq> length [0 :: u8]"
    using u64toa2_ne [of n] by simp_all
  then show ?thesis using skip_spaces_number [of n] strtoll_number [of 0 n]
    by (simp add: string_to_number_def jsi_atof2_def c_space_def del: skip_spaces.simps)
       (simp add: c_space_def)
qed

section \<open>The general scanner on printed numbers\<close>

lemma scan_while_to:
  "i \<le> j \<Longrightarrow> j < length str \<Longrightarrow> \<forall>k. i \<le> k \<and> k < j \<longrightarrow> P k \<Longrightarrow> \<not> P j \<Longrightarrow> scan_while P str i = j"
proof (induction "j - i" arbitrary: i)
  case 0
  then show ?case by (subst scan_while.simps) simp
next
  case (Suc n)
  then have "scan_while P str (Suc i) = j" by (intro Suc.hyps(1)) auto
  then show ?case using Suc by (subst scan_while.simps) auto
qed

lemma u64_digits_length: "unat u < 10 ^ Suc k \<Longrightarrow> length (u64_digits u) \<le> Suc k"
proof (induction k arbitrary: u)
  case 0
  then show ?case by (subst u64_digits_unfold) (simp add: div_eq_0_iff)
next
  case (Suc k)
  then have "unat (u div 10) < 10 ^ Suc k" by (simp add: unat_div)
  then show ?case using Suc.IH by (subst u64_digits_unfold) simp
qed

lemma u64toa2_length: "length (u64toa2 n) \<le> 21"
proof -
  have "length (u64_digits u) \<le> 20" for u :: u64
    using u64_digits_length [of u 19] unsigned_less [of u, where ?'a = nat] by simp
  from this [of n] this [of "- n"] show ?thesis by (simp add: u64toa2_def)
qed

lemma rd_append: "i < length xs \<Longrightarrow> rd (xs @ ys) i = xs ! i" "rd (xs @ [0]) (length xs) = 0"
  by (simp_all add: rd_def nth_append)

lemma atof_number:
  assumes "radix = 0 \<or> radix = 10"
  shows "jsi_atof mem (u64toa2 n @ [0]) radix parse_flags = Ok (JInt n, length (u64toa2 n))"
proof -
  obtain neg u where u: "u64toa2 n = (if neg then [0x2D] else []) @ rev (u64_digits u)" using u64toa2_shape [of n] by blast
  obtain c cs where c: "rev (u64_digits u) = c # cs" "is_digit c" "decimal cs" "c = 0x30 \<longrightarrow> u = 0 \<and> cs = []"
    by (rule u64_digits_head)
  define st where "st = (if neg then 1 else 0 :: nat)"
  let ?s = "u64toa2 n @ [0]" and ?e = "length (u64toa2 n)"
  have s: "?s = (if neg then [0x2D] else []) @ c # cs @ [0]" "drop st (u64toa2 n) = c # cs" "st < ?e"
    using u c(1) by (auto simp: st_def)
  have dig: "is_digit (rd ?s i)" if "st \<le> i" "i < ?e" for i
  proof -
    have "rd ?s i = drop st (u64toa2 n) ! (i - st)" using that rd_append(1) [of i "u64toa2 n" "[0]"] by simp
    then have "rd ?s i = (c # cs) ! (i - st)" unfolding s(2) .
    moreover have "i - st < length (drop st (u64toa2 n))" using that by simp
    then have "i - st < length (c # cs)" unfolding s(2) .
    ultimately show ?thesis using c(2,3) by (simp add: decimal_def list_all_length nth_Cons split: nat.split)
  qed
  have dig10: "to_digit x < 10" if "is_digit x" for x using decimal_digits [of "[x]"] that by (simp add: decimal_def)
  have z: "rd ?s ?e = 0" by (rule rd_append)
  have x: "c = 0x30 \<longrightarrow> rd ?s (st + 1) = 0" using s(1) c(4) by (auto simp: rd_def st_def)
  have "rd ?s 0 = (if neg then 0x2D else c)" "rd ?s st = c" using s(1) by (auto simp: rd_def st_def)
  then have prefix: "atof_prefix parse_flags ?s radix = Inr (neg, 10, False, st, False)"
    using digit_not [OF c(2)] assms x
    by (auto simp: atof_prefix_def parse_flags_def atof_no_radix_prefix_def st_def Let_def is_digit_def)
  have scan: "atof_int_digits ?s 10 False st = ?e"
    unfolding atof_int_digits_def using s(3) dig dig10 z
    by (intro scan_while_to) (auto simp: is_sep_def to_digit_def)
  have "list_all (\<lambda>c. c \<noteq> 0x5F) (c # cs)"
    using c(2,3) by (auto simp: decimal_def list_all_iff is_digit_def word_le_nat_alt)
  moreover define buf where "buf = (if neg then [0x2D] else []) @ filter (\<lambda>c. c \<noteq> 0x5F) (take (?e - st) (drop st ?s)) @ [0]"
  ultimately have buf: "buf = ?s"
    using s by (auto simp: list_all_iff filter_id_conv st_def)
  have fl: "INT_ONLY parse_flags" "\<not> SUFFIX parse_flags" "atod_type parse_flags = ATOD_TYPE_FLOAT64"
    by (simp_all add: parse_flags_def)
  have small: "\<not> 62 < ?e - st" using u64toa2_length [of n] by simp
  have "jsi_atof mem ?s radix parse_flags = (case strtoll buf 10 of (d, rest, erange) \<Rightarrow>
      if length rest = length buf then Throw (SyntaxError ''invalid number literal'')
      else if erange then Throw (RangeError ''number too large'') else Ok (JInt (word_of_int d), ?e))"
    using s(3) small by (simp add: jsi_atof_def prefix scan buf_def Let_def fl split: prod.split)
  then show ?thesis using strtoll_number [of 10 n] u64toa2_ne [of n] unfolding buf by simp
qed

lemma parse_int_number: "radix = 0 \<or> radix = 10 \<Longrightarrow> parse_int_bytes mem (u64toa2 n) radix = Ok (JInt n)"
proof -
  assume r: "radix = 0 \<or> radix = 10"
  obtain neg u where u: "u64toa2 n = (if neg then [0x2D] else []) @ rev (u64_digits u)" using u64toa2_shape [of n] by blast
  obtain c cs where c: "rev (u64_digits u) = c # cs" "is_digit c" "decimal cs" "c = 0x30 \<longrightarrow> u = 0 \<and> cs = []"
    by (rule u64_digits_head)
  have "\<not> (rd (u64toa2 n @ [0]) 0 = 0x30 \<and> (rd (u64toa2 n @ [0]) 1 = 0x78 \<or> rd (u64toa2 n @ [0]) 1 = 0x58))"
    using u c by (auto simp: rd_def)
  then show ?thesis
    using r skip_spaces_number [of n] strtoll_number [of 10 n] atof_number [OF r, of mem n] u64toa2_ne [of n]
    by (auto simp: parse_int_bytes_def Let_def rd_def simp del: skip_spaces.simps)
qed

section \<open>Laws of the outcome monad\<close>

lemma bind_ret [simp]: "bind_act (ret x) f = f x"
  by (simp add: bind_act_def ret_def)

lemma bind_throw [simp]: "bind_act (throw e) f = throw e"
  by (simp add: bind_act_def throw_def)

lemma bind_undef [simp]: "bind_act undef f = undef"
  by (simp add: bind_act_def undef_def)

lemma bind_assoc: "bind_act (bind_act m f) g = bind_act m (\<lambda>x. bind_act (f x) g)"
  by (rule ext) (simp add: bind_act_def split: prod.split outcome.split)

lemma lift_simps [simp]: "lift_out (Ok x) = ret x" "lift_out (Throw e) = throw e" "lift_out Undef = undef"
  by (simp_all add: lift_out_def ret_def throw_def undef_def)

lemma bind_Ok:
  "bind_act m f w = (Ok y, w') \<longleftrightarrow> (\<exists>x v. m w = (Ok x, v) \<and> f x v = (Ok y, w'))"
  by (auto simp: bind_act_def split: prod.splits outcome.splits)

lemma ret_Ok [simp]: "ret x w = (Ok y, w') \<longleftrightarrow> y = x \<and> w' = w"
  by (auto simp: ret_def)

lemma throw_Ok [simp]: "throw e w \<noteq> (Ok y, w')" and undef_Ok [simp]: "undef w \<noteq> (Ok y, w')"
  by (simp_all add: throw_def undef_def)

lemma lift_Ok [simp]: "lift_out r w = (Ok y, w') \<longleftrightarrow> r = Ok y \<and> w' = w"
  by (auto simp: lift_out_def)

section \<open>Types of the results\<close>

lemma try_methods_prim: "try_methods h obj names w = (Ok r, w') \<Longrightarrow> \<not> is_object r"
proof (induction names arbitrary: w w')
  case (Cons name names)
  then show ?case by (fastforce simp: bind_Ok split: if_splits)
qed simp

lemma ToPrimitive_prim: "JSI_ToPrimitiveFree h val hnt force w = (Ok r, w') \<Longrightarrow> \<not> is_object r"
  by (cases val) (auto simp: JSI_ToPrimitiveFree_def Let_def bind_Ok split: if_splits dest: try_methods_prim)

fun is_numeric :: "jsi_val \<Rightarrow> bool" where
  "is_numeric (JInt _) = True"
| "is_numeric JUndefined = True"
| "is_numeric _ = False"

lemma string_to_number_numeric: "string_to_number str = Ok v \<Longrightarrow> is_numeric v"
  by (auto simp: string_to_number_def split: option.splits outcome.splits if_splits)

lemma to_number_prim_numeric: "to_number_prim h val w = (Ok v, w') \<Longrightarrow> is_numeric v"
  by (cases val) (auto simp: to_number_prim_def bind_Ok string_to_number_numeric)

lemma ToNumber_numeric: "JSI_ToNumberFree h val w = (Ok v, w') \<Longrightarrow> is_numeric v"
  by (auto simp: JSI_ToNumberFree_def bind_Ok to_number_prim_numeric split: if_splits)

lemma numeric_int: "is_numeric v \<Longrightarrow> \<exists>n. get_int v = Some n"
  by (cases v) auto

lemma number_string_value:
  "string8 h (u64toa2 n) = Throw OutOfMemoryError \<or> string8 h (u64toa2 n) = Ok (JStr (RStr (Str8 (u64toa2 n))))"
  using u64toa2_ne [of n] by (auto simp: string8_def jsi_new_string8_len_def mem_slice_def)

lemma u64toa2_ascii: "filter (\<lambda>c. 0x80 \<le> c) (u64toa2 n) = []"
proof -
  have "is_digit c \<Longrightarrow> \<not> 0x80 \<le> c" for c by (auto simp: is_digit_def word_le_nat_alt)
  then have "filter (\<lambda>c. 0x80 \<le> c) (u64_digits u) = []" for u
    using u64_digits_decimal [of u] by (auto simp: decimal_def list_all_iff filter_empty_conv)
  then show ?thesis by (simp add: u64toa2_def flip: rev_filter)
qed

lemma c_string_number: "to_c_string h (JStr (RStr (Str8 (u64toa2 n)))) = ret (u64toa2 n)"
  using u64toa2_ascii [of n] by (simp add: to_c_string_def JSI_ToCStringLen2_def)

section \<open>A host for the witnesses\<close>

text \<open>Object 0 has a \<open>valueOf\<close> that returns 7; nothing else is defined, allocations succeed.\<close>

definition demo_host :: "unit host" where
  "demo_host = \<lparr>h_get = (\<lambda>obj name. ret (if name = ''valueOf'' then JObject 1 else JUndefined)),
     h_is_function = (\<lambda>v _. v = JObject 1), h_call = (\<lambda>_ _ _. ret (JInt 7)), h_htmldda = (\<lambda>_ _. False),
     h_al = (\<lambda>_ _. True), h_ra = (\<lambda>_ _. None), h_node = (\<lambda>_. True), h_ref = (\<lambda>_. (1, 0)), h_fuel = 2\<rparr>"

lemma demo_ToNumber: "JSI_ToNumberFree demo_host (JObject 0) () = (Ok (JInt 7), ())"
  by (simp add: JSI_ToNumberFree_def JSI_ToPrimitiveFree_def demo_host_def to_number_prim_def Let_def)

section \<open>Properties\<close>

text \<open>C33: converting a number to a string and back is the identity on all of \<open>int64_t\<close>, \<open>INT64_MIN\<close>
  included, unless the string cannot be allocated; user code is not involved and the state of the
  host does not change.\<close>

theorem number_string_roundtrip:
  "bind_act (JSI_ToString h (JInt n)) (JSI_ToNumberFree h) w \<in> {(Ok (JInt n), w), (Throw OutOfMemoryError, w)}"
proof -
  have "JSI_ToNumberFree h (JStr (RStr (Str8 (u64toa2 n)))) = ret (JInt n)"
    by (simp add: JSI_ToNumberFree_def to_number_prim_def c_string_number string_number)
  moreover have "JSI_ToString h (JInt n) = lift_out (string8 h (u64toa2 n))"
    by (simp add: JSI_ToString_def JSI_ToStringInternal_def JSI_ToPrimitiveFree_def to_string_prim_def)
  ultimately show ?thesis using number_string_value [of h n] by (auto simp: ret_def throw_def bind_act_def)
qed

text \<open>\<open>parseInt\<close> with radix 0 or 10 reads back every printed number; the printed form has at most 21
  characters, so it fits the 24 and 32 byte buffers it is built in.\<close>

lemma parse_int_roundtrip:
  assumes "radix = 0 \<or> radix = 10"
  shows "parse_int_bytes mem (u64toa2 n) radix = Ok (JInt n) \<and> length (u64toa2 n) \<le> 21"
  using parse_int_number [OF assms] u64toa2_length by simp

text \<open>C34: whatever user code does, the conversion to a number yields an integer or \<open>undefined\<close>, so the
  conversions to 64-bit integers that start over with its result end after one round.\<close>

theorem to_number_type:
  assumes "JSI_ToNumberFree h val w = (Ok v, w')"
  shows "is_numeric v \<and> (\<exists>n. JSI_ToInt64Free h v w'' = (Ok n, w''))"
proof -
  have "is_numeric v" using assms by (rule ToNumber_numeric)
  then show ?thesis using numeric_int [of v] by (auto simp: JSI_ToInt64Free_def)
qed

theorem to_number_type_witness:
  "is_numeric (JInt 7) \<and> (\<exists>n. JSI_ToInt64Free demo_host (JInt 7) () = (Ok n, ()))"
  by (rule to_number_type [OF demo_ToNumber])

text \<open>The clamping conversions return a value inside their bounds: 64-bit clamps between \<open>min\<close> and
  \<open>max\<close>, lengths between 0 and \<open>2^53 - 1\<close>, bytes between 0 and 255.\<close>

lemma clamps_in_range:
  assumes "lo \<le> hi"
  shows "(\<forall>v w'. JSI_ToInt64Clamp h val lo hi off w = (Ok v, w') \<longrightarrow> lo \<le> v \<and> v \<le> hi)
    \<and> (\<forall>v w'. JSI_ToLengthFree h val w = (Ok v, w') \<longrightarrow> 0 \<le> v \<and> v \<le> 2 ^ 53 - 1)
    \<and> (\<forall>v w'. JSI_ToUint8ClampFree h val w = (Ok v, w') \<longrightarrow> 0 \<le> v \<and> v \<le> 255)"
  using assms
  by (auto simp: JSI_ToInt64Clamp_def JSI_ToLengthFree_def JSI_ToUint8ClampFree_def MAX_SAFE_INTEGER_def bind_Ok)

text \<open>C37: the conversion to an array length never returns for \<open>undefined\<close>: with any number of nested
  calls the recursion is not finished, although a comment says it cannot recurse.\<close>

theorem array_length_diverges:
  "JSI_ToArrayLengthFree fuel h JUndefined is_array_ctor w = (Undef, w)"
proof (induction fuel)
  case (Suc fuel)
  then show ?case
    by (cases is_array_ctor)
      (simp_all add: JSI_ToNumberFree_def to_number_prim_def JSI_ToInt32Free_def JSI_ToInt64Free_def bind_act_def ret_def)
qed (simp add: undef_def)

end
