(* ===== verification/QArith.thy ===== *)
theory QArith
  imports QNumber "HOL-Library.Signed_Division"
begin

text \<open>
  Operators of the contract engine: the slow paths (\<^verbatim>\<open>src/src/qjsi/quickjs_i.c\<close>, lines 13285 to
  13981), the arithmetic, logical and comparison cases of the interpreter loop (lines 17342 to 17815),
  and string concatenation of arbitrary values (lines 5796 to 5817). A case of the loop acts on the
  operand stack (top first) and the local variables; \<open>Undef\<close> is undefined behaviour of C, a call of
  \<open>abort\<close> or a stack underflow.
\<close>

section \<open>Definitions\<close>

datatype opcode = OP_add | OP_sub | OP_mul | OP_div | OP_mod
  | OP_plus | OP_neg | OP_inc | OP_dec | OP_post_inc | OP_post_dec | OP_not
  | OP_shl | OP_shr | OP_sar | OP_and | OP_or | OP_xor
  | OP_lt | OP_lte | OP_gt | OP_gte | OP_eq | OP_neq | OP_strict_eq | OP_strict_neq
  | OP_add_loc nat | OP_inc_loc nat | OP_dec_loc nat

abbreviation INT64_MIN :: int where "INT64_MIN \<equiv> - 0x8000000000000000"
abbreviation INT64_MAX :: int where "INT64_MAX \<equiv> 0x7FFFFFFFFFFFFFFF"

text \<open>\<open>__builtin_add_overflow\<close> and its like: the exact result, or a \<open>RangeError\<close>.\<close>

definition int64_or :: "string \<Rightarrow> int \<Rightarrow> ('w, jsi_val) act" where
  "int64_or msg r = (if INT64_MIN \<le> r \<and> r \<le> INT64_MAX then ret (JInt (word_of_int r)) else throw (RangeError msg))"

definition range_error :: "string \<Rightarrow> ('w, 'a) act" where
  "range_error msg = throw (RangeError msg)"

text \<open>A slow path that returns without storing a result leaves the first operand on the stack. If that
  was a reference, \<open>JSI_ToNumericFree\<close> has released it.\<close>

fun refcounted :: "jsi_val \<Rightarrow> bool" where
  "refcounted (JSymbol _) = True"
| "refcounted (JStr _) = True"
| "refcounted (JModule _) = True"
| "refcounted (JBytecode _) = True"
| "refcounted (JObject _) = True"
| "refcounted _ = False"

definition stale :: "jsi_val \<Rightarrow> ('w, jsi_val) act" where
  "stale val = (if refcounted val then undef else ret val)"

text \<open>\<open>jsi_unary_arith_slow\<close> returns \<open>-1\<close> on every path. After a computed result no exception is pending, and
  the interpreter then throws \<open>rt->current_exception\<close>, which is \<open>JSI_UNINITIALIZED\<close>.\<close>

definition no_exception :: "('w, 'a) act" where
  "no_exception = throw (Thrown JUninitialized)"

definition jsi_unary_arith_slow :: "'w host \<Rightarrow> opcode \<Rightarrow> jsi_val \<Rightarrow> ('w, jsi_val) act" where
  "jsi_unary_arith_slow h op op1 =
     bind_act (JSI_ToNumberFree h op1) (\<lambda>v.
       case v of
         JInt n \<Rightarrow>
           (if op = OP_inc then (if sint n = INT64_MAX then range_error ''inc overflow'' else no_exception)
            else if op = OP_dec then (if sint n = INT64_MIN then range_error ''dec overflow'' else no_exception)
            else if op = OP_plus then no_exception
            else if op = OP_neg then (if sint n = INT64_MIN then range_error ''neg overflow'' else no_exception)
            else undef)
       | _ \<Rightarrow> no_exception)"

definition jsi_post_inc_slow :: "'w host \<Rightarrow> opcode \<Rightarrow> jsi_val \<Rightarrow> ('w, jsi_val \<times> jsi_val) act" where
  "jsi_post_inc_slow h op op1 =
     bind_act (JSI_ToNumberFree h op1) (\<lambda>v.
       bind_act (jsi_unary_arith_slow h (if op = OP_post_dec then OP_dec else OP_inc) v) (\<lambda>r. ret (v, r)))"

definition jsi_not_slow :: "'w host \<Rightarrow> jsi_val \<Rightarrow> ('w, jsi_val) act" where
  "jsi_not_slow h op1 =
     bind_act (JSI_ToNumberFree h op1) (\<lambda>v. bind_act (JSI_ToInt32Free h v) (\<lambda>v1. ret (JInt (scast (NOT v1)))))"

text \<open>Both operands to numbers, first the left one.\<close>

definition both_numeric :: "'w host \<Rightarrow> jsi_val \<Rightarrow> jsi_val \<Rightarrow> (jsi_val \<Rightarrow> jsi_val \<Rightarrow> ('w, 'a) act) \<Rightarrow> ('w, 'a) act" where
  "both_numeric h op1 op2 f = bind_act (JSI_ToNumberFree h op1) (\<lambda>v1. bind_act (JSI_ToNumberFree h op2) (\<lambda>v2. f v1 v2))"

definition jsi_binary_arith_slow :: "'w host \<Rightarrow> opcode \<Rightarrow> jsi_val \<Rightarrow> jsi_val \<Rightarrow> ('w, jsi_val) act" where
  "jsi_binary_arith_slow h op op1 op2 =
     both_numeric h op1 op2 (\<lambda>v1 v2.
       case (v1, v2) of
         (JInt a, JInt b) \<Rightarrow>
           (if op = OP_sub then int64_or ''sub overflow'' (sint a - sint b)
            else if op = OP_mul then int64_or ''mul overflow'' (sint a * sint b)
            else if op = OP_div
            then (if b = 0 \<or> sint a = INT64_MIN \<and> sint b = -1 then range_error ''divide overflow''
                  else ret (JInt (word_of_int (sint a sdiv sint b))))
            else if op = OP_mod
            then (if b = 0 \<or> sint a = INT64_MIN \<and> sint b = -1 then range_error ''modulo overflow''
                  else ret (JInt (word_of_int (sint a smod sint b))))
            else undef)
       | _ \<Rightarrow> stale op1)"

text \<open>\<open>JSI_ConcatString\<close> on any two values.\<close>

fun is_string :: "jsi_val \<Rightarrow> bool" where
  "is_string (JStr _) = True"
| "is_string _ = False"

definition concat_values :: "'w host \<Rightarrow> jsi_val \<Rightarrow> jsi_val \<Rightarrow> ('w, jsi_val) act" where
  "concat_values h op1 op2 =
     bind_act (if is_string op1 then ret op1 else JSI_ToString h op1) (\<lambda>v1.
     bind_act (if is_string op2 then ret op2 else JSI_ToString h op2) (\<lambda>v2.
       case (v1, v2) of
         (JStr r1, JStr r2) \<Rightarrow>
           (case h_ref h r1 of (rc, room) \<Rightarrow>
              lift_out (str_out (map_option (map_sum id JStr)
                (JSI_ConcatString (h_fuel h) (h_node h) (h_al h) rc room r1 r2))))
       | _ \<Rightarrow> undef))"

definition jsi_add_slow :: "'w host \<Rightarrow> jsi_val \<Rightarrow> jsi_val \<Rightarrow> ('w, jsi_val) act" where
  "jsi_add_slow h op1 op2 =
     (let prim = (\<lambda>v. if is_object op1 \<or> is_object op2 then JSI_ToPrimitiveFree h v HINT_NONE False else ret v) in
      bind_act (prim op1) (\<lambda>p1. bind_act (prim op2) (\<lambda>p2.
        if is_string p1 \<or> is_string p2 then concat_values h p1 p2
        else both_numeric h p1 p2 (\<lambda>v1 v2.
          case (v1, v2) of
            (JInt a, JInt b) \<Rightarrow> int64_or ''add overflow'' (sint a + sint b)
          | _ \<Rightarrow> stale op1))))"

text \<open>The slow path of the logical operators converts its operands and stores nothing.\<close>

definition jsi_binary_logic_slow :: "'w host \<Rightarrow> jsi_val \<Rightarrow> jsi_val \<Rightarrow> ('w, jsi_val) act" where
  "jsi_binary_logic_slow h op1 op2 = both_numeric h op1 op2 (\<lambda>_ _. stale op1)"

definition jsi_shr_slow :: "'w host \<Rightarrow> jsi_val \<Rightarrow> jsi_val \<Rightarrow> ('w, jsi_val) act" where
  "jsi_shr_slow h op1 op2 =
     both_numeric h op1 op2 (\<lambda>v1 v2.
       bind_act (JSI_ToInt32Free h v1) (\<lambda>a. bind_act (JSI_ToInt32Free h v2) (\<lambda>b.
         ret (JInt (ucast (drop_bit (unat (b AND 0x1f)) a))))))"

text \<open>Comparison: the result of a three-way comparison, and of two integers.\<close>

definition cmp_result :: "opcode \<Rightarrow> int \<Rightarrow> bool" where
  "cmp_result op c = (if op = OP_lt then c < 0 else if op = OP_lte then c \<le> 0 else if op = OP_gt then c > 0 else c \<ge> 0)"

fun tag_le_null :: "jsi_val \<Rightarrow> bool" where
  "tag_le_null (JInt _) = True"
| "tag_le_null (JBool _) = True"
| "tag_le_null JNull = True"
| "tag_le_null _ = False"

definition raw_int :: "jsi_val \<Rightarrow> int outcome" where
  "raw_int v = (case get_int v of Some n \<Rightarrow> Ok (sint n) | None \<Rightarrow> Undef)"

definition int_compare :: "opcode \<Rightarrow> jsi_val \<Rightarrow> jsi_val \<Rightarrow> ('w, jsi_val) act" where
  "int_compare op v1 v2 =
     bind_act (lift_out (raw_int v1)) (\<lambda>d1. bind_act (lift_out (raw_int v2)) (\<lambda>d2.
       ret (JBool (cmp_result op (d1 - d2)))))"

definition string_cmp :: "bool \<Rightarrow> jsi_rope \<Rightarrow> jsi_rope \<Rightarrow> int outcome" where
  "string_cmp eq_only r1 r2 =
     (case (case (r1, r2) of (RStr p1, RStr p2) \<Rightarrow> jsi_string_compare p1 p2
            | _ \<Rightarrow> jsi_string_rope_compare r1 r2 eq_only) of
        None \<Rightarrow> Undef | Some c \<Rightarrow> Ok c)"

definition jsi_relational_slow :: "'w host \<Rightarrow> opcode \<Rightarrow> jsi_val \<Rightarrow> jsi_val \<Rightarrow> ('w, jsi_val) act" where
  "jsi_relational_slow h op op1 op2 =
     bind_act (JSI_ToPrimitiveFree h op1 HINT_NUMBER False) (\<lambda>p1.
     bind_act (JSI_ToPrimitiveFree h op2 HINT_NUMBER False) (\<lambda>p2.
       case (p1, p2) of
         (JStr r1, JStr r2) \<Rightarrow> bind_act (lift_out (string_cmp False r1 r2)) (\<lambda>c. ret (JBool (cmp_result op c)))
       | _ \<Rightarrow> if tag_le_null p1 \<and> tag_le_null p2 then int_compare op p1 p2
              else both_numeric h p1 p2 (int_compare op)))"

text \<open>Strict equality; the three modes differ only for floating point numbers, which do not exist.\<close>

definition jsi_strict_eq2 :: "jsi_val \<Rightarrow> jsi_val \<Rightarrow> bool outcome" where
  "jsi_strict_eq2 op1 op2 =
     (case (op1, op2) of
        (JBool a, JBool b) \<Rightarrow> Ok (a = b)
      | (JNull, JNull) \<Rightarrow> Ok True
      | (JUndefined, JUndefined) \<Rightarrow> Ok True
      | (JStr a, JStr b) \<Rightarrow> (case string_cmp True a b of Ok c \<Rightarrow> Ok (c = 0) | Throw e \<Rightarrow> Throw e | Undef \<Rightarrow> Undef)
      | (JSymbol a, JSymbol b) \<Rightarrow> Ok (a = b)
      | (JObject a, JObject b) \<Rightarrow> Ok (a = b)
      | (JInt a, JInt b) \<Rightarrow> Ok (a = b)
      | _ \<Rightarrow> Ok False)"

fun tag_of :: "jsi_val \<Rightarrow> int" where
  "tag_of (JSymbol _) = -8"
| "tag_of (JStr (RStr _)) = -7"
| "tag_of (JStr (RNode _ _ _ _ _)) = -6"
| "tag_of (JModule _) = -3"
| "tag_of (JBytecode _) = -2"
| "tag_of (JObject _) = -1"
| "tag_of (JInt _) = 0"
| "tag_of (JBool _) = 1"
| "tag_of JNull = 2"
| "tag_of JUndefined = 3"
| "tag_of JUninitialized = 4"
| "tag_of (JCatchOffset _) = 5"

fun is_number :: "jsi_val \<Rightarrow> bool" where
  "is_number (JInt _) = True"
| "is_number _ = False"

fun is_symbol :: "jsi_val \<Rightarrow> bool" where
  "is_symbol (JSymbol _) = True"
| "is_symbol _ = False"

definition is_HTMLDDA :: "'w host \<Rightarrow> jsi_val \<Rightarrow> 'w \<Rightarrow> bool" where
  "is_HTMLDDA h v w = (case v of JObject obj \<Rightarrow> h_htmldda h obj w | _ \<Rightarrow> False)"

definition bool_num :: "jsi_val \<Rightarrow> jsi_val" where
  "bool_num v = (case v of JBool b \<Rightarrow> JInt (if b then 1 else 0) | _ \<Rightarrow> v)"

text \<open>Loose equality; the label \<open>redo\<close> is a recursive call, bounded by fuel.\<close>

primrec jsi_eq_slow :: "nat \<Rightarrow> 'w host \<Rightarrow> jsi_val \<Rightarrow> jsi_val \<Rightarrow> ('w, bool) act" where
  "jsi_eq_slow 0 h op1 op2 = undef"
| "jsi_eq_slow (Suc fuel) h op1 op2 =
     (let t1 = tag_of op1; t2 = tag_of op2; prim = (\<lambda>v. is_number v \<or> is_string v \<or> is_symbol v) in
      if t1 = t2 then lift_out (jsi_strict_eq2 op1 op2)
      else if t1 = 2 \<and> t2 = 3 \<or> t2 = 2 \<and> t1 = 3 then ret True
      else if is_string op1 \<and> is_string op2 then lift_out (jsi_strict_eq2 op1 op2)
      else if is_string op1 \<and> is_number op2 \<or> is_string op2 \<and> is_number op1
      then both_numeric h op1 op2 (\<lambda>v1 v2. lift_out (jsi_strict_eq2 v1 v2))
      else if t1 = 1 then jsi_eq_slow fuel h (bool_num op1) op2
      else if t2 = 1 then jsi_eq_slow fuel h op1 (bool_num op2)
      else if is_object op1 \<and> prim op2 \<or> is_object op2 \<and> prim op1
      then bind_act (JSI_ToPrimitiveFree h op1 HINT_NONE False) (\<lambda>p1.
           bind_act (JSI_ToPrimitiveFree h op2 HINT_NONE False) (\<lambda>p2. jsi_eq_slow fuel h p1 p2))
      else (\<lambda>w. (Ok (is_HTMLDDA h op1 w \<and> (t2 = 2 \<or> t2 = 3) \<or> is_HTMLDDA h op2 w \<and> (t1 = 2 \<or> t1 = 3)), w)))"

section \<open>The cases of the interpreter loop\<close>

text \<open>Both operands are integers (\<open>JSI_VALUE_IS_BOTH_INT\<close>): the fast path, else the slow one.\<close>

definition both_int :: "jsi_val \<Rightarrow> jsi_val \<Rightarrow> (i64 \<Rightarrow> i64 \<Rightarrow> 'a) \<Rightarrow> 'a \<Rightarrow> 'a" where
  "both_int op1 op2 fast slow = (case (op1, op2) of (JInt a, JInt b) \<Rightarrow> fast a b | _ \<Rightarrow> slow)"

definition op_add :: "'w host \<Rightarrow> jsi_val \<Rightarrow> jsi_val \<Rightarrow> ('w, jsi_val) act" where
  "op_add h op1 op2 =
     both_int op1 op2 (\<lambda>a b. int64_or ''add overflow'' (sint a + sint b))
       (if is_string op1 \<and> is_string op2 then concat_values h op1 op2 else jsi_add_slow h op1 op2)"

definition op_sub :: "'w host \<Rightarrow> jsi_val \<Rightarrow> jsi_val \<Rightarrow> ('w, jsi_val) act" where
  "op_sub h op1 op2 =
     both_int op1 op2 (\<lambda>a b. int64_or ''sub overflow'' (sint a - sint b)) (jsi_binary_arith_slow h OP_sub op1 op2)"

definition op_mul :: "'w host \<Rightarrow> jsi_val \<Rightarrow> jsi_val \<Rightarrow> ('w, jsi_val) act" where
  "op_mul h op1 op2 =
     both_int op1 op2 (\<lambda>a b. int64_or ''sub overflow'' (sint a * sint b)) (jsi_binary_arith_slow h OP_mul op1 op2)"

definition op_div :: "'w host \<Rightarrow> jsi_val \<Rightarrow> jsi_val \<Rightarrow> ('w, jsi_val) act" where
  "op_div h op1 op2 =
     both_int op1 op2 (\<lambda>a b.
         if b = 0 then range_error ''divide by zero''
         else if sint a = INT64_MIN \<and> sint b = -1 then undef
         else ret (JInt (word_of_int (sint a sdiv sint b))))
       (jsi_binary_arith_slow h OP_div op1 op2)"

text \<open>The fast path of \<open>%\<close> copies its 64-bit operands to \<open>int\<close> variables.\<close>

definition op_mod :: "'w host \<Rightarrow> jsi_val \<Rightarrow> jsi_val \<Rightarrow> ('w, jsi_val) act" where
  "op_mod h op1 op2 =
     both_int op1 op2 (\<lambda>a b.
         let v1 = ucast a :: i32; v2 = ucast b :: i32 in
         if v2 = 0 then range_error ''divide by zero''
         else if sint v1 = - 0x80000000 \<and> sint v2 = -1 then undef
         else ret (JInt (word_of_int (sint v1 smod sint v2))))
       (jsi_binary_arith_slow h OP_mod op1 op2)"

definition op_plus :: "'w host \<Rightarrow> jsi_val \<Rightarrow> ('w, jsi_val) act" where
  "op_plus h op1 = (case op1 of JInt n \<Rightarrow> ret op1 | _ \<Rightarrow> jsi_unary_arith_slow h OP_plus op1)"

definition op_neg :: "'w host \<Rightarrow> jsi_val \<Rightarrow> ('w, jsi_val) act" where
  "op_neg h op1 =
     (case op1 of
        JInt n \<Rightarrow> if sint n = INT64_MIN then jsi_unary_arith_slow h OP_neg op1 else ret (JInt (- n))
      | _ \<Rightarrow> jsi_unary_arith_slow h OP_neg op1)"

definition op_inc :: "'w host \<Rightarrow> jsi_val \<Rightarrow> ('w, jsi_val) act" where
  "op_inc h op1 =
     (case op1 of
        JInt n \<Rightarrow> if sint n = INT64_MAX then jsi_unary_arith_slow h OP_inc op1 else ret (JInt (n + 1))
      | _ \<Rightarrow> jsi_unary_arith_slow h OP_inc op1)"

definition op_dec :: "'w host \<Rightarrow> jsi_val \<Rightarrow> ('w, jsi_val) act" where
  "op_dec h op1 =
     (case op1 of
        JInt n \<Rightarrow> if sint n = INT64_MIN then jsi_unary_arith_slow h OP_dec op1 else ret (JInt (n - 1))
      | _ \<Rightarrow> jsi_unary_arith_slow h OP_dec op1)"

definition op_not :: "'w host \<Rightarrow> jsi_val \<Rightarrow> ('w, jsi_val) act" where
  "op_not h op1 = (case op1 of JInt n \<Rightarrow> ret (JInt (NOT n)) | _ \<Rightarrow> jsi_not_slow h op1)"

text \<open>Shifts use the low six bits of the second operand.\<close>

definition shift_count :: "i64 \<Rightarrow> nat" where
  "shift_count b = unat (b AND 0x3f)"

definition op_shl :: "'w host \<Rightarrow> jsi_val \<Rightarrow> jsi_val \<Rightarrow> ('w, jsi_val) act" where
  "op_shl h op1 op2 =
     both_int op1 op2 (\<lambda>a b. ret (JInt (push_bit (shift_count b) a))) (jsi_binary_logic_slow h op1 op2)"

definition op_shr :: "'w host \<Rightarrow> jsi_val \<Rightarrow> jsi_val \<Rightarrow> ('w, jsi_val) act" where
  "op_shr h op1 op2 =
     both_int op1 op2 (\<lambda>a b. ret (JInt (drop_bit (shift_count b) a))) (jsi_shr_slow h op1 op2)"

definition op_sar :: "'w host \<Rightarrow> jsi_val \<Rightarrow> jsi_val \<Rightarrow> ('w, jsi_val) act" where
  "op_sar h op1 op2 =
     both_int op1 op2 (\<lambda>a b. ret (JInt (signed_drop_bit (shift_count b) a))) (jsi_binary_logic_slow h op1 op2)"

definition op_and :: "'w host \<Rightarrow> jsi_val \<Rightarrow> jsi_val \<Rightarrow> ('w, jsi_val) act" where
  "op_and h op1 op2 = both_int op1 op2 (\<lambda>a b. ret (JInt (a AND b))) (jsi_binary_logic_slow h op1 op2)"

definition op_or :: "'w host \<Rightarrow> jsi_val \<Rightarrow> jsi_val \<Rightarrow> ('w, jsi_val) act" where
  "op_or h op1 op2 = both_int op1 op2 (\<lambda>a b. ret (JInt (a OR b))) (jsi_binary_logic_slow h op1 op2)"

definition op_xor :: "'w host \<Rightarrow> jsi_val \<Rightarrow> jsi_val \<Rightarrow> ('w, jsi_val) act" where
  "op_xor h op1 op2 = both_int op1 op2 (\<lambda>a b. ret (JInt (a XOR b))) (jsi_binary_logic_slow h op1 op2)"

text \<open>The macro \<open>OP_CMP\<close>. Four rounds of \<open>redo\<close> are enough for loose equality.\<close>

definition cmp_int :: "opcode \<Rightarrow> i64 \<Rightarrow> i64 \<Rightarrow> bool" where
  "cmp_int op a b =
     (if op = OP_eq \<or> op = OP_strict_eq then a = b
      else if op = OP_neq \<or> op = OP_strict_neq then a \<noteq> b
      else cmp_result op (sint a - sint b))"

definition jsi_strict_eq_slow :: "jsi_val \<Rightarrow> jsi_val \<Rightarrow> bool \<Rightarrow> ('w, jsi_val) act" where
  "jsi_strict_eq_slow op1 op2 is_neq = bind_act (lift_out (jsi_strict_eq2 op1 op2)) (\<lambda>r. ret (JBool (r \<noteq> is_neq)))"

definition cmp_slow :: "'w host \<Rightarrow> opcode \<Rightarrow> jsi_val \<Rightarrow> jsi_val \<Rightarrow> ('w, jsi_val) act" where
  "cmp_slow h op op1 op2 =
     (if op = OP_eq \<or> op = OP_neq
      then bind_act (jsi_eq_slow 4 h op1 op2) (\<lambda>r. ret (JBool (r \<noteq> (op = OP_neq))))
      else if op = OP_strict_eq \<or> op = OP_strict_neq
      then jsi_strict_eq_slow op1 op2 (op = OP_strict_neq)
      else jsi_relational_slow h op op1 op2)"

definition op_cmp :: "'w host \<Rightarrow> opcode \<Rightarrow> jsi_val \<Rightarrow> jsi_val \<Rightarrow> ('w, jsi_val) act" where
  "op_cmp h op op1 op2 = both_int op1 op2 (\<lambda>a b. ret (JBool (cmp_int op a b))) (cmp_slow h op op1 op2)"

text \<open>\<open>OP_add_loc\<close>: \<open>*pv + op2\<close>, the new value of the variable. A string variable is extended in
  place when it can be.\<close>

definition op_add_loc :: "'w host \<Rightarrow> jsi_val \<Rightarrow> jsi_val \<Rightarrow> ('w, jsi_val) act" where
  "op_add_loc h pv op2 =
     both_int pv op2 (\<lambda>a b.
         if INT64_MIN \<le> sint a + sint b \<and> sint a + sint b \<le> INT64_MAX
         then ret (JInt (a + b)) else jsi_add_slow h pv op2)
       (case pv of
          JStr (RStr p1) \<Rightarrow>
            bind_act (JSI_ToPrimitiveFree h op2 HINT_NONE False) (\<lambda>v.
              case h_ref h (RStr p1) of (rc, room) \<Rightarrow>
                (case (case v of JStr (RStr p2) \<Rightarrow> JSI_ConcatStringInPlace rc room p1 p2 | _ \<Rightarrow> None) of
                   Some p \<Rightarrow> ret (JStr (RStr p))
                 | None \<Rightarrow> concat_values h pv v))
        | _ \<Rightarrow> jsi_add_slow h pv op2)"

section \<open>One instruction\<close>

record frame =
  stack :: "jsi_val list"
  var_buf :: "jsi_val list"

definition binary :: "frame \<Rightarrow> (jsi_val \<Rightarrow> jsi_val \<Rightarrow> ('w, jsi_val) act) \<Rightarrow> ('w, frame) act" where
  "binary fr f = (case stack fr of op2 # op1 # sp \<Rightarrow> bind_act (f op1 op2) (\<lambda>r. ret (fr\<lparr>stack := r # sp\<rparr>)) | _ \<Rightarrow> undef)"

definition unary :: "frame \<Rightarrow> (jsi_val \<Rightarrow> ('w, jsi_val) act) \<Rightarrow> ('w, frame) act" where
  "unary fr f = (case stack fr of op1 # sp \<Rightarrow> bind_act (f op1) (\<lambda>r. ret (fr\<lparr>stack := r # sp\<rparr>)) | _ \<Rightarrow> undef)"

definition post :: "frame \<Rightarrow> (jsi_val \<Rightarrow> ('w, jsi_val \<times> jsi_val) act) \<Rightarrow> ('w, frame) act" where
  "post fr f = (case stack fr of op1 # sp \<Rightarrow> bind_act (f op1) (\<lambda>(old, new). ret (fr\<lparr>stack := new # old # sp\<rparr>)) | _ \<Rightarrow> undef)"

definition local_var :: "frame \<Rightarrow> nat \<Rightarrow> (jsi_val \<Rightarrow> ('w, jsi_val) act) \<Rightarrow> ('w, frame) act" where
  "local_var fr idx f =
     (if idx < length (var_buf fr)
      then bind_act (f (var_buf fr ! idx)) (\<lambda>r. ret (fr\<lparr>var_buf := (var_buf fr)[idx := r]\<rparr>)) else undef)"

text \<open>The columns \<open>n_pop\<close> and \<open>n_push\<close> of the opcode table.\<close>

definition opcode_pop_push :: "opcode \<Rightarrow> nat \<times> nat" where
  "opcode_pop_push op =
     (case op of
        OP_neg \<Rightarrow> (1, 1) | OP_plus \<Rightarrow> (1, 1) | OP_dec \<Rightarrow> (1, 1) | OP_inc \<Rightarrow> (1, 1)
      | OP_post_dec \<Rightarrow> (1, 2) | OP_post_inc \<Rightarrow> (1, 2)
      | OP_dec_loc _ \<Rightarrow> (0, 0) | OP_inc_loc _ \<Rightarrow> (0, 0) | OP_add_loc _ \<Rightarrow> (1, 0)
      | OP_not \<Rightarrow> (1, 1)
      | _ \<Rightarrow> (2, 1))"

definition exec_op :: "'w host \<Rightarrow> opcode \<Rightarrow> frame \<Rightarrow> ('w, frame) act" where
  "exec_op h op fr =
     (case op of
        OP_add \<Rightarrow> binary fr (op_add h)
      | OP_sub \<Rightarrow> binary fr (op_sub h)
      | OP_mul \<Rightarrow> binary fr (op_mul h)
      | OP_div \<Rightarrow> binary fr (op_div h)
      | OP_mod \<Rightarrow> binary fr (op_mod h)
      | OP_plus \<Rightarrow> unary fr (op_plus h)
      | OP_neg \<Rightarrow> unary fr (op_neg h)
      | OP_inc \<Rightarrow> unary fr (op_inc h)
      | OP_dec \<Rightarrow> unary fr (op_dec h)
      | OP_post_inc \<Rightarrow> post fr (jsi_post_inc_slow h op)
      | OP_post_dec \<Rightarrow> post fr (jsi_post_inc_slow h op)
      | OP_not \<Rightarrow> unary fr (op_not h)
      | OP_shl \<Rightarrow> binary fr (op_shl h)
      | OP_shr \<Rightarrow> binary fr (op_shr h)
      | OP_sar \<Rightarrow> binary fr (op_sar h)
      | OP_and \<Rightarrow> binary fr (op_and h)
      | OP_or \<Rightarrow> binary fr (op_or h)
      | OP_xor \<Rightarrow> binary fr (op_xor h)
      | OP_add_loc idx \<Rightarrow>
          (case stack fr of
             op2 # sp \<Rightarrow> local_var (fr\<lparr>stack := sp\<rparr>) idx (\<lambda>pv. op_add_loc h pv op2)
           | [] \<Rightarrow> undef)
      | OP_inc_loc idx \<Rightarrow> local_var fr idx (op_inc h)
      | OP_dec_loc idx \<Rightarrow> local_var fr idx (op_dec h)
      | _ \<Rightarrow> binary fr (op_cmp h op))"

section \<open>Integers\<close>

lemma both_int_ints [simp]: "both_int (JInt a) (JInt b) f s = f a b"
  by (simp add: both_int_def)

lemma to_number_int [simp]: "JSI_ToNumberFree h (JInt n) = ret (JInt n)"
  and to_number_undefined [simp]: "JSI_ToNumberFree h JUndefined = ret JUndefined"
  and to_number_bool [simp]: "JSI_ToNumberFree h (JBool b) = ret (JInt (if b then 1 else 0))"
  by (simp_all add: JSI_ToNumberFree_def to_number_prim_def)

lemma to_primitive_id [simp]: "\<not> is_object v \<Longrightarrow> JSI_ToPrimitiveFree h v hnt force = ret v"
  by (cases v) (simp_all add: JSI_ToPrimitiveFree_def)

lemma both_numeric_ints [simp]: "both_numeric h (JInt a) (JInt b) f = f (JInt a) (JInt b)"
  by (simp add: both_numeric_def)

lemmas int_bounds = sint64_range

lemma word_add_int: "word_of_int (sint a + sint b) = (a + b :: i64)"
  by (simp flip: wi_hom_add)

text \<open>An operation that computes the integer \<open>x\<close> exactly, or raises a \<open>RangeError\<close> when it does not fit.\<close>

definition exact :: "('w, jsi_val) act \<Rightarrow> int \<Rightarrow> bool" where
  "exact f x \<longleftrightarrow> (\<forall>w. if INT64_MIN \<le> x \<and> x \<le> INT64_MAX
     then \<exists>r. f w = (Ok (JInt r), w) \<and> sint r = x
     else \<exists>msg. f w = (Throw (RangeError msg), w))"

lemma exact_int64_or: "exact (int64_or msg x) x"
  by (auto simp: exact_def int64_or_def ret_def throw_def sint64_of_int)

lemma exact_neg: "exact (op_neg h (JInt a)) (- sint a)"
proof -
  have "sint (- a) = - sint a" if "sint a \<noteq> INT64_MIN"
    using sint64_of_int [of "- sint a"] that int_bounds [of a] by (simp flip: wi_hom_neg)
  then show ?thesis using int_bounds [of a]
    by (auto simp: exact_def op_neg_def jsi_unary_arith_slow_def range_error_def ret_def throw_def bind_act_def)
qed

lemma exact_inc: "exact (op_inc h (JInt a)) (sint a + 1)"
proof -
  have "sint (a + 1) = sint a + 1" if "sint a \<noteq> INT64_MAX"
    using sint64_of_int [of "sint a + 1"] that int_bounds [of a] by (simp flip: wi_hom_add)
  then show ?thesis using int_bounds [of a]
    by (auto simp: exact_def op_inc_def jsi_unary_arith_slow_def range_error_def ret_def throw_def bind_act_def)
qed

lemma exact_dec: "exact (op_dec h (JInt a)) (sint a - 1)"
proof -
  have "sint (a - 1) = sint a - 1" if "sint a \<noteq> INT64_MIN"
    using sint64_of_int [of "sint a - 1"] that int_bounds [of a] by (simp flip: wi_hom_sub)
  then show ?thesis using int_bounds [of a]
    by (auto simp: exact_def op_dec_def jsi_unary_arith_slow_def range_error_def ret_def throw_def bind_act_def)
qed

lemma cmp_fast_slow: "op_cmp h op (JInt a) (JInt b) = cmp_slow h op (JInt a) (JInt b)"
proof -
  have "jsi_eq_slow 4 h (JInt a) (JInt b) = ret (a = b)"
    by (simp add: eval_nat_numeral jsi_strict_eq2_def)
  then show ?thesis
    by (auto simp: op_cmp_def cmp_slow_def cmp_int_def jsi_strict_eq_slow_def jsi_strict_eq2_def
        jsi_relational_slow_def int_compare_def raw_int_def)
qed

lemma add_fast_slow: "op_add h (JInt a) (JInt b) = jsi_add_slow h (JInt a) (JInt b)"
  by (simp add: op_add_def jsi_add_slow_def Let_def)

lemma add_loc_fast: "op_add_loc h (JInt a) (JInt b) = op_add h (JInt a) (JInt b)"
  by (simp add: op_add_loc_def op_add_def jsi_add_slow_def Let_def int64_or_def word_add_int)

lemma sint_sdiv:
  assumes "\<not> (sint (a :: i64) = INT64_MIN \<and> sint b = -1)"
  shows "sint (word_of_int (sint a sdiv sint b) :: i64) = sint a sdiv sint b"
proof (rule sint64_of_int)
  have r: "- \<bar>sint a\<bar> \<le> sint a sdiv sint b" "sint a sdiv sint b \<le> \<bar>sint a\<bar>"
    using sdiv_int_range [of "sint a" "sint b"] by auto
  then show "INT64_MIN \<le> sint a sdiv sint b" using int_bounds [of a] by linarith
  show "sint a sdiv sint b < 0x8000000000000000"
  proof (cases "sint a = INT64_MIN")
    case True
    then have "sint a sdiv sint b \<noteq> - sint a" using assms by (subst int_sdiv_negated_is_minus1) auto
    then show ?thesis using r True by linarith
  qed (use r int_bounds [of a] in linarith)
qed

lemma sint_smod: "sint (b :: i64) \<noteq> 0 \<Longrightarrow> sint (word_of_int (sint a smod sint b) :: i64) = sint a smod sint b"
  using smod_int_range [of "sint b" "sint a"] int_bounds [of b]
  by (intro sint64_of_int) auto

lemma smod_facts:
  assumes "b \<noteq> 0"
  shows "\<bar>a smod b\<bar> < \<bar>b\<bar>" and "a smod b = 0 \<or> sgn (a smod b) = sgn (a :: int)"
proof -
  show "\<bar>a smod b\<bar> < \<bar>b\<bar>" using smod_int_range [of b a] assms by auto
  have "0 \<le> \<bar>a\<bar> mod \<bar>b\<bar>" using assms by simp
  then show "a smod b = 0 \<or> sgn (a smod b) = sgn a" by (cases "\<bar>a\<bar> mod \<bar>b\<bar> = 0") (auto simp: smod_int_alt_def sgn_mult)
qed

section \<open>Equality\<close>

definition val_ok :: "jsi_val \<Rightarrow> bool" where
  "val_ok v = (case v of JStr r \<Rightarrow> rope_ok r | _ \<Rightarrow> True)"

text \<open>A value of the language (the other tags are internal), and its meaning: a string is its code
  units.\<close>

fun language_value :: "jsi_val \<Rightarrow> bool" where
  "language_value JUninitialized = False"
| "language_value (JCatchOffset _) = False"
| "language_value (JModule _) = False"
| "language_value (JBytecode _) = False"
| "language_value _ = True"

fun meaning :: "jsi_val \<Rightarrow> jsi_val + u16 list" where
  "meaning (JStr r) = Inr (flat r)"
| "meaning v = Inl v"

lemma string_cmp_ok:
  assumes "rope_ok r1" "rope_ok r2"
  shows "\<exists>c. string_cmp eq_only r1 r2 = Ok c \<and> (c = 0) = (flat r1 = flat r2)
    \<and> (\<not> eq_only \<longrightarrow> (c < 0) = (flat r1 < flat r2) \<and> (c > 0) = (flat r2 < flat r1))"
proof (cases "is_str r1 \<and> is_str r2")
  case True
  then obtain p1 p2 where "r1 = RStr p1" "r2 = RStr p2" by (cases r1; cases r2) auto
  then show ?thesis
    using compare_units [of p1 p2] cmp_units_less cmp_units_eq cmp_units_greater by (auto simp: string_cmp_def)
next
  case False
  then have "string_cmp eq_only r1 r2 = (case jsi_string_rope_compare r1 r2 eq_only of None \<Rightarrow> Undef | Some c \<Rightarrow> Ok c)"
    by (cases r1; cases r2) (simp_all add: string_cmp_def)
  then show ?thesis using rope_compare_units [OF assms] rope_compare_eq_only [OF assms] by (cases eq_only) auto
qed

lemma strict_eq_meaning:
  assumes "val_ok a" "val_ok b" "language_value a"
  shows "jsi_strict_eq2 a b = Ok (meaning a = meaning b)"
proof (cases "is_string a \<and> is_string b")
  case True
  then obtain r1 r2 where "a = JStr r1" "b = JStr r2" by (cases a; cases b) auto
  then show ?thesis using string_cmp_ok [of r1 r2 True] assms(1,2) by (auto simp: jsi_strict_eq2_def val_ok_def)
next
  case False
  then show ?thesis using assms(3) by (cases a; cases b) (simp_all add: jsi_strict_eq2_def)
qed

text \<open>Rounds of loose equality: none without booleans and objects, one more for a boolean.\<close>

lemma bind_cong_Ok:
  "(\<And>x w'. m w = (Ok x, w') \<Longrightarrow> f x w' = g x w') \<Longrightarrow> bind_act m f w = bind_act m g w"
  by (auto simp: bind_act_def split: prod.split outcome.split)

lemma eq_slow_simple:
  assumes "\<not> is_object a" "\<not> is_object b" "tag_of a \<noteq> 1" "tag_of b \<noteq> 1"
  shows "jsi_eq_slow (Suc k) h a b = jsi_eq_slow (Suc 0) h a b"
  using assms by (simp add: Let_def)

lemma bool_num_tag: "tag_of (bool_num a) \<noteq> 1 \<and> is_object (bool_num a) = is_object a"
  by (cases a rule: tag_of.cases) (simp_all add: bool_num_def)

lemma eq_slow_prim:
  assumes "\<not> is_object a" "\<not> is_object b"
  shows "jsi_eq_slow (Suc (Suc k)) h a b = jsi_eq_slow (Suc (Suc 0)) h a b"
proof (cases "tag_of a = 1 \<and> tag_of b \<noteq> 1 \<or> tag_of a \<noteq> 1 \<and> tag_of b = 1")
  case True
  have "jsi_eq_slow (Suc k) h (bool_num a) b = jsi_eq_slow (Suc 0) h (bool_num a) b" if "tag_of b \<noteq> 1"
    using that assms bool_num_tag [of a] by (intro eq_slow_simple) auto
  moreover have "jsi_eq_slow (Suc k) h a (bool_num b) = jsi_eq_slow (Suc 0) h a (bool_num b)" if "tag_of a \<noteq> 1"
    using that assms bool_num_tag [of b] by (intro eq_slow_simple) auto
  ultimately show ?thesis using True assms
    unfolding jsi_eq_slow.simps(2) [of "Suc k" h a b] jsi_eq_slow.simps(2) [of "Suc 0" h a b] Let_def by auto
next
  case False
  then show ?thesis using assms by (auto simp: Let_def)
qed

definition needs_prim :: "jsi_val \<Rightarrow> jsi_val \<Rightarrow> bool" where
  "needs_prim a b \<longleftrightarrow> is_object a \<and> (is_number b \<or> is_string b \<or> is_symbol b)
     \<or> is_object b \<and> (is_number a \<or> is_string a \<or> is_symbol a)"

lemma eq_slow_prims:
  assumes "needs_prim a b"
  shows "jsi_eq_slow (Suc n) h a b = bind_act (JSI_ToPrimitiveFree h a HINT_NONE False) (\<lambda>p1.
    bind_act (JSI_ToPrimitiveFree h b HINT_NONE False) (\<lambda>p2. jsi_eq_slow n h p1 p2))"
  using assms
  by (cases a rule: tag_of.cases; cases b rule: tag_of.cases) (simp_all add: needs_prim_def)

lemma eq_slow_obj:
  assumes "tag_of a \<noteq> 1" "tag_of b \<noteq> 1"
  shows "jsi_eq_slow (Suc (Suc (Suc k))) h a b = jsi_eq_slow (Suc (Suc (Suc 0))) h a b"
proof (cases "needs_prim a b")
  case True
  show ?thesis unfolding eq_slow_prims [OF True]
    by (rule ext, intro bind_cong_Ok) (metis eq_slow_prim ToPrimitive_prim)
next
  case False
  then show ?thesis using assms
    by (cases a rule: tag_of.cases; cases b rule: tag_of.cases) (simp_all add: needs_prim_def)
qed

lemma eq_slow_rounds: "jsi_eq_slow (Suc (Suc (Suc (Suc k)))) h a b = jsi_eq_slow (Suc (Suc (Suc (Suc 0)))) h a b"
proof (cases "tag_of a = 1 \<longleftrightarrow> tag_of b = 1")
  case True
  show ?thesis
  proof (cases "tag_of a = 1")
    case False
    then show ?thesis using True eq_slow_obj [of a b "Suc k" h] eq_slow_obj [of a b "Suc 0" h] by metis
  qed (use True in \<open>simp add: Let_def\<close>)
next
  case False
  have "jsi_eq_slow (Suc (Suc (Suc k))) h (bool_num a) b = jsi_eq_slow (Suc (Suc (Suc 0))) h (bool_num a) b" if "tag_of b \<noteq> 1"
    using that bool_num_tag [of a] by (intro eq_slow_obj) auto
  moreover have "jsi_eq_slow (Suc (Suc (Suc k))) h a (bool_num b) = jsi_eq_slow (Suc (Suc (Suc 0))) h a (bool_num b)" if "tag_of a \<noteq> 1"
    using that bool_num_tag [of b] by (intro eq_slow_obj) auto
  moreover have "\<not> is_object a" if "tag_of a = 1" using that by (cases a rule: tag_of.cases) auto
  moreover have "\<not> is_object b" if "tag_of b = 1" using that by (cases b rule: tag_of.cases) auto
  ultimately show ?thesis using False
    unfolding jsi_eq_slow.simps(2) [of "Suc (Suc (Suc k))" h a b] jsi_eq_slow.simps(2) [of "Suc (Suc (Suc 0))" h a b] Let_def
    by auto
qed

section \<open>Stack effect\<close>

lemma binary_effect:
  "binary fr f w = (Ok fr', w') \<Longrightarrow> length (stack fr) = Suc (length (stack fr')) \<and> var_buf fr' = var_buf fr
     \<and> (\<exists>r. stack fr' = r # drop 2 (stack fr))"
  by (auto simp: binary_def bind_Ok split: list.splits)

lemma unary_effect:
  "unary fr f w = (Ok fr', w') \<Longrightarrow> length (stack fr) = length (stack fr') \<and> var_buf fr' = var_buf fr
     \<and> (\<exists>r. stack fr' = r # drop 1 (stack fr))"
  by (auto simp: unary_def bind_Ok split: list.splits)

lemma post_effect:
  "post fr f w = (Ok fr', w') \<Longrightarrow> Suc (length (stack fr)) = length (stack fr') \<and> var_buf fr' = var_buf fr"
  by (auto simp: post_def bind_Ok split: list.splits prod.splits)

lemma local_effect:
  "local_var fr idx f w = (Ok fr', w') \<Longrightarrow> stack fr' = stack fr \<and> length (var_buf fr') = length (var_buf fr)"
  by (auto simp: local_var_def bind_Ok split: if_splits)

section \<open>Properties\<close>

text \<open>C29: on integers, \<open>+\<close>, \<open>-\<close>, \<open>*\<close>, unary minus, increment and decrement compute the exact mathematical
  result when it fits in 64 bits and raise a \<open>RangeError\<close> otherwise: no operation wraps around.\<close>

theorem int_arith_exact:
  "exact (op_add h (JInt a) (JInt b)) (sint a + sint b) \<and> exact (op_sub h (JInt a) (JInt b)) (sint a - sint b)
   \<and> exact (op_mul h (JInt a) (JInt b)) (sint a * sint b) \<and> exact (op_neg h (JInt a)) (- sint a)
   \<and> exact (op_inc h (JInt a)) (sint a + 1) \<and> exact (op_dec h (JInt a)) (sint a - 1)"
  by (simp add: op_add_def op_sub_def op_mul_def exact_int64_or exact_neg exact_inc exact_dec)

text \<open>C30: for two integers the fast path of an instruction and its slow path agree: addition (also on a
  local variable), subtraction, and all eight comparisons.\<close>

theorem fast_slow_agree:
  "op_add h (JInt a) (JInt b) = jsi_add_slow h (JInt a) (JInt b)
   \<and> op_add_loc h (JInt a) (JInt b) = jsi_add_slow h (JInt a) (JInt b)
   \<and> op_sub h (JInt a) (JInt b) = jsi_binary_arith_slow h OP_sub (JInt a) (JInt b)
   \<and> op_cmp h op (JInt a) (JInt b) = cmp_slow h op (JInt a) (JInt b)"
  using add_fast_slow [of h a b] add_loc_fast [of h a b] cmp_fast_slow [of h op a b]
  by (simp add: op_sub_def jsi_binary_arith_slow_def)

text \<open>division and the remainder of the slow path are those of C: away from a zero divisor and
  \<open>INT64_MIN / -1\<close>, the quotient and the remainder reconstruct the dividend, and the remainder is
  smaller than the divisor and has the sign of the dividend.\<close>

lemma div_mod_identity:
  assumes "b \<noteq> 0" and "\<not> (sint a = INT64_MIN \<and> sint b = -1)"
  shows "\<exists>q r. op_div h (JInt a) (JInt b) w = (Ok (JInt q), w)
    \<and> jsi_binary_arith_slow h OP_mod (JInt a) (JInt b) w = (Ok (JInt r), w)
    \<and> sint a = sint q * sint b + sint r \<and> \<bar>sint r\<bar> < \<bar>sint b\<bar> \<and> (sint r = 0 \<or> sgn (sint r) = sgn (sint a))"
proof -
  have b: "sint b \<noteq> 0" using assms(1) by (metis word_of_sint word_of_int_0)
  show ?thesis
    using assms sint_sdiv [OF assms(2)] sint_smod [OF b, of a] smod_facts [OF b, of "sint a"]
      sdiv_mult_smod_eq [of "sint a" "sint b"]
    by (auto simp: op_div_def jsi_binary_arith_slow_def ret_def)
qed


text \<open>C38: the slow path of the unary operators never succeeds, whatever the operand and the user code:
  \<open>+true\<close> or \<open>-"5"\<close> raise instead of giving a number, and so does every postfix increment or decrement,
  which has no fast path.\<close>

theorem unary_slow_fails:
  "jsi_unary_arith_slow h op v w \<noteq> (Ok r, w') \<and> exec_op h OP_post_inc fr w \<noteq> (Ok fr', w')
   \<and> exec_op h OP_post_dec fr w \<noteq> (Ok fr', w')"
proof -
  have u: "jsi_unary_arith_slow h op v w \<noteq> (Ok r, w')" for op v w r w'
    by (auto simp: jsi_unary_arith_slow_def bind_Ok range_error_def no_exception_def split: jsi_val.splits if_splits)
  then show ?thesis by (auto simp: exec_op_def post_def jsi_post_inc_slow_def bind_Ok split: list.splits)
qed

text \<open>An arithmetic or logical operator whose operands are not both integers after conversion stores
  no result: \<open>5 - undefined\<close> is 5 and \<open>true | 2\<close> is \<open>true\<close>.\<close>

lemma slow_ops_keep_left:
  "op_sub h (JInt a) JUndefined w = (Ok (JInt a), w) \<and> op_or h (JBool x) (JInt b) w = (Ok (JBool x), w)
   \<and> op_add h (JInt a) JUndefined w = (Ok (JInt a), w)"
  by (simp add: op_sub_def op_or_def op_add_def jsi_add_slow_def both_int_def jsi_binary_arith_slow_def
      jsi_binary_logic_slow_def both_numeric_def stale_def Let_def)

text \<open>C31: strict equality of language values is equality of their meanings: strings are compared by their
  code units, whatever mixture of 8-bit strings, 16-bit strings and ropes represents them.\<close>

theorem strict_eq_is_equality:
  assumes "val_ok a" and "val_ok b" and "language_value a"
  shows "jsi_strict_eq2 a b = Ok (meaning a = meaning b)"
  using assms by (rule strict_eq_meaning)

theorem strict_eq_is_equality_witness:
  "jsi_strict_eq2 (JStr (RStr (Str8 [0x61]))) (JStr (RStr (Str16 [0x61])))
     = Ok (meaning (JStr (RStr (Str8 [0x61]))) = meaning (JStr (RStr (Str16 [0x61]))))"
  by (rule strict_eq_is_equality) (simp_all add: val_ok_def str_len_def JSI_STRING_LEN_MAX_def)

text \<open>The relational operators order integers as signed numbers and well-formed strings by their code
  units.\<close>

lemma relational_order:
  assumes "rope_ok r" and "rope_ok s"
  shows "op_cmp h OP_lt (JStr r) (JStr s) w = (Ok (JBool (flat r < flat s)), w)
    \<and> op_cmp h OP_lte (JStr r) (JStr s) w = (Ok (JBool (flat r \<le> flat s)), w)
    \<and> op_cmp h OP_gt (JStr r) (JStr s) w = (Ok (JBool (flat s < flat r)), w)
    \<and> op_cmp h OP_gte (JStr r) (JStr s) w = (Ok (JBool (flat s \<le> flat r)), w)
    \<and> op_cmp h OP_lt (JInt a) (JInt b) w = (Ok (JBool (sint a < sint b)), w)"
proof -
  obtain c where "string_cmp False r s = Ok c" "(c < 0) = (flat r < flat s)" "(c = 0) = (flat r = flat s)" "(c > 0) = (flat s < flat r)"
    using string_cmp_ok [OF assms, of False] by auto
  then have c: "(c < 0) = (flat r < flat s)" "(c \<le> 0) = (flat r \<le> flat s)" "(c > 0) = (flat s < flat r)" "(c \<ge> 0) = (flat s \<le> flat r)"
    by (auto simp: le_less)
  have "op_cmp h op (JStr r) (JStr s) = ret (JBool (cmp_result op c))"
    if "op \<in> {OP_lt, OP_lte, OP_gt, OP_gte}" for op
    using that \<open>string_cmp False r s = Ok c\<close>
    by (auto simp: op_cmp_def both_int_def cmp_slow_def jsi_relational_slow_def)
  moreover have "op_cmp h OP_lt (JInt a) (JInt b) = ret (JBool (sint a < sint b))"
    by (simp add: op_cmp_def cmp_int_def cmp_result_def)
  ultimately show ?thesis using c by (simp add: cmp_result_def)
qed

text \<open>Loose equality starts over at most three times: the conversions of a boolean to a number and of an
  object to a primitive make progress, so more rounds change nothing.\<close>

lemma loose_equality_ends:
  "jsi_eq_slow (4 + k) h a b = jsi_eq_slow 4 h a b"
  using eq_slow_rounds [of k h a b] by (simp add: eval_nat_numeral)



end
