(* ===== verification/QAtom.thy ===== *)
theory QAtom
  imports QNumber
begin

text \<open>
  The atom table of the contract engine (\<^verbatim>\<open>src/src/qjsi/quickjs_i.c\<close>, lines 456 to 490, 3134 to
  3194 and 3634 to 4530): the interned strings and symbols that name properties. An atom is an
  index into \<open>atom_array\<close> or, with bit 31 set, a small integer. A slot of the array holds a string
  object or the next free index (in C a pointer with bit 0 set); the string and global-symbol atoms
  are also linked, through \<open>hash_next\<close>, in the buckets of \<open>atom_hash\<close>. String objects live in a
  store indexed by address, because the code compares and frees them by address: a string that is
  interned becomes its atom. \<open>None\<close> is undefined behaviour, a failed assertion or a loop that does
  not end. Indices and counters are natural numbers; the one product that can leave the range of
  \<open>int\<close> is checked. Reference counts are unbounded. The build does not define \<open>DUMP_LEAKS\<close>.
\<close>

section \<open>Definitions\<close>

type_synonym addr = nat

text \<open>\<open>JSIString\<close> (\<open>JSAtomStruct\<close> is the same struct): the length, the width and the characters are
  \<open>s_data\<close>; \<open>atom_type\<close> is 0 for a string that is not an atom.\<close>

record str_obj =
  ref_count :: int
  s_data :: jsi_string
  hash :: u32
  atom_type :: nat
  hash_next :: nat

datatype atom_slot = FreeSlot nat | StrSlot addr

record atom_rt =
  atom_hash_size :: nat
  atom_count :: nat
  atom_size :: nat
  atom_count_resize :: nat
  atom_hash :: "nat list"
  atom_array :: "atom_slot list"
  atom_free_index :: nat
  strs :: "addr \<rightharpoonup> str_obj"

text \<open>The allocator as the table sees it: the address of a new string object (for the objects that
  live and the payload size), and which allocations of the two arrays succeed.\<close>

record atom_env =
  ae_str :: "(addr \<rightharpoonup> str_obj) \<Rightarrow> nat \<Rightarrow> addr option"
  ae_array :: "nat \<Rightarrow> bool"
  ae_hash :: "nat \<Rightarrow> bool"

definition JSI_ATOM_TYPE_STRING :: nat where "JSI_ATOM_TYPE_STRING = 1"
definition JSI_ATOM_TYPE_GLOBAL_SYMBOL :: nat where "JSI_ATOM_TYPE_GLOBAL_SYMBOL = 2"
definition JSI_ATOM_TYPE_SYMBOL :: nat where "JSI_ATOM_TYPE_SYMBOL = 3"
definition JSI_ATOM_TYPE_PRIVATE :: nat where "JSI_ATOM_TYPE_PRIVATE = 4"

definition JSI_ATOM_HASH_MASK :: u32 where "JSI_ATOM_HASH_MASK = push_bit 30 1 - 1"
definition JSI_ATOM_HASH_PRIVATE :: u32 where "JSI_ATOM_HASH_PRIVATE = JSI_ATOM_HASH_MASK"

definition JSI_ATOM_TAG_INT :: nat where "JSI_ATOM_TAG_INT = 2 ^ 31"
definition JSI_ATOM_MAX_INT :: nat where "JSI_ATOM_MAX_INT = JSI_ATOM_TAG_INT - 1"
definition JSI_ATOM_MAX :: nat where "JSI_ATOM_MAX = 2 ^ 30 - 1"
definition JSI_ATOM_END :: nat where "JSI_ATOM_END = 226"
definition JSI_ATOM_empty_string :: nat where "JSI_ATOM_empty_string = 47"

text \<open>The comparison is signed: a tagged integer is a constant too.\<close>

definition JSI_AtomIsConst :: "nat \<Rightarrow> bool" where
  "JSI_AtomIsConst v \<longleftrightarrow> sint (of_nat v :: u32) < int JSI_ATOM_END"

definition JSI_AtomIsTaggedInt :: "nat \<Rightarrow> bool" where
  "JSI_AtomIsTaggedInt v \<longleftrightarrow> v AND JSI_ATOM_TAG_INT \<noteq> 0"

definition JSI_AtomFromUInt32 :: "nat \<Rightarrow> nat" where
  "JSI_AtomFromUInt32 v = v OR JSI_ATOM_TAG_INT"

definition JSI_AtomToUInt32 :: "nat \<Rightarrow> nat" where
  "JSI_AtomToUInt32 v = v AND (2 ^ 31 - 1)"

definition is_num :: "u16 \<Rightarrow> bool" where
  "is_num c \<longleftrightarrow> 0x30 \<le> c \<and> c \<le> 0x39"

text \<open>The digits after the first; \<open>n\<close> is a \<open>uint32_t\<close>, the product a \<open>uint64_t\<close>.\<close>

fun num_digits :: "nat \<Rightarrow> u16 list \<Rightarrow> nat option" where
  "num_digits n [] = Some n"
| "num_digits n (c # cs) =
     (if \<not> is_num c then None
      else
        let n64 = n * 10 + (unat c - 0x30) in
        if drop_bit 32 n64 \<noteq> 0 then None else num_digits n64 cs)"

definition is_num_string :: "jsi_string \<Rightarrow> nat option" where
  "is_num_string p =
     (case units p of
        [] \<Rightarrow> None
      | c # cs \<Rightarrow>
          if str_len p > 10 then None
          else if \<not> is_num c then None
          else if c = 0x30 then (if str_len p \<noteq> 1 then None else Some 0)
          else num_digits (unat c - 0x30) cs)"

definition hash_string8 :: "bytes \<Rightarrow> u32 \<Rightarrow> u32" where
  "hash_string8 str h = foldl (\<lambda>h c. h * 263 + ucast c) h str"

definition hash_string16 :: "u16 list \<Rightarrow> u32 \<Rightarrow> u32" where
  "hash_string16 str h = foldl (\<lambda>h c. h * 263 + ucast c) h str"

definition hash_string :: "jsi_string \<Rightarrow> u32 \<Rightarrow> u32" where
  "hash_string p h = (case p of Str16 us \<Rightarrow> hash_string16 us h | Str8 bs \<Rightarrow> hash_string8 bs h)"

fun hash_string_rope :: "jsi_rope \<Rightarrow> u32 \<Rightarrow> u32" where
  "hash_string_rope (RStr p) h = hash_string p h"
| "hash_string_rope (RNode _ _ _ l r) h = hash_string_rope r (hash_string_rope l h)"

text \<open>\<open>p = rt->atom_array[i]\<close> followed by an access through \<open>p\<close>: the address and the object.\<close>

definition atom_entry :: "atom_rt \<Rightarrow> nat \<Rightarrow> (addr \<times> str_obj) option" where
  "atom_entry s i = do {
     e \<leftarrow> mem_get (atom_array s) i;
     (case e of FreeSlot _ \<Rightarrow> None
      | StrSlot a \<Rightarrow> do { p \<leftarrow> strs s a; Some (a, p) }) }"

definition upd_str :: "atom_rt \<Rightarrow> addr \<Rightarrow> (str_obj \<Rightarrow> str_obj) \<Rightarrow> atom_rt" where
  "upd_str s a f = s\<lparr>strs := (strs s)(a := map_option f (strs s a))\<rparr>"

definition add_ref :: "int \<Rightarrow> str_obj \<Rightarrow> str_obj" where
  "add_ref d p = p\<lparr>ref_count := ref_count p + d\<rparr>"

definition hash_bucket :: "atom_rt \<Rightarrow> u32 \<Rightarrow> nat" where
  "hash_bucket s h = unat (h AND (of_nat (atom_hash_size s) - 1))"

text \<open>A new object, not an atom (\<open>jsi_alloc_string_rt\<close> and the copy of the characters).\<close>

definition jsi_alloc_string_rt :: "atom_env \<Rightarrow> atom_rt \<Rightarrow> jsi_string \<Rightarrow> (addr \<times> atom_rt) option" where
  "jsi_alloc_string_rt E s d =
     (case ae_str E (strs s) (payload_bytes (str_len d) (is_wide_char d)) of
        None \<Rightarrow> None
      | Some a \<Rightarrow> Some (a, s\<lparr>strs := (strs s)(a \<mapsto>
          \<lparr>ref_count = 1, s_data = d, hash = 0, atom_type = 0, hash_next = 0\<rparr>)\<rparr>))"

subsection \<open>The hash table\<close>

text \<open>The walk along a bucket: the first index whose object passes the test, or 0.\<close>

partial_function (option) chain_search ::
  "atom_rt \<Rightarrow> (str_obj \<Rightarrow> bool option) \<Rightarrow> nat \<Rightarrow> nat option" where
  "chain_search s match i =
     (if i = 0 then Some 0
      else do {
        (a, p) \<leftarrow> atom_entry s i;
        m \<leftarrow> match p;
        if m then Some i else chain_search s match (hash_next p) })"

declare chain_search.simps [code]

text \<open>The walk that moves a bucket into the new table.\<close>

partial_function (option) rehash_chain ::
  "atom_rt \<Rightarrow> nat list \<Rightarrow> u32 \<Rightarrow> nat \<Rightarrow> (atom_rt \<times> nat list) option" where
  "rehash_chain s new_hash msk h =
     (if h = 0 then Some (s, new_hash)
      else do {
        (a, p) \<leftarrow> atom_entry s h;
        let j = unat (hash p AND msk);
        v \<leftarrow> mem_get new_hash j;
        new_hash' \<leftarrow> mem_set new_hash j h;
        rehash_chain (upd_str s a (hash_next_update (\<lambda>_. v))) new_hash' msk (hash_next p) })"

declare rehash_chain.simps [code]

fun rehash_buckets ::
  "atom_rt \<Rightarrow> nat list \<Rightarrow> u32 \<Rightarrow> nat list \<Rightarrow> (atom_rt \<times> nat list) option" where
  "rehash_buckets s new_hash msk [] = Some (s, new_hash)"
| "rehash_buckets s new_hash msk (h # hs) = do {
     (s, new_hash) \<leftarrow> rehash_chain s new_hash msk h;
     rehash_buckets s new_hash msk hs }"

definition JSI_ResizeAtomHash :: "atom_env \<Rightarrow> atom_rt \<Rightarrow> nat \<Rightarrow> (int \<times> atom_rt) option" where
  "JSI_ResizeAtomHash E s new_hash_size =
     (if new_hash_size AND (new_hash_size - 1) \<noteq> 0 then None
      else if \<not> ae_hash E new_hash_size then Some (-1, s)
      else do {
        (s, new_hash) \<leftarrow> rehash_buckets s (replicate new_hash_size 0) (of_nat new_hash_size - 1) (atom_hash s);
        Some (0, s\<lparr>atom_hash := new_hash, atom_hash_size := new_hash_size,
                   atom_count_resize := new_hash_size * 2\<rparr>) })"

text \<open>The index of an atom from its object: the bucket is walked until the address is found.\<close>

partial_function (option) chain_index :: "atom_rt \<Rightarrow> addr \<Rightarrow> nat \<Rightarrow> nat option" where
  "chain_index s a i = do {
     (a1, p1) \<leftarrow> atom_entry s i;
     if a1 = a then Some i
     else if i = 0 then None
     else chain_index s a (hash_next p1) }"

declare chain_index.simps [code]

definition jsi_get_atom_index :: "atom_rt \<Rightarrow> addr \<Rightarrow> nat option" where
  "jsi_get_atom_index s a = do {
     p \<leftarrow> strs s a;
     if atom_type p \<noteq> JSI_ATOM_TYPE_SYMBOL then do {
       i \<leftarrow> mem_get (atom_hash s) (hash_bucket s (hash p));
       chain_index s a i }
     else Some (hash_next p) }"

subsection \<open>Freeing\<close>

text \<open>The loop that unlinks the object at \<open>a\<close> from its bucket, and the index it had.\<close>

partial_function (option) unlink_loop :: "atom_rt \<Rightarrow> addr \<Rightarrow> nat \<Rightarrow> (nat \<times> atom_rt) option" where
  "unlink_loop s a i =
     (if i = 0 then None
      else do {
        (a0, p0) \<leftarrow> atom_entry s i;
        (a1, p1) \<leftarrow> atom_entry s (hash_next p0);
        if a1 = a then Some (hash_next p0, upd_str s a0 (hash_next_update (\<lambda>_. hash_next p1)))
        else unlink_loop s a (hash_next p0) })"

declare unlink_loop.simps [code]

definition atom_unlink :: "atom_rt \<Rightarrow> addr \<Rightarrow> str_obj \<Rightarrow> (nat \<times> atom_rt) option" where
  "atom_unlink s a p =
     (if atom_type p \<noteq> JSI_ATOM_TYPE_SYMBOL then
        let h0 = hash_bucket s (hash p) in do {
          i \<leftarrow> mem_get (atom_hash s) h0;
          (a1, p1) \<leftarrow> atom_entry s i;
          if a1 = a then do {
            hs \<leftarrow> mem_set (atom_hash s) h0 (hash_next p1);
            Some (i, s\<lparr>atom_hash := hs\<rparr>) }
          else unlink_loop s a i }
      else Some (hash_next p, s))"

definition JSI_FreeAtomStruct :: "atom_rt \<Rightarrow> addr \<Rightarrow> atom_rt option" where
  "JSI_FreeAtomStruct s a = do {
     p \<leftarrow> strs s a;
     (i, s) \<leftarrow> atom_unlink s a p;
     arr \<leftarrow> mem_set (atom_array s) i (FreeSlot (atom_free_index s));
     let s = s\<lparr>atom_array := arr, atom_free_index := i\<rparr>;
     let s = (if atom_type p = JSI_ATOM_TYPE_SYMBOL \<and> hash p \<noteq> JSI_ATOM_HASH_PRIVATE \<and> hash p \<noteq> 0 then s
              else s\<lparr>strs := (strs s)(a := None)\<rparr>);
     if atom_count s = 0 then None else Some (s\<lparr>atom_count := atom_count s - 1\<rparr>) }"

definition jsi_free_string :: "atom_rt \<Rightarrow> addr \<Rightarrow> atom_rt option" where
  "jsi_free_string s a = do {
     p \<leftarrow> strs s a;
     let s = upd_str s a (add_ref (- 1));
     if ref_count p - 1 \<le> 0 then
       (if atom_type p \<noteq> 0 then JSI_FreeAtomStruct s a else Some (s\<lparr>strs := (strs s)(a := None)\<rparr>))
     else Some s }"

text \<open>\<open>__JSI_FreeAtom\<close> and its guarded form.\<close>

definition free_atom :: "atom_rt \<Rightarrow> nat \<Rightarrow> atom_rt option" where
  "free_atom s i = do {
     (a, p) \<leftarrow> atom_entry s i;
     let s = upd_str s a (add_ref (- 1));
     if ref_count p - 1 > 0 then Some s else JSI_FreeAtomStruct s a }"

definition JSI_FreeAtom :: "atom_rt \<Rightarrow> nat \<Rightarrow> atom_rt option" where
  "JSI_FreeAtom s v = (if \<not> JSI_AtomIsConst v then free_atom s v else Some s)"

definition JSI_DupAtom :: "atom_rt \<Rightarrow> nat \<Rightarrow> (nat \<times> atom_rt) option" where
  "JSI_DupAtom s v =
     (if \<not> JSI_AtomIsConst v then do { (a, p) \<leftarrow> atom_entry s v; Some (v, upd_str s a (add_ref 1)) }
      else Some (v, s))"

subsection \<open>Creation\<close>

text \<open>More slots, all linked into the free list; \<open>False\<close> is the jump to \<open>fail\<close>. The first growth also
  makes the object of \<open>JSI_ATOM_NULL\<close>.\<close>

definition free_slots :: "nat \<Rightarrow> nat \<Rightarrow> atom_slot list" where
  "free_slots start new_size =
     map (\<lambda>i. FreeSlot (if i = new_size - 1 then 0 else i + 1)) [start..<new_size]"

definition null_atom :: str_obj where
  "null_atom = \<lparr>ref_count = 1, s_data = Str8 [], hash = 0, atom_type = JSI_ATOM_TYPE_SYMBOL, hash_next = 0\<rparr>"

definition atom_grow :: "atom_env \<Rightarrow> atom_rt \<Rightarrow> (bool \<times> atom_rt) option" where
  "atom_grow E s =
     (if \<not> int_ok (int (atom_size s) * 3) then None
      else
        let new_size = max 211 (atom_size s * 3 div 2) in
        if new_size > JSI_ATOM_MAX then Some (False, s)
        else if \<not> ae_array E new_size then Some (False, s)
        else if atom_size s = 0 then
          (case ae_str E (strs s) 0 of
             None \<Rightarrow> Some (False, s)
           | Some a \<Rightarrow> Some (True, s\<lparr>strs := (strs s)(a \<mapsto> null_atom), atom_count := atom_count s + 1,
               atom_size := new_size, atom_array := StrSlot a # free_slots 1 new_size,
               atom_free_index := 1\<rparr>))
        else Some (True, s\<lparr>atom_size := new_size,
               atom_array := atom_array s @ free_slots (atom_size s) new_size,
               atom_free_index := atom_size s\<rparr>))"

text \<open>The object of the new atom: the string itself when it is not an atom, else a copy; a symbol
  without description is an empty wide string. \<open>Inl\<close> is a failed allocation; it jumps to \<open>fail\<close>, and
  without a string there is nothing to free there.\<close>

definition atom_struct ::
  "atom_env \<Rightarrow> atom_rt \<Rightarrow> addr option \<Rightarrow> nat \<Rightarrow> (unit + addr \<times> atom_rt) option" where
  "atom_struct E s str ty =
     (case str of
        Some a \<Rightarrow> do {
          q \<leftarrow> strs s a;
          if atom_type q = 0 then Some (Inr (a, upd_str s a (atom_type_update (\<lambda>_. ty))))
          else (case jsi_alloc_string_rt E s (s_data q) of
                  None \<Rightarrow> Some (Inl ())
                | Some (b, s) \<Rightarrow> do { s \<leftarrow> jsi_free_string s a; Some (Inr (b, s)) }) }
      | None \<Rightarrow>
          (case jsi_alloc_string_rt E s (Str16 []) of
             None \<Rightarrow> Some (Inl ())
           | Some (b, s) \<Rightarrow> Some (Inr (b, s))))"

text \<open>The entry of the new atom. The result of the resize is ignored.\<close>

definition atom_link :: "atom_env \<Rightarrow> atom_rt \<Rightarrow> addr \<Rightarrow> u32 \<Rightarrow> nat \<Rightarrow> nat \<Rightarrow> (nat \<times> atom_rt) option" where
  "atom_link E s b h h1 ty = do {
     let i = atom_free_index s;
     e \<leftarrow> mem_get (atom_array s) i;
     nf \<leftarrow> (case e of FreeSlot n \<Rightarrow> Some n | StrSlot _ \<Rightarrow> None);
     arr \<leftarrow> mem_set (atom_array s) i (StrSlot b);
     let s = s\<lparr>atom_free_index := nf, atom_array := arr\<rparr>;
     let s = upd_str s b (\<lambda>p. p\<lparr>hash := h, hash_next := i, atom_type := ty\<rparr>);
     let s = s\<lparr>atom_count := atom_count s + 1\<rparr>;
     if ty \<noteq> JSI_ATOM_TYPE_SYMBOL then do {
       v \<leftarrow> mem_get (atom_hash s) h1;
       hs \<leftarrow> mem_set (atom_hash s) h1 i;
       let s = (upd_str s b (hash_next_update (\<lambda>_. v)))\<lparr>atom_hash := hs\<rparr>;
       if atom_count s \<ge> atom_count_resize s then do {
         (r, s) \<leftarrow> JSI_ResizeAtomHash E s (atom_hash_size s * 2);
         Some (i, s) }
       else Some (i, s) }
     else Some (i, s) }"

definition free_opt_string :: "atom_rt \<Rightarrow> addr option \<Rightarrow> atom_rt option" where
  "free_opt_string s str = (case str of None \<Rightarrow> Some s | Some a \<Rightarrow> jsi_free_string s a)"

definition atom_add :: "atom_env \<Rightarrow> atom_rt \<Rightarrow> addr option \<Rightarrow> u32 \<Rightarrow> nat \<Rightarrow> nat \<Rightarrow> (nat \<times> atom_rt) option" where
  "atom_add E s str h h1 ty = do {
     (grown, s) \<leftarrow> (if atom_free_index s = 0 then atom_grow E s else Some (True, s));
     if \<not> grown then do { s \<leftarrow> free_opt_string s str; Some (0, s) }
     else do {
       r \<leftarrow> atom_struct E s str ty;
       (case r of
          Inl _ \<Rightarrow> do { s \<leftarrow> free_opt_string s str; Some (0, s) }
        | Inr (b, s) \<Rightarrow> atom_link E s b h h1 ty) } }"

text \<open>The test of the lookup, and \<open>__JSI_NewAtom\<close>.\<close>

definition atom_match :: "u32 \<Rightarrow> nat \<Rightarrow> jsi_string \<Rightarrow> str_obj \<Rightarrow> bool option" where
  "atom_match h ty d p =
     (if hash p = h \<and> atom_type p = ty \<and> str_len (s_data p) = str_len d then do {
        r \<leftarrow> jsi_string_memcmp (s_data p) 0 d 0 (str_len d);
        Some (r = 0) }
      else Some False)"

definition new_atom :: "atom_env \<Rightarrow> atom_rt \<Rightarrow> addr option \<Rightarrow> nat \<Rightarrow> (nat \<times> atom_rt) option" where
  "new_atom E s str ty =
     (if ty < JSI_ATOM_TYPE_SYMBOL then do {
        a \<leftarrow> str;
        q \<leftarrow> strs s a;
        if atom_type q = ty then do {
          i \<leftarrow> jsi_get_atom_index s a;
          Some (i, if JSI_AtomIsConst i then upd_str s a (add_ref (- 1)) else s) }
        else
          let h = hash_string (s_data q) (of_nat ty) AND JSI_ATOM_HASH_MASK;
              h1 = hash_bucket s h
          in do {
            i0 \<leftarrow> mem_get (atom_hash s) h1;
            i \<leftarrow> chain_search s (atom_match h ty (s_data q)) i0;
            if i \<noteq> 0 then do {
              (b, p) \<leftarrow> atom_entry s i;
              let s = (if JSI_AtomIsConst i then s else upd_str s b (add_ref 1));
              s \<leftarrow> jsi_free_string s a;
              Some (i, s) }
            else atom_add E s str h h1 ty } }
      else atom_add E s str (if ty = JSI_ATOM_TYPE_SYMBOL then 0 else JSI_ATOM_HASH_PRIVATE) 0
             JSI_ATOM_TYPE_SYMBOL)"

text \<open>\<open>__JSI_FindAtom\<close>: its \<open>atom_type\<close> argument is not used.\<close>

definition find_match :: "u32 \<Rightarrow> bytes \<Rightarrow> str_obj \<Rightarrow> bool option" where
  "find_match h bs p =
     (if hash p = h \<and> atom_type p = JSI_ATOM_TYPE_STRING \<and> str_len (s_data p) = length bs
      then (case s_data p of
              Str8 cs \<Rightarrow> do { r \<leftarrow> memcmp8 cs bs (length bs); Some (r = 0) }
            | Str16 _ \<Rightarrow> Some False)
      else Some False)"

definition find_atom :: "atom_rt \<Rightarrow> bytes \<Rightarrow> (nat \<times> atom_rt) option" where
  "find_atom s bs =
     (let h = hash_string8 bs (of_nat JSI_ATOM_TYPE_STRING) AND JSI_ATOM_HASH_MASK in do {
        i0 \<leftarrow> mem_get (atom_hash s) (hash_bucket s h);
        i \<leftarrow> chain_search s (find_match h bs) i0;
        if i = 0 \<or> JSI_AtomIsConst i then Some (i, s)
        else do { (b, p) \<leftarrow> atom_entry s i; Some (i, upd_str s b (add_ref 1)) } })"

definition JSI_NewAtomStr :: "atom_env \<Rightarrow> atom_rt \<Rightarrow> addr \<Rightarrow> (nat \<times> atom_rt) option" where
  "JSI_NewAtomStr E s a = do {
     q \<leftarrow> strs s a;
     (case is_num_string (s_data q) of
        Some n \<Rightarrow>
          if n \<le> JSI_ATOM_MAX_INT then do { s \<leftarrow> jsi_free_string s a; Some (JSI_AtomFromUInt32 n, s) }
          else new_atom E s (Some a) JSI_ATOM_TYPE_STRING
      | None \<Rightarrow> new_atom E s (Some a) JSI_ATOM_TYPE_STRING) }"

text \<open>\<open>JSI_NewStringLen\<close> is modelled on contents; its result is put in the store. A failed allocation is
  the atom 0.\<close>

definition JSI_NewAtomLen ::
  "atom_env \<Rightarrow> alloc_ok \<Rightarrow> str_alloc \<Rightarrow> atom_rt \<Rightarrow> bytes \<Rightarrow> (nat \<times> atom_rt) option" where
  "JSI_NewAtomLen E al sa s bs = do {
     (i, s) \<leftarrow>
       (if bs = [] \<or> (\<not> (0x30 \<le> hd bs \<and> hd bs \<le> 0x39) \<and> count_ascii bs = length bs)
        then find_atom s bs else Some (0, s));
     if i \<noteq> 0 then Some (i, s)
     else do {
       r \<leftarrow> JSI_NewStringLen al sa bs;
       (case r of
          Inl _ \<Rightarrow> Some (0, s)
        | Inr d \<Rightarrow> (case jsi_alloc_string_rt E s d of
             None \<Rightarrow> Some (0, s)
           | Some (a, s) \<Rightarrow> JSI_NewAtomStr E s a)) } }"

text \<open>\<open>jsi_new_string8_len\<close> into the store.\<close>

definition new_number_atom :: "atom_env \<Rightarrow> atom_rt \<Rightarrow> i64 \<Rightarrow> (nat \<times> atom_rt) option" where
  "new_number_atom E s n =
     (case jsi_alloc_string_rt E s (Str8 (u64toa2 n)) of
        None \<Rightarrow> Some (0, s)
      | Some (a, s) \<Rightarrow> new_atom E s (Some a) JSI_ATOM_TYPE_STRING)"

definition JSI_NewAtomUInt32 :: "atom_env \<Rightarrow> atom_rt \<Rightarrow> u32 \<Rightarrow> (nat \<times> atom_rt) option" where
  "JSI_NewAtomUInt32 E s n =
     (if unat n \<le> JSI_ATOM_MAX_INT then Some (JSI_AtomFromUInt32 (unat n), s)
      else new_number_atom E s (ucast n))"

definition JSI_NewAtomInt64 :: "atom_env \<Rightarrow> atom_rt \<Rightarrow> i64 \<Rightarrow> (nat \<times> atom_rt) option" where
  "JSI_NewAtomInt64 E s n =
     (if unat n \<le> JSI_ATOM_MAX_INT then Some (JSI_AtomFromUInt32 (unat n), s)
      else new_number_atom E s n)"

definition atom_init :: "atom_env \<Rightarrow> atom_rt \<Rightarrow> bytes \<Rightarrow> nat \<Rightarrow> (nat \<times> atom_rt) option" where
  "atom_init E s bs ty =
     (case jsi_alloc_string_rt E s (Str8 bs) of
        None \<Rightarrow> Some (0, s)
      | Some (a, s) \<Rightarrow> new_atom E s (Some a) ty)"


subsection \<open>Symbols and values\<close>

datatype atom_kind = KIND_STRING | KIND_SYMBOL | KIND_PRIVATE

definition JSI_AtomGetKind :: "atom_rt \<Rightarrow> nat \<Rightarrow> atom_kind option" where
  "JSI_AtomGetKind s v =
     (if JSI_AtomIsTaggedInt v then Some KIND_STRING
      else do {
        (a, p) \<leftarrow> atom_entry s v;
        if atom_type p = JSI_ATOM_TYPE_STRING then Some KIND_STRING
        else if atom_type p = JSI_ATOM_TYPE_GLOBAL_SYMBOL then Some KIND_SYMBOL
        else if atom_type p = JSI_ATOM_TYPE_SYMBOL then
          Some (if hash p = JSI_ATOM_HASH_PRIVATE then KIND_PRIVATE else KIND_SYMBOL)
        else None })"

definition JSI_AtomIsString :: "atom_rt \<Rightarrow> nat \<Rightarrow> bool option" where
  "JSI_AtomIsString s v = map_option (\<lambda>k. k = KIND_STRING) (JSI_AtomGetKind s v)"

definition JSI_NewSymbol ::
  "atom_env \<Rightarrow> atom_rt \<Rightarrow> addr option \<Rightarrow> nat \<Rightarrow> ((alloc_error + addr) \<times> atom_rt) option" where
  "JSI_NewSymbol E s str ty = do {
     (i, s) \<leftarrow> new_atom E s str ty;
     if i = 0 then Some (Inl OutOfMemory, s)
     else do { (a, p) \<leftarrow> atom_entry s i; Some (Inr a, s) } }"

definition JSI_NewSymbolFromAtom ::
  "atom_env \<Rightarrow> atom_rt \<Rightarrow> nat \<Rightarrow> nat \<Rightarrow> ((alloc_error + addr) \<times> atom_rt) option" where
  "JSI_NewSymbolFromAtom E s descr ty =
     (if JSI_AtomIsTaggedInt descr \<or> \<not> descr < atom_size s then None
      else do {
        (a, p) \<leftarrow> atom_entry s descr;
        JSI_NewSymbol E (upd_str s a (add_ref 1)) (Some a) ty })"

text \<open>A value that points to a string object, as a string or as a symbol.\<close>

datatype atom_value = StrValue addr | SymValue addr

definition JSI_AtomToValue_force ::
  "atom_env \<Rightarrow> atom_rt \<Rightarrow> nat \<Rightarrow> bool \<Rightarrow> ((alloc_error + atom_value) \<times> atom_rt) option" where
  "JSI_AtomToValue_force E s atom force_string =
     (if JSI_AtomIsTaggedInt atom then
        (case jsi_alloc_string_rt E s (Str8 (u64toa2 (of_nat (JSI_AtomToUInt32 atom)))) of
           None \<Rightarrow> Some (Inl OutOfMemory, s)
         | Some (a, s) \<Rightarrow> Some (Inr (StrValue a), s))
      else if \<not> atom < atom_size s then None
      else do {
        (a, p) \<leftarrow> atom_entry s atom;
        if atom_type p = JSI_ATOM_TYPE_STRING then Some (Inr (StrValue a), upd_str s a (add_ref 1))
        else if force_string then do {
          (a, p) \<leftarrow> (if str_len (s_data p) = 0 \<and> is_wide_char (s_data p)
                     then atom_entry s JSI_ATOM_empty_string else Some (a, p));
          Some (Inr (StrValue a), upd_str s a (add_ref 1)) }
        else Some (Inr (SymValue a), upd_str s a (add_ref 1)) })"

definition JSI_AtomToValue :: "atom_env \<Rightarrow> atom_rt \<Rightarrow> nat \<Rightarrow> ((alloc_error + atom_value) \<times> atom_rt) option" where
  "JSI_AtomToValue E s atom = JSI_AtomToValue_force E s atom False"

definition JSI_AtomToString :: "atom_env \<Rightarrow> atom_rt \<Rightarrow> nat \<Rightarrow> ((alloc_error + atom_value) \<times> atom_rt) option" where
  "JSI_AtomToString E s atom = JSI_AtomToValue_force E s atom True"

definition JSI_AtomIsArrayIndex :: "atom_rt \<Rightarrow> nat \<Rightarrow> nat option option" where
  "JSI_AtomIsArrayIndex s atom =
     (if JSI_AtomIsTaggedInt atom then Some (Some (JSI_AtomToUInt32 atom))
      else if \<not> atom < atom_size s then None
      else do {
        (a, p) \<leftarrow> atom_entry s atom;
        Some (if atom_type p = JSI_ATOM_TYPE_STRING then
                (case is_num_string (s_data p) of
                   Some n \<Rightarrow> if n \<noteq> 2 ^ 32 - 1 then Some n else None
                 | None \<Rightarrow> None)
              else None) })"

definition JSI_AtomSymbolHasDescription :: "atom_rt \<Rightarrow> nat \<Rightarrow> bool option" where
  "JSI_AtomSymbolHasDescription s v =
     (if JSI_AtomIsTaggedInt v then Some False
      else do {
        (a, p) \<leftarrow> atom_entry s v;
        Some ((atom_type p = JSI_ATOM_TYPE_SYMBOL \<and> hash p \<noteq> JSI_ATOM_HASH_PRIVATE
               \<or> atom_type p = JSI_ATOM_TYPE_GLOBAL_SYMBOL)
              \<and> \<not> (str_len (s_data p) = 0 \<and> is_wide_char (s_data p))) })"

subsection \<open>The predefined atoms\<close>

definition atom_names :: "string list" where
  "atom_names = [
    ''null'', ''false'', ''true'', ''if'', ''else'', ''return'', ''var'', ''this'', ''delete'', ''void'',
    ''typeof'', ''new'', ''in'', ''instanceof'', ''do'', ''while'', ''for'', ''break'', ''continue'',
    ''switch'', ''case'', ''default'', ''throw'', ''try'', ''catch'', ''finally'', ''function'',
    ''debugger'', ''with'', ''class'', ''const'', ''enum'', ''export'', ''extends'', ''import'', ''super'',
    ''implements'', ''interface'', ''let'', ''package'', ''private'', ''protected'', ''public'',
    ''static'', ''yield'', ''await'', '''', ''length'', ''fileName'', ''lineNumber'', ''columnNumber'',
    ''message'', ''cause'', ''errors'', ''stack'', ''name'', ''toString'', ''toLocaleString'', ''valueOf'',
    ''eval'', ''prototype'', ''constructor'', ''configurable'', ''writable'', ''enumerable'', ''value'',
    ''get'', ''set'', ''of'', ''__proto__'', ''undefined'', ''number'', ''boolean'', ''string'',
    ''object'', ''symbol'', ''integer'', ''unknown'', ''arguments'', ''callee'', ''caller'', ''<eval>'',
    ''<ret>'', ''<var>'', ''<arg_var>'', ''<with>'', ''lastIndex'', ''target'', ''index'', ''input'',
    ''defineProperties'', ''apply'', ''join'', ''concat'', ''split'', ''construct'', ''getPrototypeOf'',
    ''setPrototypeOf'', ''isExtensible'', ''preventExtensions'', ''has'', ''deleteProperty'',
    ''defineProperty'', ''getOwnPropertyDescriptor'', ''ownKeys'', ''add'', ''done'', ''next'', ''values'',
    ''source'', ''flags'', ''global'', ''unicode'', ''raw'', ''new.target'', ''this.active_func'',
    ''<home_object>'', ''<computed_field>'', ''<static_computed_field>'', ''<class_fields_init>'',
    ''<brand>'', ''#constructor'', ''as'', ''from'', ''meta'', ''*default*'', ''*'', ''Module'', ''then'',
    ''resolve'', ''reject'', ''promise'', ''proxy'', ''revoke'', ''async'', ''exec'', ''groups'',
    ''indices'', ''status'', ''reason'', ''globalThis'', ''bigint'', ''hasIndices'', ''ignoreCase'',
    ''multiline'', ''dotAll'', ''sticky'', ''unicodeSets'', ''not-equal'', ''timed-out'', ''ok'',
    ''toJSON'', ''Object'', ''Array'', ''Error'', ''Number'', ''String'', ''Boolean'', ''Symbol'',
    ''Arguments'', ''Math'', ''JSON'', ''Date'', ''Function'', ''GeneratorFunction'', ''ForInIterator'',
    ''RegExp'', ''ArrayBuffer'', ''SharedArrayBuffer'', ''Uint8ClampedArray'', ''Int8Array'',
    ''Uint8Array'', ''Int16Array'', ''Uint16Array'', ''Int32Array'', ''Uint32Array'', ''BigInt64Array'',
    ''BigUint64Array'', ''Float16Array'', ''Float32Array'', ''Float64Array'', ''DataView'', ''BigInt'',
    ''WeakRef'', ''FinalizationRegistry'', ''Map'', ''Set'', ''WeakMap'', ''WeakSet'', ''Map Iterator'',
    ''Set Iterator'', ''Array Iterator'', ''String Iterator'', ''RegExp String Iterator'', ''Generator'',
    ''Proxy'', ''Promise'', ''PromiseResolveFunction'', ''PromiseRejectFunction'', ''AsyncFunction'',
    ''AsyncFunctionResolve'', ''AsyncFunctionReject'', ''AsyncGeneratorFunction'', ''AsyncGenerator'',
    ''EvalError'', ''RangeError'', ''ReferenceError'', ''SyntaxError'', ''TypeError'', ''URIError'',
    ''InternalError'', ''<brand>'', ''Symbol.toPrimitive'', ''Symbol.iterator'', ''Symbol.match'',
    ''Symbol.matchAll'', ''Symbol.replace'', ''Symbol.search'', ''Symbol.split'', ''Symbol.toStringTag'',
    ''Symbol.isConcatSpreadable'', ''Symbol.hasInstance'', ''Symbol.species'', ''Symbol.unscopables'',
    ''Symbol.asyncIterator'']"

definition jsi_atom_init :: bytes where
  "jsi_atom_init = concat (map (\<lambda>n. map of_char n @ [0]) atom_names) @ [0]"

definition JSI_ATOM_Private_brand :: nat where "JSI_ATOM_Private_brand = 212"
definition JSI_ATOM_Symbol_toPrimitive :: nat where "JSI_ATOM_Symbol_toPrimitive = 213"

definition init_atom_type :: "nat \<Rightarrow> nat" where
  "init_atom_type i =
     (if i = JSI_ATOM_Private_brand then JSI_ATOM_TYPE_PRIVATE
      else if i \<ge> JSI_ATOM_Symbol_toPrimitive then JSI_ATOM_TYPE_SYMBOL
      else JSI_ATOM_TYPE_STRING)"

text \<open>The loop over the table of names, with \<open>n\<close> atoms left.\<close>

primrec init_loop :: "nat \<Rightarrow> atom_env \<Rightarrow> atom_rt \<Rightarrow> bytes \<Rightarrow> (int \<times> atom_rt) option" where
  "init_loop 0 E s p = Some (0, s)"
| "init_loop (Suc n) E s p = do {
     let i = JSI_ATOM_END - Suc n;
     len \<leftarrow> strlen p;
     (r, s) \<leftarrow> atom_init E s (take len p) (init_atom_type i);
     if r = 0 then Some (-1, s) else init_loop n E s (drop (len + 1) p) }"

definition JSI_InitAtoms :: "atom_env \<Rightarrow> atom_rt \<Rightarrow> (int \<times> atom_rt) option" where
  "JSI_InitAtoms E s = do {
     let s = s\<lparr>atom_hash_size := 0, atom_hash := [], atom_count := 0, atom_size := 0, atom_free_index := 0\<rparr>;
     (r, s) \<leftarrow> JSI_ResizeAtomHash E s 256;
     if r \<noteq> 0 then Some (-1, s) else init_loop (JSI_ATOM_END - 1) E s jsi_atom_init }"

end
