(* ===== verification/QAtomTable.thy ===== *)
theory QAtomTable
  imports QAtom
begin

text \<open>
  The invariant of the atom table and its preservation by every operation.
\<close>

section \<open>The invariant\<close>

definition atom_obj :: "atom_rt \<Rightarrow> nat \<Rightarrow> str_obj option" where
  "atom_obj s i = map_option snd (atom_entry s i)"

definition nxt :: "atom_rt \<Rightarrow> nat \<Rightarrow> nat" where
  "nxt s i = (case atom_entry s i of Some (_, p) \<Rightarrow> hash_next p | None \<Rightarrow> 0)"

definition fnext :: "atom_rt \<Rightarrow> nat \<Rightarrow> nat" where
  "fnext s i = (case mem_get (atom_array s) i of Some (FreeSlot n) \<Rightarrow> n | _ \<Rightarrow> 0)"

definition free_set :: "atom_rt \<Rightarrow> nat set" where
  "free_set s = {i. \<exists>n. mem_get (atom_array s) i = Some (FreeSlot n)}"

definition live_set :: "atom_rt \<Rightarrow> nat set" where
  "live_set s = {i. atom_entry s i \<noteq> None}"

definition bucket_set :: "atom_rt \<Rightarrow> nat \<Rightarrow> nat set" where
  "bucket_set s b = {i. \<exists>a p. atom_entry s i = Some (a, p) \<and> atom_type p \<noteq> JSI_ATOM_TYPE_SYMBOL
     \<and> hash_bucket s (hash p) = b}"

definition atom_hash_of :: "nat \<Rightarrow> jsi_string \<Rightarrow> u32" where
  "atom_hash_of ty d = hash_string d (of_nat ty) AND JSI_ATOM_HASH_MASK"

definition entry_ok :: "nat \<Rightarrow> str_obj \<Rightarrow> bool" where
  "entry_ok i p \<longleftrightarrow>
     (if atom_type p = JSI_ATOM_TYPE_SYMBOL then hash_next p = i
      else atom_type p \<in> {1, 2} \<and> hash p = atom_hash_of (atom_type p) (s_data p))"

definition sizes_ok :: "atom_rt \<Rightarrow> bool" where
  "sizes_ok s \<longleftrightarrow> length (atom_array s) = atom_size s \<and> atom_size s \<le> JSI_ATOM_MAX
     \<and> (\<exists>k \<le> 29. atom_hash_size s = 2 ^ k) \<and> length (atom_hash s) = atom_hash_size s
     \<and> atom_count_resize s = atom_hash_size s * 2 \<and> atom_count s = card (live_set s)"

definition slots_ok :: "atom_rt \<Rightarrow> bool" where
  "slots_ok s \<longleftrightarrow> (\<forall>i < atom_size s. i \<in> free_set s \<or> i \<in> live_set s)
     \<and> (\<forall>i a p. atom_entry s i = Some (a, p) \<longrightarrow> entry_ok i p)
     \<and> (0 < atom_size s \<longrightarrow> (\<exists>a p. atom_entry s 0 = Some (a, p) \<and> atom_type p = JSI_ATOM_TYPE_SYMBOL))
     \<and> (\<exists>fl. chain (fnext s) (atom_free_index s) fl \<and> set fl = free_set s)"

definition store_ok :: "atom_rt \<Rightarrow> bool" where
  "store_ok s \<longleftrightarrow>
     (\<forall>i j a p q. atom_entry s i = Some (a, p) \<longrightarrow> atom_entry s j = Some (a, q) \<longrightarrow> i = j)
     \<and> (\<forall>a p. strs s a = Some p \<longrightarrow> atom_type p = 0 \<or> (\<exists>i. atom_entry s i = Some (a, p))
          \<or> atom_type p = JSI_ATOM_TYPE_SYMBOL \<and> ref_count p \<le> 0)"

definition unique_ok :: "atom_rt \<Rightarrow> bool" where
  "unique_ok s \<longleftrightarrow> (\<forall>i j a b p q. atom_entry s i = Some (a, p) \<longrightarrow> atom_entry s j = Some (b, q) \<longrightarrow>
     atom_type p = atom_type q \<longrightarrow> atom_type p \<noteq> JSI_ATOM_TYPE_SYMBOL \<longrightarrow>
     units (s_data p) = units (s_data q) \<longrightarrow> i = j)"

text \<open>The buckets hold every string and global-symbol atom except those of \<open>X\<close>.\<close>

definition buckets_ok :: "nat set \<Rightarrow> atom_rt \<Rightarrow> bool" where
  "buckets_ok X s \<longleftrightarrow> (\<forall>b < atom_hash_size s.
     \<exists>xs. chain (nxt s) (atom_hash s ! b) xs \<and> set xs = bucket_set s b - X)"

definition table_ok :: "nat set \<Rightarrow> atom_rt \<Rightarrow> bool" where
  "table_ok X s \<longleftrightarrow> sizes_ok s \<and> slots_ok s \<and> store_ok s \<and> unique_ok s \<and> buckets_ok X s"

definition atoms_ok :: "atom_rt \<Rightarrow> bool" where
  "atoms_ok s \<longleftrightarrow> table_ok {} s"

lemmas table_defs = table_ok_def sizes_ok_def slots_ok_def store_ok_def unique_ok_def buckets_ok_def

section \<open>Updates that keep the shape of the table\<close>

lemma atom_entry_upd:
  "atom_entry (upd_str s a f) i = map_option (\<lambda>(b, p). (b, if b = a then f p else p)) (atom_entry s i)"
  by (auto simp: atom_entry_def upd_str_def mem_get_def split: option.splits atom_slot.splits
      Option.bind_splits)

lemma upd_str_fields [simp]:
  "atom_hash_size (upd_str s a f) = atom_hash_size s" "atom_count (upd_str s a f) = atom_count s"
  "atom_size (upd_str s a f) = atom_size s" "atom_count_resize (upd_str s a f) = atom_count_resize s"
  "atom_hash (upd_str s a f) = atom_hash s" "atom_array (upd_str s a f) = atom_array s"
  "atom_free_index (upd_str s a f) = atom_free_index s"
  "strs (upd_str s a f) = (strs s)(a := map_option f (strs s a))"
  by (simp_all add: upd_str_def)

text \<open>\<open>s'\<close> has the arrays of \<open>s\<close>; the objects in the table differ in reference counts and, where they are
  hashed, in \<open>hash_next\<close>.\<close>

definition same_array :: "atom_rt \<Rightarrow> atom_rt \<Rightarrow> bool" where
  "same_array s s' \<longleftrightarrow> atom_count s' = atom_count s \<and> atom_size s' = atom_size s
     \<and> atom_array s' = atom_array s \<and> atom_free_index s' = atom_free_index s"

definition same_hash :: "atom_rt \<Rightarrow> atom_rt \<Rightarrow> bool" where
  "same_hash s s' \<longleftrightarrow> atom_hash_size s' = atom_hash_size s \<and> atom_hash s' = atom_hash s
     \<and> atom_count_resize s' = atom_count_resize s"

definition obj_sim :: "str_obj \<Rightarrow> str_obj \<Rightarrow> bool" where
  "obj_sim p q \<longleftrightarrow> s_data q = s_data p \<and> hash q = hash p \<and> atom_type q = atom_type p
     \<and> (atom_type p = JSI_ATOM_TYPE_SYMBOL \<longrightarrow> hash_next q = hash_next p)"

fun entry_sim :: "(addr \<times> str_obj) option \<Rightarrow> (addr \<times> str_obj) option \<Rightarrow> bool" where
  "entry_sim None None \<longleftrightarrow> True"
| "entry_sim (Some (a, p)) (Some (b, q)) \<longleftrightarrow> b = a \<and> obj_sim p q"
| "entry_sim _ _ \<longleftrightarrow> False"

definition table_sim :: "atom_rt \<Rightarrow> atom_rt \<Rightarrow> bool" where
  "table_sim s s' \<longleftrightarrow> same_array s s' \<and> (\<forall>i. entry_sim (atom_entry s i) (atom_entry s' i))"

lemma entry_simD: "table_sim s s' \<Longrightarrow> entry_sim (atom_entry s i) (atom_entry s' i)"
  by (simp add: table_sim_def)

lemma entry_simE:
  assumes "table_sim s s'" "atom_entry s' i = Some (a, q)"
  obtains p where "atom_entry s i = Some (a, p)" "obj_sim p q"
  using entry_simD [OF assms(1), of i] assms(2) that by (cases "atom_entry s i") auto

lemma entry_simE':
  assumes "table_sim s s'" "atom_entry s i = Some (a, p)"
  obtains q where "atom_entry s' i = Some (a, q)" "obj_sim p q"
  using entry_simD [OF assms(1), of i] assms(2) that by (cases "atom_entry s' i") auto

lemma table_sim_array:
  "table_sim s s' \<Longrightarrow> atom_count s' = atom_count s" "table_sim s s' \<Longrightarrow> atom_size s' = atom_size s"
  "table_sim s s' \<Longrightarrow> atom_array s' = atom_array s" "table_sim s s' \<Longrightarrow> atom_free_index s' = atom_free_index s"
  by (simp_all add: table_sim_def same_array_def)

lemma table_sim_live: "table_sim s s' \<Longrightarrow> live_set s' = live_set s"
  unfolding live_set_def by (auto elim: entry_simE entry_simE')

lemma table_sim_free: "table_sim s s' \<Longrightarrow> free_set s' = free_set s" "table_sim s s' \<Longrightarrow> fnext s' = fnext s"
  by (auto simp: table_sim_array free_set_def fnext_def fun_eq_iff)

lemma entry_ok_sim: "obj_sim p q \<Longrightarrow> entry_ok i p \<Longrightarrow> entry_ok i q"
  by (auto simp: obj_sim_def entry_ok_def)

lemma table_sim_slots:
  assumes "table_sim s s'" "slots_ok s"
  shows "slots_ok s'"
  unfolding slots_ok_def table_sim_live [OF assms(1)] table_sim_free [OF assms(1)]
    table_sim_array [OF assms(1)]
proof (intro conjI)
  show "\<forall>i a p. atom_entry s' i = Some (a, p) \<longrightarrow> entry_ok i p"
    using assms by (auto simp: slots_ok_def intro: entry_ok_sim elim!: entry_simE)
  show "0 < atom_size s \<longrightarrow> (\<exists>a p. atom_entry s' 0 = Some (a, p) \<and> atom_type p = JSI_ATOM_TYPE_SYMBOL)"
    using assms entry_simE' [OF assms(1)] unfolding slots_ok_def obj_sim_def by metis
qed (use assms in \<open>simp_all add: slots_ok_def\<close>)

lemma table_sim_unique:
  assumes "table_sim s s'" "unique_ok s"
  shows "unique_ok s'"
  unfolding unique_ok_def
proof (intro allI impI)
  fix i j a b p q
  assume *: "atom_entry s' i = Some (a, p)" "atom_entry s' j = Some (b, q)"
    "atom_type p = atom_type q" "atom_type p \<noteq> JSI_ATOM_TYPE_SYMBOL"
    "units (s_data p) = units (s_data q)"
  obtain p' where p: "atom_entry s i = Some (a, p')" "obj_sim p' p" by (rule entry_simE [OF assms(1) *(1)])
  obtain q' where q: "atom_entry s j = Some (b, q')" "obj_sim q' q" by (rule entry_simE [OF assms(1) *(2)])
  show "i = j"
    using assms(2) p q *(3-5) unfolding unique_ok_def obj_sim_def by simp
qed

lemma bucket_set_iff:
  "i \<in> bucket_set s b \<longleftrightarrow> (case atom_entry s i of None \<Rightarrow> False
     | Some (a, p) \<Rightarrow> atom_type p \<noteq> JSI_ATOM_TYPE_SYMBOL \<and> hash_bucket s (hash p) = b)"
  by (auto simp: bucket_set_def split: option.splits)

lemma table_sim_buckets:
  assumes "table_sim s s'" "atom_hash_size s' = atom_hash_size s"
  shows "bucket_set s' b = bucket_set s b"
proof (rule set_eqI)
  fix i
  show "i \<in> bucket_set s' b \<longleftrightarrow> i \<in> bucket_set s b"
    using entry_simD [OF assms(1), of i] assms(2)
    by (cases "atom_entry s i"; cases "atom_entry s' i")
      (auto simp: bucket_set_iff hash_bucket_def obj_sim_def)
qed

lemma table_sim_sizes:
  "table_sim s s' \<Longrightarrow> same_hash s s' \<Longrightarrow> sizes_ok s \<Longrightarrow> sizes_ok s'"
  by (simp add: sizes_ok_def table_sim_live table_sim_array same_hash_def)

lemma table_sim_nxt:
  "(\<And>i a p q. atom_entry s i = Some (a, p) \<Longrightarrow> atom_entry s' i = Some (a, q) \<Longrightarrow> hash_next q = hash_next p) \<Longrightarrow>
   table_sim s s' \<Longrightarrow> nxt s' = nxt s"
proof (rule ext)
  fix i
  assume *: "\<And>i a p q. atom_entry s i = Some (a, p) \<Longrightarrow> atom_entry s' i = Some (a, q) \<Longrightarrow> hash_next q = hash_next p"
    and sim: "table_sim s s'"
  show "nxt s' i = nxt s i"
  proof (cases "atom_entry s i")
    case None
    then show ?thesis using entry_simD [OF sim, of i] by (cases "atom_entry s' i") (auto simp: nxt_def)
  next
    case (Some ap)
    obtain a p where ap: "ap = (a, p)" by (cases ap)
    obtain q where q: "atom_entry s' i = Some (a, q)" using entry_simE' [OF sim] Some ap by blast
    show ?thesis using * [OF Some [unfolded ap] q] Some ap q by (simp add: nxt_def)
  qed
qed

text \<open>A change of reference counts.\<close>

lemma add_ref_fields [simp]:
  "s_data (add_ref d p) = s_data p" "hash (add_ref d p) = hash p" "atom_type (add_ref d p) = atom_type p"
  "hash_next (add_ref d p) = hash_next p" "ref_count (add_ref d p) = ref_count p + d"
  by (simp_all add: add_ref_def)

lemma add_ref_sim: "table_sim s (upd_str s a (add_ref d))"
  unfolding table_sim_def same_array_def
proof (intro conjI allI)
  show "entry_sim (atom_entry s i) (atom_entry (upd_str s a (add_ref d)) i)" for i
    by (cases "atom_entry s i") (auto simp: atom_entry_upd obj_sim_def)
qed simp_all

lemma atom_entry_strs: "atom_entry s i = Some (a, p) \<Longrightarrow> strs s a = Some p"
  by (auto simp: atom_entry_def split: Option.bind_splits atom_slot.splits)

lemma atom_entry_array: "atom_entry s i = Some (a, p) \<Longrightarrow> mem_get (atom_array s) i = Some (StrSlot a)"
  by (auto simp: atom_entry_def split: Option.bind_splits atom_slot.splits)

lemma atom_entry_iff:
  "atom_entry s i = Some (a, p) \<longleftrightarrow> mem_get (atom_array s) i = Some (StrSlot a) \<and> strs s a = Some p"
  by (auto simp: atom_entry_def split: Option.bind_splits atom_slot.splits)

lemma store_ok_ref:
  assumes "store_ok s" "strs s a = Some p" "d \<le> 0 \<or> (\<exists>i. atom_entry s i = Some (a, p)) \<or> atom_type p = 0"
  shows "store_ok (upd_str s a (add_ref d))"
  using assms unfolding store_ok_def atom_entry_iff by (auto 0 4 simp: fun_upd_def split: if_splits)

lemma table_ok_ref:
  assumes "table_ok X s" "strs s a = Some p" "d \<le> 0 \<or> (\<exists>i. atom_entry s i = Some (a, p)) \<or> atom_type p = 0"
  shows "table_ok X (upd_str s a (add_ref d))"
proof -
  let ?s = "upd_str s a (add_ref d)"
  have sim: "table_sim s ?s" by (rule add_ref_sim)
  have n: "nxt ?s = nxt s" by (rule table_sim_nxt [OF _ sim]) (auto simp: atom_entry_upd)
  have h: "same_hash s ?s" by (simp add: same_hash_def)
  show ?thesis
    using assms sim h by (auto simp: table_ok_def buckets_ok_def n table_sim_buckets intro: store_ok_ref
      table_sim_sizes table_sim_slots table_sim_unique)
qed

section \<open>Walks\<close>

lemma bucket_mod: "unat (h AND (2 ^ k - 1) :: u32) = unat h mod 2 ^ k"
proof -
  have "h AND (2 ^ k - 1) = take_bit k h" by (simp add: take_bit_eq_mask mask_eq_exp_minus_1)
  then show ?thesis by (simp only: unsigned_take_bit_eq) (simp only: take_bit_eq_mod)
qed

lemma hash_bucket_less: "sizes_ok s \<Longrightarrow> hash_bucket s h < atom_hash_size s"
  by (auto simp: sizes_ok_def hash_bucket_def bucket_mod)

lemma atom_hash_get: "sizes_ok s \<Longrightarrow> b < atom_hash_size s \<Longrightarrow> mem_get (atom_hash s) b = Some (atom_hash s ! b)"
  by (simp add: sizes_ok_def mem_get_def)

lemma nxt_entry: "atom_entry s i = Some (a, p) \<Longrightarrow> nxt s i = hash_next p"
  by (simp add: nxt_def)

text \<open>The search returns the first index that passes the test.\<close>

lemma chain_search_find:
  assumes "chain (nxt s) i xs" "\<And>x. x \<in> set xs \<Longrightarrow> \<exists>a p. atom_entry s x = Some (a, p) \<and> m p = Some (P x)"
  shows "chain_search s m i = Some (case find P xs of Some x \<Rightarrow> x | None \<Rightarrow> 0)"
  using assms
proof (induction xs arbitrary: i)
  case (Cons x xs)
  obtain a p where x: "atom_entry s x = Some (a, p)" "m p = Some (P x)" using Cons.prems(2) [of x] by auto
  have "chain_search s m (hash_next p) = Some (case find P xs of Some x \<Rightarrow> x | None \<Rightarrow> 0)"
    using Cons x by (simp add: nxt_entry)
  then show ?case using Cons.prems(1) x by (subst chain_search.simps) simp
qed (simp add: chain_search.simps)

lemma chain_index_at:
  assumes "chain (nxt s) i (xs @ x # ys)" "atom_entry s x = Some (a, p)"
    "\<And>y. y \<in> set xs \<Longrightarrow> \<exists>b q. atom_entry s y = Some (b, q) \<and> b \<noteq> a"
  shows "chain_index s a i = Some x"
  using assms
proof (induction xs arbitrary: i)
  case (Cons y xs)
  obtain b q where y: "atom_entry s y = Some (b, q)" "b \<noteq> a" using Cons.prems(3) [of y] by auto
  have "chain_index s a (hash_next q) = Some x" using Cons y by (simp add: nxt_entry)
  then show ?case using Cons.prems(1) y by (subst chain_index.simps) simp
qed (simp add: chain_index.simps)

lemma unlink_loop_at:
  assumes "chain (nxt s) i (xs @ y # x # ys)" "atom_entry s x = Some (a, p)"
    "atom_entry s y = Some (c, r)"
    "\<And>z. z \<in> set (xs @ [y]) \<Longrightarrow> \<exists>b q. atom_entry s z = Some (b, q) \<and> b \<noteq> a"
  shows "unlink_loop s a i = Some (x, upd_str s c (hash_next_update (\<lambda>_. hash_next p)))"
  using assms
proof (induction xs arbitrary: i)
  case Nil
  then show ?case by (subst unlink_loop.simps) (simp add: nxt_entry)
next
  case (Cons z xs)
  obtain b q where z: "atom_entry s z = Some (b, q)" "b \<noteq> a" using Cons.prems(4) [of z] by auto
  have IH: "unlink_loop s a (hash_next q) = Some (x, upd_str s c (hash_next_update (\<lambda>_. hash_next p)))"
    using Cons z by (simp add: nxt_entry)
  have hn: "hash_next q \<in> set (xs @ [y])" using Cons.prems(1) z by (cases xs) (auto simp: nxt_entry)
  obtain b' q' where z': "atom_entry s (hash_next q) = Some (b', q')" "b' \<noteq> a"
    using Cons.prems(4) [of "hash_next q"] hn by auto
  show ?case using Cons.prems(1) z z' IH by (subst unlink_loop.simps) simp
qed

section \<open>Objects outside the table\<close>

text \<open>Changing the store at an address that no slot holds keeps the entries.\<close>

lemma atom_entry_store:
  "(\<And>i. mem_get (atom_array s) i \<noteq> Some (StrSlot a)) \<Longrightarrow>
   atom_entry (s\<lparr>strs := (strs s)(a := v)\<rparr>) i = atom_entry s i"
  by (auto simp: atom_entry_def split: Option.bind_splits atom_slot.splits)

lemma entry_sim_refl [simp]: "entry_sim e e"
  by (cases e) (auto simp: obj_sim_def)

lemma table_ok_same_entries:
  assumes "table_ok X s" "same_array s s'" "same_hash s s'" "atom_entry s' = atom_entry s" "store_ok s'"
  shows "table_ok X s'"
proof -
  have sim: "table_sim s s'" using assms by (simp add: table_sim_def)
  have n: "nxt s' = nxt s" using assms(4) by (simp add: nxt_def fun_eq_iff)
  show ?thesis
    using assms sim by (auto simp: table_ok_def buckets_ok_def n table_sim_buckets same_hash_def
      intro: table_sim_slots table_sim_unique table_sim_sizes)
qed

lemma table_ok_store:
  assumes ok: "table_ok X s" and a: "\<And>i. mem_get (atom_array s) i \<noteq> Some (StrSlot a)"
    and v: "\<And>p. v = Some p \<Longrightarrow> atom_type p = 0"
  shows "table_ok X (s\<lparr>strs := (strs s)(a := v)\<rparr>)"
proof (rule table_ok_same_entries [OF ok])
  show "atom_entry (s\<lparr>strs := (strs s)(a := v)\<rparr>) = atom_entry s" using atom_entry_store [OF a] by blast
  moreover have "store_ok s" using ok by (simp add: table_ok_def)
  ultimately show "store_ok (s\<lparr>strs := (strs s)(a := v)\<rparr>)" using v by (auto simp: store_ok_def)
qed (simp_all add: same_array_def same_hash_def)

lemma not_in_table:
  assumes "table_ok X s" "strs s a = None \<or> strs s a = Some p \<and> atom_type p = 0"
  shows "mem_get (atom_array s) i \<noteq> Some (StrSlot a)"
proof
  assume i: "mem_get (atom_array s) i = Some (StrSlot a)"
  then have "i < atom_size s" using assms(1) by (auto simp: table_defs mem_get_def split: if_splits)
  moreover have "i \<notin> free_set s" using i by (simp add: free_set_def)
  ultimately obtain b q where e: "atom_entry s i = Some (b, q)"
    using assms(1) by (fastforce simp: table_ok_def slots_ok_def live_set_def)
  then have "b = a" "entry_ok i q" "strs s a = Some q"
    using i assms(1) by (auto simp: atom_entry_iff table_ok_def slots_ok_def)
  then show False using assms(2) by (auto simp: entry_ok_def JSI_ATOM_TYPE_SYMBOL_def split: if_splits)
qed

section \<open>Taking and giving back a slot\<close>

lemma live_less: "atom_entry s i = Some (a, p) \<Longrightarrow> i < length (atom_array s)"
  by (auto simp: atom_entry_iff mem_get_def split: if_splits)

lemma finite_live: "finite (live_set s)"
  by (rule finite_subset [of _ "{..<length (atom_array s)}"]) (auto simp: live_set_def dest: live_less)

lemma live_card: "sizes_ok s \<Longrightarrow> atom_count s \<le> atom_size s"
proof -
  assume "sizes_ok s"
  moreover have "card (live_set s) \<le> card {..<length (atom_array s)}"
    by (rule card_mono) (auto simp: live_set_def dest: live_less)
  ultimately show ?thesis by (simp add: sizes_ok_def)
qed

lemma free_not_live: "i \<in> free_set s \<Longrightarrow> atom_entry s i = None"
  by (auto simp: free_set_def atom_entry_def)

lemma fnext_upd:
  "i < length (atom_array s) \<Longrightarrow> x \<noteq> i \<Longrightarrow> fnext (s\<lparr>atom_array := (atom_array s)[i := e], atom_free_index := n\<rparr>) x = fnext s x"
  by (simp add: fnext_def mem_get_def)

text \<open>The free index is a free slot, and the rest of its chain is the rest of the free slots.\<close>

lemma free_head:
  assumes "slots_ok s" "atom_free_index s \<noteq> 0"
  obtains fl where "chain (fnext s) (fnext s (atom_free_index s)) fl"
    "set fl = free_set s - {atom_free_index s}" "atom_free_index s \<in> free_set s"
proof -
  obtain fl where fl: "chain (fnext s) (atom_free_index s) fl" "set fl = free_set s"
    using assms(1) by (auto simp: slots_ok_def)
  then obtain fl' where fl': "fl = atom_free_index s # fl'" using assms(2) by (cases fl) auto
  show thesis using that [of fl'] fl fl' chain_distinct [OF fl(1)] by auto
qed

definition take_slot :: "atom_rt \<Rightarrow> addr \<Rightarrow> str_obj \<Rightarrow> atom_rt" where
  "take_slot s b p = s\<lparr>atom_free_index := fnext s (atom_free_index s),
     atom_array := (atom_array s)[atom_free_index s := StrSlot b],
     strs := (strs s)(b \<mapsto> p), atom_count := atom_count s + 1\<rparr>"

lemma take_slot_fields [simp]:
  "atom_hash_size (take_slot s b p) = atom_hash_size s" "atom_count (take_slot s b p) = atom_count s + 1"
  "atom_size (take_slot s b p) = atom_size s" "atom_count_resize (take_slot s b p) = atom_count_resize s"
  "atom_hash (take_slot s b p) = atom_hash s" "strs (take_slot s b p) = (strs s)(b \<mapsto> p)"
  "atom_free_index (take_slot s b p) = fnext s (atom_free_index s)"
  by (simp_all add: take_slot_def)

lemma take_slot_entry:
  assumes "atom_free_index s < length (atom_array s)" "\<And>i. mem_get (atom_array s) i \<noteq> Some (StrSlot b)"
  shows "atom_entry (take_slot s b p) = (atom_entry s)(atom_free_index s \<mapsto> (b, p))"
proof (rule ext)
  fix i
  show "atom_entry (take_slot s b p) i = ((atom_entry s)(atom_free_index s \<mapsto> (b, p))) i"
    using assms(1) assms(2) [of i]
    by (cases "i = atom_free_index s")
      (auto simp: take_slot_def atom_entry_def mem_get_def split: atom_slot.splits Option.bind_splits)
qed

lemma take_slot_free:
  assumes "atom_free_index s \<in> free_set s"
  shows "free_set (take_slot s b p) = free_set s - {atom_free_index s}"
    "x \<noteq> atom_free_index s \<Longrightarrow> fnext (take_slot s b p) x = fnext s x"
  using assms by (auto simp: take_slot_def free_set_def fnext_def mem_get_def nth_list_update split: if_splits)

lemma table_ok_take:
  assumes ok: "table_ok X s" and i: "atom_free_index s \<noteq> 0"
    and b: "\<And>i. mem_get (atom_array s) i \<noteq> Some (StrSlot b)"
    and p: "entry_ok (atom_free_index s) p"
    and new: "\<And>j a q. atom_type p \<noteq> JSI_ATOM_TYPE_SYMBOL \<Longrightarrow> atom_entry s j = Some (a, q) \<Longrightarrow>
      atom_type q = atom_type p \<Longrightarrow> units (s_data q) \<noteq> units (s_data p)"
  shows "table_ok (insert (atom_free_index s) X) (take_slot s b p)"
proof -
  let ?i = "atom_free_index s" and ?s = "take_slot s b p"
  have parts: "sizes_ok s" "slots_ok s" "store_ok s" "unique_ok s" "buckets_ok X s"
    using ok by (simp_all add: table_ok_def)
  obtain fl where fl: "chain (fnext s) (fnext s ?i) fl" "set fl = free_set s - {?i}" "?i \<in> free_set s"
    using free_head [OF parts(2) i] by blast
  have il: "?i < length (atom_array s)" using fl(3) by (auto simp: free_set_def mem_get_def split: if_splits)
  have none: "atom_entry s ?i = None" by (rule free_not_live) (rule fl(3))
  note e = take_slot_entry [OF il b, of p]
  have live: "live_set ?s = insert ?i (live_set s)" by (auto simp: live_set_def e)
  have "card (live_set ?s) = card (live_set s) + 1"
    using none finite_live [of s] by (simp add: live) (simp add: live_set_def)
  then have 1: "sizes_ok ?s" using parts(1) by (simp add: sizes_ok_def) (simp add: take_slot_def)
  have "chain (fnext ?s) (fnext s ?i) fl"
    using fl by (subst chain_cong [of _ _ "fnext s"]) (auto simp: take_slot_free(2))
  then have free: "\<exists>fl. chain (fnext ?s) (atom_free_index ?s) fl \<and> set fl = free_set ?s"
    using fl by (auto simp: take_slot_free(1))
  have null: "0 < atom_size s \<Longrightarrow> \<exists>a p. atom_entry ?s 0 = Some (a, p) \<and> atom_type p = JSI_ATOM_TYPE_SYMBOL"
    using parts(2) i by (simp add: slots_ok_def e)
  have 2: "slots_ok ?s"
    unfolding slots_ok_def using free null parts(2) p by (auto simp: slots_ok_def e live take_slot_free(1) [OF fl(3)])
  have old: "a \<noteq> b" if "atom_entry s j = Some (a, q)" for j a q
    using that b [of j] by (auto simp: atom_entry_iff)
  have 3: "store_ok ?s"
    unfolding store_ok_def
  proof (intro conjI allI impI)
    show "j = k" if "atom_entry ?s j = Some (a, p1)" "atom_entry ?s k = Some (a, p2)" for j k a p1 p2
      using that parts(3) old unfolding store_ok_def e by (simp split: if_splits) blast+
    show "atom_type q = 0 \<or> (\<exists>j. atom_entry ?s j = Some (a, q))
        \<or> atom_type q = JSI_ATOM_TYPE_SYMBOL \<and> ref_count q \<le> 0" if "strs ?s a = Some q" for a q
    proof (cases "a = b")
      case True
      have "atom_entry ?s ?i = Some (b, p)" by (simp add: e)
      moreover have "p = q" using that True by simp
      ultimately show ?thesis using True by blast
    next
      case False
      then have "atom_type q = 0 \<or> (\<exists>j. atom_entry s j = Some (a, q))
        \<or> atom_type q = JSI_ATOM_TYPE_SYMBOL \<and> ref_count q \<le> 0"
        using that parts(3) by (simp add: store_ok_def)
      then show ?thesis using none unfolding e by (metis fun_upd_other option.distinct(1))
    qed
  qed
  have 4: "unique_ok ?s" using parts(4) new unfolding unique_ok_def e by (auto split: if_splits) metis+
  have bk: "bucket_set ?s c - insert ?i X = bucket_set s c - X" for c
    using none by (auto simp: bucket_set_def e hash_bucket_def split: if_splits)
  have n: "x \<noteq> ?i \<Longrightarrow> nxt ?s x = nxt s x" for x by (simp add: nxt_def e)
  have 5: "buckets_ok (insert ?i X) ?s"
    unfolding buckets_ok_def bk take_slot_fields
  proof (intro allI impI)
    fix c assume c: "c < atom_hash_size s"
    obtain xs where xs: "chain (nxt s) (atom_hash s ! c) xs" "set xs = bucket_set s c - X"
      using parts(5) c by (auto simp: buckets_ok_def)
    have "?i \<notin> bucket_set s c" using none by (simp add: bucket_set_def)
    then have "chain (nxt ?s) (atom_hash s ! c) xs = chain (nxt s) (atom_hash s ! c) xs"
      by (intro chain_cong n) (use xs in auto)
    then show "\<exists>xs. chain (nxt ?s) (atom_hash s ! c) xs \<and> set xs = bucket_set s c - X"
      using xs by blast
  qed
  show ?thesis using 1 2 3 4 5 by (simp add: table_ok_def)
qed

text \<open>The store after the object at \<open>a\<close> is freed, or kept for the weak references that are left.\<close>

definition give_slot :: "atom_rt \<Rightarrow> nat \<Rightarrow> (addr \<rightharpoonup> str_obj) \<Rightarrow> atom_rt" where
  "give_slot s i st = s\<lparr>atom_array := (atom_array s)[i := FreeSlot (atom_free_index s)],
     atom_free_index := i, strs := st, atom_count := atom_count s - 1\<rparr>"

lemma give_slot_fields [simp]:
  "atom_hash_size (give_slot s i st) = atom_hash_size s" "atom_count (give_slot s i st) = atom_count s - 1"
  "atom_size (give_slot s i st) = atom_size s" "atom_count_resize (give_slot s i st) = atom_count_resize s"
  "atom_hash (give_slot s i st) = atom_hash s" "strs (give_slot s i st) = st"
  "atom_free_index (give_slot s i st) = i"
  by (simp_all add: give_slot_def)

lemma give_slot_entry:
  assumes "store_ok s" "atom_entry s i = Some (a, p)" "st = strs s \<or> st = (strs s)(a := None)"
  shows "atom_entry (give_slot s i st) = (atom_entry s)(i := None)"
proof (rule ext)
  fix j
  have il: "i < length (atom_array s)" using live_less assms(2) .
  have "atom_entry s j \<noteq> Some (a, p)" if "j \<noteq> i" using assms(1,2) that unfolding store_ok_def by blast
  then show "atom_entry (give_slot s i st) j = ((atom_entry s)(i := None)) j"
    using assms(2,3) il
    by (cases "j = i") (auto simp: give_slot_def atom_entry_def mem_get_def split: atom_slot.splits Option.bind_splits if_splits)
qed

lemma give_slot_free:
  assumes "i < length (atom_array s)"
  shows "free_set (give_slot s i st) = insert i (free_set s)"
    "x \<noteq> i \<Longrightarrow> fnext (give_slot s i st) x = fnext s x" "fnext (give_slot s i st) i = atom_free_index s"
  using assms by (auto simp: give_slot_def free_set_def fnext_def mem_get_def nth_list_update split: if_splits)

lemma table_ok_give:
  assumes ok: "table_ok X s" and i: "i \<noteq> 0" "atom_entry s i = Some (a, p)"
    and out: "i \<in> X \<or> atom_type p = JSI_ATOM_TYPE_SYMBOL"
    and st: "st = (strs s)(a := None) \<or> st = strs s \<and> atom_type p = JSI_ATOM_TYPE_SYMBOL \<and> ref_count p \<le> 0"
  shows "table_ok (X - {i}) (give_slot s i st)"
proof -
  let ?s = "give_slot s i st"
  have parts: "sizes_ok s" "slots_ok s" "store_ok s" "unique_ok s" "buckets_ok X s"
    using ok by (simp_all add: table_ok_def)
  have il: "i < length (atom_array s)" using live_less i(2) .
  have st': "st = strs s \<or> st = (strs s)(a := None)" using st by blast
  note e = give_slot_entry [OF parts(3) i(2) st'] and f = give_slot_free [OF il]
  have live: "live_set ?s = live_set s - {i}" by (auto simp: live_set_def e)
  have "i \<in> live_set s" using i(2) by (simp add: live_set_def)
  then have 1: "sizes_ok ?s" using parts(1) by (simp add: sizes_ok_def live) (simp add: give_slot_def)
  obtain fl where fl: "chain (fnext s) (atom_free_index s) fl" "set fl = free_set s"
    using parts(2) by (auto simp: slots_ok_def)
  have "i \<notin> free_set s" using i(2) free_not_live by fastforce
  then have "chain (fnext ?s) (atom_free_index s) fl = chain (fnext s) (atom_free_index s) fl"
    by (intro chain_cong f(2)) (use fl in auto)
  then have free: "\<exists>fl. chain (fnext ?s) (atom_free_index ?s) fl \<and> set fl = free_set ?s"
    using fl i(1) by (intro exI [of _ "i # fl"]) (simp add: f)
  have 2: "slots_ok ?s"
    unfolding slots_ok_def using free parts(2) i(1) by (auto simp: slots_ok_def e live f(1))
  have sub: "atom_entry ?s j = Some r \<Longrightarrow> atom_entry s j = Some r" for j r
    by (simp add: e split: if_splits)
  have 3: "store_ok ?s"
    unfolding store_ok_def
  proof (intro conjI allI impI)
    show "j = k" if "atom_entry ?s j = Some (b, p1)" "atom_entry ?s k = Some (b, p2)" for j k b p1 p2
      using sub [OF that(1)] sub [OF that(2)] parts(3) unfolding store_ok_def by blast
    show "atom_type q = 0 \<or> (\<exists>j. atom_entry ?s j = Some (b, q))
        \<or> atom_type q = JSI_ATOM_TYPE_SYMBOL \<and> ref_count q \<le> 0" if q: "strs ?s b = Some q" for b q
    proof (cases "b = a")
      case True
      then show ?thesis using q st atom_entry_strs [OF i(2)] by auto
    next
      case False
      then have "strs s b = Some q" using q st' by auto
      then have "atom_type q = 0 \<or> (\<exists>j. atom_entry s j = Some (b, q))
        \<or> atom_type q = JSI_ATOM_TYPE_SYMBOL \<and> ref_count q \<le> 0" using parts(3) by (simp add: store_ok_def)
      moreover have "atom_entry s i \<noteq> Some (b, q)" using False i(2) by simp
      ultimately show ?thesis unfolding e by (metis fun_upd_other)
    qed
  qed
  have 4: "unique_ok ?s" using parts(4) sub unfolding unique_ok_def by blast
  have bk: "bucket_set ?s c - (X - {i}) = bucket_set s c - X" for c
    using out i(2) by (auto simp: bucket_set_def e hash_bucket_def split: if_splits)
  have n: "x \<noteq> i \<Longrightarrow> nxt ?s x = nxt s x" for x by (simp add: nxt_def e)
  have 5: "buckets_ok (X - {i}) ?s"
    unfolding buckets_ok_def bk give_slot_fields
  proof (intro allI impI)
    fix c assume c: "c < atom_hash_size s"
    obtain xs where xs: "chain (nxt s) (atom_hash s ! c) xs" "set xs = bucket_set s c - X"
      using parts(5) c by (auto simp: buckets_ok_def)
    have "i \<notin> bucket_set s c - X" using i(2) out by (auto simp: bucket_set_def)
    then have "chain (nxt ?s) (atom_hash s ! c) xs = chain (nxt s) (atom_hash s ! c) xs"
      by (intro chain_cong n) (use xs in auto)
    then show "\<exists>xs. chain (nxt ?s) (atom_hash s ! c) xs \<and> set xs = bucket_set s c - X"
      using xs by blast
  qed
  show ?thesis using 1 2 3 4 5 by (simp add: table_ok_def)
qed

section \<open>Relinking\<close>

text \<open>Changes of \<open>hash_next\<close> in hashed objects and of the bucket heads.\<close>

lemma table_ok_relink:
  assumes "table_ok X s" "table_sim s s'" "sizes_ok s'" "store_ok s'" "buckets_ok Y s'"
  shows "table_ok Y s'"
  using assms by (auto simp: table_ok_def intro: table_sim_slots table_sim_unique)

definition set_next :: "atom_rt \<Rightarrow> addr \<Rightarrow> nat \<Rightarrow> atom_rt" where
  "set_next s a n = upd_str s a (hash_next_update (\<lambda>_. n))"

lemma set_next_entry:
  "atom_entry (set_next s a n) i = map_option (\<lambda>(b, p). (b, if b = a then p\<lparr>hash_next := n\<rparr> else p)) (atom_entry s i)"
  by (simp add: set_next_def atom_entry_upd)

lemma set_next_sim:
  assumes "store_ok s" "atom_entry s i = Some (a, p)" "atom_type p \<noteq> JSI_ATOM_TYPE_SYMBOL"
  shows "table_sim s (set_next s a n)"
  unfolding table_sim_def same_array_def
proof (intro conjI allI)
  fix j
  have "q = p" if "atom_entry s j = Some (a, q)" for q using that assms(2) by (simp add: atom_entry_iff)
  then show "entry_sim (atom_entry s j) (atom_entry (set_next s a n) j)"
    using assms(3) by (cases "atom_entry s j") (auto simp: set_next_entry obj_sim_def)
qed (simp_all add: set_next_def)

lemma set_next_nxt:
  assumes "store_ok s" "atom_entry s i = Some (a, p)"
  shows "nxt (set_next s a n) = (nxt s)(i := n)"
proof (rule ext)
  fix j
  show "nxt (set_next s a n) j = ((nxt s)(i := n)) j"
  proof (cases "j = i")
    case True
    then show ?thesis using assms(2) by (simp add: nxt_def set_next_entry)
  next
    case False
    then have "atom_entry s j = Some (b, q) \<Longrightarrow> b \<noteq> a" for b q using assms unfolding store_ok_def by blast
    then show ?thesis using False by (cases "atom_entry s j") (auto simp: nxt_def set_next_entry)
  qed
qed

lemma set_next_store:
  assumes "store_ok s"
  shows "store_ok (set_next s a n)"
  using assms unfolding store_ok_def atom_entry_iff set_next_def
  by (auto 0 4 simp: fun_upd_def split: if_splits)

lemma buckets_ok_bucket:
  assumes "buckets_ok X s" "c < atom_hash_size s"
  obtains xs where "chain (nxt s) (atom_hash s ! c) xs" "set xs = bucket_set s c - X"
  using assms by (auto simp: buckets_ok_def)

text \<open>A changed bucket \<open>c\<close>; the others keep their chains, since the changed successor is not in them.\<close>

lemma buckets_ok_change:
  assumes "buckets_ok X s" "atom_hash_size s' = atom_hash_size s" "\<And>b. bucket_set s' b = bucket_set s b"
    and "\<And>b. b \<noteq> c \<Longrightarrow> atom_hash s' ! b = atom_hash s ! b"
    and "\<And>x. x \<notin> bucket_set s c \<Longrightarrow> nxt s' x = nxt s x"
    and "\<And>b. b \<noteq> c \<Longrightarrow> bucket_set s b - Y = bucket_set s b - X"
    and "chain (nxt s') (atom_hash s' ! c) ys" "set ys = bucket_set s c - Y"
  shows "buckets_ok Y s'"
  unfolding buckets_ok_def assms(2,3)
proof (intro allI impI)
  fix b assume b: "b < atom_hash_size s"
  show "\<exists>xs. chain (nxt s') (atom_hash s' ! b) xs \<and> set xs = bucket_set s b - Y"
  proof (cases "b = c")
    case True
    then show ?thesis using assms(7,8) by blast
  next
    case False
    obtain xs where xs: "chain (nxt s) (atom_hash s ! b) xs" "set xs = bucket_set s b - X"
      using buckets_ok_bucket [OF assms(1) b] .
    have "chain (nxt s') (atom_hash s ! b) xs = chain (nxt s) (atom_hash s ! b) xs"
      by (intro chain_cong assms(5)) (use xs False in \<open>auto simp: bucket_set_def\<close>)
    then show ?thesis using xs assms(4,6) False by auto
  qed
qed

lemma hash_upd_entry [simp]: "atom_entry (s\<lparr>atom_hash := hs\<rparr>) = atom_entry s"
  by (rule ext) (simp add: atom_entry_def split: Option.bind_split atom_slot.split)

lemma hash_upd_sim: "table_sim s s' \<Longrightarrow> table_sim s (s'\<lparr>atom_hash := hs\<rparr>)"
  by (simp add: table_sim_def same_array_def)

lemma hash_upd_nxt [simp]: "nxt (s\<lparr>atom_hash := hs\<rparr>) = nxt s"
  by (simp add: nxt_def fun_eq_iff)

lemma hash_upd_store [simp]: "store_ok (s\<lparr>atom_hash := hs\<rparr>) = store_ok s"
  by (simp add: store_ok_def)

lemma hash_upd_bucket [simp]: "bucket_set (s\<lparr>atom_hash := hs\<rparr>) b = bucket_set s b"
  by (simp add: bucket_set_def hash_bucket_def)

lemma table_ok_entry:
  assumes "table_ok X s" "atom_entry s i = Some (a, p)"
  shows "strs s a = Some p" "entry_ok i p" "atom_type p \<noteq> JSI_ATOM_TYPE_SYMBOL \<Longrightarrow> i \<noteq> 0"
    "atom_type p \<noteq> 0" "i < atom_size s"
proof -
  show p: "entry_ok i p" "strs s a = Some p"
    using assms by (auto simp: table_ok_def slots_ok_def atom_entry_iff)
  show i: "i < atom_size s" using live_less [OF assms(2)] assms(1) by (simp add: table_ok_def sizes_ok_def)
  show "atom_type p \<noteq> 0" using p(1) by (auto simp: entry_ok_def JSI_ATOM_TYPE_SYMBOL_def split: if_splits)
  have "0 < atom_size s \<Longrightarrow> \<exists>a p. atom_entry s 0 = Some (a, p) \<and> atom_type p = JSI_ATOM_TYPE_SYMBOL"
    using assms(1) by (simp add: table_ok_def slots_ok_def)
  then show "i \<noteq> 0" if "atom_type p \<noteq> JSI_ATOM_TYPE_SYMBOL" using that assms(2) i by (cases "i = 0") auto
qed

lemma table_ok_link:
  assumes ok: "table_ok X s" and i: "i \<in> X" "atom_entry s i = Some (b, p)" "atom_type p \<noteq> JSI_ATOM_TYPE_SYMBOL"
    and c: "c = hash_bucket s (hash p)"
  shows "table_ok (X - {i}) ((set_next s b (atom_hash s ! c))\<lparr>atom_hash := (atom_hash s)[c := i]\<rparr>)"
    (is "table_ok _ ?s")
proof (rule table_ok_relink [OF ok])
  have parts: "sizes_ok s" "store_ok s" "buckets_ok X s" using ok by (simp_all add: table_ok_def)
  have cl: "c < atom_hash_size s" using parts(1) c hash_bucket_less by blast
  show sim: "table_sim s ?s" by (intro hash_upd_sim set_next_sim [OF parts(2) i(2,3)])
  show "sizes_ok ?s" using parts(1) table_sim_live [OF sim] by (simp add: sizes_ok_def) (simp add: set_next_def)
  show "store_ok ?s" using set_next_store [OF parts(2)] by simp
  note n = set_next_nxt [OF parts(2) i(2), of "atom_hash s ! c"]
  have sz: "atom_hash_size ?s = atom_hash_size s" by (simp add: set_next_def)
  have ib: "i \<in> bucket_set s c" using i c by (simp add: bucket_set_def)
  obtain xs where xs: "chain (nxt s) (atom_hash s ! c) xs" "set xs = bucket_set s c - X"
    using buckets_ok_bucket [OF parts(3) cl] .
  show "buckets_ok (X - {i}) ?s"
  proof (rule buckets_ok_change [OF parts(3) sz, of c _ "i # xs"])
    show "bucket_set ?s b = bucket_set s b" for b by (rule table_sim_buckets [OF sim sz])
    show "chain (nxt ?s) (atom_hash ?s ! c) (i # xs)"
      using xs i(1) cl parts(1) table_ok_entry(3) [OF ok i(2,3)]
      by (simp add: n sizes_ok_def chain_upd)
    show "bucket_set s b - (X - {i}) = bucket_set s b - X" if "b \<noteq> c" for b
      using that ib by (auto simp: bucket_set_def)
  qed (use xs ib n i in auto)
qed

lemma chain_entries:
  "set xs = bucket_set s c - X \<Longrightarrow> x \<in> set xs \<Longrightarrow>
   \<exists>a p. atom_entry s x = Some (a, p) \<and> atom_type p \<noteq> JSI_ATOM_TYPE_SYMBOL \<and> hash_bucket s (hash p) = c"
  by (auto simp: bucket_set_def)

text \<open>Both ways of unlinking an atom from its bucket.\<close>

lemma table_ok_unlink_head:
  assumes ok: "table_ok {} s" and i: "atom_entry s i = Some (a, p)" "atom_type p \<noteq> JSI_ATOM_TYPE_SYMBOL"
    and c: "c = hash_bucket s (hash p)" and ch: "chain (nxt s) (atom_hash s ! c) (i # vs)"
      "set (i # vs) = bucket_set s c"
  shows "table_ok {i} (s\<lparr>atom_hash := (atom_hash s)[c := hash_next p]\<rparr>)" (is "table_ok _ ?s")
proof (rule table_ok_relink [OF ok])
  have parts: "sizes_ok s" "store_ok s" "buckets_ok {} s" using ok by (simp_all add: table_ok_def)
  have cl: "c < atom_hash_size s" using parts(1) c hash_bucket_less by blast
  have "table_sim s s" by (simp add: table_sim_def same_array_def)
  then show sim: "table_sim s ?s" by (rule hash_upd_sim)
  show "sizes_ok ?s" using parts(1) table_sim_live [OF sim] by (simp add: sizes_ok_def)
  show "store_ok ?s" using parts(2) by simp
  show "buckets_ok {i} ?s"
  proof (rule buckets_ok_change [OF parts(3), of _ c _ vs])
    show "chain (nxt ?s) (atom_hash ?s ! c) vs" using ch(1) cl parts(1) i by (simp add: sizes_ok_def nxt_entry)
    show "set vs = bucket_set s c - {i}" using ch(2) chain_distinct [OF ch(1)] by auto
    show "bucket_set s b - {i} = bucket_set s b - {}" if "b \<noteq> c" for b
      using that i c by (auto simp: bucket_set_def)
  qed simp_all
qed

lemma table_ok_unlink_inner:
  assumes ok: "table_ok {} s" and i: "atom_entry s i = Some (a, p)" "atom_type p \<noteq> JSI_ATOM_TYPE_SYMBOL"
    and c: "c = hash_bucket s (hash p)" and ch: "chain (nxt s) (atom_hash s ! c) (us @ y # i # vs)"
      "set (us @ y # i # vs) = bucket_set s c" and y: "atom_entry s y = Some (d, r)"
  shows "table_ok {i} (set_next s d (hash_next p))" (is "table_ok _ ?s")
proof (rule table_ok_relink [OF ok])
  have parts: "sizes_ok s" "store_ok s" "buckets_ok {} s" using ok by (simp_all add: table_ok_def)
  have cl: "c < atom_hash_size s" using parts(1) c hash_bucket_less by blast
  have yb: "y \<in> bucket_set s c" using ch(2) by auto
  then have yt: "atom_type r \<noteq> JSI_ATOM_TYPE_SYMBOL" using y by (simp add: bucket_set_def)
  show sim: "table_sim s ?s" by (rule set_next_sim [OF parts(2) y yt])
  have h: "same_hash s ?s" by (simp add: same_hash_def set_next_def)
  show "sizes_ok ?s" by (rule table_sim_sizes [OF sim h parts(1)])
  show "store_ok ?s" by (rule set_next_store [OF parts(2)])
  note n = set_next_nxt [OF parts(2) y, of "hash_next p"]
  show "buckets_ok {i} ?s"
  proof (rule buckets_ok_change [OF parts(3), of _ c _ "us @ y # vs"])
    show "bucket_set ?s b = bucket_set s b" for b
      by (rule table_sim_buckets [OF sim]) (use h in \<open>simp add: same_hash_def\<close>)
    show "chain (nxt ?s) (atom_hash ?s ! c) (us @ y # vs)"
      using chain_unlink [OF ch(1)] i(1) by (simp add: n nxt_entry) (simp add: set_next_def)
    show "set (us @ y # vs) = bucket_set s c - {i}" using ch(2) chain_distinct [OF ch(1)] by auto
    show "bucket_set s b - {i} = bucket_set s b - {}" if "b \<noteq> c" for b
      using that i c by (auto simp: bucket_set_def)
    show "nxt ?s x = nxt s x" if "x \<notin> bucket_set s c" for x using that yb by (auto simp: n)
  qed (simp_all add: set_next_def)
qed

text \<open>\<open>s'\<close> differs from \<open>s\<close> only in links.\<close>

definition relinked :: "atom_rt \<Rightarrow> atom_rt \<Rightarrow> bool" where
  "relinked s s' \<longleftrightarrow> table_sim s s' \<and>
     (\<forall>a. map_option (hash_next_update (\<lambda>_. 0)) (strs s' a) = map_option (hash_next_update (\<lambda>_. 0)) (strs s a))"

lemma atom_unlink_ok:
  assumes ok: "table_ok {} s" and i: "atom_entry s i = Some (a, p)"
  shows "\<exists>s'. atom_unlink s a p = Some (i, s') \<and> relinked s s'
    \<and> table_ok (if atom_type p = JSI_ATOM_TYPE_SYMBOL then {} else {i}) s' \<and> strs s' a = Some p
    \<and> atom_hash_size s' = atom_hash_size s"
proof (cases "atom_type p = JSI_ATOM_TYPE_SYMBOL")
  case True
  then show ?thesis using table_ok_entry(1,2) [OF ok i] ok
    by (auto simp: atom_unlink_def entry_ok_def relinked_def table_sim_def same_array_def)
next
  case False
  define c where "c = hash_bucket s (hash p)"
  have parts: "sizes_ok s" "store_ok s" "buckets_ok {} s" using ok by (simp_all add: table_ok_def)
  have cl: "c < atom_hash_size s" using parts(1) c_def hash_bucket_less by blast
  obtain xs where xs: "chain (nxt s) (atom_hash s ! c) xs" "set xs = bucket_set s c - {}"
    using buckets_ok_bucket [OF parts(3) cl] .
  have "i \<in> set xs" using xs(2) i False c_def by (simp add: bucket_set_def)
  then obtain us vs where us: "xs = us @ i # vs" by (auto simp: in_set_conv_decomp)
  have d: "distinct xs" by (rule chain_distinct [OF xs(1)])
  have other: "\<exists>b q. atom_entry s z = Some (b, q) \<and> b \<noteq> a" if zu: "z \<in> set us" for z
  proof -
    obtain b q where z: "atom_entry s z = Some (b, q)" using chain_entries [OF xs(2), of z] zu us by auto
    have "z \<noteq> i" using zu d us by auto
    then have "b \<noteq> a" using z i parts(2) unfolding store_ok_def by blast
    then show ?thesis using z by blast
  qed
  have hd: "mem_get (atom_hash s) c = Some (hd xs)"
    using atom_hash_get [OF parts(1) cl] xs(1) us by (cases us) auto
  show ?thesis
  proof (cases us rule: rev_cases)
    case Nil
    have "atom_unlink s a p = Some (i, s\<lparr>atom_hash := (atom_hash s)[c := hash_next p]\<rparr>)"
      using hd us Nil i False cl parts(1) unfolding atom_unlink_def c_def [symmetric]
      by (simp add: mem_set_def sizes_ok_def)
    moreover have "relinked s (s\<lparr>atom_hash := (atom_hash s)[c := hash_next p]\<rparr>)"
      by (simp add: relinked_def hash_upd_sim) (simp add: table_sim_def same_array_def)
    ultimately show ?thesis
      using table_ok_unlink_head [OF ok i False c_def, of vs] xs us Nil False table_ok_entry(1) [OF ok i] by simp
  next
    case (snoc us' y)
    obtain b q where y: "atom_entry s y = Some (b, q)" "b \<noteq> a" using other [of y] snoc by auto
    have "hd xs \<in> set us" using us snoc by (cases us') auto
    then obtain b0 q0 where h0: "atom_entry s (hd xs) = Some (b0, q0)" "b0 \<noteq> a" using other by blast
    have ch: "chain (nxt s) (hd xs) (us' @ y # i # vs)" using xs(1) us snoc by (cases us') auto
    have "unlink_loop s a (hd xs) = Some (i, set_next s b (hash_next p))"
      unfolding set_next_def by (rule unlink_loop_at [OF ch i y(1)]) (use other snoc in auto)
    then have "atom_unlink s a p = Some (i, set_next s b (hash_next p))"
      using hd h0 False unfolding atom_unlink_def c_def [symmetric] by simp
    moreover have "y \<in> bucket_set s c" using xs us snoc by auto
    then have "relinked s (set_next s b (hash_next p))"
      using set_next_sim [OF parts(2) y(1)] y(1)
      by (auto simp: relinked_def bucket_set_def) (simp add: set_next_def option.map_comp comp_def)
    moreover have "table_ok {i} (set_next s b (hash_next p))"
      using table_ok_unlink_inner [OF ok i False c_def _ _ y(1), of us' vs] xs us snoc by simp
    ultimately show ?thesis using False table_ok_entry(1) [OF ok i] y(2) by (simp add: set_next_def)
  qed
qed

section \<open>What an operation keeps\<close>

text \<open>Outside the addresses in \<open>A\<close>, the objects keep everything but their links, and their slots.\<close>

definition obj_keep :: "str_obj \<Rightarrow> str_obj \<Rightarrow> bool" where
  "obj_keep p q \<longleftrightarrow> s_data q = s_data p \<and> hash q = hash p \<and> atom_type q = atom_type p \<and> ref_count q = ref_count p"

definition keeps :: "addr set \<Rightarrow> atom_rt \<Rightarrow> atom_rt \<Rightarrow> bool" where
  "keeps A s s' \<longleftrightarrow> (\<forall>a. a \<notin> A \<longrightarrow>
     (\<forall>p. strs s a = Some p \<longrightarrow> (\<exists>q. strs s' a = Some q \<and> obj_keep p q))
     \<and> (\<forall>i. mem_get (atom_array s) i = Some (StrSlot a) \<longrightarrow> mem_get (atom_array s') i = Some (StrSlot a)))"

lemma keeps_refl [simp]: "keeps A s s"
  by (simp add: keeps_def obj_keep_def)

lemma keepsE:
  assumes "keeps A s s'" "a \<notin> A" "strs s a = Some p"
  obtains q where "strs s' a = Some q" "obj_keep p q"
  using assms(1) [unfolded keeps_def, rule_format, OF assms(2)] assms(3) that by blast

lemma keeps_slot:
  "keeps A s s' \<Longrightarrow> a \<notin> A \<Longrightarrow> mem_get (atom_array s) i = Some (StrSlot a) \<Longrightarrow>
   mem_get (atom_array s') i = Some (StrSlot a)"
  by (simp add: keeps_def)

lemma keeps_entry:
  assumes "keeps A s s'" "a \<notin> A" "atom_entry s i = Some (a, p)"
  obtains q where "atom_entry s' i = Some (a, q)" "obj_keep p q"
proof -
  have *: "mem_get (atom_array s) i = Some (StrSlot a)" "strs s a = Some p" using assms(3) by (simp_all add: atom_entry_iff)
  obtain q where "strs s' a = Some q" "obj_keep p q" using keepsE [OF assms(1,2) *(2)] .
  then show thesis using that keeps_slot [OF assms(1,2) *(1)] by (simp add: atom_entry_iff)
qed

lemma keeps_trans:
  assumes "keeps A s s'" "keeps B s' s''" "A \<union> B \<subseteq> C"
  shows "keeps C s s''"
  unfolding keeps_def
proof (intro allI impI conjI)
  fix a assume "a \<notin> C"
  then have a: "a \<notin> A" "a \<notin> B" using assms(3) by auto
  show "\<exists>r. strs s'' a = Some r \<and> obj_keep p r" if p: "strs s a = Some p" for p
  proof -
    obtain q where q: "strs s' a = Some q" "obj_keep p q" using keepsE [OF assms(1) a(1) p] .
    obtain r where "strs s'' a = Some r" "obj_keep q r" using keepsE [OF assms(2) a(2) q(1)] .
    then show ?thesis using q(2) by (simp add: obj_keep_def)
  qed
  show "mem_get (atom_array s'') i = Some (StrSlot a)" if "mem_get (atom_array s) i = Some (StrSlot a)" for i
    using keeps_slot [OF assms(2) a(2) keeps_slot [OF assms(1) a(1) that]] .
qed

text \<open>Conversely, the string and global-symbol atoms of \<open>s'\<close> are atoms of \<open>s\<close>.\<close>

definition entries_from :: "atom_rt \<Rightarrow> atom_rt \<Rightarrow> bool" where
  "entries_from s s' \<longleftrightarrow> (\<forall>i a q. atom_entry s' i = Some (a, q) \<longrightarrow>
     atom_type q \<noteq> JSI_ATOM_TYPE_SYMBOL \<longrightarrow> (\<exists>p. atom_entry s i = Some (a, p) \<and> s_data q = s_data p \<and> atom_type q = atom_type p))"

lemma entries_from_refl [simp]: "entries_from s s"
  by (simp add: entries_from_def)

lemma entries_from_trans: "entries_from s s' \<Longrightarrow> entries_from s' s'' \<Longrightarrow> entries_from s s''"
  unfolding entries_from_def by fastforce

lemma entries_from_sim: "table_sim s s' \<Longrightarrow> entries_from s s'"
  unfolding entries_from_def by (auto simp: obj_sim_def elim!: entry_simE)

lemma keeps_upd: "keeps {a} s (upd_str s a f)"
  by (simp add: keeps_def obj_keep_def)

lemma keeps_relinked: "relinked s s' \<Longrightarrow> keeps {} s s'"
  unfolding keeps_def relinked_def
proof (intro allI impI conjI)
  fix a p assume *: "table_sim s s' \<and> (\<forall>a. map_option (hash_next_update (\<lambda>_. 0)) (strs s' a)
      = map_option (hash_next_update (\<lambda>_. 0)) (strs s a))" "strs s a = Some p"
  then obtain q where q: "strs s' a = Some q" "q\<lparr>hash_next := 0\<rparr> = p\<lparr>hash_next := 0\<rparr>"
    by (metis (no_types, lifting) map_option_eq_Some option.inject)
  then have "obj_keep p q" by (cases p; cases q) (simp add: obj_keep_def)
  then show "\<exists>q. strs s' a = Some q \<and> obj_keep p q" using q by blast
qed (auto simp: table_sim_array)

lemma keeps_give:
  assumes "atom_entry s i = Some (a, p)" "st = strs s \<or> st = (strs s)(a := None)"
  shows "keeps {a} s (give_slot s i st)"
proof -
  have "i < length (atom_array s)" "atom_array s ! i = StrSlot a"
    using assms(1) by (auto simp: atom_entry_iff mem_get_def split: if_splits)
  then show ?thesis using assms(2)
    by (auto simp: keeps_def obj_keep_def give_slot_def mem_get_def nth_list_update split: if_splits)
qed

lemma keeps_take: "atom_free_index s \<in> free_set s \<Longrightarrow> keeps {b} s (take_slot s b p)"
  by (auto simp: keeps_def obj_keep_def take_slot_def mem_get_def free_set_def nth_list_update split: if_splits)

section \<open>Freeing\<close>

lemma free_struct_ok:
  assumes ok: "table_ok {} s" and i: "i \<noteq> 0" "atom_entry s i = Some (a, p)"
    and ref: "atom_type p = JSI_ATOM_TYPE_SYMBOL \<Longrightarrow> ref_count p \<le> 0"
  shows "\<exists>s'. JSI_FreeAtomStruct s a = Some s' \<and> table_ok {} s' \<and> keeps {a} s s' \<and> atom_entry s' i = None
    \<and> entries_from s s' \<and> atom_free_index s' = i \<and> atom_hash_size s' = atom_hash_size s"
proof -
  obtain s1 where s1: "atom_unlink s a p = Some (i, s1)" "relinked s s1"
    "table_ok (if atom_type p = JSI_ATOM_TYPE_SYMBOL then {} else {i}) s1" "strs s1 a = Some p"
    "atom_hash_size s1 = atom_hash_size s"
    using atom_unlink_ok [OF ok i(2)] by blast
  define st where "st = (if atom_type p = JSI_ATOM_TYPE_SYMBOL \<and> hash p \<noteq> JSI_ATOM_HASH_PRIVATE \<and> hash p \<noteq> 0
    then strs s1 else (strs s1)(a := None))"
  have i1: "atom_entry s1 i = Some (a, p)"
    using i(2) s1(2,4) by (auto simp: atom_entry_iff relinked_def table_sim_array)
  have il: "i < length (atom_array s1)" using live_less i1 .
  have "i \<in> live_set s1" using i1 by (simp add: live_set_def)
  then have "0 < card (live_set s1)" using finite_live [of s1] by (simp add: card_gt_0_iff) blast
  then have "atom_count s1 \<noteq> 0" using s1(3) by (auto simp: table_ok_def sizes_ok_def split: if_splits)
  then have "JSI_FreeAtomStruct s a = Some (give_slot s1 i st)"
    using table_ok_entry(1) [OF ok i(2)] s1(1) il
    by (simp add: JSI_FreeAtomStruct_def mem_set_def give_slot_def st_def Let_def)
  moreover have "table_ok ((if atom_type p = JSI_ATOM_TYPE_SYMBOL then {} else {i}) - {i}) (give_slot s1 i st)"
    by (rule table_ok_give [OF s1(3) i(1) i1]) (use ref in \<open>auto simp: st_def\<close>)
  then have "table_ok {} (give_slot s1 i st)" by (simp split: if_splits)
  moreover have "keeps {a} s1 (give_slot s1 i st)" by (rule keeps_give [OF i1]) (simp add: st_def)
  then have "keeps {a} s (give_slot s1 i st)" using keeps_trans [OF keeps_relinked [OF s1(2)]] by simp
  moreover have "atom_entry (give_slot s1 i st) i = None"
    using il by (simp add: atom_entry_def give_slot_def mem_get_def)
  moreover have "table_sim s s1" using s1(2) by (simp add: relinked_def)
  then have "entries_from s1 (give_slot s1 i st)" "entries_from s s1"
    using give_slot_entry [OF _ i1, of st] s1(3) by (auto simp: st_def table_ok_def entries_from_def split: if_splits
      intro: entries_from_sim [unfolded entries_from_def, rule_format])
  then have "entries_from s (give_slot s1 i st)" by (rule entries_from_trans [rotated])
  ultimately show ?thesis using s1(5) by simp
qed

text \<open>A reference to a string that the caller holds: a live object, not the null atom.\<close>

definition str_ref :: "atom_rt \<Rightarrow> addr \<Rightarrow> str_obj \<Rightarrow> bool" where
  "str_ref s a p \<longleftrightarrow> strs s a = Some p \<and> 0 < ref_count p \<and> mem_get (atom_array s) 0 \<noteq> Some (StrSlot a)"

lemma str_ref_entry:
  assumes "table_ok X s" "str_ref s a p" "atom_type p \<noteq> 0"
  obtains i where "i \<noteq> 0" "atom_entry s i = Some (a, p)"
proof -
  have "store_ok s" using assms(1) by (simp add: table_ok_def)
  then have "atom_type p = 0 \<or> (\<exists>i. atom_entry s i = Some (a, p)) \<or> atom_type p = JSI_ATOM_TYPE_SYMBOL \<and> ref_count p \<le> 0"
    using assms(2) unfolding store_ok_def str_ref_def by blast
  then obtain i where i: "atom_entry s i = Some (a, p)" using assms(2,3) by (auto simp: str_ref_def)
  then have "i \<noteq> 0" using assms(2) by (cases "i = 0") (auto simp: str_ref_def atom_entry_iff)
  then show thesis using that i by blast
qed

lemma free_string_ok:
  assumes ok: "table_ok {} s" and a: "str_ref s a p"
  shows "\<exists>s'. jsi_free_string s a = Some s' \<and> table_ok {} s' \<and> keeps {a} s s' \<and> entries_from s s'
    \<and> (atom_free_index s \<noteq> 0 \<longrightarrow> atom_free_index s' \<noteq> 0) \<and> atom_hash_size s' = atom_hash_size s"
proof -
  let ?s = "upd_str s a (add_ref (- 1))"
  have p: "strs s a = Some p" using a by (simp add: str_ref_def)
  have ok1: "table_ok {} ?s" by (rule table_ok_ref [OF ok p]) simp
  have k: "keeps {a} s ?s" by (rule keeps_upd)
  have f: "entries_from s ?s" by (rule entries_from_sim [OF add_ref_sim])
  show ?thesis
  proof (cases "ref_count p - 1 \<le> 0")
    case False
    then show ?thesis using p ok1 k f by (simp add: jsi_free_string_def)
  next
    case True
    show ?thesis
    proof (cases "atom_type p = 0")
      case T: True
      have nt: "mem_get (atom_array ?s) i \<noteq> Some (StrSlot a)" for i
        by (rule not_in_table [OF ok1, of _ "add_ref (- 1) p"]) (use p T in simp)
      have "table_ok {} (?s\<lparr>strs := (strs ?s)(a := None)\<rparr>)"
        by (rule table_ok_store [OF ok1 nt]) simp
      moreover have "entries_from s (?s\<lparr>strs := (strs ?s)(a := None)\<rparr>)"
        using f unfolding entries_from_def atom_entry_store [OF nt] .
      moreover have "keeps {a} s (?s\<lparr>strs := (strs ?s)(a := None)\<rparr>)" by (simp add: keeps_def obj_keep_def)
      ultimately show ?thesis using p True T by (simp add: jsi_free_string_def Let_def)
    next
      case F: False
      obtain i where i: "i \<noteq> 0" "atom_entry s i = Some (a, p)" using str_ref_entry [OF ok a F] .
      have i1: "atom_entry ?s i = Some (a, add_ref (- 1) p)" using i(2) by (simp add: atom_entry_upd)
      obtain s' where s': "JSI_FreeAtomStruct ?s a = Some s'" "table_ok {} s'" "keeps {a} ?s s'"
          "entries_from ?s s'" "atom_free_index s' = i" "atom_hash_size s' = atom_hash_size ?s"
        using free_struct_ok [OF ok1 i(1) i1] True by auto
      then show ?thesis
        using p True F i(1) keeps_trans [OF k s'(3)] entries_from_trans [OF f s'(4)] by (simp add: jsi_free_string_def)
    qed
  qed
qed

section \<open>The resize\<close>

text \<open>During the resize: the atoms of \<open>P\<close> are in the new table of \<open>n\<close> buckets, with links in \<open>s\<close>.\<close>

definition new_bucket :: "atom_rt \<Rightarrow> nat \<Rightarrow> nat \<Rightarrow> nat set" where
  "new_bucket s n j = {i. \<exists>a p. atom_entry s i = Some (a, p) \<and> atom_type p \<noteq> JSI_ATOM_TYPE_SYMBOL
     \<and> unat (hash p AND (of_nat n - 1)) = j}"

definition rehash_inv :: "nat \<Rightarrow> nat set \<Rightarrow> atom_rt \<Rightarrow> nat list \<Rightarrow> bool" where
  "rehash_inv n P s nh \<longleftrightarrow> length nh = n \<and>
     (\<forall>j < n. \<exists>xs. chain (nxt s) (nh ! j) xs \<and> set xs = new_bucket s n j \<inter> P)"

lemma new_bucket_sim: "table_sim s s' \<Longrightarrow> new_bucket s' n j = new_bucket s n j"
proof (rule set_eqI)
  fix i assume sim: "table_sim s s'"
  show "i \<in> new_bucket s' n j \<longleftrightarrow> i \<in> new_bucket s n j"
    using entry_simD [OF sim, of i]
    by (cases "atom_entry s i"; cases "atom_entry s' i") (auto simp: new_bucket_def obj_sim_def)
qed

lemma table_sim_refl [simp]: "table_sim s s"
  by (simp add: table_sim_def same_array_def)

lemma table_sim_trans:
  assumes "table_sim s s'" "table_sim s' s''"
  shows "table_sim s s''"
  unfolding table_sim_def
proof (intro conjI allI)
  show "same_array s s''" using assms by (simp add: table_sim_def same_array_def)
  show "entry_sim (atom_entry s i) (atom_entry s'' i)" for i
    using entry_simD [OF assms(1), of i] entry_simD [OF assms(2), of i]
    by (cases "atom_entry s i"; cases "atom_entry s' i"; cases "atom_entry s'' i") (auto simp: obj_sim_def)
qed

lemma relinked_refl [simp]: "relinked s s"
  by (simp add: relinked_def)

lemma relinked_trans: "relinked s s' \<Longrightarrow> relinked s' s'' \<Longrightarrow> relinked s s''"
  unfolding relinked_def using table_sim_trans by auto

lemma relinked_set_next:
  "store_ok s \<Longrightarrow> atom_entry s i = Some (a, p) \<Longrightarrow> atom_type p \<noteq> JSI_ATOM_TYPE_SYMBOL \<Longrightarrow> relinked s (set_next s a n)"
  unfolding relinked_def using set_next_sim by (auto simp: set_next_def option.map_comp comp_def)

text \<open>One atom moves to the head of its new bucket.\<close>

lemma rehash_inv_step:
  assumes inv: "rehash_inv n P s nh" and st: "store_ok s" and h: "atom_entry s h = Some (a, p)"
    "atom_type p \<noteq> JSI_ATOM_TYPE_SYMBOL" "h \<noteq> 0" "h \<notin> P"
    and j: "j = unat (hash p AND (of_nat n - 1))" "j < n"
  shows "rehash_inv n (insert h P) (set_next s a (nh ! j)) (nh[j := h])"
  unfolding rehash_inv_def
proof (intro conjI allI impI)
  let ?s = "set_next s a (nh ! j)"
  have len: "length nh = n" using inv by (simp add: rehash_inv_def)
  then show "length (nh[j := h]) = n" by simp
  note n = set_next_nxt [OF st h(1), of "nh ! j"]
  note b = new_bucket_sim [OF set_next_sim [OF st h(1,2)], of "nh ! j" n]
  fix k assume "k < n"
  then obtain xs where xs: "chain (nxt s) (nh ! k) xs" "set xs = new_bucket s n k \<inter> P"
    using inv by (auto simp: rehash_inv_def)
  have c: "chain (nxt ?s) (nh ! k) xs" using xs h(4) by (simp add: n chain_upd)
  have hb: "h \<in> new_bucket s n k \<longleftrightarrow> k = j" using h j by (auto simp: new_bucket_def)
  show "\<exists>xs. chain (nxt ?s) (nh[j := h] ! k) xs \<and> set xs = new_bucket ?s n k \<inter> insert h P"
  proof (cases "k = j")
    case True
    then show ?thesis using c xs(2) h(3) hb j(2) len
      by (intro exI [of _ "h # xs"]) (auto simp: b n)
  next
    case False
    then show ?thesis using c xs(2) hb by (intro exI [of _ xs]) (auto simp: b)
  qed
qed

lemma rehash_chain_ok:
  assumes "rehash_inv n P s nh" "store_ok s" "chain (nxt s) h xs" "set xs \<inter> P = {}"
    and "\<And>x. x \<in> set xs \<Longrightarrow> \<exists>a p. atom_entry s x = Some (a, p) \<and> atom_type p \<noteq> JSI_ATOM_TYPE_SYMBOL"
    and n: "n = 2 ^ k"
  shows "\<exists>s' nh'. rehash_chain s nh (of_nat n - 1) h = Some (s', nh') \<and> rehash_inv n (P \<union> set xs) s' nh'
    \<and> relinked s s' \<and> store_ok s' \<and> same_hash s s' \<and> (\<forall>x. x \<notin> set xs \<longrightarrow> nxt s' x = nxt s x)"
  using assms(1-5)
proof (induction xs arbitrary: s nh P h)
  case Nil
  then show ?case by (auto simp: rehash_chain.simps same_hash_def)
next
  case (Cons x xs)
  obtain a p where x: "atom_entry s x = Some (a, p)" "atom_type p \<noteq> JSI_ATOM_TYPE_SYMBOL"
    using Cons.prems(5) [of x] by auto
  have hx: "h = x" "x \<noteq> 0" "chain (nxt s) (nxt s x) xs" using Cons.prems(3) by auto
  have d: "x \<notin> set xs" using chain_distinct [OF Cons.prems(3)] by simp
  define j where "j = unat (hash p AND (of_nat n - 1))"
  have jn: "j < n" by (simp add: j_def n bucket_mod)
  have len: "length nh = n" using Cons.prems(1) by (simp add: rehash_inv_def)
  let ?s = "set_next s a (nh ! j)"
  have step: "rehash_chain s nh (of_nat n - 1) h = rehash_chain ?s (nh[j := x]) (of_nat n - 1) (nxt s x)"
    using x hx jn len by (subst rehash_chain.simps)
      (simp add: mem_get_def mem_set_def set_next_def nxt_entry flip: j_def)
  have inv: "rehash_inv n (insert x P) ?s (nh[j := x])"
    using rehash_inv_step [OF Cons.prems(1,2) x hx(2) _ j_def jn] Cons.prems(4) by auto
  note nx = set_next_nxt [OF Cons.prems(2) x(1), of "nh ! j"]
  have "\<exists>s' nh'. rehash_chain ?s (nh[j := x]) (of_nat n - 1) (nxt s x) = Some (s', nh')
    \<and> rehash_inv n (insert x P \<union> set xs) s' nh'
    \<and> relinked ?s s' \<and> store_ok s' \<and> same_hash ?s s' \<and> (\<forall>y. y \<notin> set xs \<longrightarrow> nxt s' y = nxt ?s y)"
  proof (rule Cons.IH [OF inv set_next_store [OF Cons.prems(2)]])
    show "chain (nxt ?s) (nxt s x) xs" using hx(3) d by (simp add: nx chain_upd)
    show "set xs \<inter> insert x P = {}" using Cons.prems(4) d by auto
    show "\<exists>b q. atom_entry ?s y = Some (b, q) \<and> atom_type q \<noteq> JSI_ATOM_TYPE_SYMBOL" if y: "y \<in> set xs" for y
    proof -
      obtain b q where q: "atom_entry s y = Some (b, q)" "atom_type q \<noteq> JSI_ATOM_TYPE_SYMBOL"
        using Cons.prems(5) [of y] y by auto
      obtain q' where "atom_entry ?s y = Some (b, q')" "obj_sim q q'"
        using entry_simE' [OF set_next_sim [OF Cons.prems(2) x] q(1)] .
      then show ?thesis using q(2) by (auto simp: obj_sim_def)
    qed
  qed
  then obtain s' nh' where s': "rehash_chain ?s (nh[j := x]) (of_nat n - 1) (nxt s x) = Some (s', nh')"
    "rehash_inv n (insert x P \<union> set xs) s' nh'" "relinked ?s s'" "store_ok s'" "same_hash ?s s'"
    "\<And>y. y \<notin> set xs \<Longrightarrow> nxt s' y = nxt ?s y" by blast
  have "relinked s s'" using relinked_trans [OF relinked_set_next [OF Cons.prems(2) x] s'(3)] .
  moreover have "same_hash s s'" using s'(5) by (simp add: same_hash_def set_next_def)
  ultimately show ?case using s'(1,2,4,6) step by (auto simp: nx)
qed

lemma rehash_buckets_ok:
  assumes "rehash_inv n P s nh" "store_ok s" "list_all2 (chain (nxt s)) hs xss" "distinct (concat xss)"
    "set (concat xss) \<inter> P = {}"
    and "\<And>x. x \<in> set (concat xss) \<Longrightarrow> \<exists>a p. atom_entry s x = Some (a, p) \<and> atom_type p \<noteq> JSI_ATOM_TYPE_SYMBOL"
    and n: "n = 2 ^ k"
  shows "\<exists>s' nh'. rehash_buckets s nh (of_nat n - 1) hs = Some (s', nh')
    \<and> rehash_inv n (P \<union> set (concat xss)) s' nh' \<and> relinked s s' \<and> store_ok s' \<and> same_hash s s'"
  using assms(1-6)
proof (induction hs arbitrary: s nh P xss)
  case Nil
  then show ?case by (auto simp: same_hash_def)
next
  case (Cons h hs)
  obtain xs xss' where xss: "xss = xs # xss'" "chain (nxt s) h xs" "list_all2 (chain (nxt s)) hs xss'"
    using Cons.prems(3) by (auto simp: list_all2_Cons1)
  have dis: "set xs \<inter> P = {}" "set xs \<inter> set (concat xss') = {}" "distinct (concat xss')"
    "set (concat xss') \<inter> P = {}"
    using Cons.prems(4,5) xss(1) by auto
  have ent: "\<exists>a p. atom_entry s x = Some (a, p) \<and> atom_type p \<noteq> JSI_ATOM_TYPE_SYMBOL"
    if "x \<in> set xs \<or> x \<in> set (concat xss')" for x
    using Cons.prems(6) [of x] that xss(1) by auto
  obtain s1 nh1 where s1: "rehash_chain s nh (of_nat n - 1) h = Some (s1, nh1)"
    "rehash_inv n (P \<union> set xs) s1 nh1" "relinked s s1" "store_ok s1" "same_hash s s1"
    "\<forall>x. x \<notin> set xs \<longrightarrow> nxt s1 x = nxt s x"
    using rehash_chain_ok [OF Cons.prems(1,2) xss(2) dis(1) ent n] by blast
  have "chain (nxt s1) b ys = chain (nxt s) b ys" if "ys \<in> set xss'" for b ys
    by (rule chain_cong) (use that s1(6) dis(2) in auto)
  then have ch: "list_all2 (chain (nxt s1)) hs xss'"
    using xss(3) by (auto simp: list_all2_conv_all_nth)
  have ent1: "\<exists>a p. atom_entry s1 x = Some (a, p) \<and> atom_type p \<noteq> JSI_ATOM_TYPE_SYMBOL"
    if x: "x \<in> set (concat xss')" for x
  proof -
    obtain b q where q: "atom_entry s x = Some (b, q)" "atom_type q \<noteq> JSI_ATOM_TYPE_SYMBOL"
      using ent [of x] x by auto
    have "table_sim s s1" using s1(3) by (simp add: relinked_def)
    from entry_simE' [OF this q(1)] obtain q' where "atom_entry s1 x = Some (b, q')" "obj_sim q q'" .
    then show ?thesis using q(2) by (auto simp: obj_sim_def)
  qed
  obtain s' nh' where s': "rehash_buckets s1 nh1 (of_nat n - 1) hs = Some (s', nh')"
    "rehash_inv n (P \<union> set xs \<union> set (concat xss')) s' nh'" "relinked s1 s'" "store_ok s'" "same_hash s1 s'"
    using Cons.IH [OF s1(2,4) ch dis(3) _ ent1] dis by blast
  have "same_hash s s'" using s1(5) s'(5) by (simp add: same_hash_def)
  then show ?case
    using s1(1) s'(1,2,4) relinked_trans [OF s1(3) s'(3)] xss(1) by (simp add: Un_assoc)
qed

lemma and_pow2: "(2 ^ k :: nat) AND (2 ^ k - 1) = 0"
proof -
  have "(2 ^ k :: nat) AND (2 ^ k - 1) = take_bit k (2 ^ k)" by (simp add: take_bit_eq_mask mask_eq_exp_minus_1)
  then show ?thesis by (simp add: take_bit_eq_mod)
qed

text \<open>The chains of all buckets, and that they hold every hashed atom once.\<close>

lemma bucket_chains:
  assumes ok: "sizes_ok s" "buckets_ok {} s"
  obtains xss where "list_all2 (chain (nxt s)) (atom_hash s) xss" "distinct (concat xss)"
    "set (concat xss) = (\<Union>b. bucket_set s b)"
proof -
  have "\<forall>b. \<exists>xs. b < atom_hash_size s \<longrightarrow> chain (nxt s) (atom_hash s ! b) xs \<and> set xs = bucket_set s b"
    using ok(2) by (auto simp: buckets_ok_def)
  then obtain f where f: "\<And>b. b < atom_hash_size s \<Longrightarrow> chain (nxt s) (atom_hash s ! b) (f b) \<and> set (f b) = bucket_set s b"
    by metis
  have len: "length (atom_hash s) = atom_hash_size s" using ok(1) by (simp add: sizes_ok_def)
  let ?xss = "map f [0..<atom_hash_size s]"
  have 1: "list_all2 (chain (nxt s)) (atom_hash s) ?xss" using f len by (simp add: list_all2_conv_all_nth)
  have sub: "bucket_set s b \<noteq> {} \<Longrightarrow> b < atom_hash_size s" for b
    using hash_bucket_less [OF ok(1)] by (auto simp: bucket_set_def)
  have 3: "set (concat ?xss) = (\<Union>b. bucket_set s b)" using f sub by fastforce
  have disj: "i \<noteq> j \<Longrightarrow> bucket_set s i \<inter> bucket_set s j = {}" for i j by (auto simp: bucket_set_def)
  have "distinct (concat (map f xs))" if "distinct xs" "\<And>x. x \<in> set xs \<Longrightarrow> x < atom_hash_size s" for xs
    using that
  proof (induction xs)
    case (Cons x xs)
    have "set (f x) \<inter> set (f y) = {}" if "y \<in> set xs" for y
      using f [of x] f [of y] Cons.prems that disj [of x y] by auto
    then show ?case using Cons f [of x] chain_distinct by auto
  qed simp
  from this [of "[0..<atom_hash_size s]"] have 2: "distinct (concat ?xss)" by simp
  show thesis using that [OF 1 2 3] .
qed

lemma resize_ok:
  assumes ok: "table_ok {} s" and k: "k \<le> 29"
  shows "\<exists>r s'. JSI_ResizeAtomHash E s (2 ^ k) = Some (r, s') \<and> table_ok {} s' \<and> keeps {} s s'
    \<and> atom_array s' = atom_array s \<and> (r = 0 \<longrightarrow> atom_hash_size s' = 2 ^ k)"
proof (cases "ae_hash E (2 ^ k)")
  case False
  then show ?thesis using ok and_pow2 [of k] by (auto simp: JSI_ResizeAtomHash_def)
next
  case True
  let ?n = "2 ^ k :: nat"
  have parts: "sizes_ok s" "store_ok s" "buckets_ok {} s" using ok by (simp_all add: table_ok_def)
  obtain xss where xss: "list_all2 (chain (nxt s)) (atom_hash s) xss" "distinct (concat xss)"
    "set (concat xss) = (\<Union>b. bucket_set s b)" using bucket_chains [OF parts(1,3)] .
  have init: "rehash_inv ?n {} s (replicate ?n 0)" by (auto simp: rehash_inv_def intro!: exI [of _ "[]"])
  have ent: "\<exists>a p. atom_entry s x = Some (a, p) \<and> atom_type p \<noteq> JSI_ATOM_TYPE_SYMBOL"
    if "x \<in> set (concat xss)" for x
    using that unfolding xss(3) by (auto simp: bucket_set_def)
  obtain s1 nh where s1: "rehash_buckets s (replicate ?n 0) (of_nat ?n - 1) (atom_hash s) = Some (s1, nh)"
    "rehash_inv ?n (set (concat xss)) s1 nh" "relinked s s1" "store_ok s1" "same_hash s s1"
    using rehash_buckets_ok [OF init parts(2) xss(1,2) _ ent refl] by auto
  let ?s = "s1\<lparr>atom_hash := nh, atom_hash_size := ?n, atom_count_resize := ?n * 2\<rparr>"
  have r: "JSI_ResizeAtomHash E s ?n = Some (0, ?s)"
    using True and_pow2 [of k] s1(1) by (simp add: JSI_ResizeAtomHash_def)
  have sim1: "table_sim s s1" using s1(3) by (simp add: relinked_def)
  have e: "atom_entry ?s = atom_entry s1"
    by (rule ext) (simp add: atom_entry_def split: Option.bind_split atom_slot.split)
  have sim: "table_sim s ?s" using sim1 by (simp add: table_sim_def e same_array_def)
  have nx: "nxt ?s = nxt s1" by (simp add: nxt_def e fun_eq_iff)
  have all: "new_bucket s1 ?n j \<subseteq> set (concat xss)" for j
    unfolding xss(3) new_bucket_sim [OF sim1] by (auto simp: new_bucket_def bucket_set_def)
  have "bucket_set ?s j = new_bucket s1 ?n j" for j
    by (simp add: bucket_set_def new_bucket_def hash_bucket_def e)
  then have "buckets_ok {} ?s"
    using s1(2) all by (simp add: buckets_ok_def rehash_inv_def nx Int_absorb2)
  moreover have "sizes_ok ?s"
    using parts(1) s1(2) k table_sim_live [OF sim] table_sim_array [OF sim1]
    by (auto simp: sizes_ok_def rehash_inv_def)
  moreover have "store_ok ?s" using s1(4) by (simp add: store_ok_def e)
  ultimately have "table_ok {} ?s" using table_ok_relink [OF ok sim] by blast
  moreover have "keeps {} s ?s" using keeps_relinked [OF s1(3)] by (simp add: keeps_def)
  ultimately show ?thesis using r table_sim_array(3) [OF sim] by simp
qed

section \<open>Growth\<close>

definition fresh_env :: "atom_env \<Rightarrow> bool" where
  "fresh_env E \<longleftrightarrow> (\<forall>st n a. ae_str E st n = Some a \<longrightarrow> st a = None)"

lemma chain_upto:
  assumes "0 < i" "i < n" "\<And>x. i \<le> x \<Longrightarrow> x < n \<Longrightarrow> f x = (if x = n - 1 then 0 else x + 1)"
  shows "chain f i [i..<n]"
  using assms
proof (induction "n - i" arbitrary: i)
  case (Suc d)
  show ?case
  proof (cases "i = n - 1")
    case True
    then have n: "n = Suc i" using Suc.prems(2) by simp
    have "f i = 0" using Suc.prems(3) [of i] n by simp
    then show ?thesis using Suc.prems(1) n by simp
  next
    case False
    have "chain f (i + 1) [i + 1..<n]" by (rule Suc.hyps) (use Suc False in auto)
    then show ?thesis using Suc.prems False by (simp add: upt_rec [of i n])
  qed
qed simp

lemma free_slots_nth:
  "i < n - start \<Longrightarrow> free_slots start n ! i = FreeSlot (if start + i = n - 1 then 0 else start + i + 1)"
  by (simp add: free_slots_def)

lemma free_slots_length [simp]: "length (free_slots start n) = n - start"
  by (simp add: free_slots_def)

definition append_slots :: "atom_rt \<Rightarrow> nat \<Rightarrow> atom_rt" where
  "append_slots s n = s\<lparr>atom_size := n, atom_array := atom_array s @ free_slots (atom_size s) n,
     atom_free_index := atom_size s\<rparr>"

lemma append_slots_fields [simp]:
  "atom_hash_size (append_slots s n) = atom_hash_size s" "atom_count (append_slots s n) = atom_count s"
  "atom_size (append_slots s n) = n" "atom_count_resize (append_slots s n) = atom_count_resize s"
  "atom_hash (append_slots s n) = atom_hash s" "strs (append_slots s n) = strs s"
  "atom_free_index (append_slots s n) = atom_size s"
  "atom_array (append_slots s n) = atom_array s @ free_slots (atom_size s) n"
  by (simp_all add: append_slots_def)

lemma append_slots_entry:
  assumes "length (atom_array s) = atom_size s"
  shows "atom_entry (append_slots s n) = atom_entry s"
proof (rule ext)
  fix i
  show "atom_entry (append_slots s n) i = atom_entry s i"
    using assms unfolding atom_entry_def
    by (simp add: mem_get_def nth_append free_slots_nth split: atom_slot.split Option.bind_split)
qed

lemma table_ok_append:
  assumes ok: "table_ok {} s" and "atom_free_index s = 0" "0 < atom_size s" "atom_size s < n" "n \<le> JSI_ATOM_MAX"
  shows "table_ok {} (append_slots s n)"
proof -
  let ?s = "append_slots s n"
  have parts: "sizes_ok s" "slots_ok s" "store_ok s" "unique_ok s" "buckets_ok {} s"
    using ok by (simp_all add: table_ok_def)
  have len: "length (atom_array s) = atom_size s" using parts(1) by (simp add: sizes_ok_def)
  have arr: "mem_get (atom_array s @ free_slots (atom_size s) n) i = (if i < atom_size s then mem_get (atom_array s) i
      else if i < n then Some (FreeSlot (if i = n - 1 then 0 else i + 1)) else None)" for i
    using len assms(4) by (auto simp: mem_get_def nth_append free_slots_nth)
  note e = append_slots_entry [OF len, of n]
  have live: "live_set ?s = live_set s" and bk: "bucket_set ?s = bucket_set s" and nx: "nxt ?s = nxt s"
    by (simp_all add: live_set_def bucket_set_def hash_bucket_def nxt_def e fun_eq_iff)
  obtain fl where fl: "chain (fnext s) (atom_free_index s) fl" "set fl = free_set s"
    using parts(2) by (auto simp: slots_ok_def)
  then have "free_set s = {}" using assms(2) by (cases fl) auto
  then have notfree: "mem_get (atom_array s) i \<noteq> Some (FreeSlot m)" for i m by (auto simp: free_set_def)
  have fs: "free_set ?s = {atom_size s..<n}" using notfree by (auto simp: free_set_def arr)
  have fn: "fnext ?s x = (if x = n - 1 then 0 else x + 1)" if "atom_size s \<le> x" "x < n" for x
    using that by (simp add: fnext_def arr)
  have "chain (fnext ?s) (atom_free_index ?s) [atom_size s..<n]"
    using chain_upto [OF assms(3,4) fn] by simp
  then have "slots_ok ?s"
    using parts(2) \<open>free_set s = {}\<close> assms(3) unfolding slots_ok_def e live fs
    by (intro conjI allI impI exI [of _ "[atom_size s..<n]"]) (auto simp: not_less)
  moreover have "sizes_ok ?s" using parts(1) assms(4,5) by (simp add: sizes_ok_def live)
  moreover have "store_ok ?s" using parts(3) by (simp add: store_ok_def e)
  moreover have "unique_ok ?s" using parts(4) by (simp add: unique_ok_def e)
  moreover have "buckets_ok {} ?s" using parts(5) by (simp add: buckets_ok_def nx bk)
  ultimately show ?thesis by (simp add: table_ok_def)
qed

definition null_table :: "atom_rt \<Rightarrow> addr \<Rightarrow> atom_rt" where
  "null_table s a = s\<lparr>strs := (strs s)(a \<mapsto> null_atom), atom_count := atom_count s + 1, atom_size := 1,
     atom_array := [StrSlot a]\<rparr>"

lemma null_table_fields [simp]:
  "atom_hash_size (null_table s a) = atom_hash_size s" "atom_count (null_table s a) = atom_count s + 1"
  "atom_size (null_table s a) = 1" "atom_count_resize (null_table s a) = atom_count_resize s"
  "atom_hash (null_table s a) = atom_hash s" "strs (null_table s a) = (strs s)(a \<mapsto> null_atom)"
  "atom_free_index (null_table s a) = atom_free_index s" "atom_array (null_table s a) = [StrSlot a]"
  by (simp_all add: null_table_def)

lemma null_atom_fields [simp]: "atom_type null_atom = JSI_ATOM_TYPE_SYMBOL" "hash_next null_atom = 0"
  by (simp_all add: null_atom_def)

lemma table_ok_null:
  assumes ok: "table_ok {} s" and "atom_size s = 0" "strs s a = None" "atom_free_index s = 0"
  shows "table_ok {} (null_table s a)"
proof -
  let ?s = "null_table s a"
  have parts: "sizes_ok s" "slots_ok s" "store_ok s" "buckets_ok {} s" using ok by (simp_all add: table_ok_def)
  have none: "atom_entry s i = None" for i using parts(1) assms(2) by (simp add: sizes_ok_def atom_entry_def mem_get_def)
  have e: "atom_entry ?s i = (if i = 0 then Some (a, null_atom) else None)" for i
    by (simp add: atom_entry_def mem_get_def)
  have bk: "bucket_set ?s b = {}" "bucket_set s b = {}" for b by (auto simp: bucket_set_def e none)
  have "live_set ?s = {0}" "live_set s = {}" by (auto simp: live_set_def e none)
  then have "sizes_ok ?s"
    using parts(1) by (simp add: sizes_ok_def JSI_ATOM_MAX_def)
  moreover have "slots_ok ?s"
    unfolding slots_ok_def e using assms(4)
    by (auto simp: entry_ok_def live_set_def e free_set_def mem_get_def intro!: exI [of _ "[]"])
  moreover have "store_ok ?s"
    using parts(3) assms(3) unfolding store_ok_def e none by auto
  moreover have "unique_ok ?s" by (simp add: unique_ok_def e)
  moreover have "buckets_ok {} ?s"
    using parts(4) unfolding buckets_ok_def bk by simp
  ultimately show ?thesis by (simp add: table_ok_def)
qed

text \<open>The table has no room when the product overflows; below, the growth is defined.\<close>

lemma grow_size: "max 211 (n * 3 div 2) > n" "int_ok (int n * 3) \<Longrightarrow> max 211 (n * 3 div 2) \<le> JSI_ATOM_MAX"
  by (auto simp: int_ok_def JSI_ATOM_MAX_def)

lemma atom_grow_unfold:
  assumes "int_ok (int (atom_size s) * 3)" "n = max 211 (atom_size s * 3 div 2)"
  shows "atom_grow E s =
     (if \<not> ae_array E n then Some (False, s)
      else if atom_size s = 0 then
        (case ae_str E (strs s) 0 of None \<Rightarrow> Some (False, s)
         | Some a \<Rightarrow> Some (True, append_slots (null_table s a) n))
      else Some (True, append_slots s n))"
  using assms(1) grow_size(2) [OF assms(1)] unfolding atom_grow_def assms(2) Let_def
  by (auto simp: append_slots_def null_table_def split: option.split)

lemma atom_grow_ok:
  assumes ok: "table_ok {} s" "fresh_env E" "atom_free_index s = 0" "int_ok (int (atom_size s) * 3)"
  shows "\<exists>g s'. atom_grow E s = Some (g, s') \<and> table_ok {} s' \<and> keeps {} s s' \<and> entries_from s s'
    \<and> (g \<longrightarrow> atom_free_index s' \<noteq> 0) \<and> atom_hash_size s' = atom_hash_size s
    \<and> (\<forall>a p. str_ref s a p \<longrightarrow> str_ref s' a p)"
proof -
  define n where "n = max 211 (atom_size s * 3 div 2)"
  have n: "atom_size s < n" "1 < n" "n \<le> JSI_ATOM_MAX" using grow_size ok(4) by (auto simp: n_def)
  have len: "length (atom_array s) = atom_size s" using ok(1) by (simp add: table_ok_def sizes_ok_def)
  note unf = atom_grow_unfold [OF ok(4) n_def, of E]
  show ?thesis
  proof (cases "ae_array E n")
    case False
    then show ?thesis using ok(1) by (auto simp: unf)
  next
    case arr: True
    show ?thesis
    proof (cases "atom_size s = 0")
      case False
      have e: "entries_from s (append_slots s n)"
        using append_slots_entry [OF len] by (simp add: entries_from_def)
      have "keeps {} s (append_slots s n)"
        by (auto simp: keeps_def obj_keep_def mem_get_def nth_append split: if_splits)
      moreover have "str_ref s a p \<Longrightarrow> str_ref (append_slots s n) a p" for a p
        using False len by (simp add: str_ref_def mem_get_def nth_append)
      ultimately show ?thesis
        using arr False table_ok_append [OF ok(1,3) _ n(1,3)] e by (auto simp: unf)
    next
      case True
      show ?thesis
      proof (cases "ae_str E (strs s) 0")
        case None
        then show ?thesis using arr True ok(1) by (auto simp: unf)
      next
        case (Some a)
        then have a: "strs s a = None" using ok(2) by (simp add: fresh_env_def)
        let ?s = "append_slots (null_table s a) n"
        have e: "atom_entry ?s = atom_entry (null_table s a)" by (rule append_slots_entry) simp
        have "atom_entry (null_table s a) i = (if i = 0 then Some (a, null_atom) else None)" for i
          by (simp add: atom_entry_def mem_get_def)
        then have "entries_from s ?s" by (simp add: entries_from_def e)
        moreover have "keeps {} s ?s" using True a len by (auto simp: keeps_def obj_keep_def mem_get_def)
        moreover have "table_ok {} ?s"
          using table_ok_append [OF table_ok_null [OF ok(1) True a ok(3)], of n] ok(3) n by simp
        moreover have "str_ref s b p \<Longrightarrow> str_ref ?s b p" for b p using a by (auto simp: str_ref_def mem_get_def)
        ultimately show ?thesis using arr True Some by (auto simp: unf)
      qed
    qed
  qed
qed
end
