(* ===== verification/QAtomNum.thy ===== *)
theory QAtomNum
  imports QAtom
begin

text \<open>
  Integer atoms: the tag bit, and the canonical decimal strings that become integer atoms.
\<close>

section \<open>The tag\<close>

lemma and_pow_bit: "(n :: nat) AND 2 ^ k = (if bit n k then 2 ^ k else 0)"
  by (rule bit_eqI) (auto simp: bit_and_iff bit_exp_iff)

lemma bit31: "n < 2 ^ 32 \<Longrightarrow> bit (n :: nat) 31 \<longleftrightarrow> 2 ^ 31 \<le> n"
proof (cases "n < 2 ^ 31")
  case False
  assume n: "n < 2 ^ 32"
  define m where "m = n - 2 ^ 31"
  have m: "n = m + 2 ^ 31" "m < 2 ^ 31" using n False by (simp_all add: m_def)
  then have "n div 2 ^ 31 = Suc 0" by simp
  then show ?thesis using m by (simp add: bit_iff_odd)
qed (simp add: bit_iff_odd)

lemma tag_or: "n < 2 ^ 31 \<Longrightarrow> JSI_AtomFromUInt32 n = n + 2 ^ 31"
proof -
  assume n: "n < 2 ^ 31"
  then have "n AND 2 ^ 31 = 0" using bit31 [of n] and_pow_bit [of n 31] by simp
  then show ?thesis unfolding JSI_AtomFromUInt32_def JSI_ATOM_TAG_INT_def by (rule disjunctive_add_eq_or [symmetric])
qed

lemma tag_test: "n < 2 ^ 32 \<Longrightarrow> JSI_AtomIsTaggedInt n \<longleftrightarrow> 2 ^ 31 \<le> n"
  unfolding JSI_AtomIsTaggedInt_def JSI_ATOM_TAG_INT_def and_pow_bit by (simp only: bit31 split: if_splits) simp

lemma untag: "n < 2 ^ 31 \<Longrightarrow> JSI_AtomToUInt32 (JSI_AtomFromUInt32 n) = n"
proof -
  assume n: "n < 2 ^ 31"
  have "(n + 2 ^ 31) AND (2 ^ 31 - 1) = take_bit 31 (n + 2 ^ 31)"
    by (simp only: take_bit_eq_mask mask_eq_exp_minus_1)
  then show ?thesis using n by (simp only: tag_or JSI_AtomToUInt32_def) (simp add: take_bit_eq_mod)
qed

lemma is_const_small: "v < 2 ^ 31 \<Longrightarrow> JSI_AtomIsConst v \<longleftrightarrow> v < JSI_ATOM_END"
proof -
  assume v: "v < 2 ^ 31"
  have "sint (word_of_nat v :: u32) = int v"
    using v by (simp add: signed_of_nat signed_take_bit_int_eq_self)
  then show ?thesis by (simp add: JSI_AtomIsConst_def)
qed

section \<open>Decimal strings\<close>

fun dec_units :: "nat \<Rightarrow> u16 list" where
  "dec_units n = (if n < 10 then [0x30 + of_nat n] else dec_units (n div 10) @ [0x30 + of_nat (n mod 10)])"

declare dec_units.simps [simp del]

lemma digit_unat: "d < 10 \<Longrightarrow> unat (0x30 + of_nat d :: u16) = 0x30 + d"
  by (simp add: unat_word_ariths unat_of_nat)

lemma digit_num: "d < 10 \<Longrightarrow> is_num (0x30 + of_nat d) \<and> unat (0x30 + of_nat d :: u16) - 0x30 = d"
  by (simp add: is_num_def word_le_nat_alt digit_unat)

lemma num_digit: "is_num c \<Longrightarrow> unat c - 0x30 < 10 \<and> 0x30 + of_nat (unat c - 0x30) = c"
  by (auto simp: is_num_def word_le_nat_alt word_unat_eq_iff digit_unat)

lemma widen_digit: "d < 10 \<Longrightarrow> (ucast (0x30 + of_nat d :: u8) :: u16) = 0x30 + of_nat d"
  by (simp add: word_unat_eq_iff digit_unat unsigned_ucast_eq unat_word_ariths unat_of_nat take_bit_nat_eq_self)

lemma u64_digits_dec: "n < 2 ^ 64 \<Longrightarrow> map ucast (rev (u64_digits (of_nat n))) = dec_units n"
proof (induction n rule: dec_units.induct)
  case (1 n)
  have u: "unat (of_nat n :: u64) = n" using 1(2) by (simp add: unat_of_nat)
  have d: "(of_nat n :: u64) div 10 = of_nat (n div 10)"
    using u by (simp add: word_unat_eq_iff unat_div unat_of_nat)
  show ?case
  proof (cases "n < 10")
    case True
    then show ?thesis by (subst u64_digits_unfold, subst dec_units.simps) (simp add: u widen_digit div_eq_0_iff)
  next
    case False
    have "map ucast (rev (u64_digits (of_nat (n div 10)))) = dec_units (n div 10)"
      by (rule 1(1)) (use False 1(2) in auto)
    then show ?thesis using False
      by (subst u64_digits_unfold, subst dec_units.simps) (simp add: u widen_digit d div_greater_zero_iff)
  qed
qed

lemma u64toa2_dec: "n < 2 ^ 63 \<Longrightarrow> map ucast (u64toa2 (of_nat n)) = dec_units n"
proof -
  assume n: "n < 2 ^ 63"
  then have "sint (word_of_nat n :: i64) = int n" by (simp add: signed_of_nat signed_take_bit_int_eq_self)
  then show ?thesis using n u64_digits_dec [of n] by (simp add: u64toa2_def)
qed

text \<open>The digits read so far and the rest make the string of the result.\<close>

lemma num_digits_dec: "num_digits k cs = Some n \<Longrightarrow> 0 < k \<Longrightarrow> dec_units n = dec_units k @ cs"
proof (induction cs arbitrary: k)
  case (Cons c cs)
  define d where "d = unat c - 0x30"
  have c: "is_num c" "num_digits (k * 10 + d) cs = Some n"
    using Cons.prems(1) by (auto simp: d_def Let_def split: if_splits)
  have d: "d < 10" "0x30 + of_nat d = c" using num_digit [OF c(1)] by (simp_all add: d_def)
  have "dec_units (k * 10 + d) = dec_units k @ [c]"
    using d Cons.prems(2) by (subst dec_units.simps) auto
  then show ?case using Cons.IH [OF c(2)] Cons.prems(2) by simp
qed simp

lemma num_digits_less: "num_digits k cs = Some n \<Longrightarrow> k < 2 ^ 32 \<Longrightarrow> n < 2 ^ 32"
proof (induction cs arbitrary: k)
  case (Cons c cs)
  then show ?case by (auto simp: Let_def drop_bit_eq_div div_eq_0_iff split: if_splits)
qed simp

lemma num_digits_snoc:
  "num_digits k (cs @ [c]) = (case num_digits k cs of None \<Rightarrow> None | Some n \<Rightarrow> num_digits n [c])"
  by (induction cs arbitrary: k) (auto simp: Let_def)

lemma is_num_string_dec:
  assumes "is_num_string p = Some n"
  shows "units p = dec_units n" "n < 2 ^ 32"
proof -
  obtain c cs where u: "units p = c # cs" using assms by (cases "units p") (auto simp: is_num_string_def)
  have c: "is_num c" using assms u by (auto simp: is_num_string_def split: if_splits)
  note d = num_digit [OF c]
  have "units p = dec_units n \<and> n < 2 ^ 32"
  proof (cases "c = 0x30")
    case True
    then have "cs = []" "n = 0" using assms u by (auto simp: is_num_string_def str_len_def is_num_def split: if_splits)
    then show ?thesis using u True by (simp add: dec_units.simps)
  next
    case False
    then have n: "num_digits (unat c - 0x30) cs = Some n"
      using assms u by (auto simp: is_num_string_def split: if_splits)
    have pos: "0 < unat c - 0x30" using False d by (cases "unat c - 0x30 = 0") auto
    have "dec_units (unat c - 0x30) = [c]" using d by (subst dec_units.simps) simp
    then show ?thesis using num_digits_dec [OF n pos] num_digits_less [OF n] d u by simp
  qed
  then show "units p = dec_units n" "n < 2 ^ 32" by simp_all
qed

lemma dec_digits:
  "0 < n \<Longrightarrow> n < 2 ^ 32 \<Longrightarrow> \<exists>c cs. dec_units n = c # cs \<and> is_num c \<and> c \<noteq> 0x30 \<and> num_digits (unat c - 0x30) cs = Some n"
proof (induction n rule: dec_units.induct)
  case (1 n)
  show ?case
  proof (cases "n < 10")
    case True
    have "(0x30 + of_nat n :: u16) \<noteq> 0x30" using digit_unat [OF True] 1(2) by (auto simp: word_unat_eq_iff)
    then show ?thesis using digit_num [OF True] True by (subst dec_units.simps) simp
  next
    case False
    have "0 < n div 10" "n div 10 < 2 ^ 32" using False 1(3) div_le_dividend [of n 10] by simp_all
    then obtain c cs where c: "dec_units (n div 10) = c # cs" "is_num c" "c \<noteq> 0x30"
      "num_digits (unat c - 0x30) cs = Some (n div 10)"
      using 1(1) [OF False] by blast
    have "num_digits (n div 10) [0x30 + of_nat (n mod 10)] = Some n"
      using digit_num [of "n mod 10"] 1(3) by (simp add: Let_def drop_bit_eq_div)
    then show ?thesis using c False by (subst dec_units.simps) (simp add: num_digits_snoc)
  qed
qed

lemma dec_value: "foldl (\<lambda>a c. a * 10 + (unat c - 0x30)) 0 (dec_units n) = n"
proof (induction n rule: dec_units.induct)
  case (1 n)
  then show ?case using digit_num [of n] digit_num [of "n mod 10"] by (subst dec_units.simps) auto
qed

lemma dec_units_inj: "dec_units m = dec_units n \<Longrightarrow> m = n"
  using dec_value by metis

lemma dec_units_length: "n < 10 ^ Suc k \<Longrightarrow> length (dec_units n) \<le> Suc k"
proof (induction k arbitrary: n)
  case (Suc k)
  then have "n div 10 < 10 ^ Suc k" by (simp add: div_less_iff_less_mult)
  then show ?case using Suc.IH [of "n div 10"] by (subst dec_units.simps) simp
qed (simp add: dec_units.simps)

text \<open>\<open>is_num_string\<close> recognises exactly the canonical decimal strings of the 32-bit numbers.\<close>

lemma is_num_string_iff: "is_num_string p = Some n \<longleftrightarrow> units p = dec_units n \<and> n < 2 ^ 32"
proof
  assume u: "units p = dec_units n \<and> n < 2 ^ 32"
  show "is_num_string p = Some n"
  proof (cases "n = 0")
    case True
    then have "units p = [0x30]" using u by (simp add: dec_units.simps)
    then show ?thesis using True by (simp add: is_num_string_def str_len_def is_num_def)
  next
    case False
    then obtain c cs where c: "dec_units n = c # cs" "is_num c" "c \<noteq> 0x30" "num_digits (unat c - 0x30) cs = Some n"
      using dec_digits [of n] u by auto
    have "length (dec_units n) \<le> 10" using dec_units_length [of n 9] u by simp
    then show ?thesis using c u by (simp add: is_num_string_def str_len_def)
  qed
qed (use is_num_string_dec in blast)
end
