(* ===== verification/QAtomOps.thy ===== *)
theory QAtomOps
  imports QAtomTable QAtomNum
begin

text \<open>
  The operations of the atom table: they are defined on a table that satisfies the invariant, keep
  it, and intern strings.
\<close>

section \<open>Linking a new atom\<close>

lemma table_ok_drop:
  "table_ok (insert i X) s \<Longrightarrow> (\<And>b. i \<notin> bucket_set s b) \<Longrightarrow> table_ok X s"
  unfolding table_ok_def buckets_ok_def by (metis Diff_insert0)

lemma resize_small:
  assumes "sizes_ok s" "atom_count s \<ge> atom_count_resize s"
  shows "\<exists>k \<le> 29. atom_hash_size s * 2 = 2 ^ k"
proof -
  obtain k where k: "atom_hash_size s = 2 ^ k" using assms(1) by (auto simp: sizes_ok_def)
  have "atom_hash_size s * 2 \<le> JSI_ATOM_MAX"
    using live_card [OF assms(1)] assms by (simp add: sizes_ok_def)
  then have "2 ^ Suc k < (2 :: nat) ^ 30" by (simp add: k JSI_ATOM_MAX_def)
  then have "Suc k < 30" by (rule power_less_imp_less_exp [rotated]) simp
  then show ?thesis using k by (intro exI [of _ "Suc k"]) simp
qed

lemma atom_link_retype:
  "atom_link E (upd_str s a (atom_type_update (\<lambda>_. ty))) a h h1 ty' = atom_link E s a h h1 ty'"
  by (simp add: atom_link_def upd_str_def option.map_comp comp_def fnext_def)

lemma atom_link_ok:
  assumes ok: "table_ok {} s" and i: "atom_free_index s \<noteq> 0" and b: "strs s b = Some p" "atom_type p = 0"
    and ty: "ty \<in> {1, 2, 3}" and h: "ty \<noteq> 3 \<Longrightarrow> h = atom_hash_of ty (s_data p) \<and> h1 = hash_bucket s h"
    and new: "\<And>j a q. ty \<noteq> 3 \<Longrightarrow> atom_entry s j = Some (a, q) \<Longrightarrow> atom_type q = ty \<Longrightarrow>
      units (s_data q) \<noteq> units (s_data p)"
  shows "\<exists>s' q. atom_link E s b h h1 ty = Some (atom_free_index s, s') \<and> table_ok {} s' \<and> keeps {b} s s'
    \<and> atom_entry s' (atom_free_index s) = Some (b, q) \<and> s_data q = s_data p \<and> atom_type q = ty
    \<and> hash q = h \<and> ref_count q = ref_count p
    \<and> (Suc (atom_count s) < atom_count_resize s \<longrightarrow> atom_array s' = (atom_array s)[atom_free_index s := StrSlot b]
       \<and> atom_free_index s' = fnext s (atom_free_index s) \<and> atom_size s' = atom_size s \<and> atom_hash_size s' = atom_hash_size s
       \<and> dom (strs s') = dom (strs s))"
proof -
  let ?i = "atom_free_index s"
  define q where "q = p\<lparr>hash := h, hash_next := ?i, atom_type := ty\<rparr>"
  define s1 where "s1 = take_slot s b q"
  have slots: "slots_ok s" using ok by (simp add: table_ok_def)
  obtain "?i \<in> free_set s" using free_head [OF slots i] by blast
  then obtain nf where nf: "mem_get (atom_array s) ?i = Some (FreeSlot nf)" by (auto simp: free_set_def)
  have il: "?i < length (atom_array s)" using nf by (auto simp: mem_get_def split: if_splits)
  have nt: "mem_get (atom_array s) j \<noteq> Some (StrSlot b)" for j using not_in_table [OF ok] b by blast
  have q: "entry_ok ?i q" using ty h by (auto simp: q_def entry_ok_def JSI_ATOM_TYPE_SYMBOL_def)
  have ok1: "table_ok {?i} s1"
    unfolding s1_def by (rule table_ok_take [OF ok i nt q]) (use new in \<open>auto simp: q_def JSI_ATOM_TYPE_SYMBOL_def\<close>)
  have e1: "atom_entry s1 ?i = Some (b, q)" using take_slot_entry [OF il nt] by (simp add: s1_def)
  have k1: "keeps {b} s s1" unfolding s1_def by (rule keeps_take) (use nf in \<open>simp add: free_set_def\<close>)
  have s1_eq: "(upd_str (s\<lparr>atom_free_index := nf, atom_array := (atom_array s)[?i := StrSlot b]\<rparr>) b
      (\<lambda>p. p\<lparr>hash := h, hash_next := ?i, atom_type := ty\<rparr>))\<lparr>atom_count := atom_count s + 1\<rparr> = s1"
    using nf b by (simp add: s1_def take_slot_def upd_str_def q_def fnext_def)
  have dom1: "dom (strs s1) = dom (strs s)" using b(1) by (auto simp: s1_def)
  have s1_fields: "atom_hash s1 = atom_hash s" "atom_count s1 = Suc (atom_count s)"
    "atom_count_resize s1 = atom_count_resize s" by (simp_all add: s1_def)
  show ?thesis
  proof (cases "ty = 3")
    case True
    have "table_ok {} s1"
      by (rule table_ok_drop [OF ok1]) (use e1 True in \<open>simp add: bucket_set_def q_def JSI_ATOM_TYPE_SYMBOL_def\<close>)
    moreover have "atom_link E s b h h1 ty = Some (?i, s1)"
      using nf il True s1_eq by (simp add: atom_link_def mem_set_def JSI_ATOM_TYPE_SYMBOL_def Let_def)
    ultimately show ?thesis using k1 e1 True dom1 by (auto simp: q_def s1_def) (simp_all add: take_slot_def)
  next
    case False
    define c where "c = hash_bucket s1 (hash q)"
    have c: "c = h1" using h False by (simp add: c_def q_def hash_bucket_def s1_def)
    have qt: "atom_type q \<noteq> JSI_ATOM_TYPE_SYMBOL" using False by (simp add: q_def JSI_ATOM_TYPE_SYMBOL_def)
    define s2 where "s2 = (set_next s1 b (atom_hash s1 ! c))\<lparr>atom_hash := (atom_hash s1)[c := ?i]\<rparr>"
    have ok2: "table_ok {} s2"
      using table_ok_link [OF ok1 _ e1 qt c_def] by (simp add: s2_def)
    have sz1: "sizes_ok s1" and st1: "store_ok s1" using ok1 by (simp_all add: table_ok_def)
    have cl: "c < length (atom_hash s1)" using hash_bucket_less [OF sz1] sz1 by (simp add: c_def sizes_ok_def)
    have "relinked s1 (set_next s1 b (atom_hash s1 ! c))" by (rule relinked_set_next [OF st1 e1 qt])
    then have "keeps {} s1 s2" using keeps_relinked by (fastforce simp: keeps_def s2_def)
    then have k2: "keeps {b} s s2" using keeps_trans [OF k1] by simp
    have e2: "\<exists>q'. atom_entry s2 ?i = Some (b, q') \<and> obj_keep q q'"
      using e1 by (simp add: s2_def set_next_entry obj_keep_def)
    have link: "atom_link E s b h h1 ty =
      (if atom_count s2 \<ge> atom_count_resize s2
       then do { (r, s') \<leftarrow> JSI_ResizeAtomHash E s2 (atom_hash_size s2 * 2); Some (?i, s') }
       else Some (?i, s2))"
      using nf il False s1_eq cl s1_fields
      by (simp add: atom_link_def mem_set_def mem_get_def JSI_ATOM_TYPE_SYMBOL_def s2_def set_next_def Let_def flip: c)
    have "\<exists>s'. atom_link E s b h h1 ty = Some (?i, s') \<and> table_ok {} s' \<and> keeps {} s2 s'
      \<and> (atom_count s2 < atom_count_resize s2 \<longrightarrow> s' = s2)"
    proof (cases "atom_count s2 \<ge> atom_count_resize s2")
      case False
      then show ?thesis using link ok2 by simp
    next
      case True
      have "sizes_ok s2" using ok2 by (simp add: table_ok_def)
      then obtain k where k: "k \<le> 29" "atom_hash_size s2 * 2 = 2 ^ k" using resize_small True by blast
      then show ?thesis using resize_ok [OF ok2 k(1), of E] link True by auto
    qed
    then obtain s' where s': "atom_link E s b h h1 ty = Some (?i, s')" "table_ok {} s'" "keeps {} s2 s'"
      "atom_count s2 < atom_count_resize s2 \<longrightarrow> s' = s2" by blast
    have arr: "atom_array s2 = (atom_array s)[?i := StrSlot b]" "atom_free_index s2 = fnext s ?i" "atom_size s2 = atom_size s"
      "atom_hash_size s2 = atom_hash_size s" "atom_count s2 = Suc (atom_count s)" "atom_count_resize s2 = atom_count_resize s"
      by (simp_all add: s2_def set_next_def s1_def) (simp add: take_slot_def)
    have dom2: "dom (strs s2) = dom (strs s)" using dom1 by (auto simp: s2_def set_next_def domIff split: if_splits)
    obtain q' where q': "atom_entry s2 ?i = Some (b, q')" "obj_keep q q'" using e2 by blast
    obtain q'' where q'': "atom_entry s' ?i = Some (b, q'')" "obj_keep q' q''"
      using keeps_entry [OF s'(3) _ q'(1)] by auto
    have "keeps {b} s s'" using keeps_trans [OF k2 s'(3)] by simp
    then show ?thesis using s' q' q'' arr dom2 by (auto simp: obj_keep_def q_def)
  qed
qed

section \<open>Adding an atom\<close>

lemma alloc_string_ok:
  assumes ok: "table_ok X s" and E: "fresh_env E" and al: "jsi_alloc_string_rt E s d = Some (b, s')"
  shows "table_ok X s'" "strs s b = None" "keeps {} s s'" "atom_entry s' = atom_entry s"
    "s' = s\<lparr>strs := (strs s)(b \<mapsto> \<lparr>ref_count = 1, s_data = d, hash = 0, atom_type = 0, hash_next = 0\<rparr>)\<rparr>"
proof -
  show s': "s' = s\<lparr>strs := (strs s)(b \<mapsto> \<lparr>ref_count = 1, s_data = d, hash = 0, atom_type = 0, hash_next = 0\<rparr>)\<rparr>"
    and b: "strs s b = None"
    using al E by (auto simp: jsi_alloc_string_rt_def fresh_env_def split: option.splits)
  have nt: "mem_get (atom_array s) i \<noteq> Some (StrSlot b)" for i using not_in_table [OF ok] b by blast
  show "table_ok X s'" unfolding s' by (rule table_ok_store [OF ok nt]) auto
  show "keeps {} s s'" using b by (auto simp: s' keeps_def obj_keep_def)
  show "atom_entry s' = atom_entry s" unfolding s' using atom_entry_store [OF nt] by blast
qed

lemma alloc_string_ref:
  assumes "table_ok X s" "fresh_env E" "jsi_alloc_string_rt E s d = Some (b, s')"
  shows "str_ref s' b \<lparr>ref_count = 1, s_data = d, hash = 0, atom_type = 0, hash_next = 0\<rparr>"
    "atom_free_index s' = atom_free_index s" "atom_size s' = atom_size s"
  using alloc_string_ok [OF assms] not_in_table [OF assms(1), of b _ 0] by (simp_all add: str_ref_def)

text \<open>The string of a symbol may be absent; a present one is a reference of the caller.\<close>

definition opt_ref :: "atom_rt \<Rightarrow> addr option \<Rightarrow> bool" where
  "opt_ref s str \<longleftrightarrow> (\<forall>a. str = Some a \<longrightarrow> (\<exists>p. str_ref s a p))"

definition opt_data :: "atom_rt \<Rightarrow> addr option \<Rightarrow> jsi_string" where
  "opt_data s str = (case str of None \<Rightarrow> Str16 [] | Some a \<Rightarrow> (case strs s a of Some p \<Rightarrow> s_data p | None \<Rightarrow> Str16 []))"

lemma free_opt_ok:
  assumes "table_ok {} s" "opt_ref s str"
  shows "\<exists>s'. free_opt_string s str = Some s' \<and> table_ok {} s' \<and> keeps (set_option str) s s' \<and> entries_from s s'"
proof (cases str)
  case None
  then show ?thesis using assms(1) by (simp add: free_opt_string_def)
next
  case (Some a)
  then obtain p where "str_ref s a p" using assms(2) by (auto simp: opt_ref_def)
  then show ?thesis using free_string_ok [OF assms(1)] Some by (auto simp: free_opt_string_def)
qed

text \<open>The object of the new atom is ready for its slot: linking \<open>(b, s1)\<close> is linking \<open>(b, s')\<close>.\<close>

lemma atom_struct_ok:
  assumes ok: "table_ok {} s" and E: "fresh_env E" and ref: "opt_ref s str" and i: "atom_free_index s \<noteq> 0"
  shows "atom_struct E s str ty = Some (Inl ()) \<or>
    (\<exists>b s1 s' p. atom_struct E s str ty = Some (Inr (b, s1)) \<and> (\<forall>h h1. atom_link E s1 b h h1 ty = atom_link E s' b h h1 ty)
      \<and> table_ok {} s' \<and> strs s' b = Some p \<and> atom_type p = 0 \<and> s_data p = opt_data s str
      \<and> (b \<in> set_option str \<or> strs s b = None)
      \<and> keeps (set_option str) s s' \<and> entries_from s s' \<and> atom_free_index s' \<noteq> 0 \<and> atom_hash_size s' = atom_hash_size s)"
proof (cases str)
  case None
  show ?thesis
  proof (cases "jsi_alloc_string_rt E s (Str16 [])")
    case al: (Some r)
    obtain b s' where r: "r = (b, s')" by (cases r)
    note f = alloc_string_ok [OF ok E al [unfolded r]]
    have "entries_from s s'" using f(4) by (simp add: entries_from_def)
    then show ?thesis using None al r f(1-3) i unfolding atom_struct_def by (auto simp: f(5) opt_data_def)
  qed (use None in \<open>simp add: atom_struct_def\<close>)
next
  case (Some a)
  then obtain p where p: "str_ref s a p" using ref by (auto simp: opt_ref_def)
  then have pa: "strs s a = Some p" by (simp add: str_ref_def)
  show ?thesis
  proof (cases "atom_type p = 0")
    case True
    then show ?thesis using Some pa ok i by (auto simp: atom_struct_def atom_link_retype opt_data_def)
  next
    case False
    show ?thesis
    proof (cases "jsi_alloc_string_rt E s (s_data p)")
      case al: (Some r)
      obtain b s1 where r: "r = (b, s1)" by (cases r)
      note f = alloc_string_ok [OF ok E al [unfolded r]]
      have ab: "a \<noteq> b" using f(2) pa by auto
      have ref1: "str_ref s1 a p" using p ab by (simp add: f(5) str_ref_def)
      obtain s' where s': "jsi_free_string s1 a = Some s'" "table_ok {} s'" "keeps {a} s1 s'" "entries_from s1 s'"
        "atom_free_index s1 \<noteq> 0 \<longrightarrow> atom_free_index s' \<noteq> 0" "atom_hash_size s' = atom_hash_size s1"
        using free_string_ok [OF f(1) ref1] by blast
      have sb: "strs s1 b = Some \<lparr>ref_count = 1, s_data = s_data p, hash = 0, atom_type = 0, hash_next = 0\<rparr>"
        by (simp add: f(5))
      have "b \<notin> {a}" using ab by simp
      then obtain q where q: "strs s' b = Some q" "s_data q = s_data p" "atom_type q = 0"
        using keepsE [OF s'(3) _ sb] by (auto simp: obj_keep_def)
      have k: "keeps {a} s s'" using keeps_trans [OF f(3) s'(3)] by simp
      have "entries_from s s1" using f(4) by (simp add: entries_from_def)
      then have "entries_from s s'" using entries_from_trans s'(4) by blast
      then show ?thesis using Some pa False al r s' q k i f(2,5) by (auto simp: atom_struct_def opt_data_def)
    qed (use Some pa False in \<open>simp add: atom_struct_def\<close>)
  qed
qed

lemma keeps_fresh:
  assumes "table_ok X s" "keeps (insert b A) s s'" "strs s b = None"
  shows "keeps A s s'"
  using assms(2,3) not_in_table [OF assms(1), of b] unfolding keeps_def by (metis insert_iff option.distinct(1))

text \<open>Adding an atom whose key is new: the null atom for a failed allocation, else a new atom.\<close>

lemma atom_add_ok:
  assumes ok: "table_ok {} s" and E: "fresh_env E" and ref: "opt_ref s str"
    and small: "atom_free_index s = 0 \<Longrightarrow> int_ok (int (atom_size s) * 3)"
    and ty: "ty \<in> {1, 2, 3}" and h: "ty \<noteq> 3 \<Longrightarrow> h = atom_hash_of ty (opt_data s str) \<and> h1 = hash_bucket s h"
    and new: "\<And>j a q. ty \<noteq> 3 \<Longrightarrow> atom_entry s j = Some (a, q) \<Longrightarrow> atom_type q = ty \<Longrightarrow>
      units (s_data q) \<noteq> units (opt_data s str)"
  shows "\<exists>i s'. atom_add E s str h h1 ty = Some (i, s') \<and> table_ok {} s' \<and> keeps (set_option str) s s' \<and>
    (i \<noteq> 0 \<longrightarrow> (\<exists>b q. atom_entry s' i = Some (b, q) \<and> s_data q = opt_data s str \<and> atom_type q = ty \<and> hash q = h
       \<and> (b \<in> set_option str \<or> strs s b = None)))"
proof -
  have "\<exists>g s1. (if atom_free_index s = 0 then atom_grow E s else Some (True, s)) = Some (g, s1) \<and> table_ok {} s1
    \<and> keeps {} s s1 \<and> entries_from s s1 \<and> (g \<longrightarrow> atom_free_index s1 \<noteq> 0) \<and> atom_hash_size s1 = atom_hash_size s
    \<and> (\<forall>a p. str_ref s a p \<longrightarrow> str_ref s1 a p)"
    using atom_grow_ok [OF ok E _ small] ok by auto
  then obtain g s1 where s1: "(if atom_free_index s = 0 then atom_grow E s else Some (True, s)) = Some (g, s1)"
    "table_ok {} s1" "keeps {} s s1" "entries_from s s1" "g \<longrightarrow> atom_free_index s1 \<noteq> 0" "atom_hash_size s1 = atom_hash_size s"
    "\<forall>a p. str_ref s a p \<longrightarrow> str_ref s1 a p" by blast
  have ref1: "opt_ref s1 str" using ref s1(7) unfolding opt_ref_def by blast
  have data1: "opt_data s1 str = opt_data s str"
  proof (cases str)
    case (Some a)
    then obtain p where "str_ref s a p" using ref by (auto simp: opt_ref_def)
    then have "strs s a = Some p" "strs s1 a = Some p" using s1(7) by (auto simp: str_ref_def)
    then show ?thesis using Some by (simp add: opt_data_def)
  qed (simp add: opt_data_def)
  obtain s0 where s0: "free_opt_string s1 str = Some s0" "table_ok {} s0" "keeps (set_option str) s1 s0"
    using free_opt_ok [OF s1(2) ref1] by blast
  have k0: "keeps (set_option str) s s0" using keeps_trans [OF s1(3) s0(3)] by simp
  show ?thesis
  proof (cases "g \<and> atom_struct E s1 str ty \<noteq> Some (Inl ())")
    case False
    then have "atom_add E s str h h1 ty = Some (0, s0)" using s1(1) s0(1) by (auto simp: atom_add_def)
    then show ?thesis using s0(2) k0 by blast
  next
    case True
    then have i1: "atom_free_index s1 \<noteq> 0" using s1(5) by blast
    obtain b s2 s3 p where s2: "atom_struct E s1 str ty = Some (Inr (b, s2))"
      "\<forall>h h1. atom_link E s2 b h h1 ty = atom_link E s3 b h h1 ty" "table_ok {} s3" "strs s3 b = Some p"
      "atom_type p = 0" "s_data p = opt_data s1 str" "b \<in> set_option str \<or> strs s1 b = None" "keeps (set_option str) s1 s3"
      "entries_from s1 s3" "atom_free_index s3 \<noteq> 0" "atom_hash_size s3 = atom_hash_size s1"
      using atom_struct_ok [OF s1(2) E ref1 i1, of ty] True by auto
    have add: "atom_add E s str h h1 ty = atom_link E s3 b h h1 ty" using s1(1) s2(1,2) True by (simp add: atom_add_def)
    have ef: "entries_from s s3" by (rule entries_from_trans [OF s1(4) s2(9)])
    have "\<exists>s' q. atom_link E s3 b h h1 ty = Some (atom_free_index s3, s') \<and> table_ok {} s' \<and> keeps {b} s3 s'
      \<and> atom_entry s' (atom_free_index s3) = Some (b, q) \<and> s_data q = s_data p \<and> atom_type q = ty
      \<and> hash q = h \<and> ref_count q = ref_count p
      \<and> (Suc (atom_count s3) < atom_count_resize s3 \<longrightarrow> atom_array s' = (atom_array s3)[atom_free_index s3 := StrSlot b]
         \<and> atom_free_index s' = fnext s3 (atom_free_index s3) \<and> atom_size s' = atom_size s3 \<and> atom_hash_size s' = atom_hash_size s3
         \<and> dom (strs s') = dom (strs s3))"
    proof (rule atom_link_ok [OF s2(3,10,4,5) ty])
      show "h = atom_hash_of ty (s_data p) \<and> h1 = hash_bucket s3 h" if "ty \<noteq> 3"
        using h [OF that] s2(6,11) s1(6) data1 by (simp add: hash_bucket_def)
      show "units (s_data q) \<noteq> units (s_data p)" if "ty \<noteq> 3" "atom_entry s3 j = Some (a, q)" "atom_type q = ty" for j a q
        using new that ef s2(6) data1 unfolding entries_from_def by (metis JSI_ATOM_TYPE_SYMBOL_def)
    qed
    then obtain s' q where s': "atom_link E s3 b h h1 ty = Some (atom_free_index s3, s')" "table_ok {} s'" "keeps {b} s3 s'"
      "atom_entry s' (atom_free_index s3) = Some (b, q)" "s_data q = s_data p" "atom_type q = ty" "hash q = h" by blast
    have "keeps (insert b (set_option str)) s s'"
      by (rule keeps_trans [OF s1(3) keeps_trans [OF s2(8) s'(3) subset_refl]]) auto
    moreover have bs: "b \<in> set_option str \<or> strs s b = None" using s2(7) keepsE [OF s1(3), of b] by fastforce
    ultimately have "keeps (set_option str) s s'"
      using keeps_fresh [OF ok] insert_absorb by metis
    then show ?thesis using add s' s2(6) data1 bs by auto
  qed
qed

section \<open>Lookup\<close>

text \<open>The hash and the comparison depend on the code units alone, so a wide and a narrow string with the
  same characters are the same atom.\<close>

definition hash_units :: "u16 list \<Rightarrow> u32 \<Rightarrow> u32" where
  "hash_units us h = foldl (\<lambda>h c. h * 263 + ucast c) h us"

lemma foldl_widen:
  "foldl (\<lambda>h c. h * 263 + ucast c) h (map (ucast :: u8 \<Rightarrow> u16) bs) = foldl (\<lambda>h c. h * 263 + ucast c) (h :: u32) bs"
  by (induction bs arbitrary: h) (simp_all add: ucast_up_ucast is_up)

lemma hash_string_units: "hash_string p h = hash_units (units p) h"
  by (cases p) (simp_all add: hash_string_def hash_string8_def hash_string16_def hash_units_def foldl_widen)

lemma memcmp16_eq: "length a = n \<Longrightarrow> length b = n \<Longrightarrow> \<exists>r. memcmp16 a b n = Some r \<and> (r = 0 \<longleftrightarrow> a = b)"
proof (induction a b n rule: memcmp16.induct)
  case (2 x a y b n)
  then show ?case by (auto simp: Let_def word_uint_eq_iff)
qed auto

lemma atom_match_units:
  assumes "entry_ok i p" "atom_type p \<noteq> JSI_ATOM_TYPE_SYMBOL"
  shows "atom_match (atom_hash_of ty d) ty d p = Some (atom_type p = ty \<and> units (s_data p) = units d)"
proof (cases "hash p = atom_hash_of ty d \<and> atom_type p = ty \<and> str_len (s_data p) = str_len d")
  case True
  then have l: "length (units (s_data p)) = str_len d" "length (units d) = str_len d" by (simp_all add: str_len_def)
  obtain r where "memcmp16 (units (s_data p)) (units d) (str_len d) = Some r" "r = 0 \<longleftrightarrow> units (s_data p) = units d"
    using memcmp16_eq [OF l] by blast
  then show ?thesis using True by (simp add: atom_match_def memcmp_units)
next
  case False
  then have "\<not> (atom_type p = ty \<and> units (s_data p) = units d)"
    using assms by (auto simp: entry_ok_def atom_hash_of_def hash_string_units str_len_def)
  then show ?thesis using False by (auto simp: atom_match_def)
qed

text \<open>A search through the bucket of a key finds its atom.\<close>

lemma bucket_search:
  assumes ok: "table_ok {} s" and c: "c = hash_bucket s (atom_hash_of ty d)" and ty: "ty \<noteq> JSI_ATOM_TYPE_SYMBOL"
    and m: "\<And>i a p. atom_entry s i = Some (a, p) \<Longrightarrow> atom_type p \<noteq> JSI_ATOM_TYPE_SYMBOL \<Longrightarrow> m p = Some (P p)"
    and P: "\<And>p. P p \<Longrightarrow> atom_type p = ty \<and> units (s_data p) = units d"
  shows "\<exists>i0 i. mem_get (atom_hash s) c = Some i0 \<and> chain_search s m i0 = Some i \<and>
    (if i = 0 then \<forall>j a p. atom_entry s j = Some (a, p) \<longrightarrow> atom_type p \<noteq> JSI_ATOM_TYPE_SYMBOL \<longrightarrow> \<not> P p
     else \<exists>a p. atom_entry s i = Some (a, p) \<and> P p)"
proof -
  have parts: "sizes_ok s" "slots_ok s" "buckets_ok {} s" using ok by (simp_all add: table_ok_def)
  have cl: "c < atom_hash_size s" using hash_bucket_less [OF parts(1)] c by simp
  obtain xs where xs: "chain (nxt s) (atom_hash s ! c) xs" "set xs = bucket_set s c - {}"
    using buckets_ok_bucket [OF parts(3) cl] .
  define Q where "Q x = (case atom_entry s x of Some (a, p) \<Rightarrow> P p | None \<Rightarrow> False)" for x
  have "chain_search s m (atom_hash s ! c) = Some (case find Q xs of Some x \<Rightarrow> x | None \<Rightarrow> 0)"
  proof (rule chain_search_find [OF xs(1)])
    fix x assume "x \<in> set xs"
    then obtain a p where "atom_entry s x = Some (a, p)" "atom_type p \<noteq> JSI_ATOM_TYPE_SYMBOL"
      using chain_entries [OF xs(2)] by blast
    then show "\<exists>a p. atom_entry s x = Some (a, p) \<and> m p = Some (Q x)" using m by (auto simp: Q_def)
  qed
  moreover have "if (case find Q xs of Some x \<Rightarrow> x | None \<Rightarrow> 0) = 0
      then \<forall>j a p. atom_entry s j = Some (a, p) \<longrightarrow> atom_type p \<noteq> JSI_ATOM_TYPE_SYMBOL \<longrightarrow> \<not> P p
      else \<exists>a p. atom_entry s (case find Q xs of Some x \<Rightarrow> x | None \<Rightarrow> 0) = Some (a, p) \<and> P p"
  proof (cases "find Q xs")
    case None
    then have no: "\<not> Q x" if "x \<in> set xs" for x using that by (simp add: find_None_iff)
    have "\<not> P p" if j: "atom_entry s j = Some (a, p)" and t: "atom_type p \<noteq> JSI_ATOM_TYPE_SYMBOL" for j a p
    proof
      assume Pp: "P p"
      have "entry_ok j p" using parts(2) j by (simp add: slots_ok_def)
      then have "hash p = atom_hash_of ty d"
        using P [OF Pp] t by (simp add: entry_ok_def atom_hash_of_def hash_string_units)
      then have "j \<in> set xs" using xs(2) j t c by (simp add: bucket_set_def)
      then show False using no [of j] j Pp by (simp add: Q_def)
    qed
    then show ?thesis using None by auto
  next
    case (Some x)
    then have "x \<in> set xs" "Q x" by (auto simp: find_Some_iff)
    moreover have "x \<noteq> 0" using chain_nonzero [OF xs(1)] \<open>x \<in> set xs\<close> by metis
    ultimately show ?thesis using Some by (auto simp: Q_def split: option.splits)
  qed
  ultimately show ?thesis using atom_hash_get [OF parts(1) cl] by blast
qed

section \<open>Interning\<close>

text \<open>The index of an object that is an atom.\<close>

lemma get_atom_index_ok:
  assumes ok: "table_ok {} s" and i: "atom_entry s i = Some (a, p)"
  shows "jsi_get_atom_index s a = Some i"
proof (cases "atom_type p = JSI_ATOM_TYPE_SYMBOL")
  case True
  then show ?thesis using table_ok_entry [OF ok i] by (simp add: jsi_get_atom_index_def entry_ok_def)
next
  case False
  have parts: "sizes_ok s" "store_ok s" "buckets_ok {} s" using ok by (simp_all add: table_ok_def)
  define c where "c = hash_bucket s (hash p)"
  have cl: "c < atom_hash_size s" using hash_bucket_less [OF parts(1)] c_def by simp
  obtain xs where xs: "chain (nxt s) (atom_hash s ! c) xs" "set xs = bucket_set s c - {}"
    using buckets_ok_bucket [OF parts(3) cl] .
  have "i \<in> set xs" using xs(2) i False c_def by (simp add: bucket_set_def)
  then obtain us vs where us: "xs = us @ i # vs" by (auto simp: in_set_conv_decomp)
  have "chain_index s a (atom_hash s ! c) = Some i"
  proof (rule chain_index_at [OF xs(1) [unfolded us] i])
    fix y assume y: "y \<in> set us"
    then obtain b q where q: "atom_entry s y = Some (b, q)" using chain_entries [OF xs(2), of y] us by auto
    have "y \<noteq> i" using y us chain_distinct [OF xs(1)] by auto
    then have "b \<noteq> a" using q i parts(2) unfolding store_ok_def by blast
    then show "\<exists>b q. atom_entry s y = Some (b, q) \<and> b \<noteq> a" using q by blast
  qed
  then show ?thesis
    using False table_ok_entry(1) [OF ok i] atom_hash_get [OF parts(1) cl]
    by (simp add: jsi_get_atom_index_def c_def)
qed

text \<open>The atoms of \<open>s\<close> whose object is not in \<open>A\<close> are atoms of \<open>s'\<close>, with the same name.\<close>

definition atoms_kept :: "addr set \<Rightarrow> atom_rt \<Rightarrow> atom_rt \<Rightarrow> bool" where
  "atoms_kept A s s' \<longleftrightarrow> (\<forall>j b p. atom_entry s j = Some (b, p) \<longrightarrow> b \<notin> A \<longrightarrow>
     (\<exists>p'. atom_entry s' j = Some (b, p') \<and> s_data p' = s_data p \<and> atom_type p' = atom_type p))"

lemma atoms_kept_keeps: "keeps A s s' \<Longrightarrow> atoms_kept A s s'"
  unfolding atoms_kept_def by (auto simp: obj_keep_def elim!: keeps_entry)

lemma atoms_kept_ref: "atoms_kept {} s (upd_str s a (add_ref d))"
  by (auto simp: atoms_kept_def atom_entry_upd)

lemma atoms_kept_trans: "atoms_kept A s s' \<Longrightarrow> atoms_kept B s' s'' \<Longrightarrow> atoms_kept (A \<union> B) s s''"
  unfolding atoms_kept_def by fastforce

lemma atoms_kept_refl [simp]: "atoms_kept A s s"
  by (simp add: atoms_kept_def)

lemma atoms_keptE:
  assumes "atoms_kept A s s'" "atom_entry s j = Some (b, p)" "b \<notin> A"
  obtains p' where "atom_entry s' j = Some (b, p')" "s_data p' = s_data p" "atom_type p' = atom_type p"
  using assms unfolding atoms_kept_def by blast

text \<open>A found atom: its reference is counted, the string given back.\<close>

lemma found_ok:
  assumes ok: "table_ok {} s" and a: "str_ref s a q" and i: "atom_entry s i = Some (b, p)" and ab: "a \<noteq> b"
  shows "\<exists>s'. jsi_free_string (if JSI_AtomIsConst i then s else upd_str s b (add_ref 1)) a = Some s'
    \<and> table_ok {} s' \<and> atoms_kept {a} s s'"
proof -
  let ?s = "if JSI_AtomIsConst i then s else upd_str s b (add_ref 1)"
  have "table_ok {} ?s" using ok table_ok_ref [OF ok table_ok_entry(1) [OF ok i], of 1] i by auto
  moreover have "str_ref ?s a q" using a ab by (auto simp: str_ref_def)
  ultimately obtain s' where s': "jsi_free_string ?s a = Some s'" "table_ok {} s'" "keeps {a} ?s s'"
    using free_string_ok by blast
  have "atoms_kept {} s ?s" using atoms_kept_ref by simp
  then have "atoms_kept {a} s s'" using atoms_kept_trans [OF _ atoms_kept_keeps [OF s'(3)], of "{}" s] by simp
  then show ?thesis using s' by blast
qed

text \<open>The lookup of \<open>__JSI_NewAtom\<close>: the atom of the name, or 0 when there is none.\<close>

lemma new_atom_lookup:
  assumes ok: "table_ok {} s" and qa: "strs s a = Some q" and ty: "ty \<in> {1, 2}" and False: "atom_type q \<noteq> ty"
  shows "\<exists>i. new_atom E s (Some a) ty =
      (if i \<noteq> 0 then do {
         (b, p) \<leftarrow> atom_entry s i;
         s \<leftarrow> jsi_free_string (if JSI_AtomIsConst i then s else upd_str s b (add_ref 1)) a;
         Some (i, s) }
       else atom_add E s (Some a) (atom_hash_of ty (s_data q)) (hash_bucket s (atom_hash_of ty (s_data q))) ty)
    \<and> (if i = 0 then \<forall>j a p. atom_entry s j = Some (a, p) \<longrightarrow> atom_type p \<noteq> JSI_ATOM_TYPE_SYMBOL \<longrightarrow>
           \<not> (atom_type p = ty \<and> units (s_data p) = units (s_data q))
       else \<exists>a p. atom_entry s i = Some (a, p) \<and> atom_type p = ty \<and> units (s_data p) = units (s_data q))"
proof -
  have ty3: "ty < JSI_ATOM_TYPE_SYMBOL" "ty \<noteq> JSI_ATOM_TYPE_SYMBOL" "ty \<noteq> 0" "ty \<noteq> 3"
    using ty by (auto simp: JSI_ATOM_TYPE_SYMBOL_def)
  define h where "h = atom_hash_of ty (s_data q)"
  define c where "c = hash_bucket s h"
  have slots: "slots_ok s" using ok by (simp add: table_ok_def)
  have m: "atom_match h ty (s_data q) p = Some (atom_type p = ty \<and> units (s_data p) = units (s_data q))"
    if "atom_entry s j = Some (b, p)" "atom_type p \<noteq> JSI_ATOM_TYPE_SYMBOL" for j b p
    unfolding h_def by (rule atom_match_units [OF _ that(2), of j]) (use slots that in \<open>simp add: slots_ok_def\<close>)
  have "\<exists>i0 i. mem_get (atom_hash s) c = Some i0 \<and> chain_search s (atom_match h ty (s_data q)) i0 = Some i \<and>
    (if i = 0 then \<forall>j a p. atom_entry s j = Some (a, p) \<longrightarrow> atom_type p \<noteq> JSI_ATOM_TYPE_SYMBOL \<longrightarrow>
         \<not> (atom_type p = ty \<and> units (s_data p) = units (s_data q))
       else \<exists>a p. atom_entry s i = Some (a, p) \<and> atom_type p = ty \<and> units (s_data p) = units (s_data q))"
    by (rule bucket_search [OF ok c_def [unfolded h_def] ty3(2), where P = "\<lambda>p. atom_type p = ty \<and> units (s_data p) = units (s_data q)"])
      (auto intro: m)
  then obtain i0 i where i: "mem_get (atom_hash s) c = Some i0"
    "chain_search s (atom_match h ty (s_data q)) i0 = Some i"
    "if i = 0 then \<forall>j a p. atom_entry s j = Some (a, p) \<longrightarrow> atom_type p \<noteq> JSI_ATOM_TYPE_SYMBOL \<longrightarrow>
         \<not> (atom_type p = ty \<and> units (s_data p) = units (s_data q))
       else \<exists>a p. atom_entry s i = Some (a, p) \<and> atom_type p = ty \<and> units (s_data p) = units (s_data q)"
    by blast
  have unf: "new_atom E s (Some a) ty =
    (if i \<noteq> 0 then do {
       (b, p) \<leftarrow> atom_entry s i;
       s \<leftarrow> jsi_free_string (if JSI_AtomIsConst i then s else upd_str s b (add_ref 1)) a;
       Some (i, s) }
     else atom_add E s (Some a) h c ty)"
    using ty3 qa False i(1,2) by (simp add: new_atom_def h_def c_def atom_hash_of_def Let_def)
  then show ?thesis using i(3) unfolding h_def c_def by blast
qed

lemma new_atom_ok:
  assumes ok: "table_ok {} s" and E: "fresh_env E" and a: "str_ref s a q"
    and small: "atom_free_index s = 0 \<Longrightarrow> int_ok (int (atom_size s) * 3)" and ty: "ty \<in> {1, 2}"
  shows "\<exists>i s'. new_atom E s (Some a) ty = Some (i, s') \<and> table_ok {} s'
    \<and> atoms_kept (if atom_type q = ty then {} else {a}) s s'
    \<and> (i \<noteq> 0 \<longrightarrow> (\<exists>b p. atom_entry s' i = Some (b, p) \<and> atom_type p = ty \<and> units (s_data p) = units (s_data q)))"
proof -
  have qa: "strs s a = Some q" using a by (simp add: str_ref_def)
  have ty3: "ty < JSI_ATOM_TYPE_SYMBOL" "ty \<noteq> JSI_ATOM_TYPE_SYMBOL" "ty \<noteq> 0" "ty \<noteq> 3"
    using ty by (auto simp: JSI_ATOM_TYPE_SYMBOL_def)
  show ?thesis
  proof (cases "atom_type q = ty")
    case True
    then obtain i where i: "i \<noteq> 0" "atom_entry s i = Some (a, q)" using str_ref_entry [OF ok a] ty3 by auto
    define s' where "s' = (if JSI_AtomIsConst i then upd_str s a (add_ref (- 1)) else s)"
    have "new_atom E s (Some a) ty = Some (i, s')"
      using ty3 qa True get_atom_index_ok [OF ok i(2)] by (simp add: new_atom_def s'_def)
    moreover have "table_ok {} s'" using ok table_ok_ref [OF ok qa, of "- 1"] by (simp add: s'_def)
    moreover have k: "atoms_kept {} s s'" using atoms_kept_ref by (simp add: s'_def)
    moreover obtain p where "atom_entry s' i = Some (a, p)" "s_data p = s_data q" "atom_type p = atom_type q"
      using atoms_keptE [OF k i(2)] by auto
    ultimately show ?thesis using True by auto
  next
    case False
    define h where "h = atom_hash_of ty (s_data q)"
    define c where "c = hash_bucket s h"
    obtain i where unf: "new_atom E s (Some a) ty =
      (if i \<noteq> 0 then do {
         (b, p) \<leftarrow> atom_entry s i;
         s \<leftarrow> jsi_free_string (if JSI_AtomIsConst i then s else upd_str s b (add_ref 1)) a;
         Some (i, s) }
       else atom_add E s (Some a) h c ty)"
      and i: "if i = 0 then \<forall>j a p. atom_entry s j = Some (a, p) \<longrightarrow> atom_type p \<noteq> JSI_ATOM_TYPE_SYMBOL \<longrightarrow>
           \<not> (atom_type p = ty \<and> units (s_data p) = units (s_data q))
         else \<exists>a p. atom_entry s i = Some (a, p) \<and> atom_type p = ty \<and> units (s_data p) = units (s_data q)"
      using new_atom_lookup [OF ok qa ty False, of E] unfolding h_def c_def by blast
    show ?thesis
    proof (cases "i = 0")
      case True
      have "\<exists>i s'. atom_add E s (Some a) h c ty = Some (i, s') \<and> table_ok {} s' \<and> keeps (set_option (Some a)) s s' \<and>
        (i \<noteq> 0 \<longrightarrow> (\<exists>b q'. atom_entry s' i = Some (b, q') \<and> s_data q' = opt_data s (Some a) \<and> atom_type q' = ty \<and> hash q' = h
          \<and> (b \<in> set_option (Some a) \<or> strs s b = None)))"
      proof (rule atom_add_ok [OF ok E _ small])
        show "opt_ref s (Some a)" using a by (auto simp: opt_ref_def)
        show "h = atom_hash_of ty (opt_data s (Some a)) \<and> c = hash_bucket s h" by (simp add: h_def c_def opt_data_def qa)
        show "units (s_data r) \<noteq> units (opt_data s (Some a))"
          if "atom_entry s j = Some (b, r)" "atom_type r = ty" for j b r
          using i True that ty3(2) by (auto simp: opt_data_def qa)
      qed (use ty in auto)
      then show ?thesis using unf True False atoms_kept_keeps by (fastforce simp: opt_data_def qa)
    next
      case nz: False
      then obtain b p where p: "atom_entry s i = Some (b, p)" "atom_type p = ty" "units (s_data p) = units (s_data q)"
        using i by auto
      have ab: "a \<noteq> b" using p(1,2) qa False by (auto simp: atom_entry_iff)
      obtain s' where s': "jsi_free_string (if JSI_AtomIsConst i then s else upd_str s b (add_ref 1)) a = Some s'"
        "table_ok {} s'" "atoms_kept {a} s s'" using found_ok [OF ok a p(1) ab] by blast
      obtain p' where "atom_entry s' i = Some (b, p')" "s_data p' = s_data p" "atom_type p' = atom_type p"
        using atoms_keptE [OF s'(3) p(1)] ab by auto
      then show ?thesis using unf nz p s' False by auto
    qed
  qed
qed

section \<open>The other operations\<close>

lemma map_widen_inj: "map (ucast :: u8 \<Rightarrow> u16) a = map ucast b \<Longrightarrow> a = b"
  by (rule map_injective) (auto intro!: injI simp: word_uint_eq_iff uint_widen_u8)

lemma find_match_data:
  assumes "entry_ok i p" "atom_type p \<noteq> JSI_ATOM_TYPE_SYMBOL"
  shows "find_match (atom_hash_of 1 (Str8 bs)) bs p = Some (atom_type p = 1 \<and> s_data p = Str8 bs)"
proof (cases "hash p = atom_hash_of 1 (Str8 bs) \<and> atom_type p = 1 \<and> str_len (s_data p) = length bs")
  case True
  show ?thesis
  proof (cases "s_data p")
    case (Str8 cs)
    have l: "length (map (ucast :: u8 \<Rightarrow> u16) cs) = length bs" "length (map (ucast :: u8 \<Rightarrow> u16) bs) = length bs"
      using True Str8 by (simp_all add: str_len_def)
    obtain r where "memcmp16 (map ucast cs) (map ucast bs) (length bs) = Some r" "r = 0 \<longleftrightarrow> map (ucast :: u8 \<Rightarrow> u16) cs = map ucast bs"
      using memcmp16_eq [OF l] by blast
    then show ?thesis using True Str8 map_widen_inj [of cs bs]
      by (auto simp: find_match_def memcmp8_units JSI_ATOM_TYPE_STRING_def)
  next
    case (Str16 us)
    then show ?thesis using True by (simp add: find_match_def JSI_ATOM_TYPE_STRING_def)
  qed
next
  case False
  then have "\<not> (atom_type p = 1 \<and> s_data p = Str8 bs)" using assms by (auto simp: entry_ok_def str_len_def)
  then show ?thesis using False by (auto simp: find_match_def JSI_ATOM_TYPE_STRING_def)
qed

lemma find_atom_ok:
  assumes ok: "table_ok {} s"
  shows "\<exists>i s'. find_atom s bs = Some (i, s') \<and> table_ok {} s' \<and> atoms_kept {} s s' \<and> same_array s s' \<and>
    (i \<noteq> 0 \<longrightarrow> (\<exists>b p. atom_entry s' i = Some (b, p) \<and> atom_type p = 1 \<and> s_data p = Str8 bs))"
proof -
  define h where "h = atom_hash_of 1 (Str8 bs)"
  have slots: "slots_ok s" using ok by (simp add: table_ok_def)
  have m: "find_match h bs p = Some (atom_type p = 1 \<and> s_data p = Str8 bs)"
    if "atom_entry s j = Some (b, p)" "atom_type p \<noteq> JSI_ATOM_TYPE_SYMBOL" for j b p
    unfolding h_def by (rule find_match_data [OF _ that(2), of j]) (use slots that in \<open>simp add: slots_ok_def\<close>)
  have "\<exists>i0 i. mem_get (atom_hash s) (hash_bucket s h) = Some i0 \<and> chain_search s (find_match h bs) i0 = Some i \<and>
      (if i = 0 then \<forall>j a p. atom_entry s j = Some (a, p) \<longrightarrow> atom_type p \<noteq> JSI_ATOM_TYPE_SYMBOL \<longrightarrow>
           \<not> (atom_type p = 1 \<and> s_data p = Str8 bs)
       else \<exists>a p. atom_entry s i = Some (a, p) \<and> atom_type p = 1 \<and> s_data p = Str8 bs)"
  proof (rule bucket_search [OF ok, where P = "\<lambda>p. atom_type p = 1 \<and> s_data p = Str8 bs" and ty = 1 and d = "Str8 bs"])
    show "find_match h bs p = Some (atom_type p = 1 \<and> s_data p = Str8 bs)"
      if "atom_entry s j = Some (a, p)" "atom_type p \<noteq> JSI_ATOM_TYPE_SYMBOL" for j a p by (rule m [OF that])
  qed (simp_all add: h_def JSI_ATOM_TYPE_SYMBOL_def)
  then obtain i0 i where i: "mem_get (atom_hash s) (hash_bucket s h) = Some i0" "chain_search s (find_match h bs) i0 = Some i"
    "i \<noteq> 0 \<longrightarrow> (\<exists>a p. atom_entry s i = Some (a, p) \<and> atom_type p = 1 \<and> s_data p = Str8 bs)" by metis
  have h: "hash_string8 bs (of_nat JSI_ATOM_TYPE_STRING) AND JSI_ATOM_HASH_MASK = h"
    by (simp add: h_def atom_hash_of_def hash_string_def JSI_ATOM_TYPE_STRING_def)
  show ?thesis
  proof (cases "i = 0 \<or> JSI_AtomIsConst i")
    case True
    then show ?thesis using ok i h by (auto simp: find_atom_def Let_def same_array_def)
  next
    case False
    then obtain a p where p: "atom_entry s i = Some (a, p)" "atom_type p = 1" "s_data p = Str8 bs" using i(3) by blast
    have "find_atom s bs = Some (i, upd_str s a (add_ref 1))" using False p i h by (simp add: find_atom_def Let_def)
    moreover have "table_ok {} (upd_str s a (add_ref 1))"
      by (rule table_ok_ref [OF ok table_ok_entry(1) [OF ok p(1)]]) (use p in blast)
    ultimately show ?thesis using p atoms_kept_ref by (auto simp: atom_entry_upd same_array_def)
  qed
qed

lemma dup_atom_ok:
  assumes ok: "table_ok {} s" and "JSI_AtomIsConst v \<or> atom_entry s v = Some (a, p)"
  shows "\<exists>s'. JSI_DupAtom s v = Some (v, s') \<and> table_ok {} s' \<and> atoms_kept {} s s'"
proof (cases "JSI_AtomIsConst v")
  case False
  then have p: "atom_entry s v = Some (a, p)" using assms(2) by blast
  have "table_ok {} (upd_str s a (add_ref 1))"
    by (rule table_ok_ref [OF ok table_ok_entry(1) [OF ok p]]) (use p in blast)
  then show ?thesis using False p atoms_kept_ref by (auto simp: JSI_DupAtom_def)
qed (use ok in \<open>simp add: JSI_DupAtom_def\<close>)

text \<open>Freeing an atom: with more than one reference only the count changes, with one the slot is freed.\<close>

lemma free_atom_ok:
  assumes ok: "table_ok {} s" and v: "v \<noteq> 0" and p: "atom_entry s v = Some (a, p)"
  shows "\<exists>s'. free_atom s v = Some s' \<and> table_ok {} s'
    \<and> (if 1 < ref_count p then atoms_kept {} s s' else atoms_kept {a} s s' \<and> atom_entry s' v = None)"
proof -
  let ?s = "upd_str s a (add_ref (- 1))"
  have ok1: "table_ok {} ?s" by (rule table_ok_ref [OF ok table_ok_entry(1) [OF ok p]]) simp
  have e: "atom_entry ?s v = Some (a, add_ref (- 1) p)" using p by (simp add: atom_entry_upd)
  show ?thesis
  proof (cases "1 < ref_count p")
    case True
    then show ?thesis using p ok1 atoms_kept_ref by (simp add: free_atom_def)
  next
    case False
    obtain s' where s': "JSI_FreeAtomStruct ?s a = Some s'" "table_ok {} s'" "keeps {a} ?s s'" "atom_entry s' v = None"
      using free_struct_ok [OF ok1 v e] False by auto
    have "atoms_kept {a} s s'" using atoms_kept_trans [OF atoms_kept_ref atoms_kept_keeps [OF s'(3)]] by simp
    then show ?thesis using False p s' by (simp add: free_atom_def)
  qed
qed

text \<open>A new symbol: an atom that no other atom of the table is, with the description as its string.\<close>

lemma new_symbol_ok:
  assumes ok: "table_ok {} s" and E: "fresh_env E" and ref: "opt_ref s str"
    and small: "atom_free_index s = 0 \<Longrightarrow> int_ok (int (atom_size s) * 3)" and ty: "3 \<le> ty"
  shows "\<exists>i s'. new_atom E s str ty = Some (i, s') \<and> table_ok {} s' \<and> atoms_kept (set_option str) s s' \<and>
    (i \<noteq> 0 \<longrightarrow> (\<exists>b q. atom_entry s' i = Some (b, q) \<and> s_data q = opt_data s str \<and> atom_type q = JSI_ATOM_TYPE_SYMBOL
      \<and> (hash q = (if ty = 3 then 0 else JSI_ATOM_HASH_PRIVATE))
      \<and> (\<forall>a p. atom_entry s i = Some (a, p) \<longrightarrow> a \<in> set_option str)))"
proof -
  let ?h = "if ty = 3 then 0 else JSI_ATOM_HASH_PRIVATE"
  have "new_atom E s str ty = atom_add E s str ?h 0 3" using ty by (simp add: new_atom_def JSI_ATOM_TYPE_SYMBOL_def)
  moreover obtain i s' where s': "atom_add E s str ?h 0 3 = Some (i, s')" "table_ok {} s'" "keeps (set_option str) s s'"
    "i \<noteq> 0 \<longrightarrow> (\<exists>b q. atom_entry s' i = Some (b, q) \<and> s_data q = opt_data s str \<and> atom_type q = 3 \<and> hash q = ?h
       \<and> (b \<in> set_option str \<or> strs s b = None))"
    using atom_add_ok [OF ok E ref small, of 3 ?h 0] by auto
  moreover have "a \<in> set_option str"
    if i: "i \<noteq> 0" "atom_entry s i = Some (a, p)" for a p
  proof (rule ccontr)
    assume a: "a \<notin> set_option str"
    obtain b q where b: "atom_entry s' i = Some (b, q)" "b \<in> set_option str \<or> strs s b = None" using s'(4) i(1) by blast
    obtain q' where "atom_entry s' i = Some (a, q')" using keeps_entry [OF s'(3) a i(2)] .
    then show False using a b i(2) by (auto simp: atom_entry_iff)
  qed
  ultimately show ?thesis
    using atoms_kept_keeps [OF s'(3)] by (auto simp: JSI_ATOM_TYPE_SYMBOL_def)
qed
end
