(* ===== verification/QAtomIntern.thy ===== *)
theory QAtomIntern
  imports QAtomOps
begin

text \<open>
  Interning: equal names are equal atoms. The contract of a table of names is stated for any table
  and proved for the runs of the atom table.
\<close>

section \<open>The contract of an interning table\<close>

text \<open>A run of a labelled transition system; the labels of the silent steps are \<open>None\<close>.\<close>

inductive run :: "('s \<Rightarrow> 'l option \<Rightarrow> 's \<Rightarrow> bool) \<Rightarrow> 's \<Rightarrow> 'l list \<Rightarrow> 's \<Rightarrow> bool" for step where
  run_refl: "run step s [] s"
| run_silent: "run step s tr s' \<Longrightarrow> step s' None s'' \<Longrightarrow> run step s tr s''"
| run_label: "run step s tr s' \<Longrightarrow> step s' (Some l) s'' \<Longrightarrow> run step s (tr @ [l]) s''"

locale interner =
  fixes ok :: "'s \<Rightarrow> bool" and key :: "'s \<Rightarrow> 'a \<Rightarrow> 'k option"
    and step :: "'s \<Rightarrow> ('k \<times> 'a) option \<Rightarrow> 's \<Rightarrow> bool"
  assumes step_ok: "ok s \<Longrightarrow> step s l s' \<Longrightarrow> ok s'"
    and step_keeps: "ok s \<Longrightarrow> step s l s' \<Longrightarrow> key s v = Some k \<Longrightarrow> key s' v = Some k"
    and step_names: "ok s \<Longrightarrow> step s (Some (k, v)) s' \<Longrightarrow> key s' v = Some k"
    and key_unique: "ok s \<Longrightarrow> key s v = Some k \<Longrightarrow> key s w = Some k \<Longrightarrow> v = w"
begin

lemma run_names:
  "run step s tr s' \<Longrightarrow> ok s \<Longrightarrow> ok s' \<and> (\<forall>(k, v) \<in> set tr. key s' v = Some k)"
proof (induction rule: run.induct)
  case (run_silent s tr s' s'')
  then show ?case using step_ok step_keeps by fastforce
next
  case (run_label s tr s' l s'')
  then show ?case using step_ok step_keeps step_names by (cases l) fastforce
qed simp

lemma run_keeps: "run step s tr s' \<Longrightarrow> ok s \<Longrightarrow> key s v = Some k \<Longrightarrow> key s' v = Some k"
proof (induction rule: run.induct)
  case (run_silent s tr s' s'')
  then show ?case using run_names step_keeps by metis
next
  case (run_label s tr s' l s'')
  then show ?case using run_names step_keeps by metis
qed simp

lemma run_interns:
  assumes "run step s tr s'" "ok s" "(k, v) \<in> set tr" "(k', v') \<in> set tr"
  shows "v = v' \<longleftrightarrow> k = k'"
proof -
  have n: "ok s'" "key s' v = Some k" "key s' v' = Some k'" using run_names [OF assms(1,2)] assms(3,4) by auto
  then show ?thesis using key_unique [OF n(1,2), of v'] by auto
qed

end

section \<open>The names of atoms\<close>

definition small_num :: "jsi_string \<Rightarrow> bool" where
  "small_num d \<longleftrightarrow> (case is_num_string d of Some n \<Rightarrow> n \<le> JSI_ATOM_MAX_INT | None \<Rightarrow> False)"

text \<open>The name of an atom: the decimal string of an integer atom, the string of a string atom.\<close>

definition atom_key :: "atom_rt \<Rightarrow> nat \<Rightarrow> u16 list option" where
  "atom_key s v =
     (if v \<ge> 2 ^ 32 then None
      else if JSI_AtomIsTaggedInt v then Some (dec_units (JSI_AtomToUInt32 v))
      else (case atom_entry s v of
              Some (a, p) \<Rightarrow> if atom_type p = 1 \<and> \<not> small_num (s_data p) then Some (units (s_data p)) else None
            | None \<Rightarrow> None))"

lemma is_num_units: "units p = units q \<Longrightarrow> is_num_string p = is_num_string q"
  using is_num_string_iff [of p] is_num_string_iff [of q] by (cases "is_num_string p"; cases "is_num_string q") auto

lemma small_num_units: "units p = units q \<Longrightarrow> small_num p = small_num q"
  using is_num_units [of p q] by (simp add: small_num_def)

lemma small_num_dec: "units p = dec_units n \<Longrightarrow> n < 2 ^ 31 \<Longrightarrow> small_num p"
  using is_num_string_iff [of p n] by (simp add: small_num_def JSI_ATOM_MAX_INT_def JSI_ATOM_TAG_INT_def)

lemma untag_less: "JSI_AtomToUInt32 v < 2 ^ 31"
proof -
  have "v AND (2 ^ 31 - 1) = take_bit 31 v" by (simp only: take_bit_eq_mask mask_eq_exp_minus_1)
  then show ?thesis by (simp only: JSI_AtomToUInt32_def) (simp add: take_bit_eq_mod)
qed

lemma untag_inj:
  assumes "v < 2 ^ 32" "JSI_AtomIsTaggedInt v"
  shows "v = JSI_AtomToUInt32 v + 2 ^ 31"
proof -
  define m where "m = v - 2 ^ 31"
  have m: "v = m + 2 ^ 31" "m < 2 ^ 31" using tag_test [OF assms(1)] assms by (simp_all add: m_def)
  then show ?thesis using untag [OF m(2)] tag_or [OF m(2)] by simp
qed

lemma key_entry:
  assumes "atom_key s v = Some k" "\<not> JSI_AtomIsTaggedInt v"
  obtains a p where "atom_entry s v = Some (a, p)" "atom_type p = 1" "\<not> small_num (s_data p)" "k = units (s_data p)"
  using assms by (auto simp: atom_key_def split: if_splits option.splits)

lemma atom_key_unique:
  assumes ok: "table_ok {} s" and v: "atom_key s v = Some k" and w: "atom_key s w = Some k"
  shows "v = w"
proof -
  have less: "v < 2 ^ 32" "w < 2 ^ 32" using v w by (auto simp: atom_key_def split: if_splits)
  have tag: "k = dec_units (JSI_AtomToUInt32 x)" if "atom_key s x = Some k" "JSI_AtomIsTaggedInt x" for x
    using that by (auto simp: atom_key_def split: if_splits)
  have mixed: False if x: "atom_key s x = Some k" "JSI_AtomIsTaggedInt x" and y: "atom_key s y = Some k" "\<not> JSI_AtomIsTaggedInt y" for x y
  proof -
    obtain a p where e: "atom_entry s y = Some (a, p)" "atom_type p = 1" and p: "\<not> small_num (s_data p)" "k = units (s_data p)"
      using key_entry [OF y] .
    then show False using tag [OF x] small_num_dec [of "s_data p" "JSI_AtomToUInt32 x"] untag_less by simp
  qed
  show ?thesis
  proof (cases "JSI_AtomIsTaggedInt v")
    case True
    then have tw: "JSI_AtomIsTaggedInt w" using mixed v w by blast
    have "JSI_AtomToUInt32 v = JSI_AtomToUInt32 w"
      by (rule dec_units_inj) (use tag [OF v True] tag [OF w tw] in simp)
    then show ?thesis using untag_inj [OF less(1) True] untag_inj [OF less(2) tw] by simp
  next
    case False
    then have tw: "\<not> JSI_AtomIsTaggedInt w" using mixed v w by blast
    obtain a p where p: "atom_entry s v = Some (a, p)" "atom_type p = 1" "\<not> small_num (s_data p)" "k = units (s_data p)"
      using key_entry [OF v False] .
    obtain b q where q: "atom_entry s w = Some (b, q)" "atom_type q = 1" "\<not> small_num (s_data q)" "k = units (s_data q)"
      using key_entry [OF w tw] .
    have "unique_ok s" using ok by (simp add: table_ok_def)
    then show ?thesis using p q unfolding unique_ok_def by (simp add: JSI_ATOM_TYPE_SYMBOL_def)
  qed
qed

section \<open>Operations on names\<close>

lemma key_kept:
  assumes kept: "atoms_kept A s s'" and k: "atom_key s v = Some k"
    and A: "\<And>a p. a \<in> A \<Longrightarrow> strs s a = Some p \<Longrightarrow> atom_type p \<noteq> 1 \<or> small_num (s_data p)"
  shows "atom_key s' v = Some k"
proof (cases "JSI_AtomIsTaggedInt v")
  case True
  then show ?thesis using k by (simp add: atom_key_def split: if_splits)
next
  case False
  obtain a p where p: "atom_entry s v = Some (a, p)" "atom_type p = 1" "\<not> small_num (s_data p)" "k = units (s_data p)"
    using key_entry [OF k False] .
  have na: "a \<notin> A" using A [of a p] p by (auto simp: atom_entry_iff)
  obtain q where "atom_entry s' v = Some (a, q)" "s_data q = s_data p" "atom_type q = atom_type p"
    using atoms_keptE [OF kept p(1) na] .
  then show ?thesis using p False k by (simp add: atom_key_def split: if_splits)
qed

definition atom_room :: "atom_rt \<Rightarrow> bool" where
  "atom_room s \<longleftrightarrow> (atom_free_index s = 0 \<longrightarrow> int_ok (int (atom_size s) * 3))"

lemma entry_key:
  assumes "table_ok {} s" "atom_entry s v = Some (a, p)" "atom_type p = 1" "\<not> small_num (s_data p)"
  shows "atom_key s v = Some (units (s_data p))"
proof -
  have "v < 2 ^ 30" using table_ok_entry(5) [OF assms(1,2)] assms(1) by (simp add: table_ok_def sizes_ok_def JSI_ATOM_MAX_def)
  then show ?thesis using tag_test [of v] assms by (simp add: atom_key_def)
qed

lemma tagged_key: "n \<le> JSI_ATOM_MAX_INT \<Longrightarrow> atom_key s (JSI_AtomFromUInt32 n) = Some (dec_units n)"
proof -
  assume "n \<le> JSI_ATOM_MAX_INT"
  then have n: "n < 2 ^ 31" by (simp add: JSI_ATOM_MAX_INT_def JSI_ATOM_TAG_INT_def)
  have "JSI_AtomIsTaggedInt (n + 2 ^ 31)" by (subst tag_test) (use n in simp_all)
  then show ?thesis using n untag [OF n] by (simp add: atom_key_def tag_or)
qed

lemma new_atom_str_ok:
  assumes ok: "table_ok {} s" and E: "fresh_env E" and a: "str_ref s a q" and room: "atom_room s"
  shows "\<exists>v s'. JSI_NewAtomStr E s a = Some (v, s') \<and> table_ok {} s' \<and> (v \<noteq> 0 \<longrightarrow> atom_key s' v = Some (units (s_data q)))
    \<and> (\<forall>w k. atom_key s w = Some k \<longrightarrow> atom_key s' w = Some k)"
proof (cases "small_num (s_data q)")
  case True
  then obtain n where n: "is_num_string (s_data q) = Some n" "n \<le> JSI_ATOM_MAX_INT"
    by (auto simp: small_num_def split: option.splits)
  have qa: "strs s a = Some q" using a by (simp add: str_ref_def)
  obtain s' where s': "jsi_free_string s a = Some s'" "table_ok {} s'" "keeps {a} s s'"
    using free_string_ok [OF ok a] by blast
  have "JSI_NewAtomStr E s a = Some (JSI_AtomFromUInt32 n, s')" using qa n s'(1) by (simp add: JSI_NewAtomStr_def)
  moreover have "atom_key s' (JSI_AtomFromUInt32 n) = Some (units (s_data q))"
    using tagged_key [OF n(2)] is_num_string_dec(1) [OF n(1)] by simp
  moreover have "atom_key s' w = Some k" if "atom_key s w = Some k" for w k
    by (rule key_kept [OF atoms_kept_keeps [OF s'(3)] that]) (use qa True in auto)
  ultimately show ?thesis using s'(2) by blast
next
  case False
  have qa: "strs s a = Some q" using a by (simp add: str_ref_def)
  have small: "atom_free_index s = 0 \<Longrightarrow> int_ok (int (atom_size s) * 3)" using room by (simp add: atom_room_def)
  obtain v s' where s': "new_atom E s (Some a) 1 = Some (v, s')" "table_ok {} s'"
    "atoms_kept (if atom_type q = 1 then {} else {a}) s s'"
    "v \<noteq> 0 \<longrightarrow> (\<exists>b p. atom_entry s' v = Some (b, p) \<and> atom_type p = 1 \<and> units (s_data p) = units (s_data q))"
    using new_atom_ok [OF ok E a small, of 1] by auto
  have "JSI_NewAtomStr E s a = Some (v, s')"
    using qa False s'(1) by (auto simp: JSI_NewAtomStr_def small_num_def JSI_ATOM_TYPE_STRING_def split: option.splits)
  moreover have "atom_key s' v = Some (units (s_data q))" if "v \<noteq> 0"
    using that s'(4) entry_key [OF s'(2)] False small_num_units by metis
  moreover have "atom_key s' w = Some k" if "atom_key s w = Some k" for w k
    by (rule key_kept [OF s'(3) that]) (use qa in \<open>auto split: if_splits\<close>)
  ultimately show ?thesis using s'(2) by blast
qed

lemma ascii_units: "count_ascii bs = length bs \<Longrightarrow> utf8_units bs = map ucast bs"
  using utf8_units_ascii_prefix [OF count_ascii_split(1) [of bs], of "[]"] by (simp add: utf8_units_def)

lemma digit_widen: "is_num (ucast (b :: u8)) \<longleftrightarrow> 0x30 \<le> b \<and> b \<le> 0x39"
  by (simp add: is_num_def word_le_def uint_widen_u8)

lemma not_digit_not_small: "bs = [] \<or> \<not> (0x30 \<le> hd bs \<and> hd bs \<le> 0x39) \<Longrightarrow> \<not> small_num (Str8 bs)"
  by (cases bs) (auto simp: small_num_def is_num_string_def digit_widen)

lemma new_atom_len_ok:
  assumes ok: "table_ok {} s" and E: "fresh_env E" and room: "atom_room s" and ra: "str_realloc ra"
    and len: "length (utf8_units bs) \<le> JSI_STRING_LEN_MAX"
  shows "\<exists>v s'. JSI_NewAtomLen E al ra s bs = Some (v, s') \<and> table_ok {} s' \<and> (v \<noteq> 0 \<longrightarrow> atom_key s' v = Some (utf8_units bs))
    \<and> (\<forall>w k. atom_key s w = Some k \<longrightarrow> atom_key s' w = Some k)"
proof -
  let ?plain = "bs = [] \<or> (\<not> (0x30 \<le> hd bs \<and> hd bs \<le> 0x39) \<and> count_ascii bs = length bs)"
  have "\<exists>i s1. (if ?plain then find_atom s bs else Some (0, s)) = Some (i, s1) \<and> table_ok {} s1
    \<and> atoms_kept {} s s1 \<and> same_array s s1
    \<and> (i \<noteq> 0 \<longrightarrow> ?plain \<and> (\<exists>b p. atom_entry s1 i = Some (b, p) \<and> atom_type p = 1 \<and> s_data p = Str8 bs))"
    using find_atom_ok [OF ok, of bs] ok by (cases ?plain) (auto simp: same_array_def)
  then obtain i s1 where s1: "(if ?plain then find_atom s bs else Some (0, s)) = Some (i, s1)" "table_ok {} s1"
    "atoms_kept {} s s1" "same_array s s1"
    "i \<noteq> 0 \<longrightarrow> ?plain \<and> (\<exists>b p. atom_entry s1 i = Some (b, p) \<and> atom_type p = 1 \<and> s_data p = Str8 bs)" by blast
  have k1: "atom_key s1 w = Some k" if "atom_key s w = Some k" for w k by (rule key_kept [OF s1(3) that]) simp
  show ?thesis
  proof (cases "i = 0")
    case False
    then obtain b p where p: "atom_entry s1 i = Some (b, p)" "atom_type p = 1" "s_data p = Str8 bs" and plain: ?plain
      using s1(5) by blast
    have "\<not> small_num (Str8 bs)" "count_ascii bs = length bs"
      using plain not_digit_not_small [of bs] by (auto simp: count_ascii_def)
    then have "atom_key s1 i = Some (utf8_units bs)" using entry_key [OF s1(2) p(1,2)] p(3) ascii_units by simp
    then show ?thesis using s1(1,2) False k1 by (auto simp: JSI_NewAtomLen_def)
  next
    case True
    have unf: "JSI_NewAtomLen E al ra s bs = do {
       r \<leftarrow> JSI_NewStringLen al ra bs;
       (case r of
          Inl _ \<Rightarrow> Some (0, s1)
        | Inr d \<Rightarrow> (case jsi_alloc_string_rt E s1 d of
             None \<Rightarrow> Some (0, s1)
           | Some (a, s) \<Rightarrow> JSI_NewAtomStr E s a)) }"
      using s1(1) True by (simp add: JSI_NewAtomLen_def)
    show ?thesis
    proof (cases "\<exists>d a s2. JSI_NewStringLen al ra bs = Some (Inr d) \<and> jsi_alloc_string_rt E s1 d = Some (a, s2)")
      case False
      then have "JSI_NewAtomLen E al ra s bs = Some (0, s1)"
        using new_string_units [OF ra len, of al] unfolding unf by (auto split: option.splits)
      then show ?thesis using s1(2) k1 by simp
    next
      case True
      then obtain d a s2 where d: "JSI_NewStringLen al ra bs = Some (Inr d)" "jsi_alloc_string_rt E s1 d = Some (a, s2)" by blast
      have u: "units d = utf8_units bs" using new_string_units [OF ra len, of al] d(1) by auto
      note f = alloc_string_ok [OF s1(2) E d(2)] and g = alloc_string_ref [OF s1(2) E d(2)]
      have room2: "atom_room s2" using room s1(4) g(2,3) by (simp add: atom_room_def same_array_def)
      have k2: "atom_key s2 = atom_key s1" by (simp add: atom_key_def f(4) fun_eq_iff)
      obtain v s' where "JSI_NewAtomStr E s2 a = Some (v, s')" "table_ok {} s'" "v \<noteq> 0 \<longrightarrow> atom_key s' v = Some (units d)"
        "\<forall>w k. atom_key s2 w = Some k \<longrightarrow> atom_key s' w = Some k"
        using new_atom_str_ok [OF f(1) E g(1) room2] by auto
      then show ?thesis using unf d u k1 k2 by auto
    qed
  qed
qed

lemma number_not_small:
  assumes "\<not> unat (n :: i64) \<le> JSI_ATOM_MAX_INT"
  shows "\<not> small_num (Str8 (u64toa2 n))"
proof
  assume "small_num (Str8 (u64toa2 n))"
  then obtain m where m: "is_num_string (Str8 (u64toa2 n)) = Some m" "m \<le> JSI_ATOM_MAX_INT"
    by (auto simp: small_num_def split: option.splits)
  then have u: "map ucast (u64toa2 n) = dec_units m" "m < 2 ^ 32" using is_num_string_dec [OF m(1)] by simp_all
  show False
  proof (cases "sint n < 0")
    case True
    then have "is_num_string (Str8 (u64toa2 n)) = None"
      by (simp add: is_num_string_def u64toa2_def is_num_def word_le_nat_alt)
    then show False using m(1) by simp
  next
    case False
    then have "uint n < 2 ^ 63" using sint64_eq [of n] uint_lt2p [of n] by (simp split: if_splits)
    then have "int (unat n) < 0x8000000000000000" by simp
    then have "unat n < 0x8000000000000000" by linarith
    then have "unat n < 2 ^ 63" by simp
    then have "dec_units (unat n) = dec_units m" using u64toa2_dec [of "unat n"] u(1) by simp
    then have "unat n = m" by (rule dec_units_inj)
    then show False using assms m(2) by simp
  qed
qed

lemma number_atom_ok:
  assumes ok: "table_ok {} s" and E: "fresh_env E" and room: "atom_room s" and n: "\<not> unat n \<le> JSI_ATOM_MAX_INT"
  shows "\<exists>v s'. new_number_atom E s n = Some (v, s') \<and> table_ok {} s' \<and> (v \<noteq> 0 \<longrightarrow> atom_key s' v = Some (map ucast (u64toa2 n)))
    \<and> (\<forall>w k. atom_key s w = Some k \<longrightarrow> atom_key s' w = Some k)"
proof (cases "jsi_alloc_string_rt E s (Str8 (u64toa2 n))")
  case None
  then show ?thesis using ok by (simp add: new_number_atom_def)
next
  case (Some r)
  obtain a s1 where r: "r = (a, s1)" by (cases r)
  note f = alloc_string_ok [OF ok E Some [unfolded r]] and g = alloc_string_ref [OF ok E Some [unfolded r]]
  have small: "atom_free_index s1 = 0 \<Longrightarrow> int_ok (int (atom_size s1) * 3)" using room g by (simp add: atom_room_def)
  have "new_number_atom E s n = JSI_NewAtomStr E s1 a"
    using Some r number_not_small [OF n] f(5)
    by (auto simp: new_number_atom_def JSI_NewAtomStr_def small_num_def split: option.splits)
  moreover have "atom_key s1 = atom_key s" by (simp add: atom_key_def f(4) fun_eq_iff)
  ultimately show ?thesis
    using new_atom_str_ok [OF f(1) E g(1)] room g(2,3) by (auto simp: atom_room_def)
qed

lemma new_atom_int64_ok:
  assumes ok: "table_ok {} s" and E: "fresh_env E" and room: "atom_room s"
  shows "\<exists>v s'. JSI_NewAtomInt64 E s n = Some (v, s') \<and> table_ok {} s' \<and> (v \<noteq> 0 \<longrightarrow> atom_key s' v = Some (map ucast (u64toa2 n)))
    \<and> (\<forall>w k. atom_key s w = Some k \<longrightarrow> atom_key s' w = Some k)"
proof (cases "unat n \<le> JSI_ATOM_MAX_INT")
  case True
  then have "unat n < 2 ^ 63" by (simp add: JSI_ATOM_MAX_INT_def JSI_ATOM_TAG_INT_def)
  then have "map ucast (u64toa2 n) = dec_units (unat n)" using u64toa2_dec [of "unat n"] by simp
  then show ?thesis using True ok tagged_key [OF True] by (simp add: JSI_NewAtomInt64_def)
next
  case False
  then show ?thesis using number_atom_ok [OF ok E room False] by (simp add: JSI_NewAtomInt64_def)
qed

section \<open>The atom table interns\<close>

text \<open>The steps of the users of the table. A label is a name and the atom that was returned for it.
  Interning takes a string object, UTF-8 bytes or an integer; an atom is freed only while another
  reference to it is left; a symbol takes a string that is not an atom.\<close>

inductive atom_step :: "atom_rt \<Rightarrow> (u16 list \<times> nat) option \<Rightarrow> atom_rt \<Rightarrow> bool" where
  step_str: "fresh_env E \<Longrightarrow> str_ref s a q \<Longrightarrow> atom_room s \<Longrightarrow> JSI_NewAtomStr E s a = Some (v, s') \<Longrightarrow>
    atom_step s (if v = 0 then None else Some (units (s_data q), v)) s'"
| step_len: "fresh_env E \<Longrightarrow> atom_room s \<Longrightarrow> str_realloc ra \<Longrightarrow> length (utf8_units bs) \<le> JSI_STRING_LEN_MAX \<Longrightarrow>
    JSI_NewAtomLen E al ra s bs = Some (v, s') \<Longrightarrow> atom_step s (if v = 0 then None else Some (utf8_units bs, v)) s'"
| step_int: "fresh_env E \<Longrightarrow> atom_room s \<Longrightarrow> JSI_NewAtomInt64 E s n = Some (v, s') \<Longrightarrow>
    atom_step s (if v = 0 then None else Some (map ucast (u64toa2 n), v)) s'"
| step_alloc: "fresh_env E \<Longrightarrow> jsi_alloc_string_rt E s d = Some (a, s') \<Longrightarrow> atom_step s None s'"
| step_dup: "JSI_AtomIsConst v \<or> atom_entry s v \<noteq> None \<Longrightarrow> JSI_DupAtom s v = Some (v, s') \<Longrightarrow> atom_step s None s'"
| step_free: "atom_entry s v = Some (a, p) \<Longrightarrow> 1 < ref_count p \<Longrightarrow> JSI_FreeAtom s v = Some s' \<Longrightarrow> atom_step s None s'"
| step_symbol: "fresh_env E \<Longrightarrow> atom_room s \<Longrightarrow> opt_ref s str \<Longrightarrow> (\<And>a p. str = Some a \<Longrightarrow> strs s a = Some p \<Longrightarrow> atom_type p = 0) \<Longrightarrow>
    3 \<le> ty \<Longrightarrow> new_atom E s str ty = Some (v, s') \<Longrightarrow> atom_step s None s'"

lemma atom_step_ok:
  assumes "atom_step s l s'" "table_ok {} s"
  shows "table_ok {} s' \<and> (\<forall>k v. l = Some (k, v) \<longrightarrow> atom_key s' v = Some k)
    \<and> (\<forall>w k. atom_key s w = Some k \<longrightarrow> atom_key s' w = Some k)"
  using assms
proof (cases rule: atom_step.cases)
  case (step_str E a q v)
  then show ?thesis using new_atom_str_ok [OF assms(2) step_str(2,3,4)] by auto
next
  case (step_len E ra bs al v)
  then show ?thesis using new_atom_len_ok [OF assms(2) step_len(2,3,4,5), of al] by auto
next
  case (step_int E n v)
  then show ?thesis using new_atom_int64_ok [OF assms(2) step_int(2,3), of n] by auto
next
  case (step_alloc E d a)
  note f = alloc_string_ok [OF assms(2) step_alloc(2,3)]
  have "atom_key s' = atom_key s" by (simp add: atom_key_def f(4) fun_eq_iff)
  then show ?thesis using f(1) step_alloc(1) by simp
next
  case (step_dup v)
  then obtain a p where "JSI_AtomIsConst v \<or> atom_entry s v = Some (a, p)" by (cases "atom_entry s v") auto
  then obtain "table_ok {} s'" "atoms_kept {} s s'" using dup_atom_ok [OF assms(2)] step_dup(3) by fastforce
  then show ?thesis using key_kept step_dup(1) by blast
next
  case (step_free v a p)
  show ?thesis
  proof (cases "v = 0 \<or> JSI_AtomIsConst v")
    case True
    then have "JSI_AtomIsConst v" by (auto simp: is_const_small JSI_ATOM_END_def)
    then show ?thesis using step_free assms(2) by (simp add: JSI_FreeAtom_def)
  next
    case False
    then have "free_atom s v = Some s'" using step_free(4) by (simp add: JSI_FreeAtom_def)
    then obtain "table_ok {} s'" "atoms_kept {} s s'" using free_atom_ok [OF assms(2) _ step_free(2)] False step_free(3) by auto
    then show ?thesis using key_kept step_free(1) by blast
  qed
next
  case (step_symbol E str ty v)
  have small: "atom_free_index s = 0 \<Longrightarrow> int_ok (int (atom_size s) * 3)" using step_symbol(3) by (simp add: atom_room_def)
  have "table_ok {} s' \<and> atoms_kept (set_option str) s s'"
    using new_symbol_ok [OF assms(2) step_symbol(2,4) small step_symbol(6)] step_symbol(7) by auto
  moreover have "atom_type p \<noteq> 1 \<or> small_num (s_data p)" if "a \<in> set_option str" "strs s a = Some p" for a p
    using step_symbol(5) [of a p] that by simp
  ultimately show ?thesis using key_kept step_symbol(1) by blast
qed

interpretation atoms: interner "table_ok {}" atom_key atom_step
proof
  show "table_ok {} s'" if "table_ok {} s" "atom_step s l s'" for s l s' using atom_step_ok [OF that(2,1)] by blast
  show "atom_key s' v = Some k" if "table_ok {} s" "atom_step s l s'" "atom_key s v = Some k" for s l s' v k
    using atom_step_ok [OF that(2,1)] that(3) by blast
  show "atom_key s' v = Some k" if "table_ok {} s" "atom_step s (Some (k, v)) s'" for s k v s'
    using atom_step_ok [OF that(2,1)] by blast
qed (rule atom_key_unique)

section \<open>Names of atoms as strings\<close>

lemma atom_to_string_key:
  assumes ok: "table_ok {} s" and E: "fresh_env E" and k: "atom_key s v = Some k"
  shows "JSI_AtomToString E s v = Some (Inl OutOfMemory, s)
    \<or> (\<exists>b s' p. JSI_AtomToString E s v = Some (Inr (StrValue b), s') \<and> strs s' b = Some p \<and> units (s_data p) = k)"
proof (cases "JSI_AtomIsTaggedInt v")
  case True
  let ?d = "Str8 (u64toa2 (of_nat (JSI_AtomToUInt32 v)))"
  have kd: "k = dec_units (JSI_AtomToUInt32 v)" using True k by (auto simp: atom_key_def split: if_splits)
  have "JSI_AtomToUInt32 v < 2 ^ 63" using untag_less [of v] by simp
  then have "units ?d = k" using u64toa2_dec [of "JSI_AtomToUInt32 v"] kd by simp
  then show ?thesis using True
    by (auto simp: JSI_AtomToString_def JSI_AtomToValue_force_def jsi_alloc_string_rt_def split: option.split)
next
  case False
  obtain a p where p: "atom_entry s v = Some (a, p)" "atom_type p = 1" "\<not> small_num (s_data p)" "k = units (s_data p)"
    using key_entry [OF k False] .
  have "JSI_AtomToString E s v = Some (Inr (StrValue a), upd_str s a (add_ref 1))"
    using False p table_ok_entry(5) [OF ok p(1)]
    by (simp add: JSI_AtomToString_def JSI_AtomToValue_force_def JSI_ATOM_TYPE_STRING_def)
  then show ?thesis using p table_ok_entry(1) [OF ok p(1)] by simp
qed

section \<open>Properties\<close>

text \<open>A table with one string and two free slots, and an allocator with two addresses, for the witnesses.\<close>

definition two_env :: atom_env where
  "two_env = \<lparr>ae_str = (\<lambda>st n. if st 1 = None then Some 1 else if st 2 = None then Some 2 else None),
     ae_array = (\<lambda>_. True), ae_hash = (\<lambda>_. True)\<rparr>"

definition one_string :: "jsi_string \<Rightarrow> atom_rt" where
  "one_string d = \<lparr>atom_hash_size = 2, atom_count = 0, atom_size = 0, atom_count_resize = 4, atom_hash = [0, 0],
     atom_array = [], atom_free_index = 0,
     strs = Map.empty(0 \<mapsto> \<lparr>ref_count = 1, s_data = d, hash = 0, atom_type = 0, hash_next = 0\<rparr>)\<rparr>"

definition small_table :: "jsi_string \<Rightarrow> atom_rt" where
  "small_table d = append_slots (null_table (one_string d) 3) 3"

lemma two_env_fresh: "fresh_env two_env"
  by (auto simp: fresh_env_def two_env_def split: if_splits)

lemma one_string_ok: "table_ok {} (one_string d)"
proof -
  let ?s = "one_string d"
  have e: "atom_entry ?s i = None" for i by (simp add: atom_entry_def mem_get_def one_string_def)
  have "sizes_ok ?s" by (auto simp: sizes_ok_def live_set_def e) (auto simp: one_string_def intro: exI [of _ 1])
  moreover have "slots_ok ?s" by (simp add: slots_ok_def e) (auto simp: one_string_def free_set_def mem_get_def intro: exI [of _ "[]"])
  moreover have "store_ok ?s" by (simp add: store_ok_def e) (simp add: one_string_def)
  moreover have "unique_ok ?s" by (simp add: unique_ok_def e)
  moreover have "bucket_set ?s b = {}" for b by (simp add: bucket_set_def e)
  then have "buckets_ok {} ?s" unfolding buckets_ok_def
    by (auto simp: one_string_def less_2_cases_iff intro: exI [of _ "[]"])
  ultimately show ?thesis by (simp add: table_ok_def)
qed

lemma small_table_ok: "table_ok {} (small_table d)"
  unfolding small_table_def
  by (intro table_ok_append table_ok_null one_string_ok) (simp_all add: one_string_def JSI_ATOM_MAX_def)

lemma small_table_ref:
  "str_ref (small_table d) 0 \<lparr>ref_count = 1, s_data = d, hash = 0, atom_type = 0, hash_next = 0\<rparr>"
  "atom_room (small_table d)"
  by (simp_all add: str_ref_def small_table_def mem_get_def atom_room_def one_string_def)

text \<open>C28: the string of an atom is the string that was interned, for integer atoms (whose string is
  made again from the number) and for atoms of the table, found or new, in both representations.\<close>

theorem atom_string_roundtrip:
  assumes "table_ok {} s" and "fresh_env E" and "fresh_env E'" and "str_ref s a q" and "atom_room s"
    and "JSI_NewAtomStr E s a = Some (v, s')" and "v \<noteq> 0"
  shows "JSI_AtomToString E' s' v = Some (Inl OutOfMemory, s')
    \<or> (\<exists>b s'' p. JSI_AtomToString E' s' v = Some (Inr (StrValue b), s'') \<and> strs s'' b = Some p
        \<and> units (s_data p) = units (s_data q))"
proof -
  have "table_ok {} s'" "atom_key s' v = Some (units (s_data q))"
    using new_atom_str_ok [OF assms(1,2,4,5)] assms(6,7) by auto
  then show ?thesis using atom_to_string_key assms(3) by blast
qed

lemma small_table_new: "map_option fst (JSI_NewAtomStr two_env (small_table (Str8 [0x61, 0x62])) 0) = Some 1"
  by code_simp

theorem atom_string_roundtrip_witness:
  "\<exists>s'. JSI_NewAtomStr two_env (small_table (Str8 [0x61, 0x62])) 0 = Some (1, s') \<and>
     (JSI_AtomToString two_env s' 1 = Some (Inl OutOfMemory, s')
      \<or> (\<exists>b s'' p. JSI_AtomToString two_env s' 1 = Some (Inr (StrValue b), s'') \<and> strs s'' b = Some p
          \<and> units (s_data p) = units (Str8 [0x61, 0x62])))"
proof -
  obtain s' where s': "JSI_NewAtomStr two_env (small_table (Str8 [0x61, 0x62])) 0 = Some (1, s')"
    using small_table_new by (cases "JSI_NewAtomStr two_env (small_table (Str8 [0x61, 0x62])) 0") auto
  then show ?thesis
    using atom_string_roundtrip [OF small_table_ok two_env_fresh two_env_fresh small_table_ref s'] by simp
qed

text \<open>C26: on a table that satisfies the invariant, interning, finding, freeing a string and freeing an
  atom all return (no walk along a bucket runs forever, no assertion fails, no access is outside an
  array or through a free slot) and restore the invariant: free slots and buckets are chains that
  hold exactly the free slots and the atoms of their hash, and no two atoms have the same name.\<close>

theorem atom_ops_defined:
  assumes "table_ok {} s" and "fresh_env E" and "atom_room s" and "str_ref s a q"
    and "v \<noteq> 0" and "atom_entry s v = Some (b, p)"
  shows "(\<exists>i s'. JSI_NewAtomStr E s a = Some (i, s') \<and> table_ok {} s')
    \<and> (\<exists>i s'. find_atom s bs = Some (i, s') \<and> table_ok {} s')
    \<and> (\<exists>i s'. JSI_NewAtomInt64 E s n = Some (i, s') \<and> table_ok {} s')
    \<and> (\<exists>s'. jsi_free_string s a = Some s' \<and> table_ok {} s')
    \<and> (\<exists>s'. free_atom s v = Some s' \<and> table_ok {} s'
         \<and> (if 1 < ref_count p then atom_entry s' v = Some (b, add_ref (- 1) p) else atom_entry s' v = None))"
proof (intro conjI)
  show "\<exists>i s'. JSI_NewAtomStr E s a = Some (i, s') \<and> table_ok {} s'"
    using new_atom_str_ok [OF assms(1,2,4,3)] by blast
  show "\<exists>i s'. find_atom s bs = Some (i, s') \<and> table_ok {} s'" using find_atom_ok [OF assms(1)] by blast
  show "\<exists>i s'. JSI_NewAtomInt64 E s n = Some (i, s') \<and> table_ok {} s'"
    using new_atom_int64_ok [OF assms(1,2,3)] by blast
  show "\<exists>s'. jsi_free_string s a = Some s' \<and> table_ok {} s'" using free_string_ok [OF assms(1,4)] by blast
  show "\<exists>s'. free_atom s v = Some s' \<and> table_ok {} s'
    \<and> (if 1 < ref_count p then atom_entry s' v = Some (b, add_ref (- 1) p) else atom_entry s' v = None)"
  proof (cases "1 < ref_count p")
    case True
    have "table_ok {} (upd_str s b (add_ref (- 1)))"
      by (rule table_ok_ref [OF assms(1) table_ok_entry(1) [OF assms(1,6)]]) simp
    then show ?thesis using True assms(6) by (simp add: free_atom_def atom_entry_upd)
  next
    case False
    then show ?thesis using free_atom_ok [OF assms(1,5,6)] by auto
  qed
qed

text \<open>The table after \<open>ab\<close> is interned.\<close>

definition ab_table :: atom_rt where
  "ab_table = snd (the (JSI_NewAtomStr two_env (small_table (Str8 [0x61, 0x62])) 0))"

definition ab_atom :: str_obj where
  "ab_atom = \<lparr>ref_count = 1, s_data = Str8 [0x61, 0x62], hash = 94778, atom_type = 1, hash_next = 0\<rparr>"

lemma ab_table_ok:
  "table_ok {} ab_table" "atom_room ab_table" "str_ref ab_table 0 ab_atom" "atom_entry ab_table 1 = Some (0, ab_atom)"
proof -
  show "table_ok {} ab_table"
    using new_atom_str_ok [OF small_table_ok two_env_fresh small_table_ref, of "Str8 [0x61, 0x62]"]
    by (auto simp: ab_table_def)
  have f: "atom_free_index ab_table = 2" by code_simp
  have a: "mem_get (atom_array ab_table) 0 = Some (StrSlot 3)" "mem_get (atom_array ab_table) 1 = Some (StrSlot 0)" by code_simp+
  have s: "strs ab_table 0 = Some ab_atom" by code_simp
  show "atom_room ab_table" by (simp add: atom_room_def f)
  show "str_ref ab_table 0 ab_atom" using s a(1) by (simp add: str_ref_def) (simp add: ab_atom_def)
  show "atom_entry ab_table 1 = Some (0, ab_atom)" using s a(2) by (simp add: atom_entry_iff)
qed

theorem atom_ops_defined_witness:
  "(\<exists>i s'. JSI_NewAtomStr two_env ab_table 0 = Some (i, s') \<and> table_ok {} s')
    \<and> (\<exists>i s'. find_atom ab_table [0x61] = Some (i, s') \<and> table_ok {} s')
    \<and> (\<exists>i s'. JSI_NewAtomInt64 two_env ab_table 7 = Some (i, s') \<and> table_ok {} s')
    \<and> (\<exists>s'. jsi_free_string ab_table 0 = Some s' \<and> table_ok {} s')
    \<and> (\<exists>s'. free_atom ab_table 1 = Some s' \<and> table_ok {} s'
         \<and> (if 1 < ref_count ab_atom then atom_entry s' 1 = Some (0, add_ref (- 1) ab_atom) else atom_entry s' 1 = None))"
  using atom_ops_defined [OF ab_table_ok(1) two_env_fresh ab_table_ok(2,3) _ ab_table_ok(4), of "[0x61]" 7] by simp

end
