(* ===== verification/QAtomInit.thy ===== *)
theory QAtomInit
  imports QAtomIntern
begin

text \<open>
  The predefined atoms: \<open>JSI_InitAtoms\<close> gives every constant \<open>JSI_ATOM_x\<close> its name.
\<close>

section \<open>The table of names\<close>

text \<open>A number for each name, and a test for distinctness that sorts the numbers by their low bits.\<close>

definition name_code :: "string \<Rightarrow> int" where
  "name_code s = foldl (\<lambda>h c. h * 5 + of_char c) 0 s"

fun split_distinct :: "nat \<Rightarrow> int list \<Rightarrow> bool" where
  "split_distinct 0 xs = distinct xs"
| "split_distinct (Suc k) xs = (split_distinct k (map (\<lambda>x. x div 2) (filter even xs))
     \<and> split_distinct k (map (\<lambda>x. x div 2) (filter (\<lambda>x. \<not> even x) xs)))"

lemma distinct_filters: "distinct (filter P xs) \<Longrightarrow> distinct (filter (\<lambda>x. \<not> P x) xs) \<Longrightarrow> distinct xs"
  by (induction xs) (auto split: if_splits)

lemma distinct_mapI: "distinct (map f xs) \<Longrightarrow> distinct xs"
  by (simp add: distinct_map)

lemma split_distinct_sound: "split_distinct k xs \<Longrightarrow> distinct xs"
proof (induction k arbitrary: xs)
  case (Suc k)
  then have "distinct (map (\<lambda>x. x div 2) (filter even xs))" "distinct (map (\<lambda>x. x div 2) (filter (\<lambda>x. \<not> even x) xs))"
    by simp_all
  then show ?case by (rule distinct_filters [OF distinct_mapI distinct_mapI])
qed simp

lemma atom_names_distinct: "distinct (take 211 atom_names)"
proof -
  have "split_distinct 6 (map name_code (take 211 atom_names))" by code_simp
  then show ?thesis using split_distinct_sound [of 6 "map name_code (take 211 atom_names)"] by (simp add: distinct_map)
qed

lemma atom_names_length: "length atom_names = 225" by code_simp

lemma atom_names_nul: "list_all (list_all (\<lambda>b. b \<noteq> 0)) (map (map of_char) atom_names :: bytes list)" by code_simp

lemma of_char_inj: "(of_char c :: u8) = of_char d \<Longrightarrow> c = d"
proof -
  assume "(of_char c :: u8) = of_char d"
  then have "unat (of_nat (of_char c) :: u8) = unat (of_nat (of_char d) :: u8)" by (simp only: of_nat_of_char)
  then show ?thesis by (simp add: unat_of_nat)
qed

text \<open>The bytes of the name of the predefined atom \<open>i\<close>.\<close>

definition atom_name :: "nat \<Rightarrow> bytes" where
  "atom_name i = map of_char (atom_names ! (i - 1))"

lemma atom_name_inj:
  assumes "0 < i" "i < 212" "0 < j" "j < 212" "atom_name i = atom_name j"
  shows "i = j"
proof -
  have "atom_names ! (i - 1) = atom_names ! (j - 1)"
    using assms(5) of_char_inj unfolding atom_name_def by (metis (no_types, lifting) map_injective injI)
  then have "take 211 atom_names ! (i - 1) = take 211 atom_names ! (j - 1)" using assms by simp
  then have "i - 1 = j - 1"
    using atom_names_distinct atom_names_length assms by (subst (asm) nth_eq_iff_index_eq) auto
  then show ?thesis using assms by simp
qed

definition names_from :: "nat \<Rightarrow> bytes" where
  "names_from k = concat (map (\<lambda>n. map of_char n @ [0]) (drop k atom_names)) @ [0]"

lemma names_from_step:
  assumes "k < 225"
  shows "names_from k = atom_name (Suc k) @ 0 # names_from (Suc k)" "strlen (names_from k) = Some (length (atom_name (Suc k)))"
proof -
  have "drop k atom_names = atom_names ! k # drop (Suc k) atom_names"
    using assms atom_names_length by (simp add: Cons_nth_drop_Suc)
  then show n: "names_from k = atom_name (Suc k) @ 0 # names_from (Suc k)" by (simp add: names_from_def atom_name_def)
  have "list_all (\<lambda>b. b \<noteq> 0) (atom_name (Suc k))"
    using atom_names_nul assms atom_names_length by (simp add: atom_name_def list_all_length)
  then have "0 \<notin> set (atom_name (Suc k))" by (auto simp: list_all_iff)
  then show "strlen (names_from k) = Some (length (atom_name (Suc k)))"
    unfolding n by (subst strlen_terminated) (auto simp: terminated_def)
qed

section \<open>The loop\<close>

text \<open>After \<open>k\<close> names: the atoms \<open>1\<close> to \<open>k\<close> have their names, and the rest of the array is free in order.\<close>

definition init_type :: "nat \<Rightarrow> nat" where
  "init_type i = (if init_atom_type i = 1 then 1 else 3)"

lemma init_type_string: "init_type i \<noteq> 3 \<Longrightarrow> i < 212"
  by (simp add: init_type_def init_atom_type_def JSI_ATOM_TYPE_STRING_def JSI_ATOM_TYPE_SYMBOL_def
    JSI_ATOM_TYPE_PRIVATE_def JSI_ATOM_Private_brand_def JSI_ATOM_Symbol_toPrimitive_def split: if_splits)

definition init_inv :: "nat \<Rightarrow> atom_rt \<Rightarrow> bool" where
  "init_inv k s \<longleftrightarrow> table_ok {} s \<and> atom_hash_size s = 256
     \<and> (if atom_size s = 0 then k = 0 \<and> atom_free_index s = 0
        else k < atom_size s \<and> atom_size s \<in> {211, 316} \<and> atom_free_index s = (if Suc k < atom_size s then Suc k else 0)
          \<and> (\<forall>j. k < j \<longrightarrow> j < atom_size s \<longrightarrow> fnext s j = (if j = atom_size s - 1 then 0 else j + 1)))
     \<and> (\<forall>i a p. atom_entry s i = Some (a, p) \<longrightarrow> i \<le> k \<and> (0 < i \<longrightarrow> s_data p = Str8 (atom_name i) \<and> atom_type p = init_type i))
     \<and> (\<forall>i. 0 < i \<longrightarrow> i \<le> k \<longrightarrow> atom_entry s i \<noteq> None)"

lemma init_inv_entry:
  "init_inv k s \<Longrightarrow> atom_entry s i = Some (a, p) \<Longrightarrow>
   i \<le> k \<and> (0 < i \<longrightarrow> s_data p = Str8 (atom_name i) \<and> atom_type p = init_type i)"
  by (auto simp: init_inv_def)

text \<open>The next name is new.\<close>

lemma init_new:
  assumes inv: "init_inv k s" and t: "init_type (Suc k) \<noteq> 3"
    and e: "atom_entry s j = Some (b, p)" and p: "atom_type p = init_type (Suc k)"
  shows "units (s_data p) \<noteq> map ucast (atom_name (Suc k))"
proof
  assume u: "units (s_data p) = map ucast (atom_name (Suc k))"
  have ok: "table_ok {} s" using inv by (simp add: init_inv_def)
  have j: "0 < j" using table_ok_entry(3) [OF ok e] t p by (simp add: JSI_ATOM_TYPE_SYMBOL_def)
  then have d: "j \<le> k" "s_data p = Str8 (atom_name j)" "atom_type p = init_type j" using inv e by (auto simp: init_inv_def)
  have "map ucast (atom_name j) = (map ucast (atom_name (Suc k)) :: u16 list)" using u d(2) by simp
  then have n: "atom_name j = atom_name (Suc k)" by (rule map_widen_inj)
  have "j < 212" "Suc k < 212" using init_type_string [of j] init_type_string [of "Suc k"] t p d(3) by auto
  then show False using atom_name_inj [OF j _ _ _ n] d(1) by simp
qed

text \<open>Linking an object of the next name.\<close>

lemma init_link:
  assumes inv: "init_inv k s" and k: "k < 225" and free: "atom_free_index s \<noteq> 0"
    and a: "strs s a = Some q" "atom_type q = 0" "s_data q = Str8 (atom_name (Suc k))"
    and ty: "ty = init_type (Suc k)" and h: "ty \<noteq> 3 \<Longrightarrow> h = atom_hash_of ty (s_data q) \<and> h1 = hash_bucket s h"
  shows "\<exists>s'. atom_link E s a h h1 ty = Some (Suc k, s') \<and> init_inv (Suc k) s' \<and> dom (strs s') = dom (strs s)"
proof -
  let ?i = "atom_free_index s"
  have ok: "table_ok {} s" and sz: "atom_hash_size s = 256" using inv by (simp_all add: init_inv_def)
  have size: "atom_size s \<noteq> 0" "Suc k < atom_size s" "atom_size s \<le> 316" "?i = Suc k" "atom_size s \<in> {211, 316}"
    using inv free by (auto simp: init_inv_def split: if_splits)
  have parts: "sizes_ok s" "slots_ok s" using ok by (simp_all add: table_ok_def)
  have small: "Suc (atom_count s) < atom_count_resize s"
    using live_card [OF parts(1)] size(3) sz parts(1) by (simp add: sizes_ok_def)
  have ty3: "ty \<in> {1, 2, 3}" by (simp add: ty init_type_def)
  have "\<exists>s' r. atom_link E s a h h1 ty = Some (?i, s') \<and> table_ok {} s' \<and> keeps {a} s s'
    \<and> atom_entry s' ?i = Some (a, r) \<and> s_data r = s_data q \<and> atom_type r = ty \<and> hash r = h \<and> ref_count r = ref_count q
    \<and> (Suc (atom_count s) < atom_count_resize s \<longrightarrow> atom_array s' = (atom_array s)[?i := StrSlot a]
       \<and> atom_free_index s' = fnext s ?i \<and> atom_size s' = atom_size s \<and> atom_hash_size s' = atom_hash_size s
       \<and> dom (strs s') = dom (strs s))"
    by (rule atom_link_ok [OF ok free a(1,2) ty3 h]) (use init_new [OF inv] ty a(3) in auto)
  then obtain s' r where s': "atom_link E s a h h1 ty = Some (?i, s')" "table_ok {} s'" "keeps {a} s s'"
    "atom_entry s' ?i = Some (a, r)" "s_data r = s_data q" "atom_type r = ty"
    "atom_array s' = (atom_array s)[?i := StrSlot a]" "atom_free_index s' = fnext s ?i" "atom_size s' = atom_size s"
    "atom_hash_size s' = atom_hash_size s" "dom (strs s') = dom (strs s)" using small by blast
  have il: "?i < length (atom_array s)" using size parts(1) by (simp add: sizes_ok_def)
  have nt: "mem_get (atom_array s) j \<noteq> Some (StrSlot a)" for j using not_in_table [OF ok] a(1,2) by blast
  have old: "\<exists>p. atom_entry s j = Some (b, p) \<and> obj_keep p p'"
    if j: "j \<noteq> ?i" "atom_entry s' j = Some (b, p')" for j b p'
  proof -
    have slot: "mem_get (atom_array s) j = Some (StrSlot b)"
      using j by (auto simp: atom_entry_iff s'(7) mem_get_def split: if_splits)
    then have "j < atom_size s" "j \<notin> free_set s" using parts(1) by (auto simp: sizes_ok_def mem_get_def free_set_def split: if_splits)
    then obtain c p where c: "atom_entry s j = Some (c, p)" using parts(2) by (fastforce simp: slots_ok_def live_set_def)
    then have cb: "c = b" using slot by (simp add: atom_entry_iff)
    have "b \<notin> {a}" using slot nt by auto
    then obtain p2 where "atom_entry s' j = Some (b, p2)" "obj_keep p p2" using keeps_entry [OF s'(3) _ c [unfolded cb]] by blast
    then show ?thesis using c cb j(2) by simp
  qed
  have kept: "atom_entry s' j \<noteq> None" if e: "atom_entry s j \<noteq> None" for j
  proof -
    obtain b p where b: "atom_entry s j = Some (b, p)" using e by auto
    then have "b \<notin> {a}" using nt by (auto simp: atom_entry_iff)
    then show ?thesis using keeps_entry [OF s'(3) _ b] by (metis option.distinct(1))
  qed
  have fn: "fnext s' j = fnext s j" if "j \<noteq> ?i" for j using that il by (simp add: fnext_def s'(7) mem_get_def)
  have "init_inv (Suc k) s'"
    unfolding init_inv_def
  proof (intro conjI)
    show "table_ok {} s'" "atom_hash_size s' = 256" using s' sz by simp_all
    have lay: "fnext s j = (if j = atom_size s - 1 then 0 else j + 1)" if "k < j" "j < atom_size s" for j
      using inv size(1) that by (simp add: init_inv_def)
    have "fnext s ?i = (if Suc (Suc k) < atom_size s then Suc (Suc k) else 0)" using lay [of ?i] size by auto
    then show "if atom_size s' = 0 then Suc k = 0 \<and> atom_free_index s' = 0
      else Suc k < atom_size s' \<and> atom_size s' \<in> {211, 316}
        \<and> atom_free_index s' = (if Suc (Suc k) < atom_size s' then Suc (Suc k) else 0)
        \<and> (\<forall>j. Suc k < j \<longrightarrow> j < atom_size s' \<longrightarrow> fnext s' j = (if j = atom_size s' - 1 then 0 else j + 1))"
      using size s'(8,9) lay fn by simp
    have "j \<le> Suc k \<and> (0 < j \<longrightarrow> s_data p = Str8 (atom_name j) \<and> atom_type p = init_type j)"
      if e: "atom_entry s' j = Some (b, p)" for j b p
    proof (cases "j = ?i")
      case True
      then show ?thesis using e s'(4,5,6) size(4) a(3) ty by simp
    next
      case False
      then obtain p0 where "atom_entry s j = Some (b, p0)" "obj_keep p0 p" using old e by blast
      then show ?thesis using init_inv_entry [OF inv] by (fastforce simp: obj_keep_def)
    qed
    then show "\<forall>i a p. atom_entry s' i = Some (a, p) \<longrightarrow>
      i \<le> Suc k \<and> (0 < i \<longrightarrow> s_data p = Str8 (atom_name i) \<and> atom_type p = init_type i)" by blast
    have "atom_entry s' j \<noteq> None" if "0 < j" "j \<le> Suc k" for j
      using that s'(4) size(4) kept [of j] inv by (cases "j = Suc k") (auto simp: init_inv_def)
    then show "\<forall>i. 0 < i \<longrightarrow> i \<le> Suc k \<longrightarrow> atom_entry s' i \<noteq> None" by blast
  qed
  then show ?thesis using s'(1,11) size(4) by simp
qed

lemma init_alloc:
  assumes "init_inv k s" "fresh_env E" "jsi_alloc_string_rt E s d = Some (a, s')"
  shows "init_inv k s'"
proof -
  have ok: "table_ok {} s" using assms(1) by (simp add: init_inv_def)
  note f = alloc_string_ok [OF ok assms(2,3)]
  have "fnext s' = fnext s" by (simp add: fnext_def f(5) fun_eq_iff)
  then show ?thesis using assms(1) f(1) unfolding init_inv_def f(4) by (auto simp: f(5) split: if_splits)
qed

lemma init_grow:
  assumes inv: "init_inv k s" and E: "fresh_env E" and k: "k < 225" and free: "atom_free_index s = 0"
    and g: "atom_grow E s = Some (True, s')"
  shows "init_inv k s'" "atom_free_index s' \<noteq> 0" "strs s a = Some q \<Longrightarrow> strs s' a = Some q"
proof -
  have ok: "table_ok {} s" and sz: "atom_hash_size s = 256" using inv by (simp_all add: init_inv_def)
  have len: "length (atom_array s) = atom_size s" using ok by (simp add: table_ok_def sizes_ok_def)
  have size: "atom_size s = 0 \<and> k = 0 \<or> atom_size s = 211 \<and> k = 210" using inv free k by (auto simp: init_inv_def split: if_splits)
  have small: "int_ok (int (atom_size s) * 3)" using size by (auto simp: int_ok_def)
  have ok': "table_ok {} s'" "atom_free_index s' \<noteq> 0" "atom_hash_size s' = atom_hash_size s"
    using atom_grow_ok [OF ok E free small] g by auto
  show "atom_free_index s' \<noteq> 0" by fact
  note unf = atom_grow_unfold [OF small refl, of E]
  have "init_inv k s' \<and> (strs s a = Some q \<longrightarrow> strs s' a = Some q)"
  proof (cases "atom_size s = 0")
    case True
    then obtain b where b: "ae_str E (strs s) 0 = Some b" "s' = append_slots (null_table s b) 211"
      using g size unfolding unf by (auto split: if_splits option.splits)
    have fresh: "strs s b = None" using E b(1) by (simp add: fresh_env_def)
    have "atom_entry s' = atom_entry (null_table s b)" unfolding b(2) by (rule append_slots_entry) simp
    then have e: "atom_entry s' i = (if i = 0 then Some (b, null_atom) else None)" for i
      by (simp add: atom_entry_def mem_get_def)
    have fn: "fnext s' j = (if j = 210 then 0 else j + 1)" if "0 < j" "j < 211" for j
      using that free_slots_nth [of "j - 1" 211 1] by (simp add: b(2) fnext_def mem_get_def nth_append nth_Cons')
    have "atom_size s' = 211" "atom_free_index s' = 1" "strs s' = (strs s)(b \<mapsto> null_atom)" by (simp_all add: b(2))
    then show ?thesis using ok' sz True size fresh fn unfolding init_inv_def e by auto
  next
    case False
    then have b: "s' = append_slots s 316" using g size unfolding unf by (auto split: if_splits)
    have e: "atom_entry s' = atom_entry s" unfolding b by (rule append_slots_entry [OF len])
    have fn: "fnext s' j = (if j = 315 then 0 else j + 1)" if "210 < j" "j < 316" for j
      using that free_slots_nth [of "j - 211" 316 211] len False size
      by (simp add: b fnext_def mem_get_def nth_append)
    have "atom_size s' = 316" "atom_free_index s' = atom_size s" "strs s' = strs s" by (simp_all add: b)
    then show ?thesis using ok' sz False size fn inv unfolding init_inv_def e by auto
  qed
  then show "init_inv k s'" "strs s a = Some q \<Longrightarrow> strs s' a = Some q" by blast+
qed

lemma init_add:
  assumes inv: "init_inv k s" and E: "fresh_env E" and k: "k < 225"
    and a: "strs s a = Some q" "atom_type q = 0" "s_data q = Str8 (atom_name (Suc k))"
    and ty: "ty = init_type (Suc k)" and h: "ty \<noteq> 3 \<Longrightarrow> h = atom_hash_of ty (s_data q) \<and> h1 = hash_bucket s h"
    and r: "atom_add E s (Some a) h h1 ty = Some (r, s')" "r \<noteq> 0"
  shows "r = Suc k \<and> init_inv (Suc k) s'"
proof -
  obtain g s1 where g: "(if atom_free_index s = 0 then atom_grow E s else Some (True, s)) = Some (g, s1)"
    using r(1) by (auto simp: atom_add_def split: Option.bind_splits)
  have "g" using r g by (auto simp: atom_add_def split: Option.bind_splits if_splits)
  then have s1: "init_inv k s1" "atom_free_index s1 \<noteq> 0" "strs s1 a = Some q"
    using init_grow(1) [OF inv E k] init_grow(2) [OF inv E k] init_grow(3) [OF inv E k] g inv a(1) by (auto split: if_splits)
  have "atom_add E s (Some a) h h1 ty = atom_link E s1 a h h1 ty"
    using g \<open>g\<close> s1(3) a(2) by (simp add: atom_add_def atom_struct_def atom_link_retype)
  moreover have "hash_bucket s1 h = hash_bucket s h" using inv s1(1) by (simp add: hash_bucket_def init_inv_def)
  ultimately have h': "ty \<noteq> 3 \<Longrightarrow> h = atom_hash_of ty (s_data q) \<and> h1 = hash_bucket s1 h"
    and l: "atom_link E s1 a h h1 ty = Some (r, s')" using h r(1) by simp_all
  show ?thesis using init_link [OF s1(1) k s1(2,3) a(2,3) ty h', of E] l by auto
qed

text \<open>The lookup finds nothing, so the name is added.\<close>

lemma init_new_atom:
  assumes inv: "init_inv k s"
    and a: "strs s a = Some q" "atom_type q = 0" "s_data q = Str8 (atom_name (Suc k))"
  shows "\<exists>h h1. new_atom E s (Some a) (init_atom_type (Suc k)) = atom_add E s (Some a) h h1 (init_type (Suc k))
    \<and> (init_type (Suc k) \<noteq> 3 \<longrightarrow> h = atom_hash_of (init_type (Suc k)) (s_data q) \<and> h1 = hash_bucket s h)"
proof (cases "init_atom_type (Suc k) = 1")
  case False
  then have "3 \<le> init_atom_type (Suc k)"
    by (simp add: init_atom_type_def JSI_ATOM_TYPE_STRING_def JSI_ATOM_TYPE_SYMBOL_def JSI_ATOM_TYPE_PRIVATE_def split: if_splits)
  then show ?thesis using False by (auto simp: new_atom_def init_type_def JSI_ATOM_TYPE_SYMBOL_def)
next
  case True
  have ok: "table_ok {} s" using inv by (simp add: init_inv_def)
  have old: "units (s_data p) \<noteq> units (s_data q)" if "atom_entry s j = Some (b, p)" "atom_type p = 1" for j b p
    using init_new [OF inv _ that(1)] that(2) True a(3) by (simp add: init_type_def)
  have q: "(1 :: nat) \<in> {1, 2}" "atom_type q \<noteq> 1" using a(2) by simp_all
  from new_atom_lookup [OF ok a(1) q, of E] obtain i where i: "new_atom E s (Some a) 1 =
    (if i \<noteq> 0 then do {
       (b, p) \<leftarrow> atom_entry s i;
       s \<leftarrow> jsi_free_string (if JSI_AtomIsConst i then s else upd_str s b (add_ref 1)) a;
       Some (i, s) }
     else atom_add E s (Some a) (atom_hash_of 1 (s_data q)) (hash_bucket s (atom_hash_of 1 (s_data q))) 1)"
    "if i = 0 then \<forall>j a p. atom_entry s j = Some (a, p) \<longrightarrow> atom_type p \<noteq> JSI_ATOM_TYPE_SYMBOL \<longrightarrow>
         \<not> (atom_type p = 1 \<and> units (s_data p) = units (s_data q))
     else \<exists>a p. atom_entry s i = Some (a, p) \<and> atom_type p = 1 \<and> units (s_data p) = units (s_data q)" by blast
  have "i = 0"
  proof (rule ccontr)
    assume "i \<noteq> 0"
    then obtain b p where "atom_entry s i = Some (b, p)" "atom_type p = 1" "units (s_data p) = units (s_data q)" using i(2) by auto
    then show False using old by blast
  qed
  then show ?thesis using i(1) True by (auto simp: init_type_def)
qed

lemma init_alloc_obj:
  assumes "init_inv k s" "fresh_env E" "jsi_alloc_string_rt E s d = Some (a, s1)"
  obtains q where "strs s1 a = Some q" "atom_type q = 0" "s_data q = d" "dom (strs s1) = insert a (dom (strs s))"
proof -
  have "table_ok {} s" using assms(1) by (simp add: init_inv_def)
  from alloc_string_ok(5) [OF this assms(2,3)] show thesis
    by (intro that [of "\<lparr>ref_count = 1, s_data = d, hash = 0, atom_type = 0, hash_next = 0\<rparr>"]) (auto simp: dom_def)
qed

lemma init_step:
  assumes inv: "init_inv k s" and E: "fresh_env E" and k: "k < 225"
    and r: "atom_init E s (atom_name (Suc k)) (init_atom_type (Suc k)) = Some (r, s')" "r \<noteq> 0"
  shows "r = Suc k \<and> init_inv (Suc k) s'"
proof -
  obtain a s1 where al: "jsi_alloc_string_rt E s (Str8 (atom_name (Suc k))) = Some (a, s1)"
    using r by (auto simp: atom_init_def split: option.splits)
  have inv1: "init_inv k s1" using init_alloc [OF inv E al] .
  obtain q where q: "strs s1 a = Some q" "atom_type q = 0" "s_data q = Str8 (atom_name (Suc k))"
    using init_alloc_obj [OF inv E al] by blast
  obtain h h1 where h: "new_atom E s1 (Some a) (init_atom_type (Suc k)) = atom_add E s1 (Some a) h h1 (init_type (Suc k))"
    "init_type (Suc k) \<noteq> 3 \<longrightarrow> h = atom_hash_of (init_type (Suc k)) (s_data q) \<and> h1 = hash_bucket s1 h"
    using init_new_atom [OF inv1 q] by blast
  then show ?thesis using init_add [OF inv1 E k q refl, of h h1 r s'] r al by (simp add: atom_init_def)
qed

lemma init_loop_ok:
  assumes "init_inv k s" "fresh_env E" "k + n = 225" "init_loop n E s (names_from k) = Some (0, s')"
  shows "init_inv 225 s'"
  using assms
proof (induction n arbitrary: k s)
  case 0
  then show ?case by simp
next
  case (Suc n)
  have k: "k < 225" using Suc.prems(3) by simp
  note nm = names_from_step [OF k]
  have i: "JSI_ATOM_END - Suc n = Suc k" using Suc.prems(3) by (simp add: JSI_ATOM_END_def)
  obtain r s1 where r: "atom_init E s (atom_name (Suc k)) (init_atom_type (Suc k)) = Some (r, s1)" "r \<noteq> 0"
    "init_loop n E s1 (names_from (Suc k)) = Some (0, s')"
    using Suc.prems(4) nm i by (auto simp: Let_def split: Option.bind_splits if_splits)
  then show ?case using Suc.IH [OF _ Suc.prems(2) _ r(3)] init_step [OF Suc.prems(1,2) k r(1,2)] Suc.prems(3) by simp
qed

text \<open>The zeroed runtime of \<open>JSI_NewRuntime2\<close>.\<close>

definition new_atom_rt :: atom_rt where
  "new_atom_rt = \<lparr>atom_hash_size = 0, atom_count = 0, atom_size = 0, atom_count_resize = 0, atom_hash = [],
     atom_array = [], atom_free_index = 0, strs = Map.empty\<rparr>"

lemma init_start:
  "init_inv 0 (new_atom_rt\<lparr>atom_hash := replicate 256 0, atom_hash_size := 256, atom_count_resize := 512\<rparr>)" (is "init_inv 0 ?s")
proof -
  have e: "atom_entry ?s i = None" for i by (simp add: atom_entry_def mem_get_def new_atom_rt_def)
  have "sizes_ok ?s" by (auto simp: sizes_ok_def live_set_def e) (simp_all add: new_atom_rt_def exI [of _ 8])
  moreover have "slots_ok ?s" by (simp add: slots_ok_def e) (auto simp: new_atom_rt_def free_set_def mem_get_def intro: exI [of _ "[]"])
  moreover have "store_ok ?s" by (simp add: store_ok_def e) (simp add: new_atom_rt_def)
  moreover have "unique_ok ?s" by (simp add: unique_ok_def e)
  moreover have "buckets_ok {} ?s" by (auto simp: buckets_ok_def bucket_set_def e intro: exI [of _ "[]"])
  ultimately have "table_ok {} ?s" by (simp add: table_ok_def)
  then show ?thesis by (simp add: init_inv_def e) (simp add: new_atom_rt_def)
qed

lemma init_atoms_ok:
  assumes "fresh_env E" "JSI_InitAtoms E new_atom_rt = Some (0, s)"
  shows "init_inv 225 s"
proof -
  have "names_from 0 = jsi_atom_init" by (simp add: names_from_def jsi_atom_init_def)
  moreover have "(256 :: nat) AND (256 - 1) = 0" using and_pow2 [of 8] by simp
  moreover have "ae_hash E 256" using assms(2) calculation(2)
    by (cases "ae_hash E 256") (simp_all add: JSI_InitAtoms_def JSI_ResizeAtomHash_def Let_def)
  ultimately have "init_loop 225 E (new_atom_rt\<lparr>atom_hash := replicate 256 0, atom_hash_size := 256, atom_count_resize := 512\<rparr>) (names_from 0) = Some (0, s)"
    using assms(2) by (simp add: JSI_InitAtoms_def JSI_ResizeAtomHash_def new_atom_rt_def JSI_ATOM_END_def Let_def)
  then show ?thesis using init_loop_ok [OF init_start assms(1)] by simp
qed

lemma atom_name_units: "units (Str8 (atom_name i)) = map of_char (atom_names ! (i - 1))"
proof -
  have "(ucast (of_char c :: u8) :: u16) = of_char c" for c
  proof -
    have "(ucast (of_nat (of_char c) :: u8) :: u16) = of_nat (of_char c)"
      by (simp add: word_unat_eq_iff unat_of_nat unsigned_ucast_eq take_bit_eq_mod)
    then show ?thesis by (simp only: of_nat_of_char)
  qed
  then show ?thesis by (simp add: atom_name_def)
qed

section \<open>Initialisation succeeds\<close>

text \<open>An allocator that finds an address while the store is finite.\<close>

definition total_env :: "atom_env \<Rightarrow> bool" where
  "total_env E \<longleftrightarrow> fresh_env E \<and> (\<forall>n. ae_array E n \<and> ae_hash E n) \<and> (\<forall>st n. finite (dom st) \<longrightarrow> ae_str E st n \<noteq> None)"

lemma init_add_total:
  assumes inv: "init_inv k s" and E: "total_env E" and k: "k < 225" and fin: "finite (dom (strs s))"
    and a: "strs s a = Some q" "atom_type q = 0" "s_data q = Str8 (atom_name (Suc k))"
    and ty: "ty = init_type (Suc k)" and h: "ty \<noteq> 3 \<Longrightarrow> h = atom_hash_of ty (s_data q) \<and> h1 = hash_bucket s h"
  shows "\<exists>s'. atom_add E s (Some a) h h1 ty = Some (Suc k, s') \<and> init_inv (Suc k) s' \<and> finite (dom (strs s'))"
proof -
  have fr: "fresh_env E" using E by (simp add: total_env_def)
  have ok: "table_ok {} s" using inv by (simp add: init_inv_def)
  have "\<exists>s1. (if atom_free_index s = 0 then atom_grow E s else Some (True, s)) = Some (True, s1)
    \<and> init_inv k s1 \<and> atom_free_index s1 \<noteq> 0 \<and> strs s1 a = Some q \<and> finite (dom (strs s1))"
  proof (cases "atom_free_index s = 0")
    case False
    then show ?thesis using inv a(1) fin by simp
  next
    case True
    then have size: "atom_size s = 0 \<or> atom_size s = 211" using inv k by (auto simp: init_inv_def split: if_splits)
    have small: "int_ok (int (atom_size s) * 3)" using size by (auto simp: int_ok_def)
    obtain b where b: "ae_str E (strs s) 0 = Some b" using E fin unfolding total_env_def by blast
    have "ae_array E n" for n using E by (simp add: total_env_def)
    then have "\<exists>s1. atom_grow E s = Some (True, s1) \<and> finite (dom (strs s1))"
      using fin b unfolding atom_grow_unfold [OF small refl] by (cases "atom_size s = 0") simp_all
    then obtain s1 where s1: "atom_grow E s = Some (True, s1)" "finite (dom (strs s1))" by blast
    then show ?thesis using True init_grow(1) [OF inv fr k True s1(1)] init_grow(2) [OF inv fr k True s1(1)]
      init_grow(3) [OF inv fr k True s1(1) a(1)] by simp
  qed
  then obtain s1 where g: "(if atom_free_index s = 0 then atom_grow E s else Some (True, s)) = Some (True, s1)"
    and s1: "init_inv k s1" "atom_free_index s1 \<noteq> 0" "strs s1 a = Some q" "finite (dom (strs s1))" by blast
  have "atom_add E s (Some a) h h1 ty = atom_link E s1 a h h1 ty"
    using g s1(3) a(2) by (simp add: atom_add_def atom_struct_def atom_link_retype)
  moreover have "hash_bucket s1 h = hash_bucket s h" using inv s1(1) by (simp add: hash_bucket_def init_inv_def)
  ultimately have h': "ty \<noteq> 3 \<Longrightarrow> h = atom_hash_of ty (s_data q) \<and> h1 = hash_bucket s1 h"
    and l: "atom_add E s (Some a) h h1 ty = atom_link E s1 a h h1 ty" using h by simp_all
  show ?thesis using init_link [OF s1(1) k s1(2,3) a(2,3) ty h', of E] l s1(4) by auto
qed

lemma init_step_total:
  assumes inv: "init_inv k s" and E: "total_env E" and k: "k < 225" and fin: "finite (dom (strs s))"
  shows "\<exists>s'. atom_init E s (atom_name (Suc k)) (init_atom_type (Suc k)) = Some (Suc k, s') \<and> init_inv (Suc k) s' \<and> finite (dom (strs s'))"
proof -
  have fr: "fresh_env E" using E by (simp add: total_env_def)
  obtain a where "ae_str E (strs s) (payload_bytes (str_len (Str8 (atom_name (Suc k)))) False) = Some a"
    using E fin unfolding total_env_def by blast
  then obtain s1 where al: "jsi_alloc_string_rt E s (Str8 (atom_name (Suc k))) = Some (a, s1)" by (simp add: jsi_alloc_string_rt_def)
  have inv1: "init_inv k s1" using init_alloc [OF inv fr al] .
  obtain q where q: "strs s1 a = Some q" "atom_type q = 0" "s_data q = Str8 (atom_name (Suc k))" and d: "dom (strs s1) = insert a (dom (strs s))"
    using init_alloc_obj [OF inv fr al] by blast
  obtain h h1 where h: "new_atom E s1 (Some a) (init_atom_type (Suc k)) = atom_add E s1 (Some a) h h1 (init_type (Suc k))"
    "init_type (Suc k) \<noteq> 3 \<longrightarrow> h = atom_hash_of (init_type (Suc k)) (s_data q) \<and> h1 = hash_bucket s1 h"
    using init_new_atom [OF inv1 q] by blast
  have "finite (dom (strs s1))" using fin d by simp
  from init_add_total [OF inv1 E k this q refl, of h h1] show ?thesis using h al by (simp add: atom_init_def)
qed

lemma init_loop_total:
  assumes "init_inv k s" "total_env E" "k + n = 225" "finite (dom (strs s))"
  shows "\<exists>s'. init_loop n E s (names_from k) = Some (0, s')"
  using assms
proof (induction n arbitrary: k s)
  case (Suc n)
  have k: "k < 225" using Suc.prems(3) by simp
  have i: "JSI_ATOM_END - Suc n = Suc k" using Suc.prems(3) by (simp add: JSI_ATOM_END_def)
  obtain s1 where s1: "atom_init E s (atom_name (Suc k)) (init_atom_type (Suc k)) = Some (Suc k, s1)" "init_inv (Suc k) s1"
    "finite (dom (strs s1))" using init_step_total [OF Suc.prems(1,2) k Suc.prems(4)] by blast
  then obtain s' where "init_loop n E s1 (names_from (Suc k)) = Some (0, s')" using Suc.IH [OF s1(2) Suc.prems(2) _ s1(3)] Suc.prems(3) by auto
  then show ?case using s1(1) i names_from_step [OF k] by simp
qed simp

lemma init_atoms_total:
  assumes "total_env E"
  shows "\<exists>s. JSI_InitAtoms E new_atom_rt = Some (0, s)"
proof -
  have E: "ae_hash E 256" using assms by (simp add: total_env_def)
  have "names_from 0 = jsi_atom_init" by (simp add: names_from_def jsi_atom_init_def)
  moreover have "(256 :: nat) AND (256 - 1) = 0" using and_pow2 [of 8] by simp
  moreover obtain s where "init_loop 225 E (new_atom_rt\<lparr>atom_hash := replicate 256 0, atom_hash_size := 256, atom_count_resize := 512\<rparr>) (names_from 0) = Some (0, s)"
    using init_loop_total [OF init_start assms, of 225] by (auto simp: new_atom_rt_def)
  ultimately show ?thesis using E
    by (simp add: JSI_InitAtoms_def JSI_ResizeAtomHash_def new_atom_rt_def JSI_ATOM_END_def Let_def)
qed

section \<open>Properties\<close>

lemma names_not_small: "0 < i \<Longrightarrow> i < 226 \<Longrightarrow> \<not> small_num (Str8 (atom_name i))"
proof (rule not_digit_not_small)
  assume i: "0 < i" "i < 226"
  have "list_all (\<lambda>bs. bs = [] \<or> \<not> (0x30 \<le> hd bs \<and> hd bs \<le> (0x39 :: u8))) (map (map of_char) atom_names)" by code_simp
  then show "atom_name i = [] \<or> \<not> (0x30 \<le> hd (atom_name i) \<and> hd (atom_name i) \<le> 0x39)"
    using i atom_names_length by (simp add: list_all_length atom_name_def)
qed

text \<open>C27: after initialisation the atom \<open>i\<close> is the \<open>i\<close>-th name of the table in \<^verbatim>\<open>quickjs-atom_i.h\<close>, a
  string for the keywords and identifiers and a symbol for the rest; and interning one of the
  string names, whenever, returns its constant.\<close>

theorem predefined_atoms:
  assumes "fresh_env E" and "JSI_InitAtoms E new_atom_rt = Some (0, s)" and "0 < i" and "i < JSI_ATOM_END"
    and "run atom_step s tr s'"
  shows "(\<exists>a p. atom_entry s i = Some (a, p) \<and> units (s_data p) = map of_char (atom_names ! (i - 1))
      \<and> atom_type p = (if i < JSI_ATOM_Private_brand then JSI_ATOM_TYPE_STRING else JSI_ATOM_TYPE_SYMBOL))
    \<and> (\<forall>v. i < JSI_ATOM_Private_brand \<longrightarrow> (map of_char (atom_names ! (i - 1)), v) \<in> set tr \<longrightarrow> v = i)"
proof -
  have inv: "init_inv 225 s" by (rule init_atoms_ok [OF assms(1,2)])
  then have ok: "table_ok {} s" by (simp add: init_inv_def)
  have i: "0 < i" "i \<le> 225" using assms(3,4) by (simp_all add: JSI_ATOM_END_def)
  then have "atom_entry s i \<noteq> None" using inv by (simp add: init_inv_def)
  then obtain a p where e: "atom_entry s i = Some (a, p)" by auto
  have p: "s_data p = Str8 (atom_name i)" "atom_type p = init_type i" using init_inv_entry [OF inv e] i by auto
  have ty: "init_type i = (if i < 212 then 1 else 3)"
    by (simp add: init_type_def init_atom_type_def JSI_ATOM_TYPE_STRING_def JSI_ATOM_TYPE_SYMBOL_def
      JSI_ATOM_TYPE_PRIVATE_def JSI_ATOM_Private_brand_def JSI_ATOM_Symbol_toPrimitive_def)
  have "v = i" if small: "i < 212" and v: "(map of_char (atom_names ! (i - 1)), v) \<in> set tr" for v
  proof -
    have "atom_key s i = Some (map of_char (atom_names ! (i - 1)))"
      using entry_key [OF ok e] p ty small names_not_small [of i] i atom_name_units by simp
    then have k: "atom_key s' i = Some (map of_char (atom_names ! (i - 1)))"
      by (rule atoms.run_keeps [OF assms(5) ok])
    have "table_ok {} s'" "atom_key s' v = Some (map of_char (atom_names ! (i - 1)))"
      using atoms.run_names [OF assms(5) ok] v by auto
    then show "v = i" using k atom_key_unique by blast
  qed
  then show ?thesis using e p ty atom_name_units
    by (auto simp: JSI_ATOM_Private_brand_def JSI_ATOM_TYPE_STRING_def JSI_ATOM_TYPE_SYMBOL_def)
qed

text \<open>An allocator that never fails on a finite store.\<close>

definition least_env :: atom_env where
  "least_env = \<lparr>ae_str = (\<lambda>st n. if finite (dom st) then Some (LEAST a. st a = None) else None),
     ae_array = (\<lambda>_. True), ae_hash = (\<lambda>_. True)\<rparr>"

lemma least_env_total: "total_env least_env"
proof -
  have "st (LEAST a. st a = None) = None" if fin: "finite (dom st)" for st :: "addr \<rightharpoonup> str_obj"
  proof -
    obtain a where "a \<notin> dom st" using ex_new_if_finite [OF infinite_UNIV_nat fin] by blast
    then show ?thesis by (intro LeastI [of "\<lambda>a. st a = None" a]) (simp add: domIff)
  qed
  then show ?thesis by (auto simp: total_env_def fresh_env_def least_env_def split: if_splits)
qed

lemma init_least: obtains s where "fresh_env least_env" "JSI_InitAtoms least_env new_atom_rt = Some (0, s)"
  using init_atoms_total [OF least_env_total] least_env_total by (auto simp: total_env_def)

theorem predefined_atoms_witness:
  "\<exists>s a p. JSI_InitAtoms least_env new_atom_rt = Some (0, s) \<and> atom_entry s 3 = Some (a, p)
     \<and> units (s_data p) = map of_char ''true'' \<and> atom_type p = JSI_ATOM_TYPE_STRING"
proof -
  obtain s where s: "fresh_env least_env" "JSI_InitAtoms least_env new_atom_rt = Some (0, s)" by (rule init_least)
  have "atom_names ! 2 = ''true''" by (simp add: atom_names_def)
  then show ?thesis
    using predefined_atoms [OF s, of 3 "[]" s] s(2) run_refl [of atom_step s]
    by (auto simp: JSI_ATOM_END_def JSI_ATOM_Private_brand_def)
qed



end
