(* ===== verification/QGc.thy ===== *)
theory QGc
  imports QPrelude
begin

text \<open>
  Reference counting and the cycle collector of the contract engine
  (\<^verbatim>\<open>src/src/qjsi/quickjs_i.c\<close>, lines 6744 to 7457, with the functions that mark and free contexts,
  modules, generators and bytecode). The heap maps the address of every object that is not freed to
  its header and its fields; of the fields the model keeps those that hold references to other
  objects of the collector. The lists of the runtime are lists of addresses: an object is in at most
  one of them, because they share its \<open>link\<close> field. The class of an object selects its functions in
  the table \<open>jsi_std_class_def\<close>; a function that reads the union of an object as another of its
  members is undefined. \<open>None\<close> is undefined behaviour, a failed assertion or a loop that does not end.
  Strings, atoms, the hash table of shapes, the list of contexts and the memory of arrays are not part
  of this state.
\<close>

section \<open>Data\<close>

type_synonym gaddr = nat

text \<open>A value: the three tags that \<open>JSI_MarkValue\<close> follows, and all others.\<close>

datatype gc_value = VObject gaddr | VFunctionBytecode gaddr | VModule gaddr | VOther

text \<open>A property with the union \<open>u\<close> that its flags select; a deleted one has the atom
  \<open>JSI_ATOM_NULL\<close>, no flags and the value \<open>undefined\<close>.\<close>

datatype gc_prop =
    PDeleted
  | PValue gc_value
  | PGetSet "gaddr option" "gaddr option"
  | PVarRef gaddr
  | PAutoInit gaddr

text \<open>The union of an object. Pointers that may be null are options.\<close>

datatype obj_u =
    UOpaque
  | UArray "gc_value list"
  | UObjectData gc_value
  | UCFunc "gaddr option"
  | UFunc "gaddr option" "gaddr option list option" "gaddr option"
  | UBound gc_value gc_value "gc_value list"
  | UCFunctionData "gc_value list option"
  | UForIn gc_value
  | UArrayIterator "gc_value option"
  | UGenerator "(bool \<times> gaddr option) option"

record jsi_object =
  o_free_mark :: bool
  o_shape :: "gaddr option"
  o_prop :: "gc_prop list"
  o_class_id :: nat
  o_u :: obj_u
  o_weakref_count :: nat

record async_func =
  is_completed :: bool
  cur_func :: gc_value
  this_val :: gc_value
  cur_sp :: "gc_value list option"
  resolving_funcs :: "gc_value list"

record jsi_context =
  loaded_modules :: "gaddr list"
  global_obj :: gc_value
  global_var_obj :: gc_value
  throw_type_error :: gc_value
  eval_obj :: gc_value
  array_proto_values :: gc_value
  native_error_proto :: "gc_value list"
  class_proto :: "gc_value list"
  iterator_proto :: gc_value
  async_iterator_proto :: gc_value
  array_ctor :: gc_value
  function_ctor :: gc_value
  function_proto :: gc_value
  array_shape :: "gaddr option"

text \<open>\<open>m_link\<close> is the context in whose list the module is, if any; the exports are the variables of
  the local ones and \<open>None\<close> for the others.\<close>

record jsi_module =
  m_link :: "gaddr option"
  m_req_attributes :: "gc_value list"
  m_exports :: "gaddr option list"
  m_module_ns :: gc_value
  m_func_obj :: gc_value
  m_eval_exception :: gc_value
  m_meta_obj :: gc_value
  m_promise :: gc_value
  m_resolving_funcs :: "gc_value list"
  m_private_value :: gc_value

text \<open>A closure variable holds its value, or is still on the stack, perhaps of an async function.\<close>

datatype gc_data =
    GObject jsi_object
  | GFunctionBytecode "gc_value list" "gaddr option"
  | GShape "gaddr option"
  | GDetached gc_value
  | GOnStack "gaddr option"
  | GAsync async_func
  | GContext jsi_context
  | GModule jsi_module

datatype gc_obj_type =
    TYPE_JSI_OBJECT | TYPE_FUNCTION_BYTECODE | TYPE_SHAPE | TYPE_VAR_REF
  | TYPE_ASYNC_FUNCTION | TYPE_JSI_CONTEXT | TYPE_MODULE

record gc_obj =
  g_ref_count :: int
  g_type :: gc_obj_type
  g_mark :: nat
  g_data :: gc_data

datatype gc_phase_enum = PHASE_NONE | PHASE_DECREF | PHASE_REMOVE_CYCLES

record gc_rt =
  gc_obj_list :: "gaddr list"
  gc_zero_ref_count_list :: "gaddr list"
  tmp_obj_list :: "gaddr list"
  gc_phase :: gc_phase_enum
  gheap :: "gaddr \<rightharpoonup> gc_obj"

section \<open>Classes\<close>

definition JSI_CLASS_OBJECT :: nat where "JSI_CLASS_OBJECT = 1"
definition JSI_CLASS_C_FUNCTION_DATA :: nat where "JSI_CLASS_C_FUNCTION_DATA = 15"
definition JSI_CLASS_STRING_ITERATOR :: nat where "JSI_CLASS_STRING_ITERATOR = 20"
definition JSI_CLASS_GENERATOR :: nat where "JSI_CLASS_GENERATOR = 22"

text \<open>The pairs of a finalizer and a mark function, and the table of them from
  \<open>JSI_CLASS_OBJECT\<close> on.\<close>

datatype class_fun =
    NoFun | ArrayFun | ObjectDataFun | CFunctionFun | BytecodeFunctionFun | BoundFunctionFun
  | CFunctionDataFun | ForInIteratorFun | ArrayIteratorFun | GeneratorFun

definition jsi_std_class_def :: "class_fun list" where
  "jsi_std_class_def =
     [NoFun, ArrayFun, NoFun, ObjectDataFun, ObjectDataFun, ObjectDataFun, ObjectDataFun, ArrayFun, NoFun,
      ObjectDataFun, NoFun, CFunctionFun, BytecodeFunctionFun, BoundFunctionFun, CFunctionDataFun,
      BytecodeFunctionFun, ForInIteratorFun, ArrayIteratorFun, ArrayIteratorFun, GeneratorFun]"

definition class_array :: "nat \<Rightarrow> class_fun" where
  "class_array class_id =
     (if JSI_CLASS_OBJECT \<le> class_id \<and> class_id - JSI_CLASS_OBJECT < length jsi_std_class_def
      then jsi_std_class_def ! (class_id - JSI_CLASS_OBJECT) else NoFun)"

section \<open>Marking\<close>

text \<open>A mark function is modelled by the sequence of headers that it passes to \<open>mark_func\<close>, which
  changes only counts, marks and lists.\<close>

fun JSI_MarkValue :: "gc_value \<Rightarrow> gaddr list" where
  "JSI_MarkValue (VObject a) = [a]"
| "JSI_MarkValue (VFunctionBytecode a) = [a]"
| "JSI_MarkValue (VModule a) = [a]"
| "JSI_MarkValue VOther = []"

abbreviation mark_values :: "gc_value list \<Rightarrow> gaddr list" where
  "mark_values vs \<equiv> concat (map JSI_MarkValue vs)"

fun mark_opt :: "gaddr option \<Rightarrow> gaddr list" where
  "mark_opt None = []"
| "mark_opt (Some a) = [a]"

fun mark_prop :: "gc_prop \<Rightarrow> gaddr list" where
  "mark_prop PDeleted = []"
| "mark_prop (PValue v) = JSI_MarkValue v"
| "mark_prop (PGetSet g t) = mark_opt g @ mark_opt t"
| "mark_prop (PVarRef a) = [a]"
| "mark_prop (PAutoInit a) = [a]"

fun jsi_array_mark :: "obj_u \<Rightarrow> gaddr list option" where
  "jsi_array_mark (UArray vs) = Some (mark_values vs)"
| "jsi_array_mark _ = None"

fun jsi_object_data_mark :: "obj_u \<Rightarrow> gaddr list option" where
  "jsi_object_data_mark (UObjectData v) = Some (JSI_MarkValue v)"
| "jsi_object_data_mark _ = None"

fun jsi_c_function_mark :: "obj_u \<Rightarrow> gaddr list option" where
  "jsi_c_function_mark (UCFunc realm) = Some (mark_opt realm)"
| "jsi_c_function_mark _ = None"

fun jsi_bytecode_function_mark :: "obj_u \<Rightarrow> gaddr list option" where
  "jsi_bytecode_function_mark (UFunc home_object var_refs b) =
     Some (mark_opt home_object @
       (case b of None \<Rightarrow> []
        | Some a \<Rightarrow> (case var_refs of None \<Rightarrow> [] | Some vs \<Rightarrow> concat (map mark_opt vs)) @ [a]))"
| "jsi_bytecode_function_mark _ = None"

fun jsi_bound_function_mark :: "obj_u \<Rightarrow> gaddr list option" where
  "jsi_bound_function_mark (UBound f this argv) = Some (mark_values (f # this # argv))"
| "jsi_bound_function_mark _ = None"

text \<open>\<open>JSI_GetOpaque\<close> returns the pointer only to an object of the given class.\<close>

fun jsi_c_function_data_mark :: "nat \<Rightarrow> obj_u \<Rightarrow> gaddr list option" where
  "jsi_c_function_data_mark class_id (UCFunctionData s) =
     Some (if class_id \<noteq> JSI_CLASS_C_FUNCTION_DATA then []
           else (case s of None \<Rightarrow> [] | Some vs \<Rightarrow> mark_values vs))"
| "jsi_c_function_data_mark class_id _ = (if class_id \<noteq> JSI_CLASS_C_FUNCTION_DATA then Some [] else None)"

fun jsi_for_in_iterator_mark :: "obj_u \<Rightarrow> gaddr list option" where
  "jsi_for_in_iterator_mark (UForIn v) = Some (JSI_MarkValue v)"
| "jsi_for_in_iterator_mark _ = None"

fun jsi_array_iterator_mark :: "obj_u \<Rightarrow> gaddr list option" where
  "jsi_array_iterator_mark (UArrayIterator it) = Some (case it of None \<Rightarrow> [] | Some v \<Rightarrow> JSI_MarkValue v)"
| "jsi_array_iterator_mark _ = None"

text \<open>The pointer is read without a test of the class; a null pointer of an iterator is a null
  pointer here too.\<close>

fun jsi_generator_mark :: "obj_u \<Rightarrow> gaddr list option" where
  "jsi_generator_mark (UGenerator s) = Some (case s of None \<Rightarrow> [] | Some (_, f) \<Rightarrow> mark_opt f)"
| "jsi_generator_mark (UArrayIterator None) = Some []"
| "jsi_generator_mark _ = None"

fun gc_mark :: "class_fun \<Rightarrow> nat \<Rightarrow> obj_u \<Rightarrow> gaddr list option" where
  "gc_mark NoFun _ u = Some []"
| "gc_mark ArrayFun _ u = jsi_array_mark u"
| "gc_mark ObjectDataFun _ u = jsi_object_data_mark u"
| "gc_mark CFunctionFun _ u = jsi_c_function_mark u"
| "gc_mark BytecodeFunctionFun _ u = jsi_bytecode_function_mark u"
| "gc_mark BoundFunctionFun _ u = jsi_bound_function_mark u"
| "gc_mark CFunctionDataFun class_id u = jsi_c_function_data_mark class_id u"
| "gc_mark ForInIteratorFun _ u = jsi_for_in_iterator_mark u"
| "gc_mark ArrayIteratorFun _ u = jsi_array_iterator_mark u"
| "gc_mark GeneratorFun _ u = jsi_generator_mark u"

definition mark_object :: "jsi_object \<Rightarrow> gaddr list option" where
  "mark_object p = do {
     sh \<leftarrow> o_shape p;
     us \<leftarrow> (if o_class_id p \<noteq> JSI_CLASS_OBJECT
            then gc_mark (class_array (o_class_id p)) (o_class_id p) (o_u p) else Some []);
     Some (sh # concat (map mark_prop (o_prop p)) @ us) }"

text \<open>The variables of a running function (\<open>cur_sp\<close> is null) are not marked.\<close>

definition mark_async :: "async_func \<Rightarrow> gaddr list" where
  "mark_async s =
     (if is_completed s then []
      else JSI_MarkValue (cur_func s) @ JSI_MarkValue (this_val s) @
        (case cur_sp s of None \<Rightarrow> [] | Some vs \<Rightarrow> mark_values vs)) @
     mark_values (resolving_funcs s)"

definition JSI_MarkContext :: "jsi_context \<Rightarrow> gaddr list" where
  "JSI_MarkContext ctx =
     loaded_modules ctx @
     mark_values ([global_obj ctx, global_var_obj ctx, throw_type_error ctx, eval_obj ctx,
       array_proto_values ctx] @ native_error_proto ctx @ class_proto ctx @
       [iterator_proto ctx, async_iterator_proto ctx, array_ctor ctx, function_ctor ctx,
        function_proto ctx]) @
     mark_opt (array_shape ctx)"

definition jsi_mark_module_def :: "jsi_module \<Rightarrow> gaddr list" where
  "jsi_mark_module_def m =
     mark_values (m_req_attributes m) @ concat (map mark_opt (m_exports m)) @
     mark_values ([m_module_ns m, m_func_obj m, m_eval_exception m, m_meta_obj m, m_promise m] @
       m_resolving_funcs m @ [m_private_value m])"

fun mark_children :: "gc_data \<Rightarrow> gaddr list option" where
  "mark_children (GObject p) = mark_object p"
| "mark_children (GFunctionBytecode cpool realm) = Some (mark_values cpool @ mark_opt realm)"
| "mark_children (GShape proto) = Some (mark_opt proto)"
| "mark_children (GDetached v) = Some (JSI_MarkValue v)"
| "mark_children (GOnStack async_func) = Some (mark_opt async_func)"
| "mark_children (GAsync s) = Some (mark_async s)"
| "mark_children (GContext ctx) = Some (JSI_MarkContext ctx)"
| "mark_children (GModule m) = Some (jsi_mark_module_def m)"

section \<open>Lists and counts\<close>

text \<open>A loop that may fail, over a list.\<close>

fun foldm :: "('a \<Rightarrow> 's \<Rightarrow> 's option) \<Rightarrow> 'a list \<Rightarrow> 's \<Rightarrow> 's option" where
  "foldm f [] s = Some s"
| "foldm f (x # xs) s = do { s \<leftarrow> f x s; foldm f xs s }"

definition upd_obj :: "gaddr \<Rightarrow> (gc_obj \<Rightarrow> gc_obj) \<Rightarrow> gc_rt \<Rightarrow> gc_rt" where
  "upd_obj a f s = s\<lparr>gheap := (gheap s)(a := map_option f (gheap s a))\<rparr>"

definition add_count :: "int \<Rightarrow> gc_obj \<Rightarrow> gc_obj" where
  "add_count d p = p\<lparr>g_ref_count := g_ref_count p + d\<rparr>"

definition set_mark :: "nat \<Rightarrow> gc_obj \<Rightarrow> gc_obj" where
  "set_mark m p = p\<lparr>g_mark := m\<rparr>"

definition set_data :: "gc_data \<Rightarrow> gc_obj \<Rightarrow> gc_obj" where
  "set_data d p = p\<lparr>g_data := d\<rparr>"

text \<open>\<open>list_del(&p->link)\<close>: from the list that the object is in.\<close>

definition list_del :: "gaddr \<Rightarrow> gc_rt \<Rightarrow> gc_rt option" where
  "list_del a s =
     (if a \<in> set (gc_obj_list s) then Some (s\<lparr>gc_obj_list := remove1 a (gc_obj_list s)\<rparr>)
      else if a \<in> set (tmp_obj_list s) then Some (s\<lparr>tmp_obj_list := remove1 a (tmp_obj_list s)\<rparr>)
      else if a \<in> set (gc_zero_ref_count_list s)
        then Some (s\<lparr>gc_zero_ref_count_list := remove1 a (gc_zero_ref_count_list s)\<rparr>)
      else None)"

definition jsi_free_obj :: "gaddr \<Rightarrow> gc_rt \<Rightarrow> gc_rt" where
  "jsi_free_obj a s = s\<lparr>gheap := (gheap s)(a := None)\<rparr>"

text \<open>The successor in a list; \<open>None\<close> when the element is not in it.\<close>

fun list_next :: "gaddr \<Rightarrow> gaddr list \<Rightarrow> gaddr option option" where
  "list_next a [] = None"
| "list_next a (b # bs) = (if a = b then Some (case bs of [] \<Rightarrow> None | c # _ \<Rightarrow> Some c) else list_next a bs)"

abbreviation list_first :: "gaddr list \<Rightarrow> gaddr option" where
  "list_first xs \<equiv> (case xs of [] \<Rightarrow> None | a # _ \<Rightarrow> Some a)"

definition add_gc_object :: "gaddr \<Rightarrow> gc_obj_type \<Rightarrow> gc_rt \<Rightarrow> gc_rt" where
  "add_gc_object a ty s =
     (upd_obj a (\<lambda>p. p\<lparr>g_mark := 0, g_type := ty\<rparr>) s)\<lparr>gc_obj_list := gc_obj_list s @ [a]\<rparr>"

fun JSI_DupValue :: "gc_value \<Rightarrow> gc_rt \<Rightarrow> gc_rt option" where
  "JSI_DupValue v s = (case JSI_MarkValue v of
     [] \<Rightarrow> Some s
   | a # _ \<Rightarrow> do { p \<leftarrow> gheap s a; Some (upd_obj a (add_count 1) s) })"

section \<open>The three passes\<close>

definition visit_children :: "(gaddr \<Rightarrow> gc_rt \<Rightarrow> gc_rt option) \<Rightarrow> gaddr \<Rightarrow> gc_rt \<Rightarrow> gc_rt option" where
  "visit_children f a s = do {
     p \<leftarrow> gheap s a;
     cs \<leftarrow> mark_children (g_data p);
     foldm f cs s }"

definition move_to_tmp :: "gaddr \<Rightarrow> gc_rt \<Rightarrow> gc_rt option" where
  "move_to_tmp a s = do { s \<leftarrow> list_del a s; Some (s\<lparr>tmp_obj_list := tmp_obj_list s @ [a]\<rparr>) }"

definition gc_decref_child :: "gaddr \<Rightarrow> gc_rt \<Rightarrow> gc_rt option" where
  "gc_decref_child a s = do {
     p \<leftarrow> gheap s a;
     if \<not> 0 < g_ref_count p then None
     else
       let s = upd_obj a (add_count (- 1)) s in
       if g_ref_count p - 1 = 0 \<and> g_mark p = 1 then move_to_tmp a s else Some s }"

text \<open>The body of the loop of \<open>gc_decref\<close>.\<close>

definition gc_decref_obj :: "gaddr \<Rightarrow> gc_rt \<Rightarrow> gc_rt option" where
  "gc_decref_obj a s = do {
     p \<leftarrow> gheap s a;
     if g_mark p \<noteq> 0 then None
     else do {
       s \<leftarrow> visit_children gc_decref_child a s;
       let s = upd_obj a (set_mark 1) s;
       p \<leftarrow> gheap s a;
       if g_ref_count p = 0 then move_to_tmp a s else Some s } }"

text \<open>\<open>list_for_each_safe\<close>: the successor is read before the body.\<close>

partial_function (option) gc_decref_loop :: "gaddr option \<Rightarrow> gc_rt \<Rightarrow> gc_rt option" where
  "gc_decref_loop el s =
     (case el of
        None \<Rightarrow> Some s
      | Some a \<Rightarrow> do {
          el1 \<leftarrow> list_next a (gc_obj_list s);
          s \<leftarrow> gc_decref_obj a s;
          gc_decref_loop el1 s })"

declare gc_decref_loop.simps [code]

definition gc_decref :: "gc_rt \<Rightarrow> gc_rt option" where
  "gc_decref s = gc_decref_loop (list_first (gc_obj_list s)) (s\<lparr>tmp_obj_list := []\<rparr>)"

definition gc_scan_incref_child :: "gaddr \<Rightarrow> gc_rt \<Rightarrow> gc_rt option" where
  "gc_scan_incref_child a s = do {
     p \<leftarrow> gheap s a;
     let s = upd_obj a (add_count 1) s;
     if g_ref_count p + 1 = 1 then do {
       s \<leftarrow> list_del a s;
       Some (upd_obj a (set_mark 0) (s\<lparr>gc_obj_list := gc_obj_list s @ [a]\<rparr>)) }
     else Some s }"

definition gc_scan_incref_child2 :: "gaddr \<Rightarrow> gc_rt \<Rightarrow> gc_rt option" where
  "gc_scan_incref_child2 a s = do { p \<leftarrow> gheap s a; Some (upd_obj a (add_count 1) s) }"

definition gc_scan_obj :: "gaddr \<Rightarrow> gc_rt \<Rightarrow> gc_rt option" where
  "gc_scan_obj a s = do {
     p \<leftarrow> gheap s a;
     if \<not> 0 < g_ref_count p then None
     else visit_children gc_scan_incref_child a (upd_obj a (set_mark 0) s) }"

text \<open>\<open>list_for_each\<close>: the successor is read after the body, which may have appended to the list.\<close>

partial_function (option) gc_scan_loop :: "gaddr option \<Rightarrow> gc_rt \<Rightarrow> gc_rt option" where
  "gc_scan_loop el s =
     (case el of
        None \<Rightarrow> Some s
      | Some a \<Rightarrow> do {
          s \<leftarrow> gc_scan_obj a s;
          el \<leftarrow> list_next a (gc_obj_list s);
          gc_scan_loop el s })"

declare gc_scan_loop.simps [code]

partial_function (option) gc_restore_loop :: "gaddr option \<Rightarrow> gc_rt \<Rightarrow> gc_rt option" where
  "gc_restore_loop el s =
     (case el of
        None \<Rightarrow> Some s
      | Some a \<Rightarrow> do {
          s \<leftarrow> visit_children gc_scan_incref_child2 a s;
          el \<leftarrow> list_next a (tmp_obj_list s);
          gc_restore_loop el s })"

declare gc_restore_loop.simps [code]

definition gc_scan :: "gc_rt \<Rightarrow> gc_rt option" where
  "gc_scan s = do {
     s \<leftarrow> gc_scan_loop (list_first (gc_obj_list s)) s;
     gc_restore_loop (list_first (tmp_obj_list s)) s }"

section \<open>Freeing\<close>

text \<open>The references that the fields of an object hold, with the function that gives them up.\<close>

datatype gref = RValue gaddr | RShape gaddr | RVarRef gaddr | RContext gaddr | RAsync gaddr

abbreviation free_values :: "gc_value list \<Rightarrow> gref list" where
  "free_values vs \<equiv> map RValue (mark_values vs)"

fun free_opt :: "(gaddr \<Rightarrow> gref) \<Rightarrow> gaddr option \<Rightarrow> gref list" where
  "free_opt r None = []"
| "free_opt r (Some a) = [r a]"

fun free_property :: "gc_prop \<Rightarrow> gref list" where
  "free_property PDeleted = []"
| "free_property (PValue v) = free_values [v]"
| "free_property (PGetSet g t) = free_opt RValue g @ free_opt RValue t"
| "free_property (PVarRef a) = [RVarRef a]"
| "free_property (PAutoInit a) = [RContext a]"

fun jsi_array_finalizer :: "obj_u \<Rightarrow> gref list option" where
  "jsi_array_finalizer (UArray vs) = Some (free_values vs)"
| "jsi_array_finalizer _ = None"

fun jsi_object_data_finalizer :: "obj_u \<Rightarrow> gref list option" where
  "jsi_object_data_finalizer (UObjectData v) = Some (free_values [v])"
| "jsi_object_data_finalizer _ = None"

fun jsi_c_function_finalizer :: "obj_u \<Rightarrow> gref list option" where
  "jsi_c_function_finalizer (UCFunc realm) = Some (free_opt RContext realm)"
| "jsi_c_function_finalizer _ = None"

fun jsi_bytecode_function_finalizer :: "obj_u \<Rightarrow> gref list option" where
  "jsi_bytecode_function_finalizer (UFunc home_object var_refs b) =
     Some (free_opt RValue home_object @
       (case b of None \<Rightarrow> []
        | Some a \<Rightarrow> (case var_refs of None \<Rightarrow> [] | Some vs \<Rightarrow> concat (map (free_opt RVarRef) vs)) @ [RValue a]))"
| "jsi_bytecode_function_finalizer _ = None"

fun jsi_bound_function_finalizer :: "obj_u \<Rightarrow> gref list option" where
  "jsi_bound_function_finalizer (UBound f this argv) = Some (free_values (f # this # argv))"
| "jsi_bound_function_finalizer _ = None"

fun jsi_c_function_data_finalizer :: "nat \<Rightarrow> obj_u \<Rightarrow> gref list option" where
  "jsi_c_function_data_finalizer class_id (UCFunctionData s) =
     Some (if class_id \<noteq> JSI_CLASS_C_FUNCTION_DATA then []
           else (case s of None \<Rightarrow> [] | Some vs \<Rightarrow> free_values vs))"
| "jsi_c_function_data_finalizer class_id _ = (if class_id \<noteq> JSI_CLASS_C_FUNCTION_DATA then Some [] else None)"

fun jsi_for_in_iterator_finalizer :: "obj_u \<Rightarrow> gref list option" where
  "jsi_for_in_iterator_finalizer (UForIn v) = Some (free_values [v])"
| "jsi_for_in_iterator_finalizer _ = None"

fun jsi_array_iterator_finalizer :: "obj_u \<Rightarrow> gref list option" where
  "jsi_array_iterator_finalizer (UArrayIterator it) = Some (case it of None \<Rightarrow> [] | Some v \<Rightarrow> free_values [v])"
| "jsi_array_iterator_finalizer _ = None"

text \<open>\<open>free_generator_stack_rt\<close> does nothing for a generator that has completed.\<close>

fun jsi_generator_finalizer :: "nat \<Rightarrow> obj_u \<Rightarrow> gref list option" where
  "jsi_generator_finalizer class_id (UGenerator s) =
     Some (if class_id \<noteq> JSI_CLASS_GENERATOR then []
           else (case s of None \<Rightarrow> [] | Some (completed, f) \<Rightarrow> if completed then [] else free_opt RAsync f))"
| "jsi_generator_finalizer class_id _ = (if class_id \<noteq> JSI_CLASS_GENERATOR then Some [] else None)"

fun class_finalizer :: "class_fun \<Rightarrow> nat \<Rightarrow> obj_u \<Rightarrow> gref list option" where
  "class_finalizer NoFun _ u = Some []"
| "class_finalizer ArrayFun _ u = jsi_array_finalizer u"
| "class_finalizer ObjectDataFun _ u = jsi_object_data_finalizer u"
| "class_finalizer CFunctionFun _ u = jsi_c_function_finalizer u"
| "class_finalizer BytecodeFunctionFun _ u = jsi_bytecode_function_finalizer u"
| "class_finalizer BoundFunctionFun _ u = jsi_bound_function_finalizer u"
| "class_finalizer CFunctionDataFun class_id u = jsi_c_function_data_finalizer class_id u"
| "class_finalizer ForInIteratorFun _ u = jsi_for_in_iterator_finalizer u"
| "class_finalizer ArrayIteratorFun _ u = jsi_array_iterator_finalizer u"
| "class_finalizer GeneratorFun class_id u = jsi_generator_finalizer class_id u"

text \<open>An object whose count is zero waits in \<open>gc_zero_ref_count_list\<close>; outside of every phase the
  list is emptied at once, by the argument \<open>fz\<close> (\<open>free_zero_refcount\<close>). During the removal of cycles
  nothing is done: the object is going to be freed anyway.\<close>

definition queue_zero :: "(gc_rt \<Rightarrow> gc_rt option) \<Rightarrow> bool \<Rightarrow> gaddr \<Rightarrow> gc_rt \<Rightarrow> gc_rt option" where
  "queue_zero fz m a s =
     (if gc_phase s = PHASE_REMOVE_CYCLES then Some s
      else do {
        s \<leftarrow> list_del a s;
        let s = s\<lparr>gc_zero_ref_count_list := a # gc_zero_ref_count_list s\<rparr>;
        let s = (if m then upd_obj a (set_mark 1) s else s);
        if gc_phase s = PHASE_NONE then fz s else Some s })"

definition free_value_rt :: "(gc_rt \<Rightarrow> gc_rt option) \<Rightarrow> gaddr \<Rightarrow> gc_rt \<Rightarrow> gc_rt option" where
  "free_value_rt fz a s = do {
     p \<leftarrow> gheap s a;
     let s = upd_obj a (add_count (- 1)) s;
     if g_ref_count p - 1 \<le> 0 then queue_zero fz True a s else Some s }"

definition async_func_free :: "(gc_rt \<Rightarrow> gc_rt option) \<Rightarrow> gaddr \<Rightarrow> gc_rt \<Rightarrow> gc_rt option" where
  "async_func_free fz a s = do {
     p \<leftarrow> gheap s a;
     let s = upd_obj a (add_count (- 1)) s;
     if g_ref_count p - 1 = 0 then queue_zero fz False a s else Some s }"

definition jsi_free_shape0 :: "(gc_rt \<Rightarrow> gc_rt option) \<Rightarrow> gaddr \<Rightarrow> gc_rt \<Rightarrow> gc_rt option" where
  "jsi_free_shape0 fz a s = do {
     p \<leftarrow> gheap s a;
     if g_ref_count p \<noteq> 0 then None
     else (case g_data p of
         GShape proto \<Rightarrow> do {
           s \<leftarrow> foldm (free_value_rt fz) (mark_opt proto) s;
           s \<leftarrow> list_del a s;
           Some (jsi_free_obj a s) }
       | _ \<Rightarrow> None) }"

definition jsi_free_shape :: "(gc_rt \<Rightarrow> gc_rt option) \<Rightarrow> gaddr \<Rightarrow> gc_rt \<Rightarrow> gc_rt option" where
  "jsi_free_shape fz a s = do {
     p \<leftarrow> gheap s a;
     let s = upd_obj a (add_count (- 1)) s;
     if g_ref_count p - 1 \<le> 0 then jsi_free_shape0 fz a s else Some s }"

definition free_var_ref :: "(gc_rt \<Rightarrow> gc_rt option) \<Rightarrow> gaddr \<Rightarrow> gc_rt \<Rightarrow> gc_rt option" where
  "free_var_ref fz a s = do {
     p \<leftarrow> gheap s a;
     if \<not> 0 < g_ref_count p then None
     else
       let s = upd_obj a (add_count (- 1)) s in
       if g_ref_count p - 1 = 0 then do {
         s \<leftarrow> (case g_data p of
                 GDetached v \<Rightarrow> foldm (free_value_rt fz) (JSI_MarkValue v) s
               | GOnStack f \<Rightarrow> foldm (async_func_free fz) (mark_opt f) s
               | _ \<Rightarrow> None);
         s \<leftarrow> list_del a s;
         Some (jsi_free_obj a s) }
       else Some s }"

text \<open>\<open>list_del(&m->link)\<close>: the module leaves the list of its context.\<close>

definition module_unlink :: "gaddr \<Rightarrow> gc_rt \<Rightarrow> gc_rt option" where
  "module_unlink m s = do {
     p \<leftarrow> gheap s m;
     (case g_data p of
        GModule d \<Rightarrow> do {
          c \<leftarrow> m_link d;
          q \<leftarrow> gheap s c;
          (case g_data q of
             GContext ctx \<Rightarrow>
               if m \<in> set (loaded_modules ctx) then
                 Some (upd_obj m (set_data (GModule (d\<lparr>m_link := None\<rparr>)))
                   (upd_obj c (set_data (GContext (ctx\<lparr>loaded_modules := remove1 m (loaded_modules ctx)\<rparr>))) s))
               else None
           | _ \<Rightarrow> None) }
      | _ \<Rightarrow> None) }"

definition jsi_free_modules :: "(gc_rt \<Rightarrow> gc_rt option) \<Rightarrow> jsi_context \<Rightarrow> gc_rt \<Rightarrow> gc_rt option" where
  "jsi_free_modules fz ctx =
     foldm (\<lambda>m s. do { s \<leftarrow> module_unlink m s; free_value_rt fz m s }) (loaded_modules ctx)"

definition JSI_FreeContext :: "(gc_rt \<Rightarrow> gc_rt option) \<Rightarrow> gaddr \<Rightarrow> gc_rt \<Rightarrow> gc_rt option" where
  "JSI_FreeContext fz a s = do {
     p \<leftarrow> gheap s a;
     let s = upd_obj a (add_count (- 1)) s;
     if 0 < g_ref_count p - 1 then Some s
     else if g_ref_count p - 1 \<noteq> 0 then None
     else (case g_data p of
         GContext ctx \<Rightarrow> do {
           s \<leftarrow> jsi_free_modules fz ctx s;
           s \<leftarrow> foldm (free_value_rt fz) (mark_values ([global_obj ctx, global_var_obj ctx,
                  throw_type_error ctx, eval_obj ctx, array_proto_values ctx] @ native_error_proto ctx @
                  class_proto ctx @ [iterator_proto ctx, async_iterator_proto ctx, array_ctor ctx,
                  function_ctor ctx, function_proto ctx])) s;
           s \<leftarrow> foldm (jsi_free_shape fz) (mark_opt (array_shape ctx)) s;
           s \<leftarrow> list_del a s;
           Some (jsi_free_obj a s) }
       | _ \<Rightarrow> None) }"

fun release :: "(gc_rt \<Rightarrow> gc_rt option) \<Rightarrow> gref \<Rightarrow> gc_rt \<Rightarrow> gc_rt option" where
  "release fz (RValue a) s = free_value_rt fz a s"
| "release fz (RShape a) s = jsi_free_shape fz a s"
| "release fz (RVarRef a) s = free_var_ref fz a s"
| "release fz (RContext a) s = JSI_FreeContext fz a s"
| "release fz (RAsync a) s = async_func_free fz a s"

text \<open>The functions that free the objects with identity. The structure of an object that others
  still refer to is kept until the end of the removal of cycles.\<close>

definition free_object :: "(gc_rt \<Rightarrow> gc_rt option) \<Rightarrow> gaddr \<Rightarrow> jsi_object \<Rightarrow> gc_rt \<Rightarrow> gc_rt option" where
  "free_object fz a p s = do {
     let s = upd_obj a (set_data (GObject (p\<lparr>o_free_mark := True\<rparr>))) s;
     sh \<leftarrow> o_shape p;
     s \<leftarrow> foldm (release fz) (concat (map free_property (o_prop p))) s;
     s \<leftarrow> jsi_free_shape fz sh s;
     rs \<leftarrow> class_finalizer (class_array (o_class_id p)) (o_class_id p) (o_u p);
     s \<leftarrow> foldm (release fz) rs s;
     let s = upd_obj a (set_data (GObject (p\<lparr>o_free_mark := True, o_shape := None, o_prop := [],
       o_class_id := 0, o_u := UOpaque\<rparr>))) s;
     s \<leftarrow> list_del a s;
     h \<leftarrow> gheap s a;
     Some (if gc_phase s = PHASE_REMOVE_CYCLES then
             (if g_ref_count h = 0 \<and> o_weakref_count p = 0 then jsi_free_obj a s
              else s\<lparr>gc_zero_ref_count_list := gc_zero_ref_count_list s @ [a]\<rparr>)
           else if o_weakref_count p = 0 then jsi_free_obj a s
           else upd_obj a (set_mark 0) s) }"

text \<open>The end that the other three functions share.\<close>

definition free_struct :: "gaddr \<Rightarrow> gc_rt \<Rightarrow> gc_rt option" where
  "free_struct a s = do {
     s \<leftarrow> list_del a s;
     h \<leftarrow> gheap s a;
     Some (if gc_phase s = PHASE_REMOVE_CYCLES \<and> g_ref_count h \<noteq> 0
           then s\<lparr>gc_zero_ref_count_list := gc_zero_ref_count_list s @ [a]\<rparr>
           else jsi_free_obj a s) }"

definition free_function_bytecode ::
  "(gc_rt \<Rightarrow> gc_rt option) \<Rightarrow> gaddr \<Rightarrow> gc_value list \<Rightarrow> gaddr option \<Rightarrow> gc_rt \<Rightarrow> gc_rt option" where
  "free_function_bytecode fz a cpool realm s = do {
     s \<leftarrow> foldm (release fz) (free_values cpool @ free_opt RContext realm) s;
     free_struct a s }"

text \<open>A function that has not completed has its frame (\<open>arg_buf\<close> is not null); \<open>cur_sp\<close> is null while it runs.\<close>

definition async_func_free_frame :: "(gc_rt \<Rightarrow> gc_rt option) \<Rightarrow> async_func \<Rightarrow> gc_rt \<Rightarrow> gc_rt option" where
  "async_func_free_frame fz f s = do {
     vs \<leftarrow> cur_sp f;
     foldm (release fz) (free_values (vs @ [cur_func f, this_val f])) s }"

definition async_func_free_state :: "(gc_rt \<Rightarrow> gc_rt option) \<Rightarrow> gaddr \<Rightarrow> async_func \<Rightarrow> gc_rt \<Rightarrow> gc_rt option" where
  "async_func_free_state fz a f s = do {
     s \<leftarrow> (if is_completed f then Some s else async_func_free_frame fz f s);
     s \<leftarrow> foldm (release fz) (free_values (resolving_funcs f)) s;
     free_struct a s }"

definition jsi_free_module_def :: "(gc_rt \<Rightarrow> gc_rt option) \<Rightarrow> gaddr \<Rightarrow> jsi_module \<Rightarrow> gc_rt \<Rightarrow> gc_rt option" where
  "jsi_free_module_def fz a m s = do {
     s \<leftarrow> foldm (release fz) (free_values (m_req_attributes m) @
            concat (map (free_opt RVarRef) (m_exports m)) @
            free_values ([m_module_ns m, m_func_obj m, m_eval_exception m, m_meta_obj m, m_promise m] @
              m_resolving_funcs m @ [m_private_value m])) s;
     p \<leftarrow> gheap s a;
     s \<leftarrow> (case g_data p of
             GModule d \<Rightarrow> if m_link d \<noteq> None then module_unlink a s else Some s
           | _ \<Rightarrow> None);
     free_struct a s }"

definition free_gc_object :: "(gc_rt \<Rightarrow> gc_rt option) \<Rightarrow> gaddr \<Rightarrow> gc_rt \<Rightarrow> gc_rt option" where
  "free_gc_object fz a s = do {
     p \<leftarrow> gheap s a;
     (case (g_type p, g_data p) of
        (TYPE_JSI_OBJECT, GObject d) \<Rightarrow> free_object fz a d s
      | (TYPE_FUNCTION_BYTECODE, GFunctionBytecode cpool realm) \<Rightarrow> free_function_bytecode fz a cpool realm s
      | (TYPE_ASYNC_FUNCTION, GAsync f) \<Rightarrow> async_func_free_state fz a f s
      | (TYPE_MODULE, GModule m) \<Rightarrow> jsi_free_module_def fz a m s
      | _ \<Rightarrow> None) }"

text \<open>\<open>free_zero_refcount\<close> runs in the phase \<open>JSI_GC_PHASE_DECREF\<close>, in which nothing calls it again:
  its own argument \<open>fz\<close> is never used.\<close>

partial_function (option) zero_refcount_loop :: "gc_rt \<Rightarrow> gc_rt option" where
  "zero_refcount_loop s =
     (case gc_zero_ref_count_list s of
        [] \<Rightarrow> Some s
      | a # _ \<Rightarrow> do {
          p \<leftarrow> gheap s a;
          if g_ref_count p \<noteq> 0 then None
          else do { s \<leftarrow> free_gc_object (\<lambda>_. None) a s; zero_refcount_loop s } })"

declare zero_refcount_loop.simps [code]

definition free_zero_refcount :: "gc_rt \<Rightarrow> gc_rt option" where
  "free_zero_refcount s = do {
     s \<leftarrow> zero_refcount_loop (s\<lparr>gc_phase := PHASE_DECREF\<rparr>);
     Some (s\<lparr>gc_phase := PHASE_NONE\<rparr>) }"

definition JSI_FreeValueRT :: "gc_value \<Rightarrow> gc_rt \<Rightarrow> gc_rt option" where
  "JSI_FreeValueRT v = foldm (free_value_rt free_zero_refcount) (JSI_MarkValue v)"

section \<open>Cycles\<close>

definition has_identity :: "gc_obj_type \<Rightarrow> bool" where
  "has_identity ty \<longleftrightarrow>
     ty \<in> {TYPE_JSI_OBJECT, TYPE_FUNCTION_BYTECODE, TYPE_ASYNC_FUNCTION, TYPE_MODULE}"

partial_function (option) free_cycles_loop :: "gc_rt \<Rightarrow> gc_rt option" where
  "free_cycles_loop s =
     (case tmp_obj_list s of
        [] \<Rightarrow> Some s
      | a # _ \<Rightarrow> do {
          p \<leftarrow> gheap s a;
          s \<leftarrow> (if has_identity (g_type p) then free_gc_object (\<lambda>_. None) a s
                else do {
                  s \<leftarrow> list_del a s;
                  Some (s\<lparr>gc_zero_ref_count_list := gc_zero_ref_count_list s @ [a]\<rparr>) });
          free_cycles_loop s })"

declare free_cycles_loop.simps [code]

text \<open>The last loop: the structures that were kept.\<close>

definition free_kept :: "gaddr \<Rightarrow> gc_rt \<Rightarrow> gc_rt option" where
  "free_kept a s = do {
     p \<leftarrow> gheap s a;
     if \<not> has_identity (g_type p) then None
     else Some (case g_data p of
         GObject d \<Rightarrow> if o_weakref_count d \<noteq> 0 then upd_obj a (set_mark 0) s else jsi_free_obj a s
       | _ \<Rightarrow> jsi_free_obj a s) }"

definition gc_free_cycles :: "gc_rt \<Rightarrow> gc_rt option" where
  "gc_free_cycles s = do {
     s \<leftarrow> free_cycles_loop (s\<lparr>gc_phase := PHASE_REMOVE_CYCLES\<rparr>);
     let s = s\<lparr>gc_phase := PHASE_NONE\<rparr>;
     s \<leftarrow> foldm free_kept (gc_zero_ref_count_list s) s;
     Some (s\<lparr>gc_zero_ref_count_list := []\<rparr>) }"

definition JSI_RunGC :: "gc_rt \<Rightarrow> gc_rt option" where
  "JSI_RunGC s = do {
     s \<leftarrow> gc_decref s;
     s \<leftarrow> gc_scan s;
     gc_free_cycles s }"

end
