(* ===== verification/QGcMark.thy ===== *)
theory QGcMark
  imports QGc
begin

text \<open>
  The first two passes of the collector. Every object holds a list of references to others
  (\<open>refs\<close>); with the references from outside, counts are exact when each object's count is the
  number of references to it. \<open>gc_decref\<close> leaves the counts from outside, \<open>gc_scan\<close> moves to
  \<open>gc_obj_list\<close> exactly what is reachable from there and restores all counts.
\<close>

section \<open>References\<close>

fun tgt :: "gref \<Rightarrow> gaddr" where
  "tgt (RValue a) = a"
| "tgt (RShape a) = a"
| "tgt (RVarRef a) = a"
| "tgt (RContext a) = a"
| "tgt (RAsync a) = a"

definition context_values :: "jsi_context \<Rightarrow> gc_value list" where
  "context_values ctx = [global_obj ctx, global_var_obj ctx, throw_type_error ctx, eval_obj ctx,
     array_proto_values ctx] @ native_error_proto ctx @ class_proto ctx @ [iterator_proto ctx,
     async_iterator_proto ctx, array_ctor ctx, function_ctor ctx, function_proto ctx]"

text \<open>The references that freeing an object gives up, in that order.\<close>

fun refs :: "gc_data \<Rightarrow> gref list option" where
  "refs (GObject p) = do {
     sh \<leftarrow> o_shape p;
     us \<leftarrow> class_finalizer (class_array (o_class_id p)) (o_class_id p) (o_u p);
     Some (concat (map free_property (o_prop p)) @ RShape sh # us) }"
| "refs (GFunctionBytecode cpool realm) = Some (free_values cpool @ free_opt RContext realm)"
| "refs (GShape proto) = Some (free_opt RValue proto)"
| "refs (GDetached v) = Some (free_values [v])"
| "refs (GOnStack f) = Some (free_opt RAsync f)"
| "refs (GAsync f) = Some ((if is_completed f then []
     else free_values ((case cur_sp f of None \<Rightarrow> [] | Some vs \<Rightarrow> vs) @ [cur_func f, this_val f])) @
     free_values (resolving_funcs f))"
| "refs (GContext ctx) = Some (map RValue (loaded_modules ctx) @ free_values (context_values ctx) @
     free_opt RShape (array_shape ctx))"
| "refs (GModule m) = Some (free_values (m_req_attributes m) @
     concat (map (free_opt RVarRef) (m_exports m)) @
     free_values ([m_module_ns m, m_func_obj m, m_eval_exception m, m_meta_obj m, m_promise m] @
       m_resolving_funcs m @ [m_private_value m]))"

text \<open>The class of an object has the functions for its union. For the class of string iterators
  they are those of generators, which are harmless only on a null pointer.\<close>

fun fits :: "jsi_object \<Rightarrow> bool" where
  "fits p \<longleftrightarrow> o_shape p \<noteq> None \<and>
     (case class_array (o_class_id p) of
        NoFun \<Rightarrow> True
      | ArrayFun \<Rightarrow> (case o_u p of UArray _ \<Rightarrow> True | _ \<Rightarrow> False)
      | ObjectDataFun \<Rightarrow> (case o_u p of UObjectData _ \<Rightarrow> True | _ \<Rightarrow> False)
      | CFunctionFun \<Rightarrow> (case o_u p of UCFunc _ \<Rightarrow> True | _ \<Rightarrow> False)
      | BytecodeFunctionFun \<Rightarrow> (case o_u p of UFunc _ _ _ \<Rightarrow> True | _ \<Rightarrow> False)
      | BoundFunctionFun \<Rightarrow> (case o_u p of UBound _ _ _ \<Rightarrow> True | _ \<Rightarrow> False)
      | CFunctionDataFun \<Rightarrow> (case o_u p of UCFunctionData _ \<Rightarrow> True | _ \<Rightarrow> False)
      | ForInIteratorFun \<Rightarrow> (case o_u p of UForIn _ \<Rightarrow> True | _ \<Rightarrow> False)
      | ArrayIteratorFun \<Rightarrow> (case o_u p of UArrayIterator _ \<Rightarrow> True | _ \<Rightarrow> False)
      | GeneratorFun \<Rightarrow> o_u p = UArrayIterator None)"

fun fits_data :: "gc_data \<Rightarrow> bool" where
  "fits_data (GObject p) = fits p"
| "fits_data _ = True"

definition kids :: "gc_rt \<Rightarrow> gaddr \<Rightarrow> gaddr multiset" where
  "kids s a = (case gheap s a of None \<Rightarrow> {#}
     | Some p \<Rightarrow> (case refs (g_data p) of None \<Rightarrow> {#} | Some rs \<Rightarrow> mset (map tgt rs)))"

definition in_refs :: "gaddr set \<Rightarrow> gc_rt \<Rightarrow> gaddr multiset" where
  "in_refs L s = (\<Sum>b\<in>L. kids s b)"

lemma tgt_free_opt [simp]: "(\<And>a. tgt (r a) = a) \<Longrightarrow> map tgt (free_opt r x) = mark_opt x"
  by (cases x) auto

lemma tgt_values [simp]: "tgt \<circ> RValue = (\<lambda>a. a)" "tgt \<circ> RVarRef = (\<lambda>a. a)"
  by auto

lemma class_numbers [simp]:
  "class_array JSI_CLASS_OBJECT = NoFun" "class_array JSI_CLASS_GENERATOR = NoFun"
  "class_array JSI_CLASS_STRING_ITERATOR = GeneratorFun"
  by (simp_all add: class_array_def jsi_std_class_def_def JSI_CLASS_OBJECT_def JSI_CLASS_GENERATOR_def
    JSI_CLASS_STRING_ITERATOR_def)

lemma map_tgt_concat: "map tgt (concat (map f xs)) = concat (map (\<lambda>x. map tgt (f x)) xs)"
  by (induction xs) auto

lemma tgt_free_property [simp]: "map tgt (free_property x) = mark_prop x"
  by (cases x) auto

lemma class_fun_agree:
  assumes "fits p"
  shows "\<exists>us cs. class_finalizer (class_array (o_class_id p)) (o_class_id p) (o_u p) = Some us
    \<and> gc_mark (class_array (o_class_id p)) (o_class_id p) (o_u p) = Some cs \<and> map tgt us = cs"
  using assms
  by (auto split: class_fun.splits obj_u.splits option.splits simp: map_tgt_concat)

text \<open>Marking visits exactly the references that freeing gives up.\<close>

lemma refs_mark:
  assumes "fits_data d"
  obtains rs cs where "refs d = Some rs" "mark_children d = Some cs" "mset (map tgt rs) = mset cs"
proof (cases d)
  case (GObject p)
  then have "fits p" using assms by simp
  then obtain us cs where "class_finalizer (class_array (o_class_id p)) (o_class_id p) (o_u p) = Some us"
    "gc_mark (class_array (o_class_id p)) (o_class_id p) (o_u p) = Some cs" "map tgt us = cs"
    using class_fun_agree by blast
  moreover obtain sh where "o_shape p = Some sh" using \<open>fits p\<close> by auto
  ultimately show ?thesis using that GObject
    by (cases "o_class_id p = JSI_CLASS_OBJECT") (auto simp: mark_object_def map_tgt_concat simp del: mset_map)
next
  case (GAsync f)
  then show ?thesis using that
    by (auto simp: mark_async_def ac_simps map_tgt_concat simp del: mset_map split: option.splits)
next
  case (GContext ctx)
  then show ?thesis using that by (auto simp: JSI_MarkContext_def context_values_def simp del: mset_map)
next
  case (GModule m)
  then show ?thesis using that by (auto simp: jsi_mark_module_def_def map_tgt_concat simp del: mset_map)
qed (use that in \<open>auto simp del: mset_map\<close>)

section \<open>Counts, marks and data\<close>

definition rc :: "gc_rt \<Rightarrow> gaddr \<Rightarrow> int" where
  "rc s a = (case gheap s a of None \<Rightarrow> 0 | Some p \<Rightarrow> g_ref_count p)"

definition mk :: "gc_rt \<Rightarrow> gaddr \<Rightarrow> nat" where
  "mk s a = (case gheap s a of None \<Rightarrow> 0 | Some p \<Rightarrow> g_mark p)"

definition info :: "gc_rt \<Rightarrow> gaddr \<Rightarrow> (gc_obj_type \<times> gc_data) option" where
  "info s a = map_option (\<lambda>p. (g_type p, g_data p)) (gheap s a)"

lemma rc_Some: "gheap s a = Some p \<Longrightarrow> g_ref_count p = rc s a"
  by (simp add: rc_def)

lemma mk_Some: "gheap s a = Some p \<Longrightarrow> g_mark p = mk s a"
  by (simp add: mk_def)

lemma info_dom: "info s' = info s \<Longrightarrow> dom (gheap s') = dom (gheap s)"
proof -
  have "dom (gheap t) = {a. info t a \<noteq> None}" for t by (auto simp: info_def)
  then show "info s' = info s \<Longrightarrow> dom (gheap s') = dom (gheap s)" by simp
qed

lemma info_kids: "info s' = info s \<Longrightarrow> kids s' = kids s"
proof
  fix a
  assume "info s' = info s"
  then have "info s' a = info s a" by simp
  then show "kids s' a = kids s a"
    by (cases "gheap s a"; cases "gheap s' a") (auto simp: info_def kids_def)
qed

lemma upd_obj_simps [simp]:
  "gc_obj_list (upd_obj a f s) = gc_obj_list s"
  "tmp_obj_list (upd_obj a f s) = tmp_obj_list s"
  "gc_zero_ref_count_list (upd_obj a f s) = gc_zero_ref_count_list s"
  "gc_phase (upd_obj a f s) = gc_phase s"
  "gheap (upd_obj a f s) b = (if b = a then map_option f (gheap s a) else gheap s b)"
  "dom (gheap (upd_obj a f s)) = dom (gheap s)"
  by (auto simp: upd_obj_def)

lemma info_upd [simp]:
  "info (upd_obj a (add_count d) s) = info s" "info (upd_obj a (set_mark m) s) = info s"
  by (auto simp: info_def upd_obj_def add_count_def set_mark_def option.map_comp comp_def)

lemma rc_upd [simp]:
  "rc (upd_obj a (add_count d) s) b = (if b = a \<and> a \<in> dom (gheap s) then rc s b + d else rc s b)"
  "rc (upd_obj a (set_mark m) s) b = rc s b"
  "rc (upd_obj a (set_data x) s) b = rc s b"
  by (auto simp: rc_def add_count_def set_mark_def set_data_def split: option.splits)

lemma mk_upd [simp]:
  "mk (upd_obj a (add_count d) s) b = mk s b"
  "mk (upd_obj a (set_mark m) s) b = (if b = a \<and> a \<in> dom (gheap s) then m else mk s b)"
  "mk (upd_obj a (set_data x) s) b = mk s b"
  by (auto simp: mk_def add_count_def set_mark_def set_data_def split: option.splits)

lemma list_fields_simps [simp]:
  "rc (s\<lparr>gc_obj_list := x\<rparr>) = rc s" "rc (s\<lparr>tmp_obj_list := x\<rparr>) = rc s"
  "rc (s\<lparr>gc_zero_ref_count_list := x\<rparr>) = rc s" "rc (s\<lparr>gc_phase := ph\<rparr>) = rc s"
  "mk (s\<lparr>gc_obj_list := x\<rparr>) = mk s" "mk (s\<lparr>tmp_obj_list := x\<rparr>) = mk s"
  "mk (s\<lparr>gc_zero_ref_count_list := x\<rparr>) = mk s" "mk (s\<lparr>gc_phase := ph\<rparr>) = mk s"
  "info (s\<lparr>gc_obj_list := x\<rparr>) = info s" "info (s\<lparr>tmp_obj_list := x\<rparr>) = info s"
  "info (s\<lparr>gc_zero_ref_count_list := x\<rparr>) = info s" "info (s\<lparr>gc_phase := ph\<rparr>) = info s"
  by (simp_all add: rc_def mk_def info_def fun_eq_iff)

lemma remove1_filter: "distinct xs \<Longrightarrow> remove1 a xs = filter (\<lambda>b. b \<noteq> a) xs"
  by (simp add: distinct_remove1_removeAll removeAll_filter_not_eq) (metis (mono_tags))

lemma list_next_append:
  "a \<notin> set xs \<Longrightarrow> list_next a (xs @ a # ys) = Some (list_first ys)"
  by (induction xs) auto

lemma visit_eq:
  assumes "info s a = Some (ty, d)" and "fits_data d"
  obtains cs where "mset cs = kids s a" "visit_children f a s = foldm f cs s"
proof -
  obtain rs cs where r: "refs d = Some rs" "mark_children d = Some cs" "mset (map tgt rs) = mset cs"
    using refs_mark [OF assms(2)] .
  obtain p where "gheap s a = Some p" "g_data p = d" using assms(1) by (auto simp: info_def)
  then show ?thesis using that [of cs] r by (simp add: kids_def visit_children_def)
qed

section \<open>The first pass\<close>

definition dec_inv :: "gc_rt \<Rightarrow> gaddr set \<Rightarrow> gaddr multiset \<Rightarrow> gc_rt \<Rightarrow> bool" where
  "dec_inv s0 V R s \<longleftrightarrow> info s = info s0
     \<and> (\<forall>b \<in> dom (gheap s0). rc s b = rc s0 b - int (count R b))
     \<and> (\<forall>b \<in> dom (gheap s0). mk s b = (if b \<in> V then 1 else 0))
     \<and> gc_obj_list s = filter (\<lambda>b. \<not> (b \<in> V \<and> rc s b = 0)) (gc_obj_list s0)
     \<and> distinct (tmp_obj_list s) \<and> set (tmp_obj_list s) = {b \<in> V. rc s b = 0}
     \<and> gc_phase s = gc_phase s0 \<and> gc_zero_ref_count_list s = gc_zero_ref_count_list s0"

definition listed :: "gc_rt \<Rightarrow> bool" where
  "listed s \<longleftrightarrow> distinct (gc_obj_list s) \<and> set (gc_obj_list s) = dom (gheap s)"

lemma move_tmp_inv:
  assumes d: "distinct L" and m: "a \<in> set L" "Q a"
    and l: "gc_obj_list s = filter Q L"
  shows "move_to_tmp a s = Some (s\<lparr>gc_obj_list := filter (\<lambda>b. Q b \<and> b \<noteq> a) L, tmp_obj_list := tmp_obj_list s @ [a]\<rparr>)"
  using d m l by (simp add: move_to_tmp_def list_del_def remove1_filter conj_commute)

lemma dec_child:
  assumes i: "dec_inv s0 V R s" and l: "listed s0" and V: "V \<subseteq> dom (gheap s0)"
    and x: "x \<in> dom (gheap s0)" and pos: "0 < rc s x"
  shows "\<exists>s'. gc_decref_child x s = Some s' \<and> dec_inv s0 V (add_mset x R) s'"
proof -
  have inf: "info s = info s0" using i by (simp add: dec_inv_def)
  have dm: "dom (gheap s) = dom (gheap s0)" by (rule info_dom [OF inf])
  obtain p where p: "gheap s x = Some p" using x dm by blast
  note pv = rc_Some [OF p] mk_Some [OF p]
  have xd: "x \<in> dom (gheap s)" using p by blast
  let ?s1 = "upd_obj x (add_count (- 1)) s"
  have r1: "rc ?s1 b = (if b = x then rc s b - 1 else rc s b)" for b using xd by auto
  show ?thesis
  proof (cases "rc s x - 1 = 0 \<and> x \<in> V")
    case True
    let ?s2 = "?s1\<lparr>gc_obj_list := filter (\<lambda>b. \<not> (b \<in> V \<and> rc s b = 0) \<and> b \<noteq> x) (gc_obj_list s0),
      tmp_obj_list := tmp_obj_list s @ [x]\<rparr>"
    have "move_to_tmp x ?s1 = Some ?s2"
      using move_tmp_inv [of "gc_obj_list s0" x "\<lambda>b. \<not> (b \<in> V \<and> rc s b = 0)" ?s1] i l x True pos
      by (simp add: dec_inv_def listed_def)
    moreover have "mk s x = 1" using i True x by (simp add: dec_inv_def)
    ultimately have "gc_decref_child x s = Some ?s2" using p pos True by (simp add: gc_decref_child_def pv)
    moreover have "filter (\<lambda>b. \<not> (b \<in> V \<and> rc s b = 0) \<and> b \<noteq> x) (gc_obj_list s0)
      = filter (\<lambda>b. \<not> (b \<in> V \<and> rc ?s1 b = 0)) (gc_obj_list s0)"
      using True xd by (intro filter_cong) (auto simp: r1)
    moreover have "x \<notin> set (tmp_obj_list s)" using i pos by (auto simp: dec_inv_def)
    moreover have "set (tmp_obj_list s @ [x]) = {b \<in> V. rc ?s1 b = 0}"
      using i True pos xd by (auto simp: dec_inv_def r1)
    ultimately show ?thesis using i xd dm by (auto simp: dec_inv_def simp del: rc_upd simp: r1)
  next
    case False
    have "mk s x = (if x \<in> V then 1 else 0)" using i x by (simp add: dec_inv_def)
    then have "gc_decref_child x s = Some ?s1" using p pos False by (auto simp: gc_decref_child_def pv)
    moreover have "filter (\<lambda>b. \<not> (b \<in> V \<and> rc ?s1 b = 0)) (gc_obj_list s0)
      = filter (\<lambda>b. \<not> (b \<in> V \<and> rc s b = 0)) (gc_obj_list s0)"
      using False pos xd by (intro filter_cong) (auto simp: r1)
    moreover have "{b \<in> V. rc ?s1 b = 0} = {b \<in> V. rc s b = 0}" using False pos xd by (auto simp: r1)
    ultimately show ?thesis using i xd dm by (auto simp: dec_inv_def simp del: rc_upd simp: r1)
  qed
qed

lemma dec_children:
  assumes "dec_inv s0 V R s" and "listed s0" and "V \<subseteq> dom (gheap s0)" and "set cs \<subseteq> dom (gheap s0)"
    and "\<forall>b \<in> dom (gheap s0). int (count (R + mset cs) b) \<le> rc s0 b"
  shows "\<exists>s'. foldm gc_decref_child cs s = Some s' \<and> dec_inv s0 V (R + mset cs) s'"
  using assms
proof (induction cs arbitrary: R s)
  case (Cons x cs)
  have x: "x \<in> dom (gheap s0)" using Cons.prems(4) by simp
  have "int (count (R + mset (x # cs)) x) \<le> rc s0 x" using Cons.prems(5) x by blast
  then have "0 < rc s x" using Cons.prems(1) x by (auto simp: dec_inv_def)
  then obtain s1 where s1: "gc_decref_child x s = Some s1" "dec_inv s0 V (add_mset x R) s1"
    using dec_child [OF Cons.prems(1-3) x] by blast
  have "\<exists>s'. foldm gc_decref_child cs s1 = Some s' \<and> dec_inv s0 V (add_mset x R + mset cs) s'"
    by (rule Cons.IH [OF s1(2) Cons.prems(2,3)]) (use Cons.prems(4,5) in auto)
  then show ?case using s1(1) by simp
qed simp

text \<open>What the passes need: every object is in the list, its class fits, its references are to objects.\<close>

definition sound :: "gc_rt \<Rightarrow> bool" where
  "sound s \<longleftrightarrow> listed s
     \<and> (\<forall>a ty d. info s a = Some (ty, d) \<longrightarrow> fits_data d)
     \<and> (\<forall>a. set_mset (kids s a) \<subseteq> dom (gheap s))"

lemma soundD:
  assumes "sound s"
  shows "listed s" "distinct (gc_obj_list s)" "set (gc_obj_list s) = dom (gheap s)"
    "set_mset (kids s a) \<subseteq> dom (gheap s)"
  using assms by (auto simp: sound_def listed_def)

lemma sound_visit:
  assumes "sound s0" and "info s = info s0" and "a \<in> dom (gheap s0)"
  obtains cs p where "mset cs = kids s0 a" "set cs \<subseteq> dom (gheap s0)" "gheap s a = Some p"
    "visit_children f a s = foldm f cs s"
proof -
  have "a \<in> dom (gheap s)" using assms(2,3) info_dom by blast
  then obtain p where p: "gheap s a = Some p" by blast
  then have i: "info s a = Some (g_type p, g_data p)" by (simp add: info_def)
  then have "fits_data (g_data p)" using assms(1,2) by (simp add: sound_def)
  then obtain cs where cs: "mset cs = kids s a" "visit_children f a s = foldm f cs s"
    using visit_eq [OF i] by blast
  moreover have "mset cs = kids s0 a" using cs(1) info_kids [OF assms(2)] by simp
  moreover have "set cs \<subseteq> dom (gheap s0)"
    using soundD(4) [OF assms(1), of a] \<open>mset cs = kids s0 a\<close> by (metis set_mset_mset)
  ultimately show ?thesis using that p by blast
qed

lemma dec_obj:
  assumes i: "dec_inv s0 V R s" and so: "sound s0" and V: "V \<subseteq> dom (gheap s0)"
    and a: "a \<in> dom (gheap s0)" "a \<notin> V"
    and le: "\<forall>b \<in> dom (gheap s0). int (count (R + kids s0 a) b) \<le> rc s0 b"
  shows "\<exists>s'. gc_decref_obj a s = Some s' \<and> dec_inv s0 (insert a V) (R + kids s0 a) s'"
proof -
  have inf: "info s = info s0" using i by (simp add: dec_inv_def)
  obtain cs p where cs: "mset cs = kids s0 a" "set cs \<subseteq> dom (gheap s0)" "gheap s a = Some p"
    "visit_children gc_decref_child a s = foldm gc_decref_child cs s"
    using sound_visit [OF so inf a(1)] .
  have m0: "mk s a = 0" using i a by (simp add: dec_inv_def)
  obtain s1 where s1: "foldm gc_decref_child cs s = Some s1" "dec_inv s0 V (R + kids s0 a) s1"
    using dec_children [OF i soundD(1) [OF so] V cs(2)] le cs(1) by metis
  let ?s2 = "upd_obj a (set_mark 1) s1"
  have d1: "dom (gheap s1) = dom (gheap s0)" using s1(2) by (intro info_dom) (simp add: dec_inv_def)
  then obtain q where q: "gheap s1 a = Some q" using a(1) by (cases "gheap s1 a") auto
  then have rq: "g_ref_count (set_mark 1 q) = rc s1 a" using rc_Some [OF q] by (simp add: set_mark_def)
  have u: "gc_decref_obj a s = (if rc s1 a = 0 then move_to_tmp a ?s2 else Some ?s2)"
    using cs(3,4) m0 s1(1) q rq mk_Some [OF cs(3)] by (simp add: gc_decref_obj_def Let_def)
  show ?thesis
  proof (cases "rc s1 a = 0")
    case True
    have "move_to_tmp a ?s2 = Some (?s2\<lparr>gc_obj_list := filter (\<lambda>b. \<not> (b \<in> V \<and> rc s1 b = 0) \<and> b \<noteq> a) (gc_obj_list s0),
        tmp_obj_list := tmp_obj_list s1 @ [a]\<rparr>)"
      using move_tmp_inv [of "gc_obj_list s0" a "\<lambda>b. \<not> (b \<in> V \<and> rc s1 b = 0)" ?s2] s1(2) soundD(2,3) [OF so] a
      by (simp add: dec_inv_def)
    moreover have "filter (\<lambda>b. \<not> (b \<in> V \<and> rc s1 b = 0) \<and> b \<noteq> a) (gc_obj_list s0)
      = filter (\<lambda>b. \<not> (b \<in> insert a V \<and> rc s1 b = 0)) (gc_obj_list s0)"
      using True by (intro filter_cong) auto
    moreover have t: "set (tmp_obj_list s1) = {b \<in> V. rc s1 b = 0}" using s1(2) by (simp add: dec_inv_def)
    then have "set (tmp_obj_list s1 @ [a]) = {b \<in> insert a V. rc s1 b = 0}" "a \<notin> set (tmp_obj_list s1)"
      using True a(2) by auto
    ultimately show ?thesis using u True s1(2) a(1) d1 by (simp add: dec_inv_def)
  next
    case False
    then have "filter (\<lambda>b. \<not> (b \<in> V \<and> rc s1 b = 0)) (gc_obj_list s0)
      = filter (\<lambda>b. \<not> (b \<in> insert a V \<and> rc s1 b = 0)) (gc_obj_list s0)"
      by (intro filter_cong) auto
    moreover have "{b \<in> insert a V. rc s1 b = 0} = {b \<in> V. rc s1 b = 0}" using False by auto
    ultimately show ?thesis using u False s1(2) a(1) d1 by (simp add: dec_inv_def)
  qed
qed

abbreviation ksum :: "gc_rt \<Rightarrow> gaddr list \<Rightarrow> gaddr multiset" where
  "ksum s xs \<equiv> sum_list (map (kids s) xs)"

lemma ksum_in_refs: "distinct xs \<Longrightarrow> ksum s xs = in_refs (set xs) s"
  by (simp add: in_refs_def sum_list_distinct_conv_sum_set)

lemma dec_loop:
  assumes "sound s0" and "gc_obj_list s0 = pre @ suf" and "dec_inv s0 (set pre) (ksum s0 pre) s"
    and "\<forall>b \<in> dom (gheap s0). int (count (ksum s0 (gc_obj_list s0)) b) \<le> rc s0 b"
  shows "\<exists>s'. gc_decref_loop (list_first suf) s = Some s'
    \<and> dec_inv s0 (set (gc_obj_list s0)) (ksum s0 (gc_obj_list s0)) s'"
  using assms(2,3)
proof (induction suf arbitrary: pre s)
  case (Cons a suf)
  note d = soundD(2,3) [OF assms(1)]
  have a: "a \<in> dom (gheap s0)" "a \<notin> set pre" using d Cons.prems(1) by auto
  have V: "set pre \<subseteq> dom (gheap s0)" using d Cons.prems(1) by auto
  have le: "\<forall>b \<in> dom (gheap s0). int (count (ksum s0 pre + kids s0 a) b) \<le> rc s0 b"
  proof
    fix b assume "b \<in> dom (gheap s0)"
    then have "int (count (ksum s0 (pre @ a # suf)) b) \<le> rc s0 b" using assms(4) Cons.prems(1) by simp
    then show "int (count (ksum s0 pre + kids s0 a) b) \<le> rc s0 b" by simp
  qed
  obtain s1 where s1: "gc_decref_obj a s = Some s1" "dec_inv s0 (insert a (set pre)) (ksum s0 pre + kids s0 a) s1"
    using dec_obj [OF Cons.prems(2) assms(1) V a le] by blast
  have "gc_obj_list s = filter (\<lambda>b. \<not> (b \<in> set pre \<and> rc s b = 0)) pre @ a # suf"
    using Cons.prems d a by (auto simp: dec_inv_def filter_id_conv)
  then have nx: "list_next a (gc_obj_list s) = Some (list_first suf)" using a(2) by (simp add: list_next_append)
  have "\<exists>s'. gc_decref_loop (list_first suf) s1 = Some s'
    \<and> dec_inv s0 (set (gc_obj_list s0)) (ksum s0 (gc_obj_list s0)) s'"
    by (rule Cons.IH [of "pre @ [a]"]) (use s1(2) Cons.prems(1) in simp_all)
  then show ?case using nx s1(1) by (simp add: gc_decref_loop.simps [of "Some a"])
qed (simp add: gc_decref_loop.simps)

text \<open>After the first pass the counts are the references from outside.\<close>

lemma gc_decref_ok:
  assumes so: "sound s" and m: "\<forall>a \<in> dom (gheap s). mk s a = 0"
    and rc: "\<forall>a \<in> dom (gheap s). rc s a = int (count (E + in_refs (dom (gheap s)) s) a)"
  shows "\<exists>s'. gc_decref s = Some s' \<and> info s' = info s
    \<and> (\<forall>a \<in> dom (gheap s). rc s' a = int (count E a) \<and> mk s' a = 1)
    \<and> distinct (gc_obj_list s') \<and> set (gc_obj_list s') = {a \<in> dom (gheap s). a \<in># E}
    \<and> distinct (tmp_obj_list s') \<and> set (tmp_obj_list s') = {a \<in> dom (gheap s). a \<notin># E}
    \<and> gc_phase s' = gc_phase s \<and> gc_zero_ref_count_list s' = gc_zero_ref_count_list s"
proof -
  let ?s = "s\<lparr>tmp_obj_list := []\<rparr>"
  note d = soundD(2,3) [OF so]
  have k: "ksum s (gc_obj_list s) = in_refs (dom (gheap s)) s" using ksum_in_refs [OF d(1)] d(2) by simp
  have "dec_inv s (set []) (ksum s []) ?s" using m by (simp add: dec_inv_def)
  then have "\<exists>s'. gc_decref_loop (list_first (gc_obj_list s)) ?s = Some s'
    \<and> dec_inv s (set (gc_obj_list s)) (ksum s (gc_obj_list s)) s'"
    by (intro dec_loop [OF so, of "[]"]) (use rc k in simp_all)
  then obtain s' where s': "gc_decref s = Some s'" "dec_inv s (dom (gheap s)) (in_refs (dom (gheap s)) s) s'"
    using k d(2) by (auto simp: gc_decref_def)
  have r: "rc s' a = int (count E a)" if "a \<in> dom (gheap s)" for a
    using s'(2) rc that by (simp add: dec_inv_def)
  then have z: "rc s' a = 0 \<longleftrightarrow> a \<notin># E" if "a \<in> dom (gheap s)" for a
    using that by (simp add: count_eq_zero_iff)
  have l: "gc_obj_list s' = filter (\<lambda>b. \<not> (b \<in> dom (gheap s) \<and> rc s' b = 0)) (gc_obj_list s)"
    "set (tmp_obj_list s') = {b \<in> dom (gheap s). rc s' b = 0}"
    using s'(2) by (simp_all add: dec_inv_def)
  have "set (gc_obj_list s') = {a \<in> dom (gheap s). a \<in># E}" unfolding l(1) set_filter d(2) using z by blast
  moreover have "set (tmp_obj_list s') = {a \<in> dom (gheap s). a \<notin># E}" unfolding l(2) using z by blast
  ultimately show ?thesis using s' r d(1) by (auto simp: dec_inv_def)
qed

section \<open>The second pass\<close>

inductive_set reach :: "gaddr multiset \<Rightarrow> gc_rt \<Rightarrow> gaddr set" for E s where
  reach_root: "a \<in># E \<Longrightarrow> a \<in> reach E s"
| reach_kid: "a \<in> reach E s \<Longrightarrow> b \<in># kids s a \<Longrightarrow> b \<in> reach E s"

text \<open>\<open>R\<close> are the references that are counted, \<open>G\<close> is \<open>gc_obj_list\<close>.\<close>

definition scan_inv :: "gc_rt \<Rightarrow> gaddr multiset \<Rightarrow> gaddr set \<Rightarrow> gaddr multiset \<Rightarrow> gaddr list \<Rightarrow> gc_rt \<Rightarrow> bool" where
  "scan_inv s0 E Z R G s \<longleftrightarrow> info s = info s0
     \<and> (\<forall>b \<in> dom (gheap s0). rc s b = int (count R b))
     \<and> gc_obj_list s = G \<and> distinct G \<and> set G = {b \<in> dom (gheap s0). b \<in># R} \<and> set G \<subseteq> reach E s0
     \<and> distinct (tmp_obj_list s) \<and> set (tmp_obj_list s) = {b \<in> dom (gheap s0). b \<notin># R}
     \<and> (\<forall>b \<in> Z. mk s b = 0) \<and> Z \<subseteq> set G \<and> (\<forall>b \<in> set (tmp_obj_list s). mk s b = 1)
     \<and> gc_phase s = gc_phase s0 \<and> gc_zero_ref_count_list s = gc_zero_ref_count_list s0"

lemma scan_child:
  assumes i: "scan_inv s0 E Z R G s" and x: "x \<in> dom (gheap s0)" "x \<in> reach E s0"
  shows "\<exists>s' N. gc_scan_incref_child x s = Some s' \<and> scan_inv s0 E Z (add_mset x R) (G @ N) s'"
proof -
  have inf: "info s = info s0" using i by (simp add: scan_inv_def)
  have dm: "dom (gheap s) = dom (gheap s0)" by (rule info_dom [OF inf])
  obtain p where p: "gheap s x = Some p" using x dm by blast
  have xd: "x \<in> dom (gheap s)" using p by blast
  have rx: "rc s x = int (count R x)" using i x by (simp add: scan_inv_def)
  let ?s1 = "upd_obj x (add_count 1) s"
  have r1: "rc ?s1 b = int (count (add_mset x R) b)" if "b \<in> dom (gheap s0)" for b
    using i xd that by (auto simp: scan_inv_def)
  show ?thesis
  proof (cases "x \<in># R")
    case False
    then have xl: "x \<in> set (tmp_obj_list s)" "x \<notin> set (gc_obj_list s)" using i x by (simp_all add: scan_inv_def)
    have dt: "distinct (tmp_obj_list s)" using i by (simp add: scan_inv_def)
    let ?s2 = "upd_obj x (set_mark 0) (?s1\<lparr>tmp_obj_list := remove1 x (tmp_obj_list s), gc_obj_list := G @ [x]\<rparr>)"
    have "rc s x = 0" using rx False by (simp add: count_eq_zero_iff)
    then have "gc_scan_incref_child x s = Some ?s2"
      using p xl i rc_Some [OF p] by (simp add: gc_scan_incref_child_def list_del_def Let_def scan_inv_def)
    moreover have "scan_inv s0 E Z (add_mset x R) (G @ [x]) ?s2"
    proof -
      have "set (remove1 x (tmp_obj_list s)) = set (tmp_obj_list s) - {x}" using dt by simp
      moreover have "\<forall>b \<in> set (tmp_obj_list s) - {x}. mk ?s2 b = 1" using i by (simp add: scan_inv_def)
      moreover have "\<forall>b \<in> Z. mk ?s2 b = 0" using i by (auto simp: scan_inv_def)
      moreover have "\<forall>b \<in> dom (gheap s0). rc ?s2 b = int (count (add_mset x R) b)" using r1 by simp
      moreover have "x \<notin> set G" using i xl by (simp add: scan_inv_def)
      ultimately show ?thesis using i x False dt unfolding scan_inv_def by (intro conjI) auto
    qed
    ultimately show ?thesis by blast
  next
    case True
    then have "rc s x \<noteq> 0" using rx by simp
    then have "gc_scan_incref_child x s = Some ?s1"
      using p rc_Some [OF p] by (simp add: gc_scan_incref_child_def Let_def)
    moreover have "scan_inv s0 E Z (add_mset x R) (G @ []) ?s1"
      using i r1 True unfolding scan_inv_def by (intro conjI) auto
    ultimately show ?thesis by blast
  qed
qed

lemma scan_children:
  assumes "scan_inv s0 E Z R G s" and "set cs \<subseteq> dom (gheap s0)" and "set cs \<subseteq> reach E s0"
  shows "\<exists>s' N. foldm gc_scan_incref_child cs s = Some s' \<and> scan_inv s0 E Z (R + mset cs) (G @ N) s'"
  using assms
proof (induction cs arbitrary: R G s)
  case Nil
  then have "scan_inv s0 E Z (R + mset []) (G @ []) s" by simp
  then show ?case by (metis foldm.simps(1))
next
  case (Cons x cs)
  obtain s1 N1 where s1: "gc_scan_incref_child x s = Some s1" "scan_inv s0 E Z (add_mset x R) (G @ N1) s1"
    using scan_child [OF Cons.prems(1), of x] Cons.prems(2,3) by fastforce
  then obtain s2 N2 where "foldm gc_scan_incref_child cs s1 = Some s2"
    "scan_inv s0 E Z (add_mset x R + mset cs) ((G @ N1) @ N2) s2"
    using Cons.IH [OF s1(2)] Cons.prems(2,3) by (metis list.set_intros(2) subset_code(1))
  then show ?case using s1(1) by auto
qed

lemma scan_obj:
  assumes i: "scan_inv s0 E Z R G s" and so: "sound s0" and a: "a \<in> set G"
  shows "\<exists>s' N. gc_scan_obj a s = Some s' \<and> scan_inv s0 E (insert a Z) (R + kids s0 a) (G @ N) s'"
proof -
  have ad: "a \<in> dom (gheap s0)" "a \<in># R" "a \<in> reach E s0" using i a by (auto simp: scan_inv_def)
  let ?s1 = "upd_obj a (set_mark 0) s"
  have inf: "info ?s1 = info s0" using i by (simp add: scan_inv_def)
  obtain cs p where cs: "mset cs = kids s0 a" "set cs \<subseteq> dom (gheap s0)" "gheap ?s1 a = Some p"
    "visit_children gc_scan_incref_child a ?s1 = foldm gc_scan_incref_child cs ?s1"
    using sound_visit [OF so inf ad(1)] .
  obtain q where q: "gheap s a = Some q" using cs(3) by auto
  have "rc s a = int (count R a)" using i ad(1) by (simp add: scan_inv_def)
  then have "0 < g_ref_count q" using rc_Some [OF q] ad(2) by simp
  then have u: "gc_scan_obj a s = foldm gc_scan_incref_child cs ?s1" using q cs(4) by (simp add: gc_scan_obj_def)
  have "a \<notin> set (tmp_obj_list s)" using i ad(2) by (simp add: scan_inv_def)
  then have "\<forall>b \<in> set (tmp_obj_list s). mk ?s1 b = 1" using i by (auto simp: scan_inv_def)
  moreover have "\<forall>b \<in> insert a Z. mk ?s1 b = 0" using i q by (auto simp: scan_inv_def)
  ultimately have i1: "scan_inv s0 E (insert a Z) R G ?s1" using i a unfolding scan_inv_def by (intro conjI) auto
  have "set cs \<subseteq> reach E s0" using reach_kid [OF ad(3)] cs(1) by (metis set_mset_mset subsetI)
  then show ?thesis using scan_children [OF i1 cs(2)] u cs(1) by simp
qed

lemma scan_loop:
  assumes so: "sound s0" and fin: "finite (dom (gheap s0))"
  shows "scan_inv s0 E (set S) (E + ksum s0 S) (S @ rest) s \<Longrightarrow>
    \<exists>s' S'. gc_scan_loop (list_first rest) s = Some s' \<and> scan_inv s0 E (set S') (E + ksum s0 S') S' s'"
proof (induction "card (dom (gheap s0) - set S)" arbitrary: S rest s rule: less_induct)
  case less
  show ?case
  proof (cases rest)
    case Nil
    then show ?thesis using less.prems by (auto simp: gc_scan_loop.simps intro!: exI [of _ S])
  next
    case (Cons a rest')
    have G: "distinct (S @ rest)" "set (S @ rest) \<subseteq> dom (gheap s0)" using less.prems by (auto simp: scan_inv_def)
    have a: "a \<in> set (S @ rest)" "a \<notin> set S" "a \<in> dom (gheap s0)" using G Cons by auto
    obtain s1 N where s1: "gc_scan_obj a s = Some s1"
      "scan_inv s0 E (insert a (set S)) (E + ksum s0 S + kids s0 a) ((S @ rest) @ N) s1"
      using scan_obj [OF less.prems so a(1)] by blast
    have i1: "scan_inv s0 E (set (S @ [a])) (E + ksum s0 (S @ [a])) ((S @ [a]) @ (rest' @ N)) s1"
      using s1(2) Cons by (simp add: ac_simps)
    have "gc_obj_list s1 = S @ a # (rest' @ N)" using i1 by (simp add: scan_inv_def)
    then have nx: "list_next a (gc_obj_list s1) = Some (list_first (rest' @ N))"
      using list_next_append [OF a(2)] by simp
    have "card (dom (gheap s0) - set (S @ [a])) < card (dom (gheap s0) - set S)"
      using a fin by (intro psubset_card_mono) auto
    then obtain s' S' where "gc_scan_loop (list_first (rest' @ N)) s1 = Some s'"
      "scan_inv s0 E (set S') (E + ksum s0 S') S' s'"
      using less.hyps [OF _ i1] by blast
    then show ?thesis using Cons s1(1) nx by (auto simp: gc_scan_loop.simps [of "Some a"])
  qed
qed

lemma restore_children:
  assumes "info s = info s0" and "set cs \<subseteq> dom (gheap s0)"
  shows "\<exists>s'. foldm gc_scan_incref_child2 cs s = Some s' \<and> info s' = info s0 \<and> mk s' = mk s
    \<and> (\<forall>b \<in> dom (gheap s0). rc s' b = rc s b + int (count (mset cs) b))
    \<and> gc_obj_list s' = gc_obj_list s \<and> tmp_obj_list s' = tmp_obj_list s
    \<and> gc_phase s' = gc_phase s \<and> gc_zero_ref_count_list s' = gc_zero_ref_count_list s"
  using assms
proof (induction cs arbitrary: s)
  case (Cons x cs)
  have xd: "x \<in> dom (gheap s)" using Cons.prems(2) info_dom [OF Cons.prems(1)] by simp
  then obtain p where p: "gheap s x = Some p" by blast
  let ?s = "upd_obj x (add_count 1) s"
  have "mk ?s = mk s" by (simp add: fun_eq_iff)
  moreover have "rc ?s b = rc s b + (if b = x then 1 else 0)" for b using xd by simp
  moreover have "\<exists>s'. foldm gc_scan_incref_child2 cs ?s = Some s' \<and> info s' = info s0 \<and> mk s' = mk ?s
    \<and> (\<forall>b \<in> dom (gheap s0). rc s' b = rc ?s b + int (count (mset cs) b))
    \<and> gc_obj_list s' = gc_obj_list ?s \<and> tmp_obj_list s' = tmp_obj_list ?s
    \<and> gc_phase s' = gc_phase ?s \<and> gc_zero_ref_count_list s' = gc_zero_ref_count_list ?s"
    by (rule Cons.IH) (use Cons.prems in simp_all)
  moreover have "gc_scan_incref_child2 x s = Some ?s" using p by (simp add: gc_scan_incref_child2_def)
  ultimately show ?case by auto
qed simp

lemma restore_loop:
  assumes so: "sound s0" and "distinct (pre @ suf)" and "set suf \<subseteq> dom (gheap s0)"
    and "info s = info s0" and "tmp_obj_list s = pre @ suf"
  shows "\<exists>s'. gc_restore_loop (list_first suf) s = Some s' \<and> info s' = info s0 \<and> mk s' = mk s
    \<and> (\<forall>b \<in> dom (gheap s0). rc s' b = rc s b + int (count (ksum s0 suf) b))
    \<and> gc_obj_list s' = gc_obj_list s \<and> tmp_obj_list s' = tmp_obj_list s
    \<and> gc_phase s' = gc_phase s \<and> gc_zero_ref_count_list s' = gc_zero_ref_count_list s"
  using assms(2-)
proof (induction suf arbitrary: pre s)
  case (Cons a suf)
  have a: "a \<in> dom (gheap s0)" "a \<notin> set pre" using Cons.prems(1,2) by auto
  obtain cs p where cs: "mset cs = kids s0 a" "set cs \<subseteq> dom (gheap s0)" "gheap s a = Some p"
    "visit_children gc_scan_incref_child2 a s = foldm gc_scan_incref_child2 cs s"
    using sound_visit [OF so Cons.prems(3) a(1)] .
  obtain s1 where s1: "foldm gc_scan_incref_child2 cs s = Some s1" "info s1 = info s0" "mk s1 = mk s"
    "\<forall>b \<in> dom (gheap s0). rc s1 b = rc s b + int (count (kids s0 a) b)"
    "gc_obj_list s1 = gc_obj_list s" "tmp_obj_list s1 = tmp_obj_list s"
    "gc_phase s1 = gc_phase s" "gc_zero_ref_count_list s1 = gc_zero_ref_count_list s"
    using restore_children [OF Cons.prems(3) cs(2)] cs(1) by metis
  have "\<exists>s'. gc_restore_loop (list_first suf) s1 = Some s' \<and> info s' = info s0 \<and> mk s' = mk s1
    \<and> (\<forall>b \<in> dom (gheap s0). rc s' b = rc s1 b + int (count (ksum s0 suf) b))
    \<and> gc_obj_list s' = gc_obj_list s1 \<and> tmp_obj_list s' = tmp_obj_list s1
    \<and> gc_phase s' = gc_phase s1 \<and> gc_zero_ref_count_list s' = gc_zero_ref_count_list s1"
    by (rule Cons.IH [of "pre @ [a]"]) (use Cons.prems s1(2,6) in simp_all)
  moreover have "list_next a (tmp_obj_list s1) = Some (list_first suf)"
    using list_next_append [OF a(2)] s1(6) Cons.prems(4) by simp
  ultimately show ?case using cs(4) s1 by (auto simp: gc_restore_loop.simps [of "Some a"])
qed (simp add: gc_restore_loop.simps)

lemma reach_closed:
  assumes "set_mset E \<subseteq> S" and "\<And>a. a \<in> S \<Longrightarrow> set_mset (kids s a) \<subseteq> S"
  shows "reach E s \<subseteq> S"
proof
  fix a assume "a \<in> reach E s"
  then show "a \<in> S" by induction (use assms in auto)
qed

lemma in_refs_union:
  "finite A \<Longrightarrow> finite B \<Longrightarrow> A \<inter> B = {} \<Longrightarrow> in_refs (A \<union> B) s = in_refs A s + in_refs B s"
  by (simp add: in_refs_def sum.union_disjoint)

lemma in_refs_mono: "finite B \<Longrightarrow> A \<subseteq> B \<Longrightarrow> in_refs A s \<subseteq># in_refs B s"
  using in_refs_union [of A "B - A" s] by (metis Diff_disjoint Un_Diff_cancel Un_absorb1 finite_Diff finite_subset mset_subset_eq_add_left)

lemma kids_in_refs: "finite L \<Longrightarrow> a \<in> L \<Longrightarrow> kids s a \<subseteq># in_refs L s"
  using in_refs_mono [of L "{a}" s] by (simp add: in_refs_def)

lemma in_refs_elem: "finite L \<Longrightarrow> x \<in># in_refs L s \<longleftrightarrow> (\<exists>b \<in> L. x \<in># kids s b)"
  by (induction L rule: finite_induct) (auto simp: in_refs_def)

text \<open>After the second pass \<open>gc_obj_list\<close> holds what is reachable from outside, \<open>tmp_obj_list\<close> the rest,
  and the counts are as they were.\<close>

lemma gc_scan_ok:
  assumes so: "sound s0" and fin: "finite (dom (gheap s0))" and E: "set_mset E \<subseteq> dom (gheap s0)"
    and inf: "info s = info s0"
    and r: "\<forall>a \<in> dom (gheap s0). rc s a = int (count E a) \<and> mk s a = 1"
    and g: "distinct (gc_obj_list s)" "set (gc_obj_list s) = {a \<in> dom (gheap s0). a \<in># E}"
    and t: "distinct (tmp_obj_list s)" "set (tmp_obj_list s) = {a \<in> dom (gheap s0). a \<notin># E}"
    and ph: "gc_phase s = gc_phase s0" "gc_zero_ref_count_list s = gc_zero_ref_count_list s0"
  shows "\<exists>s'. gc_scan s = Some s' \<and> info s' = info s0
    \<and> (\<forall>a \<in> dom (gheap s0). rc s' a = int (count (E + in_refs (dom (gheap s0)) s0) a))
    \<and> distinct (gc_obj_list s') \<and> set (gc_obj_list s') = reach E s0
    \<and> distinct (tmp_obj_list s') \<and> set (tmp_obj_list s') = dom (gheap s0) - reach E s0
    \<and> (\<forall>a \<in> reach E s0. mk s' a = 0)
    \<and> gc_phase s' = gc_phase s0 \<and> gc_zero_ref_count_list s' = gc_zero_ref_count_list s0"
proof -
  have "set (gc_obj_list s) \<subseteq> reach E s0" using g(2) reach_root by blast
  moreover have "\<forall>b \<in> set (tmp_obj_list s). mk s b = 1" using r t(2) by blast
  ultimately have i: "scan_inv s0 E (set []) (E + ksum s0 []) ([] @ gc_obj_list s) s"
    using inf r g t ph by (simp add: scan_inv_def)
  obtain s1 S where s1: "gc_scan_loop (list_first (gc_obj_list s)) s = Some s1"
    "scan_inv s0 E (set S) (E + ksum s0 S) S s1"
    using scan_loop [OF so fin i] by blast
  have S: "distinct S" "set S = {b \<in> dom (gheap s0). b \<in># E + ksum s0 S}" "set S \<subseteq> reach E s0"
    and T: "distinct (tmp_obj_list s1)" "set (tmp_obj_list s1) = {b \<in> dom (gheap s0). b \<notin># E + ksum s0 S}"
    and inf1: "info s1 = info s0" and r1: "\<forall>b \<in> dom (gheap s0). rc s1 b = int (count (E + ksum s0 S) b)"
    and m1: "\<forall>b \<in> set S. mk s1 b = 0"
    and l1: "gc_obj_list s1 = S" "gc_phase s1 = gc_phase s0" "gc_zero_ref_count_list s1 = gc_zero_ref_count_list s0"
    using s1(2) by (auto simp: scan_inv_def)
  have kS: "ksum s0 S = in_refs (set S) s0" by (rule ksum_in_refs [OF S(1)])
  have "reach E s0 \<subseteq> set S"
  proof (rule reach_closed)
    have m: "b \<in> set S" if "b \<in> dom (gheap s0)" "b \<in># E + ksum s0 S" for b by (subst S(2)) (use that in simp)
    show "set_mset E \<subseteq> set S" using E m by fastforce
    show "set_mset (kids s0 a) \<subseteq> set S" if "a \<in> set S" for a
    proof
      fix b assume b: "b \<in># kids s0 a"
      then have "b \<in># in_refs (set S) s0" using that in_refs_elem [of "set S" b s0] by blast
      then show "b \<in> set S" using m [of b] b soundD(4) [OF so, of a] kS by (metis subsetD union_iff)
    qed
  qed
  then have rS: "set S = reach E s0" using S(3) by blast
  have Td: "set (tmp_obj_list s1) = dom (gheap s0) - reach E s0" using T(2) S(2) rS by blast
  obtain s2 where s2: "gc_restore_loop (list_first (tmp_obj_list s1)) s1 = Some s2" "info s2 = info s0" "mk s2 = mk s1"
    "\<forall>b \<in> dom (gheap s0). rc s2 b = rc s1 b + int (count (ksum s0 (tmp_obj_list s1)) b)"
    "gc_obj_list s2 = gc_obj_list s1" "tmp_obj_list s2 = tmp_obj_list s1"
    "gc_phase s2 = gc_phase s1" "gc_zero_ref_count_list s2 = gc_zero_ref_count_list s1"
    using restore_loop [OF so, of "[]" "tmp_obj_list s1" s1] T Td inf1 by auto
  have "in_refs (dom (gheap s0)) s0 = in_refs (set S) s0 + in_refs (set (tmp_obj_list s1)) s0"
  proof -
    have "reach E s0 \<subseteq> dom (gheap s0)" using S(2) rS by blast
    then have "set S \<union> set (tmp_obj_list s1) = dom (gheap s0)" "set S \<inter> set (tmp_obj_list s1) = {}"
      unfolding Td rS by auto
    then show ?thesis using in_refs_union [of "set S" "set (tmp_obj_list s1)" s0] by simp
  qed
  then have "rc s2 a = int (count (E + in_refs (dom (gheap s0)) s0) a)" if "a \<in> dom (gheap s0)" for a
    using that s2(4) r1 kS ksum_in_refs [OF T(1)] by simp
  then show ?thesis using s1(1) s2 S(1) rS T(1) Td m1 l1 by (auto simp: gc_scan_def)
qed

end
