(* ===== verification/QGcFree.thy ===== *)
theory QGcFree
  imports QGcMark
begin

text \<open>
  Giving up references. \<open>core E0 E L s\<close> says that the counts are exact: \<open>L\<close> are the objects whose
  fields still hold their references, \<open>E0\<close> the references from outside, \<open>E\<close> those that an operation
  in progress has taken out of an object and has yet to give up. The lemmas are one
  per change of the state: counts, lists, marks, data, deletion, links of modules.
\<close>

section \<open>The invariant\<close>

fun data_type :: "gc_data \<Rightarrow> gc_obj_type" where
  "data_type (GObject _) = TYPE_JSI_OBJECT"
| "data_type (GFunctionBytecode _ _) = TYPE_FUNCTION_BYTECODE"
| "data_type (GShape _) = TYPE_SHAPE"
| "data_type (GDetached _) = TYPE_VAR_REF"
| "data_type (GOnStack _) = TYPE_VAR_REF"
| "data_type (GAsync _) = TYPE_ASYNC_FUNCTION"
| "data_type (GContext _) = TYPE_JSI_CONTEXT"
| "data_type (GModule _) = TYPE_MODULE"

fun ref_type_ok :: "gref \<Rightarrow> gc_obj_type \<Rightarrow> bool" where
  "ref_type_ok (RValue _) ty \<longleftrightarrow> ty \<in> {TYPE_JSI_OBJECT, TYPE_FUNCTION_BYTECODE, TYPE_MODULE}"
| "ref_type_ok (RShape _) ty \<longleftrightarrow> ty = TYPE_SHAPE"
| "ref_type_ok (RVarRef _) ty \<longleftrightarrow> ty = TYPE_VAR_REF"
| "ref_type_ok (RContext _) ty \<longleftrightarrow> ty = TYPE_JSI_CONTEXT"
| "ref_type_ok (RAsync _) ty \<longleftrightarrow> ty = TYPE_ASYNC_FUNCTION"

definition typed :: "gc_rt \<Rightarrow> gref \<Rightarrow> bool" where
  "typed s r \<longleftrightarrow> (\<forall>ty d. info s (tgt r) = Some (ty, d) \<longrightarrow> ref_type_ok r ty)"

text \<open>A running function: its variables are not known.\<close>

fun running :: "gc_data \<Rightarrow> bool" where
  "running (GAsync f) \<longleftrightarrow> \<not> is_completed f \<and> cur_sp f = None"
| "running _ \<longleftrightarrow> False"

fun no_weakref :: "gc_data \<Rightarrow> bool" where
  "no_weakref (GObject p) \<longleftrightarrow> o_weakref_count p = 0"
| "no_weakref _ \<longleftrightarrow> True"

definition lists_ok :: "gc_rt \<Rightarrow> bool" where
  "lists_ok s \<longleftrightarrow>
     distinct (gc_obj_list s @ tmp_obj_list s @ gc_zero_ref_count_list s)
     \<and> set (gc_obj_list s @ tmp_obj_list s @ gc_zero_ref_count_list s) = dom (gheap s)"

definition heap_ok :: "gc_rt \<Rightarrow> bool" where
  "heap_ok s \<longleftrightarrow> finite (dom (gheap s))
     \<and> (\<forall>a ty d. info s a = Some (ty, d) \<longrightarrow> data_type d = ty \<and> no_weakref d)"

text \<open>The list of modules of a context and the links of the modules agree.\<close>

definition links_ok :: "gc_rt \<Rightarrow> bool" where
  "links_ok s \<longleftrightarrow>
     (\<forall>m ty d c. info s m = Some (ty, GModule d) \<longrightarrow> m_link d = Some c \<longrightarrow>
        (\<exists>ty' ctx. info s c = Some (ty', GContext ctx) \<and> m \<in> set (loaded_modules ctx)))
     \<and> (\<forall>c ty ctx. info s c = Some (ty, GContext ctx) \<longrightarrow> distinct (loaded_modules ctx)
        \<and> (\<forall>m \<in> set (loaded_modules ctx). \<exists>ty' d. info s m = Some (ty', GModule d) \<and> m_link d = Some c))"

definition refs_ok :: "gaddr multiset \<Rightarrow> gaddr set \<Rightarrow> gc_rt \<Rightarrow> bool" where
  "refs_ok E0 L s \<longleftrightarrow> L \<subseteq> dom (gheap s)
     \<and> (\<forall>a \<in> L. \<forall>ty d. info s a = Some (ty, d) \<longrightarrow> fits_data d \<and> (running d \<longrightarrow> a \<in># E0)
        \<and> (\<forall>rs. refs d = Some rs \<longrightarrow> (\<forall>r \<in> set rs. typed s r)))"

definition counts_ok :: "gaddr multiset \<Rightarrow> gaddr set \<Rightarrow> gc_rt \<Rightarrow> bool" where
  "counts_ok E L s \<longleftrightarrow> set_mset (E + in_refs L s) \<subseteq> dom (gheap s)
     \<and> (\<forall>a \<in> dom (gheap s). int (count (E + in_refs L s) a) \<le> rc s a)
     \<and> (\<forall>a \<in> L. rc s a = int (count (E + in_refs L s) a))
     \<and> (\<forall>a \<in> dom (gheap s) - L. \<forall>ty d. info s a = Some (ty, d) \<longrightarrow> \<not> has_identity ty \<longrightarrow> rc s a = 0)"

definition core :: "gaddr multiset \<Rightarrow> gaddr multiset \<Rightarrow> gaddr set \<Rightarrow> gc_rt \<Rightarrow> bool" where
  "core E0 E L s \<longleftrightarrow> lists_ok s \<and> heap_ok s \<and> links_ok s \<and> refs_ok E0 L s \<and> counts_ok (E0 + E) L s"

lemma coreD:
  assumes "core E0 E L s"
  shows "lists_ok s" "heap_ok s" "links_ok s" "refs_ok E0 L s" "counts_ok (E0 + E) L s"
    "finite (dom (gheap s))" "L \<subseteq> dom (gheap s)" "finite L"
  using assms by (auto simp: core_def heap_ok_def refs_ok_def intro: finite_subset)

lemma core_target:
  assumes "core E0 (add_mset a E) L s"
  shows "a \<in> dom (gheap s)" "1 \<le> rc s a"
proof -
  have c: "set_mset (E0 + add_mset a E + in_refs L s) \<subseteq> dom (gheap s)"
    "\<forall>b \<in> dom (gheap s). int (count (E0 + add_mset a E + in_refs L s) b) \<le> rc s b"
    using coreD(5) [OF assms] by (auto simp: counts_ok_def)
  then show "a \<in> dom (gheap s)" by auto
  then have "int (count (E0 + add_mset a E + in_refs L s) a) \<le> rc s a" using c(2) by blast
  then show "1 \<le> rc s a" by simp
qed

lemma infoE:
  assumes "a \<in> dom (gheap s)"
  obtains p where "gheap s a = Some p" "info s a = Some (g_type p, g_data p)" "g_ref_count p = rc s a"
  using assms rc_Some by (auto simp: info_def)

lemma info_same_typed: "info s' = info s \<Longrightarrow> typed s' = typed s"
  by (simp add: typed_def fun_eq_iff)

lemma info_same_ok:
  assumes "info s' = info s"
  shows "heap_ok s' \<longleftrightarrow> heap_ok s" "links_ok s' \<longleftrightarrow> links_ok s" "refs_ok E0 L s' \<longleftrightarrow> refs_ok E0 L s"
    "in_refs L s' = in_refs L s"
  using info_dom [OF assms] info_kids [OF assms] info_same_typed [OF assms] assms
  by (simp_all add: heap_ok_def links_ok_def refs_ok_def in_refs_def)

section \<open>Changes of counts and lists\<close>

text \<open>A state with the same objects whose counts and lists agree with the invariant.\<close>

lemma core_dec:
  assumes c: "core E0 (add_mset a E) L s"
  shows "core E0 E L (upd_obj a (add_count (- 1)) s)"
proof -
  let ?s = "upd_obj a (add_count (- 1)) s"
  have a: "a \<in> dom (gheap s)" "1 \<le> rc s a" using core_target [OF c] .
  have k: "counts_ok (E0 + add_mset a E) L s" by (rule coreD(5) [OF c])
  have "counts_ok (E0 + E) L ?s"
    unfolding counts_ok_def
  proof (intro conjI ballI allI impI)
    show "set_mset (E0 + E + in_refs L ?s) \<subseteq> dom (gheap ?s)"
      using k info_same_ok(4) [of ?s s L] by (auto simp: counts_ok_def)
    fix b
    show "int (count (E0 + E + in_refs L ?s) b) \<le> rc ?s b" if "b \<in> dom (gheap ?s)"
    proof -
      have "int (count (E0 + add_mset a E + in_refs L s) b) \<le> rc s b" using k that by (auto simp: counts_ok_def)
      then show ?thesis using a info_same_ok(4) [of ?s s L] by (simp split: if_splits)
    qed
    show "rc ?s b = int (count (E0 + E + in_refs L ?s) b)" if "b \<in> L"
    proof -
      have "rc s b = int (count (E0 + add_mset a E + in_refs L s) b)" using k that by (simp add: counts_ok_def)
      then show ?thesis using a info_same_ok(4) [of ?s s L] by (cases "b = a") simp_all
    qed
    show "rc ?s b = 0" if b: "b \<in> dom (gheap ?s) - L" "info ?s b = Some (ty, d)" "\<not> has_identity ty" for ty d
    proof -
      have z: "rc s b = 0" using k b by (auto simp: counts_ok_def)
      then have "b \<noteq> a" using a by auto
      then show ?thesis using z by simp
    qed
  qed
  moreover have "lists_ok ?s" using coreD(1) [OF c] by (simp add: lists_ok_def)
  ultimately show ?thesis using coreD(2-4) [OF c] info_same_ok [of ?s s] by (simp add: core_def)
qed

text \<open>The references of an object become references in progress.\<close>

lemma in_refs_remove: "finite L \<Longrightarrow> a \<in> L \<Longrightarrow> in_refs L s = kids s a + in_refs (L - {a}) s"
  by (simp add: in_refs_def sum.remove)

lemma core_detach:
  assumes c: "core E0 E L s" and a: "a \<in> L"
    and z: "\<And>ty d. info s a = Some (ty, d) \<Longrightarrow> has_identity ty \<or> rc s a = 0"
  shows "core E0 (kids s a + E) (L - {a}) s"
proof -
  have e: "E0 + (kids s a + E) + in_refs (L - {a}) s = E0 + E + in_refs L s"
    using in_refs_remove [OF coreD(8) [OF c] a] by simp
  have "counts_ok (E0 + (kids s a + E)) (L - {a}) s"
    unfolding counts_ok_def e
  proof (intro conjI ballI allI impI)
    show "rc s b = 0" if "b \<in> dom (gheap s) - (L - {a})" "info s b = Some (ty, d)" "\<not> has_identity ty" for b ty d
    proof (cases "b = a")
      case False
      then have "b \<in> dom (gheap s) - L" using that(1) by blast
      then show ?thesis using coreD(5) [OF c] that(2,3) by (metis counts_ok_def)
    qed (use z that in blast)
  qed (use coreD(5) [OF c] in \<open>auto simp: counts_ok_def\<close>)
  then show ?thesis using coreD(1-4) [OF c] by (auto simp: core_def refs_ok_def)
qed

lemma perm_lists:
  assumes "lists_ok s" and "gheap s' = gheap s"
    and "mset (gc_obj_list s' @ tmp_obj_list s' @ gc_zero_ref_count_list s')
      = mset (gc_obj_list s @ tmp_obj_list s @ gc_zero_ref_count_list s)"
  shows "lists_ok s'"
  using assms unfolding lists_ok_def by (metis mset_eq_imp_distinct_iff mset_eq_setD)

lemma core_lists:
  assumes "core E0 E L s" and "gheap s' = gheap s" and "lists_ok s'"
  shows "core E0 E L s'"
proof -
  have "info s' = info s" "rc s' = rc s" using assms(2) by (simp_all add: info_def rc_def fun_eq_iff)
  moreover have "counts_ok (E0 + E) L s'"
    using coreD(5) [OF assms(1)] calculation assms(2) info_same_ok(4) [of s' s] by (simp add: counts_ok_def)
  ultimately show ?thesis using assms info_same_ok [of s' s] by (simp add: core_def)
qed

lemma core_mark:
  assumes "core E0 E L s"
  shows "core E0 E L (upd_obj a (set_mark m) s)"
proof -
  have "lists_ok (upd_obj a (set_mark m) s)" using coreD(1) [OF assms] by (simp add: lists_ok_def)
  moreover have "counts_ok (E0 + E) L (upd_obj a (set_mark m) s)"
    using coreD(5) [OF assms] info_same_ok(4) [of "upd_obj a (set_mark m) s" s L] by (simp add: counts_ok_def)
  ultimately show ?thesis
    using coreD(2-4) [OF assms] info_same_ok [of "upd_obj a (set_mark m) s" s] by (simp add: core_def)
qed

lemma in_one_list:
  assumes "lists_ok s" and "a \<in> dom (gheap s)"
  obtains "a \<in> set (gc_obj_list s)" "a \<notin> set (tmp_obj_list s)" "a \<notin> set (gc_zero_ref_count_list s)"
  | "a \<notin> set (gc_obj_list s)" "a \<in> set (tmp_obj_list s)" "a \<notin> set (gc_zero_ref_count_list s)"
  | "a \<notin> set (gc_obj_list s)" "a \<notin> set (tmp_obj_list s)" "a \<in> set (gc_zero_ref_count_list s)"
  using assms unfolding lists_ok_def by auto

lemma list_del_eq:
  assumes "lists_ok s" and "a \<in> dom (gheap s)"
  shows "list_del a s = Some (s\<lparr>gc_obj_list := remove1 a (gc_obj_list s), tmp_obj_list := remove1 a (tmp_obj_list s),
    gc_zero_ref_count_list := remove1 a (gc_zero_ref_count_list s)\<rparr>)"
  using assms by (cases rule: in_one_list) (cases s; simp add: list_del_def remove1_idem)+

lemma mset_remove_lists:
  assumes "lists_ok s" and "a \<in> dom (gheap s)"
  shows "mset (remove1 a (gc_obj_list s)) + mset (remove1 a (tmp_obj_list s)) + mset (remove1 a (gc_zero_ref_count_list s))
    + {#a#} = mset (gc_obj_list s @ tmp_obj_list s @ gc_zero_ref_count_list s)"
  using assms by (cases rule: in_one_list) (simp_all add: remove1_idem del: mset_remove1, simp_all)

text \<open>A freed object that nothing refers to leaves the heap.\<close>

definition unlinked :: "gc_data \<Rightarrow> bool" where
  "unlinked d \<longleftrightarrow> (case d of GModule m \<Rightarrow> m_link m = None | GContext ctx \<Rightarrow> loaded_modules ctx = [] | _ \<Rightarrow> True)"

lemma links_delete:
  assumes l: "links_ok s" and i: "\<And>x. info s' x = (if x = a then None else info s x)"
    and u: "\<And>ty d. info s a = Some (ty, d) \<Longrightarrow> unlinked d"
  shows "links_ok s'"
  unfolding links_ok_def
proof (intro conjI allI impI ballI)
  fix m ty d c
  assume m: "info s' m = Some (ty, GModule d)" "m_link d = Some c"
  then have im: "info s m = Some (ty, GModule d)" "m \<noteq> a" by (auto simp: i split: if_splits)
  then obtain ty' ctx where c: "info s c = Some (ty', GContext ctx)" "m \<in> set (loaded_modules ctx)"
    using l m(2) unfolding links_ok_def by blast
  then have "c \<noteq> a" using u by (fastforce simp: unlinked_def)
  then show "\<exists>ty' ctx. info s' c = Some (ty', GContext ctx) \<and> m \<in> set (loaded_modules ctx)" using c i by auto
next
  fix c ty ctx
  assume c: "info s' c = Some (ty, GContext ctx)"
  then have ic: "info s c = Some (ty, GContext ctx)" by (auto simp: i split: if_splits)
  then show "distinct (loaded_modules ctx)" using l unfolding links_ok_def by blast
  fix m assume "m \<in> set (loaded_modules ctx)"
  then obtain ty' d where m: "info s m = Some (ty', GModule d)" "m_link d = Some c"
    using l ic unfolding links_ok_def by blast
  then have "m \<noteq> a" using u by (fastforce simp: unlinked_def)
  then show "\<exists>ty' d. info s' m = Some (ty', GModule d) \<and> m_link d = Some c" using m i by auto
qed

lemma core_delete:
  assumes c: "core E0 E L s" and a: "a \<in> dom (gheap s) - L" and z: "rc s a = 0"
    and u: "\<And>ty d. info s a = Some (ty, d) \<Longrightarrow> unlinked d"
  shows "\<exists>s1. list_del a s = Some s1 \<and> core E0 E L (jsi_free_obj a s1) \<and> gheap s1 = gheap s \<and> gc_phase s1 = gc_phase s
    \<and> gc_obj_list s1 = remove1 a (gc_obj_list s) \<and> tmp_obj_list s1 = remove1 a (tmp_obj_list s)
    \<and> gc_zero_ref_count_list s1 = remove1 a (gc_zero_ref_count_list s)"
proof -
  let ?s1 = "s\<lparr>gc_obj_list := remove1 a (gc_obj_list s), tmp_obj_list := remove1 a (tmp_obj_list s),
    gc_zero_ref_count_list := remove1 a (gc_zero_ref_count_list s)\<rparr>"
  let ?s = "jsi_free_obj a ?s1"
  have ad: "a \<in> dom (gheap s)" using a by blast
  have ld: "list_del a s = Some ?s1" by (rule list_del_eq [OF coreD(1) [OF c] ad])
  have i: "info ?s x = (if x = a then None else info s x)" for x by (simp add: info_def jsi_free_obj_def)
  have r: "rc ?s x = (if x = a then 0 else rc s x)" for x by (simp add: rc_def jsi_free_obj_def)
  have dm: "dom (gheap ?s) = dom (gheap s) - {a}" by (auto simp: jsi_free_obj_def)
  have k: "kids ?s x = kids s x" if "x \<in> L" for x using that a by (auto simp: kids_def jsi_free_obj_def)
  then have ir: "in_refs L ?s = in_refs L s" by (simp add: in_refs_def)
  have "int (count (E0 + E + in_refs L s) a) \<le> rc s a" using coreD(5) [OF c] ad by (simp add: counts_ok_def)
  then have "count (E0 + E + in_refs L s) a = 0" using z by linarith
  then have na: "a \<notin># E0 + E + in_refs L s" by (simp only: count_eq_zero_iff not_False_eq_True)
  have "counts_ok (E0 + E) L ?s"
    unfolding counts_ok_def ir dm
  proof (intro conjI ballI allI impI)
    show "set_mset (E0 + E + in_refs L s) \<subseteq> dom (gheap s) - {a}" using coreD(5) [OF c] na by (auto simp: counts_ok_def)
    show "int (count (E0 + E + in_refs L s) b) \<le> rc ?s b" if "b \<in> dom (gheap s) - {a}" for b
      using coreD(5) [OF c] that unfolding r counts_ok_def by auto
    show "rc ?s b = int (count (E0 + E + in_refs L s) b)" if "b \<in> L" for b
      using coreD(5) [OF c] that a unfolding r counts_ok_def by auto
    show "rc ?s b = 0" if "b \<in> dom (gheap s) - {a} - L" "info ?s b = Some (ty, d)" "\<not> has_identity ty" for b ty d
    proof -
      have "b \<in> dom (gheap s) - L" "info s b = Some (ty, d)" using that by (auto simp: i split: if_splits)
      then have "rc s b = 0" using coreD(5) [OF c] that(3) by (metis counts_ok_def)
      then show ?thesis by (simp add: r)
    qed
  qed
  moreover have "lists_ok ?s"
  proof -
    have "mset (gc_obj_list ?s @ tmp_obj_list ?s @ gc_zero_ref_count_list ?s) + {#a#}
      = mset (gc_obj_list s @ tmp_obj_list s @ gc_zero_ref_count_list s)"
      using mset_remove_lists [OF coreD(1) [OF c] ad] by (simp add: jsi_free_obj_def add.assoc)
    then have m: "mset (gc_obj_list s @ tmp_obj_list s @ gc_zero_ref_count_list s)
      = mset (a # gc_obj_list ?s @ tmp_obj_list ?s @ gc_zero_ref_count_list ?s)" by simp
    have "distinct (a # gc_obj_list ?s @ tmp_obj_list ?s @ gc_zero_ref_count_list ?s)"
      using coreD(1) [OF c] mset_eq_imp_distinct_iff [OF m] by (simp add: lists_ok_def)
    moreover have "set (a # gc_obj_list ?s @ tmp_obj_list ?s @ gc_zero_ref_count_list ?s) = dom (gheap s)"
      using coreD(1) [OF c] mset_eq_setD [OF m] by (simp add: lists_ok_def)
    ultimately show ?thesis unfolding lists_ok_def dm by auto
  qed
  moreover have "heap_ok ?s" using coreD(2) [OF c] unfolding heap_ok_def dm i by auto
  moreover have "links_ok ?s" by (rule links_delete [OF coreD(3) [OF c] i u])
  moreover have "typed ?s r" if "typed s r" for r using that by (auto simp: typed_def i)
  then have "refs_ok E0 L ?s"
    using coreD(4) [OF c] a unfolding refs_ok_def dm i by (auto split: if_splits)
  ultimately show ?thesis using ld unfolding core_def by simp
qed

section \<open>Changes of data\<close>

fun erase :: "gc_data \<Rightarrow> gc_data" where
  "erase (GModule m) = GModule (m\<lparr>m_link := None\<rparr>)"
| "erase d = d"

lemma erase_simps [simp]:
  "refs (erase d) = refs d" "fits_data (erase d) = fits_data d" "running (erase d) = running d"
  "data_type (erase d) = data_type d" "no_weakref (erase d) = no_weakref d"
  by (cases d; simp)+

definition winfo :: "gc_rt \<Rightarrow> gaddr \<Rightarrow> (gc_obj_type \<times> gc_data) option" where
  "winfo s a = map_option (\<lambda>(ty, d). (ty, erase d)) (info s a)"

text \<open>Some objects, none with identity, have left; only links of modules have changed.\<close>

definition shrinks :: "gaddr set \<Rightarrow> gaddr set \<Rightarrow> gc_rt \<Rightarrow> gc_rt \<Rightarrow> bool" where
  "shrinks L D s s' \<longleftrightarrow> D \<subseteq> L
     \<and> (\<forall>a \<in> D. \<forall>ty d. info s a = Some (ty, d) \<longrightarrow> \<not> has_identity ty)
     \<and> (\<forall>a. winfo s' a = (if a \<in> D then None else winfo s a))"

lemma winfo_dom: "a \<in> dom (gheap s) \<longleftrightarrow> winfo s a \<noteq> None"
  by (auto simp: winfo_def info_def)

lemma winfo_kids: "winfo s' a = winfo s a \<Longrightarrow> kids s' a = kids s a"
  by (cases "gheap s a"; cases "gheap s' a") (auto simp: winfo_def info_def kids_def, (metis erase_simps(1))+)

lemma winfo_typed: "typed s r \<longleftrightarrow> (\<forall>ty d. winfo s (tgt r) = Some (ty, d) \<longrightarrow> ref_type_ok r ty)"
  by (auto simp: typed_def winfo_def)

lemma shrinks_refl: "info s' = info s \<Longrightarrow> shrinks L {} s s'"
  by (simp add: shrinks_def winfo_def)

lemma shrinks_typed: "shrinks L D s s' \<Longrightarrow> typed s r \<Longrightarrow> typed s' r"
  by (auto simp: winfo_typed shrinks_def split: if_splits)

lemma shrinks_dom: "shrinks L D s s' \<Longrightarrow> dom (gheap s') = dom (gheap s) - D"
  by (rule set_eqI) (simp add: winfo_dom shrinks_def)

lemma shrinks_type:
  assumes "shrinks L D s s'" and "info s' a = Some (ty, d)"
  shows "\<exists>d'. info s a = Some (ty, d') \<and> erase d' = erase d"
proof -
  have "winfo s' a = Some (ty, erase d)" using assms(2) by (simp add: winfo_def)
  then have "winfo s a = Some (ty, erase d)" using assms(1) by (auto simp: shrinks_def split: if_splits)
  then show ?thesis by (auto simp: winfo_def)
qed

lemma shrinks_trans:
  assumes "shrinks L D1 s s1" and "shrinks (L - D1) D2 s1 s2"
  shows "shrinks L (D1 \<union> D2) s s2"
  unfolding shrinks_def
proof (intro conjI ballI allI impI)
  show "D1 \<union> D2 \<subseteq> L" using assms by (auto simp: shrinks_def)
  fix a
  show "winfo s2 a = (if a \<in> D1 \<union> D2 then None else winfo s a)" using assms by (auto simp: shrinks_def)
  fix ty d
  assume a: "a \<in> D1 \<union> D2" "info s a = Some (ty, d)"
  show "\<not> has_identity ty"
  proof (cases "a \<in> D1")
    case False
    then have "winfo s1 a = winfo s a" using assms(1) by (simp add: shrinks_def)
    then obtain d' where "info s1 a = Some (ty, d')" using a(2) by (auto simp: winfo_def)
    then show ?thesis using assms(2) a(1) False by (auto simp: shrinks_def)
  qed (use a(2) assms(1) in \<open>auto simp: shrinks_def\<close>)
qed

lemma shrinks_mono: "shrinks L D s s' \<Longrightarrow> L \<subseteq> L' \<Longrightarrow> shrinks L' D s s'"
  by (auto simp: shrinks_def)

text \<open>Data that keeps its references may change.\<close>

lemma core_frame:
  assumes c: "core E0 E L s" and dm: "dom (gheap s') = dom (gheap s)" and r: "rc s' = rc s"
    and l: "gc_obj_list s' = gc_obj_list s" "tmp_obj_list s' = tmp_obj_list s"
      "gc_zero_ref_count_list s' = gc_zero_ref_count_list s"
    and ty: "\<And>a. map_option fst (info s' a) = map_option fst (info s a)"
    and ok: "heap_ok s'" "links_ok s'"
    and w: "\<And>a. a \<in> L \<Longrightarrow> winfo s' a = winfo s a"
  shows "core E0 E L s'"
proof -
  have k: "kids s' a = kids s a" if "a \<in> L" for a by (rule winfo_kids [OF w [OF that]])
  then have ir: "in_refs L s' = in_refs L s" by (simp add: in_refs_def)
  have ft: "(\<exists>d. info s' a = Some (t, d)) \<longleftrightarrow> (\<exists>d. info s a = Some (t, d))" for a t
  proof -
    have e: "(\<exists>d. info x a = Some (t, d)) \<longleftrightarrow> map_option fst (info x a) = Some t" for x by auto
    show ?thesis unfolding e ty ..
  qed
  then have t: "typed s' r \<longleftrightarrow> typed s r" for r unfolding typed_def by blast
  have "refs_ok E0 L s'"
    unfolding refs_ok_def
  proof (intro conjI ballI allI impI)
    show "L \<subseteq> dom (gheap s')" using coreD(7) [OF c] dm by simp
    fix a ty d
    assume a: "a \<in> L" "info s' a = Some (ty, d)"
    then have "winfo s a = Some (ty, erase d)" using w [OF a(1)] by (simp add: winfo_def)
    then obtain d' where d': "info s a = Some (ty, d')" "erase d' = erase d" by (auto simp: winfo_def)
    then have e: "fits_data d' = fits_data d" "running d' = running d" "refs d' = refs d" by (metis erase_simps)+
    have "fits_data d' \<and> (running d' \<longrightarrow> a \<in># E0) \<and> (\<forall>rs. refs d' = Some rs \<longrightarrow> (\<forall>r\<in>set rs. typed s r))"
      using coreD(4) [OF c] a(1) d'(1) by (simp add: refs_ok_def)
    then show "fits_data d" "running d \<Longrightarrow> a \<in># E0" "\<And>rs r. refs d = Some rs \<Longrightarrow> r \<in> set rs \<Longrightarrow> typed s' r"
      using e t by auto
  qed
  moreover have "counts_ok (E0 + E) L s'"
    using coreD(5) [OF c] ft unfolding counts_ok_def ir dm r by (metis (no_types, lifting))
  moreover have "lists_ok s'" using coreD(1) [OF c] l dm by (simp add: lists_ok_def)
  ultimately show ?thesis using ok by (simp add: core_def)
qed

text \<open>An object that is being freed changes its data.\<close>

lemma core_set_data:
  assumes c: "core E0 E L s" and a: "a \<notin> L" and i: "info s a = Some (ty, d)"
    and d: "data_type d' = ty" "no_weakref d'" "\<not> ty = TYPE_MODULE" "\<not> ty = TYPE_JSI_CONTEXT"
  shows "core E0 E L (upd_obj a (set_data d') s)"
proof (rule core_frame [OF c])
  let ?s = "upd_obj a (set_data d') s"
  have ia: "info ?s b = (if b = a then Some (ty, d') else info s b)" for b
    using i by (auto simp: info_def set_data_def)
  have dd: "data_type d = ty" using coreD(2) [OF c] i by (simp add: heap_ok_def)
  show "rc ?s = rc s" by (simp add: fun_eq_iff)
  show "map_option fst (info ?s b) = map_option fst (info s b)" for b using i by (simp add: ia)
  show "heap_ok ?s" using coreD(2) [OF c] d unfolding heap_ok_def ia by auto
  have nd: "\<not> (\<exists>m. d' = GModule m)" "\<not> (\<exists>m. d' = GContext m)" "\<not> (\<exists>m. d = GModule m)" "\<not> (\<exists>m. d = GContext m)"
    using d dd by auto
  show "links_ok ?s"
    unfolding links_ok_def ia
  proof (intro conjI allI impI ballI)
    fix m t x c'
    assume "(if m = a then Some (ty, d') else info s m) = Some (t, GModule x)" "m_link x = Some c'"
    then have "info s m = Some (t, GModule x)" "m_link x = Some c'" using nd by (auto split: if_splits)
    then obtain t' ctx where "info s c' = Some (t', GContext ctx)" "m \<in> set (loaded_modules ctx)"
      using coreD(3) [OF c] unfolding links_ok_def by blast
    then show "\<exists>t' ctx. (if c' = a then Some (ty, d') else info s c') = Some (t', GContext ctx) \<and> m \<in> set (loaded_modules ctx)"
      using nd i by auto
  next
    fix c' t ctx
    assume "(if c' = a then Some (ty, d') else info s c') = Some (t, GContext ctx)"
    then have ic: "info s c' = Some (t, GContext ctx)" using nd by (auto split: if_splits)
    then show "distinct (loaded_modules ctx)" using coreD(3) [OF c] unfolding links_ok_def by blast
    fix m assume "m \<in> set (loaded_modules ctx)"
    then obtain t' x where "info s m = Some (t', GModule x)" "m_link x = Some c'"
      using coreD(3) [OF c] ic unfolding links_ok_def by blast
    then show "\<exists>t' x. (if m = a then Some (ty, d') else info s m) = Some (t', GModule x) \<and> m_link x = Some c'"
      using nd i by auto
  qed
  show "winfo ?s b = winfo s b" if "b \<in> L" for b using that a by (auto simp: winfo_def ia)
qed simp_all

text \<open>A module leaves the list of its context.\<close>

lemma module_unlink_ok:
  assumes c: "core E0 E L s" and ic: "info s c = Some (ty, GContext ctx)" and m: "m \<in> set (loaded_modules ctx)"
  obtains s' tm d where "module_unlink m s = Some s'" "info s m = Some (tm, GModule d)" "m \<noteq> c"
    "info s' = (info s)(m \<mapsto> (tm, GModule (d\<lparr>m_link := None\<rparr>)),
       c \<mapsto> (ty, GContext (ctx\<lparr>loaded_modules := remove1 m (loaded_modules ctx)\<rparr>)))"
    "rc s' = rc s" "dom (gheap s') = dom (gheap s)" "gc_phase s' = gc_phase s \<and> mk s' = mk s"
    "gc_obj_list s' = gc_obj_list s" "tmp_obj_list s' = tmp_obj_list s"
    "gc_zero_ref_count_list s' = gc_zero_ref_count_list s" "heap_ok s'" "links_ok s'"
proof -
  have lk: "links_ok s" by (rule coreD(3) [OF c])
  obtain tm d where im: "info s m = Some (tm, GModule d)" "m_link d = Some c"
    using lk ic m unfolding links_ok_def by blast
  have mc: "m \<noteq> c" using im(1) ic by auto
  obtain p where p: "gheap s m = Some p" "g_type p = tm" "g_data p = GModule d" using im(1) by (auto simp: info_def)
  obtain q where q: "gheap s c = Some q" "g_type q = ty" "g_data q = GContext ctx" using ic by (auto simp: info_def)
  let ?d = "GModule (d\<lparr>m_link := None\<rparr>)"
  let ?x = "GContext (ctx\<lparr>loaded_modules := remove1 m (loaded_modules ctx)\<rparr>)"
  let ?s = "upd_obj m (set_data ?d) (upd_obj c (set_data ?x) s)"
  have i: "info ?s x = (if x = m then Some (tm, ?d) else if x = c then Some (ty, ?x) else info s x)" for x
    using p q mc by (auto simp: info_def set_data_def)
  have "module_unlink m s = Some ?s" using p q im(2) m by (simp add: module_unlink_def)
  moreover have "heap_ok ?s"
  proof -
    have "data_type (GModule d) = tm" "data_type (GContext ctx) = ty"
      using coreD(2) [OF c] im(1) ic unfolding heap_ok_def by blast+
    then show ?thesis using coreD(2) [OF c] unfolding heap_ok_def i by auto
  qed
  moreover have "links_ok ?s"
    unfolding links_ok_def
  proof (intro conjI allI impI ballI)
    fix m' t e c'
    assume a: "info ?s m' = Some (t, GModule e)" "m_link e = Some c'"
    then have n: "m' \<noteq> m" "m' \<noteq> c" by (auto simp: i split: if_splits)
    then have "info s m' = Some (t, GModule e)" using a(1) by (simp add: i)
    then obtain t' x' where x': "info s c' = Some (t', GContext x')" "m' \<in> set (loaded_modules x')"
      using lk a(2) unfolding links_ok_def by blast
    have "c' \<noteq> m" using x'(1) im(1) by auto
    then show "\<exists>t' x'. info ?s c' = Some (t', GContext x') \<and> m' \<in> set (loaded_modules x')"
    proof (cases "c' = c")
      case True
      then have "info ?s c' = Some (ty, ?x)" using mc by (simp add: i)
      moreover have "x' = ctx" using True x'(1) ic by simp
      ultimately show ?thesis using x'(2) n(1) by simp
    qed (use x' in \<open>auto simp: i\<close>)
  next
    fix c' t x'
    assume a: "info ?s c' = Some (t, GContext x')"
    then have cm: "c' \<noteq> m" by (auto simp: i)
    obtain y where y: "info s c' = Some (t, GContext y)" "x' = (if c' = c then ctx\<lparr>loaded_modules := remove1 m (loaded_modules ctx)\<rparr> else y)"
      "c' = c \<longrightarrow> y = ctx"
      using a cm ic by (auto simp: i split: if_splits)
    have dy: "distinct (loaded_modules y)" using lk y(1) unfolding links_ok_def by blast
    then show "distinct (loaded_modules x')" using y by (auto split: if_splits)
    fix m' assume m': "m' \<in> set (loaded_modules x')"
    then have "m' \<in> set (loaded_modules y)" using y by (auto split: if_splits dest: set_remove1_subset [THEN subsetD])
    then obtain t' e where e: "info s m' = Some (t', GModule e)" "m_link e = Some c'"
      using lk y(1) unfolding links_ok_def by blast
    have "m' \<noteq> m"
    proof
      assume eq: "m' = m"
      then have "c' = c" using e im by simp
      then show False using m' y dy eq by auto
    qed
    moreover have "m' \<noteq> c" using e(1) ic by auto
    ultimately show "\<exists>t' e. info ?s m' = Some (t', GModule e) \<and> m_link e = Some c'" using e by (auto simp: i)
  qed
  ultimately show ?thesis using that [of ?s tm d] im(1) mc i by (simp add: fun_eq_iff)
qed

text \<open>\ldots a context that is being freed:\<close>

lemma core_unlink_out:
  assumes c: "core E0 E L s" and ic: "info s c = Some (ty, GContext ctx)" and m: "m \<in> set (loaded_modules ctx)"
    and cL: "c \<notin> L"
  obtains s' where "module_unlink m s = Some s'" "core E0 E L s'" "rc s' = rc s" "gc_phase s' = gc_phase s \<and> mk s' = mk s"
    "gc_obj_list s' = gc_obj_list s" "tmp_obj_list s' = tmp_obj_list s"
    "gc_zero_ref_count_list s' = gc_zero_ref_count_list s"
    "info s' c = Some (ty, GContext (ctx\<lparr>loaded_modules := remove1 m (loaded_modules ctx)\<rparr>))"
    "\<forall>x. x \<noteq> c \<longrightarrow> winfo s' x = winfo s x"
proof -
  obtain s' tm d where s': "module_unlink m s = Some s'" "info s m = Some (tm, GModule d)" "m \<noteq> c"
    "info s' = (info s)(m \<mapsto> (tm, GModule (d\<lparr>m_link := None\<rparr>)),
       c \<mapsto> (ty, GContext (ctx\<lparr>loaded_modules := remove1 m (loaded_modules ctx)\<rparr>)))"
    "rc s' = rc s" "dom (gheap s') = dom (gheap s)" "gc_phase s' = gc_phase s \<and> mk s' = mk s"
    "gc_obj_list s' = gc_obj_list s" "tmp_obj_list s' = tmp_obj_list s"
    "gc_zero_ref_count_list s' = gc_zero_ref_count_list s" "heap_ok s'" "links_ok s'"
    using module_unlink_ok [OF c ic m] .
  have w: "winfo s' x = winfo s x" if "x \<noteq> c" for x using that s'(2) by (simp add: winfo_def s'(4))
  have "core E0 E L s'"
  proof (rule core_frame [OF c s'(6) s'(5) s'(8-10) _ s'(11,12)])
    show "map_option fst (info s' x) = map_option fst (info s x)" for x using s'(2) ic by (simp add: s'(4))
    show "winfo s' x = winfo s x" if "x \<in> L" for x by (rule w) (use that cL in blast)
  qed
  then show ?thesis using that [of s'] s' w by simp
qed

text \<open>\ldots and a module that is being freed.\<close>

lemma core_unlink_in:
  assumes c: "core E0 E L s" and im: "info s m = Some (tm, GModule d)" "m_link d = Some x"
    and mL: "m \<notin> L" and xL: "x \<in> L"
  obtains s' where "module_unlink m s = Some s'" "core E0 E L s'" "rc s' = rc s" "gc_phase s' = gc_phase s \<and> mk s' = mk s"
    "gc_obj_list s' = gc_obj_list s" "tmp_obj_list s' = tmp_obj_list s"
    "gc_zero_ref_count_list s' = gc_zero_ref_count_list s" "info s' m = Some (tm, GModule (d\<lparr>m_link := None\<rparr>))"
    "m \<in># kids s x" "kids s' x = kids s x - {#m#}" "\<forall>y. map_option fst (info s' y) = map_option fst (info s y)"
    "\<forall>y. y \<noteq> x \<longrightarrow> winfo s' y = winfo s y"
proof -
  obtain ty ctx where ix: "info s x = Some (ty, GContext ctx)" "m \<in> set (loaded_modules ctx)"
    using coreD(3) [OF c] im unfolding links_ok_def by blast
  obtain s' tm' d' where s': "module_unlink m s = Some s'" "info s m = Some (tm', GModule d')" "m \<noteq> x"
    "info s' = (info s)(m \<mapsto> (tm', GModule (d'\<lparr>m_link := None\<rparr>)),
       x \<mapsto> (ty, GContext (ctx\<lparr>loaded_modules := remove1 m (loaded_modules ctx)\<rparr>)))"
    "rc s' = rc s" "dom (gheap s') = dom (gheap s)" "gc_phase s' = gc_phase s \<and> mk s' = mk s"
    "gc_obj_list s' = gc_obj_list s" "tmp_obj_list s' = tmp_obj_list s"
    "gc_zero_ref_count_list s' = gc_zero_ref_count_list s" "heap_ok s'" "links_ok s'"
    using module_unlink_ok [OF c ix] .
  have dd: "tm' = tm" "d' = d" using s'(2) im(1) by simp_all
  let ?ctx = "ctx\<lparr>loaded_modules := remove1 m (loaded_modules ctx)\<rparr>"
  have w: "winfo s' y = winfo s y" if "y \<noteq> x" for y using that s'(2) by (simp add: winfo_def s'(4))
  have k: "kids s' y = kids s y" if "y \<noteq> x" for y by (rule winfo_kids [OF w [OF that]])
  have kx: "kids t x = mset (loaded_modules y) + (mset (map tgt (free_values (context_values y))) + mset (map tgt (free_opt RShape (array_shape y))))"
    if "info t x = Some (z, GContext y)" for t y z
    using that by (auto simp: info_def kids_def)
  have mk: "m \<in># kids s x" using kx [OF ix(1)] ix(2) by simp
  have ks: "kids s' x = kids s x - {#m#}"
  proof -
    have "info s' x = Some (ty, GContext ?ctx)" using s'(3) by (simp add: s'(4))
    from kx [OF this] kx [OF ix(1)] show ?thesis
      using ix(2) by (simp add: context_values_def)
  qed
  have ft: "map_option fst (info s' y) = map_option fst (info s y)" for y using s'(2) ix(1) by (simp add: s'(4))
  have ir: "in_refs L s = add_mset m (in_refs L s')"
  proof -
    have "in_refs (L - {x}) s' = in_refs (L - {x}) s" using k by (simp add: in_refs_def)
    then show ?thesis
      using in_refs_remove [OF coreD(8) [OF c] xL, of s] in_refs_remove [OF coreD(8) [OF c] xL, of s'] ks mk by simp
  qed
  have "(\<exists>e. info s' y = Some (t, e)) \<longleftrightarrow> (\<exists>e. info s y = Some (t, e))" for y t
  proof -
    have e: "(\<exists>d. info u y = Some (t, d)) \<longleftrightarrow> map_option fst (info u y) = Some t" for u by auto
    show ?thesis unfolding e ft ..
  qed
  then have t: "typed s' r \<longleftrightarrow> typed s r" for r unfolding typed_def by blast
  have "refs_ok E0 L s'"
    unfolding refs_ok_def
  proof (intro conjI ballI allI impI)
    show "L \<subseteq> dom (gheap s')" using coreD(7) [OF c] s'(6) by simp
    fix y ty' e
    assume y: "y \<in> L" "info s' y = Some (ty', e)"
    obtain e' where e': "info s y = Some (ty', e')" "fits_data e' = fits_data e" "running e' = running e"
      "set (the (refs e)) \<subseteq> set (the (refs e'))" "refs e' = None \<longleftrightarrow> refs e = None"
    proof (cases "y = x")
      case True
      then have "e = GContext ?ctx" "ty' = ty" using y(2) s'(3,4) by simp_all
      moreover have "context_values ?ctx = context_values ctx" by (simp add: context_values_def)
      ultimately show ?thesis using that [of "GContext ctx"] ix(1) True set_remove1_subset [of m "loaded_modules ctx"]
        by (simp add: image_mono le_supI1 le_supI2)
    next
      case False
      have "winfo s' y = Some (ty', erase e)" using y(2) by (simp add: winfo_def)
      then have "winfo s y = Some (ty', erase e)" using w [OF False] by simp
      then obtain e' where "info s y = Some (ty', e')" "erase e' = erase e" by (auto simp: winfo_def)
      then show ?thesis using that [of e'] by (metis erase_simps(1-3) order_refl)
    qed
    have "fits_data e' \<and> (running e' \<longrightarrow> y \<in># E0) \<and> (\<forall>rs. refs e' = Some rs \<longrightarrow> (\<forall>r\<in>set rs. typed s r))"
      using coreD(4) [OF c] y(1) e'(1) by (simp add: refs_ok_def)
    then show "fits_data e" "running e \<Longrightarrow> y \<in># E0" "\<And>rs r. refs e = Some rs \<Longrightarrow> r \<in> set rs \<Longrightarrow> typed s' r"
      using e'(2-5) t by (auto dest!: subsetD)
  qed
  moreover have "counts_ok (E0 + E) L s'"
    unfolding counts_ok_def s'(5,6)
  proof (intro conjI ballI allI impI)
    have k': "counts_ok (E0 + E) L s" by (rule coreD(5) [OF c])
    show "set_mset (E0 + E + in_refs L s') \<subseteq> dom (gheap s)" using k' ir by (auto simp: counts_ok_def)
    show "int (count (E0 + E + in_refs L s') b) \<le> rc s b" if "b \<in> dom (gheap s)" for b
    proof -
      have "int (count (E0 + E + in_refs L s) b) \<le> rc s b" using k' that by (simp add: counts_ok_def)
      then show ?thesis using ir by (simp split: if_splits)
    qed
    show "rc s b = int (count (E0 + E + in_refs L s') b)" if "b \<in> L" for b
    proof -
      have "rc s b = int (count (E0 + E + in_refs L s) b)" "b \<noteq> m" using k' that mL by (auto simp: counts_ok_def)
      then show ?thesis using ir by simp
    qed
    show "rc s b = 0" if "b \<in> dom (gheap s) - L" "info s' b = Some (ty', e)" "\<not> has_identity ty'" for b ty' e
    proof -
      have "map_option fst (info s b) = Some ty'" using that(2) ft [of b] by simp
      then obtain e' where "info s b = Some (ty', e')" by auto
      then show ?thesis using k' that(1,3) by (auto simp: counts_ok_def)
    qed
  qed
  moreover have "lists_ok s'" using coreD(1) [OF c] s'(6,8-10) by (simp add: lists_ok_def)
  ultimately have "core E0 E L s'" using s'(11,12) by (simp add: core_def)
  moreover have "info s' m = Some (tm, GModule (d\<lparr>m_link := None\<rparr>))" using s'(3,4) dd by simp
  ultimately show ?thesis using that [OF s'(1)] s'(5,7-10) mk ks ft w by blast
qed

end
