(* ===== verification/QGcRelease.thy ===== *)
theory QGcRelease
  imports QGcFree
begin

text \<open>
  The locale \<open>releasing\<close>: a phase of the runtime in which a value whose count drops to zero is only
  noted. Its laws are what the phase promises about one count, one list and one object; in it, giving
  up any references of any kind succeeds, keeps the invariant, and frees no object with identity.
\<close>

lemma foldm_append: "foldm f (xs @ ys) s = foldm f xs s \<bind> foldm f ys"
  by (induction xs arbitrary: s) (auto split: Option.bind_splits)

locale releasing =
  fixes E0 :: "gaddr multiset"
    and K :: "gaddr set"
    and P :: "gaddr multiset \<Rightarrow> gaddr set \<Rightarrow> gc_rt \<Rightarrow> bool"
    and fz :: "gc_rt \<Rightarrow> gc_rt option"
  assumes P_core: "P E L s \<Longrightarrow> core E0 E L s"
    and P_value: "P (add_mset a E) L s \<Longrightarrow> typed s (RValue a) \<Longrightarrow>
      \<exists>s'. free_value_rt fz a s = Some s' \<and> P E L s' \<and> info s' = info s"
    and P_async: "P (add_mset a E) L s \<Longrightarrow> typed s (RAsync a) \<Longrightarrow>
      \<exists>s'. async_func_free fz a s = Some s' \<and> P E L s' \<and> info s' = info s"
    and P_dec: "P (add_mset a E) L s \<Longrightarrow> info s a = Some (ty, d) \<Longrightarrow> \<not> has_identity ty \<Longrightarrow> 1 < rc s a \<Longrightarrow>
      P E L (upd_obj a (add_count (- 1)) s)"
    and P_detach: "P (add_mset a E) L s \<Longrightarrow> info s a = Some (ty, d) \<Longrightarrow> \<not> has_identity ty \<Longrightarrow> rc s a = 1 \<Longrightarrow>
      P (kids s a + E) (L - {a}) (upd_obj a (add_count (- 1)) s)"
    and P_delete: "P E L s \<Longrightarrow> a \<notin> L \<Longrightarrow> info s a = Some (ty, d) \<Longrightarrow> \<not> has_identity ty \<Longrightarrow> unlinked d \<Longrightarrow>
      \<exists>s1. list_del a s = Some s1 \<and> P E L (jsi_free_obj a s1) \<and> gheap s1 = gheap s"
    and P_frame: "P E L s \<Longrightarrow> core E0 E L s' \<Longrightarrow> rc s' = rc s \<Longrightarrow> gc_phase s' = gc_phase s \<and> mk s' = mk s \<Longrightarrow>
      gc_obj_list s' = gc_obj_list s \<Longrightarrow> tmp_obj_list s' = tmp_obj_list s \<Longrightarrow>
      gc_zero_ref_count_list s' = gc_zero_ref_count_list s \<Longrightarrow>
      (\<And>x. map_option fst (info s' x) = map_option fst (info s x)) \<Longrightarrow>
      (\<And>x. x \<in> L \<Longrightarrow> kids s' x = kids s x) \<Longrightarrow> P E L s'"
    and P_unlink: "P E L s \<Longrightarrow> info s m = Some (tm, GModule md) \<Longrightarrow> m_link md = Some c \<Longrightarrow> m \<notin> L \<Longrightarrow> c \<in> L \<Longrightarrow>
      \<exists>s'. module_unlink m s = Some s' \<and> P E L s' \<and> info s' m = Some (tm, GModule (md\<lparr>m_link := None\<rparr>))
        \<and> (\<forall>y. map_option fst (info s' y) = map_option fst (info s y)) \<and> (\<forall>y \<in> K. winfo s' y = winfo s y)"
begin

lemma target:
  assumes "P (add_mset a E) L s"
  obtains p where "gheap s a = Some p" "info s a = Some (g_type p, g_data p)" "g_ref_count p = rc s a"
    "1 \<le> rc s a" "data_type (g_data p) = g_type p"
proof -
  note c = P_core [OF assms]
  obtain p where p: "gheap s a = Some p" "info s a = Some (g_type p, g_data p)" "g_ref_count p = rc s a"
    using core_target(1) [OF c] by (rule infoE)
  then have "data_type (g_data p) = g_type p" using coreD(2) [OF c] by (simp add: heap_ok_def)
  then show ?thesis using that p core_target(2) [OF c] by blast
qed

lemma target_owner:
  assumes "P (add_mset a E) L s" and "info s a = Some (ty, d)" and "\<not> has_identity ty"
  shows "a \<in> L"
proof (rule ccontr)
  note c = P_core [OF assms(1)]
  assume "a \<notin> L"
  then have "rc s a = 0" using coreD(5) [OF c] core_target(1) [OF c] assms(2,3) by (auto simp: counts_ok_def)
  then show False using core_target(2) [OF c] by simp
qed

lemma value_list:
  assumes "P (mset xs + E) L s" and "\<forall>x \<in> set xs. typed s (RValue x)"
  shows "\<exists>s'. foldm (free_value_rt fz) xs s = Some s' \<and> P E L s' \<and> info s' = info s"
  using assms
proof (induction xs arbitrary: s)
  case (Cons x xs)
  obtain s1 where s1: "free_value_rt fz x s = Some s1" "P (mset xs + E) L s1" "info s1 = info s"
    using P_value [of x "mset xs + E" L s] Cons.prems by auto
  then obtain s2 where "foldm (free_value_rt fz) xs s1 = Some s2" "P E L s2" "info s2 = info s1"
    using Cons.IH [of s1] Cons.prems(2) info_same_typed [OF s1(3)] by auto
  then show ?case using s1 by auto
qed simp

lemma finish:
  assumes "P E L s" and "a \<notin> L" and "info s a = Some (ty, d)" and "\<not> has_identity ty" and "unlinked d"
  shows "\<exists>s'. do { s \<leftarrow> list_del a s; Some (jsi_free_obj a s) } = Some s' \<and> P E L s'
    \<and> (\<forall>x. info s' x = (if x = a then None else info s x))"
proof -
  obtain s1 where "list_del a s = Some s1" "P E L (jsi_free_obj a s1)" "gheap s1 = gheap s"
    using P_delete [OF assms] by blast
  moreover have "info (jsi_free_obj a s1) x = (if x = a then None else info s x)" for x
    using calculation(3) by (simp add: info_def jsi_free_obj_def)
  ultimately show ?thesis by auto
qed

lemma shrinks_one:
  assumes "a \<in> L" and "info s a = Some (ty, d)" and "\<not> has_identity ty"
    and "\<forall>x. info s' x = (if x = a then None else info s x)"
  shows "shrinks L {a} s s'"
  using assms by (simp add: shrinks_def winfo_def)

lemma kids_info: "info s a = Some (ty, d) \<Longrightarrow> refs d = Some rs \<Longrightarrow> kids s a = mset (map tgt rs)"
  by (auto simp: info_def kids_def)

lemma owner_typed:
  assumes "P E L s" and "a \<in> L" and "info s a = Some (ty, d)" and "refs d = Some rs"
  shows "\<forall>r \<in> set rs. typed s r"
  using coreD(4) [OF P_core [OF assms(1)]] assms(2-) by (simp add: refs_ok_def)

lemma shape:
  assumes P: "P (add_mset a E) L s" and t: "typed s (RShape a)"
  shows "\<exists>s' D. jsi_free_shape fz a s = Some s' \<and> P E (L - D) s' \<and> shrinks L D s s'"
proof -
  obtain p where p: "gheap s a = Some p" "info s a = Some (g_type p, g_data p)" "g_ref_count p = rc s a"
    "1 \<le> rc s a" "data_type (g_data p) = g_type p" using target [OF P] .
  have ty: "g_type p = TYPE_SHAPE" using t p(2) by (simp add: typed_def)
  then obtain proto where d: "g_data p = GShape proto" using p(5) by (cases "g_data p") auto
  have ni: "\<not> has_identity (g_type p)" using ty by (simp add: has_identity_def)
  have aL: "a \<in> L" by (rule target_owner [OF P p(2) ni])
  let ?s1 = "upd_obj a (add_count (- 1)) s"
  show ?thesis
  proof (cases "rc s a = 1")
    case False
    then have "1 < rc s a" using p(4) by simp
    then have "P E (L - {}) ?s1" "jsi_free_shape fz a s = Some ?s1"
      using P_dec [OF P p(2) ni] p by (simp_all add: jsi_free_shape_def)
    moreover have "shrinks L {} s ?s1" by (rule shrinks_refl) simp
    ultimately show ?thesis by blast
  next
    case True
    have rs: "refs (g_data p) = Some (free_opt RValue proto)" using d by simp
    have P1: "P (mset (mark_opt proto) + E) (L - {a}) ?s1"
      using P_detach [OF P p(2) ni True] kids_info [OF p(2) rs] by (simp del: mset_map)
    moreover have "\<forall>x \<in> set (mark_opt proto). typed ?s1 (RValue x)"
      using owner_typed [OF P aL p(2) rs] info_same_typed [of ?s1 s] by (cases proto) auto
    ultimately obtain s2 where s2: "foldm (free_value_rt fz) (mark_opt proto) ?s1 = Some s2"
      "P E (L - {a}) s2" "info s2 = info ?s1" using value_list by blast
    have "unlinked (g_data p)" using d by (simp add: unlinked_def)
    then obtain s3 where s3: "do { s \<leftarrow> list_del a s2; Some (jsi_free_obj a s) } = Some s3" "P E (L - {a}) s3"
      "\<forall>x. info s3 x = (if x = a then None else info s x)"
      using finish [OF s2(2), of a "g_type p" "g_data p"] s2(3) p(2) ni by auto
    have "g_ref_count (add_count (- 1) p) = 0" using p(3) True by (simp add: add_count_def)
    then have "jsi_free_shape fz a s = Some s3"
      using p(1,3) True s2(1) s3(1) d by (simp add: jsi_free_shape_def jsi_free_shape0_def add_count_def)
    then show ?thesis using s3 shrinks_one [OF aL p(2) ni s3(3)] by blast
  qed
qed

lemma var_ref:
  assumes P: "P (add_mset a E) L s" and t: "typed s (RVarRef a)"
  shows "\<exists>s' D. free_var_ref fz a s = Some s' \<and> P E (L - D) s' \<and> shrinks L D s s'"
proof -
  obtain p where p: "gheap s a = Some p" "info s a = Some (g_type p, g_data p)" "g_ref_count p = rc s a"
    "1 \<le> rc s a" "data_type (g_data p) = g_type p" using target [OF P] .
  have ty: "g_type p = TYPE_VAR_REF" using t p(2) by (simp add: typed_def)
  have ni: "\<not> has_identity (g_type p)" using ty by (simp add: has_identity_def)
  have aL: "a \<in> L" by (rule target_owner [OF P p(2) ni])
  let ?s1 = "upd_obj a (add_count (- 1)) s"
  show ?thesis
  proof (cases "rc s a = 1")
    case False
    then have "1 < rc s a" using p(4) by simp
    then have "P E (L - {}) ?s1" "free_var_ref fz a s = Some ?s1"
      using P_dec [OF P p(2) ni] p by (simp_all add: free_var_ref_def)
    moreover have "shrinks L {} s ?s1" by (rule shrinks_refl) simp
    ultimately show ?thesis by blast
  next
    case True
    let ?body = "case g_data p of GDetached v \<Rightarrow> foldm (free_value_rt fz) (JSI_MarkValue v) ?s1
      | GOnStack f \<Rightarrow> foldm (async_func_free fz) (mark_opt f) ?s1 | _ \<Rightarrow> None"
    have P1: "P (kids s a + E) (L - {a}) ?s1" by (rule P_detach [OF P p(2) ni True])
    have "\<exists>s2. ?body = Some s2 \<and> P E (L - {a}) s2 \<and> info s2 = info ?s1"
    proof (cases "g_data p")
      case (GDetached v)
      then have rs: "refs (g_data p) = Some (free_values [v])" by simp
      have "P (mset (JSI_MarkValue v) + E) (L - {a}) ?s1" using P1 kids_info [OF p(2) rs] by (simp del: mset_map)
      moreover have "\<forall>x \<in> set (JSI_MarkValue v). typed ?s1 (RValue x)"
        using owner_typed [OF P aL p(2) rs] info_same_typed [of ?s1 s] by auto
      ultimately show ?thesis using value_list [of "JSI_MarkValue v" E "L - {a}" ?s1] GDetached by simp
    next
      case (GOnStack f)
      then have rs: "refs (g_data p) = Some (free_opt RAsync f)" by simp
      show ?thesis
      proof (cases f)
        case None
        then show ?thesis using P1 kids_info [OF p(2) rs] GOnStack by simp
      next
        case (Some b)
        have "P (add_mset b E) (L - {a}) ?s1" using P1 kids_info [OF p(2) rs] Some by simp
        moreover have "typed ?s1 (RAsync b)"
          using owner_typed [OF P aL p(2) rs] info_same_typed [of ?s1 s] Some by auto
        ultimately obtain s2 where "async_func_free fz b ?s1 = Some s2" "P E (L - {a}) s2" "info s2 = info ?s1"
          using P_async by blast
        then show ?thesis using GOnStack Some by auto
      qed
    qed (use p(5) ty in auto)
    then obtain s2 where s2: "?body = Some s2" "P E (L - {a}) s2" "info s2 = info ?s1" by blast
    have "unlinked (g_data p)" using p(5) ty by (cases "g_data p") (auto simp: unlinked_def)
    then obtain s3 where s3: "do { s \<leftarrow> list_del a s2; Some (jsi_free_obj a s) } = Some s3" "P E (L - {a}) s3"
      "\<forall>x. info s3 x = (if x = a then None else info s x)"
      using finish [OF s2(2), of a "g_type p" "g_data p"] s2(3) p(2) ni by auto
    have "free_var_ref fz a s = Some s3"
      using p(1,3) True s2(1) s3(1) by (simp add: free_var_ref_def Let_def)
    then show ?thesis using s3 shrinks_one [OF aL p(2) ni s3(3)] by blast
  qed
qed

lemma modules:
  assumes "P (mset ms + E) L s" and "c \<notin> L" and "info s c = Some (ty, GContext ctx)" and "loaded_modules ctx = ms"
  shows "\<exists>s'. foldm (\<lambda>m s. do { s \<leftarrow> module_unlink m s; free_value_rt fz m s }) ms s = Some s' \<and> P E L s'
    \<and> info s' c = Some (ty, GContext (ctx\<lparr>loaded_modules := []\<rparr>)) \<and> (\<forall>x. x \<noteq> c \<longrightarrow> winfo s' x = winfo s x)"
  using assms
proof (induction ms arbitrary: s ctx)
  case Nil
  then have "ctx\<lparr>loaded_modules := []\<rparr> = ctx" by simp
  then show ?case using Nil by simp
next
  case (Cons m ms)
  note c = P_core [OF Cons.prems(1)]
  have m: "m \<in> set (loaded_modules ctx)" using Cons.prems(4) by simp
  obtain s1 where s1: "module_unlink m s = Some s1" "core E0 (mset (m # ms) + E) L s1" "rc s1 = rc s"
    "gc_phase s1 = gc_phase s \<and> mk s1 = mk s" "gc_obj_list s1 = gc_obj_list s" "tmp_obj_list s1 = tmp_obj_list s"
    "gc_zero_ref_count_list s1 = gc_zero_ref_count_list s"
    "info s1 c = Some (ty, GContext (ctx\<lparr>loaded_modules := remove1 m (loaded_modules ctx)\<rparr>))"
    "\<forall>x. x \<noteq> c \<longrightarrow> winfo s1 x = winfo s x"
    using core_unlink_out [OF c Cons.prems(3) m Cons.prems(2)] .
  let ?ctx = "ctx\<lparr>loaded_modules := ms\<rparr>"
  have ic: "info s1 c = Some (ty, GContext ?ctx)" using s1(8) Cons.prems(4) by simp
  have "P (mset (m # ms) + E) L s1"
  proof (rule P_frame [OF Cons.prems(1) s1(2-7)])
    show "map_option fst (info s1 x) = map_option fst (info s x)" for x
    proof (cases "x = c")
      case False
      then have "map_option fst (winfo s1 x) = map_option fst (winfo s x)" using s1(9) by simp
      then show ?thesis by (simp add: winfo_def option.map_comp comp_def case_prod_unfold)
    qed (use ic Cons.prems(3) in simp)
    show "kids s1 x = kids s x" if "x \<in> L" for x
    proof (rule winfo_kids)
      have "x \<noteq> c" using that Cons.prems(2) by blast
      then show "winfo s1 x = winfo s x" using s1(9) by simp
    qed
  qed
  moreover have "typed s1 (RValue m)"
  proof -
    obtain t d where "info s1 m = Some (t, GModule d)"
    proof -
      obtain t d where i: "info s m = Some (t, GModule d)"
        using coreD(3) [OF c] Cons.prems(3) m unfolding links_ok_def by blast
      then have "m \<noteq> c" using Cons.prems(3) by auto
      then have "winfo s1 m = Some (t, erase (GModule d))" using s1(9) i by (simp add: winfo_def)
      then obtain e where e: "info s1 m = Some (t, e)" "erase e = erase (GModule d)" by (auto simp: winfo_def)
      then show ?thesis using that by (cases e) auto
    qed
    moreover have "data_type (GModule d) = t" using coreD(2) [OF s1(2)] calculation unfolding heap_ok_def by blast
    ultimately show ?thesis by (auto simp: typed_def)
  qed
  ultimately obtain s2 where s2: "free_value_rt fz m s1 = Some s2" "P (mset ms + E) L s2" "info s2 = info s1"
    using P_value [of m "mset ms + E" L s1] by auto
  have "\<exists>s'. foldm (\<lambda>m s. do { s \<leftarrow> module_unlink m s; free_value_rt fz m s }) ms s2 = Some s' \<and> P E L s'
    \<and> info s' c = Some (ty, GContext (?ctx\<lparr>loaded_modules := []\<rparr>)) \<and> (\<forall>x. x \<noteq> c \<longrightarrow> winfo s' x = winfo s2 x)"
    by (rule Cons.IH [OF s2(2) Cons.prems(2)]) (use ic s2(3) in simp_all)
  moreover have "winfo s2 = winfo s1" using s2(3) by (simp add: winfo_def fun_eq_iff)
  ultimately show ?case using s1(1,9) s2(1) by auto
qed

lemma context_ref:
  assumes P: "P (add_mset a E) L s" and t: "typed s (RContext a)"
  shows "\<exists>s' D. JSI_FreeContext fz a s = Some s' \<and> P E (L - D) s' \<and> shrinks L D s s'"
proof -
  obtain p where p: "gheap s a = Some p" "info s a = Some (g_type p, g_data p)" "g_ref_count p = rc s a"
    "1 \<le> rc s a" "data_type (g_data p) = g_type p" using target [OF P] .
  have ty: "g_type p = TYPE_JSI_CONTEXT" using t p(2) by (simp add: typed_def)
  then obtain ctx where d: "g_data p = GContext ctx" using p(5) by (cases "g_data p") auto
  have ni: "\<not> has_identity (g_type p)" using ty by (simp add: has_identity_def)
  have aL: "a \<in> L" by (rule target_owner [OF P p(2) ni])
  let ?s1 = "upd_obj a (add_count (- 1)) s"
  show ?thesis
  proof (cases "rc s a = 1")
    case False
    then have "1 < rc s a" using p(4) by simp
    then have "P E (L - {}) ?s1" "JSI_FreeContext fz a s = Some ?s1"
      using P_dec [OF P p(2) ni] p by (simp_all add: JSI_FreeContext_def)
    moreover have "shrinks L {} s ?s1" by (rule shrinks_refl) simp
    ultimately show ?thesis by blast
  next
    case True
    let ?vs = "mark_values (context_values ctx)"
    let ?sh = "mark_opt (array_shape ctx)"
    have rs: "refs (g_data p) = Some (map RValue (loaded_modules ctx) @ free_values (context_values ctx) @
      free_opt RShape (array_shape ctx))" using d by simp
    have ot: "\<forall>r \<in> set (free_values (context_values ctx)) \<union> set (free_opt RShape (array_shape ctx)). typed s r"
      using owner_typed [OF P aL p(2) rs] by simp
    have P1: "P (mset (loaded_modules ctx) + (mset ?vs + (mset ?sh + E))) (L - {a}) ?s1"
      using P_detach [OF P p(2) ni True] kids_info [OF p(2) rs] by (simp del: mset_map add: add.assoc)
    obtain s2 where s2: "jsi_free_modules fz ctx ?s1 = Some s2" "P (mset ?vs + (mset ?sh + E)) (L - {a}) s2"
      "info s2 a = Some (g_type p, GContext (ctx\<lparr>loaded_modules := []\<rparr>))" "\<forall>x. x \<noteq> a \<longrightarrow> winfo s2 x = winfo ?s1 x"
      using modules [OF P1, of a "g_type p" ctx] p(2) d unfolding jsi_free_modules_def by auto
    have "typed s2 r" if "typed s r" for r
    proof (cases "tgt r = a")
      case True
      then show ?thesis using that p(2) s2(3) by (simp add: typed_def)
    next
      case False
      then have "winfo s2 (tgt r) = winfo s (tgt r)" using s2(4) by (simp add: winfo_def)
      then show ?thesis using that by (simp add: winfo_typed)
    qed
    then have ty2: "\<forall>x \<in> set ?vs. typed s2 (RValue x)" "\<forall>x \<in> set ?sh. typed s2 (RShape x)"
      using ot by (auto split: option.splits) (cases "array_shape ctx"; auto)
    obtain s3 where s3: "foldm (free_value_rt fz) ?vs s2 = Some s3" "P (mset ?sh + E) (L - {a}) s3" "info s3 = info s2"
      using value_list [OF s2(2) ty2(1)] by blast
    have "\<exists>s4 D. foldm (jsi_free_shape fz) ?sh s3 = Some s4 \<and> P E (L - {a} - D) s4 \<and> shrinks (L - {a}) D s3 s4"
    proof (cases "array_shape ctx")
      case None
      then show ?thesis using s3(2) shrinks_refl [of s3 s3 "L - {a}"] by (intro exI [of _ s3] exI [of _ "{}"]) simp
    next
      case (Some b)
      have "typed s3 (RShape b)" using ty2(2) Some info_same_typed [OF s3(3)] by simp
      then obtain s4 D where "jsi_free_shape fz b s3 = Some s4" "P E (L - {a} - D) s4" "shrinks (L - {a}) D s3 s4"
        using shape [of b E "L - {a}" s3] s3(2) Some by auto
      then show ?thesis using Some by auto
    qed
    then obtain s4 D where s4: "foldm (jsi_free_shape fz) ?sh s3 = Some s4" "P E (L - {a} - D) s4"
      "shrinks (L - {a}) D s3 s4" by blast
    have aD: "a \<notin> D" using s4(3) by (auto simp: shrinks_def)
    have "winfo s4 a = winfo s3 a" using s4(3) aD by (simp add: shrinks_def)
    then have "winfo s4 a = Some (g_type p, GContext (ctx\<lparr>loaded_modules := []\<rparr>))"
      using s3(3) s2(3) by (simp add: winfo_def)
    then obtain e where e: "info s4 a = Some (g_type p, e)" "erase e = GContext (ctx\<lparr>loaded_modules := []\<rparr>)"
      by (auto simp: winfo_def)
    then have "unlinked e" by (cases e) (auto simp: unlinked_def)
    then obtain s5 where s5: "do { s \<leftarrow> list_del a s4; Some (jsi_free_obj a s) } = Some s5" "P E (L - {a} - D) s5"
      "\<forall>x. info s5 x = (if x = a then None else info s4 x)"
      using finish [OF s4(2), of a "g_type p" e] e(1) ni by auto
    have "JSI_FreeContext fz a s = Some s5"
      using p(1,3) True s2(1) s3(1) s4(1) s5(1) d by (simp add: JSI_FreeContext_def Let_def context_values_def)
    moreover have "shrinks L ({a} \<union> D) s s5"
      unfolding shrinks_def
    proof (intro conjI ballI allI impI)
      show "{a} \<union> D \<subseteq> L" using aL s4(3) by (auto simp: shrinks_def)
      fix x
      have "winfo s5 x = (if x = a then None else winfo s4 x)" using s5(3) by (simp add: winfo_def)
      moreover have "winfo s4 x = (if x \<in> D then None else winfo s3 x)" using s4(3) by (simp add: shrinks_def)
      moreover have "x \<noteq> a \<Longrightarrow> winfo s3 x = winfo s x" using s3(3) s2(4) by (simp add: winfo_def)
      ultimately show "winfo s5 x = (if x \<in> {a} \<union> D then None else winfo s x)" by auto
      fix ty' e' assume x: "x \<in> {a} \<union> D" "info s x = Some (ty', e')"
      show "\<not> has_identity ty'"
      proof (cases "x = a")
        case False
        then have "winfo s3 x = winfo s x" using s2(4) s3(3) by (simp add: winfo_def)
        then obtain e'' where "info s3 x = Some (ty', e'')" using x(2) by (auto simp: winfo_def)
        then show ?thesis using s4(3) x(1) False by (auto simp: shrinks_def)
      qed (use x(2) p(2) ni in simp)
    qed
    moreover have "L - {a} - D = L - ({a} \<union> D)" by blast
    ultimately show ?thesis using s5(2) by metis
  qed
qed

lemma release_one:
  assumes "P (add_mset (tgt r) E) L s" and "typed s r"
  shows "\<exists>s' D. release fz r s = Some s' \<and> P E (L - D) s' \<and> shrinks L D s s'"
proof (cases r)
  case (RValue a)
  then obtain s' where "release fz r s = Some s'" "P E L s'" "info s' = info s" using P_value assms by fastforce
  then have "P E (L - {}) s'" "shrinks L {} s s'" using shrinks_refl by simp_all
  then show ?thesis using \<open>release fz r s = Some s'\<close> by blast
next
  case (RAsync a)
  then obtain s' where "release fz r s = Some s'" "P E L s'" "info s' = info s" using P_async assms by fastforce
  then have "P E (L - {}) s'" "shrinks L {} s s'" using shrinks_refl by simp_all
  then show ?thesis using \<open>release fz r s = Some s'\<close> by blast
qed (use shape var_ref context_ref assms in auto)

lemma releases:
  assumes "P (mset (map tgt rs) + E) L s" and "\<forall>r \<in> set rs. typed s r"
  shows "\<exists>s' D. foldm (release fz) rs s = Some s' \<and> P E (L - D) s' \<and> shrinks L D s s'"
  using assms
proof (induction rs arbitrary: L s)
  case Nil
  then have "P E (L - {}) s" "shrinks L {} s s" using shrinks_refl by simp_all
  then show ?case by (metis foldm.simps(1))
next
  case (Cons r rs)
  obtain s1 D1 where s1: "release fz r s = Some s1" "P (mset (map tgt rs) + E) (L - D1) s1" "shrinks L D1 s s1"
    using release_one [of r "mset (map tgt rs) + E" L s] Cons.prems by auto
  have "\<forall>r \<in> set rs. typed s1 r" using Cons.prems(2) shrinks_typed [OF s1(3)] by simp
  then obtain s2 D2 where s2: "foldm (release fz) rs s1 = Some s2" "P E (L - D1 - D2) s2" "shrinks (L - D1) D2 s1 s2"
    using Cons.IH [OF s1(2)] by blast
  have "L - D1 - D2 = L - (D1 \<union> D2)" by blast
  then show ?case using s1(1) s2 shrinks_trans [OF s1(3) s2(3)] by (metis bind.bind_lunit foldm.simps(2))
qed

text \<open>Freeing an object with identity gives up its references; what is left is its structure.\<close>

lemma object_fields:
  assumes P: "P (kids s a + E) L s" and a: "a \<notin> L" and i: "info s a = Some (ty, GObject d)"
    and fit: "fits d" and ty: "\<forall>rs. refs (GObject d) = Some rs \<longrightarrow> (\<forall>r \<in> set rs. typed s r)"
  shows "\<exists>s' D e. free_object fz a d s = free_struct a s' \<and> P E (L - D) s' \<and> D \<subseteq> L
    \<and> (\<forall>y \<in> D. \<forall>t e. info s y = Some (t, e) \<longrightarrow> \<not> has_identity t)
    \<and> (\<forall>y. y \<noteq> a \<longrightarrow> winfo s' y = (if y \<in> D then None else winfo s y)) \<and> info s' a = Some (ty, GObject e)"
proof -
  note c = P_core [OF P]
  have hd: "data_type (GObject d) = ty" "no_weakref (GObject d)" using coreD(2) [OF c] i unfolding heap_ok_def by blast+
  then have t: "ty = TYPE_JSI_OBJECT" "o_weakref_count d = 0" by auto
  let ?d1 = "d\<lparr>o_free_mark := True\<rparr>"
  let ?d2 = "d\<lparr>o_free_mark := True, o_shape := None, o_prop := [], o_class_id := 0, o_u := UOpaque\<rparr>"
  have set_ok: "P E' L' (upd_obj a (set_data (GObject e)) s1)"
    if "P E' L' s1" "a \<notin> L'" "info s1 a = Some (ty, x)" "o_weakref_count e = 0" for E' L' s1 x e
  proof (rule P_frame [OF that(1)])
    let ?s = "upd_obj a (set_data (GObject e)) s1"
    show "core E0 E' L' ?s" by (rule core_set_data [OF P_core [OF that(1)] that(2,3)]) (use t that(4) in simp_all)
    show "map_option fst (info ?s y) = map_option fst (info s1 y)" for y
      by (auto simp: info_def set_data_def option.map_comp comp_def)
    show "kids ?s y = kids s1 y" if "y \<in> L'" for y using that \<open>a \<notin> L'\<close> by (auto simp: kids_def)
  qed (simp_all add: fun_eq_iff)
  have iu: "info (upd_obj a (set_data x) s1) y = (if y = a then map_option (\<lambda>(t, _). (t, x)) (info s1 a) else info s1 y)"
    for x s1 y by (auto simp: info_def set_data_def option.map_comp comp_def)
  obtain rs cs where r: "refs (GObject d) = Some rs" using refs_mark [of "GObject d"] fit by (metis fits_data.simps(1))
  then obtain sh us where sh: "o_shape d = Some sh"
    "class_finalizer (class_array (o_class_id d)) (o_class_id d) (o_u d) = Some us"
    "rs = concat (map free_property (o_prop d)) @ RShape sh # us"
    by (auto simp: bind_eq_Some_conv)
  let ?s1 = "upd_obj a (set_data (GObject ?d1)) s"
  have P1: "P (mset (map tgt rs) + E) L ?s1"
    using set_ok [OF P a i, of ?d1] t(2) kids_info [OF i r] by simp
  have "typed ?s1 x" if "typed s x" for x using that i by (auto simp: typed_def iu)
  then obtain s2 D where s2: "foldm (release fz) rs ?s1 = Some s2" "P E (L - D) s2" "shrinks L D ?s1 s2"
    using releases [OF P1] ty r by blast
  have aD: "a \<notin> D" using s2(3) a by (auto simp: shrinks_def)
  then have "winfo s2 a = winfo ?s1 a" using s2(3) by (simp add: shrinks_def)
  then obtain x where x: "info s2 a = Some (ty, x)" using i by (auto simp: winfo_def iu)
  let ?s3 = "upd_obj a (set_data (GObject ?d2)) s2"
  have P3: "P E (L - D) ?s3" using set_ok [OF s2(2) _ x, of ?d2] a t(2) by simp
  obtain y1 where y1: "foldm (release fz) (concat (map free_property (o_prop d))) ?s1 = Some y1"
    "foldm (release fz) (RShape sh # us) y1 = Some s2"
    using s2(1) unfolding sh(3) foldm_append by (auto simp: bind_eq_Some_conv)
  then obtain y2 where y2: "jsi_free_shape fz sh y1 = Some y2" "foldm (release fz) us y2 = Some s2"
    by (auto simp: bind_eq_Some_conv)
  have "free_object fz a d s = free_struct a ?s3"
    using y1(1) y2 sh(1,2) t(2) by (auto simp: free_object_def free_struct_def Let_def split: Option.bind_splits)
  moreover have "info ?s3 a = Some (ty, GObject ?d2)" using x by (simp add: iu)
  moreover have "winfo ?s3 y = (if y \<in> D then None else winfo s y)" if "y \<noteq> a" for y
    using that s2(3) by (simp add: winfo_def iu shrinks_def)
  moreover have "\<not> has_identity t'" if "y \<in> D" "info s y = Some (t', e)" for y t' e
  proof -
    have "info ?s1 y = Some (t', e)" using that aD by (auto simp: iu)
    then show ?thesis using s2(3) that(1) by (auto simp: shrinks_def)
  qed
  moreover have "D \<subseteq> L" using s2(3) by (simp add: shrinks_def)
  ultimately show ?thesis using P3 by blast
qed

lemma simple_fields:
  assumes P: "P (kids s a + E) L s" and a: "a \<notin> L" and i: "info s a = Some (ty, d)"
    and ty: "\<forall>rs. refs d = Some rs \<longrightarrow> (\<forall>r \<in> set rs. typed s r)"
    and r: "refs d = Some rs" and nm: "\<And>m. d \<noteq> GModule m"
    and fr: "\<And>s'. foldm (release fz) rs s = Some s' \<Longrightarrow> free_gc_object fz a s = free_struct a s'"
  shows "\<exists>s' D e. free_gc_object fz a s = free_struct a s' \<and> P E (L - D) s' \<and> D \<subseteq> L
    \<and> (\<forall>y \<in> D. \<forall>t e. info s y = Some (t, e) \<longrightarrow> \<not> has_identity t)
    \<and> (\<forall>y. y \<noteq> a \<longrightarrow> winfo s' y = (if y \<in> D then None else winfo s y)) \<and> info s' a = Some (ty, e)
    \<and> (\<forall>m. e \<noteq> GModule m)"
proof -
  have P1: "P (mset (map tgt rs) + E) L s" using P kids_info [OF i r] by simp
  obtain s2 D where s2: "foldm (release fz) rs s = Some s2" "P E (L - D) s2" "shrinks L D s s2"
    using releases [OF P1] ty r by blast
  have "a \<notin> D" using s2(3) a by (auto simp: shrinks_def)
  then have "winfo s2 a = Some (ty, erase d)" using s2(3) i by (simp add: shrinks_def winfo_def)
  then obtain e where e: "info s2 a = Some (ty, e)" "erase e = erase d" by (auto simp: winfo_def)
  then have "\<forall>m. e \<noteq> GModule m" using nm by (cases d) auto
  then show ?thesis using fr [OF s2(1)] s2(2,3) e(1) unfolding shrinks_def by blast
qed

lemma module_fields:
  assumes P: "P (kids s a + E) L s" and a: "a \<notin> L" and i: "info s a = Some (ty, GModule d)"
    and ty: "\<forall>rs. refs (GModule d) = Some rs \<longrightarrow> (\<forall>r \<in> set rs. typed s r)"
    and own: "\<forall>x t c. info s x = Some (t, GContext c) \<longrightarrow> x \<in> L"
  shows "\<exists>s' D e. jsi_free_module_def fz a d s = free_struct a s' \<and> P E (L - D) s' \<and> D \<subseteq> L
    \<and> (\<forall>y \<in> D. \<forall>t e. info s y = Some (t, e) \<longrightarrow> \<not> has_identity t)
    \<and> (\<forall>y. y \<noteq> a \<longrightarrow> map_option fst (winfo s' y) = (if y \<in> D then None else map_option fst (winfo s y)))
    \<and> (\<forall>y \<in> K. y \<noteq> a \<longrightarrow> winfo s' y = (if y \<in> D then None else winfo s y))
    \<and> info s' a = Some (ty, GModule e) \<and> m_link e = None"
proof -
  obtain rs where r: "refs (GModule d) = Some rs" by simp
  have P1: "P (mset (map tgt rs) + E) L s" using P kids_info [OF i r] by simp
  obtain s2 D where s2: "foldm (release fz) rs s = Some s2" "P E (L - D) s2" "shrinks L D s s2"
    using releases [OF P1] ty r by blast
  have aD: "a \<notin> D" using s2(3) a by (auto simp: shrinks_def)
  then have "winfo s2 a = Some (ty, erase (GModule d))" using s2(3) i by (simp add: shrinks_def winfo_def)
  then obtain x where x: "info s2 a = Some (ty, x)" "erase x = erase (GModule d)" by (auto simp: winfo_def)
  then obtain e where e: "info s2 a = Some (ty, GModule e)" by (cases x) auto
  have D: "D \<subseteq> L" "\<forall>y \<in> D. \<forall>t e. info s y = Some (t, e) \<longrightarrow> \<not> has_identity t"
    "\<forall>y. winfo s2 y = (if y \<in> D then None else winfo s y)" using s2(3) by (auto simp: shrinks_def)
  obtain p where p: "gheap s2 a = Some p" "g_data p = GModule e" using e by (auto simp: info_def)
  have fr: "jsi_free_module_def fz a d s = (if m_link e \<noteq> None then module_unlink a s2 else Some s2) \<bind> free_struct a"
    using s2(1) r p by (simp add: jsi_free_module_def_def)
  show ?thesis
  proof (cases "m_link e")
    case None
    then have "jsi_free_module_def fz a d s = free_struct a s2" using fr by simp
    then show ?thesis using s2(2) D e None by (intro exI [of _ s2] exI [of _ D] exI [of _ e]) simp
  next
    case (Some c)
    obtain t ctx where c: "info s2 c = Some (t, GContext ctx)"
      using coreD(3) [OF P_core [OF s2(2)]] e Some unfolding links_ok_def by blast
    then obtain z where z: "info s c = Some (t, z)" "erase z = erase (GContext ctx)" using shrinks_type [OF s2(3)] by blast
    then have "c \<in> L" using own by (cases z) auto
    moreover have "c \<notin> D" using D(3) c by (auto simp: winfo_def split: if_splits dest: spec [of _ c])
    ultimately obtain s3 where s3: "module_unlink a s2 = Some s3" "P E (L - D) s3"
      "info s3 a = Some (ty, GModule (e\<lparr>m_link := None\<rparr>))"
      "\<forall>y. map_option fst (info s3 y) = map_option fst (info s2 y)" "\<forall>y \<in> K. winfo s3 y = winfo s2 y"
      using P_unlink [OF s2(2) e Some] a by blast
    have "map_option fst (winfo s3 y) = (if y \<in> D then None else map_option fst (winfo s y))" for y
    proof -
      have w: "map_option fst (winfo u y) = map_option fst (info u y)" for u
        by (simp add: winfo_def option.map_comp comp_def case_prod_unfold)
      have "map_option fst (winfo s3 y) = map_option fst (winfo s2 y)" using s3(4) by (simp add: w)
      then show ?thesis using D(3) by simp
    qed
    moreover have "winfo s3 y = (if y \<in> D then None else winfo s y)" if "y \<in> K" for y using that s3(5) D(3) by simp
    moreover have "jsi_free_module_def fz a d s = free_struct a s3" using fr Some s3(1) by simp
    ultimately show ?thesis using s3(2,3) D(1,2) by (intro exI [of _ s3] exI [of _ D] exI [of _ "e\<lparr>m_link := None\<rparr>"]) simp
  qed
qed

lemma free_fields:
  assumes P: "P (kids s a + E) L s" and a: "a \<notin> L" and i: "info s a = Some (ty, d)"
    and id: "has_identity ty" and run: "\<not> running d" and fit: "fits_data d"
    and ty: "\<forall>rs. refs d = Some rs \<longrightarrow> (\<forall>r \<in> set rs. typed s r)"
    and own: "\<forall>x t c. info s x = Some (t, GContext c) \<longrightarrow> x \<in> L"
  shows "\<exists>s' D e. free_gc_object fz a s = free_struct a s' \<and> P E (L - D) s' \<and> D \<subseteq> L
    \<and> (\<forall>y \<in> D. \<forall>t e. info s y = Some (t, e) \<longrightarrow> \<not> has_identity t)
    \<and> (\<forall>y. y \<noteq> a \<longrightarrow> map_option fst (winfo s' y) = (if y \<in> D then None else map_option fst (winfo s y)))
    \<and> (\<forall>y \<in> K. y \<noteq> a \<longrightarrow> winfo s' y = (if y \<in> D then None else winfo s y))
    \<and> info s' a = Some (ty, e) \<and> unlinked e"
proof -
  have dt: "data_type d = ty" using coreD(2) [OF P_core [OF P]] i unfolding heap_ok_def by blast
  obtain p where p: "gheap s a = Some p" "g_type p = ty" "g_data p = d" using i by (auto simp: info_def)
  have simple: ?thesis if sf: "refs d = Some rs" "\<And>m. d \<noteq> GModule m" "\<And>c. d \<noteq> GContext c"
    "\<And>s'. foldm (release fz) rs s = Some s' \<Longrightarrow> free_gc_object fz a s = free_struct a s'" for rs
  proof -
    obtain s' D e where s': "free_gc_object fz a s = free_struct a s'" "P E (L - D) s'" "D \<subseteq> L"
      "\<forall>y \<in> D. \<forall>t e. info s y = Some (t, e) \<longrightarrow> \<not> has_identity t"
      "\<forall>y. y \<noteq> a \<longrightarrow> winfo s' y = (if y \<in> D then None else winfo s y)" "info s' a = Some (ty, e)" "\<forall>m. e \<noteq> GModule m"
      using simple_fields [OF P a i ty sf(1,2,4)] by blast
    have "data_type e = ty" using coreD(2) [OF P_core [OF s'(2)]] s'(6) unfolding heap_ok_def by blast
    then have "unlinked e" using dt s'(7) id by (cases e) (auto simp: unlinked_def has_identity_def)
    then show ?thesis using s' by (intro exI [of _ s'] exI [of _ D] exI [of _ e]) simp
  qed
  show ?thesis
  proof (cases d)
    case (GObject o1)
    have fg: "free_gc_object fz a s = free_object fz a o1 s" using p dt GObject by (auto simp: free_gc_object_def)
    obtain s' D e where s': "free_object fz a o1 s = free_struct a s'" "P E (L - D) s'" "D \<subseteq> L"
      "\<forall>y \<in> D. \<forall>t e. info s y = Some (t, e) \<longrightarrow> \<not> has_identity t"
      "\<forall>y. y \<noteq> a \<longrightarrow> winfo s' y = (if y \<in> D then None else winfo s y)" "info s' a = Some (ty, GObject e)"
      using object_fields [OF P a, of ty o1] i fit ty GObject by auto
    then show ?thesis using fg by (intro exI [of _ s'] exI [of _ D] exI [of _ "GObject e"]) (simp add: unlinked_def)
  next
    case (GFunctionBytecode cpool realm)
    show ?thesis
      by (rule simple [of "free_values cpool @ free_opt RContext realm"])
        (use p dt GFunctionBytecode in \<open>auto simp: free_gc_object_def free_function_bytecode_def\<close>)
  next
    case (GAsync f)
    show ?thesis
    proof (cases "is_completed f")
      case True
      show ?thesis
        by (rule simple [of "free_values (resolving_funcs f)"])
          (use p dt GAsync True in \<open>auto simp: free_gc_object_def async_func_free_state_def\<close>)
    next
      case False
      then obtain vs where vs: "cur_sp f = Some vs" using run GAsync by auto
      show ?thesis
        by (rule simple [of "free_values (vs @ [cur_func f, this_val f]) @ free_values (resolving_funcs f)"])
          (use p dt GAsync False vs in \<open>auto simp: free_gc_object_def async_func_free_state_def
            async_func_free_frame_def foldm_append bind_eq_Some_conv\<close>)
    qed
  next
    case (GModule m)
    have fg: "free_gc_object fz a s = jsi_free_module_def fz a m s" using p dt GModule by (auto simp: free_gc_object_def)
    obtain s' D e where s': "jsi_free_module_def fz a m s = free_struct a s'" "P E (L - D) s'" "D \<subseteq> L"
      "\<forall>y \<in> D. \<forall>t e. info s y = Some (t, e) \<longrightarrow> \<not> has_identity t"
      "\<forall>y. y \<noteq> a \<longrightarrow> map_option fst (winfo s' y) = (if y \<in> D then None else map_option fst (winfo s y))"
      "\<forall>y \<in> K. y \<noteq> a \<longrightarrow> winfo s' y = (if y \<in> D then None else winfo s y)"
      "info s' a = Some (ty, GModule e)" "m_link e = None"
      using module_fields [OF P a, of ty m] i ty own GModule by blast
    then show ?thesis using fg by (intro exI [of _ s'] exI [of _ D] exI [of _ "GModule e"]) (simp add: unlinked_def)
  qed (use dt id in \<open>auto simp: has_identity_def\<close>)
qed

end

end
