(* ===== verification/QGcRun.thy ===== *)
theory QGcRun
  imports QGcRelease
begin

text \<open>
  Freeing by count, the first interpretation of \<open>releasing\<close>: the loop of \<open>free_zero_refcount\<close> returns, and
  \<open>gc_state\<close>, the invariant of the runtime between operations, holds again after a value is given up.
\<close>

section \<open>Freeing by count\<close>

definition dec_ok :: "gaddr multiset \<Rightarrow> gaddr multiset \<Rightarrow> gaddr set \<Rightarrow> gc_rt \<Rightarrow> bool" where
  "dec_ok E0 E L s \<longleftrightarrow> core E0 E L s \<and> gc_phase s = PHASE_DECREF \<and> tmp_obj_list s = []
     \<and> (\<forall>x \<in> set (gc_zero_ref_count_list s). rc s x = 0 \<and> (\<exists>ty d. info s x = Some (ty, d) \<and> has_identity ty))
     \<and> (\<forall>x \<in> set (gc_obj_list s). mk s x = 0 \<and> (x \<in> L \<longrightarrow> 0 < rc s x))
     \<and> (\<forall>x \<in> dom (gheap s) - L. rc s x = 0)"

lemma dec_okD:
  assumes "dec_ok E0 E L s"
  shows "core E0 E L s" "gc_phase s = PHASE_DECREF" "tmp_obj_list s = []"
    "x \<in> set (gc_zero_ref_count_list s) \<Longrightarrow> rc s x = 0"
    "x \<in> set (gc_zero_ref_count_list s) \<Longrightarrow> \<exists>ty d. info s x = Some (ty, d) \<and> has_identity ty"
    "x \<in> set (gc_obj_list s) \<Longrightarrow> mk s x = 0" "x \<in> set (gc_obj_list s) \<Longrightarrow> x \<in> L \<Longrightarrow> 0 < rc s x"
    "x \<in> dom (gheap s) - L \<Longrightarrow> rc s x = 0"
  using assms by (auto simp: dec_ok_def)

lemma dec_member:
  assumes "dec_ok E0 (add_mset a E) L s"
  shows "a \<in> L" "a \<in> set (gc_obj_list s)" "a \<notin> set (gc_zero_ref_count_list s)" "1 \<le> rc s a" "a \<in> dom (gheap s)"
proof -
  note c = dec_okD(1) [OF assms]
  show r: "1 \<le> rc s a" and d: "a \<in> dom (gheap s)" using core_target [OF c] by auto
  show "a \<in> L" using dec_okD(8) [OF assms, of a] r d by force
  show z: "a \<notin> set (gc_zero_ref_count_list s)" using dec_okD(4) [OF assms, of a] r by force
  show "a \<in> set (gc_obj_list s)" using coreD(1) [OF c] d z dec_okD(3) [OF assms] by (auto simp: lists_ok_def)
qed

lemma dec_more:
  assumes "dec_ok E0 (add_mset a E) L s" and "1 < rc s a"
  shows "dec_ok E0 E L (upd_obj a (add_count (- 1)) s)"
  using assms core_dec [OF dec_okD(1) [OF assms(1)]] dec_member(1,3) [OF assms(1)] unfolding dec_ok_def by auto

lemma dec_zero:
  assumes d: "dec_ok E0 (add_mset a E) L s" and r: "rc s a = 1" and i: "info s a = Some (ty, x)" "has_identity ty"
  shows "\<exists>s'. queue_zero fz m a (upd_obj a (add_count (- 1)) s) = Some s' \<and> dec_ok E0 E L s' \<and> info s' = info s"
proof -
  let ?s1 = "upd_obj a (add_count (- 1)) s"
  note mem = dec_member [OF d]
  have c1: "core E0 E L ?s1" by (rule core_dec [OF dec_okD(1) [OF d]])
  have dg: "distinct (gc_obj_list s)" using coreD(1) [OF c1] by (simp add: lists_ok_def)
  let ?s2 = "?s1\<lparr>gc_obj_list := remove1 a (gc_obj_list s), gc_zero_ref_count_list := a # gc_zero_ref_count_list s\<rparr>"
  let ?s3 = "if m then upd_obj a (set_mark 1) ?s2 else ?s2"
  have "list_del a ?s1 = Some (?s1\<lparr>gc_obj_list := remove1 a (gc_obj_list s)\<rparr>)"
    using mem(2) by (simp add: list_del_def)
  then have q: "queue_zero fz m a ?s1 = Some ?s3" using dec_okD(2) [OF d] by (simp add: queue_zero_def Let_def)
  have "core E0 E L ?s2"
    by (rule core_lists [OF c1]) (use mem(2) dec_okD(3) [OF d] in \<open>auto intro!: perm_lists [OF coreD(1) [OF c1]]\<close>)
  then have c3: "core E0 E L ?s3" using core_mark by simp
  have "rc ?s3 b = (if b = a then 0 else rc s b)" "info ?s3 = info s" for b using r mem(5) by auto
  moreover have "b \<noteq> a \<Longrightarrow> mk ?s3 b = mk s b" for b by simp
  moreover have "set (remove1 a (gc_obj_list s)) = set (gc_obj_list s) - {a}" using dg by simp
  ultimately have "dec_ok E0 E L ?s3"
    using d c3 i mem(1) unfolding dec_ok_def by auto
  then show ?thesis using q \<open>info ?s3 = info s\<close> by blast
qed

lemma dec_detach:
  assumes d: "dec_ok E0 (add_mset a E) L s" and r: "rc s a = 1"
  shows "dec_ok E0 (kids s a + E) (L - {a}) (upd_obj a (add_count (- 1)) s)"
proof -
  let ?s1 = "upd_obj a (add_count (- 1)) s"
  have c1: "core E0 E L ?s1" by (rule core_dec [OF dec_okD(1) [OF d]])
  have r0: "rc ?s1 a = 0" using r dec_member(5) [OF d] by simp
  have "core E0 (kids ?s1 a + E) (L - {a}) ?s1" by (rule core_detach [OF c1 dec_member(1) [OF d]]) (use r0 in blast)
  moreover have "kids ?s1 a = kids s a" using info_kids [of ?s1 s] by simp
  moreover have "rc ?s1 b = (if b = a then 0 else rc s b)" for b using r dec_member(5) [OF d] by simp
  ultimately show ?thesis using d unfolding dec_ok_def by auto
qed

lemma dec_delete:
  assumes d: "dec_ok E0 E L s" and a: "a \<notin> L" "info s a = Some (ty, x)" and u: "unlinked x"
  shows "\<exists>s1. list_del a s = Some s1 \<and> dec_ok E0 E L (jsi_free_obj a s1) \<and> gheap s1 = gheap s"
proof -
  have ad: "a \<in> dom (gheap s) - L" using a by (auto simp: info_def)
  then have z: "rc s a = 0" by (rule dec_okD(8) [OF d])
  obtain s1 where s1: "list_del a s = Some s1" "core E0 E L (jsi_free_obj a s1)" "gheap s1 = gheap s"
    "gc_phase s1 = gc_phase s" "gc_obj_list s1 = remove1 a (gc_obj_list s)" "tmp_obj_list s1 = remove1 a (tmp_obj_list s)"
    "gc_zero_ref_count_list s1 = remove1 a (gc_zero_ref_count_list s)"
    using core_delete [OF dec_okD(1) [OF d] ad z] a(2) u by auto
  let ?s = "jsi_free_obj a s1"
  have f: "rc ?s x = (if x = a then 0 else rc s x)" "mk ?s x = (if x = a then 0 else mk s x)"
    "info ?s x = (if x = a then None else info s x)" for x
    using s1(3) by (simp_all add: rc_def mk_def info_def jsi_free_obj_def)
  have dist: "distinct (gc_obj_list s)" "distinct (gc_zero_ref_count_list s)"
    using coreD(1) [OF dec_okD(1) [OF d]] by (simp_all add: lists_ok_def)
  have "gc_phase ?s = PHASE_DECREF" "tmp_obj_list ?s = []" "gc_obj_list ?s = remove1 a (gc_obj_list s)"
    "gc_zero_ref_count_list ?s = remove1 a (gc_zero_ref_count_list s)" "dom (gheap ?s) = dom (gheap s) - {a}"
    using s1 dec_okD(2,3) [OF d] by (auto simp: jsi_free_obj_def)
  then have "dec_ok E0 E L ?s"
    using d s1(2) dist unfolding dec_ok_def f by auto
  then show ?thesis using s1(1,3) by blast
qed

lemma dec_frame:
  assumes "dec_ok E0 E L s" and "core E0 E L s'" and "rc s' = rc s" and "gc_phase s' = gc_phase s \<and> mk s' = mk s"
    and "gc_obj_list s' = gc_obj_list s" and "tmp_obj_list s' = tmp_obj_list s"
    and "gc_zero_ref_count_list s' = gc_zero_ref_count_list s"
    and t: "\<And>x. map_option fst (info s' x) = map_option fst (info s x)"
  shows "dec_ok E0 E L s'"
proof -
  have "dom (gheap s') = dom (gheap s)"
    using coreD(1) [OF assms(2)] coreD(1) [OF dec_okD(1) [OF assms(1)]] assms(5-7) by (simp add: lists_ok_def)
  moreover have "(\<exists>ty d. info s' x = Some (ty, d) \<and> has_identity ty) \<longleftrightarrow> (\<exists>ty d. info s x = Some (ty, d) \<and> has_identity ty)" for x
  proof -
    have e: "(\<exists>ty d. info u x = Some (ty, d) \<and> has_identity ty) \<longleftrightarrow> (\<exists>ty. map_option fst (info u x) = Some ty \<and> has_identity ty)" for u
      by auto
    show ?thesis unfolding e t ..
  qed
  ultimately show ?thesis using assms(1-7) by (simp add: dec_ok_def)
qed

lemma dec_unlink:
  assumes d: "dec_ok E0 E L s" and m: "info s m = Some (tm, GModule md)" "m_link md = Some c" "m \<notin> L" and c: "c \<in> L"
  shows False
proof -
  note co = dec_okD(1) [OF d]
  have md: "m \<in> dom (gheap s) - L" using m by (auto simp: info_def)
  then have "rc s m = 0" by (rule dec_okD(8) [OF d])
  moreover have "int (count (E0 + E + in_refs L s) m) \<le> rc s m" using coreD(5) [OF co] md by (auto simp: counts_ok_def)
  ultimately have "count (in_refs L s) m = 0" by simp
  then have n: "m \<notin># in_refs L s" by (simp add: count_eq_zero_iff)
  obtain s' where "m \<in># kids s c" by (rule core_unlink_in [OF co m c]) blast
  then show False using n in_refs_elem [OF coreD(8) [OF co]] c by blast
qed

interpretation decref: releasing E0 UNIV "dec_ok E0" "\<lambda>_. None" for E0
proof unfold_locales
  show "dec_ok E0 E L s \<Longrightarrow> core E0 E L s" for E L s by (rule dec_okD)
  fix a E L s
  assume D: "dec_ok E0 (add_mset a E) L s"
  note mem = dec_member [OF D]
  obtain p where p: "gheap s a = Some p" "info s a = Some (g_type p, g_data p)" "g_ref_count p = rc s a"
    using mem(5) by (rule infoE)
  have one: "\<exists>s'. (if g_ref_count p - 1 \<le> 0 then queue_zero (\<lambda>_. None) b a (upd_obj a (add_count (- 1)) s)
      else Some (upd_obj a (add_count (- 1)) s)) = Some s' \<and> dec_ok E0 E L s' \<and> info s' = info s"
    if "has_identity (g_type p)" for b
  proof (cases "rc s a = 1")
    case True
    then show ?thesis using dec_zero [OF D True p(2) that] p(3) by simp
  next
    case False
    then have "1 < rc s a" using mem(4) by simp
    then show ?thesis using dec_more [OF D] p(3) by auto
  qed
  show "\<exists>s'. free_value_rt (\<lambda>_. None) a s = Some s' \<and> dec_ok E0 E L s' \<and> info s' = info s" if "typed s (RValue a)"
    using one [of True] that p(1,2) by (auto simp: free_value_rt_def typed_def has_identity_def Let_def)
  have "g_ref_count p - 1 \<le> 0 \<longleftrightarrow> g_ref_count p - 1 = 0" using p(3) mem(4) by auto
  then show "\<exists>s'. async_func_free (\<lambda>_. None) a s = Some s' \<and> dec_ok E0 E L s' \<and> info s' = info s" if "typed s (RAsync a)"
    using one [of False] that p(1,2) by (auto simp: async_func_free_def typed_def has_identity_def Let_def)
  show "dec_ok E0 E L (upd_obj a (add_count (- 1)) s)" if "1 < rc s a" by (rule dec_more [OF D that])
  show "dec_ok E0 (kids s a + E) (L - {a}) (upd_obj a (add_count (- 1)) s)" if "rc s a = 1" by (rule dec_detach [OF D that])
next
  fix E L s a ty d
  assume "dec_ok E0 E L s" "a \<notin> L" "info s a = Some (ty, d)" "unlinked d"
  then show "\<exists>s1. list_del a s = Some s1 \<and> dec_ok E0 E L (jsi_free_obj a s1) \<and> gheap s1 = gheap s" by (rule dec_delete)
next
  fix E L s s'
  assume "dec_ok E0 E L s" "core E0 E L s'" "rc s' = rc s" "gc_phase s' = gc_phase s \<and> mk s' = mk s"
    "gc_obj_list s' = gc_obj_list s" "tmp_obj_list s' = tmp_obj_list s"
    "gc_zero_ref_count_list s' = gc_zero_ref_count_list s"
    "\<And>x. map_option fst (info s' x) = map_option fst (info s x)"
  then show "dec_ok E0 E L s'" by (rule dec_frame)
next
  fix E L s m tm md c
  assume "dec_ok E0 E L s" "info s m = Some (tm, GModule md)" "m_link md = Some c" "m \<notin> L" "c \<in> L"
  then have False by (rule dec_unlink)
  then show "\<exists>s'. module_unlink m s = Some s' \<and> dec_ok E0 E L s' \<and> info s' m = Some (tm, GModule (md\<lparr>m_link := None\<rparr>))
    \<and> (\<forall>y. map_option fst (info s' y) = map_option fst (info s y)) \<and> (\<forall>y \<in> UNIV. winfo s' y = winfo s y)" ..
qed

text \<open>What freeing an object with identity needs of the invariant.\<close>

lemma core_free_ready:
  assumes c: "core E0 E L s" and a: "a \<in> L" and i: "info s a = Some (ty, d)" and id: "has_identity ty" and n: "a \<notin># E0"
  shows "\<not> running d" "fits_data d" "\<forall>rs. refs d = Some rs \<longrightarrow> (\<forall>r \<in> set rs. typed s r)" "\<And>x. d \<noteq> GContext x"
proof -
  have r: "fits_data d \<and> (running d \<longrightarrow> a \<in># E0) \<and> (\<forall>rs. refs d = Some rs \<longrightarrow> (\<forall>r \<in> set rs. typed s r))"
    using coreD(4) [OF c] a i by (simp add: refs_ok_def)
  then show "\<not> running d" "fits_data d" "\<forall>rs. refs d = Some rs \<longrightarrow> (\<forall>r \<in> set rs. typed s r)" using n by auto
  have "data_type d = ty" using coreD(2) [OF c] i by (simp add: heap_ok_def)
  then show "d \<noteq> GContext x" for x using id by (auto simp: has_identity_def)
qed

lemma winfo_fst: "map_option fst (winfo s x) = map_option fst (info s x)"
  by (cases "info s x") (auto simp: winfo_def)

lemma zero_step:
  assumes d: "dec_ok E0 {#} (dom (gheap s)) s" and z: "a \<in> set (gc_zero_ref_count_list s)"
  shows "\<exists>s'. free_gc_object (\<lambda>_. None) a s = Some s' \<and> dec_ok E0 {#} (dom (gheap s')) s'
    \<and> dom (gheap s') \<subset> dom (gheap s) \<and> (\<forall>y \<in> dom (gheap s'). winfo s' y = winfo s y)"
proof -
  let ?L = "dom (gheap s)"
  note c = dec_okD(1) [OF d]
  have r0: "rc s a = 0" by (rule dec_okD(4) [OF d z])
  obtain ty x where i: "info s a = Some (ty, x)" "has_identity ty" using dec_okD(5) [OF d z] by blast
  then have aL: "a \<in> ?L" by (auto simp: info_def)
  have "int (count (E0 + {#} + in_refs ?L s) a) \<le> rc s a" using coreD(5) [OF c] aL unfolding counts_ok_def by blast
  then have "count E0 a = 0" using r0 by simp
  then have n: "a \<notin># E0" by (simp add: count_eq_zero_iff)
  have d1: "dec_ok E0 (kids s a + {#}) (?L - {a}) s"
    using d core_detach [OF c aL] i r0 unfolding dec_ok_def by auto
  have own: "\<forall>y t k. info s y = Some (t, GContext k) \<longrightarrow> y \<in> ?L - {a}"
    using core_free_ready(4) [OF c aL i n] i(1) by (auto simp: info_def)
  obtain s1 D e where s1: "free_gc_object (\<lambda>_. None) a s = free_struct a s1" "dec_ok E0 {#} (?L - {a} - D) s1" "D \<subseteq> ?L - {a}"
    "\<forall>y. y \<noteq> a \<longrightarrow> winfo s1 y = (if y \<in> D then None else winfo s y)" "info s1 a = Some (ty, e)" "unlinked e"
    using decref.free_fields [OF d1 _ i core_free_ready(1-3) [OF c aL i n] own] by auto
  obtain s2 where s2: "list_del a s1 = Some s2" "dec_ok E0 {#} (?L - {a} - D) (jsi_free_obj a s2)" "gheap s2 = gheap s1"
    using dec_delete [OF s1(2) _ s1(5,6)] by auto
  let ?s = "jsi_free_obj a s2"
  have w: "winfo ?s y = (if y = a \<or> y \<in> D then None else winfo s y)" for y
    using s1(4) s2(3) by (auto simp: winfo_def info_def jsi_free_obj_def)
  have dm: "dom (gheap ?s) = ?L - {a} - D" by (rule set_eqI) (auto simp: winfo_dom w)
  obtain h where h: "gheap s2 a = Some h" using s1(5) s2(3) by (auto simp: info_def)
  have "gc_phase s2 = PHASE_DECREF" using dec_okD(2) [OF s2(2)] by (simp add: jsi_free_obj_def)
  then have "free_struct a s1 = Some ?s" using s2(1) h by (simp add: free_struct_def)
  moreover have "dom (gheap ?s) \<subset> ?L" using dm aL by blast
  moreover have "\<forall>y \<in> dom (gheap ?s). winfo ?s y = winfo s y" using dm by (simp add: w)
  ultimately show ?thesis using s1(1) s2(2) dm by auto
qed

lemma zero_loop:
  assumes "dec_ok E0 {#} (dom (gheap s)) s"
  shows "\<exists>s'. zero_refcount_loop s = Some s' \<and> dec_ok E0 {#} (dom (gheap s')) s' \<and> gc_zero_ref_count_list s' = []
    \<and> dom (gheap s') \<subseteq> dom (gheap s) \<and> (\<forall>y \<in> dom (gheap s'). winfo s' y = winfo s y)"
  using assms
proof (induction "card (dom (gheap s))" arbitrary: s rule: less_induct)
  case less
  show ?case
  proof (cases "gc_zero_ref_count_list s")
    case Nil
    then show ?thesis using less.prems by (simp add: zero_refcount_loop.simps [of s])
  next
    case (Cons a zs)
    then have az: "a \<in> set (gc_zero_ref_count_list s)" by simp
    obtain s1 where s1: "free_gc_object (\<lambda>_. None) a s = Some s1" "dec_ok E0 {#} (dom (gheap s1)) s1"
      "dom (gheap s1) \<subset> dom (gheap s)" "\<forall>y \<in> dom (gheap s1). winfo s1 y = winfo s y"
      using zero_step [OF less.prems az] by blast
    have "finite (dom (gheap s))" by (rule coreD(6) [OF dec_okD(1) [OF less.prems]])
    then have "card (dom (gheap s1)) < card (dom (gheap s))" using s1(3) by (rule psubset_card_mono)
    then obtain s2 where s2: "zero_refcount_loop s1 = Some s2" "dec_ok E0 {#} (dom (gheap s2)) s2"
      "gc_zero_ref_count_list s2 = []" "dom (gheap s2) \<subseteq> dom (gheap s1)" "\<forall>y \<in> dom (gheap s2). winfo s2 y = winfo s1 y"
      using less.hyps s1(2) by blast
    have "a \<in> dom (gheap s)" using coreD(1) [OF dec_okD(1) [OF less.prems]] az by (auto simp: lists_ok_def)
    then obtain p where "gheap s a = Some p" "g_ref_count p = rc s a" by (rule infoE)
    then have "zero_refcount_loop s = zero_refcount_loop s1"
      using dec_okD(4) [OF less.prems az] s1(1) Cons by (simp add: zero_refcount_loop.simps [of s])
    moreover have "dom (gheap s2) \<subseteq> dom (gheap s)" using s2(4) s1(3) by blast
    moreover have "\<forall>y \<in> dom (gheap s2). winfo s2 y = winfo s y" using s2(4,5) s1(4) by auto
    ultimately show ?thesis using s2 by auto
  qed
qed

section \<open>Between operations\<close>

text \<open>The state outside of the collector: every count is the number of the references to the object, of
  those from outside (\<open>E\<close>) and those of other objects, and no count is zero.\<close>

definition gc_state :: "gaddr multiset \<Rightarrow> gc_rt \<Rightarrow> bool" where
  "gc_state E s \<longleftrightarrow> core E {#} (dom (gheap s)) s \<and> gc_phase s = PHASE_NONE
     \<and> tmp_obj_list s = [] \<and> gc_zero_ref_count_list s = [] \<and> (\<forall>a \<in> dom (gheap s). 0 < rc s a \<and> mk s a = 0)"

lemma gc_stateD:
  assumes "gc_state E s"
  shows "core E {#} (dom (gheap s)) s" "gc_phase s = PHASE_NONE" "tmp_obj_list s = []" "gc_zero_ref_count_list s = []"
    "a \<in> dom (gheap s) \<Longrightarrow> 0 < rc s a" "a \<in> dom (gheap s) \<Longrightarrow> mk s a = 0" "set (gc_obj_list s) = dom (gheap s)"
    "distinct (gc_obj_list s)"
  using assms coreD(1) [of E "{#}" "dom (gheap s)" s] by (auto simp: gc_state_def lists_ok_def)

lemma phase_core [simp]: "core E0 E L (s\<lparr>gc_phase := ph\<rparr>) \<longleftrightarrow> core E0 E L s"
proof -
  have "core E0 E L (s\<lparr>gc_phase := ph\<rparr>)" if "core E0 E L s" for s ph
    by (rule core_lists [OF that]) (use coreD(1) [OF that] in \<open>simp_all add: lists_ok_def\<close>)
  from this this [of "s\<lparr>gc_phase := ph\<rparr>" "gc_phase s"] show ?thesis by auto
qed

lemma dec_to_state:
  assumes "dec_ok E {#} (dom (gheap s)) s" and "gc_zero_ref_count_list s = []"
  shows "gc_state E (s\<lparr>gc_phase := PHASE_NONE\<rparr>)"
proof -
  have "set (gc_obj_list s) = dom (gheap s)"
    using coreD(1) [OF dec_okD(1) [OF assms(1)]] dec_okD(3) [OF assms(1)] assms(2) by (simp add: lists_ok_def)
  then show ?thesis using assms by (auto simp: gc_state_def dec_ok_def)
qed

text \<open>A reference from outside is given up: everything that can still be reached stays as it is.\<close>

lemma core_give:
  assumes "core (add_mset a E) {#} L s" and "typed s (RValue a)"
  shows "core E {#a#} L s"
proof -
  have "running d \<Longrightarrow> x \<in># E" if x: "x \<in> L" "info s x = Some (ty, d)" for x ty d
  proof -
    assume r: "running d"
    then have "x \<in># add_mset a E" using coreD(4) [OF assms(1)] x by (auto simp: refs_ok_def)
    moreover have "data_type d = ty" using coreD(2) [OF assms(1)] x(2) by (simp add: heap_ok_def)
    then have "x \<noteq> a" using r assms(2) x(2) by (cases d) (auto simp: typed_def)
    ultimately show ?thesis by simp
  qed
  then show ?thesis using assms(1) unfolding core_def refs_ok_def by simp
qed

lemma reach_kept:
  assumes "gc_state E s'" and "\<forall>y \<in> dom (gheap s'). winfo s' y = winfo s y"
  shows "reach E s \<subseteq> dom (gheap s')"
proof (rule reach_closed)
  have c: "set_mset (E + in_refs (dom (gheap s')) s') \<subseteq> dom (gheap s')"
    using coreD(5) [OF gc_stateD(1) [OF assms(1)]] by (simp add: counts_ok_def)
  then show "set_mset E \<subseteq> dom (gheap s')" by simp
  show "set_mset (kids s a) \<subseteq> dom (gheap s')" if "a \<in> dom (gheap s')" for a
  proof -
    have "kids s' a = kids s a" by (rule winfo_kids) (use assms(2) that in blast)
    moreover have "set_mset (kids s' a) \<subseteq> set_mset (in_refs (dom (gheap s')) s')"
      by (rule set_mset_mono [OF kids_in_refs [OF coreD(6) [OF gc_stateD(1) [OF assms(1)]] that]])
    moreover have "set_mset (in_refs (dom (gheap s')) s') \<subseteq> dom (gheap s')" using c by simp
    ultimately show ?thesis by (metis subset_trans)
  qed
qed

lemma queue_zero_none:
  assumes "gc_phase s = PHASE_NONE"
  shows "queue_zero free_zero_refcount m a s = do {
    s \<leftarrow> queue_zero fz m a (s\<lparr>gc_phase := PHASE_DECREF\<rparr>);
    s \<leftarrow> zero_refcount_loop s;
    Some (s\<lparr>gc_phase := PHASE_NONE\<rparr>) }"
proof -
  have "list_del a (s\<lparr>gc_phase := PHASE_DECREF\<rparr>) = map_option (\<lambda>s. s\<lparr>gc_phase := PHASE_DECREF\<rparr>) (list_del a s)"
    by (simp add: list_del_def)
  moreover have "gc_phase s1 = gc_phase s" if "list_del a s = Some s1" for s1
    using that by (auto simp: list_del_def split: if_splits)
  ultimately show ?thesis
    using assms by (cases "list_del a s"; cases "the (list_del a s)")
      (auto simp: queue_zero_def free_zero_refcount_def upd_obj_def Let_def)
qed

lemma free_value_one:
  assumes st: "gc_state (add_mset a E) s" and t: "typed s (RValue a)"
  shows "\<exists>s'. free_value_rt free_zero_refcount a s = Some s' \<and> gc_state E s' \<and> dom (gheap s') \<subseteq> dom (gheap s)
    \<and> (\<forall>y \<in> dom (gheap s'). winfo s' y = winfo s y)"
proof -
  let ?s = "s\<lparr>gc_phase := PHASE_DECREF\<rparr>"
  have ph: "upd_obj a f (s\<lparr>gc_phase := ph\<rparr>) = (upd_obj a f s)\<lparr>gc_phase := ph\<rparr>" for f ph by (simp add: upd_obj_def)
  have "core E {#a#} (dom (gheap s)) s" by (rule core_give [OF gc_stateD(1) [OF st] t])
  then have d: "dec_ok E (add_mset a {#}) (dom (gheap ?s)) ?s"
    using st by (auto simp: dec_ok_def gc_state_def lists_ok_def dest!: coreD(1))
  note mem = dec_member [OF d]
  obtain p where p: "gheap s a = Some p" "info s a = Some (g_type p, g_data p)" "g_ref_count p = rc s a"
    using mem(5) infoE [of a s] by auto
  have id: "has_identity (g_type p)" using t p(2) by (auto simp: typed_def has_identity_def)
  show ?thesis
  proof (cases "rc s a = 1")
    case True
    obtain s1 where s1: "queue_zero (\<lambda>_. None) True a (upd_obj a (add_count (- 1)) ?s) = Some s1"
      "dec_ok E {#} (dom (gheap ?s)) s1" "info s1 = info ?s"
      using dec_zero [OF d, where ?fz = "\<lambda>_. None" and ?m = True] True p(2) id by auto
    have dm: "dom (gheap s1) = dom (gheap s)" using info_dom [OF s1(3)] by simp
    then obtain s2 where s2: "zero_refcount_loop s1 = Some s2" "dec_ok E {#} (dom (gheap s2)) s2" "gc_zero_ref_count_list s2 = []"
      "dom (gheap s2) \<subseteq> dom (gheap s1)" "\<forall>y \<in> dom (gheap s2). winfo s2 y = winfo s1 y"
      using zero_loop [of E s1] s1(2) by auto
    have "free_value_rt free_zero_refcount a s = Some (s2\<lparr>gc_phase := PHASE_NONE\<rparr>)"
      using p True s1(1) s2(1) gc_stateD(2) [OF st] queue_zero_none [of "upd_obj a (add_count (- 1)) s" True a "\<lambda>_. None"]
      by (simp add: free_value_rt_def ph)
    moreover have "winfo s1 = winfo s" using s1(3) by (simp add: winfo_def fun_eq_iff)
    ultimately show ?thesis using dec_to_state [OF s2(2,3)] s2(4,5) dm by (auto simp: winfo_def)
  next
    case False
    let ?s1 = "upd_obj a (add_count (- 1)) s"
    have "1 < rc s a" using False mem(4) by simp
    then have "dec_ok E {#} (dom (gheap ?s)) (upd_obj a (add_count (- 1)) ?s)" using dec_more [OF d] by simp
    then have "gc_state E (?s1\<lparr>gc_phase := PHASE_NONE\<rparr>)"
      using dec_to_state [of E "upd_obj a (add_count (- 1)) ?s"] gc_stateD(4) [OF st] by (simp add: ph)
    moreover have "?s1\<lparr>gc_phase := PHASE_NONE\<rparr> = ?s1" using gc_stateD(2) [OF st] by (cases s) (simp add: upd_obj_def)
    ultimately have "gc_state E ?s1" by simp
    moreover have "free_value_rt free_zero_refcount a s = Some ?s1" using p \<open>1 < rc s a\<close> by (simp add: free_value_rt_def)
    ultimately show ?thesis by (auto simp: winfo_def)
  qed
qed

end
