(* ===== verification/QGcCycles.thy ===== *)
theory QGcCycles
  imports QGcRun
begin

text \<open>
  The removal of cycles, the second interpretation of \<open>releasing\<close>: the objects that were found to be
  reachable keep their references, the others are freed one after the other, and the structures that
  are still referred to are freed at the end.
\<close>

section \<open>The removal of cycles\<close>

text \<open>\<open>K\<close> are the objects to keep; \<open>T\<close> and \<open>Z\<close> bound the other two lists.\<close>

definition rem_ok ::
  "gaddr set \<Rightarrow> gaddr set \<Rightarrow> gaddr set \<Rightarrow> gaddr multiset \<Rightarrow> gaddr multiset \<Rightarrow> gaddr set \<Rightarrow> gc_rt \<Rightarrow> bool" where
  "rem_ok K T Z E0 E L s \<longleftrightarrow> core E0 E L s \<and> gc_phase s = PHASE_REMOVE_CYCLES
     \<and> set (gc_obj_list s) = K \<and> set (tmp_obj_list s) \<subseteq> T \<and> set (gc_zero_ref_count_list s) \<subseteq> Z
     \<and> K \<subseteq> L \<and> set_mset E0 \<subseteq> K
     \<and> (\<forall>k \<in> K. k \<in># E0 + in_refs K s \<and> set_mset (kids s k) \<subseteq> K \<and> mk s k = 0)
     \<and> (\<forall>x \<in> L. \<forall>ty d. info s x = Some (ty, d) \<longrightarrow> \<not> has_identity ty \<longrightarrow> 0 < rc s x)"

lemma rem_okD:
  assumes "rem_ok K T Z E0 E L s"
  shows "core E0 E L s" "gc_phase s = PHASE_REMOVE_CYCLES" "set (gc_obj_list s) = K" "set (tmp_obj_list s) \<subseteq> T"
    "set (gc_zero_ref_count_list s) \<subseteq> Z" "K \<subseteq> L" "set_mset E0 \<subseteq> K"
    "k \<in> K \<Longrightarrow> k \<in># E0 + in_refs K s" "k \<in> K \<Longrightarrow> set_mset (kids s k) \<subseteq> K" "k \<in> K \<Longrightarrow> mk s k = 0"
    "x \<in> L \<Longrightarrow> info s x = Some (ty, d) \<Longrightarrow> \<not> has_identity ty \<Longrightarrow> 0 < rc s x"
  using assms by (simp_all add: rem_ok_def)

lemma rem_kept_count:
  assumes r: "rem_ok K T Z E0 (add_mset a E) L s" and "a \<in> K"
  shows "1 < rc s a"
proof -
  note c = rem_okD(1) [OF r]
  have "in_refs K s \<subseteq># in_refs L s" by (rule in_refs_mono [OF coreD(8) [OF c] rem_okD(6) [OF r]])
  then have "count (in_refs K s) a \<le> count (in_refs L s) a" by (rule mset_subset_eq_count)
  moreover have "0 < count E0 a + count (in_refs K s) a" unfolding count_union [symmetric] using rem_okD(8) [OF r assms(2)] by (rule count_greater_zero_iff [THEN iffD2])
  moreover have "rc s a = int (count (E0 + add_mset a E + in_refs L s) a)"
    using coreD(5) [OF c] rem_okD(6) [OF r] assms(2) unfolding counts_ok_def by blast
  ultimately show ?thesis unfolding count_union count_add_mset if_P [OF refl] by linarith
qed

text \<open>A change that keeps the objects to keep.\<close>

lemma rem_transfer:
  assumes r: "rem_ok K T Z E0 E L s" and c: "core E0 E' L' s'" and KL: "K \<subseteq> L'"
    and l: "gc_phase s' = gc_phase s" "set (gc_obj_list s') = set (gc_obj_list s)" "set (tmp_obj_list s') \<subseteq> T'"
      "set (gc_zero_ref_count_list s') \<subseteq> Z'"
    and k: "\<And>k. k \<in> K \<Longrightarrow> kids s' k = kids s k \<and> mk s' k = mk s k"
    and n: "\<And>x ty d. x \<in> L' \<Longrightarrow> info s' x = Some (ty, d) \<Longrightarrow> \<not> has_identity ty \<Longrightarrow> 0 < rc s' x"
  shows "rem_ok K T' Z' E0 E' L' s'"
proof -
  have "in_refs K s' = in_refs K s" using k by (simp add: in_refs_def)
  moreover have "kids s' k = kids s k" "mk s' k = mk s k" if "k \<in> K" for k using k [OF that] by simp_all
  ultimately show ?thesis
    using r c KL l n unfolding rem_ok_def by simp
qed

lemma rem_dec:
  assumes r: "rem_ok K T Z E0 (add_mset a E) L s"
    and n: "\<And>ty d. info s a = Some (ty, d) \<Longrightarrow> \<not> has_identity ty \<Longrightarrow> 1 < rc s a"
  shows "rem_ok K T Z E0 E L (upd_obj a (add_count (- 1)) s)"
proof (rule rem_transfer [OF r core_dec [OF rem_okD(1) [OF r]] rem_okD(6) [OF r]])
  let ?s = "upd_obj a (add_count (- 1)) s"
  show "kids ?s k = kids s k \<and> mk ?s k = mk s k" for k using info_kids [of ?s s] by simp
  show "0 < rc ?s x" if "x \<in> L" "info ?s x = Some (ty, d)" "\<not> has_identity ty" for x ty d
    using rem_okD(11) [OF r, of x ty d] n [of ty d] that by (cases "x = a") auto
qed (use r in \<open>simp_all add: rem_ok_def\<close>)

lemma rem_detach:
  assumes r: "rem_ok K T Z E0 (add_mset a E) L s" and a: "rc s a = 1"
    and i: "info s a = Some (ty, d)" "\<not> has_identity ty"
  shows "rem_ok K T Z E0 (kids s a + E) (L - {a}) (upd_obj a (add_count (- 1)) s)"
proof -
  let ?s = "upd_obj a (add_count (- 1)) s"
  note c = rem_okD(1) [OF r]
  have aK: "a \<notin> K" using rem_kept_count [OF r] a by force
  have r0: "rc ?s a = 0" using a core_target(1) [OF c] by simp
  have k: "kids ?s = kids s" using info_kids [of ?s s] by simp
  have c1: "core E0 E L ?s" by (rule core_dec [OF c])
  have "a \<in> L" using coreD(5) [OF c] core_target(1) [OF c] i a by (fastforce simp: counts_ok_def)
  then have "core E0 (kids s a + E) (L - {a}) ?s" using core_detach [OF c1] r0 k by simp
  then show ?thesis
  proof (rule rem_transfer [OF r])
    show "0 < rc ?s x" if "x \<in> L - {a}" "info ?s x = Some (ty, d)" "\<not> has_identity ty" for x ty d
      using rem_okD(11) [OF r, of x ty d] that by auto
  qed (use r aK k in \<open>auto simp: rem_ok_def\<close>)
qed


lemma rem_delete:
  assumes r: "rem_ok K T Z E0 E L s" and a: "a \<notin> L" "info s a = Some (ty, d)" and z: "rc s a = 0" and u: "unlinked d"
  shows "\<exists>s1. list_del a s = Some s1 \<and> rem_ok K (T - {a}) (Z - {a}) E0 E L (jsi_free_obj a s1) \<and> gheap s1 = gheap s"
proof -
  note c = rem_okD(1) [OF r]
  have ad: "a \<in> dom (gheap s) - L" using a by (auto simp: info_def)
  obtain s1 where s1: "list_del a s = Some s1" "core E0 E L (jsi_free_obj a s1)" "gheap s1 = gheap s"
    "gc_phase s1 = gc_phase s" "gc_obj_list s1 = remove1 a (gc_obj_list s)" "tmp_obj_list s1 = remove1 a (tmp_obj_list s)"
    "gc_zero_ref_count_list s1 = remove1 a (gc_zero_ref_count_list s)"
    using core_delete [OF c ad z] a(2) u by auto
  let ?s = "jsi_free_obj a s1"
  have aK: "a \<notin> K" using a(1) rem_okD(6) [OF r] by blast
  have f: "rc ?s x = rc s x" "mk ?s x = mk s x" "kids ?s x = kids s x" "info ?s x = info s x" if "x \<noteq> a" for x
    using that s1(3) by (simp_all add: rc_def mk_def info_def kids_def jsi_free_obj_def)
  have dist: "distinct (gc_obj_list s)" "distinct (tmp_obj_list s)" "distinct (gc_zero_ref_count_list s)"
    using coreD(1) [OF c] by (simp_all add: lists_ok_def)
  have "rem_ok K (T - {a}) (Z - {a}) E0 E L ?s"
  proof (rule rem_transfer [OF r s1(2) rem_okD(6) [OF r]])
    show "kids ?s k = kids s k \<and> mk ?s k = mk s k" if "k \<in> K" for k using f [of k] that aK by auto
    show "0 < rc ?s x" if "x \<in> L" "info ?s x = Some (t, e)" "\<not> has_identity t" for x t e
    proof -
      have "x \<noteq> a" using that(1) a(1) by blast
      then show ?thesis using rem_okD(11) [OF r, of x t e] f [of x] that by simp
    qed
    show "set (gc_obj_list ?s) = set (gc_obj_list s)"
      using s1(5) rem_okD(3) [OF r] aK by (simp add: jsi_free_obj_def remove1_idem)
  qed (use s1 dist rem_okD(4,5) [OF r] in \<open>auto simp: jsi_free_obj_def\<close>)
  then show ?thesis using s1(1,3) by blast
qed

lemma rem_mono: "rem_ok K T Z E0 E L s \<Longrightarrow> T \<subseteq> T' \<Longrightarrow> Z \<subseteq> Z' \<Longrightarrow> rem_ok K T' Z' E0 E L s"
  by (auto simp: rem_ok_def)

lemma rem_unlink:
  assumes r: "rem_ok K T Z E0 E L s" and m: "info s m = Some (tm, GModule md)" "m_link md = Some c" "m \<notin> L" and cL: "c \<in> L"
  shows "\<exists>s'. module_unlink m s = Some s' \<and> rem_ok K T Z E0 E L s' \<and> info s' m = Some (tm, GModule (md\<lparr>m_link := None\<rparr>))
    \<and> (\<forall>y. map_option fst (info s' y) = map_option fst (info s y)) \<and> (\<forall>y \<in> K. winfo s' y = winfo s y)"
proof -
  obtain s' where s': "module_unlink m s = Some s'" "core E0 E L s'" "rc s' = rc s" "gc_phase s' = gc_phase s \<and> mk s' = mk s"
    "gc_obj_list s' = gc_obj_list s" "tmp_obj_list s' = tmp_obj_list s"
    "gc_zero_ref_count_list s' = gc_zero_ref_count_list s" "info s' m = Some (tm, GModule (md\<lparr>m_link := None\<rparr>))"
    "m \<in># kids s c" "\<forall>y. map_option fst (info s' y) = map_option fst (info s y)" "\<forall>y. y \<noteq> c \<longrightarrow> winfo s' y = winfo s y"
    by (rule core_unlink_in [OF rem_okD(1) [OF r] m cL])
  have "c \<notin> K" using rem_okD(9) [OF r, of c] s'(9) m(3) rem_okD(6) [OF r] by blast
  then have w: "\<forall>y \<in> K. winfo s' y = winfo s y" using s'(11) by metis
  have "rem_ok K T Z E0 E L s'"
  proof (rule rem_transfer [OF r s'(2) rem_okD(6) [OF r]])
    show "kids s' k = kids s k \<and> mk s' k = mk s k" if "k \<in> K" for k using winfo_kids [of s' k s] w that s'(4) by simp
    show "0 < rc s' x" if "x \<in> L" "info s' x = Some (t, e)" "\<not> has_identity t" for x t e
    proof -
      have "map_option fst (info s x) = Some t" using s'(10) that(2) by (metis fst_conv option.simps(9))
      then show ?thesis using rem_okD(11) [OF r that(1)] that(3) s'(3) by auto
    qed
  qed (use s' r in \<open>simp_all add: rem_ok_def\<close>)
  then show ?thesis using s' w by blast
qed

interpretation remove: releasing E0 K "rem_ok K T Z E0" "\<lambda>_. None" for K T Z E0
proof unfold_locales
  show "rem_ok K T Z E0 E L s \<Longrightarrow> core E0 E L s" for E L s by (rule rem_okD)
  fix a E L s
  assume r: "rem_ok K T Z E0 (add_mset a E) L s"
  obtain p where p: "gheap s a = Some p" "info s a = Some (g_type p, g_data p)" "g_ref_count p = rc s a"
    using core_target(1) [OF rem_okD(1) [OF r]] by (rule infoE)
  have one: "rem_ok K T Z E0 E L (upd_obj a (add_count (- 1)) s)" if "has_identity (g_type p)"
    using rem_dec [OF r] that p(2) by simp
  show "\<exists>s'. free_value_rt (\<lambda>_. None) a s = Some s' \<and> rem_ok K T Z E0 E L s' \<and> info s' = info s" if "typed s (RValue a)"
    using one that p(1,2) rem_okD(2) [OF r]
    by (auto simp: free_value_rt_def queue_zero_def typed_def has_identity_def Let_def)
  show "\<exists>s'. async_func_free (\<lambda>_. None) a s = Some s' \<and> rem_ok K T Z E0 E L s' \<and> info s' = info s" if "typed s (RAsync a)"
    using one that p(1,2) rem_okD(2) [OF r]
    by (auto simp: async_func_free_def queue_zero_def typed_def has_identity_def Let_def)
  show "rem_ok K T Z E0 E L (upd_obj a (add_count (- 1)) s)" if "1 < rc s a" by (rule rem_dec [OF r that])
  show "rem_ok K T Z E0 (kids s a + E) (L - {a}) (upd_obj a (add_count (- 1)) s)"
    if "info s a = Some (ty, d)" "\<not> has_identity ty" "rc s a = 1" for ty d by (rule rem_detach [OF r that(3,1,2)])
next
  fix E L s a ty d
  assume a: "rem_ok K T Z E0 E L s" "a \<notin> L" "info s a = Some (ty, d)" "\<not> has_identity ty" "unlinked d"
  have "a \<in> dom (gheap s) - L" using a(2,3) by (auto simp: info_def)
  then have "rc s a = 0" using coreD(5) [OF rem_okD(1) [OF a(1)]] a(3,4) unfolding counts_ok_def by metis
  then show "\<exists>s1. list_del a s = Some s1 \<and> rem_ok K T Z E0 E L (jsi_free_obj a s1) \<and> gheap s1 = gheap s"
    using rem_delete [OF a(1-3) _ a(5)] rem_mono by blast
next
  fix E L s s'
  assume a: "rem_ok K T Z E0 E L s" "core E0 E L s'" "rc s' = rc s" "gc_phase s' = gc_phase s \<and> mk s' = mk s"
    "gc_obj_list s' = gc_obj_list s" "tmp_obj_list s' = tmp_obj_list s"
    "gc_zero_ref_count_list s' = gc_zero_ref_count_list s"
    "\<And>x. map_option fst (info s' x) = map_option fst (info s x)" "\<And>x. x \<in> L \<Longrightarrow> kids s' x = kids s x"
  show "rem_ok K T Z E0 E L s'"
  proof (rule rem_transfer [OF a(1,2) rem_okD(6) [OF a(1)]])
    show "kids s' k = kids s k \<and> mk s' k = mk s k" if "k \<in> K" for k using a(4,9) rem_okD(6) [OF a(1)] that by auto
    show "0 < rc s' x" if "x \<in> L" "info s' x = Some (t, e)" "\<not> has_identity t" for x t e
    proof -
      have "map_option fst (info s x) = Some t" using a(8) [of x] that(2) by simp
      then show ?thesis using rem_okD(11) [OF a(1) that(1)] that(3) a(3) by auto
    qed
  qed (use a in \<open>simp_all add: rem_ok_def\<close>)
next
  fix E L s m tm md c
  assume "rem_ok K T Z E0 E L s" "info s m = Some (tm, GModule md)" "m_link md = Some c" "m \<notin> L" "c \<in> L"
  then show "\<exists>s'. module_unlink m s = Some s' \<and> rem_ok K T Z E0 E L s' \<and> info s' m = Some (tm, GModule (md\<lparr>m_link := None\<rparr>))
    \<and> (\<forall>y. map_option fst (info s' y) = map_option fst (info s y)) \<and> (\<forall>y \<in> K. winfo s' y = winfo s y)" by (rule rem_unlink)
qed


section \<open>The loop\<close>

text \<open>The structures that are kept: objects with identity in the third list.\<close>

definition zombies :: "gc_rt \<Rightarrow> gaddr set" where
  "zombies s = {z \<in> set (gc_zero_ref_count_list s). \<exists>ty d. info s z = Some (ty, d) \<and> has_identity ty}"

definition cyc_ok :: "gaddr set \<Rightarrow> gaddr multiset \<Rightarrow> gc_rt \<Rightarrow> bool" where
  "cyc_ok K E0 s \<longleftrightarrow>
     rem_ok K (set (tmp_obj_list s)) (set (gc_zero_ref_count_list s)) E0 {#} (dom (gheap s) - zombies s) s"

lemma cyc_move:
  assumes c: "cyc_ok K E0 s" and t: "tmp_obj_list s = a # ts" and i: "info s a = Some (ty, d)" "\<not> has_identity ty"
  shows "\<exists>s'. list_del a s = Some s' \<and> tmp_obj_list s' = ts
    \<and> winfo (s'\<lparr>gc_zero_ref_count_list := gc_zero_ref_count_list s' @ [a]\<rparr>) = winfo s
    \<and> cyc_ok K E0 (s'\<lparr>gc_zero_ref_count_list := gc_zero_ref_count_list s' @ [a]\<rparr>)"
proof -
  note r = c [unfolded cyc_ok_def]
  have l: "lists_ok s" by (rule coreD(1) [OF rem_okD(1) [OF r]])
  have n: "a \<notin> set (gc_obj_list s)" "a \<notin> set (gc_zero_ref_count_list s)" using l t by (auto simp: lists_ok_def)
  let ?s = "s\<lparr>tmp_obj_list := ts\<rparr>"
  let ?s2 = "s\<lparr>tmp_obj_list := ts, gc_zero_ref_count_list := gc_zero_ref_count_list s @ [a]\<rparr>"
  have ld: "list_del a s = Some ?s" using n t by (simp add: list_del_def)
  have z: "zombies ?s2 = zombies s" using i by (auto simp: zombies_def)
  have "core E0 {#} (dom (gheap s) - zombies s) ?s2"
    by (rule core_lists [OF rem_okD(1) [OF r]]) (use t in \<open>auto intro!: perm_lists [OF l]\<close>)
  then have "rem_ok K (set ts) (set (gc_zero_ref_count_list ?s2)) E0 {#} (dom (gheap s) - zombies s) ?s2"
    by (rule rem_transfer [OF r]) (use rem_okD(6,11) [OF r] info_kids [of ?s2 s] in auto)
  then have "cyc_ok K E0 ?s2" using z by (simp add: cyc_ok_def)
  moreover have "winfo ?s2 = winfo s" by (simp add: winfo_def fun_eq_iff)
  ultimately show ?thesis using ld by auto
qed


lemma rem_tight: "rem_ok K T Z E0 E L s \<Longrightarrow> rem_ok K (set (tmp_obj_list s)) (set (gc_zero_ref_count_list s)) E0 E L s"
  by (simp add: rem_ok_def)

text \<open>The end of freeing an object: its structure is freed or kept.\<close>

lemma cyc_struct:
  assumes r: "rem_ok K T Z E0 {#} (dom (gheap s) - zombies s - {a}) s" and a: "a \<notin> K" "a \<notin> Z"
    and i: "info s a = Some (ty, e)" "has_identity ty" "unlinked e"
  shows "\<exists>s'. free_struct a s = Some s' \<and> cyc_ok K E0 s' \<and> set (tmp_obj_list s') \<subseteq> T - {a}
    \<and> (\<forall>y. y \<noteq> a \<longrightarrow> winfo s' y = winfo s y)"
proof -
  note c = rem_okD(1) [OF r]
  let ?L = "dom (gheap s) - zombies s - {a}"
  obtain p where p: "gheap s a = Some p" "g_ref_count p = rc s a" using i(1) rc_Some by (auto simp: info_def)
  have na: "a \<notin> set (gc_obj_list s)" "a \<notin> set (gc_zero_ref_count_list s)" using rem_okD(3,5) [OF r] a by auto
  then have at: "a \<in> set (tmp_obj_list s)" using coreD(1) [OF c] p(1) by (auto simp: lists_ok_def)
  let ?s1 = "s\<lparr>tmp_obj_list := remove1 a (tmp_obj_list s)\<rparr>"
  have ld: "list_del a s = Some ?s1" using na at by (simp add: list_del_def)
  have st: "set (remove1 a (tmp_obj_list s)) \<subseteq> T - {a}" using coreD(1) [OF c] rem_okD(4) [OF r] by (auto simp: lists_ok_def)
  have ph: "gc_phase s = PHASE_REMOVE_CYCLES" by (rule rem_okD(2) [OF r])
  show ?thesis
  proof (cases "rc s a = 0")
    case True
    let ?s = "jsi_free_obj a ?s1"
    have "rem_ok K (T - {a}) (Z - {a}) E0 {#} ?L ?s"
      using rem_delete [OF r _ i(1) True i(3)] ld by auto
    moreover have "zombies ?s = zombies s" using na by (auto simp: zombies_def info_def jsi_free_obj_def)
    moreover have "dom (gheap ?s) = dom (gheap s) - {a}" by (auto simp: jsi_free_obj_def)
    moreover have "dom (gheap s) - {a} - zombies s = ?L" by blast
    ultimately have "cyc_ok K E0 ?s" unfolding cyc_ok_def by (metis rem_tight)
    moreover have "free_struct a s = Some ?s" using ld p True by (simp add: free_struct_def)
    moreover have "winfo ?s y = winfo s y" if "y \<noteq> a" for y using that by (simp add: winfo_def info_def jsi_free_obj_def)
    ultimately show ?thesis using st by (auto simp: jsi_free_obj_def)
  next
    case False
    let ?s = "?s1\<lparr>gc_zero_ref_count_list := gc_zero_ref_count_list s @ [a]\<rparr>"
    have k: "core E0 {#} ?L ?s"
      by (rule core_lists [OF c]) (use at in \<open>auto intro!: perm_lists [OF coreD(1) [OF c]]\<close>)
    have "rem_ok K (set (tmp_obj_list ?s)) (set (gc_zero_ref_count_list ?s)) E0 {#} ?L ?s"
      by (rule rem_transfer [OF r k rem_okD(6) [OF r]]) (use rem_okD(11) [OF r] info_kids [of ?s s] in auto)
    moreover have "zombies ?s = insert a (zombies s)" using i by (auto simp: zombies_def)
    moreover have "dom (gheap ?s) - insert a (zombies s) = ?L" by auto
    ultimately have "cyc_ok K E0 ?s" unfolding cyc_ok_def by metis
    moreover have "free_struct a s = Some ?s" using ld p False ph by (simp add: free_struct_def)
    moreover have "winfo ?s = winfo s" by (simp add: winfo_def fun_eq_iff)
    ultimately show ?thesis using st by auto
  qed
qed

lemma cyc_free:
  assumes c: "cyc_ok K E0 s" and t: "tmp_obj_list s = a # ts" and i: "info s a = Some (ty, d)" "has_identity ty"
  shows "\<exists>s'. free_gc_object (\<lambda>_. None) a s = Some s' \<and> cyc_ok K E0 s' \<and> set (tmp_obj_list s') \<subseteq> set ts
    \<and> (\<forall>k \<in> K. winfo s' k = winfo s k)"
proof -
  let ?T = "set (tmp_obj_list s)" and ?Z = "set (gc_zero_ref_count_list s)" and ?L = "dom (gheap s) - zombies s"
  note r = c [unfolded cyc_ok_def]
  note co = rem_okD(1) [OF r]
  have lo: "lists_ok s" by (rule coreD(1) [OF co])
  have n: "a \<notin> K" "a \<notin> ?Z" "a \<notin> set ts" using lo t rem_okD(3) [OF r] by (auto simp: lists_ok_def)
  have aL: "a \<in> ?L" using i n(2) by (auto simp: zombies_def info_def)
  have nE: "a \<notin># E0" using rem_okD(7) [OF r] n(1) by blast
  note ready = core_free_ready [OF co aL i nE]
  have "core E0 (kids s a + {#}) (?L - {a}) s" using core_detach [OF co aL] i by simp
  then have r1: "rem_ok K ?T ?Z E0 (kids s a + {#}) (?L - {a}) s"
    by (rule rem_transfer [OF r]) (use rem_okD(6,11) [OF r] n(1) in auto)
  have own: "\<forall>x t k. info s x = Some (t, GContext k) \<longrightarrow> x \<in> ?L - {a}"
  proof (intro allI impI)
    fix x t k assume x: "info s x = Some (t, GContext k)"
    have "data_type (GContext k) = t" using coreD(2) [OF co] x unfolding heap_ok_def by blast
    then have "x \<notin> zombies s" using x by (auto simp: zombies_def has_identity_def)
    moreover have "x \<noteq> a" using x i(1) ready(4) [of k] by auto
    ultimately show "x \<in> ?L - {a}" using x by (auto simp: info_def)
  qed
  obtain s1 D e where s1: "free_gc_object (\<lambda>_. None) a s = free_struct a s1" "rem_ok K ?T ?Z E0 {#} (?L - {a} - D) s1"
    "D \<subseteq> ?L - {a}" "\<forall>y. y \<noteq> a \<longrightarrow> map_option fst (winfo s1 y) = (if y \<in> D then None else map_option fst (winfo s y))"
    "\<forall>y \<in> K. y \<noteq> a \<longrightarrow> winfo s1 y = (if y \<in> D then None else winfo s y)" "info s1 a = Some (ty, e)" "unlinked e"
    using remove.free_fields [OF r1 _ i ready(1-3) own] by auto
  have f: "map_option fst (info s1 y) = (if y \<in> D then None else map_option fst (info s y))" if "y \<noteq> a" for y
    using s1(4) that unfolding winfo_fst by blast
  have id: "(\<exists>t x. info u y = Some (t, x) \<and> has_identity t) \<longleftrightarrow> (\<exists>t. map_option fst (info u y) = Some t \<and> has_identity t)" for u y
    by auto
  have dm: "dom (gheap s1) = dom (gheap s) - D"
  proof (rule set_eqI)
    fix y
    have dy: "y \<in> dom (gheap u) \<longleftrightarrow> map_option fst (info u y) \<noteq> None" for u by (auto simp: info_def)
    show "y \<in> dom (gheap s1) \<longleftrightarrow> y \<in> dom (gheap s) - D"
    proof (cases "y = a")
      case False
      show ?thesis unfolding Diff_iff dy f [OF False] by (cases "y \<in> D") simp_all
    qed (use s1(3,6) i(1) in \<open>auto simp: info_def\<close>)
  qed
  have z: "zombies s1 = zombies s"
  proof (rule set_eqI)
    fix y
    show "y \<in> zombies s1 \<longleftrightarrow> y \<in> zombies s"
    proof (cases "y = a \<or> y \<in> D")
      case True
      then show ?thesis using s1(3,6) n(2) dm rem_okD(5) [OF s1(2)] by (auto simp: zombies_def info_def)
    next
      case False
      have "y \<in> set (gc_zero_ref_count_list s1)" if y: "y \<in> zombies s"
      proof -
        have "y \<in> dom (gheap s1)" using y dm False by (auto simp: zombies_def info_def)
        moreover have "y \<notin> K" using y rem_okD(6) [OF r] by blast
        moreover have "y \<notin> ?T" using y lo by (auto simp: zombies_def lists_ok_def)
        ultimately show ?thesis
          using coreD(1) [OF rem_okD(1) [OF s1(2)]] rem_okD(3,4) [OF s1(2)] by (auto simp: lists_ok_def)
      qed
      moreover have ty: "map_option fst (info s1 y) = map_option fst (info s y)" using False f [of y] by simp
      ultimately show ?thesis using rem_okD(5) [OF s1(2)] unfolding zombies_def id mem_Collect_eq ty by blast
    qed
  qed
  have "?L - {a} - D = dom (gheap s1) - zombies s1 - {a}" unfolding dm z by blast
  then obtain s2 where s2: "free_struct a s1 = Some s2" "cyc_ok K E0 s2" "set (tmp_obj_list s2) \<subseteq> ?T - {a}"
    "\<forall>y. y \<noteq> a \<longrightarrow> winfo s2 y = winfo s1 y"
    using cyc_struct [of K ?T ?Z E0 s1 a ty e] s1(2,6,7) n i(2) by auto
  have "winfo s2 k = winfo s k" if "k \<in> K" for k
  proof -
    have "k \<noteq> a" "k \<notin> D" using that n(1) rem_okD(6) [OF s1(2)] by auto
    then show ?thesis using that s1(5) s2(4) by simp
  qed
  then show ?thesis using s1(1) s2 t by auto
qed

lemma cyc_loop:
  assumes "cyc_ok K E0 s"
  shows "\<exists>s'. free_cycles_loop s = Some s' \<and> cyc_ok K E0 s' \<and> tmp_obj_list s' = [] \<and> (\<forall>k \<in> K. winfo s' k = winfo s k)"
  using assms
proof (induction "card (set (tmp_obj_list s))" arbitrary: s rule: less_induct)
  case less
  show ?case
  proof (cases "tmp_obj_list s")
    case Nil
    then show ?thesis using less.prems by (simp add: free_cycles_loop.simps [of s])
  next
    case (Cons a ts)
    have lo: "lists_ok s" using less.prems coreD(1) rem_okD(1) unfolding cyc_ok_def by blast
    then have "a \<in> dom (gheap s)" using Cons by (auto simp: lists_ok_def)
    then obtain p where p: "gheap s a = Some p" "info s a = Some (g_type p, g_data p)" by (rule infoE)
    let ?f = "if has_identity (g_type p) then free_gc_object (\<lambda>_. None) a s
      else do { s \<leftarrow> list_del a s; Some (s\<lparr>gc_zero_ref_count_list := gc_zero_ref_count_list s @ [a]\<rparr>) }"
    have "\<exists>s1. ?f = Some s1 \<and> cyc_ok K E0 s1 \<and> set (tmp_obj_list s1) \<subseteq> set ts \<and> (\<forall>k \<in> K. winfo s1 k = winfo s k)"
    proof (cases "has_identity (g_type p)")
      case True
      then show ?thesis using cyc_free [OF less.prems Cons p(2)] by simp
    next
      case False
      then show ?thesis using cyc_move [OF less.prems Cons p(2)] by auto
    qed
    then obtain s1 where s1: "?f = Some s1" "cyc_ok K E0 s1" "set (tmp_obj_list s1) \<subseteq> set ts" "\<forall>k \<in> K. winfo s1 k = winfo s k"
      by blast
    have "set ts \<subset> set (tmp_obj_list s)" using lo Cons by (auto simp: lists_ok_def)
    then have "card (set (tmp_obj_list s1)) < card (set (tmp_obj_list s))"
      using s1(3) by (intro psubset_card_mono) auto
    then obtain s2 where s2: "free_cycles_loop s1 = Some s2" "cyc_ok K E0 s2" "tmp_obj_list s2 = []" "\<forall>k \<in> K. winfo s2 k = winfo s1 k"
      using less.hyps s1(2) by blast
    have "free_cycles_loop s = free_cycles_loop s1" using p(1) s1(1) Cons by (simp add: free_cycles_loop.simps [of s])
    then show ?thesis using s2 s1(4) by auto
  qed
qed


text \<open>When the loop ends all that is left besides \<open>K\<close> are structures: a context or a closure variable is
  only referred to by objects with identity, a shape only by those and by contexts.\<close>

lemma ref_source:
  assumes "core E0 E L s" and "b \<in> L" and "info s b = Some (t, x)" and "\<not> has_identity t"
    and "z \<in># kids s b" and "info s z = Some (t', y)" and "\<not> has_identity t'"
  shows "t = TYPE_JSI_CONTEXT \<and> t' = TYPE_SHAPE"
proof -
  obtain p where p: "gheap s b = Some p" "g_data p = x" using assms(3) by (auto simp: info_def)
  obtain rs r where r: "refs x = Some rs" "r \<in> set rs" "tgt r = z"
    using assms(5) p by (auto simp: kids_def split: option.splits)
  have "typed s r" using coreD(4) [OF assms(1)] assms(2,3) r by (auto simp: refs_ok_def)
  then have "ref_type_ok r t'" using r(3) assms(6) by (simp add: typed_def)
  then have s: "r = RShape z \<or> r = RVarRef z \<or> r = RContext z"
    using assms(7) r(3) by (cases r) (auto simp: has_identity_def)
  have "data_type x = t" using coreD(2) [OF assms(1)] assms(3) by (simp add: heap_ok_def)
  moreover have free_opt_set: "q \<in> set (free_opt R w) \<longleftrightarrow> (\<exists>v. w = Some v \<and> q = R v)" for q R w by (cases w) auto
  ultimately have "t = TYPE_JSI_CONTEXT \<and> r = RShape z"
    using assms(4) r(1,2) s by (cases x) (auto simp: has_identity_def)
  then show ?thesis using \<open>ref_type_ok r t'\<close> by simp
qed

lemma cyc_end:
  assumes c: "cyc_ok K E0 s" and t: "tmp_obj_list s = []"
  shows "zombies s = set (gc_zero_ref_count_list s)" "dom (gheap s) - zombies s = K"
proof -
  let ?L = "dom (gheap s) - zombies s"
  note r = c [unfolded cyc_ok_def]
  note co = rem_okD(1) [OF r]
  have d: "dom (gheap s) = K \<union> set (gc_zero_ref_count_list s)" "K \<inter> set (gc_zero_ref_count_list s) = {}"
    using coreD(1) [OF co] rem_okD(3) [OF r] t by (auto simp: lists_ok_def)
  have src: "\<exists>b t' y. b \<in> ?L - K \<and> info s b = Some (t', y) \<and> \<not> has_identity t' \<and> t' = TYPE_JSI_CONTEXT \<and> t = TYPE_SHAPE"
    if z: "z \<in> ?L - K" "info s z = Some (t, x)" "\<not> has_identity t" for z t x
  proof -
    have "0 < rc s z" using rem_okD(11) [OF r] z by blast
    moreover have "rc s z = int (count (E0 + {#} + in_refs ?L s) z)" using coreD(5) [OF co] z(1) unfolding counts_ok_def by blast
    moreover have "count E0 z = 0" using rem_okD(7) [OF r] z(1) by (auto simp: count_eq_zero_iff)
    ultimately have "0 < count (in_refs ?L s) z" by simp
    then have "z \<in># in_refs ?L s" by (rule count_greater_zero_iff [THEN iffD1])
    then obtain b where b: "b \<in> ?L" "z \<in># kids s b" using in_refs_elem [OF coreD(8) [OF co]] by blast
    have bK: "b \<notin> K" using rem_okD(9) [OF r, of b] b(2) z(1) by blast
    obtain t' y where i: "info s b = Some (t', y)" using b(1) by (auto simp: info_def)
    have "\<not> has_identity t'" using b(1) bK d(1) i by (auto simp: zombies_def)
    then show ?thesis using ref_source [OF co b(1) i _ b(2) z(2,3)] b(1) bK i by blast
  qed
  have e: "?L - K = {}"
  proof (rule ccontr)
    assume "?L - K \<noteq> {}"
    then obtain z where z: "z \<in> ?L - K" by blast
    then obtain t x where i: "info s z = Some (t, x)" by (auto simp: info_def)
    have "\<not> has_identity t" using z d(1) i by (auto simp: zombies_def)
    then obtain b t' y where b: "b \<in> ?L - K" "info s b = Some (t', y)" "\<not> has_identity t'" "t' = TYPE_JSI_CONTEXT"
      using src [OF z i] by blast
    then show False using src [OF b(1-3)] by auto
  qed
  then show "?L = K" using rem_okD(6) [OF r] by blast
  show "zombies s = set (gc_zero_ref_count_list s)" using e d by (auto simp: zombies_def)
qed

lemma free_kept_all:
  assumes "\<forall>z \<in> set zs. \<exists>ty d. info s z = Some (ty, d) \<and> has_identity ty \<and> no_weakref d" and "distinct zs"
  shows "foldm free_kept zs s = Some (s\<lparr>gheap := gheap s |` (- set zs)\<rparr>)"
  using assms
proof (induction zs arbitrary: s)
  case Nil
  show ?case by (cases s) (simp add: restrict_map_def)
next
  case (Cons z zs)
  obtain ty d p where p: "gheap s z = Some p" "g_type p = ty" "g_data p = d" "has_identity ty" "no_weakref d"
    using Cons.prems(1) by (auto simp: info_def)
  have f: "free_kept z s = Some (jsi_free_obj z s)" using p by (cases d) (simp_all add: free_kept_def)
  have "foldm free_kept zs (jsi_free_obj z s) = Some ((jsi_free_obj z s)\<lparr>gheap := gheap (jsi_free_obj z s) |` (- set zs)\<rparr>)"
    by (rule Cons.IH) (use Cons.prems in \<open>auto simp: info_def jsi_free_obj_def\<close>)
  moreover have "(jsi_free_obj z s)\<lparr>gheap := gheap (jsi_free_obj z s) |` (- set zs)\<rparr> = s\<lparr>gheap := gheap s |` (- set (z # zs))\<rparr>"
    by (auto simp: jsi_free_obj_def restrict_map_def fun_eq_iff)
  ultimately show ?case using f by simp
qed


section \<open>The collector\<close>

lemma core_info:
  assumes "core E0 E L s" and "info s' = info s" and "rc s' = rc s" and "lists_ok s'"
  shows "core E0 E L s'"
proof -
  have "counts_ok (E0 + E) L s'"
    using coreD(5) [OF assms(1)] assms(2,3) info_dom [OF assms(2)] info_same_ok(4) [OF assms(2)] by (simp add: counts_ok_def)
  then show ?thesis using assms info_same_ok [OF assms(2)] by (simp add: core_def)
qed

text \<open>What is left after the structures are freed.\<close>

lemma core_restrict:
  assumes c: "core E0 {#} K s" and E: "set_mset E0 \<subseteq> K" and k: "\<forall>k \<in> K. set_mset (kids s k) \<subseteq> K"
    and id: "\<forall>z \<in> dom (gheap s) - K. \<exists>ty d. info s z = Some (ty, d) \<and> has_identity ty"
    and s': "gheap s' = gheap s |` K" and l: "lists_ok s'"
  shows "core E0 {#} K s'"
proof -
  have KD: "K \<subseteq> dom (gheap s)" by (rule coreD(7) [OF c])
  have dm: "dom (gheap s') = K" using s' KD by auto
  have i: "info s' x = (if x \<in> K then info s x else None)" and rk: "rc s' x = (if x \<in> K then rc s x else 0)"
    and kk: "x \<in> K \<Longrightarrow> kids s' x = kids s x" for x
    using s' by (simp_all add: info_def rc_def kids_def)
  have ir: "in_refs K s' = in_refs K s" using kk by (simp add: in_refs_def)
  have "links_ok s'"
    unfolding links_ok_def
  proof (intro conjI allI impI ballI)
    fix m t d c' assume m: "info s' m = Some (t, GModule d)" "m_link d = Some c'"
    then obtain t' x where x: "info s c' = Some (t', GContext x)" "m \<in> set (loaded_modules x)"
      using coreD(3) [OF c] unfolding links_ok_def i by (metis option.distinct(1))
    have "data_type (GContext x) = t'" using coreD(2) [OF c] x(1) unfolding heap_ok_def by blast
    then have nt: "\<not> has_identity t'" by (auto simp: has_identity_def)
    have "c' \<in> dom (gheap s)" using x(1) by (auto simp: info_def)
    then have "c' \<in> K" using id nt x(1) by (metis DiffI fst_conv option.inject)
    then show "\<exists>t' x. info s' c' = Some (t', GContext x) \<and> m \<in> set (loaded_modules x)" using x by (simp add: i)
  next
    fix c' t x assume x: "info s' c' = Some (t, GContext x)"
    then have ix: "c' \<in> K" "info s c' = Some (t, GContext x)" by (simp_all add: i split: if_splits)
    then show "distinct (loaded_modules x)" using coreD(3) [OF c] unfolding links_ok_def by blast
    fix m assume m: "m \<in> set (loaded_modules x)"
    then obtain t' d where d: "info s m = Some (t', GModule d)" "m_link d = Some c'"
      using coreD(3) [OF c] ix(2) unfolding links_ok_def by blast
    have "m \<in># kids s c'" using ix(2) m by (auto simp: info_def kids_def)
    then have "m \<in> K" using k ix(1) by blast
    then show "\<exists>t' d. info s' m = Some (t', GModule d) \<and> m_link d = Some c'" using d by (simp add: i)
  qed
  moreover have "heap_ok s'" using coreD(2,8) [OF c] dm unfolding heap_ok_def i by auto
  moreover have "refs_ok E0 K s'"
  proof -
    have "typed s r \<Longrightarrow> typed s' r" for r by (simp add: typed_def i)
    then show ?thesis using coreD(4) [OF c] dm unfolding refs_ok_def i by auto
  qed
  moreover have "counts_ok (E0 + {#}) K s'"
  proof -
    have "set_mset (in_refs K s) \<subseteq> K" using k in_refs_elem [OF coreD(8) [OF c]] by blast
    then have "set_mset (E0 + {#} + in_refs K s) \<subseteq> K" using E by simp
    moreover have "\<forall>a \<in> K. rc s a = int (count (E0 + {#} + in_refs K s) a)" using coreD(5) [OF c] unfolding counts_ok_def by blast
    ultimately show ?thesis unfolding counts_ok_def ir dm rk by simp
  qed
  ultimately show ?thesis using l by (simp add: core_def)
qed

lemma gc_free_cycles_ok:
  assumes "cyc_ok K E0 (s\<lparr>gc_phase := PHASE_REMOVE_CYCLES\<rparr>)"
  shows "\<exists>s'. gc_free_cycles s = Some s' \<and> gc_state E0 s' \<and> dom (gheap s') = K \<and> (\<forall>k \<in> K. winfo s' k = winfo s k)"
proof -
  obtain s1 where s1: "free_cycles_loop (s\<lparr>gc_phase := PHASE_REMOVE_CYCLES\<rparr>) = Some s1" "cyc_ok K E0 s1"
    "tmp_obj_list s1 = []" "\<forall>k \<in> K. winfo s1 k = winfo s k"
    using cyc_loop [OF assms] by (auto simp: winfo_def)
  note e = cyc_end [OF s1(2,3)]
  have r: "rem_ok K {} (set (gc_zero_ref_count_list s1)) E0 {#} K s1" using s1(2,3) e(2) by (simp add: cyc_ok_def)
  note c = rem_okD(1) [OF r]
  let ?z = "gc_zero_ref_count_list s1"
  let ?s = "s1\<lparr>gc_phase := PHASE_NONE, gheap := gheap s1 |` (- set ?z), gc_zero_ref_count_list := []\<rparr>"
  have lo: "distinct (gc_obj_list s1)" "distinct ?z" "K \<union> set ?z = dom (gheap s1)" "K \<inter> set ?z = {}"
    using coreD(1) [OF c] rem_okD(3) [OF r] s1(3) by (auto simp: lists_ok_def)
  have "\<forall>z \<in> set ?z. \<exists>ty d. info s1 z = Some (ty, d) \<and> has_identity ty \<and> no_weakref d"
    using e(1) coreD(2) [OF c] unfolding zombies_def heap_ok_def by fastforce
  then have "foldm free_kept ?z (s1\<lparr>gc_phase := PHASE_NONE\<rparr>) = Some (s1\<lparr>gc_phase := PHASE_NONE, gheap := gheap s1 |` (- set ?z)\<rparr>)"
    using free_kept_all [of ?z "s1\<lparr>gc_phase := PHASE_NONE\<rparr>"] lo(2) by simp
  then have f: "gc_free_cycles s = Some ?s" using s1(1) by (simp add: gc_free_cycles_def)
  have h: "gheap ?s = gheap s1 |` K"
  proof
    fix x show "gheap ?s x = (gheap s1 |` K) x" using lo(3,4) by (cases "x \<in> dom (gheap s1)") (auto simp: restrict_map_def)
  qed
  then have dm: "dom (gheap ?s) = K" using lo(3) by auto
  have fk: "rc ?s k = rc s1 k" "mk ?s k = mk s1 k" "info ?s k = info s1 k" if "k \<in> K" for k
    using h that by (simp_all add: rc_def mk_def info_def)
  have "core E0 {#} K ?s"
  proof (rule core_restrict [OF c rem_okD(7) [OF r] _ _ h])
    show "\<forall>k \<in> K. set_mset (kids s1 k) \<subseteq> K" using rem_okD(9) [OF r] by blast
    show "\<forall>z \<in> dom (gheap s1) - K. \<exists>ty d. info s1 z = Some (ty, d) \<and> has_identity ty" using e lo(3) unfolding zombies_def by blast
    show "lists_ok ?s" using lo(1) dm s1(3) rem_okD(3) [OF r] by (simp add: lists_ok_def)
  qed
  moreover have "0 < rc s1 k" if "k \<in> K" for k
  proof -
    have "rc s1 k = int (count (E0 + {#} + in_refs K s1) k)" using coreD(5) [OF c] that unfolding counts_ok_def by blast
    moreover have "0 < count (E0 + in_refs K s1) k" using rem_okD(8) [OF r that] by (rule count_greater_zero_iff [THEN iffD2])
    ultimately show ?thesis by (simp del: count_union)
  qed
  ultimately have "gc_state E0 ?s" using dm s1(3) fk rem_okD(10) [OF r] by (simp add: gc_state_def)
  moreover have "winfo ?s k = winfo s k" if "k \<in> K" for k using fk(3) [OF that] s1(4) that by (simp add: winfo_def)
  ultimately show ?thesis using f dm by blast
qed


lemma gc_sound:
  assumes "gc_state E s"
  shows "sound s" "\<forall>a \<in> dom (gheap s). mk s a = 0" "finite (dom (gheap s))" "set_mset E \<subseteq> dom (gheap s)"
    "\<forall>a \<in> dom (gheap s). rc s a = int (count (E + in_refs (dom (gheap s)) s) a)"
proof -
  note c = gc_stateD(1) [OF assms]
  have k: "set_mset (E + {#} + in_refs (dom (gheap s)) s) \<subseteq> dom (gheap s)" using coreD(5) [OF c] unfolding counts_ok_def by blast
  have "fits_data d" if "info s a = Some (ty, d)" for a ty d
    using coreD(4) [OF c] that unfolding refs_ok_def by (auto simp: info_def)
  moreover have "set_mset (kids s a) \<subseteq> dom (gheap s)" for a
  proof (cases "a \<in> dom (gheap s)")
    case True
    then have "set_mset (kids s a) \<subseteq> set_mset (in_refs (dom (gheap s)) s)"
      by (rule set_mset_mono [OF kids_in_refs [OF coreD(6) [OF c]]])
    moreover have "set_mset (in_refs (dom (gheap s)) s) \<subseteq> dom (gheap s)" using k by simp
    ultimately show ?thesis by (rule subset_trans)
  qed (auto simp: kids_def split: option.splits)
  ultimately show "sound s" using gc_stateD(7,8) [OF assms] by (simp add: sound_def listed_def)
  show "\<forall>a \<in> dom (gheap s). mk s a = 0" using gc_stateD(6) [OF assms] by blast
  show "finite (dom (gheap s))" by (rule coreD(6) [OF c])
  show "set_mset E \<subseteq> dom (gheap s)" using k by simp
  show "\<forall>a \<in> dom (gheap s). rc s a = int (count (E + in_refs (dom (gheap s)) s) a)"
    using coreD(5) [OF c] unfolding counts_ok_def by simp
qed

text \<open>The state after the two passes is one in which the unreachable objects can be removed.\<close>

lemma scanned_cyc:
  assumes st: "gc_state E s" and i: "info s' = info s"
    and r: "\<forall>a \<in> dom (gheap s). rc s' a = int (count (E + in_refs (dom (gheap s)) s) a)"
    and g: "distinct (gc_obj_list s')" "set (gc_obj_list s') = reach E s"
    and t: "distinct (tmp_obj_list s')" "set (tmp_obj_list s') = dom (gheap s) - reach E s"
    and m: "\<forall>a \<in> reach E s. mk s' a = 0" and z: "gc_zero_ref_count_list s' = []"
  shows "cyc_ok (reach E s) E (s'\<lparr>gc_phase := PHASE_REMOVE_CYCLES\<rparr>)"
proof -
  let ?K = "reach E s"
  note so = gc_sound [OF st]
  have dm: "dom (gheap s') = dom (gheap s)" by (rule info_dom [OF i])
  have k: "kids s' = kids s" by (rule info_kids [OF i])
  have KD: "?K \<subseteq> dom (gheap s)" by (rule reach_closed [OF so(4) soundD(4) [OF so(1)]])
  have rr: "rc s' = rc s"
  proof
    fix a show "rc s' a = rc s a"
      using r so(5) dm by (cases "a \<in> dom (gheap s)") (auto simp: rc_def split: option.splits)
  qed
  have "lists_ok s'" using g t z KD dm by (auto simp: lists_ok_def)
  then have c: "core E {#} (dom (gheap s)) s'" by (rule core_info [OF gc_stateD(1) [OF st] i rr])
  have "x \<in># E + in_refs ?K s'" if "x \<in> ?K" for x
    using that
  proof (cases rule: reach.cases)
    case (reach_kid a)
    then have "x \<in># in_refs ?K s'" using in_refs_elem [OF finite_subset [OF KD so(3)]] k by auto
    then show ?thesis by simp
  qed simp
  moreover have "set_mset (kids s' x) \<subseteq> ?K" if "x \<in> ?K" for x using that reach_kid k by auto
  moreover have "0 < rc s' x" if "x \<in> dom (gheap s)" for x using gc_stateD(5) [OF st that] rr by simp
  moreover have "set_mset E \<subseteq> ?K" using reach_root by blast
  moreover have "info (s'\<lparr>gc_phase := PHASE_REMOVE_CYCLES\<rparr>) = info s'" by simp
  then have "kids (s'\<lparr>gc_phase := PHASE_REMOVE_CYCLES\<rparr>) = kids s'" "in_refs ?K (s'\<lparr>gc_phase := PHASE_REMOVE_CYCLES\<rparr>) = in_refs ?K s'"
    by (rule info_kids, rule info_same_ok(4))
  moreover have "zombies (s'\<lparr>gc_phase := PHASE_REMOVE_CYCLES\<rparr>) = {}" using z by (simp add: zombies_def)
  ultimately show ?thesis using c g(2) KD m dm by (simp add: cyc_ok_def rem_ok_def)
qed

lemma collect:
  assumes st: "gc_state E s"
  shows "\<exists>s'. JSI_RunGC s = Some s' \<and> gc_state E s' \<and> dom (gheap s') = reach E s \<and> (\<forall>a \<in> reach E s. winfo s' a = winfo s a)"
proof -
  note so = gc_sound [OF st]
  obtain s1 where s1: "gc_decref s = Some s1" "info s1 = info s" "\<forall>a \<in> dom (gheap s). rc s1 a = int (count E a) \<and> mk s1 a = 1"
    "distinct (gc_obj_list s1)" "set (gc_obj_list s1) = {a \<in> dom (gheap s). a \<in># E}"
    "distinct (tmp_obj_list s1)" "set (tmp_obj_list s1) = {a \<in> dom (gheap s). a \<notin># E}"
    "gc_phase s1 = gc_phase s" "gc_zero_ref_count_list s1 = gc_zero_ref_count_list s"
    using gc_decref_ok [OF so(1,2,5)] by blast
  obtain s2 where s2: "gc_scan s1 = Some s2" "info s2 = info s"
    "\<forall>a \<in> dom (gheap s). rc s2 a = int (count (E + in_refs (dom (gheap s)) s) a)"
    "distinct (gc_obj_list s2)" "set (gc_obj_list s2) = reach E s"
    "distinct (tmp_obj_list s2)" "set (tmp_obj_list s2) = dom (gheap s) - reach E s"
    "\<forall>a \<in> reach E s. mk s2 a = 0" "gc_zero_ref_count_list s2 = gc_zero_ref_count_list s"
    using gc_scan_ok [OF so(1,3,4) s1(2-9)] by blast
  have "gc_zero_ref_count_list s2 = []" using s2(9) gc_stateD(4) [OF st] by simp
  then have "cyc_ok (reach E s) E (s2\<lparr>gc_phase := PHASE_REMOVE_CYCLES\<rparr>)" by (rule scanned_cyc [OF st s2(2-8)])
  then obtain s3 where "gc_free_cycles s2 = Some s3" "gc_state E s3" "dom (gheap s3) = reach E s"
    "\<forall>k \<in> reach E s. winfo s3 k = winfo s2 k"
    using gc_free_cycles_ok by blast
  moreover have "winfo s2 = winfo s" using s2(2) by (simp add: winfo_def fun_eq_iff)
  ultimately show ?thesis using s1(1) s2(1) by (simp add: JSI_RunGC_def)
qed

end
