(* ===== verification/QGcMain.thy ===== *)
theory QGcMain
  imports QGcCycles
begin

text \<open>
  The collector as its clients see it: \<open>gc_state E s\<close> is kept by creating an object, by copying and by giving
  up a reference and by a collection; nothing that can be reached is freed, and a collection
  frees everything else. The last theorem is about the table of classes, which is shifted by the
  classes that it leaves out.
\<close>

section \<open>New objects and references\<close>

definition gc_new :: "gaddr \<Rightarrow> gc_data \<Rightarrow> gc_rt \<Rightarrow> gc_rt" where
  "gc_new a d s = add_gc_object a (data_type d)
     (s\<lparr>gheap := (gheap s)(a \<mapsto> \<lparr>g_ref_count = 1, g_type = TYPE_JSI_OBJECT, g_mark = 0, g_data = d\<rparr>)\<rparr>)"

lemma gc_new_simps:
  "info (gc_new a d s) = (info s)(a \<mapsto> (data_type d, d))" "rc (gc_new a d s) = (rc s)(a := 1)"
  "mk (gc_new a d s) = (mk s)(a := 0)" "dom (gheap (gc_new a d s)) = insert a (dom (gheap s))"
  "gc_obj_list (gc_new a d s) = gc_obj_list s @ [a]" "tmp_obj_list (gc_new a d s) = tmp_obj_list s"
  "gc_zero_ref_count_list (gc_new a d s) = gc_zero_ref_count_list s" "gc_phase (gc_new a d s) = gc_phase s"
  by (auto simp: gc_new_def add_gc_object_def info_def rc_def mk_def upd_obj_def)

lemma new_links:
  assumes l: "links_ok s" and a: "info s a = None" and u: "unlinked d" and i: "info s' = (info s)(a \<mapsto> (ty, d))"
  shows "links_ok s'"
  unfolding links_ok_def
proof (intro conjI allI impI ballI)
  fix m t x c assume m: "info s' m = Some (t, GModule x)" "m_link x = Some c"
  then have "m \<noteq> a" using u i by (auto simp: unlinked_def)
  then obtain t' y where "info s c = Some (t', GContext y)" "m \<in> set (loaded_modules y)"
    using l m i unfolding links_ok_def by (metis fun_upd_other)
  then show "\<exists>t' y. info s' c = Some (t', GContext y) \<and> m \<in> set (loaded_modules y)" using a i by auto
next
  fix c t y assume c: "info s' c = Some (t, GContext y)"
  show "distinct (loaded_modules y)"
    using l c i u by (cases "c = a") (auto simp: links_ok_def unlinked_def)
  fix m assume m: "m \<in> set (loaded_modules y)"
  then have "c \<noteq> a" using c u i by (auto simp: unlinked_def)
  then obtain t' x where "info s m = Some (t', GModule x)" "m_link x = Some c"
    using l m c i unfolding links_ok_def by (metis fun_upd_other)
  then show "\<exists>t' x. info s' m = Some (t', GModule x) \<and> m_link x = Some c" using a i by auto
qed

lemma new_counts:
  assumes c: "counts_ok (mset (map tgt rs) + E) (dom (gheap s)) s" and fin: "finite (dom (gheap s))"
    and a: "a \<notin> dom (gheap s)" and d: "refs d = Some rs"
  shows "counts_ok (add_mset a E) (insert a (dom (gheap s))) (gc_new a d s)"
proof -
  let ?s = "gc_new a d s" and ?D = "dom (gheap s)" and ?R = "mset (map tgt rs)"
  have k: "kids ?s x = (if x = a then ?R else kids s x)" for x
    using d by (simp add: kids_def gc_new_def add_gc_object_def)
  have "in_refs ?D ?s = in_refs ?D s" unfolding in_refs_def by (rule sum.cong) (use a k in auto)
  then have ir: "in_refs (insert a ?D) ?s = ?R + in_refs ?D s"
    using in_refs_remove [of "insert a ?D" a ?s] fin a k by simp
  have sub: "set_mset (?R + E + in_refs ?D s) \<subseteq> ?D" using c unfolding counts_ok_def by blast
  then have "a \<notin># ?R + E + in_refs ?D s" using a by blast
  then have z: "count (?R + E + in_refs ?D s) a = 0" by (simp only: count_eq_zero_iff not_False_eq_True)
  have e: "add_mset a E + (?R + in_refs ?D s) = add_mset a (?R + E + in_refs ?D s)" by simp
  have r: "((rc s)(a := 1)) b = int (count (add_mset a (?R + E + in_refs ?D s)) b)" if "b \<in> insert a ?D" for b
  proof (cases "b = a")
    case False
    then have "rc s b = int (count (?R + E + in_refs ?D s) b)" using c that unfolding counts_ok_def by blast
    then show ?thesis using False by simp
  qed (use z in \<open>simp del: count_union\<close>)
  have "set_mset (add_mset a (?R + E + in_refs ?D s)) \<subseteq> insert a ?D" using sub by auto
  then show ?thesis unfolding counts_ok_def ir gc_new_simps e using r by (simp del: count_add_mset count_union)
qed

lemma new_refs:
  assumes st: "gc_state F s" and a: "a \<notin> dom (gheap s)" and sub: "set (map tgt rs) \<subseteq> dom (gheap s)"
    and d: "refs d = Some rs" "fits_data d" "\<not> running d" "\<forall>r \<in> set rs. typed s r"
    and run: "\<forall>x ty e. info s x = Some (ty, e) \<longrightarrow> running e \<longrightarrow> x \<in># E"
  shows "refs_ok (add_mset a E) (insert a (dom (gheap s))) (gc_new a d s)"
proof -
  let ?s = "gc_new a d s" and ?D = "dom (gheap s)"
  have ty: "typed ?s r" if "typed s r" "tgt r \<in> ?D" for r using that a by (auto simp: typed_def gc_new_simps)
  have tr: "tgt r \<in> ?D" if "info s x = Some (t, e)" "refs e = Some q" "r \<in> set q" for r x t e q
  proof -
    have "kids s x = mset (map tgt q)" using that(1,2) by (auto simp: info_def kids_def)
    then have "tgt ` set q \<subseteq> ?D" using soundD(4) [OF gc_sound(1) [OF st], of x] by simp
    then show ?thesis using that(3) by blast
  qed
  have "fits_data e \<and> (running e \<longrightarrow> x \<in># add_mset a E) \<and> (\<forall>q. refs e = Some q \<longrightarrow> (\<forall>r \<in> set q. typed ?s r))"
    if x: "info ?s x = Some (t, e)" for x t e
  proof (cases "x = a")
    case True
    have "\<forall>r \<in> set rs. typed ?s r" using d(4) sub ty by auto
    then show ?thesis using True x d by (simp add: gc_new_simps)
  next
    case False
    then have i: "info s x = Some (t, e)" using x by (simp add: gc_new_simps)
    moreover have "x \<in> ?D" using i by (auto simp: info_def)
    ultimately have "fits_data e" "\<forall>q. refs e = Some q \<longrightarrow> (\<forall>r \<in> set q. typed s r)"
      using coreD(4) [OF gc_stateD(1) [OF st]] unfolding refs_ok_def by blast+
    then show ?thesis using run i ty tr [OF i] by auto
  qed
  then show ?thesis unfolding refs_ok_def gc_new_simps(4) by auto
qed



text \<open>Copying a value counts the new reference, and giving it up again restores the state.\<close>

lemma dup_free_roundtrip:
  assumes st: "gc_state E s" and v: "\<forall>a \<in> set (JSI_MarkValue v). a \<in> dom (gheap s)"
  shows "\<exists>s1. JSI_DupValue v s = Some s1 \<and> gc_state (mset (JSI_MarkValue v) + E) s1 \<and> JSI_FreeValueRT v s1 = Some s"
proof (cases "JSI_MarkValue v")
  case Nil
  then show ?thesis using st by (simp add: JSI_FreeValueRT_def)
next
  case (Cons a vs)
  then have m: "JSI_MarkValue v = [a]" by (cases v) simp_all
  then have ad: "a \<in> dom (gheap s)" using v by simp
  then obtain p where p: "gheap s a = Some p" "g_ref_count p = rc s a" by (rule infoE)
  note c = gc_stateD(1) [OF st]
  let ?s = "upd_obj a (add_count 1) s"
  have "counts_ok (add_mset a E + {#}) (dom (gheap s)) ?s"
    using coreD(5) [OF c] ad info_same_ok(4) [of ?s s] by (auto simp: counts_ok_def)
  moreover have "lists_ok ?s" using coreD(1) [OF c] by (simp add: lists_ok_def)
  moreover have "refs_ok (add_mset a E) (dom (gheap s)) ?s"
  proof -
    have "refs_ok (add_mset a E) (dom (gheap s)) s" using coreD(4) [OF c] by (simp add: refs_ok_def)
    then show ?thesis using info_same_ok(3) [of ?s s "add_mset a E" "dom (gheap s)"] by simp
  qed
  ultimately have "core (add_mset a E) {#} (dom (gheap ?s)) ?s"
    using coreD(2,3) [OF c] info_same_ok [of ?s s] by (simp add: core_def)
  moreover have "0 < rc s b" if "b \<in> dom (gheap s)" for b by (rule gc_stateD(5) [OF st that])
  ultimately have "gc_state (add_mset a E) ?s" using st by (auto simp: gc_state_def intro: less_imp_le add_strict_increasing)
  moreover have "JSI_FreeValueRT v ?s = Some s"
  proof -
    have "upd_obj a (add_count (- 1)) ?s = s"
      using p(1) by (cases s) (simp add: upd_obj_def add_count_def fun_upd_idem)
    then show ?thesis using m p gc_stateD(5) [OF st ad] by (simp add: JSI_FreeValueRT_def free_value_rt_def add_count_def Let_def)
  qed
  ultimately show ?thesis using m p(1) by auto
qed

text \<open>C2: Giving up a value frees what has no reference left, in any order and to any depth, and nothing
  else: what can be reached from the remaining references stays as it is, and all counts are
  exact and positive again.\<close>

theorem free_value_exact:
  assumes "gc_state (mset (JSI_MarkValue v) + E) s" and "\<forall>a \<in> set (JSI_MarkValue v). typed s (RValue a)"
  shows "\<exists>s'. JSI_FreeValueRT v s = Some s' \<and> gc_state E s' \<and> reach E s \<subseteq> dom (gheap s')
    \<and> dom (gheap s') \<subseteq> dom (gheap s) \<and> (\<forall>a \<in> dom (gheap s'). winfo s' a = winfo s a)"
proof (cases "JSI_MarkValue v")
  case Nil
  then show ?thesis using assms(1) reach_kept [of E s s] by (simp add: JSI_FreeValueRT_def)
next
  case (Cons a vs)
  then have m: "JSI_MarkValue v = [a]" by (cases v) simp_all
  then obtain s' where "free_value_rt free_zero_refcount a s = Some s'" "gc_state E s'" "dom (gheap s') \<subseteq> dom (gheap s)"
    "\<forall>y \<in> dom (gheap s'). winfo s' y = winfo s y"
    using free_value_one [of a E s] assms by auto
  then show ?thesis using m reach_kept by (simp add: JSI_FreeValueRT_def)
qed

text \<open>C1: A collection returns, and it is exact: the objects that are left are those that can be reached from
  the references from outside, with the data they had, and all counts are exact again.\<close>

theorem run_gc_exact:
  assumes "gc_state E s"
  shows "\<exists>s'. JSI_RunGC s = Some s' \<and> gc_state E s' \<and> dom (gheap s') = reach E s
    \<and> (\<forall>a \<in> reach E s. winfo s' a = winfo s a)"
  using assms by (rule collect)

section \<open>The table of classes\<close>

text \<open>C35: The table has no entry for \<open>JSI_CLASS_REGEXP\<close>, so string iterators have the functions of
  generators: the collector reads the data of a live iterator as that of a generator, which is undefined.\<close>

theorem string_iterator_mark_undefined:
  assumes "gheap s a = Some h" and "g_data h = GObject p" and "o_class_id p = JSI_CLASS_STRING_ITERATOR"
    and "o_u p = UArrayIterator (Some v)"
  shows "class_array JSI_CLASS_STRING_ITERATOR = GeneratorFun \<and> class_array JSI_CLASS_GENERATOR = NoFun
    \<and> visit_children f a s = None \<and> gc_decref_obj a s = None"
proof -
  have "JSI_CLASS_STRING_ITERATOR \<noteq> JSI_CLASS_OBJECT" by (simp add: JSI_CLASS_STRING_ITERATOR_def JSI_CLASS_OBJECT_def)
  then have "mark_children (g_data h) = None" using assms(2-4) by (cases "o_shape p") (simp_all add: mark_object_def)
  then have "visit_children f a s = None" for f using assms(1) by (simp add: visit_children_def)
  then show ?thesis using assms(1) by (simp add: gc_decref_obj_def)
qed

section \<open>An example\<close>

text \<open>A root and a closure that refers to itself through a variable.\<close>

definition plain_object :: "nat \<Rightarrow> gc_prop list \<Rightarrow> nat \<Rightarrow> obj_u \<Rightarrow> gc_data" where
  "plain_object sh ps c u = GObject \<lparr>o_free_mark = False, o_shape = Some sh, o_prop = ps, o_class_id = c, o_u = u,
     o_weakref_count = 0\<rparr>"

definition closure_heap :: gc_rt where
  "closure_heap = \<lparr>gc_obj_list = [1, 2, 3, 4, 5], gc_zero_ref_count_list = [], tmp_obj_list = [], gc_phase = PHASE_NONE,
     gheap = [1 \<mapsto> \<lparr>g_ref_count = 2, g_type = TYPE_SHAPE, g_mark = 0, g_data = GShape None\<rparr>,
       2 \<mapsto> \<lparr>g_ref_count = 1, g_type = TYPE_JSI_OBJECT, g_mark = 0,
         g_data = plain_object 1 [PValue VOther] JSI_CLASS_OBJECT UOpaque\<rparr>,
       3 \<mapsto> \<lparr>g_ref_count = 1, g_type = TYPE_JSI_OBJECT, g_mark = 0,
         g_data = plain_object 1 [] 13 (UFunc None (Some [Some 4]) (Some 5))\<rparr>,
       4 \<mapsto> \<lparr>g_ref_count = 1, g_type = TYPE_VAR_REF, g_mark = 0, g_data = GDetached (VObject 3)\<rparr>,
       5 \<mapsto> \<lparr>g_ref_count = 1, g_type = TYPE_FUNCTION_BYTECODE, g_mark = 0, g_data = GFunctionBytecode [VOther] None\<rparr>]\<rparr>"

lemma class_array_13: "class_array 13 = BytecodeFunctionFun"
  by (simp add: class_array_def jsi_std_class_def_def JSI_CLASS_OBJECT_def)

lemma closure_info:
  "info closure_heap = [1 \<mapsto> (TYPE_SHAPE, GShape None),
     2 \<mapsto> (TYPE_JSI_OBJECT, plain_object 1 [PValue VOther] JSI_CLASS_OBJECT UOpaque),
     3 \<mapsto> (TYPE_JSI_OBJECT, plain_object 1 [] 13 (UFunc None (Some [Some 4]) (Some 5))),
     4 \<mapsto> (TYPE_VAR_REF, GDetached (VObject 3)), 5 \<mapsto> (TYPE_FUNCTION_BYTECODE, GFunctionBytecode [VOther] None)]"
  "dom (gheap closure_heap) = {1, 2, 3, 4, 5}"
  by (auto simp: info_def closure_heap_def fun_eq_iff)

lemma closure_kids:
  "kids closure_heap 1 = {#}" "kids closure_heap 2 = {#1#}" "kids closure_heap 3 = {#1, 4, 5#}"
  "kids closure_heap 4 = {#3#}" "kids closure_heap 5 = {#}"
  by (simp_all add: kids_def closure_heap_def plain_object_def class_array_13)

lemma closure_state: "gc_state {#2#} closure_heap"
proof -
  have ir: "in_refs {1, 2, 3, 4, 5} closure_heap = {#1, 1, 4, 5, 3#}"
    by (simp add: in_refs_def closure_kids [simplified])
  have r: "rc closure_heap 1 = 2" "rc closure_heap 2 = 1" "rc closure_heap 3 = 1" "rc closure_heap 4 = 1" "rc closure_heap 5 = 1"
    by (simp_all add: rc_def closure_heap_def)
  have "counts_ok ({#2#} + {#}) {1, 2, 3, 4, 5} closure_heap"
    unfolding counts_ok_def ir closure_info(2) by (auto simp: r [simplified])
  moreover have "lists_ok closure_heap" unfolding lists_ok_def closure_info(2) by (auto simp: closure_heap_def)
  moreover have "heap_ok closure_heap" unfolding heap_ok_def closure_info by (auto simp: plain_object_def split: if_splits)
  moreover have "links_ok closure_heap" unfolding links_ok_def closure_info by (auto simp: plain_object_def split: if_splits)
  moreover have "refs_ok {#2#} {1, 2, 3, 4, 5} closure_heap"
    unfolding refs_ok_def typed_def closure_info by (auto simp: plain_object_def class_array_13)
  ultimately have "core {#2#} {#} (dom (gheap closure_heap)) closure_heap" by (simp add: core_def closure_info(2))
  moreover have "\<forall>a \<in> dom (gheap closure_heap). 0 < rc closure_heap a \<and> mk closure_heap a = 0"
    unfolding closure_info(2) by (auto simp: rc_def mk_def closure_heap_def)
  ultimately show ?thesis by (simp add: gc_state_def closure_heap_def)
qed

lemma closure_reach: "reach {#2#} closure_heap = {1, 2}"
proof
  show "reach {#2#} closure_heap \<subseteq> {1, 2}" by (rule reach_closed) (auto simp: closure_kids [simplified])
  have "2 \<in> reach {#2#} closure_heap" by (rule reach_root) simp
  moreover from this have "1 \<in> reach {#2#} closure_heap" by (rule reach_kid) (simp add: closure_kids [simplified])
  ultimately show "{1, 2} \<subseteq> reach {#2#} closure_heap" by simp
qed

theorem run_gc_exact_witness:
  "\<exists>s'. JSI_RunGC closure_heap = Some s' \<and> gc_state {#2#} s' \<and> dom (gheap s') = {1, 2}"
  using run_gc_exact [OF closure_state] unfolding closure_reach by blast

theorem free_value_exact_witness:
  "\<exists>s'. JSI_FreeValueRT (VObject 2) closure_heap = Some s' \<and> gc_state {#} s'"
proof -
  have "gc_state (mset (JSI_MarkValue (VObject 2)) + {#}) closure_heap" using closure_state by simp
  moreover have "\<forall>a \<in> set (JSI_MarkValue (VObject 2)). typed closure_heap (RValue a)"
    by (simp add: typed_def closure_info)
  ultimately show ?thesis using free_value_exact by blast
qed


text \<open>A live iterator over a string.\<close>

definition iterator_heap :: gc_rt where
  "iterator_heap = \<lparr>gc_obj_list = [2, 1], gc_zero_ref_count_list = [], tmp_obj_list = [], gc_phase = PHASE_NONE,
     gheap = [1 \<mapsto> \<lparr>g_ref_count = 1, g_type = TYPE_SHAPE, g_mark = 0, g_data = GShape None\<rparr>,
       2 \<mapsto> \<lparr>g_ref_count = 1, g_type = TYPE_JSI_OBJECT, g_mark = 0,
         g_data = plain_object 1 [] JSI_CLASS_STRING_ITERATOR (UArrayIterator (Some VOther))\<rparr>]\<rparr>"

theorem string_iterator_mark_undefined_witness: "JSI_RunGC iterator_heap = None"
proof -
  let ?s = "iterator_heap\<lparr>tmp_obj_list := []\<rparr>"
  have "gheap ?s 2 = Some \<lparr>g_ref_count = 1, g_type = TYPE_JSI_OBJECT, g_mark = 0,
    g_data = plain_object 1 [] JSI_CLASS_STRING_ITERATOR (UArrayIterator (Some VOther))\<rparr>"
    by (simp add: iterator_heap_def)
  then have "gc_decref_obj 2 ?s = None" using string_iterator_mark_undefined [of ?s 2] by (simp add: plain_object_def)
  then have "gc_decref_loop (Some 2) ?s = None" by (subst gc_decref_loop.simps) (simp add: iterator_heap_def)
  then show ?thesis by (simp add: JSI_RunGC_def gc_decref_def iterator_heap_def)
qed

end
