(* ===== verification/QShape.thy ===== *)
theory QShape
  imports QAtom
begin

text \<open>
  Shapes and properties (\<^verbatim>\<open>src/src/qjsi/quickjs_i.c\<close>, lines 5875 to 6320, 6367 to 6475, 6783 to 6825, 9576 to 9740
  and 10446 to 10482). The names and flags of the properties of an object are in its shape, the
  values in its own array. A shape has a hash table from atoms to its properties, and the runtime has a
  hash table of shapes, through which objects with the same properties share one shape: a shape
  is changed in place only when it has one owner. Pointers are numbers with 0 for null; \<open>None\<close> is
  undefined behaviour, a failed assertion or a loop that does not end. References to atoms and
  prototypes are counted in \<open>held\<close>, and properties that are freed are appended to \<open>freed\<close>.
\<close>

section \<open>Data\<close>

record shape_prop =
  pr_hash_next :: nat
  pr_flags :: nat
  pr_atom :: nat

text \<open>\<open>sh_tab\<close> is the hash table before the structure, \<open>sh_props\<close> the first \<open>prop_count\<close> elements of \<open>prop\<close>.\<close>

record shape =
  sh_ref_count :: int
  sh_is_hashed :: bool
  has_small_array_index :: bool
  sh_hash :: u32
  sh_tab :: "nat list"
  prop_size :: nat
  sh_props :: "shape_prop list"
  deleted_prop_count :: nat
  shape_hash_next :: nat
  sh_proto :: nat

text \<open>A value of an object is \<open>None\<close> while it is not initialised, and so is the array part.\<close>

record 'v sh_obj =
  p_class_id :: nat
  p_is_exotic :: bool
  p_fast_array :: bool
  p_shape :: nat
  p_prop :: "'v option list"
  p_values :: "'v list option"

datatype held_ref = HAtom nat | HProto nat

record 'v shape_rt =
  shapes :: "nat \<rightharpoonup> shape"
  shape_tab :: "nat list"
  shape_hash_bits :: nat
  shape_hash_count :: nat
  sh_objs :: "nat \<rightharpoonup> 'v sh_obj"
  array_shape :: nat
  held :: "held_ref multiset"
  freed :: "(nat \<times> 'v option) list"

text \<open>What is outside of this component: the address of a new shape or object if there is
  memory for it, which allocations of arrays succeed, which classes have exotic methods, and two values.\<close>

record 'v shape_env =
  se_shape :: "'v shape_rt \<Rightarrow> nat \<Rightarrow> nat \<Rightarrow> nat option"
  se_object :: "'v shape_rt \<Rightarrow> nat option"
  se_props :: "nat \<Rightarrow> bool"
  se_table :: "nat \<Rightarrow> bool"
  se_exotic :: "nat \<Rightarrow> bool"
  se_delete :: "nat \<Rightarrow> (nat \<Rightarrow> nat \<Rightarrow> 'v shape_rt \<Rightarrow> (int \<times> 'v shape_rt) option) option"
  se_undefined :: 'v
  se_int :: "int \<Rightarrow> 'v"

definition JSI_PROP_CONFIGURABLE :: nat where "JSI_PROP_CONFIGURABLE = 1"
definition JSI_PROP_WRITABLE :: nat where "JSI_PROP_WRITABLE = 2"
definition JSI_PROP_ENUMERABLE :: nat where "JSI_PROP_ENUMERABLE = 4"
definition JSI_PROP_C_W_E :: nat where
  "JSI_PROP_C_W_E = (JSI_PROP_CONFIGURABLE OR JSI_PROP_WRITABLE OR JSI_PROP_ENUMERABLE)"
definition JSI_PROP_LENGTH :: nat where "JSI_PROP_LENGTH = 8"
definition JSI_PROP_INITIAL_SIZE :: nat where "JSI_PROP_INITIAL_SIZE = 2"
definition JSI_PROP_INITIAL_HASH_SIZE :: nat where "JSI_PROP_INITIAL_HASH_SIZE = 4"
definition JSI_CLASS_ARRAY :: nat where "JSI_CLASS_ARRAY = 2"
definition JSI_CLASS_ARGUMENTS :: nat where "JSI_CLASS_ARGUMENTS = 8"
definition JSI_CLASS_C_FUNCTION :: nat where "JSI_CLASS_C_FUNCTION = 12"
definition JSI_ATOM_length :: nat where "JSI_ATOM_length = 48"

definition upd_shape :: "nat \<Rightarrow> (shape \<Rightarrow> shape) \<Rightarrow> 'v shape_rt \<Rightarrow> 'v shape_rt" where
  "upd_shape a f s = s\<lparr>shapes := (shapes s)(a := map_option f (shapes s a))\<rparr>"

definition upd_sobj :: "nat \<Rightarrow> ('v sh_obj \<Rightarrow> 'v sh_obj) \<Rightarrow> 'v shape_rt \<Rightarrow> 'v shape_rt" where
  "upd_sobj p f s = s\<lparr>sh_objs := (sh_objs s)(p := map_option f (sh_objs s p))\<rparr>"

definition atom_held :: "nat \<Rightarrow> held_ref multiset" where
  "atom_held a = (if a = 0 then {#} else {#HAtom a#})"

definition proto_held :: "nat \<Rightarrow> held_ref multiset" where
  "proto_held a = (if a = 0 then {#} else {#HProto a#})"

definition hold :: "held_ref multiset \<Rightarrow> 'v shape_rt \<Rightarrow> 'v shape_rt" where
  "hold x s = s\<lparr>held := held s + x\<rparr>"

definition unhold :: "held_ref multiset \<Rightarrow> 'v shape_rt \<Rightarrow> 'v shape_rt" where
  "unhold x s = s\<lparr>held := held s - x\<rparr>"

abbreviation props_held :: "shape_prop list \<Rightarrow> held_ref multiset" where
  "props_held ps \<equiv> (\<Sum>p\<leftarrow>ps. atom_held (pr_atom p))"

section \<open>The hash table of the runtime\<close>

definition init_shape_hash :: "'v shape_env \<Rightarrow> 'v shape_rt \<Rightarrow> int \<times> 'v shape_rt" where
  "init_shape_hash E s =
     (let s = s\<lparr>shape_hash_bits := 4, shape_hash_count := 0\<rparr> in
      if se_table E (2 ^ 4) then (0, s\<lparr>shape_tab := replicate (2 ^ 4) 0\<rparr>) else (-1, s))"

definition shape_hash :: "u32 \<Rightarrow> u32 \<Rightarrow> u32" where
  "shape_hash h val = (h + val) * 0x9e370001"

definition get_shape_hash :: "u32 \<Rightarrow> nat \<Rightarrow> nat" where
  "get_shape_hash h hash_bits = unat (drop_bit (32 - hash_bits) h)"

definition shape_initial_hash :: "nat \<Rightarrow> u32" where
  "shape_initial_hash proto =
     (let p = (of_nat proto :: u64) in shape_hash (shape_hash 1 (ucast p)) (ucast (drop_bit 32 p)))"

text \<open>The walk that moves a bucket into the new table.\<close>

partial_function (option) rehash_shapes ::
  "nat \<Rightarrow> nat list \<Rightarrow> nat \<Rightarrow> 'v shape_rt \<Rightarrow> (nat list \<times> 'v shape_rt) option" where
  "rehash_shapes bits t a s =
     (if a = 0 then Some (t, s)
      else do {
        sh \<leftarrow> shapes s a;
        let h = get_shape_hash (sh_hash sh) bits;
        n \<leftarrow> mem_get t h;
        t \<leftarrow> mem_set t h a;
        rehash_shapes bits t (shape_hash_next sh) (upd_shape a (\<lambda>sh. sh\<lparr>shape_hash_next := n\<rparr>) s) })"

declare rehash_shapes.simps [code]

fun rehash_all :: "nat \<Rightarrow> nat list \<Rightarrow> nat list \<Rightarrow> 'v shape_rt \<Rightarrow> (nat list \<times> 'v shape_rt) option" where
  "rehash_all bits t [] s = Some (t, s)"
| "rehash_all bits t (a # as) s = do { (t, s) \<leftarrow> rehash_shapes bits t a s; rehash_all bits t as s }"

definition resize_shape_hash :: "'v shape_env \<Rightarrow> nat \<Rightarrow> 'v shape_rt \<Rightarrow> (int \<times> 'v shape_rt) option" where
  "resize_shape_hash E bits s =
     (if 30 < bits then None
      else if \<not> se_table E (2 ^ bits) then Some (-1, s)
      else do {
        (t, s) \<leftarrow> rehash_all bits (replicate (2 ^ bits) 0) (shape_tab s) s;
        Some (0, s\<lparr>shape_hash_bits := bits, shape_tab := t\<rparr>) })"

definition jsi_shape_hash_link :: "nat \<Rightarrow> 'v shape_rt \<Rightarrow> 'v shape_rt option" where
  "jsi_shape_hash_link a s = do {
     sh \<leftarrow> shapes s a;
     let h = get_shape_hash (sh_hash sh) (shape_hash_bits s);
     n \<leftarrow> mem_get (shape_tab s) h;
     t \<leftarrow> mem_set (shape_tab s) h a;
     Some ((upd_shape a (\<lambda>sh. sh\<lparr>shape_hash_next := n\<rparr>) s)
       \<lparr>shape_tab := t, shape_hash_count := shape_hash_count s + 1\<rparr>) }"

text \<open>The walk along a bucket to the shape before \<open>a\<close>.\<close>

partial_function (option) shape_unlink_loop :: "nat \<Rightarrow> nat \<Rightarrow> nat \<Rightarrow> 'v shape_rt \<Rightarrow> nat option" where
  "shape_unlink_loop a prev cur s =
     (if cur = a then Some prev
      else do { sh \<leftarrow> shapes s cur; shape_unlink_loop a cur (shape_hash_next sh) s })"

declare shape_unlink_loop.simps [code]

definition jsi_shape_hash_unlink :: "nat \<Rightarrow> 'v shape_rt \<Rightarrow> 'v shape_rt option" where
  "jsi_shape_hash_unlink a s = do {
     sh \<leftarrow> shapes s a;
     let h = get_shape_hash (sh_hash sh) (shape_hash_bits s);
     cur \<leftarrow> mem_get (shape_tab s) h;
     prev \<leftarrow> shape_unlink_loop a 0 cur s;
     s \<leftarrow> (if prev = 0 then do { t \<leftarrow> mem_set (shape_tab s) h (shape_hash_next sh); Some (s\<lparr>shape_tab := t\<rparr>) }
           else Some (upd_shape prev (\<lambda>q. q\<lparr>shape_hash_next := shape_hash_next sh\<rparr>) s));
     Some (s\<lparr>shape_hash_count := shape_hash_count s - 1\<rparr>) }"

section \<open>Shapes\<close>

definition jsi_new_shape2 :: "'v shape_env \<Rightarrow> nat \<Rightarrow> nat \<Rightarrow> nat \<Rightarrow> 'v shape_rt \<Rightarrow> (nat option \<times> 'v shape_rt) option" where
  "jsi_new_shape2 E proto hash_size psize s = do {
     s \<leftarrow> (if 2 * (shape_hash_count s + 1) > length (shape_tab s)
           then do { (_, s) \<leftarrow> resize_shape_hash E (shape_hash_bits s + 1) s; Some s } else Some s);
     (case se_shape E s hash_size psize of
        None \<Rightarrow> Some (None, s)
      | Some a \<Rightarrow> do {
          let s = hold (proto_held proto) (s\<lparr>shapes := (shapes s)(a \<mapsto>
            \<lparr>sh_ref_count = 1, sh_is_hashed = True, has_small_array_index = False,
             sh_hash = shape_initial_hash proto, sh_tab = replicate hash_size 0, prop_size = psize,
             sh_props = [], deleted_prop_count = 0, shape_hash_next = 0, sh_proto = proto\<rparr>)\<rparr>);
          s \<leftarrow> jsi_shape_hash_link a s;
          Some (Some a, s) }) }"

definition jsi_new_shape :: "'v shape_env \<Rightarrow> nat \<Rightarrow> 'v shape_rt \<Rightarrow> (nat option \<times> 'v shape_rt) option" where
  "jsi_new_shape E proto = jsi_new_shape2 E proto JSI_PROP_INITIAL_HASH_SIZE JSI_PROP_INITIAL_SIZE"

definition jsi_clone_shape :: "'v shape_env \<Rightarrow> nat \<Rightarrow> 'v shape_rt \<Rightarrow> (nat option \<times> 'v shape_rt) option" where
  "jsi_clone_shape E a s = do {
     sh1 \<leftarrow> shapes s a;
     Some (case se_shape E s (length (sh_tab sh1)) (prop_size sh1) of
        None \<Rightarrow> (None, s)
      | Some b \<Rightarrow> (Some b, hold (proto_held (sh_proto sh1) + props_held (sh_props sh1))
          (s\<lparr>shapes := (shapes s)(b \<mapsto> sh1\<lparr>sh_ref_count := 1, sh_is_hashed := False\<rparr>)\<rparr>))) }"

definition jsi_dup_shape :: "nat \<Rightarrow> 'v shape_rt \<Rightarrow> 'v shape_rt option" where
  "jsi_dup_shape a s = do {
     sh \<leftarrow> shapes s a;
     Some (upd_shape a (\<lambda>sh. sh\<lparr>sh_ref_count := sh_ref_count sh + 1\<rparr>) s) }"

definition shape_free0 :: "nat \<Rightarrow> 'v shape_rt \<Rightarrow> 'v shape_rt option" where
  "shape_free0 a s = do {
     sh \<leftarrow> shapes s a;
     if sh_ref_count sh \<noteq> 0 then None
     else do {
       s \<leftarrow> (if sh_is_hashed sh then jsi_shape_hash_unlink a s else Some s);
       let s = unhold (proto_held (sh_proto sh) + props_held (sh_props sh)) s;
       Some (s\<lparr>shapes := (shapes s)(a := None)\<rparr>) } }"

definition shape_free :: "nat \<Rightarrow> 'v shape_rt \<Rightarrow> 'v shape_rt option" where
  "shape_free a s = do {
     sh \<leftarrow> shapes s a;
     let s = upd_shape a (\<lambda>sh. sh\<lparr>sh_ref_count := sh_ref_count sh - 1\<rparr>) s;
     if sh_ref_count sh - 1 \<le> 0 then shape_free0 a s else Some s }"

section \<open>The properties of a shape\<close>

text \<open>A property is entered at the head of its chain; \<open>hash_next\<close> has 26 bits.\<close>

definition hash_enter :: "nat list \<Rightarrow> nat \<Rightarrow> shape_prop \<Rightarrow> shape_prop \<times> nat list" where
  "hash_enter t i p =
     (let h = pr_atom p AND (length t - 1) in
      (p\<lparr>pr_hash_next := take_bit 26 (t ! h)\<rparr>, t[h := i + 1]))"

fun rehash_props :: "nat \<Rightarrow> shape_prop list \<Rightarrow> nat list \<Rightarrow> shape_prop list \<times> nat list" where
  "rehash_props i [] t = ([], t)"
| "rehash_props i (p # ps) t =
     (if pr_atom p \<noteq> 0 then
        (let (p', t') = hash_enter t i p; (ps', t'') = rehash_props (i + 1) ps t' in (p' # ps', t''))
      else (let (ps', t'') = rehash_props (i + 1) ps t in (p # ps', t'')))"

function grow_hash :: "nat \<Rightarrow> nat \<Rightarrow> nat" where
  "grow_hash n m = (if n < m \<and> 0 < n then grow_hash (2 * n) m else n)"
  by pat_completeness auto
termination by (relation "measure (\<lambda>(n, m). m - n)") auto

function shrink_hash :: "nat \<Rightarrow> nat \<Rightarrow> nat" where
  "shrink_hash n m = (if m \<le> n div 2 \<and> 0 < n then shrink_hash (n div 2) m else n)"
  by pat_completeness auto
termination by (relation "measure fst") auto

definition shape_grow :: "nat \<Rightarrow> nat \<Rightarrow> shape \<Rightarrow> shape" where
  "shape_grow new_size new_hash_size sh =
     (if new_hash_size \<noteq> length (sh_tab sh)
      then (let (ps, t) = rehash_props 0 (sh_props sh) (replicate new_hash_size 0)
            in sh\<lparr>sh_props := ps, sh_tab := t, prop_size := new_size\<rparr>)
      else sh\<lparr>prop_size := new_size\<rparr>)"

definition realloc_prop :: "nat \<Rightarrow> 'v sh_obj \<Rightarrow> 'v sh_obj" where
  "realloc_prop n p = p\<lparr>p_prop := take n (p_prop p) @ replicate (n - length (p_prop p)) None\<rparr>"

definition resize_properties ::
  "'v shape_env \<Rightarrow> nat \<Rightarrow> nat option \<Rightarrow> nat \<Rightarrow> 'v shape_rt \<Rightarrow> (int \<times> nat \<times> 'v shape_rt) option" where
  "resize_properties E a po n s = do {
     sh \<leftarrow> shapes s a;
     let new_size = max n (prop_size sh * 3 div 2);
     if po \<noteq> None \<and> \<not> se_props E new_size then Some (-1, a, s)
     else
       let s = (case po of None \<Rightarrow> s | Some p \<Rightarrow> upd_sobj p (realloc_prop new_size) s);
           new_hash_size = grow_hash (length (sh_tab sh)) new_size in
       Some (case se_shape E s new_hash_size new_size of
          None \<Rightarrow> (-1, a, s)
        | Some b \<Rightarrow> (0, b, s\<lparr>shapes := (shapes s)(a := None, b \<mapsto> shape_grow new_size new_hash_size sh)\<rparr>)) }"

text \<open>The loop that moves the properties that are not deleted, in the shape and in the object.\<close>

fun compact_loop ::
  "nat \<Rightarrow> shape_prop list \<Rightarrow> nat \<Rightarrow> nat list \<Rightarrow> 'v option list \<Rightarrow> (shape_prop list \<times> nat list \<times> 'v option list) option" where
  "compact_loop i [] j t vs = Some ([], t, vs)"
| "compact_loop i (p # ps) j t vs =
     (if pr_atom p \<noteq> 0 then do {
        let (p', t) = hash_enter t j p;
        v \<leftarrow> mem_get vs i;
        vs \<leftarrow> mem_set vs j v;
        (ps, t, vs) \<leftarrow> compact_loop (i + 1) ps (j + 1) t vs;
        Some (p' # ps, t, vs) }
      else compact_loop (i + 1) ps j t vs)"

definition compact_properties :: "'v shape_env \<Rightarrow> nat \<Rightarrow> 'v shape_rt \<Rightarrow> (int \<times> 'v shape_rt) option" where
  "compact_properties E p s = do {
     ob \<leftarrow> sh_objs s p;
     sh \<leftarrow> shapes s (p_shape ob);
     let n = length (sh_props sh) - deleted_prop_count sh;
     let new_size = max JSI_PROP_INITIAL_SIZE n;
     let new_hash_size = shrink_hash (length (sh_tab sh)) new_size;
     if sh_is_hashed sh \<or> prop_size sh < new_size then None
     else (case se_shape E s new_hash_size new_size of
        None \<Rightarrow> Some (-1, s)
      | Some b \<Rightarrow> do {
          (ps, t, vs) \<leftarrow> compact_loop 0 (sh_props sh) 0 (replicate new_hash_size 0) (p_prop ob);
          if length ps \<noteq> n then None
          else
            let ob1 = ob\<lparr>p_shape := b, p_prop := vs\<rparr>;
                ob1 = (if se_props E new_size then realloc_prop new_size ob1 else ob1) in
            Some (0, s\<lparr>shapes := (shapes s)(p_shape ob := None, b \<mapsto>
                sh\<lparr>sh_props := ps, sh_tab := t, prop_size := new_size, deleted_prop_count := 0\<rparr>),
              sh_objs := (sh_objs s)(p \<mapsto> ob1)\<rparr>) }) }"

text \<open>The end of \<open>add_shape_property\<close>.\<close>

definition shape_append :: "nat \<Rightarrow> nat \<Rightarrow> shape \<Rightarrow> shape" where
  "shape_append atom flags sh =
     (let (p, t) = hash_enter (sh_tab sh) (length (sh_props sh)) \<lparr>pr_hash_next = 0, pr_flags = take_bit 6 flags, pr_atom = atom\<rparr> in
      sh\<lparr>sh_props := sh_props sh @ [p], sh_tab := t,
         has_small_array_index := has_small_array_index sh \<or> JSI_AtomIsTaggedInt atom\<rparr>)"

definition add_shape_property ::
  "'v shape_env \<Rightarrow> nat \<Rightarrow> nat option \<Rightarrow> nat \<Rightarrow> nat \<Rightarrow> 'v shape_rt \<Rightarrow> (int \<times> nat \<times> 'v shape_rt) option" where
  "add_shape_property E a po atom flags s = do {
     sh \<leftarrow> shapes s a;
     s \<leftarrow> (if sh_is_hashed sh then jsi_shape_hash_unlink a s else Some s);
     let new_hash = shape_hash (shape_hash (sh_hash sh) (of_nat atom)) (of_nat flags);
     (r, b, s) \<leftarrow> (if prop_size sh \<le> length (sh_props sh)
                    then resize_properties E a po (length (sh_props sh) + 1) s else Some (0, a, s));
     if r \<noteq> 0 then do {
       s \<leftarrow> (if sh_is_hashed sh then jsi_shape_hash_link a s else Some s);
       Some (-1, a, s) }
     else do {
       s \<leftarrow> (if sh_is_hashed sh then jsi_shape_hash_link b (upd_shape b (\<lambda>sh. sh\<lparr>sh_hash := new_hash\<rparr>) s) else Some s);
       Some (0, b, hold (atom_held atom) (upd_shape b (shape_append atom flags) s)) } }"

section \<open>Lookup\<close>

partial_function (option) shape_search :: "(shape \<Rightarrow> bool) \<Rightarrow> nat \<Rightarrow> 'v shape_rt \<Rightarrow> nat option option" where
  "shape_search match a s =
     (if a = 0 then Some None
      else do {
        sh \<leftarrow> shapes s a;
        if match sh then Some (Some a) else shape_search match (shape_hash_next sh) s })"

declare shape_search.simps [code]

definition find_hashed_shape_proto :: "nat \<Rightarrow> 'v shape_rt \<Rightarrow> nat option option" where
  "find_hashed_shape_proto proto s = do {
     let h = shape_initial_hash proto;
     a \<leftarrow> mem_get (shape_tab s) (get_shape_hash h (shape_hash_bits s));
     shape_search (\<lambda>sh1. sh_hash sh1 = h \<and> sh_proto sh1 = proto \<and> sh_props sh1 = []) a s }"

abbreviation name_flags :: "shape_prop \<Rightarrow> nat \<times> nat" where
  "name_flags p \<equiv> (pr_atom p, pr_flags p)"

definition find_hashed_shape_prop :: "shape \<Rightarrow> nat \<Rightarrow> nat \<Rightarrow> 'v shape_rt \<Rightarrow> nat option option" where
  "find_hashed_shape_prop sh atom flags s = do {
     let h = shape_hash (shape_hash (sh_hash sh) (of_nat atom)) (of_nat flags);
     a \<leftarrow> mem_get (shape_tab s) (get_shape_hash h (shape_hash_bits s));
     shape_search (\<lambda>sh1. sh_hash sh1 = h \<and> sh_proto sh1 = sh_proto sh
       \<and> length (sh_props sh1) = length (sh_props sh) + 1
       \<and> map name_flags (sh_props sh1) = map name_flags (sh_props sh) @ [(atom, flags)]) a s }"

text \<open>The walk along a chain of properties: the property before and the one found.\<close>

partial_function (option) prop_search :: "shape_prop list \<Rightarrow> nat \<Rightarrow> nat \<Rightarrow> nat \<Rightarrow> (nat \<times> nat) option" where
  "prop_search ps atom lpr h =
     (if h = 0 then Some (lpr, 0)
      else do {
        p \<leftarrow> mem_get ps (h - 1);
        if pr_atom p = atom then Some (lpr, h) else prop_search ps atom h (pr_hash_next p) })"

declare prop_search.simps [code]

definition shape_find :: "shape \<Rightarrow> nat \<Rightarrow> (nat \<times> nat) option" where
  "shape_find sh atom = do {
     h \<leftarrow> mem_get (sh_tab sh) (atom AND (length (sh_tab sh) - 1));
     prop_search (sh_props sh) atom 0 h }"

text \<open>The index of an own property; the value is at the same index of \<open>p_prop\<close>.\<close>

definition find_own_property1 :: "nat \<Rightarrow> nat \<Rightarrow> 'v shape_rt \<Rightarrow> nat option option" where
  "find_own_property1 p atom s = do {
     ob \<leftarrow> sh_objs s p;
     sh \<leftarrow> shapes s (p_shape ob);
     (_, h) \<leftarrow> shape_find sh atom;
     Some (if h = 0 then None else Some (h - 1)) }"

definition find_own_property :: "nat \<Rightarrow> nat \<Rightarrow> 'v shape_rt \<Rightarrow> (shape_prop \<times> 'v option) option option" where
  "find_own_property p atom s = do {
     ob \<leftarrow> sh_objs s p;
     sh \<leftarrow> shapes s (p_shape ob);
     (_, h) \<leftarrow> shape_find sh atom;
     if h = 0 then Some None
     else do { pr \<leftarrow> mem_get (sh_props sh) (h - 1); v \<leftarrow> mem_get (p_prop ob) (h - 1); Some (Some (pr, v)) } }"

section \<open>Properties of objects\<close>

definition add_property :: "'v shape_env \<Rightarrow> nat \<Rightarrow> nat \<Rightarrow> nat \<Rightarrow> 'v shape_rt \<Rightarrow> (nat option \<times> 'v shape_rt) option" where
  "add_property E p prop flags s = do {
     ob \<leftarrow> sh_objs s p;
     sh \<leftarrow> shapes s (p_shape ob);
     found \<leftarrow> (if sh_is_hashed sh then find_hashed_shape_prop sh prop flags s else Some None);
     (case found of
        Some b \<Rightarrow> do {
          new_sh \<leftarrow> shapes s b;
          if prop_size new_sh \<noteq> prop_size sh \<and> \<not> se_props E (prop_size new_sh) then Some (None, s)
          else do {
            let s = (if prop_size new_sh \<noteq> prop_size sh then upd_sobj p (realloc_prop (prop_size new_sh)) s else s);
            s \<leftarrow> jsi_dup_shape b s;
            let s = upd_sobj p (\<lambda>ob. ob\<lparr>p_shape := b\<rparr>) s;
            s \<leftarrow> shape_free (p_shape ob) s;
            Some (Some (length (sh_props new_sh) - 1), s) } }
      | None \<Rightarrow> do {
          (ok, s) \<leftarrow> (if sh_is_hashed sh \<and> sh_ref_count sh \<noteq> 1 then do {
                        (c, s) \<leftarrow> jsi_clone_shape E (p_shape ob) s;
                        (case c of
                           None \<Rightarrow> Some (False, s)
                         | Some b \<Rightarrow> do {
                             s \<leftarrow> jsi_shape_hash_link b (upd_shape b (\<lambda>sh. sh\<lparr>sh_is_hashed := True\<rparr>) s);
                             s \<leftarrow> shape_free (p_shape ob) s;
                             Some (True, upd_sobj p (\<lambda>ob. ob\<lparr>p_shape := b\<rparr>) s) }) }
                      else Some (True, s));
          if \<not> ok then Some (None, s)
          else do {
            ob \<leftarrow> sh_objs s p;
            sh \<leftarrow> shapes s (p_shape ob);
            if sh_ref_count sh \<noteq> 1 then None
            else do {
              (r, b, s) \<leftarrow> add_shape_property E (p_shape ob) (Some p) prop flags s;
              let s = upd_sobj p (\<lambda>ob. ob\<lparr>p_shape := b\<rparr>) s;
              sh \<leftarrow> shapes s b;
              Some (if r \<noteq> 0 then None else Some (length (sh_props sh) - 1), s) } } }) }"

definition set_value :: "nat \<Rightarrow> nat \<Rightarrow> 'v \<Rightarrow> 'v shape_rt \<Rightarrow> 'v shape_rt option" where
  "set_value p i v s = do {
     ob \<leftarrow> sh_objs s p;
     vs \<leftarrow> mem_set (p_prop ob) i (Some v);
     Some (upd_sobj p (\<lambda>ob. ob\<lparr>p_prop := vs\<rparr>) s) }"

definition jsi_shape_prepare_update :: "'v shape_env \<Rightarrow> nat \<Rightarrow> 'v shape_rt \<Rightarrow> (int \<times> 'v shape_rt) option" where
  "jsi_shape_prepare_update E p s = do {
     ob \<leftarrow> sh_objs s p;
     sh \<leftarrow> shapes s (p_shape ob);
     if \<not> sh_is_hashed sh then Some (0, s)
     else if sh_ref_count sh \<noteq> 1 then do {
       (c, s) \<leftarrow> jsi_clone_shape E (p_shape ob) s;
       (case c of
          None \<Rightarrow> Some (-1, s)
        | Some b \<Rightarrow> do {
            s \<leftarrow> shape_free (p_shape ob) s;
            Some (0, upd_sobj p (\<lambda>ob. ob\<lparr>p_shape := b\<rparr>) s) }) }
     else do {
       s \<leftarrow> jsi_shape_hash_unlink (p_shape ob) s;
       Some (0, upd_shape (p_shape ob) (\<lambda>sh. sh\<lparr>sh_is_hashed := False\<rparr>) s) } }"

text \<open>\<open>i\<close> is the index of the property that \<open>pprs\<close> points to.\<close>

definition jsi_update_property_flags :: "'v shape_env \<Rightarrow> nat \<Rightarrow> nat \<Rightarrow> nat \<Rightarrow> 'v shape_rt \<Rightarrow> (int \<times> 'v shape_rt) option" where
  "jsi_update_property_flags E p i flags s = do {
     ob \<leftarrow> sh_objs s p;
     sh \<leftarrow> shapes s (p_shape ob);
     pr \<leftarrow> mem_get (sh_props sh) i;
     if flags = pr_flags pr then Some (0, s)
     else do {
       (r, s) \<leftarrow> jsi_shape_prepare_update E p s;
       if r \<noteq> 0 then Some (-1, s)
       else do {
         ob \<leftarrow> sh_objs s p;
         Some (0, upd_shape (p_shape ob) (\<lambda>sh. sh\<lparr>sh_props := (sh_props sh)[i := (sh_props sh ! i)\<lparr>pr_flags := take_bit 6 flags\<rparr>]\<rparr>) s) } } }"

fun add_elements :: "'v shape_env \<Rightarrow> nat \<Rightarrow> nat \<Rightarrow> 'v list \<Rightarrow> 'v shape_rt \<Rightarrow> 'v shape_rt option" where
  "add_elements E p i [] s = Some s"
| "add_elements E p i (v # vs) s = do {
     (k, s) \<leftarrow> add_property E p (JSI_AtomFromUInt32 i) JSI_PROP_C_W_E s;
     k \<leftarrow> k;
     s \<leftarrow> set_value p k v s;
     add_elements E p (i + 1) vs s }"

definition convert_fast_array_to_array :: "'v shape_env \<Rightarrow> nat \<Rightarrow> 'v shape_rt \<Rightarrow> (int \<times> 'v shape_rt) option" where
  "convert_fast_array_to_array E p s = do {
     (r, s) \<leftarrow> jsi_shape_prepare_update E p s;
     if r \<noteq> 0 then Some (-1, s)
     else do {
       ob \<leftarrow> sh_objs s p;
       vs \<leftarrow> p_values ob;
       sh \<leftarrow> shapes s (p_shape ob);
       let new_count = length (sh_props sh) + length vs;
       (r, b, s) \<leftarrow> (if prop_size sh < new_count then resize_properties E (p_shape ob) (Some p) new_count s
                      else Some (0, p_shape ob, s));
       let s = upd_sobj p (\<lambda>ob. ob\<lparr>p_shape := b\<rparr>) s;
       if r \<noteq> 0 then Some (-1, s)
       else do {
         s \<leftarrow> add_elements E p 0 vs s;
         Some (0, upd_sobj p (\<lambda>ob. ob\<lparr>p_values := Some [], p_fast_array := False\<rparr>) s) } } }"

text \<open>The part of \<open>delete_property\<close> after the property is found, at the index \<open>h - 1\<close>; \<open>lpr - 1\<close> is
  the index of the one before it in its chain.\<close>

definition shape_remove :: "nat \<Rightarrow> nat \<Rightarrow> nat \<Rightarrow> shape \<Rightarrow> shape" where
  "shape_remove atom lpr h sh =
     (let n = pr_hash_next (sh_props sh ! (h - 1));
          sh = (if lpr \<noteq> 0
                then sh\<lparr>sh_props := (sh_props sh)[lpr - 1 := (sh_props sh ! (lpr - 1))\<lparr>pr_hash_next := n\<rparr>]\<rparr>
                else sh\<lparr>sh_tab := (sh_tab sh)[atom AND (length (sh_tab sh) - 1) := n]\<rparr>) in
      sh\<lparr>sh_props := (sh_props sh)[h - 1 := (sh_props sh ! (h - 1))\<lparr>pr_flags := 0, pr_atom := 0\<rparr>],
         deleted_prop_count := deleted_prop_count sh + 1\<rparr>)"

definition delete_found :: "'v shape_env \<Rightarrow> nat \<Rightarrow> nat \<Rightarrow> nat \<Rightarrow> nat \<Rightarrow> 'v shape_rt \<Rightarrow> (int \<times> 'v shape_rt) option" where
  "delete_found E p atom lpr h s = do {
     (r, s) \<leftarrow> jsi_shape_prepare_update E p s;
     if r \<noteq> 0 then Some (-1, s)
     else do {
       ob \<leftarrow> sh_objs s p;
       sh \<leftarrow> shapes s (p_shape ob);
       pr \<leftarrow> mem_get (sh_props sh) (h - 1);
       v \<leftarrow> mem_get (p_prop ob) (h - 1);
       let s = upd_shape (p_shape ob) (shape_remove atom lpr h) s;
       let s = unhold (atom_held atom) (s\<lparr>freed := freed s @ [(pr_flags pr, v)]\<rparr>);
       let s = upd_sobj p (\<lambda>ob. ob\<lparr>p_prop := (p_prop ob)[h - 1 := Some (se_undefined E)]\<rparr>) s;
       let d = deleted_prop_count sh + 1;
       if 8 \<le> d \<and> length (sh_props sh) div 2 \<le> d
       then do { (_, s) \<leftarrow> compact_properties E p s; Some (1, s) }
       else Some (1, s) } }"

text \<open>\<open>goto redo\<close> is the recursive call.\<close>

partial_function (option) delete_property ::
  "'v shape_env \<Rightarrow> atom_rt \<Rightarrow> nat \<Rightarrow> nat \<Rightarrow> 'v shape_rt \<Rightarrow> (int \<times> 'v shape_rt) option" where
  "delete_property E ar p atom s = do {
     ob \<leftarrow> sh_objs s p;
     sh \<leftarrow> shapes s (p_shape ob);
     (lpr, h) \<leftarrow> shape_find sh atom;
     if h \<noteq> 0 then do {
       pr \<leftarrow> mem_get (sh_props sh) (h - 1);
       if pr_flags pr AND JSI_PROP_CONFIGURABLE = 0 then Some (0, s) else delete_found E p atom lpr h s }
     else if \<not> p_is_exotic ob then Some (1, s)
     else if p_fast_array ob then do {
       idx \<leftarrow> JSI_AtomIsArrayIndex ar atom;
       (case idx of
          None \<Rightarrow> Some (1, s)
        | Some idx \<Rightarrow> do {
            vs \<leftarrow> p_values ob;
            if \<not> idx < length vs then Some (1, s)
            else if p_class_id ob = JSI_CLASS_ARRAY \<or> p_class_id ob = JSI_CLASS_ARGUMENTS then
              if idx = length vs - 1 then
                Some (1, upd_sobj p (\<lambda>ob. ob\<lparr>p_values := Some (butlast vs)\<rparr>)
                  (s\<lparr>freed := freed s @ [(0, Some (vs ! idx))]\<rparr>))
              else do {
                (r, s) \<leftarrow> convert_fast_array_to_array E p s;
                if r \<noteq> 0 then Some (-1, s) else delete_property E ar p atom s }
            else Some (0, s) }) }
     else (case se_delete E (p_class_id ob) of None \<Rightarrow> Some (1, s) | Some f \<Rightarrow> f p atom s) }"

declare delete_property.simps [code]

section \<open>New objects\<close>

definition JSI_NewObjectFromShape :: "'v shape_env \<Rightarrow> nat \<Rightarrow> nat \<Rightarrow> 'v shape_rt \<Rightarrow> (nat option \<times> 'v shape_rt) option" where
  "JSI_NewObjectFromShape E a class_id s = do {
     sh \<leftarrow> shapes s a;
     (case se_object E s of
        None \<Rightarrow> do { s \<leftarrow> shape_free a s; Some (None, s) }
      | Some p \<Rightarrow>
          if \<not> se_props E (prop_size sh) then do { s \<leftarrow> shape_free a s; Some (None, s) }
          else
            let ob = \<lparr>p_class_id = class_id, p_is_exotic = False, p_fast_array = False, p_shape = a,
                  p_prop = replicate (prop_size sh) None, p_values = None\<rparr> in
            if class_id = JSI_CLASS_ARRAY then do {
              let s = s\<lparr>sh_objs := (sh_objs s)(p \<mapsto> ob\<lparr>p_is_exotic := True, p_fast_array := True, p_values := Some []\<rparr>)\<rparr>;
              (k, s) \<leftarrow> (if a = array_shape s then Some (Some 0, s)
                         else add_property E p JSI_ATOM_length (JSI_PROP_WRITABLE OR JSI_PROP_LENGTH) s);
              k \<leftarrow> k;
              s \<leftarrow> set_value p k (se_int E 0) s;
              Some (Some p, s) }
            else if class_id = JSI_CLASS_C_FUNCTION then do {
              s \<leftarrow> set_value p 0 (se_undefined E) (s\<lparr>sh_objs := (sh_objs s)(p \<mapsto> ob)\<rparr>);
              Some (Some p, s) }
            else
              let ob = (if class_id = JSI_CLASS_ARGUMENTS then ob\<lparr>p_is_exotic := True, p_fast_array := True\<rparr>
                        else ob\<lparr>p_is_exotic := class_id \<noteq> 1 \<and> se_exotic E class_id\<rparr>) in
              Some (Some p, s\<lparr>sh_objs := (sh_objs s)(p \<mapsto> ob)\<rparr>)) }"

definition JSI_NewObjectProtoClass :: "'v shape_env \<Rightarrow> nat \<Rightarrow> nat \<Rightarrow> 'v shape_rt \<Rightarrow> (nat option \<times> 'v shape_rt) option" where
  "JSI_NewObjectProtoClass E proto class_id s = do {
     found \<leftarrow> find_hashed_shape_proto proto s;
     (case found of
        Some a \<Rightarrow> do { s \<leftarrow> jsi_dup_shape a s; JSI_NewObjectFromShape E a class_id s }
      | None \<Rightarrow> do {
          (a, s) \<leftarrow> jsi_new_shape E proto s;
          (case a of None \<Rightarrow> Some (None, s) | Some a \<Rightarrow> JSI_NewObjectFromShape E a class_id s) }) }"

text \<open>\<open>free_object\<close> for an object whose last reference is given up: its properties, its shape, and the
  finalizer of arrays and arguments, which reads the array part.\<close>

definition free_sobj :: "nat \<Rightarrow> 'v shape_rt \<Rightarrow> 'v shape_rt option" where
  "free_sobj p s = do {
     ob \<leftarrow> sh_objs s p;
     sh \<leftarrow> shapes s (p_shape ob);
     vs \<leftarrow> mem_slice (p_prop ob) 0 (length (sh_props sh));
     let s = s\<lparr>freed := freed s @ zip (map pr_flags (sh_props sh)) vs\<rparr>;
     s \<leftarrow> shape_free (p_shape ob) s;
     s \<leftarrow> (if p_class_id ob = JSI_CLASS_ARRAY \<or> p_class_id ob = JSI_CLASS_ARGUMENTS
           then do { ws \<leftarrow> p_values ob; Some (s\<lparr>freed := freed s @ map (\<lambda>w. (0, Some w)) ws\<rparr>) } else Some s);
     Some (s\<lparr>sh_objs := (sh_objs s)(p := None)\<rparr>) }"

text \<open>The part of \<open>jsi_build_arguments\<close> that makes the array; \<open>m\<close> is whether its memory is allocated.\<close>

definition arguments_array :: "'v shape_env \<Rightarrow> bool \<Rightarrow> nat \<Rightarrow> 'v list \<Rightarrow> 'v shape_rt \<Rightarrow> (nat option \<times> 'v shape_rt) option" where
  "arguments_array E m proto argv s = do {
     (p, s) \<leftarrow> JSI_NewObjectProtoClass E proto JSI_CLASS_ARGUMENTS s;
     (case p of
        None \<Rightarrow> Some (None, s)
      | Some p \<Rightarrow> do {
          (k, s) \<leftarrow> add_property E p JSI_ATOM_length (JSI_PROP_WRITABLE OR JSI_PROP_CONFIGURABLE) s;
          (case k of
             None \<Rightarrow> do { s \<leftarrow> free_sobj p s; Some (None, s) }
           | Some k \<Rightarrow> do {
               s \<leftarrow> set_value p k (se_int E (int (length argv))) s;
               if argv \<noteq> [] \<and> \<not> m then do { s \<leftarrow> free_sobj p s; Some (None, s) }
               else Some (Some p, upd_sobj p (\<lambda>ob. ob\<lparr>p_values := Some argv\<rparr>) s) }) }) }"

end
