(* ===== verification/QShapeHash.thy ===== *)
theory QShapeHash
  imports QShape QAtomTable
begin

text \<open>
  The hash table inside a shape. The chain of a bucket holds the properties whose atoms fall into
  it, the last one first; adding, removing, rehashing and compacting keep that, and the search along a
  chain finds an atom exactly when the shape has it.
\<close>

section \<open>Chains of properties\<close>

text \<open>Links are indices plus one.\<close>

definition pnext :: "shape_prop list \<Rightarrow> nat \<Rightarrow> nat" where
  "pnext ps h = pr_hash_next (ps ! (h - 1))"

abbreviation falls :: "shape_prop list \<Rightarrow> nat \<Rightarrow> nat \<Rightarrow> nat \<Rightarrow> bool" where
  "falls ps n b h \<equiv> pr_atom (ps ! (h - 1)) \<noteq> 0 \<and> pr_atom (ps ! (h - 1)) AND (n - 1) = b"

definition bucket :: "shape_prop list \<Rightarrow> nat \<Rightarrow> nat \<Rightarrow> nat list" where
  "bucket ps n b = rev (filter (falls ps n b) [1..<length ps + 1])"

definition hash_ok :: "shape_prop list \<Rightarrow> nat list \<Rightarrow> bool" where
  "hash_ok ps t \<longleftrightarrow> (\<exists>k. length t = 2 ^ k) \<and> length ps < 2 ^ 26
     \<and> (\<forall>b < length t. chain (pnext ps) (t ! b) (bucket ps (length t) b))"

lemma hash_okD:
  assumes "hash_ok ps t"
  shows "0 < length t" "length ps < 2 ^ 26" "b < length t \<Longrightarrow> chain (pnext ps) (t ! b) (bucket ps (length t) b)"
    "a AND (length t - 1) < length t"
proof -
  obtain k where k: "length t = 2 ^ k" using assms by (auto simp: hash_ok_def)
  then show "0 < length t" by simp
  have "a AND (2 ^ k - 1) = a mod 2 ^ k" by (metis mask_eq_exp_minus_1 take_bit_eq_mask take_bit_eq_mod)
  then show "a AND (length t - 1) < length t" using k by simp
qed (use assms in \<open>auto simp: hash_ok_def\<close>)

lemma set_bucket: "set (bucket ps n b) = {h. 0 < h \<and> h \<le> length ps \<and> falls ps n b h}"
  by (auto simp: bucket_def)

lemma bucket_snoc:
  "bucket (ps @ [p]) n b = (if pr_atom p \<noteq> 0 \<and> pr_atom p AND (n - 1) = b then [length ps + 1] else []) @ bucket ps n b"
proof -
  have f: "filter (falls (ps @ [p]) n b) [1..<length ps + 1] = filter (falls ps n b) [1..<length ps + 1]"
    by (rule filter_cong) (auto simp: nth_append)
  have "[1..<length (ps @ [p]) + 1] = [1..<length ps + 1] @ [length ps + 1]" by simp
  then show ?thesis unfolding bucket_def using f by (auto simp del: upt_Suc)
qed

lemma chain_snoc:
  "chain (pnext (ps @ qs)) x (bucket ps n b) = chain (pnext ps) x (bucket ps n b)"
  by (rule chain_cong) (auto simp: set_bucket pnext_def nth_append)

lemma chain_head: "chain f x xs \<Longrightarrow> x = (case xs of [] \<Rightarrow> 0 | y # _ \<Rightarrow> y)"
  by (cases xs) auto

lemma bucket_head_small:
  assumes "hash_ok ps t" and "b < length t"
  shows "t ! b \<le> length ps"
proof -
  have "t ! b = 0 \<or> t ! b \<in> set (bucket ps (length t) b)"
    using chain_head [OF hash_okD(3) [OF assms]] by (cases "bucket ps (length t) b") auto
  then show ?thesis by (auto simp: set_bucket)
qed

section \<open>Entering properties\<close>

lemma hash_enter_ok:
  assumes h: "hash_ok ps t" and n: "length ps + 1 < 2 ^ 26" and a: "pr_atom p \<noteq> 0"
    and e: "hash_enter t (length ps) p = (p', t')"
  shows "hash_ok (ps @ [p']) t'" "name_flags p' = name_flags p" "length t' = length t"
proof -
  let ?b = "pr_atom p AND (length t - 1)"
  note hd = hash_okD [OF h]
  have b: "?b < length t" by (rule hd(4))
  have "t ! ?b < 2 ^ 26" using bucket_head_small [OF h b] n by simp
  then have p': "p' = p\<lparr>pr_hash_next := t ! ?b\<rparr>" and t': "t' = t[?b := length ps + 1]"
    using e by (auto simp: hash_enter_def Let_def take_bit_nat_eq_self)
  then show "name_flags p' = name_flags p" "length t' = length t" by simp_all
  have "chain (pnext (ps @ [p'])) (t' ! c) (bucket (ps @ [p']) (length t) c)" if c: "c < length t" for c
  proof (cases "c = ?b")
    case True
    have "pnext (ps @ [p']) (length ps + 1) = t ! ?b" by (simp add: pnext_def p')
    then show ?thesis using True a b hd(3) [OF b] p' t' by (simp add: bucket_snoc chain_snoc)
  next
    case False
    then show ?thesis using hd(3) [OF c] p' t' by (simp add: bucket_snoc chain_snoc)
  qed
  then show "hash_ok (ps @ [p']) t'" using h n t' by (auto simp: hash_ok_def)
qed

lemma hash_skip_ok:
  assumes "hash_ok ps t" and "length ps + 1 < 2 ^ 26" and "pr_atom p = 0"
  shows "hash_ok (ps @ [p]) t"
  using assms by (auto simp: hash_ok_def bucket_snoc chain_snoc)

lemma rehash_ok:
  assumes "hash_ok qs t" and "length qs + length ps < 2 ^ 26" and "rehash_props (length qs) ps t = (ps', t')"
  shows "hash_ok (qs @ ps') t' \<and> map name_flags ps' = map name_flags ps \<and> length t' = length t"
  using assms
proof (induction ps arbitrary: qs t ps' t')
  case (Cons p ps)
  show ?case
  proof (cases "pr_atom p = 0")
    case True
    obtain qs1 where r: "rehash_props (length (qs @ [p])) ps t = (qs1, t')" "ps' = p # qs1"
      using Cons.prems(3) True by (auto split: prod.splits)
    show ?thesis using Cons.IH [OF hash_skip_ok [OF Cons.prems(1) _ True] _ r(1)] Cons.prems(2) r(2) by simp
  next
    case False
    obtain p1 t1 qs1 where e: "hash_enter t (length qs) p = (p1, t1)"
      and r: "rehash_props (length (qs @ [p1])) ps t1 = (qs1, t')" "ps' = p1 # qs1"
      using Cons.prems(3) False by (auto split: prod.splits)
    have "length qs + 1 < 2 ^ 26" using Cons.prems(2) by simp
    note en = hash_enter_ok [OF Cons.prems(1) this False e]
    show ?thesis using Cons.IH [OF en(1) _ r(1)] en(2,3) Cons.prems(2) r(2) by simp
  qed
qed simp

lemma hash_empty: "hash_ok [] (replicate (2 ^ k) 0)"
  by (auto simp: hash_ok_def bucket_def)

section \<open>Compaction\<close>

lemma compact_ok:
  assumes "hash_ok qs t" and "length qs \<le> i" and "i + length ps \<le> length vs" and "length qs + length ps < 2 ^ 26"
  shows "\<exists>ps' t' vs'. compact_loop i ps (length qs) t vs = Some (ps', t', vs') \<and> hash_ok (qs @ ps') t'
    \<and> map name_flags ps' = map name_flags (filter (\<lambda>p. pr_atom p \<noteq> 0) ps) \<and> length t' = length t \<and> length vs' = length vs
    \<and> take (length qs) vs' = take (length qs) vs
    \<and> take (length ps') (drop (length qs) vs') = map snd (filter (\<lambda>(p, v). pr_atom p \<noteq> 0) (zip ps (drop i vs)))"
  using assms
proof (induction ps arbitrary: qs i t vs)
  case (Cons p ps)
  have i: "i < length vs" and dr: "drop i vs = vs ! i # drop (Suc i) vs" using Cons.prems(3) by (simp_all add: Cons_nth_drop_Suc)
  show ?case
  proof (cases "pr_atom p = 0")
    case True
    then show ?thesis using Cons.IH [OF Cons.prems(1), of "i + 1" vs] Cons.prems dr by simp
  next
    case False
    let ?j = "length qs" and ?vs = "vs[length qs := vs ! i]"
    obtain p1 t1 where e: "hash_enter t ?j p = (p1, t1)" by fastforce
    have "?j + 1 < 2 ^ 26" using Cons.prems(4) by simp
    note en = hash_enter_ok [OF Cons.prems(1) this False e]
    have j: "?j < length vs" using Cons.prems(2) i by simp
    obtain ps' t' vs' where r: "compact_loop (i + 1) ps (length (qs @ [p1])) t1 ?vs = Some (ps', t', vs')"
      "hash_ok ((qs @ [p1]) @ ps') t'" "map name_flags ps' = map name_flags (filter (\<lambda>p. pr_atom p \<noteq> 0) ps)"
      "length t' = length t1" "length vs' = length ?vs" "take (length (qs @ [p1])) vs' = take (length (qs @ [p1])) ?vs"
      "take (length ps') (drop (length (qs @ [p1])) vs') = map snd (filter (\<lambda>(p, v). pr_atom p \<noteq> 0) (zip ps (drop (i + 1) ?vs)))"
      using Cons.IH [OF en(1), of "i + 1" ?vs] Cons.prems(2-4) by auto
    have c: "compact_loop i (p # ps) ?j t vs = Some (p1 # ps', t', vs')"
      using False e r(1) i j by (simp add: mem_simps)
    have t: "take ?j vs' = take ?j vs"
      using arg_cong [OF r(6), of "take ?j"] by (simp add: min_def)
    have "vs' ! ?j = ?vs ! ?j" using arg_cong [OF r(6), of "\<lambda>xs. xs ! ?j"] by simp
    then have "drop ?j vs' = vs ! i # drop (?j + 1) vs'" using j r(5) by (simp add: Cons_nth_drop_Suc [symmetric])
    moreover have "drop (i + 1) ?vs = drop (Suc i) vs" using Cons.prems(2) by simp
    ultimately show ?thesis using c t r en(2,3) False dr by simp
  qed
qed simp

section \<open>Search\<close>

lemma prop_search_chain:
  assumes "chain (pnext ps) h xs" and "\<forall>x \<in> set xs. x \<le> length ps"
  shows "\<exists>us ws. xs = us @ ws \<and> (\<forall>x \<in> set us. pr_atom (ps ! (x - 1)) \<noteq> atom)
    \<and> prop_search ps atom l h = Some (last (l # us), case ws of [] \<Rightarrow> 0 | x # _ \<Rightarrow> x)
    \<and> (case ws of [] \<Rightarrow> True | x # _ \<Rightarrow> pr_atom (ps ! (x - 1)) = atom)"
  using assms
proof (induction xs arbitrary: h l)
  case Nil
  then show ?case by (simp add: prop_search.simps)
next
  case (Cons x xs)
  then have x: "h = x" "0 < x" "x \<le> length ps" by auto
  show ?case
  proof (cases "pr_atom (ps ! (x - 1)) = atom")
    case True
    then show ?thesis using x by (intro exI [of _ "[]"] exI [of _ "x # xs"]) (simp add: prop_search.simps [of ps atom l x] mem_simps)
  next
    case False
    obtain us ws where r: "xs = us @ ws" "\<forall>x \<in> set us. pr_atom (ps ! (x - 1)) \<noteq> atom"
      "prop_search ps atom x (pnext ps x) = Some (last (x # us), case ws of [] \<Rightarrow> 0 | y # _ \<Rightarrow> y)"
      "case ws of [] \<Rightarrow> True | y # _ \<Rightarrow> pr_atom (ps ! (y - 1)) = atom"
      using Cons.IH [of "pnext ps x" x] Cons.prems by auto
    have "prop_search ps atom l h = prop_search ps atom x (pnext ps x)"
      using x False by (simp add: prop_search.simps [of ps atom l x] mem_simps pnext_def)
    then show ?thesis using r False by (intro exI [of _ "x # us"] exI [of _ ws]) simp
  qed
qed

text \<open>The result of a search, and where it stands in its bucket.\<close>

lemma shape_find_ok:
  assumes h: "hash_ok (sh_props sh) (sh_tab sh)" and a: "atom \<noteq> 0"
  obtains (absent) l where "shape_find sh atom = Some (l, 0)" "\<forall>p \<in> set (sh_props sh). pr_atom p \<noteq> atom"
  | (found) l x us ws where "shape_find sh atom = Some (l, x)" "0 < x" "x \<le> length (sh_props sh)"
      "pr_atom (sh_props sh ! (x - 1)) = atom" "l = (if us = [] then 0 else last us)"
      "bucket (sh_props sh) (length (sh_tab sh)) (atom AND (length (sh_tab sh) - 1)) = us @ x # ws"
proof -
  let ?ps = "sh_props sh" and ?n = "length (sh_tab sh)" and ?b = "atom AND (length (sh_tab sh) - 1)"
  have b: "?b < ?n" by (rule hash_okD(4) [OF h])
  have le: "\<forall>x \<in> set (bucket ?ps ?n ?b). x \<le> length ?ps" by (auto simp: set_bucket)
  obtain us ws where r: "bucket ?ps ?n ?b = us @ ws" "\<forall>x \<in> set us. pr_atom (?ps ! (x - 1)) \<noteq> atom"
    "prop_search ?ps atom 0 (sh_tab sh ! ?b) = Some (last (0 # us), case ws of [] \<Rightarrow> 0 | x # _ \<Rightarrow> x)"
    "case ws of [] \<Rightarrow> True | x # _ \<Rightarrow> pr_atom (?ps ! (x - 1)) = atom"
    using prop_search_chain [OF hash_okD(3) [OF h b] le, of atom 0] by blast
  have f: "shape_find sh atom = Some (last (0 # us), case ws of [] \<Rightarrow> 0 | x # _ \<Rightarrow> x)"
    using r(3) b by (simp add: shape_find_def mem_simps)
  show thesis
  proof (cases ws)
    case Nil
    have "pr_atom p \<noteq> atom" if p: "p \<in> set ?ps" for p
    proof
      assume e: "pr_atom p = atom"
      obtain i where i: "i < length ?ps" "p = ?ps ! i" using p by (auto simp: in_set_conv_nth)
      then have "i + 1 \<in> set (bucket ?ps ?n ?b)" using e a by (simp add: set_bucket)
      then show False using r(1,2) Nil e i by auto
    qed
    then show thesis using absent f Nil by simp
  next
    case (Cons x xs)
    then have "x \<in> set (bucket ?ps ?n ?b)" using r(1) by simp
    then show thesis using found [of "last (0 # us)" x us xs] f r(1,4) Cons by (simp add: set_bucket)
  qed
qed

section \<open>Removal\<close>

lemma hash_ok_cong:
  assumes "hash_ok ps t" and "length qs = length ps"
    and "\<And>i. i < length ps \<Longrightarrow> pr_atom (qs ! i) = pr_atom (ps ! i) \<and> pr_hash_next (qs ! i) = pr_hash_next (ps ! i)"
  shows "hash_ok qs t"
proof -
  have "bucket qs n b = bucket ps n b" for n b
    unfolding bucket_def assms(2) by (rule arg_cong [of _ _ rev], rule filter_cong) (use assms(3) in auto)
  moreover have "chain (pnext qs) x (bucket ps n b) = chain (pnext ps) x (bucket ps n b)" for x n b
    by (rule chain_cong) (use assms(3) in \<open>auto simp: set_bucket pnext_def\<close>)
  ultimately show ?thesis using assms(1,2) by (auto simp: hash_ok_def)
qed

lemma bucket_remove:
  assumes "x - 1 < length ps" and "\<And>i. i < length ps \<Longrightarrow> i \<noteq> x - 1 \<Longrightarrow> pr_atom (qs ! i) = pr_atom (ps ! i)"
    and "length qs = length ps" and "pr_atom (qs ! (x - 1)) = 0" and "0 < x"
  shows "bucket qs n b = filter (\<lambda>y. y \<noteq> x) (bucket ps n b)"
proof -
  have "filter (falls qs n b) [1..<length ps + 1] = filter (\<lambda>y. y \<noteq> x) (filter (falls ps n b) [1..<length ps + 1])"
    unfolding filter_filter
  proof (rule filter_cong)
    fix y assume "y \<in> set [1..<length ps + 1]"
    then have y: "0 < y" "y \<le> length ps" by auto
    show "falls qs n b y = (falls ps n b y \<and> y \<noteq> x)"
    proof (cases "y = x")
      case False
      then have "y - 1 \<noteq> x - 1" "y - 1 < length ps" using y assms(5) by auto
      then show ?thesis using False assms(2) [of "y - 1"] by simp
    qed (use assms(4) in simp)
  qed simp
  then show ?thesis unfolding bucket_def assms(3) rev_filter [symmetric] by simp
qed

lemma shape_remove_ok:
  assumes h: "hash_ok (sh_props sh) (sh_tab sh)" and x: "0 < x" "x \<le> length (sh_props sh)"
    and a: "pr_atom (sh_props sh ! (x - 1)) = atom" "atom \<noteq> 0" and l: "l = (if us = [] then 0 else last us)"
    and b: "bucket (sh_props sh) (length (sh_tab sh)) (atom AND (length (sh_tab sh) - 1)) = us @ x # ws"
  defines "sh' \<equiv> shape_remove atom l x sh"
  shows "hash_ok (sh_props sh') (sh_tab sh')"
    "map name_flags (sh_props sh') = (map name_flags (sh_props sh))[x - 1 := (0, 0)]"
proof -
  let ?ps = "sh_props sh" and ?t = "sh_tab sh" and ?n = "length (sh_tab sh)" and ?b = "atom AND (length (sh_tab sh) - 1)"
  let ?ps' = "sh_props sh'" and ?t' = "sh_tab sh'"
  have bl: "?b < ?n" by (rule hash_okD(4) [OF h])
  have ch: "chain (pnext ?ps) (?t ! ?b) (us @ x # ws)" using hash_okD(3) [OF h bl] b by simp
  have di: "distinct (us @ x # ws)" by (rule chain_distinct [OF ch])
  have le: "y \<le> length ?ps \<and> 0 < y" if "y \<in> set (us @ x # ws)" for y using that set_bucket [of ?ps ?n ?b] b by auto
  have l0: "l = 0 \<longleftrightarrow> us = []" using l le [of "last us"] by auto
  have lx1: "l \<noteq> x" "l \<noteq> 0 \<Longrightarrow> l \<le> length ?ps"
    using l di le [of "last us"] last_in_set [of us] x(1) by (auto split: if_splits)
  then have lx: "l \<noteq> x" "l \<noteq> 0 \<Longrightarrow> l - 1 \<noteq> x - 1" "l \<noteq> 0 \<Longrightarrow> l \<le> length ?ps" using x(1) by auto
  have ll: "l \<noteq> 0 \<Longrightarrow> l - 1 < length ?ps" using lx(3) by force
  have len: "length ?ps' = length ?ps" "length ?t' = ?n" by (simp_all add: sh'_def shape_remove_def Let_def)
  have at: "pr_atom (?ps' ! i) = (if i = x - 1 then 0 else pr_atom (?ps ! i))" if "i < length ?ps" for i
    using that ll x by (cases "i = l - 1") (auto simp: sh'_def shape_remove_def Let_def nth_list_update)
  have nx: "pnext ?ps' y = (if y = l then pnext ?ps x else pnext ?ps y)" if "0 < y" "y \<le> length ?ps" "y \<noteq> x" for y
  proof -
    have "y - 1 \<noteq> x - 1" "l \<noteq> 0 \<Longrightarrow> (y - 1 = l - 1) = (y = l)" using that x(1) lx by auto
    then show ?thesis using that lx by (auto simp: pnext_def sh'_def shape_remove_def Let_def nth_list_update)
  qed
  have tb: "?t' ! c = (if l = 0 \<and> c = ?b then pnext ?ps x else ?t ! c)" if "c < ?n" for c
    using that by (auto simp: pnext_def sh'_def shape_remove_def Let_def nth_list_update)
  have bk: "bucket ?ps' ?n c = filter (\<lambda>y. y \<noteq> x) (bucket ?ps ?n c)" for c
    by (rule bucket_remove) (use x at len in auto)
  have "chain (pnext ?ps') (?t' ! c) (bucket ?ps' ?n c)" if c: "c < ?n" for c
  proof (cases "c = ?b")
    case False
    have nin: "x \<notin> set (bucket ?ps ?n c)" "l \<notin> set (bucket ?ps ?n c)"
    proof -
      show "x \<notin> set (bucket ?ps ?n c)" using False a by (auto simp: set_bucket)
      have "l \<noteq> 0 \<Longrightarrow> l \<in> set (bucket ?ps ?n ?b)" using l b by auto
      then show "l \<notin> set (bucket ?ps ?n c)" using False by (auto simp: set_bucket)
    qed
    have "pnext ?ps' y = pnext ?ps y" if y: "y \<in> set (bucket ?ps ?n c)" for y
    proof -
      have "0 < y" "y \<le> length ?ps" using y by (simp_all add: set_bucket)
      moreover have "y \<noteq> x" "y \<noteq> l" using y nin by blast+
      ultimately show ?thesis using nx by simp
    qed
    then have "chain (pnext ?ps') (?t ! c) (bucket ?ps ?n c)"
      using hash_okD(3) [OF h c] by (metis (no_types, lifting) chain_cong)
    moreover have "bucket ?ps' ?n c = bucket ?ps ?n c" using bk nin(1) by (metis (mono_tags, lifting) filter_True)
    ultimately show ?thesis using tb [OF c] False by simp
  next
    case True
    have "filter (\<lambda>y. y \<noteq> x) us = us" "filter (\<lambda>y. y \<noteq> x) ws = ws" using di by (auto intro: filter_True)
    then have e: "bucket ?ps' ?n ?b = us @ ws" using bk [of ?b] b by simp
    have cong: "chain (pnext ?ps') i (us @ ws) = chain ((pnext ?ps)(l := pnext ?ps x)) i (us @ ws)" for i
    proof (rule chain_cong)
      fix y assume y: "y \<in> set (us @ ws)"
      then have "y \<noteq> x" using di by auto
      moreover have "0 < y" "y \<le> length ?ps" using y le [of y] by auto
      ultimately show "pnext ?ps' y = ((pnext ?ps)(l := pnext ?ps x)) y" using nx by simp
    qed
    show ?thesis
    proof (cases "us = []")
      case True
      then have "chain (pnext ?ps) (pnext ?ps x) ws" using ch by simp
      moreover have "chain ((pnext ?ps)(l := pnext ?ps x)) i ws = chain (pnext ?ps) i ws" for i
        by (rule chain_upd) (use True l0 le in force)
      ultimately show ?thesis using \<open>c = ?b\<close> True l0 tb [OF c] e cong by simp
    next
      case False
      then have us: "us = butlast us @ [l]" using l by simp
      have "chain (pnext ?ps) (?t ! ?b) (butlast us @ l # x # ws)" using ch us by (metis append.assoc append_Cons append_Nil)
      then have "chain ((pnext ?ps)(l := pnext ?ps x)) (?t ! ?b) (butlast us @ l # ws)" by (rule chain_unlink)
      moreover have "butlast us @ l # ws = us @ ws" using us by (metis append.assoc append_Cons append_Nil)
      ultimately show ?thesis using \<open>c = ?b\<close> False l0 tb [OF c] e cong by simp
    qed
  qed
  then show "hash_ok ?ps' ?t'" using h len by (auto simp: hash_ok_def)
  show "map name_flags ?ps' = (map name_flags ?ps)[x - 1 := (0, 0)]"
  proof -
    have "(map name_flags ?ps)[i := name_flags (?ps ! i)] = map name_flags ?ps" for i by (metis list_update_id map_update)
    then show ?thesis by (simp add: sh'_def shape_remove_def Let_def map_update)
  qed
qed

end
