(* ===== verification/QShapeTable.thy ===== *)
theory QShapeTable
  imports QShapeHash
begin

text \<open>
  The hash table of shapes. Its chains hold the shapes that are marked as hashed, each in the bucket of its
  hash; linking, unlinking and resizing keep that, and change nothing of a shape but its link.
\<close>

section \<open>The invariant\<close>

definition snext :: "'v shape_rt \<Rightarrow> nat \<Rightarrow> nat" where
  "snext s a = (case shapes s a of None \<Rightarrow> 0 | Some sh \<Rightarrow> shape_hash_next sh)"

definition in_bucket :: "nat set \<Rightarrow> 'v shape_rt \<Rightarrow> nat \<Rightarrow> nat set" where
  "in_bucket X s h = {a. a \<notin> X \<and> (\<exists>sh. shapes s a = Some sh \<and> sh_is_hashed sh \<and> get_shape_hash (sh_hash sh) (shape_hash_bits s) = h)}"

definition all_hashed :: "nat set \<Rightarrow> 'v shape_rt \<Rightarrow> nat set" where
  "all_hashed X s = {a. a \<notin> X \<and> (\<exists>sh. shapes s a = Some sh \<and> sh_is_hashed sh)}"

lemma in_bucket_disj: "c \<noteq> d \<Longrightarrow> in_bucket X s c \<inter> in_bucket X s d = {}"
  by (auto simp: in_bucket_def)

text \<open>The table holds every hashed shape except those of \<open>X\<close>.\<close>

definition tab_ok :: "nat set \<Rightarrow> 'v shape_rt \<Rightarrow> bool" where
  "tab_ok X s \<longleftrightarrow> shape_hash_bits s \<in> {1..30} \<and> length (shape_tab s) = 2 ^ shape_hash_bits s
     \<and> shapes s 0 = None \<and> finite (dom (shapes s)) \<and> shape_hash_count s = card (all_hashed X s)
     \<and> (\<forall>h < length (shape_tab s). \<exists>xs. chain (snext s) (shape_tab s ! h) xs \<and> set xs = in_bucket X s h)"

lemma tab_okD:
  assumes "tab_ok X s"
  shows "shape_hash_bits s \<in> {1..30}" "length (shape_tab s) = 2 ^ shape_hash_bits s" "shapes s 0 = None"
    "finite (dom (shapes s))" "shape_hash_count s = card (all_hashed X s)"
    "h < length (shape_tab s) \<Longrightarrow> \<exists>xs. chain (snext s) (shape_tab s ! h) xs \<and> set xs = in_bucket X s h"
  using assms by (auto simp: tab_ok_def)

lemma get_shape_hash_less:
  assumes "1 \<le> bits" and "bits \<le> 32"
  shows "get_shape_hash h bits < 2 ^ bits"
proof -
  have u: "unat h < 2 ^ 32" using unsigned_less [of h, where ?'a = nat] by simp
  then have "unat h div 2 ^ (32 - bits) < 2 ^ bits"
    using assms by (simp add: div_less_iff_less_mult power_add [symmetric] mult.commute)
  then show ?thesis
    using u by (simp add: get_shape_hash_def unsigned_drop_bit_eq drop_bit_eq_div [where ?'a = nat] take_bit_nat_eq_self)
qed

lemma tab_index:
  assumes "tab_ok X s"
  shows "get_shape_hash h (shape_hash_bits s) < length (shape_tab s)"
  using tab_okD(1,2) [OF assms] get_shape_hash_less [of "shape_hash_bits s" h] by simp

lemma snext_simps [simp]:
  "snext (s\<lparr>shape_tab := t\<rparr>) = snext s" "snext (s\<lparr>shape_hash_bits := b\<rparr>) = snext s" "snext (s\<lparr>shape_hash_count := n\<rparr>) = snext s"
  "snext (s\<lparr>sh_objs := x\<rparr>) = snext s" "snext (s\<lparr>held := y\<rparr>) = snext s" "snext (s\<lparr>freed := z\<rparr>) = snext s"
  by (simp_all add: snext_def fun_eq_iff)

text \<open>A shape without its link, and states that differ only in links and in the table.\<close>

definition unlink_view :: "shape \<Rightarrow> shape" where
  "unlink_view sh = sh\<lparr>shape_hash_next := 0\<rparr>"

definition relinks :: "'v shape_rt \<Rightarrow> 'v shape_rt \<Rightarrow> bool" where
  "relinks s s' \<longleftrightarrow> (\<forall>a. map_option unlink_view (shapes s' a) = map_option unlink_view (shapes s a))
     \<and> sh_objs s' = sh_objs s \<and> held s' = held s \<and> freed s' = freed s \<and> array_shape s' = array_shape s"

lemma relinks_refl: "relinks s s" by (simp add: relinks_def)

lemma relinks_trans: "relinks s s1 \<Longrightarrow> relinks s1 s2 \<Longrightarrow> relinks s s2" by (simp add: relinks_def)

lemma unlink_view_simps [simp]:
  "sh_ref_count (unlink_view sh) = sh_ref_count sh" "sh_is_hashed (unlink_view sh) = sh_is_hashed sh"
  "sh_hash (unlink_view sh) = sh_hash sh" "sh_tab (unlink_view sh) = sh_tab sh" "prop_size (unlink_view sh) = prop_size sh"
  "sh_props (unlink_view sh) = sh_props sh" "deleted_prop_count (unlink_view sh) = deleted_prop_count sh"
  "sh_proto (unlink_view sh) = sh_proto sh" "has_small_array_index (unlink_view sh) = has_small_array_index sh"
  "unlink_view (sh\<lparr>shape_hash_next := n\<rparr>) = unlink_view sh" "unlink_view (unlink_view sh) = unlink_view sh"
  by (simp_all add: unlink_view_def)

lemma relinks_shape:
  assumes "relinks s s'" and "shapes s a = Some sh"
  shows "\<exists>n. shapes s' a = Some (sh\<lparr>shape_hash_next := n\<rparr>)"
proof -
  have "map_option unlink_view (shapes s' a) = Some (unlink_view sh)" using assms by (simp add: relinks_def)
  then obtain sh' where sh': "shapes s' a = Some sh'" "unlink_view sh' = unlink_view sh" by (cases "shapes s' a") auto
  then have "sh' = sh\<lparr>shape_hash_next := shape_hash_next sh'\<rparr>" by (cases sh; cases sh') (simp add: unlink_view_def)
  then show ?thesis using sh'(1) by metis
qed

lemma relinks_dom: "relinks s s' \<Longrightarrow> dom (shapes s') = dom (shapes s)"
  unfolding relinks_def dom_def by (metis (no_types, lifting) option.map_disc_iff)

lemma relinks_ex:
  assumes "relinks s s'" and "\<And>sh. Q (unlink_view sh) = Q sh"
  shows "(\<exists>sh. shapes s' a = Some sh \<and> Q sh) \<longleftrightarrow> (\<exists>sh. shapes s a = Some sh \<and> Q sh)"
proof -
  have e: "(\<exists>sh. shapes u a = Some sh \<and> Q sh) \<longleftrightarrow> (\<exists>sh. map_option unlink_view (shapes u a) = Some sh \<and> Q sh)" for u :: "'a shape_rt"
    using assms(2) by auto
  show ?thesis unfolding e using assms(1) by (simp add: relinks_def)
qed

lemma upd_shape_simps [simp]:
  "shapes (upd_shape a f s) b = (if b = a then map_option f (shapes s a) else shapes s b)"
  "shape_tab (upd_shape a f s) = shape_tab s" "shape_hash_bits (upd_shape a f s) = shape_hash_bits s"
  "shape_hash_count (upd_shape a f s) = shape_hash_count s" "sh_objs (upd_shape a f s) = sh_objs s"
  "array_shape (upd_shape a f s) = array_shape s" "held (upd_shape a f s) = held s" "freed (upd_shape a f s) = freed s"
  "dom (shapes (upd_shape a f s)) = dom (shapes s)"
  by (auto simp: upd_shape_def)

lemma relinks_upd:
  assumes "\<And>sh. unlink_view (f sh) = unlink_view sh"
  shows "relinks s (upd_shape a f s)"
  using assms by (simp add: relinks_def option.map_comp comp_def)

section \<open>Linking and unlinking\<close>

lemma link_ok:
  assumes t: "tab_ok X s" and a: "a \<in> X" "shapes s a = Some sh" "sh_is_hashed sh"
  shows "\<exists>s'. jsi_shape_hash_link a s = Some s' \<and> tab_ok (X - {a}) s' \<and> relinks s s'"
proof -
  let ?h = "get_shape_hash (sh_hash sh) (shape_hash_bits s)"
  let ?s = "(upd_shape a (\<lambda>sh. sh\<lparr>shape_hash_next := shape_tab s ! ?h\<rparr>) s)
    \<lparr>shape_tab := (shape_tab s)[?h := a], shape_hash_count := shape_hash_count s + 1\<rparr>"
  have h: "?h < length (shape_tab s)" by (rule tab_index [OF t])
  have l: "jsi_shape_hash_link a s = Some ?s" using a h by (simp add: jsi_shape_hash_link_def mem_simps Let_def)
  have a0: "a \<noteq> 0" using a(2) tab_okD(3) [OF t] by (metis option.distinct(1))
  have ib: "in_bucket (X - {a}) ?s c = (if c = ?h then insert a (in_bucket X s c) else in_bucket X s c)" for c
    using a by (auto simp: in_bucket_def)
  have nx: "snext ?s = (snext s)(a := shape_tab s ! ?h)" using a(2) by (auto simp: snext_def fun_eq_iff)
  have "\<exists>xs. chain (snext ?s) (shape_tab ?s ! c) xs \<and> set xs = in_bucket (X - {a}) ?s c" if c: "c < length (shape_tab s)" for c
  proof -
    obtain xs where xs: "chain (snext s) (shape_tab s ! c) xs" "set xs = in_bucket X s c" using tab_okD(6) [OF t c] by blast
    have "a \<notin> set xs" using xs(2) a(1) by (auto simp: in_bucket_def)
    then have ch: "chain (snext ?s) i xs = chain (snext s) i xs" for i unfolding nx by (rule chain_upd)
    show ?thesis
    proof (cases "c = ?h")
      case True
      then have "chain (snext ?s) (shape_tab ?s ! c) (a # xs)" using xs(1) ch a0 h nx by simp
      then show ?thesis using True xs(2) ib by (intro exI [of _ "a # xs"]) simp
    next
      case False
      then show ?thesis using xs ch ib by (intro exI [of _ xs]) simp
    qed
  qed
  moreover have "shape_hash_count ?s = card (all_hashed (X - {a}) ?s)"
  proof -
    have "all_hashed (X - {a}) ?s = insert a (all_hashed X s)" using a by (auto simp: all_hashed_def)
    moreover have "finite (all_hashed X s)" by (rule finite_subset [OF _ tab_okD(4) [OF t]]) (auto simp: all_hashed_def)
    moreover have "a \<notin> all_hashed X s" using a(1) by (simp add: all_hashed_def)
    ultimately show ?thesis using tab_okD(5) [OF t] by simp
  qed
  ultimately have "tab_ok (X - {a}) ?s" using t a0 unfolding tab_ok_def by simp
  moreover have "relinks s ?s" using relinks_upd [of "\<lambda>sh. sh\<lparr>shape_hash_next := shape_tab s ! ?h\<rparr>" s a] by (simp add: relinks_def)
  ultimately show ?thesis using l by blast
qed

lemma unlink_loop_ok:
  assumes "chain (snext s) cur (us @ a # ws)" and "\<forall>x \<in> set us. shapes s x \<noteq> None \<and> x \<noteq> a"
  shows "shape_unlink_loop a l cur s = Some (last (l # us))"
  using assms
proof (induction us arbitrary: l cur)
  case Nil
  then show ?case by (simp add: shape_unlink_loop.simps)
next
  case (Cons u us)
  then obtain sh where "shapes s u = Some sh" "u \<noteq> a" "cur = u" by auto
  then show ?case using Cons.IH [of "snext s u" u] Cons.prems
    by (simp add: shape_unlink_loop.simps [of a l u] snext_def)
qed

lemma unlink_ok:
  assumes t: "tab_ok X s" and a: "a \<notin> X" "shapes s a = Some sh" "sh_is_hashed sh"
  shows "\<exists>s'. jsi_shape_hash_unlink a s = Some s' \<and> tab_ok (insert a X) s' \<and> relinks s s'"
proof -
  let ?h = "get_shape_hash (sh_hash sh) (shape_hash_bits s)"
  have h: "?h < length (shape_tab s)" by (rule tab_index [OF t])
  obtain xs where xs: "chain (snext s) (shape_tab s ! ?h) xs" "set xs = in_bucket X s ?h" using tab_okD(6) [OF t h] by blast
  have "a \<in> set xs" using xs(2) a by (auto simp: in_bucket_def)
  then obtain us ws where sp: "xs = us @ a # ws" by (auto simp: in_set_conv_decomp)
  have di: "distinct (us @ a # ws)" using chain_distinct [OF xs(1)] sp by simp
  have us: "\<forall>x \<in> set us. shapes s x \<noteq> None \<and> x \<noteq> a" using xs(2) sp di by (auto simp: in_bucket_def)
  have nz: "0 \<notin> set us" using chain_nonzero [OF xs(1)] sp by simp
  let ?p = "last (0 # us)"
  have lp: "shape_unlink_loop a 0 (shape_tab s ! ?h) s = Some ?p" using unlink_loop_ok [of s _ us a ws 0] xs(1) sp us by simp
  have p0: "?p = 0 \<longleftrightarrow> us = []" using nz last_in_set [of us] by (metis last.simps)
  have sa: "snext s a = shape_hash_next sh" using a(2) by (simp add: snext_def)
  let ?s = "(if us = [] then s\<lparr>shape_tab := (shape_tab s)[?h := snext s a]\<rparr>
    else upd_shape (last us) (\<lambda>q. q\<lparr>shape_hash_next := snext s a\<rparr>) s)\<lparr>shape_hash_count := shape_hash_count s - 1\<rparr>"
  have un: "jsi_shape_hash_unlink a s = Some ?s"
    using a(2) h lp p0 sa by (auto simp: jsi_shape_hash_unlink_def mem_simps Let_def)
  have tb: "shape_tab ?s ! c = (if us = [] \<and> c = ?h then snext s a else shape_tab s ! c)" if "c < length (shape_tab s)" for c
    using that by (simp add: nth_list_update)
  have lu: "us \<noteq> [] \<Longrightarrow> last us \<in> set us" by simp
  have nx: "snext ?s x = (if us \<noteq> [] \<and> x = last us then snext s a else snext s x)" for x
  proof (cases "us \<noteq> [] \<and> x = last us")
    case True
    then have "shapes s x \<noteq> None" using us lu by blast
    then show ?thesis using True by (auto simp: snext_def)
  qed (auto simp: snext_def)
  have ib: "in_bucket (insert a X) ?s c = in_bucket X s c - {a}" for c by (auto simp: in_bucket_def)
  have "\<exists>ys. chain (snext ?s) (shape_tab ?s ! c) ys \<and> set ys = in_bucket X s c - {a}" if c: "c < length (shape_tab s)" for c
  proof (cases "c = ?h")
    case True
    have "chain (snext ?s) (shape_tab ?s ! c) (us @ ws)"
    proof (cases "us = []")
      case True
      then have "chain (snext s) (snext s a) ws" using xs(1) sp by simp
      moreover have "snext ?s = snext s" using nx True by (simp add: fun_eq_iff)
      ultimately show ?thesis using \<open>c = ?h\<close> True tb [OF c] by simp
    next
      case False
      have e: "butlast us @ last us # zs = us @ zs" for zs using False by (metis append_Cons append_butlast_last_id append_Nil append_assoc)
      have "chain ((snext s)(last us := snext s a)) (shape_tab s ! ?h) (butlast us @ last us # ws)"
        by (rule chain_unlink, unfold e) (use xs(1) sp in simp)
      moreover have "snext ?s = (snext s)(last us := snext s a)" using nx False by (auto simp: fun_eq_iff)
      ultimately show ?thesis using False \<open>c = ?h\<close> tb [OF c] e by simp
    qed
    moreover have "set (us @ ws) = in_bucket X s c - {a}" using True xs(2) sp di by auto
    ultimately show ?thesis by blast
  next
    case False
    obtain ys where ys: "chain (snext s) (shape_tab s ! c) ys" "set ys = in_bucket X s c" using tab_okD(6) [OF t c] by blast
    have "a \<notin> set ys" using ys(2) False a(2) by (auto simp: in_bucket_def)
    moreover have "chain (snext ?s) i ys = chain (snext s) i ys" for i
    proof (rule chain_cong)
      fix x assume x: "x \<in> set ys"
      have "us \<noteq> [] \<Longrightarrow> last us \<in> set xs" unfolding sp using lu by simp
      then have "us \<noteq> [] \<Longrightarrow> x \<noteq> last us" using x ys(2) xs(2) in_bucket_disj [OF False] by blast
      then show "snext ?s x = snext s x" by (subst nx) auto
    qed
    ultimately show ?thesis using ys False tb [OF c] by (intro exI [of _ ys]) auto
  qed
  moreover have "shape_hash_count ?s = card (all_hashed (insert a X) ?s)"
  proof -
    have "all_hashed (insert a X) ?s = all_hashed X s - {a}" by (auto simp: all_hashed_def)
    moreover have "a \<in> all_hashed X s" using a by (simp add: all_hashed_def)
    ultimately show ?thesis using tab_okD(5) [OF t] by simp
  qed
  ultimately have "tab_ok (insert a X) ?s" using t unfolding tab_ok_def ib by (auto split: if_splits)
  moreover have "relinks s ?s"
    using relinks_upd [of "\<lambda>q. q\<lparr>shape_hash_next := snext s a\<rparr>" s "last us"] by (auto simp: relinks_def)
  ultimately show ?thesis using un by blast
qed

section \<open>Resizing\<close>

text \<open>The new table while the shapes of \<open>P\<close> are in it.\<close>

definition new_ok :: "nat \<Rightarrow> nat list \<Rightarrow> nat set \<Rightarrow> 'v shape_rt \<Rightarrow> bool" where
  "new_ok bits t P s \<longleftrightarrow> length t = 2 ^ bits
     \<and> (\<forall>h < 2 ^ bits. \<exists>ys. chain (snext s) (t ! h) ys
          \<and> set ys = {x \<in> P. \<exists>sh. shapes s x = Some sh \<and> get_shape_hash (sh_hash sh) bits = h})"

definition table_same :: "'v shape_rt \<Rightarrow> 'v shape_rt \<Rightarrow> bool" where
  "table_same s s' \<longleftrightarrow> shape_tab s' = shape_tab s \<and> shape_hash_bits s' = shape_hash_bits s
     \<and> shape_hash_count s' = shape_hash_count s"

lemma new_enter:
  assumes n: "new_ok bits t P s" and b: "1 \<le> bits" "bits \<le> 30" and x: "x \<notin> P" "x \<noteq> 0" "shapes s x = Some sh"
  defines "h \<equiv> get_shape_hash (sh_hash sh) bits"
  shows "h < length t" "new_ok bits (t[h := x]) (insert x P) (upd_shape x (\<lambda>sh. sh\<lparr>shape_hash_next := t ! h\<rparr>) s)"
proof -
  let ?s = "upd_shape x (\<lambda>sh. sh\<lparr>shape_hash_next := t ! h\<rparr>) s"
  have l: "length t = 2 ^ bits" using n by (simp add: new_ok_def)
  then show h: "h < length t" using get_shape_hash_less [of bits "sh_hash sh"] b by (simp add: h_def)
  have nx: "snext ?s = (snext s)(x := t ! h)" using x(3) by (auto simp: snext_def fun_eq_iff)
  have "\<exists>ys. chain (snext ?s) (t[h := x] ! c) ys
    \<and> set ys = {y \<in> insert x P. \<exists>sh. shapes ?s y = Some sh \<and> get_shape_hash (sh_hash sh) bits = c}" if c: "c < 2 ^ bits" for c
  proof -
    obtain ys where ys: "chain (snext s) (t ! c) ys"
      "set ys = {x \<in> P. \<exists>sh. shapes s x = Some sh \<and> get_shape_hash (sh_hash sh) bits = c}" using n c unfolding new_ok_def by blast
    have xn: "x \<notin> set ys" using ys(2) x(1) by blast
    then have ch: "chain (snext ?s) i ys = chain (snext s) i ys" for i unfolding nx by (rule chain_upd)
    show ?thesis
    proof (cases "c = h")
      case True
      have "chain (snext ?s) (t[h := x] ! c) (x # ys)" using True ys(1) ch h x(2) nx by simp
      moreover have "set (x # ys) = {y \<in> insert x P. \<exists>sh. shapes ?s y = Some sh \<and> get_shape_hash (sh_hash sh) bits = c}"
        using True ys(2) x by (auto simp: h_def)
      ultimately show ?thesis by blast
    next
      case False
      have "set ys = {y \<in> insert x P. \<exists>sh. shapes ?s y = Some sh \<and> get_shape_hash (sh_hash sh) bits = c}"
        using False ys(2) x by (auto simp: h_def)
      then show ?thesis using False ys(1) ch by (intro exI [of _ ys]) simp
    qed
  qed
  then show "new_ok bits (t[h := x]) (insert x P) ?s" using l by (simp add: new_ok_def)
qed

lemma rehash_shapes_ok:
  assumes "chain (snext s) a xs" and "set xs \<subseteq> dom (shapes s)" and "set xs \<inter> P = {}" and "new_ok bits t P s"
    and b: "1 \<le> bits" "bits \<le> 30"
  shows "\<exists>t' s'. rehash_shapes bits t a s = Some (t', s') \<and> new_ok bits t' (P \<union> set xs) s' \<and> relinks s s' \<and> table_same s s'
    \<and> (\<forall>x. x \<notin> set xs \<longrightarrow> snext s' x = snext s x)"
  using assms(1-4)
proof (induction xs arbitrary: s a t P)
  case Nil
  then show ?case by (simp add: rehash_shapes.simps [of bits t 0] relinks_refl table_same_def)
next
  case (Cons x xs)
  obtain sh where x: "a = x" "x \<noteq> 0" "shapes s x = Some sh" using Cons.prems(1,2) by auto
  let ?h = "get_shape_hash (sh_hash sh) bits"
  let ?s = "upd_shape x (\<lambda>sh. sh\<lparr>shape_hash_next := t ! ?h\<rparr>) s"
  have xP: "x \<notin> P" using Cons.prems(3) by simp
  note e = new_enter [OF Cons.prems(4) b xP x(2,3)]
  have xn: "x \<notin> set xs" using chain_distinct [OF Cons.prems(1)] by simp
  have nx: "snext ?s = (snext s)(x := t ! ?h)" using x(3) by (auto simp: snext_def fun_eq_iff)
  have sx: "snext s x = shape_hash_next sh" using x(3) by (simp add: snext_def)
  have ch: "chain (snext ?s) (shape_hash_next sh) xs" unfolding nx using Cons.prems(1) sx by (simp add: chain_upd [OF xn])
  have inter: "set xs \<inter> insert x P = {}" using Cons.prems(3) xn by auto
  have pre: "set xs \<subseteq> dom (shapes ?s)" using Cons.prems(2) by (simp only: upd_shape_simps) simp
  obtain t' s' where r: "rehash_shapes bits (t[?h := x]) (shape_hash_next sh) ?s = Some (t', s')"
    "new_ok bits t' (insert x P \<union> set xs) s'" "relinks ?s s'" "table_same ?s s'" "\<forall>y. y \<notin> set xs \<longrightarrow> snext s' y = snext ?s y"
    using Cons.IH [OF ch pre inter e(2)] by blast
  have "rehash_shapes bits t a s = Some (t', s')"
    using r(1) x e(1) by (simp add: rehash_shapes.simps [of bits t x] mem_simps Let_def)
  moreover have "relinks s s'" using relinks_trans [OF relinks_upd r(3)] by simp
  moreover have "table_same s s'" using r(4) by (simp add: table_same_def)
  moreover have "\<forall>y. y \<notin> set (x # xs) \<longrightarrow> snext s' y = snext s y" using r(5) nx by simp
  ultimately show ?case using r(2) by (intro exI [of _ t'] exI [of _ s']) (simp add: insert_commute Un_insert_left)
qed

lemma rehash_all_ok:
  assumes "\<forall>(a, xs) \<in> set cs. chain (snext s) a xs \<and> set xs \<subseteq> dom (shapes s)" and "distinct (concat (map snd cs))"
    and "set (concat (map snd cs)) \<inter> P = {}" and "new_ok bits t P s" and b: "1 \<le> bits" "bits \<le> 30"
  shows "\<exists>t' s'. rehash_all bits t (map fst cs) s = Some (t', s') \<and> new_ok bits t' (P \<union> set (concat (map snd cs))) s'
    \<and> relinks s s' \<and> table_same s s'"
  using assms(1-4)
proof (induction cs arbitrary: s t P)
  case Nil
  then show ?case by (simp add: relinks_refl table_same_def)
next
  case (Cons c cs)
  obtain a xs where c: "c = (a, xs)" by fastforce
  obtain t1 s1 where s1: "rehash_shapes bits t a s = Some (t1, s1)" "new_ok bits t1 (P \<union> set xs) s1" "relinks s s1" "table_same s s1"
    "\<forall>x. x \<notin> set xs \<longrightarrow> snext s1 x = snext s x"
    using rehash_shapes_ok [of s a xs P bits t] Cons.prems c b by auto
  have "\<forall>(a, ys) \<in> set cs. chain (snext s1) a ys \<and> set ys \<subseteq> dom (shapes s1)"
  proof (clarify, intro conjI)
    fix a' ys assume m: "(a', ys) \<in> set cs"
    have d: "set ys \<inter> set xs = {}" using Cons.prems(2) m c by force
    have "chain (snext s1) a' ys = chain (snext s) a' ys" by (rule chain_cong) (use d s1(5) in blast)
    then show "chain (snext s1) a' ys" using Cons.prems(1) m by auto
    show "set ys \<subseteq> dom (shapes s1)" using Cons.prems(1) m relinks_dom [OF s1(3)] by auto
  qed
  moreover have dj: "set (concat (map snd cs)) \<inter> (P \<union> set xs) = {}" "distinct (concat (map snd cs))"
    using Cons.prems(2,3) c by auto
  ultimately obtain t2 s2 where "rehash_all bits t1 (map fst cs) s1 = Some (t2, s2)"
    "new_ok bits t2 ((P \<union> set xs) \<union> set (concat (map snd cs))) s2" "relinks s1 s2" "table_same s1 s2"
    using Cons.IH [OF _ dj(2,1) s1(2)] by blast
  then show ?case using s1 c relinks_trans by (auto simp: table_same_def Un_assoc)
qed

lemma resize_hash_ok:
  assumes t: "tab_ok X s" and b: "1 \<le> bits" "bits \<le> 30"
  shows "\<exists>r s'. resize_shape_hash E bits s = Some (r, s') \<and> tab_ok X s' \<and> relinks s s'
    \<and> (r = 0 \<longrightarrow> shape_hash_bits s' = bits) \<and> (r \<noteq> 0 \<longrightarrow> s' = s)"
proof (cases "se_table E (2 ^ bits)")
  case True
  let ?n = "length (shape_tab s)"
  obtain F where F: "\<forall>h < ?n. chain (snext s) (shape_tab s ! h) (F h) \<and> set (F h) = in_bucket X s h"
    using tab_okD(6) [OF t] by metis
  let ?cs = "map (\<lambda>h. (shape_tab s ! h, F h)) [0..<?n]"
  have fst: "map fst ?cs = shape_tab s" by (simp add: comp_def map_nth)
  have cat: "map snd ?cs = map F [0..<?n]" by (simp add: comp_def)
  have un: "set (concat (map snd ?cs)) = all_hashed X s"
  proof -
    have "set (concat (map snd ?cs)) = (\<Union>h < ?n. in_bucket X s h)" unfolding cat using F by auto
    also have "\<dots> = all_hashed X s" using tab_index [OF t] by (auto simp: in_bucket_def all_hashed_def)
    finally show ?thesis .
  qed
  have "distinct (concat (map F [0..<m]))" if "m \<le> ?n" for m
    using that
  proof (induction m)
    case (Suc m)
    have "distinct (F m)" using F Suc.prems chain_distinct [of "snext s" _ "F m"] by (meson Suc_le_eq)
    moreover have "set (F m) \<inter> set (F h) = {}" if "h < m" for h
      using F Suc.prems that in_bucket_disj [of m h X s] by force
    ultimately show ?case using Suc by (auto simp: disjoint_iff)
  qed simp
  then have d: "distinct (concat (map snd ?cs))" unfolding cat by simp
  have ch: "\<forall>(a, xs) \<in> set ?cs. chain (snext s) a xs \<and> set xs \<subseteq> dom (shapes s)" using F by (auto simp: in_bucket_def)
  have "new_ok bits (replicate (2 ^ bits) 0) {} s" by (simp add: new_ok_def)
  then obtain t' s' where r: "rehash_all bits (replicate (2 ^ bits) 0) (shape_tab s) s = Some (t', s')"
    "new_ok bits t' (all_hashed X s) s'" "relinks s s'" "table_same s s'"
    using rehash_all_ok [OF ch d _ _ b, of "{}" "replicate (2 ^ bits) 0"] unfolding fst un by auto
  let ?s = "s'\<lparr>shape_hash_bits := bits, shape_tab := t'\<rparr>"
  have ah: "all_hashed X ?s = all_hashed X s"
    using relinks_ex [OF r(3), of sh_is_hashed] by (auto simp: all_hashed_def)
  have "in_bucket X ?s h = {x \<in> all_hashed X s. \<exists>sh. shapes s' x = Some sh \<and> get_shape_hash (sh_hash sh) bits = h}" for h
    unfolding ah [symmetric] by (auto simp: in_bucket_def all_hashed_def)
  then have "\<forall>h < length (shape_tab ?s). \<exists>xs. chain (snext ?s) (shape_tab ?s ! h) xs \<and> set xs = in_bucket X ?s h"
    using r(2) by (simp add: new_ok_def snext_def)
  moreover have "shapes s' 0 = None" using relinks_dom [OF r(3)] tab_okD(3) [OF t] by (metis domIff)
  ultimately have "tab_ok X ?s"
    using t ah b r(2,4) relinks_dom [OF r(3)] by (simp add: tab_ok_def new_ok_def table_same_def)
  moreover have "relinks s ?s" using r(3) by (simp add: relinks_def)
  ultimately show ?thesis using r(1) b True by (intro exI [of _ 0] exI [of _ ?s]) (simp add: resize_shape_hash_def)
next
  case False
  then show ?thesis using t b by (intro exI [of _ "-1"] exI [of _ s]) (simp add: resize_shape_hash_def relinks_refl)
qed

section \<open>Search\<close>

lemma shape_search_chain:
  assumes "chain (snext s) a xs" and "set xs \<subseteq> dom (shapes s)"
  shows "\<exists>r. shape_search m a s = Some r
    \<and> (case r of None \<Rightarrow> \<forall>x \<in> set xs. \<forall>sh. shapes s x = Some sh \<longrightarrow> \<not> m sh
       | Some x \<Rightarrow> x \<in> set xs \<and> (\<exists>sh. shapes s x = Some sh \<and> m sh))"
  using assms
proof (induction xs arbitrary: a)
  case Nil
  then show ?case by (simp add: shape_search.simps [of m 0])
next
  case (Cons x xs)
  obtain sh where x: "a = x" "x \<noteq> 0" "shapes s x = Some sh" using Cons.prems by auto
  show ?case
  proof (cases "m sh")
    case True
    then show ?thesis using x by (intro exI [of _ "Some x"]) (simp add: shape_search.simps [of m x])
  next
    case False
    have "snext s x = shape_hash_next sh" using x(3) by (simp add: snext_def)
    then have "shape_search m a s = shape_search m (snext s x) s" using False x by (simp add: shape_search.simps [of m x])
    then show ?thesis using Cons.IH [of "snext s x"] Cons.prems False x(3) by (auto split: option.splits)
  qed
qed

lemma shape_search_ok:
  assumes t: "tab_ok {} s"
  obtains r where "mem_get (shape_tab s) (get_shape_hash h (shape_hash_bits s)) \<bind> (\<lambda>a. shape_search m a s) = Some r"
    "r = None \<Longrightarrow> \<forall>x sh. shapes s x = Some sh \<longrightarrow> sh_is_hashed sh \<longrightarrow> sh_hash sh = h \<longrightarrow> \<not> m sh"
    "\<And>x. r = Some x \<Longrightarrow> \<exists>sh. shapes s x = Some sh \<and> sh_is_hashed sh \<and> m sh"
proof -
  let ?h = "get_shape_hash h (shape_hash_bits s)"
  have i: "?h < length (shape_tab s)" by (rule tab_index [OF t])
  obtain xs where xs: "chain (snext s) (shape_tab s ! ?h) xs" "set xs = in_bucket {} s ?h" using tab_okD(6) [OF t i] by blast
  have "set xs \<subseteq> dom (shapes s)" using xs(2) by (auto simp: in_bucket_def)
  then obtain r where r: "shape_search m (shape_tab s ! ?h) s = Some r"
    "case r of None \<Rightarrow> \<forall>x \<in> set xs. \<forall>sh. shapes s x = Some sh \<longrightarrow> \<not> m sh
       | Some x \<Rightarrow> x \<in> set xs \<and> (\<exists>sh. shapes s x = Some sh \<and> m sh)"
    using shape_search_chain [OF xs(1)] by blast
  show ?thesis
  proof (rule that [of r])
    show "mem_get (shape_tab s) ?h \<bind> (\<lambda>a. shape_search m a s) = Some r" using r(1) i by (simp add: mem_simps)
    show "r = None \<Longrightarrow> \<forall>x sh. shapes s x = Some sh \<longrightarrow> sh_is_hashed sh \<longrightarrow> sh_hash sh = h \<longrightarrow> \<not> m sh"
      using r(2) xs(2) by (auto simp: in_bucket_def)
    show "\<And>x. r = Some x \<Longrightarrow> \<exists>sh. shapes s x = Some sh \<and> sh_is_hashed sh \<and> m sh"
      using r(2) xs(2) by (auto simp: in_bucket_def)
  qed
qed

end
