(* ===== verification/QShapeObj.thy ===== *)
theory QShapeObj
  imports QShapeTable
begin

text \<open>
  Shapes and the objects that own them. Every count of a shape is the number of its owners, a shape
  that is not in the hash table has one owner, and the atoms and prototypes held are those of the
  shapes. The lemmas are one per step: copy, give up, clone, retarget, replace.
\<close>

section \<open>The invariant\<close>

definition names :: "shape \<Rightarrow> (nat \<times> nat) list" where
  "names sh = map name_flags (sh_props sh)"

definition content_hash :: "nat \<Rightarrow> (nat \<times> nat) list \<Rightarrow> u32" where
  "content_hash proto ns = foldl (\<lambda>h (a, f). shape_hash (shape_hash h (of_nat a)) (of_nat f)) (shape_initial_hash proto) ns"

definition live_atoms :: "(nat \<times> nat) list \<Rightarrow> nat list" where
  "live_atoms ns = filter (\<lambda>a. a \<noteq> 0) (map fst ns)"

definition shape_ok :: "shape \<Rightarrow> bool" where
  "shape_ok sh \<longleftrightarrow> hash_ok (sh_props sh) (sh_tab sh) \<and> length (names sh) \<le> prop_size sh
     \<and> length (live_atoms (names sh)) + deleted_prop_count sh = length (names sh) \<and> distinct (live_atoms (names sh))
     \<and> (sh_is_hashed sh \<longrightarrow> deleted_prop_count sh = 0 \<and> sh_hash sh = content_hash (sh_proto sh) (names sh))
     \<and> (\<forall>a \<in> set (live_atoms (names sh)). JSI_AtomIsTaggedInt a \<longrightarrow> has_small_array_index sh)"

definition shape_held :: "shape \<Rightarrow> held_ref multiset" where
  "shape_held sh = proto_held (sh_proto sh) + props_held (sh_props sh)"

definition heldm :: "(nat \<rightharpoonup> shape) \<Rightarrow> held_ref multiset" where
  "heldm H = (\<Sum>a \<in> dom H. shape_held (the (H a)))"

definition owners :: "(nat \<rightharpoonup> 'v sh_obj) \<Rightarrow> nat multiset" where
  "owners Os = image_mset (\<lambda>p. p_shape (the (Os p))) (mset_set (dom Os))"

text \<open>The state of an address with \<open>n\<close> references.\<close>

fun cell_ok :: "nat \<Rightarrow> shape option \<Rightarrow> bool" where
  "cell_ok n None \<longleftrightarrow> n = 0"
| "cell_ok n (Some sh) \<longleftrightarrow> 0 < n \<and> sh_ref_count sh = int n \<and> shape_ok sh \<and> (\<not> sh_is_hashed sh \<longrightarrow> n = 1)"

text \<open>\<open>E\<close> are the references to shapes that are not of objects, \<open>Os\<close> the objects.\<close>

definition body :: "nat multiset \<Rightarrow> (nat \<rightharpoonup> shape) \<Rightarrow> (nat \<rightharpoonup> 'v sh_obj) \<Rightarrow> held_ref multiset \<Rightarrow> bool" where
  "body E H Os h \<longleftrightarrow> finite (dom Os) \<and> finite (dom H) \<and> (\<forall>a. cell_ok (count (owners Os + E) a) (H a))
     \<and> (\<forall>p ob sh. Os p = Some ob \<longrightarrow> H (p_shape ob) = Some sh \<longrightarrow> prop_size sh \<le> length (p_prop ob)) \<and> h = heldm H"

definition rt :: "nat set \<Rightarrow> nat multiset \<Rightarrow> (nat \<rightharpoonup> 'v sh_obj) \<Rightarrow> 'v shape_rt \<Rightarrow> bool" where
  "rt X E Os s \<longleftrightarrow> tab_ok X s \<and> body E (shapes s) Os (held s)"

lemma bodyD:
  assumes "body E H Os h"
  shows "finite (dom Os)" "finite (dom H)" "cell_ok (count (owners Os + E) a) (H a)"
    "Os p = Some ob \<Longrightarrow> H (p_shape ob) = Some sh \<Longrightarrow> prop_size sh \<le> length (p_prop ob)" "h = heldm H"
  using assms unfolding body_def by blast+

lemma heldm_simps:
  assumes "finite (dom H)"
  shows "H a = None \<Longrightarrow> heldm (H(a \<mapsto> sh)) = heldm H + shape_held sh"
    "H a = Some o1 \<Longrightarrow> heldm H = heldm (H(a := None)) + shape_held o1"
    "H a = Some o1 \<Longrightarrow> heldm (H(a \<mapsto> sh)) = heldm (H(a := None)) + shape_held sh"
proof -
  have e: "heldm (H(a \<mapsto> sh)) = heldm (H(a := None)) + shape_held sh" for sh
  proof -
    have "(\<Sum>b \<in> dom H - {a}. shape_held (the ((H(a \<mapsto> sh)) b))) = heldm (H(a := None))"
      unfolding heldm_def by (rule sum.cong) auto
    then show ?thesis unfolding heldm_def using assms by (simp add: sum.insert_remove)
  qed
  show "H a = None \<Longrightarrow> heldm (H(a \<mapsto> sh)) = heldm H + shape_held sh" using e by (simp add: fun_upd_idem)
  show "H a = Some o1 \<Longrightarrow> heldm H = heldm (H(a := None)) + shape_held o1" using e [of o1] by (simp add: map_upd_triv)
  show "H a = Some o1 \<Longrightarrow> heldm (H(a \<mapsto> sh)) = heldm (H(a := None)) + shape_held sh" by (rule e)
qed

lemma owners_simps:
  assumes "finite (dom Os)"
  shows "Os p = None \<Longrightarrow> owners (Os(p \<mapsto> ob)) = add_mset (p_shape ob) (owners Os)"
    "Os p = Some o1 \<Longrightarrow> owners Os = add_mset (p_shape o1) (owners (Os(p := None)))"
    "Os p = Some o1 \<Longrightarrow> owners (Os(p \<mapsto> ob)) = add_mset (p_shape ob) (owners (Os(p := None)))"
proof -
  have e: "owners (Os(p \<mapsto> ob)) = add_mset (p_shape ob) (owners (Os(p := None)))" for ob
  proof -
    have "mset_set (insert p (dom Os)) = add_mset p (mset_set (dom Os - {p}))"
      using assms by (metis finite_Diff insert_Diff_single mset_set.insert_remove)
    moreover have "image_mset (\<lambda>q. p_shape (the ((Os(p \<mapsto> ob)) q))) (mset_set (dom Os - {p})) = owners (Os(p := None))"
      unfolding owners_def using assms by (auto intro!: image_mset_cong)
    ultimately show ?thesis unfolding owners_def by simp
  qed
  show "Os p = None \<Longrightarrow> owners (Os(p \<mapsto> ob)) = add_mset (p_shape ob) (owners Os)" using e by (simp add: fun_upd_idem)
  show "Os p = Some o1 \<Longrightarrow> owners Os = add_mset (p_shape o1) (owners (Os(p := None)))" using e [of o1] by (simp add: map_upd_triv)
  show "Os p = Some o1 \<Longrightarrow> owners (Os(p \<mapsto> ob)) = add_mset (p_shape ob) (owners (Os(p := None)))" by (rule e)
qed

section \<open>Frames\<close>

lemma shape_ok_view [simp]: "shape_ok (unlink_view sh) = shape_ok sh" "names (unlink_view sh) = names sh"
  "shape_held (unlink_view sh) = shape_held sh"
  by (simp_all add: shape_ok_def names_def shape_held_def)

lemma heldm_view:
  assumes "\<And>a. map_option unlink_view (H' a) = map_option unlink_view (H a)"
  shows "heldm H' = heldm H"
proof -
  have d: "dom H' = dom H" using assms unfolding dom_def by (metis (no_types, lifting) option.map_disc_iff)
  have "shape_held (the (H' a)) = shape_held (the (H a))" if m: "a \<in> dom H" for a
  proof -
    obtain x y where "H a = Some x" "H' a = Some y" "unlink_view y = unlink_view x"
      using m d assms [of a] by (cases "H a"; cases "H' a") auto
    then show ?thesis by (metis option.sel shape_ok_view(3))
  qed
  then show ?thesis unfolding heldm_def d by (rule sum.cong [OF refl])
qed

lemma cell_ok_view: "cell_ok n (map_option unlink_view x) = cell_ok n x"
  by (cases x) auto

lemma body_view:
  assumes v: "\<And>a. map_option unlink_view (H' a) = map_option unlink_view (H a)" and b: "body E H Os h"
  shows "body E H' Os h"
proof -
  have "cell_ok n (H' a) = cell_ok n (H a)" for n a using cell_ok_view v by metis
  moreover have "dom H' = dom H" using v unfolding dom_def by (metis (no_types, lifting) option.map_disc_iff)
  moreover have "prop_size sh \<le> length (p_prop ob)" if p: "Os p = Some ob" and h: "H' (p_shape ob) = Some sh" for p ob sh
  proof -
    obtain sh1 where sh1: "H (p_shape ob) = Some sh1" "unlink_view sh = unlink_view sh1"
      using v [of "p_shape ob"] h by (cases "H (p_shape ob)") auto
    then show ?thesis using bodyD(4) [OF b p sh1(1)] by (metis unlink_view_simps(5))
  qed
  ultimately show ?thesis using b heldm_view [OF v] unfolding body_def by auto
qed

lemma relinks_body: "relinks s s' \<Longrightarrow> body E (shapes s) Os (held s) \<Longrightarrow> body E (shapes s') Os (held s')"
  using body_view [of "shapes s'" "shapes s"] by (simp add: relinks_def)

lemma tab_frame:
  assumes t: "tab_ok X s" and o: "\<And>a. a \<notin> Y \<Longrightarrow> shapes s' a = shapes s a"
    and h: "\<And>a sh. a \<in> Y \<Longrightarrow> shapes s a = Some sh \<Longrightarrow> sh_is_hashed sh \<Longrightarrow> a \<in> X"
    and h': "\<And>a sh. a \<in> Y \<Longrightarrow> shapes s' a = Some sh \<Longrightarrow> sh_is_hashed sh \<Longrightarrow> a \<in> X'"
    and X: "\<And>a. a \<notin> Y \<Longrightarrow> a \<in> X' \<longleftrightarrow> a \<in> X" and z: "shapes s' 0 = None" and f: "finite (dom (shapes s'))"
    and e: "table_same s s'"
  shows "tab_ok X' s'"
proof -
  have eq: "shape_tab s' = shape_tab s" "shape_hash_bits s' = shape_hash_bits s" "shape_hash_count s' = shape_hash_count s"
    using e by (simp_all add: table_same_def)
  have ah: "all_hashed X' s' = all_hashed X s"
  proof (rule set_eqI)
    fix a show "a \<in> all_hashed X' s' \<longleftrightarrow> a \<in> all_hashed X s"
      using o [of a] h [of a] h' [of a] X [of a] by (cases "a \<in> Y") (auto simp: all_hashed_def)
  qed
  have ib: "in_bucket X' s' c = in_bucket X s c" for c
  proof (rule set_eqI)
    fix a show "a \<in> in_bucket X' s' c \<longleftrightarrow> a \<in> in_bucket X s c"
      using o [of a] h [of a] h' [of a] X [of a] eq(2) by (cases "a \<in> Y") (auto simp: in_bucket_def)
  qed
  have "\<exists>xs. chain (snext s') (shape_tab s' ! c) xs \<and> set xs = in_bucket X' s' c" if c: "c < length (shape_tab s')" for c
  proof -
    obtain xs where xs: "chain (snext s) (shape_tab s ! c) xs" "set xs = in_bucket X s c" using tab_okD(6) [OF t] c eq(1) by auto
    have "chain (snext s') i xs = chain (snext s) i xs" for i
    proof (rule chain_cong)
      fix x assume "x \<in> set xs"
      then have "x \<in> in_bucket X s c" using xs(2) by blast
      then have "x \<notin> Y" using h by (auto simp: in_bucket_def)
      then show "snext s' x = snext s x" using o by (simp add: snext_def)
    qed
    then show ?thesis using xs ib eq(1) by auto
  qed
  then show ?thesis using t z f ah unfolding tab_ok_def eq by simp
qed

lemma tab_upd:
  assumes t: "tab_ok X s" and f: "\<And>sh. sh_is_hashed (f sh) = sh_is_hashed sh" "\<And>sh. sh_hash (f sh) = sh_hash sh"
    "\<And>sh. shape_hash_next (f sh) = shape_hash_next sh"
  shows "tab_ok X (upd_shape a f s)"
proof -
  have "snext (upd_shape a f s) = snext s" using f by (auto simp: snext_def fun_eq_iff split: option.splits)
  moreover have "in_bucket X (upd_shape a f s) c = in_bucket X s c" for c using f by (auto simp: in_bucket_def)
  moreover have "all_hashed X (upd_shape a f s) = all_hashed X s" using f by (auto simp: all_hashed_def)
  moreover have "shapes (upd_shape a f s) 0 = None" using tab_okD(3) [OF t] by simp
  ultimately show ?thesis using t unfolding tab_ok_def by (simp only: upd_shape_simps(2-4,9)) simp
qed

section \<open>Steps on shapes and objects\<close>

lemma owner_in: "finite (dom Os) \<Longrightarrow> Os p = Some ob \<Longrightarrow> p_shape ob \<in># owners Os"
  using owners_simps(2) [of Os p ob] by simp

lemma body_detach:
  assumes b: "body E H Os h" and p: "Os p = Some ob"
  shows "body (add_mset (p_shape ob) E) H (Os(p := None)) h"
  using b owners_simps(2) [OF bodyD(1) [OF b] p] unfolding body_def by (auto split: if_splits)

lemma body_attach:
  assumes b: "body (add_mset (p_shape ob) E) H Os h" and p: "Os p = None"
    and l: "\<And>sh. H (p_shape ob) = Some sh \<Longrightarrow> prop_size sh \<le> length (p_prop ob)"
  shows "body E H (Os(p \<mapsto> ob)) h"
  using b l owners_simps(1) [OF bodyD(1) [OF b] p, of ob] unfolding body_def by auto

lemma body_alloc:
  assumes b: "body E H Os h" and f: "H a = None" and sh: "shape_ok sh" "sh_ref_count sh = 1"
  shows "body (add_mset a E) (H(a \<mapsto> sh)) Os (h + shape_held sh)"
proof -
  have n: "count (owners Os + E) a = 0" using bodyD(3) [OF b, of a] f by simp
  have "cell_ok (count (owners Os + add_mset a E) c) ((H(a \<mapsto> sh)) c)" for c
    using bodyD(3) [OF b, of c] n sh by auto
  moreover have "p_shape ob \<noteq> a" if "Os p = Some ob" for p ob
    using owner_in [OF bodyD(1) [OF b] that] n by (auto simp: count_eq_zero_iff)
  ultimately show ?thesis
    using b heldm_simps(1) [OF bodyD(2) [OF b] f] unfolding body_def by (auto split: if_splits)
qed

lemma body_drop:
  assumes b: "body (add_mset a E) H Os h" and a: "H a = Some sh" "sh_ref_count sh = 1"
  shows "body E (H(a := None)) Os (h - shape_held sh)"
proof -
  have n: "count (owners Os + E) a = 0" using bodyD(3) [OF b, of a] a by simp
  have "cell_ok (count (owners Os + E) c) ((H(a := None)) c)" for c using bodyD(3) [OF b, of c] n by auto
  then show ?thesis
    using b heldm_simps(2) [OF bodyD(2) [OF b] a(1)] unfolding body_def by (auto split: if_splits)
qed

text \<open>A shape whose only reference is \<open>a\<close> is replaced, at the same or a new address.\<close>

lemma body_replace:
  assumes b: "body (add_mset a E) H Os h" and a: "H a = Some sh" "sh_ref_count sh = 1"
    and c: "c = a \<or> H c = None" and sh': "shape_ok sh'" "sh_ref_count sh' = 1"
  shows "body (add_mset c E) (H(a := None, c \<mapsto> sh')) Os (h - shape_held sh + shape_held sh')"
  using body_alloc [OF body_drop [OF b a] _ sh', of c] c by auto

lemma held_sub: "body E H Os h \<Longrightarrow> H a = Some sh \<Longrightarrow> shape_held sh \<subseteq># h"
  using heldm_simps(2) [of H a sh] by (simp add: body_def)

lemma cell_recount:
  assumes "cell_ok n (Some sh)" and "0 < sh_ref_count sh + d" and "\<not> sh_is_hashed sh \<Longrightarrow> sh_ref_count sh + d = 1"
    and "int m = sh_ref_count sh + d"
  shows "cell_ok m (Some (sh\<lparr>sh_ref_count := sh_ref_count sh + d\<rparr>))"
  using assms by (auto simp: shape_ok_def names_def)

lemma body_recount:
  assumes b: "body E H Os h" and a: "H a = Some sh" and n: "0 < sh_ref_count sh + d" "int (count E' a) = int (count E a) + d"
    and o: "\<And>c. c \<noteq> a \<Longrightarrow> count E' c = count E c" and u: "\<not> sh_is_hashed sh \<Longrightarrow> sh_ref_count sh + d = 1"
  shows "body E' (H(a \<mapsto> sh\<lparr>sh_ref_count := sh_ref_count sh + d\<rparr>)) Os h"
proof -
  let ?sh = "sh\<lparr>sh_ref_count := sh_ref_count sh + d\<rparr>"
  have k: "cell_ok (count (owners Os + E) a) (Some sh)" using bodyD(3) [OF b, of a] a by simp
  have m: "int (count (owners Os + E') a) = sh_ref_count sh + d" using k n(2) by simp
  have "cell_ok (count (owners Os + E') a) (Some ?sh)" using cell_recount [OF k n(1) _ m] u by blast
  then have "cell_ok (count (owners Os + E') c) ((H(a \<mapsto> ?sh)) c)" for c
    using bodyD(3) [OF b, of c] o [of c] by (cases "c = a") auto
  moreover have "heldm (H(a \<mapsto> ?sh)) = heldm H"
    using heldm_simps(2,3) [OF bodyD(2) [OF b] a] by (simp add: shape_held_def)
  ultimately show ?thesis using b a unfolding body_def by (auto split: if_splits)
qed

section \<open>Steps of the code\<close>

text \<open>What a step keeps: the objects, and the data of every shape that is not in \<open>A\<close>.\<close>

definition sdata :: "shape \<Rightarrow> nat \<times> (nat \<times> nat) list \<times> nat" where
  "sdata sh = (sh_proto sh, names sh, prop_size sh)"

text \<open>A shape without its count and its link.\<close>

definition bare :: "shape \<Rightarrow> shape" where
  "bare sh = sh\<lparr>sh_ref_count := 0, shape_hash_next := 0\<rparr>"

definition sframe :: "nat set \<Rightarrow> 'v shape_rt \<Rightarrow> 'v shape_rt \<Rightarrow> bool" where
  "sframe A s s' \<longleftrightarrow> sh_objs s' = sh_objs s \<and> freed s' = freed s \<and> array_shape s' = array_shape s
     \<and> (\<forall>a. a \<notin> A \<longrightarrow> map_option bare (shapes s' a) = map_option bare (shapes s a))"

lemma frame_refl: "sframe A s s" by (simp add: sframe_def)

lemma frame_trans: "sframe A s s1 \<Longrightarrow> sframe B s1 s2 \<Longrightarrow> A \<union> B \<subseteq> C \<Longrightarrow> sframe C s s2"
  unfolding sframe_def by (metis UnCI subsetD)

lemma bare_view [simp]: "bare (unlink_view sh) = bare sh" by (simp add: bare_def unlink_view_def)

lemma bareD:
  assumes "bare sh' = bare sh"
  shows "sdata sh' = sdata sh" "sh_props sh' = sh_props sh" "sh_tab sh' = sh_tab sh" "sh_is_hashed sh' = sh_is_hashed sh"
    "deleted_prop_count sh' = deleted_prop_count sh" "prop_size sh' = prop_size sh" "names sh' = names sh" "sh_proto sh' = sh_proto sh"
  using assms by (cases sh; cases sh'; simp add: bare_def sdata_def names_def)+


lemma relinks_frame:
  assumes "relinks s s'"
  shows "sframe A s s'"
proof -
  have "map_option bare (map_option unlink_view x) = map_option bare x" for x by (cases x) auto
  then show ?thesis using assms unfolding sframe_def relinks_def by metis
qed

lemma relinks_rt: "relinks s s' \<Longrightarrow> rt X E Os s \<Longrightarrow> tab_ok X' s' \<Longrightarrow> rt X' E Os s'"
  unfolding rt_def using relinks_body by blast

lemma upd_shape_eq: "shapes s a = Some sh \<Longrightarrow> shapes (upd_shape a f s) = (shapes s)(a \<mapsto> f sh)"
  by (auto simp: fun_eq_iff)

definition env_ok :: "'v shape_env \<Rightarrow> bool" where
  "env_ok E \<longleftrightarrow> (\<forall>s n m a. se_shape E s n m = Some a \<longrightarrow> a \<noteq> 0 \<and> shapes s a = None)
     \<and> (\<forall>s p. se_object E s = Some p \<longrightarrow> sh_objs s p = None)"

lemma rt_cell: "rt X E Os s \<Longrightarrow> cell_ok (count (owners Os + E) a) (shapes s a)"
  unfolding rt_def using bodyD(3) by blast

lemma rt_ref:
  assumes "rt X E Os s" and "a \<in># owners Os + E"
  obtains sh where "shapes s a = Some sh" "shape_ok sh" "sh_ref_count sh = int (count (owners Os + E) a)"
    "0 < sh_ref_count sh" "\<not> sh_is_hashed sh \<Longrightarrow> sh_ref_count sh = 1" "a \<noteq> 0"
proof (cases "shapes s a")
  case None
  then show ?thesis using rt_cell [OF assms(1), of a] assms(2) by (auto simp del: count_union simp: count_eq_zero_iff)
next
  case (Some sh)
  have "a \<noteq> 0" using Some tab_okD(3) [of X s] assms(1) unfolding rt_def by (metis option.distinct(1))
  then show ?thesis using that [OF Some] rt_cell [OF assms(1), of a] Some by (auto simp del: count_union)
qed

lemma dup_ok:
  assumes r: "rt {} E Os s" and a: "shapes s a = Some sh" "sh_is_hashed sh"
  shows "\<exists>s'. jsi_dup_shape a s = Some s' \<and> rt {} (add_mset a E) Os s' \<and> sframe {} s s'"
proof -
  let ?f = "\<lambda>sh. sh\<lparr>sh_ref_count := sh_ref_count sh + 1\<rparr>"
  have b: "body E (shapes s) Os (held s)" "tab_ok {} s" using r by (auto simp: rt_def)
  have "0 < sh_ref_count sh" using rt_cell [OF r, of a] a by (auto simp del: count_union)
  then have "body (add_mset a E) (shapes (upd_shape a ?f s)) Os (held s)"
    unfolding upd_shape_eq [of s a sh ?f, OF a(1)] using body_recount [OF b(1) a(1), of 1 "add_mset a E"] a(2) by simp
  moreover have "tab_ok {} (upd_shape a ?f s)" using b(2) by (rule tab_upd) simp_all
  moreover have "sframe {} s (upd_shape a ?f s)" using a by (simp add: sframe_def bare_def)
  ultimately show ?thesis using a by (simp add: jsi_dup_shape_def rt_def)
qed

lemma free_ok:
  assumes r: "rt {} (add_mset a E) Os s"
  shows "\<exists>s'. shape_free a s = Some s' \<and> rt {} E Os s' \<and> sframe (if a \<in># owners Os + E then {} else {a}) s s'"
proof -
  let ?f = "\<lambda>sh. sh\<lparr>sh_ref_count := sh_ref_count sh - 1\<rparr>"
  obtain sh where sh: "shapes s a = Some sh" "shape_ok sh" "sh_ref_count sh = int (count (owners Os + add_mset a E) a)" "a \<noteq> 0"
    "\<not> sh_is_hashed sh \<Longrightarrow> sh_ref_count sh = 1"
    using rt_ref [OF r, of a] by auto
  have b: "body (add_mset a E) (shapes s) Os (held s)" and t: "tab_ok {} s" using r by (auto simp: rt_def)
  let ?s = "upd_shape a ?f s"
  have t1: "tab_ok {} ?s" using t by (rule tab_upd) simp_all
  show ?thesis
  proof (cases "a \<in># owners Os + E")
    case True
    then have n: "1 < sh_ref_count sh" using sh(3) by (auto simp flip: count_greater_zero_iff)
    have "sh_is_hashed sh" using sh(5) n by auto
    then have "body E (shapes ?s) Os (held s)"
      unfolding upd_shape_eq [of s a sh ?f, OF sh(1)] using body_recount [OF b sh(1), of "-1" E] n by simp
    moreover have "sframe {} s ?s" using sh by (simp add: sframe_def bare_def)
    ultimately show ?thesis using sh(1) n True t1 by (simp add: shape_free_def rt_def)
  next
    case False
    then have n: "sh_ref_count sh = 1" using sh(3) by (simp add: not_in_iff)
    have s1: "shapes ?s a = Some (?f sh)" using sh(1) by simp
    obtain s2 where s2: "(if sh_is_hashed sh then jsi_shape_hash_unlink a ?s else Some ?s) = Some s2"
      "tab_ok (if sh_is_hashed sh then {a} else {}) s2" "relinks ?s s2"
    proof (cases "sh_is_hashed sh")
      case True
      then have "sh_is_hashed (?f sh)" by simp
      from unlink_ok [OF t1 _ s1 this] True show ?thesis using that by auto
    qed (use t1 relinks_refl [of ?s] that in simp)
    let ?s3 = "s2\<lparr>held := held s2 - shape_held sh, shapes := (shapes s2)(a := None)\<rparr>"
    have fr: "shape_free a s = Some ?s3"
      using sh(1) n s1 s2(1) by (simp add: shape_free_def shape_free0_def unhold_def shape_held_def)
    have "tab_ok {} ?s3"
      by (rule tab_frame [OF s2(2), of "{a}"])
        (use tab_okD(3,4) [OF s2(2)] relinks_ex [OF s2(3), of sh_is_hashed a] sh(1) in \<open>auto simp: table_same_def\<close>)
    moreover have "body E (shapes ?s3) Os (held ?s3)"
    proof (rule body_view)
      show "body E ((shapes s)(a := None)) Os (held ?s3)" using body_drop [OF b sh(1) n] s2(3) by (simp add: relinks_def)
      show "map_option unlink_view (shapes ?s3 c) = map_option unlink_view (((shapes s)(a := None)) c)" for c
        using s2(3) by (simp add: relinks_def)
    qed
    moreover have "sframe {a} s ?s3"
      using relinks_frame [OF s2(3), of "{a}"] by (simp add: sframe_def)
    ultimately show ?thesis using fr False by (simp add: rt_def)
  qed
qed

end
