(* ===== verification/QShapeStep.thy ===== *)
theory QShapeStep
  imports QShapeObj
begin

text \<open>
  The operations that make, find and change shapes, each with what it does to the invariant: clone, new
  shape, search, resize, append, removal and compaction.
\<close>

section \<open>Copies and new shapes\<close>

lemma tab_fresh:
  assumes t: "tab_ok X s" and a: "a \<noteq> 0" "shapes s a = None" and h: "sh_is_hashed sh \<Longrightarrow> a \<in> X'" and X: "X - {a} = X' - {a}"
  shows "tab_ok X' (s\<lparr>shapes := (shapes s)(a \<mapsto> sh), held := y\<rparr>)"
  by (rule tab_frame [OF t, of "{a}"]) (use tab_okD(3,4) [OF t] a h X in \<open>auto simp: table_same_def\<close>)

lemma shape_alloc_ok:
  assumes r: "rt X E Os s" and a: "a \<noteq> 0" "shapes s a = None" and sh: "shape_ok sh" "sh_ref_count sh = 1"
    and h: "sh_is_hashed sh \<Longrightarrow> a \<in> X'" and X: "X - {a} = X' - {a}"
  shows "rt X' (add_mset a E) Os (s\<lparr>shapes := (shapes s)(a \<mapsto> sh), held := held s + shape_held sh\<rparr>)"
  using r body_alloc [of E "shapes s" Os "held s" a sh] tab_fresh [of X s a sh X' "held s + shape_held sh"] a sh h X unfolding rt_def by simp

lemma shape_ok_recount: "shape_ok sh \<Longrightarrow> shape_ok (sh\<lparr>sh_ref_count := n\<rparr>)"
  "shape_ok sh \<Longrightarrow> shape_ok (sh\<lparr>sh_ref_count := n, sh_is_hashed := False\<rparr>)"
  by (simp_all add: shape_ok_def names_def)

lemma clone_ok:
  assumes e: "env_ok V" and r: "rt X E Os s" and a: "shapes s a = Some sh" and x: "a \<notin> X \<or> X = {}"
  obtains (fail) "jsi_clone_shape V a s = Some (None, s)"
  | (ok) b s' where "jsi_clone_shape V a s = Some (Some b, s')" "b \<noteq> 0" "shapes s b = None" "rt (X - {b}) (add_mset b E) Os s'"
      "sframe {b} s s'" "shapes s' = (shapes s)(b \<mapsto> sh\<lparr>sh_ref_count := 1, sh_is_hashed := False\<rparr>)"
proof (cases "se_shape V s (length (sh_tab sh)) (prop_size sh)")
  case None
  then show ?thesis using fail a by (simp add: jsi_clone_shape_def)
next
  case (Some b)
  let ?sh = "sh\<lparr>sh_ref_count := 1, sh_is_hashed := False\<rparr>"
  let ?s = "s\<lparr>shapes := (shapes s)(b \<mapsto> ?sh), held := held s + shape_held ?sh\<rparr>"
  have b: "b \<noteq> 0" "shapes s b = None" using e Some by (auto simp: env_ok_def)
  have "shape_ok sh" using rt_cell [OF r, of a] a by simp
  then have "rt (X - {b}) (add_mset b E) Os ?s" using shape_alloc_ok [OF r b, of ?sh "X - {b}"] shape_ok_recount(2) by simp
  moreover have "jsi_clone_shape V a s = Some (Some b, ?s)"
    using a Some by (simp add: jsi_clone_shape_def hold_def shape_held_def)
  moreover have "sframe {b} s ?s" by (simp add: sframe_def)
  ultimately show ?thesis using ok b by simp
qed

lemma new_shape_ok:
  assumes e: "env_ok V" and r: "rt {} E Os s" and h: "hash_size = 2 ^ k" and b: "shape_hash_bits s < 30"
  obtains (fail) s' where "jsi_new_shape2 V proto hash_size n s = Some (None, s')" "rt {} E Os s'" "sframe {} s s'"
  | (ok) a s' sh where "jsi_new_shape2 V proto hash_size n s = Some (Some a, s')" "a \<noteq> 0" "shapes s a = None"
      "rt {} (add_mset a E) Os s'" "sframe {a} s s'" "shapes s' a = Some sh" "sdata sh = (proto, [], n)"
proof -
  obtain s1 where s1: "(if 2 * (shape_hash_count s + 1) > length (shape_tab s)
      then do { (_, s) \<leftarrow> resize_shape_hash V (shape_hash_bits s + 1) s; Some s } else Some s) = Some s1"
    "tab_ok {} s1" "relinks s s1"
  proof (cases "2 * (shape_hash_count s + 1) > length (shape_tab s)")
    case True
    have "tab_ok {} s" using r by (simp add: rt_def)
    from resize_hash_ok [OF this, of "shape_hash_bits s + 1" V] b
    obtain q s' where "resize_shape_hash V (shape_hash_bits s + 1) s = Some (q, s')" "tab_ok {} s'" "relinks s s'" by auto
    then show ?thesis using that True by simp
  qed (use r relinks_refl that in \<open>auto simp: rt_def\<close>)
  have r1: "rt {} E Os s1" by (rule relinks_rt [OF s1(3) r s1(2)])
  show ?thesis
  proof (cases "se_shape V s1 hash_size n")
    case None
    then show ?thesis using fail [of s1] s1 r1 relinks_frame [OF s1(3)] by (simp add: jsi_new_shape2_def)
  next
    case (Some a)
    have a: "a \<noteq> 0" "shapes s1 a = None" using e Some by (auto simp: env_ok_def)
    let ?sh = "\<lparr>sh_ref_count = 1, sh_is_hashed = True, has_small_array_index = False,
             sh_hash = shape_initial_hash proto, sh_tab = replicate hash_size 0, prop_size = n,
             sh_props = [], deleted_prop_count = 0, shape_hash_next = 0, sh_proto = proto\<rparr>"
    let ?s = "s1\<lparr>shapes := (shapes s1)(a \<mapsto> ?sh), held := held s1 + shape_held ?sh\<rparr>"
    have so: "shape_ok ?sh" using hash_empty h by (simp add: shape_ok_def names_def live_atoms_def content_hash_def)
    have r2: "rt {a} (add_mset a E) Os ?s" by (rule shape_alloc_ok [OF r1 a so]) simp_all
    then have t2: "tab_ok {a} ?s" by (simp add: rt_def)
    obtain s3 where s3: "jsi_shape_hash_link a ?s = Some s3" "tab_ok {} s3" "relinks ?s s3"
      using link_ok [OF t2, of a ?sh] by auto
    have d: "shapes s a = None" using relinks_dom [OF s1(3)] a(2) by (metis domIff)
    have "sframe {a} s ?s" using relinks_frame [OF s1(3), of "{a}"] by (simp add: sframe_def)
    then have f: "sframe {a} s s3" using frame_trans [OF _ relinks_frame [OF s3(3)], of "{a}" s "{a}"] by simp
    obtain m where m: "shapes s3 a = Some (?sh\<lparr>shape_hash_next := m\<rparr>)" using relinks_shape [OF s3(3), of a ?sh] by auto
    have "jsi_new_shape2 V proto hash_size n s = Some (Some a, s3)"
      using s1(1) Some s3(1) by (simp add: jsi_new_shape2_def Let_def hold_def shape_held_def)
    then show ?thesis using ok [of a s3] a(1) d relinks_rt [OF s3(3) r2 s3(2)] f m
      by (simp add: sdata_def names_def)
  qed
qed

section \<open>Search\<close>

lemma find_proto_ok:
  assumes r: "rt {} E Os s"
  obtains r where "find_hashed_shape_proto proto s = Some r"
    "\<And>a. r = Some a \<Longrightarrow> \<exists>sh. shapes s a = Some sh \<and> sh_is_hashed sh \<and> names sh = [] \<and> sh_proto sh = proto"
proof -
  have t: "tab_ok {} s" using r by (simp add: rt_def)
  show ?thesis
    by (rule shape_search_ok [OF t, of "shape_initial_hash proto"
          "\<lambda>sh1. sh_hash sh1 = shape_initial_hash proto \<and> sh_proto sh1 = proto \<and> sh_props sh1 = []"])
      (rule that, auto simp: find_hashed_shape_proto_def Let_def names_def)
qed

lemma find_prop_ok:
  assumes r: "rt {} E Os s"
  obtains r where "find_hashed_shape_prop sh atom flags s = Some r"
    "\<And>a. r = Some a \<Longrightarrow> \<exists>sh1. shapes s a = Some sh1 \<and> sh_is_hashed sh1 \<and> names sh1 = names sh @ [(atom, flags)] \<and> sh_proto sh1 = sh_proto sh"
proof -
  have t: "tab_ok {} s" using r by (simp add: rt_def)
  let ?h = "shape_hash (shape_hash (sh_hash sh) (of_nat atom)) (of_nat flags)"
  show ?thesis
    by (rule shape_search_ok [OF t, of ?h "\<lambda>sh1. sh_hash sh1 = ?h \<and> sh_proto sh1 = sh_proto sh
       \<and> length (sh_props sh1) = length (sh_props sh) + 1
       \<and> map name_flags (sh_props sh1) = map name_flags (sh_props sh) @ [(atom, flags)]"])
      (rule that, auto simp: find_hashed_shape_prop_def Let_def names_def)
qed

section \<open>Changing a shape with one owner\<close>

lemma tab_ok_rest [simp]:
  "tab_ok X (s\<lparr>held := y\<rparr>) = tab_ok X s" "tab_ok X (s\<lparr>sh_objs := Os\<rparr>) = tab_ok X s" "tab_ok X (s\<lparr>freed := z\<rparr>) = tab_ok X s"
  by (simp_all add: tab_ok_def in_bucket_def all_hashed_def)

lemma rt_rest [simp]: "rt X E Os (s\<lparr>sh_objs := Os'\<rparr>) = rt X E Os s" "rt X E Os (s\<lparr>freed := z\<rparr>) = rt X E Os s"
  by (simp_all add: rt_def)

lemma replace_ok:
  assumes r: "rt X (add_mset a E) Os s" and a: "shapes s a = Some sh" "sh_ref_count sh = 1" and b: "b = a \<or> b \<noteq> 0 \<and> shapes s b = None"
    and sh': "shape_ok sh'" "sh_ref_count sh' = 1" and h: "sh_is_hashed sh \<Longrightarrow> a \<in> X" "sh_is_hashed sh' \<Longrightarrow> b \<in> X'"
    and X: "X - {a, b} = X' - {a, b}"
  shows "rt X' (add_mset b E) Os (s\<lparr>shapes := (shapes s)(a := None, b \<mapsto> sh'), held := held s - shape_held sh + shape_held sh'\<rparr>)"
    (is "rt X' _ Os ?s")
proof -
  have t: "tab_ok X s" and y: "body (add_mset a E) (shapes s) Os (held s)" using r by (auto simp: rt_def)
  have "tab_ok X' ?s"
  proof (rule tab_frame [OF t, of "{a, b}"])
    fix c assume c: "c \<notin> {a, b}"
    show "shapes ?s c = shapes s c" "(c \<in> X') = (c \<in> X)" using c X by auto
  next
    fix c z assume "c \<in> {a, b}" "shapes s c = Some z" "sh_is_hashed z"
    then show "c \<in> X" using a(1) b h(1) by auto
  next
    fix c z assume "c \<in> {a, b}" "shapes ?s c = Some z" "sh_is_hashed z"
    then show "c \<in> X'" using h(2) by (auto split: if_splits)
  next
    show "shapes ?s 0 = None" using tab_okD(3) [OF t] a(1) b by auto
    show "finite (dom (shapes ?s))" "table_same s ?s" using tab_okD(4) [OF t] by (simp_all add: table_same_def)
  qed
  then show ?thesis using body_replace [OF y a _ sh', of b] b by (auto simp: rt_def)
qed

lemma grow_hash_power: "\<exists>j. grow_hash (2 ^ k) m = 2 ^ j"
proof (induction "2 ^ k :: nat" m arbitrary: k rule: grow_hash.induct)
  case (1 m)
  show ?case
  proof (cases "2 ^ k < m")
    case True
    then show ?thesis using 1 [of "k + 1"] by (simp add: grow_hash.simps [of "2 ^ k" m])
  next
    case False
    then show ?thesis by (auto simp: grow_hash.simps [of "2 ^ k" m])
  qed
qed

lemma shrink_hash_power: "1 < m \<Longrightarrow> \<exists>j. shrink_hash (2 ^ k) m = 2 ^ j"
proof (induction k)
  case (Suc k)
  have "shrink_hash (2 ^ Suc k) m = (if m \<le> 2 ^ k then shrink_hash (2 ^ k) m else 2 ^ Suc k)"
    by (subst shrink_hash.simps) simp
  then show ?case using Suc by (metis (full_types))
next
  case 0
  have "shrink_hash (2 ^ 0) m = 2 ^ 0" by (subst shrink_hash.simps) (use 0 in simp)
  then show ?case by blast
qed

lemma shape_hashD: "shape_ok sh \<Longrightarrow> hash_ok (sh_props sh) (sh_tab sh)" "shape_ok sh \<Longrightarrow> length (names sh) \<le> prop_size sh"
  "shape_ok sh \<Longrightarrow> \<exists>k. length (sh_tab sh) = 2 ^ k" "length (names sh) = length (sh_props sh)"
  by (auto simp: shape_ok_def hash_ok_def names_def)

lemma shape_grow_ok:
  assumes s: "shape_ok sh" and n: "length (names sh) \<le> n" and m: "m = 2 ^ k"
  shows "shape_ok (shape_grow n m sh)" "sdata (shape_grow n m sh) = (sh_proto sh, names sh, n)"
    "sh_is_hashed (shape_grow n m sh) = sh_is_hashed sh" "sh_ref_count (shape_grow n m sh) = sh_ref_count sh"
    "sh_hash (shape_grow n m sh) = sh_hash sh"
proof -
  obtain ps t where r: "rehash_props 0 (sh_props sh) (replicate m 0) = (ps, t)" by fastforce
  have "length (sh_props sh) < 2 ^ 26" using hash_okD(2) [OF shape_hashD(1) [OF s]] .
  then have p: "hash_ok ps t" "map name_flags ps = names sh" "length t = m"
    using rehash_ok [of "[]" "replicate m 0" "sh_props sh" ps t] hash_empty [of k] r m by (auto simp: names_def)
  have nm: "names (shape_grow n m sh) = names sh" "hash_ok (sh_props (shape_grow n m sh)) (sh_tab (shape_grow n m sh))"
    using r p shape_hashD(1) [OF s] by (auto simp: shape_grow_def names_def)
  have f: "sh_is_hashed (shape_grow n m sh) = sh_is_hashed sh" "sh_ref_count (shape_grow n m sh) = sh_ref_count sh"
    "sh_hash (shape_grow n m sh) = sh_hash sh" "sh_proto (shape_grow n m sh) = sh_proto sh" "prop_size (shape_grow n m sh) = n"
    "deleted_prop_count (shape_grow n m sh) = deleted_prop_count sh" "has_small_array_index (shape_grow n m sh) = has_small_array_index sh"
    using r by (auto simp: shape_grow_def)
  then show "sh_is_hashed (shape_grow n m sh) = sh_is_hashed sh" "sh_ref_count (shape_grow n m sh) = sh_ref_count sh"
    "sh_hash (shape_grow n m sh) = sh_hash sh" "sdata (shape_grow n m sh) = (sh_proto sh, names sh, n)"
    by (simp_all add: sdata_def nm)
  show "shape_ok (shape_grow n m sh)" using s n nm f by (auto simp: shape_ok_def)
qed

lemma names_held: "names sh' = names sh \<Longrightarrow> sh_proto sh' = sh_proto sh \<Longrightarrow> shape_held sh' = shape_held sh"
proof -
  have "map pr_atom (sh_props sh) = map fst (names sh)" for sh by (simp add: names_def comp_def)
  then have "shape_held sh = proto_held (sh_proto sh) + (\<Sum>a \<leftarrow> map fst (names sh). atom_held a)" for sh
    unfolding shape_held_def by (metis (no_types, lifting) list.map_comp comp_apply map_eq_conv)
  then show "names sh' = names sh \<Longrightarrow> sh_proto sh' = sh_proto sh \<Longrightarrow> shape_held sh' = shape_held sh" by metis
qed

lemma shape_append_ok:
  assumes s: "shape_ok sh" and a: "atom \<noteq> 0" "atom \<notin> set (live_atoms (names sh))" "flags < 64"
    and n: "length (names sh) < prop_size sh" "length (names sh) + 1 < 2 ^ 26"
    and g: "sh1 = (if sh_is_hashed sh then sh\<lparr>sh_hash := shape_hash (shape_hash (sh_hash sh) (of_nat atom)) (of_nat flags)\<rparr> else sh)"
  shows "shape_ok (shape_append atom flags sh1)" "sdata (shape_append atom flags sh1) = (sh_proto sh, names sh @ [(atom, flags)], prop_size sh)"
    "shape_held (shape_append atom flags sh1) = shape_held sh + atom_held atom"
    "sh_is_hashed (shape_append atom flags sh1) = sh_is_hashed sh" "sh_ref_count (shape_append atom flags sh1) = sh_ref_count sh"
proof -
  let ?p = "\<lparr>pr_hash_next = 0, pr_flags = take_bit 6 flags, pr_atom = atom\<rparr>" and ?sh = "shape_append atom flags sh1"
  obtain p t where e: "hash_enter (sh_tab sh) (length (sh_props sh)) ?p = (p, t)" by fastforce
  have "length (sh_props sh) + 1 < 2 ^ 26" using n(2) shape_hashD(4) [of sh] by simp
  note en = hash_enter_ok [OF shape_hashD(1) [OF s] this _ e]
  have fl: "take_bit 6 flags = flags" using a(3) by (simp add: take_bit_nat_eq_self)
  have sh: "?sh = sh1\<lparr>sh_props := sh_props sh @ [p], sh_tab := t, has_small_array_index := has_small_array_index sh \<or> JSI_AtomIsTaggedInt atom\<rparr>"
    using e g by (simp add: shape_append_def)
  have g1: "sh_is_hashed sh1 = sh_is_hashed sh" "sh_ref_count sh1 = sh_ref_count sh" "sh_proto sh1 = sh_proto sh" "prop_size sh1 = prop_size sh"
    "deleted_prop_count sh1 = deleted_prop_count sh"
    "sh_is_hashed sh \<Longrightarrow> sh_hash sh1 = shape_hash (shape_hash (sh_hash sh) (of_nat atom)) (of_nat flags)"
    using g by auto
  have pf: "name_flags p = (atom, flags)" using en(2) a(1) fl by simp
  then have nm: "names ?sh = names sh @ [(atom, flags)]" by (simp add: sh names_def)
  have h: "hash_ok (sh_props ?sh) (sh_tab ?sh)" using en(1) a(1) by (simp add: sh)
  have f: "sh_is_hashed ?sh = sh_is_hashed sh" "sh_ref_count ?sh = sh_ref_count sh" "sh_proto ?sh = sh_proto sh" "prop_size ?sh = prop_size sh"
    "deleted_prop_count ?sh = deleted_prop_count sh" "has_small_array_index ?sh = (has_small_array_index sh \<or> JSI_AtomIsTaggedInt atom)"
    "sh_is_hashed sh \<Longrightarrow> sh_hash ?sh = shape_hash (shape_hash (sh_hash sh) (of_nat atom)) (of_nat flags)"
    using g1 by (simp_all add: sh)
  show "sdata ?sh = (sh_proto sh, names sh @ [(atom, flags)], prop_size sh)" "sh_is_hashed ?sh = sh_is_hashed sh" "sh_ref_count ?sh = sh_ref_count sh"
    by (simp_all add: sdata_def nm f)
  have "sh_props ?sh = sh_props sh @ [p]" by (simp add: sh)
  then show "shape_held ?sh = shape_held sh + atom_held atom" using pf by (simp add: shape_held_def f)
  show "shape_ok ?sh" unfolding shape_ok_def nm f
    using s a n h f(7) by (auto simp: shape_ok_def live_atoms_def content_hash_def)
qed

lemma realloc_prop_ok:
  assumes "k \<le> n" and "k \<le> length (p_prop ob)"
  obtains vs where "realloc_prop n ob = ob\<lparr>p_prop := vs\<rparr>" "length vs = n" "take k vs = take k (p_prop ob)"
  using assms by (auto simp: realloc_prop_def min_def)

lemma upd_sobj_eq: "sh_objs s p = Some ob \<Longrightarrow> upd_sobj p f s = s\<lparr>sh_objs := (sh_objs s)(p \<mapsto> f ob)\<rparr>"
  by (simp add: upd_sobj_def)

lemma resize_props_ok:
  assumes e: "env_ok V" and sh: "shapes s a = Some sh" "shape_ok sh" and ob: "sh_objs s p = Some ob" "prop_size sh \<le> length (p_prop ob)"
    and n: "length (names sh) \<le> n"
  obtains (fail) vs where "resize_properties V a (Some p) n s = Some (-1, a, s\<lparr>sh_objs := (sh_objs s)(p \<mapsto> ob\<lparr>p_prop := vs\<rparr>)\<rparr>)"
      "prop_size sh \<le> length vs" "take (length (names sh)) vs = take (length (names sh)) (p_prop ob)"
  | (ok) b vs sh' where "resize_properties V a (Some p) n s
        = Some (0, b, s\<lparr>sh_objs := (sh_objs s)(p \<mapsto> ob\<lparr>p_prop := vs\<rparr>), shapes := (shapes s)(a := None, b \<mapsto> sh')\<rparr>)"
      "b \<noteq> 0" "shapes s b = None" "shape_ok sh'" "sdata sh' = (sh_proto sh, names sh, length vs)" "n \<le> length vs"
      "take (length (names sh)) vs = take (length (names sh)) (p_prop ob)" "sh_is_hashed sh' = sh_is_hashed sh"
      "sh_ref_count sh' = sh_ref_count sh" "sh_hash sh' = sh_hash sh"
proof -
  define N where "N = max n (prop_size sh * 3 div 2)"
  define M where "M = grow_hash (length (sh_tab sh)) N"
  obtain k where k: "M = 2 ^ k" using shape_hashD(3) [OF sh(2)] grow_hash_power unfolding M_def by metis
  have "length (names sh) \<le> length (p_prop ob)" using shape_hashD(2) [OF sh(2)] ob(2) by simp
  moreover have "length (names sh) \<le> N" using n by (simp add: N_def)
  ultimately obtain vs where vs: "realloc_prop N ob = ob\<lparr>p_prop := vs\<rparr>" "length vs = N" "take (length (names sh)) vs = take (length (names sh)) (p_prop ob)"
    using realloc_prop_ok by metis
  let ?s = "s\<lparr>sh_objs := (sh_objs s)(p \<mapsto> ob\<lparr>p_prop := vs\<rparr>)\<rparr>"
  have l: "prop_size sh \<le> length vs" "n \<le> length vs" using vs(2) by (auto simp: N_def)
  have r: "resize_properties V a (Some p) n s = (if \<not> se_props V N then Some (-1, a, s)
      else Some (case se_shape V ?s M N of None \<Rightarrow> (-1, a, ?s)
        | Some b \<Rightarrow> (0, b, ?s\<lparr>shapes := (shapes s)(a := None, b \<mapsto> shape_grow N M sh)\<rparr>)))"
    using sh(1) vs(1) upd_sobj_eq [OF ob(1), of "realloc_prop N"]
    by (simp only: resize_properties_def Let_def N_def [symmetric] M_def [symmetric] Option.bind.bind_lunit option.case) (simp split: option.splits)
  show ?thesis
  proof (cases "se_props V N")
    case False
    have "s = s\<lparr>sh_objs := (sh_objs s)(p \<mapsto> ob\<lparr>p_prop := p_prop ob\<rparr>)\<rparr>" using ob(1) by (simp add: fun_upd_idem)
    then show ?thesis using fail [of "p_prop ob"] False r ob(2) by simp
  next
    case True
    show ?thesis
    proof (cases "se_shape V ?s M N")
      case None
      then show ?thesis using fail [of vs] True r l vs(3) by simp
    next
      case (Some b)
      then have "b \<noteq> 0" "shapes s b = None" using e unfolding env_ok_def by fastforce+
      moreover have "length (names sh) \<le> N" using n by (simp add: N_def)
      note g = shape_grow_ok [OF sh(2) this k]
      ultimately show ?thesis using ok [where b = b and vs = vs and sh' = "shape_grow N M sh"] Some True r g vs l by simp
    qed
  qed
qed

text \<open>The states of \<open>add_shape_property\<close> after a shape is unlinked, and before it is linked with its new hash.\<close>

lemma unlink_step:
  assumes r: "rt {} E Os s" and a: "shapes s a = Some sh"
  obtains s' n where "(if sh_is_hashed sh then jsi_shape_hash_unlink a s else Some s) = Some s'" "relinks s s'"
    "rt (if sh_is_hashed sh then {a} else {}) E Os s'" "shapes s' a = Some (sh\<lparr>shape_hash_next := n\<rparr>)"
proof (cases "sh_is_hashed sh")
  case True
  have "tab_ok {} s" using r by (simp add: rt_def)
  from unlink_ok [OF this _ a True] obtain s' where s': "jsi_shape_hash_unlink a s = Some s'" "tab_ok {a} s'" "relinks s s'" by auto
  then show ?thesis using that relinks_rt [OF s'(3) r s'(2)] relinks_shape [OF s'(3) a] True by auto
next
  case False
  have "sh = sh\<lparr>shape_hash_next := shape_hash_next sh\<rparr>" by simp
  then show ?thesis using that [of s "shape_hash_next sh"] False r a relinks_refl [of s] by simp
qed

lemma link_step:
  assumes r: "rt (if sh_is_hashed sh then {a} else {}) E Os s" and a: "shapes s a = Some sh"
  obtains s' where "(if sh_is_hashed sh then jsi_shape_hash_link a s else Some s) = Some s'" "relinks s s'" "rt {} E Os s'"
proof (cases "sh_is_hashed sh")
  case True
  then have "tab_ok {a} s" using r by (simp add: rt_def)
  from link_ok [OF this _ a True] obtain s' where s': "jsi_shape_hash_link a s = Some s'" "tab_ok {} s'" "relinks s s'" by auto
  then show ?thesis using that relinks_rt [OF s'(3) r s'(2)] True by auto
qed (use r relinks_refl [of s] that in simp)

lemma append_step:
  assumes r: "rt (if sh_is_hashed sh then {b} else {}) (add_mset b E) Os s" and b: "shapes s b = Some sh" "sh_ref_count sh = 1"
    and a: "atom \<noteq> 0" "atom \<notin> set (live_atoms (names sh))" "flags < 64"
    and n: "length (names sh) < prop_size sh" "length (names sh) + 1 < 2 ^ 26"
  defines "nh \<equiv> shape_hash (shape_hash (sh_hash sh) (of_nat atom)) (of_nat flags)"
  obtains s' sh' where "(if sh_is_hashed sh then jsi_shape_hash_link b (upd_shape b (\<lambda>sh. sh\<lparr>sh_hash := nh\<rparr>) s) else Some s)
      \<bind> (\<lambda>s. Some (hold (atom_held atom) (upd_shape b (shape_append atom flags) s))) = Some s'"
    "rt {} (add_mset b E) Os s'" "sframe {b} s s'" "shapes s' b = Some sh'" "sdata sh' = (sh_proto sh, names sh @ [(atom, flags)], prop_size sh)"
proof -
  define sh1 where "sh1 = (if sh_is_hashed sh then sh\<lparr>sh_hash := nh\<rparr> else sh)"
  have t: "tab_ok (if sh_is_hashed sh then {b} else {}) s" and bd: "body (add_mset b E) (shapes s) Os (held s)" using r by (simp_all add: rt_def)
  have ok: "shape_ok sh" using rt_cell [OF r, of b] b by simp
  have b0: "b \<noteq> 0" using b(1) tab_okD(3) [OF t] by (metis option.distinct(1))
  note ap = shape_append_ok [OF ok a n, of sh1, unfolded sh1_def nh_def, OF refl, folded nh_def, folded sh1_def]
  obtain s1 where s1: "(if sh_is_hashed sh then jsi_shape_hash_link b (upd_shape b (\<lambda>sh. sh\<lparr>sh_hash := nh\<rparr>) s) else Some s) = Some s1"
    "tab_ok {} s1" "relinks (s\<lparr>shapes := (shapes s)(b \<mapsto> sh1)\<rparr>) s1"
  proof (cases "sh_is_hashed sh")
    case True
    have e: "upd_shape b (\<lambda>sh. sh\<lparr>sh_hash := nh\<rparr>) s = s\<lparr>shapes := (shapes s)(b \<mapsto> sh1)\<rparr>" using b True by (simp add: upd_shape_def sh1_def)
    have "tab_ok {b} (s\<lparr>shapes := (shapes s)(b \<mapsto> sh1)\<rparr>)"
      by (rule tab_frame [OF t, of "{b}"]) (use True tab_okD(3,4) [OF t] b b0 in \<open>auto simp: table_same_def\<close>)
    from link_ok [OF this, of b sh1] True e that show ?thesis by (auto simp: sh1_def)
  next
    case False
    then have "s\<lparr>shapes := (shapes s)(b \<mapsto> sh1)\<rparr> = s" using b by (simp add: sh1_def fun_upd_idem)
    then show ?thesis using that [of s] False t relinks_refl [of s] by simp
  qed
  obtain m where m: "shapes s1 b = Some (sh1\<lparr>shape_hash_next := m\<rparr>)" using relinks_shape [OF s1(3), of b sh1] by auto
  have vw: "shape_append atom flags (z\<lparr>shape_hash_next := m\<rparr>) = (shape_append atom flags z)\<lparr>shape_hash_next := m\<rparr>" for z m
    by (simp add: shape_append_def split: prod.splits)
  let ?sh = "shape_append atom flags sh1"
  let ?s = "hold (atom_held atom) (upd_shape b (shape_append atom flags) s1)"
  have sb: "shapes ?s b = Some (?sh\<lparr>shape_hash_next := m\<rparr>)" using m vw by (simp add: hold_def)
  have "tab_ok {} ?s" unfolding hold_def tab_ok_rest
    by (rule tab_upd [OF s1(2)]) (simp_all add: shape_append_def split: prod.splits)
  moreover have "body (add_mset b E) (shapes ?s) Os (held ?s)"
  proof (rule body_view)
    have "held ?s = held s - shape_held sh + shape_held ?sh"
      using held_sub [OF bd b(1)] s1(3) ap(3) by (simp add: hold_def relinks_def)
    then show "body (add_mset b E) ((shapes s)(b \<mapsto> ?sh)) Os (held ?s)"
      using body_replace [OF bd b, of b ?sh] ap(1,5) b(2) by simp
    show "map_option unlink_view (shapes ?s c) = map_option unlink_view (((shapes s)(b \<mapsto> ?sh)) c)" for c
      using s1(3) sb by (cases "c = b") (auto simp: relinks_def hold_def)
  qed
  moreover have "sframe {b} s ?s" using relinks_frame [OF s1(3), of "{b}"] by (simp add: sframe_def hold_def)
  moreover have "sdata (?sh\<lparr>shape_hash_next := m\<rparr>) = sdata ?sh" by (simp add: sdata_def names_def)
  ultimately show ?thesis using that [of ?s "?sh\<lparr>shape_hash_next := m\<rparr>"] s1(1) sb ap(2) by (simp add: rt_def)
qed

lemma rt_detach: "rt X E Os s \<Longrightarrow> Os p = Some ob \<Longrightarrow> rt X (add_mset (p_shape ob) E) (Os(p := None)) s"
  unfolding rt_def using body_detach by blast

lemma rt_attach:
  assumes "rt X (add_mset (p_shape ob) E) (Os(p := None)) s" and "shapes s (p_shape ob) = Some sh" and "prop_size sh \<le> length (p_prop ob)"
  shows "rt X E (Os(p \<mapsto> ob)) s"
  using assms body_attach [of ob E "shapes s" "Os(p := None)" "held s" p] unfolding rt_def by simp

lemma resize_rt:
  assumes r: "rt X (add_mset a E) Os s" and a: "shapes s a = Some sh" "sh_ref_count sh = 1"
    and b: "b \<noteq> 0" "shapes s b = None" and sh': "shape_ok sh'" "sdata sh' = (sh_proto sh, names sh, n)" "sh_ref_count sh' = 1"
    and X: "X = (if sh_is_hashed sh then {a} else {})" and h: "sh_is_hashed sh' = sh_is_hashed sh"
  shows "rt (if sh_is_hashed sh' then {b} else {}) (add_mset b E) Os (s\<lparr>sh_objs := Os', shapes := (shapes s)(a := None, b \<mapsto> sh')\<rparr>)"
proof -
  let ?X = "if sh_is_hashed sh' then {b} else {}"
  have "shape_held sh' = shape_held sh" by (rule names_held) (use sh'(2) in \<open>simp_all add: sdata_def\<close>)
  moreover have "shape_held sh \<subseteq># held s" using held_sub a(1) r unfolding rt_def by metis
  ultimately have "s\<lparr>shapes := (shapes s)(a := None, b \<mapsto> sh'), held := held s - shape_held sh + shape_held sh'\<rparr>
    = s\<lparr>shapes := (shapes s)(a := None, b \<mapsto> sh')\<rparr>" by simp
  moreover have "rt ?X (add_mset b E) Os
      (s\<lparr>shapes := (shapes s)(a := None, b \<mapsto> sh'), held := held s - shape_held sh + shape_held sh'\<rparr>)"
    by (rule replace_ok [OF r a]) (use b sh' X h in auto)
  ultimately have "rt ?X (add_mset b E) Os (s\<lparr>shapes := (shapes s)(a := None, b \<mapsto> sh')\<rparr>)" by simp
  moreover have "s\<lparr>sh_objs := Os', shapes := (shapes s)(a := None, b \<mapsto> sh')\<rparr> = (s\<lparr>shapes := (shapes s)(a := None, b \<mapsto> sh')\<rparr>)\<lparr>sh_objs := Os'\<rparr>"
    by simp
  ultimately show ?thesis by (simp only: rt_rest)
qed

lemma sdata_eq: "sdata sh = (pr, ns, n) \<longleftrightarrow> sh_proto sh = pr \<and> names sh = ns \<and> prop_size sh = n"
  by (auto simp: sdata_def)

lemma names_next [simp]: "names (sh\<lparr>shape_hash_next := n\<rparr>) = names sh" "shape_ok (sh\<lparr>shape_hash_next := n\<rparr>) = shape_ok sh"
  by (simp_all add: names_def shape_ok_def)

lemma add_shape_ok:
  assumes e: "env_ok V" and r: "rt {} E (sh_objs s) s" and ob: "sh_objs s p = Some ob" and a: "p_shape ob = a"
    and sh: "shapes s a = Some sh" "sh_ref_count sh = 1"
    and at: "atom \<noteq> 0" "atom \<notin> set (live_atoms (names sh))" "flags < 64" and n: "length (names sh) + 1 < 2 ^ 26"
  obtains (fail) vs s' where "add_shape_property V a (Some p) atom flags s = Some (-1, a, s')"
      "sh_objs s' = (sh_objs s)(p \<mapsto> ob\<lparr>p_prop := vs\<rparr>)" "rt {} E (sh_objs s') s'" "sframe {} (s\<lparr>sh_objs := sh_objs s'\<rparr>) s'"
      "take (length (names sh)) vs = take (length (names sh)) (p_prop ob)"
  | (ok) b vs s' sh' where "add_shape_property V a (Some p) atom flags s = Some (0, b, s')"
      "sh_objs s' = (sh_objs s)(p \<mapsto> ob\<lparr>p_prop := vs\<rparr>)" "rt {} E ((sh_objs s)(p \<mapsto> ob\<lparr>p_prop := vs, p_shape := b\<rparr>)) s'"
      "sframe {a, b} (s\<lparr>sh_objs := sh_objs s'\<rparr>) s'" "b = a \<or> shapes s b = None" "shapes s' b = Some sh'"
      "sdata sh' = (sh_proto sh, names sh @ [(atom, flags)], prop_size sh')" "prop_size sh' \<le> length vs"
      "take (length (names sh)) vs = take (length (names sh)) (p_prop ob)"
proof -
  let ?X = "if sh_is_hashed sh then {a} else {}" and ?O = "(sh_objs s)(p := None)"
  have r0: "rt {} (add_mset a E) ?O s" using rt_detach [OF r ob] a by simp
  obtain s1 m where s1: "(if sh_is_hashed sh then jsi_shape_hash_unlink a s else Some s) = Some s1" "relinks s s1"
    "rt ?X (add_mset a E) ?O s1" "shapes s1 a = Some (sh\<lparr>shape_hash_next := m\<rparr>)" using unlink_step [OF r0 sh(1)] .
  let ?sh = "sh\<lparr>shape_hash_next := m\<rparr>"
  have o1: "sh_objs s1 = sh_objs s" using s1(2) by (simp add: relinks_def)
  have so: "shape_ok sh" using rt_cell [OF r0, of a] sh by simp
  have pl: "prop_size sh \<le> length (p_prop ob)" using r ob sh(1) a bodyD(4) unfolding rt_def by blast
  have nl: "length (names sh) = length (sh_props sh)" by (rule shape_hashD(4))
  let ?nh = "shape_hash (shape_hash (sh_hash sh) (of_nat atom)) (of_nat flags)"
  have grow: thesis
    if q: "(if prop_size sh \<le> length (sh_props sh) then resize_properties V a (Some p) (length (sh_props sh) + 1) s1 else Some (0, a, s1)) = Some (0, b, s2)"
      "sh_objs s2 = (sh_objs s)(p \<mapsto> ob\<lparr>p_prop := vs\<rparr>)" "rt (if sh_is_hashed sh2 then {b} else {}) (add_mset b E) ?O s2" "sframe {a, b} (s1\<lparr>sh_objs := sh_objs s2\<rparr>) s2"
      "b = a \<or> shapes s b = None" "shapes s2 b = Some sh2" "sdata sh2 = (sh_proto sh, names sh, prop_size sh2)" "length (names sh) < prop_size sh2"
      "prop_size sh2 \<le> length vs" "sh_is_hashed sh2 = sh_is_hashed sh" "sh_hash sh2 = sh_hash sh" "sh_ref_count sh2 = 1"
      "take (length (names sh)) vs = take (length (names sh)) (p_prop ob)" for b vs s2 sh2
  proof -
    have nm: "names sh2 = names sh" "sh_proto sh2 = sh_proto sh" using q(7) by (simp_all add: sdata_eq)
    have pre: "atom \<notin> set (live_atoms (names sh2))" "length (names sh2) < prop_size sh2" "length (names sh2) + 1 < 2 ^ 26"
      unfolding nm using at(2) q(8) n by simp_all
    obtain s' sh' where s': "(if sh_is_hashed sh then jsi_shape_hash_link b (upd_shape b (\<lambda>sh. sh\<lparr>sh_hash := ?nh\<rparr>) s2) else Some s2)
        \<bind> (\<lambda>s. Some (hold (atom_held atom) (upd_shape b (shape_append atom flags) s))) = Some s'"
      "rt {} (add_mset b E) ?O s'" "sframe {b} s2 s'" "shapes s' b = Some sh'" "sdata sh' = (sh_proto sh, names sh @ [(atom, flags)], prop_size sh2)"
      using append_step [OF q(3,6,12) at(1) pre(1) at(3) pre(2,3), unfolded nm q(10,11)] .
    obtain s3 where s3: "(if sh_is_hashed sh then jsi_shape_hash_link b (upd_shape b (\<lambda>sh. sh\<lparr>sh_hash := ?nh\<rparr>) s2) else Some s2) = Some s3"
      "s' = hold (atom_held atom) (upd_shape b (shape_append atom flags) s3)"
      using s'(1) unfolding bind_eq_Some_conv by blast
    have "add_shape_property V a (Some p) atom flags s = Some (0, b, s')"
      unfolding add_shape_property_def sh(1) Option.bind.bind_lunit s1(1) Let_def q(1) prod.case using s3 by simp
    moreover have so': "sh_objs s' = sh_objs s2" using s'(3) by (simp add: sframe_def)
    moreover have "rt {} E ((sh_objs s)(p \<mapsto> ob\<lparr>p_prop := vs, p_shape := b\<rparr>)) s'"
      using rt_attach [of "{}" "ob\<lparr>p_prop := vs, p_shape := b\<rparr>" E "sh_objs s" p s' sh'] s'(2,4,5) q(9) by (simp add: sdata_eq)
    moreover have "sframe {a, b} (s\<lparr>sh_objs := sh_objs s'\<rparr>) s'"
      using relinks_frame [OF s1(2), of "{a, b}"] q(4) s'(3) unfolding sframe_def so' by auto
    ultimately show thesis using ok [of b s' vs sh'] q s' by (auto simp: sdata_eq)
  qed
  show thesis
  proof (cases "prop_size sh \<le> length (sh_props sh)")
    case False
    have "sframe {a, a} (s1\<lparr>sh_objs := sh_objs s1\<rparr>) s1" by (simp add: frame_refl)
    moreover have "sh_objs s1 = (sh_objs s)(p \<mapsto> ob\<lparr>p_prop := p_prop ob\<rparr>)" using o1 ob by (simp add: fun_upd_idem)
    ultimately show ?thesis using False s1(3,4) pl sh(2) nl by (intro grow [of a s1 "p_prop ob" ?sh]) (simp_all add: sdata_eq)
  next
    case True
    have so1: "shape_ok ?sh" "length (names ?sh) \<le> length (sh_props sh) + 1" using so nl by simp_all
    have ob1: "sh_objs s1 p = Some ob" "prop_size ?sh \<le> length (p_prop ob)" using ob o1 pl by simp_all
    show ?thesis
    proof (cases rule: resize_props_ok [OF e s1(4) so1(1) ob1 so1(2)])
      case (1 vs)
      let ?s = "s1\<lparr>sh_objs := (sh_objs s)(p \<mapsto> ob\<lparr>p_prop := vs\<rparr>)\<rparr>"
      have r2: "rt (if sh_is_hashed ?sh then {a} else {}) (add_mset a E) ?O ?s" using s1(3) by simp
      have h2: "shapes ?s a = Some ?sh" using s1(4) by simp
      obtain s3 where s3: "(if sh_is_hashed ?sh then jsi_shape_hash_link a ?s else Some ?s) = Some s3" "relinks ?s s3" "rt {} (add_mset a E) ?O s3"
        using link_step [OF r2 h2] .
      have o3: "sh_objs s3 = (sh_objs s)(p \<mapsto> ob\<lparr>p_prop := vs\<rparr>)" using s3(2) by (simp add: relinks_def)
      obtain m3 where "shapes s3 a = Some (?sh\<lparr>shape_hash_next := m3\<rparr>)" using relinks_shape [OF s3(2) h2] by auto
      then have "rt {} E (sh_objs s3) s3"
        unfolding o3 using rt_attach [of "{}" "ob\<lparr>p_prop := vs\<rparr>" E "sh_objs s" p s3] s3(3) 1(2) a by simp
      moreover have "sframe {} (s\<lparr>sh_objs := sh_objs s3\<rparr>) s3"
        using relinks_frame [OF s1(2), of "{}"] relinks_frame [OF s3(2), of "{}"] unfolding sframe_def o3 by simp
      moreover have "add_shape_property V a (Some p) atom flags s = Some (-1, a, s3)"
        using sh(1) s1(1) True 1(1) s3(1) o1 by (simp add: add_shape_property_def Let_def)
      ultimately show ?thesis using fail [of s3 vs] o3 1(3) by simp
    next
      case (2 b vs sh2)
      let ?s = "s1\<lparr>sh_objs := (sh_objs s)(p \<mapsto> ob\<lparr>p_prop := vs\<rparr>), shapes := (shapes s1)(a := None, b \<mapsto> sh2)\<rparr>"
      have "rt (if sh_is_hashed sh2 then {b} else {}) (add_mset b E) ?O ?s"
        by (rule resize_rt [OF s1(3,4)]) (use 2 sh(2) in simp_all)
      moreover have "shapes s b = None" using relinks_dom [OF s1(2)] 2(3) by (metis domIff)
      moreover have "sframe {a, b} (s1\<lparr>sh_objs := sh_objs ?s\<rparr>) ?s" by (simp add: sframe_def)
      ultimately show ?thesis using True 2 sh(2) nl o1 by (intro grow [of b ?s vs sh2]) (simp_all add: sdata_eq)
    qed
  qed
qed

end
