(* ===== verification/QShapeProp.thy ===== *)
theory QShapeProp
  imports QShapeStep
begin

text \<open>
  The properties of objects. An object is seen as its prototype and a list of names, flags and values; the
  operations on properties change that list for one object and for no other, although objects share shapes.
\<close>

section \<open>What a program sees of an object\<close>

definition own :: "(nat \<times> nat) list \<Rightarrow> 'v option list \<Rightarrow> (nat \<times> nat \<times> 'v option) list" where
  "own ns vs = map (\<lambda>((a, f), v). (a, f, v)) (filter (\<lambda>((a, f), v). a \<noteq> 0) (zip ns vs))"

definition look :: "'v shape_rt \<Rightarrow> nat \<Rightarrow> ('v sh_obj \<times> nat \<times> (nat \<times> nat \<times> 'v option) list) option" where
  "look s p = do {
     ob \<leftarrow> sh_objs s p;
     sh \<leftarrow> shapes s (p_shape ob);
     Some (ob\<lparr>p_shape := 0, p_prop := []\<rparr>, sh_proto sh, own (names sh) (p_prop ob)) }"

text \<open>\<open>n\<close> more properties fit, with the deleted ones counted.\<close>

definition room :: "'v shape_rt \<Rightarrow> nat \<Rightarrow> nat \<Rightarrow> bool" where
  "room s p n \<longleftrightarrow> (\<forall>ob sh. sh_objs s p = Some ob \<longrightarrow> shapes s (p_shape ob) = Some sh \<longrightarrow> length (names sh) + n < 2 ^ 26)"

definition shapes_inv :: "nat multiset \<Rightarrow> 'v shape_rt \<Rightarrow> bool" where
  "shapes_inv E s \<longleftrightarrow> rt {} E (sh_objs s) s"

lemma lookE:
  assumes "look s p = Some (h, pr, ps)"
  obtains ob sh where "sh_objs s p = Some ob" "shapes s (p_shape ob) = Some sh" "h = ob\<lparr>p_shape := 0, p_prop := []\<rparr>" "pr = sh_proto sh"
    "ps = own (names sh) (p_prop ob)"
  using assms by (auto simp: look_def bind_eq_Some_conv)

lemma zip_take_length: "zip ns (take (length ns) vs) = zip ns vs"
proof (induction ns arbitrary: vs)
  case (Cons n ns)
  then show ?case by (cases vs) auto
qed simp

lemma own_take: "own ns (take (length ns) vs) = own ns vs"
  by (simp add: own_def zip_take_length)

lemma own_snoc:
  assumes "length ns < length vs" and "a \<noteq> 0" and "take (length ns) vs = take (length ns) ws"
  shows "own (ns @ [(a, f)]) vs = own ns ws @ [(a, f, vs ! length ns)]"
proof -
  have "take (length (ns @ [(a, f)])) vs = take (length ns) vs @ [vs ! length ns]" using assms(1) by (simp add: take_Suc_conv_app_nth)
  then have "zip (ns @ [(a, f)]) vs = zip ns (take (length ns) vs) @ [((a, f), vs ! length ns)]"
    using zip_take_length [of "ns @ [(a, f)]" vs] assms(1) by simp
  then have "own (ns @ [(a, f)]) vs = own ns (take (length ns) vs) @ [(a, f, vs ! length ns)]" using assms(2) by (simp add: own_def)
  then show ?thesis unfolding assms(3) own_take .
qed

lemma own_live:
  assumes "length ns \<le> length vs"
  shows "map fst (own ns vs) = live_atoms ns"
  using assms
proof (induction ns arbitrary: vs)
  case (Cons n ns)
  then show ?case by (cases vs) (auto simp: own_def live_atoms_def)
qed (simp add: own_def live_atoms_def)

lemma inv_obj:
  assumes i: "shapes_inv E s" and ob: "sh_objs s p = Some ob"
  obtains sh where "shapes s (p_shape ob) = Some sh" "shape_ok sh" "prop_size sh \<le> length (p_prop ob)"
    "sh_ref_count sh = int (count (owners (sh_objs s) + E) (p_shape ob))" "\<not> sh_is_hashed sh \<Longrightarrow> sh_ref_count sh = 1"
    "length (names sh) \<le> length (p_prop ob)" "p_shape ob \<noteq> 0"
proof -
  have r: "rt {} E (sh_objs s) s" using i by (simp add: shapes_inv_def)
  then have b: "body E (shapes s) (sh_objs s) (held s)" by (simp add: rt_def)
  have "p_shape ob \<in># owners (sh_objs s) + E" using owner_in [OF bodyD(1) [OF b] ob] by simp
  then obtain sh where sh: "shapes s (p_shape ob) = Some sh" "shape_ok sh" "sh_ref_count sh = int (count (owners (sh_objs s) + E) (p_shape ob))"
    "\<not> sh_is_hashed sh \<Longrightarrow> sh_ref_count sh = 1" "p_shape ob \<noteq> 0" using rt_ref [OF r] by metis
  moreover have "prop_size sh \<le> length (p_prop ob)" by (rule bodyD(4) [OF b ob sh(1)])
  ultimately show ?thesis using that shape_hashD(2) [OF sh(2)] by simp
qed

section \<open>Isolation\<close>

text \<open>Objects other than \<open>p\<close>, and the data of their shapes.\<close>

abbreviation rest :: "nat \<Rightarrow> 'v shape_rt \<Rightarrow> (nat \<rightharpoonup> 'v sh_obj)" where
  "rest p s \<equiv> (sh_objs s)(p := None)"

definition sapart :: "nat \<Rightarrow> 'v shape_rt \<Rightarrow> 'v shape_rt \<Rightarrow> bool" where
  "sapart p s s' \<longleftrightarrow> rest p s' = rest p s
     \<and> (\<forall>a \<in># owners (rest p s). map_option bare (shapes s' a) = map_option bare (shapes s a))"

lemma apart_trans: "sapart p s s1 \<Longrightarrow> sapart p s1 s2 \<Longrightarrow> sapart p s s2"
  by (simp add: sapart_def)

lemma apart_refl: "sapart p s s" by (simp add: sapart_def)

lemma frame_apart:
  assumes "sframe A (s\<lparr>sh_objs := sh_objs s'\<rparr>) s'" and "rest p s' = rest p s" and "A \<inter> set_mset (owners (rest p s)) = {}"
  shows "sapart p s s'"
  using assms unfolding sapart_def sframe_def by auto

lemma apart_look:
  assumes a: "sapart p s s'" and f: "finite (dom (sh_objs s))" and q: "q \<noteq> p"
  shows "look s' q = look s q"
proof -
  have o: "sh_objs s' q = sh_objs s q" using a q unfolding sapart_def by (metis fun_upd_other)
  show ?thesis
  proof (cases "sh_objs s q")
    case (Some oq)
    then have "p_shape oq \<in># owners (rest p s)" using owner_in [of "rest p s" q oq] f q by simp
    then have e: "map_option bare (shapes s' (p_shape oq)) = map_option bare (shapes s (p_shape oq))" using a by (simp add: sapart_def)
    show ?thesis
    proof (cases "shapes s (p_shape oq)")
      case None
      then show ?thesis using e o Some by (simp add: look_def)
    next
      case (Some sh)
      then obtain sh' where "shapes s' (p_shape oq) = Some sh'" "bare sh' = bare sh" using e by (cases "shapes s' (p_shape oq)") auto
      then show ?thesis using o \<open>sh_objs s q = Some oq\<close> Some bareD(7,8) [of sh' sh] by (simp add: look_def)
    qed
  qed (use o in \<open>simp add: look_def\<close>)
qed

lemma sole_owner:
  assumes i: "shapes_inv E s" and ob: "sh_objs s p = Some ob" and sh: "shapes s (p_shape ob) = Some sh" "sh_ref_count sh = 1"
  shows "p_shape ob \<notin># owners (rest p s)" "p_shape ob \<notin># E"
proof -
  have r: "rt {} E (sh_objs s) s" using i by (simp add: shapes_inv_def)
  have f: "finite (dom (sh_objs s))" using r by (simp add: rt_def body_def)
  have "int (count (owners (sh_objs s) + E) (p_shape ob)) = 1" using rt_cell [OF r, of "p_shape ob"] sh by auto
  then have "count (owners (rest p s)) (p_shape ob) = 0" "count E (p_shape ob) = 0" using owners_simps(2) [OF f ob] by auto
  then show "p_shape ob \<notin># owners (rest p s)" "p_shape ob \<notin># E" by (simp_all add: not_in_iff)
qed

lemma fresh_not_owned:
  assumes "shapes_inv E s" and "shapes s b = None"
  shows "b \<notin># owners (rest p s)" "b \<notin># E"
proof -
  have r: "rt {} E (sh_objs s) s" using assms(1) by (simp add: shapes_inv_def)
  have f: "finite (dom (sh_objs s))" using r by (simp add: rt_def body_def)
  have "count (owners (sh_objs s) + E) b = 0" using rt_cell [OF r, of b] assms(2) by simp
  moreover have "count (owners (rest p s)) b \<le> count (owners (sh_objs s)) b"
    using owners_simps(2) [OF f, of p] by (cases "sh_objs s p") (auto simp: fun_upd_idem)
  ultimately show "b \<notin># owners (rest p s)" "b \<notin># E" by (simp_all add: not_in_iff)
qed

lemma count_one:
  assumes i: "shapes_inv E s" and ob: "sh_objs s p = Some ob" and sh: "shapes s (p_shape ob) = Some sh"
    and n: "p_shape ob \<notin># owners (rest p s)" "p_shape ob \<notin># E"
  shows "sh_ref_count sh = 1"
proof -
  have r: "rt {} E (sh_objs s) s" using i by (simp add: shapes_inv_def)
  have f: "finite (dom (sh_objs s))" using r by (simp add: rt_def body_def)
  have "count (owners (sh_objs s) + E) (p_shape ob) = 1" using owners_simps(2) [OF f ob] n by (simp add: not_in_iff)
  then show ?thesis using rt_cell [OF r, of "p_shape ob"] sh by simp
qed

section \<open>Moving an object to another shape\<close>

lemma give_up:
  assumes r: "rt {} (add_mset b (add_mset a E)) (rest p s) s2" and o: "sh_objs s2 = (sh_objs s)(p := x)"
    and f: "sframe B (s\<lparr>sh_objs := sh_objs s2\<rparr>) s2" "B \<inter> set_mset (owners (rest p s)) = {}"
    and b: "shapes s2 b = Some shb" "p_shape ob' = b" "prop_size shb \<le> length (p_prop ob')"
  obtains s3 sh3 where "shape_free a s2 = Some s3" "sh_objs s3 = sh_objs s2" "freed s3 = freed s" "array_shape s3 = array_shape s"
    "shapes_inv E (s3\<lparr>sh_objs := (sh_objs s)(p \<mapsto> ob')\<rparr>)" "sapart p s (s3\<lparr>sh_objs := (sh_objs s)(p \<mapsto> ob')\<rparr>)"
    "shapes s3 b = Some sh3" "bare sh3 = bare shb"
proof -
  let ?A = "if a \<in># owners (rest p s) + add_mset b E then {} else {a}"
  have "rt {} (add_mset a (add_mset b E)) (rest p s) s2" using r by (simp add: add_mset_commute)
  then obtain s3 where s3: "shape_free a s2 = Some s3" "rt {} (add_mset b E) (rest p s) s3" "sframe ?A s2 s3"
    using free_ok by blast
  have "b \<notin> ?A" by auto
  then have "map_option bare (shapes s3 b) = Some (bare shb)" using s3(3) b(1) by (simp add: sframe_def split del: if_split)
  then obtain sh3 where sh3: "shapes s3 b = Some sh3" "bare sh3 = bare shb" by auto
  have "rt {} E ((sh_objs s)(p \<mapsto> ob')) s3"
    using rt_attach [of "{}" ob' E "sh_objs s" p s3 sh3] s3(2) sh3(1) b bareD(6) [OF sh3(2)] by simp
  then have i: "shapes_inv E (s3\<lparr>sh_objs := (sh_objs s)(p \<mapsto> ob')\<rparr>)" by (simp add: shapes_inv_def)
  have "map_option bare (shapes s3 c) = map_option bare (shapes s c)" if c: "c \<in># owners (rest p s)" for c
  proof -
    have "c \<notin> ?A" "c \<notin> B" using c f(2) by auto
    then have "map_option bare (shapes s3 c) = map_option bare (shapes s2 c)" "map_option bare (shapes s2 c) = map_option bare (shapes s c)"
      using s3(3) f(1) unfolding sframe_def by simp_all
    then show ?thesis by simp
  qed
  then have "sapart p s (s3\<lparr>sh_objs := (sh_objs s)(p \<mapsto> ob')\<rparr>)" by (simp add: sapart_def)
  moreover have "sh_objs s3 = sh_objs s2" "freed s3 = freed s" "array_shape s3 = array_shape s" using s3(3) f(1) by (simp_all add: sframe_def)
  ultimately show ?thesis using that [OF s3(1)] i sh3 by simp
qed

lemma reuse_ok:
  assumes i: "shapes_inv E s" and ob: "sh_objs s p = Some ob" and b: "shapes s b = Some shb" "sh_is_hashed shb" "prop_size shb \<le> length vs"
  obtains s2 s3 sh3 where "jsi_dup_shape b (s\<lparr>sh_objs := (sh_objs s)(p \<mapsto> ob\<lparr>p_prop := vs\<rparr>)\<rparr>) = Some s2"
    "sh_objs s2 p = Some (ob\<lparr>p_prop := vs\<rparr>)"
    "shape_free (p_shape ob) (upd_sobj p (\<lambda>ob. ob\<lparr>p_shape := b\<rparr>) s2) = Some s3"
    "sh_objs s3 = (sh_objs s)(p \<mapsto> ob\<lparr>p_prop := vs, p_shape := b\<rparr>)" "shapes_inv E s3" "sapart p s s3"
    "shapes s3 b = Some sh3" "bare sh3 = bare shb" "freed s3 = freed s" "array_shape s3 = array_shape s"
proof -
  let ?s = "s\<lparr>sh_objs := (sh_objs s)(p \<mapsto> ob\<lparr>p_prop := vs\<rparr>)\<rparr>" and ?ob = "ob\<lparr>p_prop := vs, p_shape := b\<rparr>"
  have "rt {} (add_mset (p_shape ob) E) (rest p s) ?s" using rt_detach [of "{}" E "sh_objs s" s p ob] i ob by (simp add: shapes_inv_def)
  from dup_ok [OF this, of b shb] b obtain s2 where s2: "jsi_dup_shape b ?s = Some s2"
    "rt {} (add_mset b (add_mset (p_shape ob) E)) (rest p s) s2" "sframe {} ?s s2" by auto
  have o2: "sh_objs s2 = (sh_objs s)(p \<mapsto> ob\<lparr>p_prop := vs\<rparr>)" using s2(3) by (simp add: sframe_def)
  let ?s2 = "upd_sobj p (\<lambda>ob. ob\<lparr>p_shape := b\<rparr>) s2"
  have e: "?s2 = s2\<lparr>sh_objs := (sh_objs s)(p \<mapsto> ?ob)\<rparr>" using o2 by (simp add: upd_sobj_def)
  have "map_option bare (shapes s2 b) = Some (bare shb)" using s2(3) b(1) by (simp add: sframe_def)
  then obtain sh2 where sh2: "shapes ?s2 b = Some sh2" "bare sh2 = bare shb" using e by auto
  have r: "rt {} (add_mset b (add_mset (p_shape ob) E)) (rest p s) ?s2" unfolding e rt_rest by (rule s2(2))
  have o: "sh_objs ?s2 = (sh_objs s)(p := Some ?ob)" unfolding e by simp
  have f: "sframe {} (s\<lparr>sh_objs := sh_objs ?s2\<rparr>) ?s2" "{} \<inter> set_mset (owners (rest p s)) = {}"
    using s2(3) unfolding e by (simp_all add: sframe_def)
  have l: "p_shape ?ob = b" "prop_size sh2 \<le> length (p_prop ?ob)" using bareD(6) [OF sh2(2)] b(3) by simp_all
  obtain s3 sh3 where s3: "shape_free (p_shape ob) ?s2 = Some s3" "sh_objs s3 = sh_objs ?s2" "freed s3 = freed s" "array_shape s3 = array_shape s"
    "shapes_inv E (s3\<lparr>sh_objs := (sh_objs s)(p \<mapsto> ?ob)\<rparr>)" "sapart p s (s3\<lparr>sh_objs := (sh_objs s)(p \<mapsto> ?ob)\<rparr>)"
    "shapes s3 b = Some sh3" "bare sh3 = bare sh2" using give_up [OF r o f sh2(1) l] .
  have o3: "sh_objs s3 = (sh_objs s)(p \<mapsto> ?ob)" using s3(2) o by simp
  then have "s3\<lparr>sh_objs := (sh_objs s)(p \<mapsto> ?ob)\<rparr> = s3" by simp
  then have "shapes_inv E s3" "sapart p s s3" using s3(5,6) by simp_all
  moreover have "bare sh3 = bare shb" "sh_objs s2 p = Some (ob\<lparr>p_prop := vs\<rparr>)" using s3(8) sh2(2) o2 by simp_all
  ultimately show ?thesis using that [OF s2(1) _ s3(1) o3] s3(3,4,7) by blast
qed

lemma alter_ok:
  assumes r: "rt X (add_mset b E) Os s" and b: "shapes s b = Some sh" "sh_ref_count sh = 1"
    and f: "shape_ok (f sh)" "sh_ref_count (f sh) = 1" "shape_held (f sh) = shape_held sh"
    and h: "sh_is_hashed sh \<Longrightarrow> b \<in> X" "sh_is_hashed (f sh) \<Longrightarrow> b \<in> X'" and X: "X - {b} = X' - {b}"
  shows "rt X' (add_mset b E) Os (upd_shape b f s)"
proof -
  have "shape_held sh \<subseteq># held s" using held_sub [of _ "shapes s" _ "held s" b sh] r b(1) unfolding rt_def by blast
  then have "upd_shape b f s = s\<lparr>shapes := (shapes s)(b := None, b \<mapsto> f sh), held := held s - shape_held sh + shape_held (f sh)\<rparr>"
    using f(3) b(1) by (simp add: upd_shape_def)
  then show ?thesis using replace_ok [OF r b _ f(1,2), of b X'] h X by simp
qed

text \<open>The clone that \<open>add_property\<close> takes, linked into the table.\<close>

lemma unshare_ok:
  assumes e: "env_ok V" and i: "shapes_inv E s" and ob: "sh_objs s p = Some ob" and sh: "shapes s (p_shape ob) = Some sh" "sh_is_hashed sh"
  obtains (fail) "jsi_clone_shape V (p_shape ob) s = Some (None, s)"
  | (ok) b s1 s2 s3 sh3 where "jsi_clone_shape V (p_shape ob) s = Some (Some b, s1)"
      "jsi_shape_hash_link b (upd_shape b (\<lambda>sh. sh\<lparr>sh_is_hashed := True\<rparr>) s1) = Some s2" "shape_free (p_shape ob) s2 = Some s3"
      "sh_objs s3 = sh_objs s" "shapes_inv E (s3\<lparr>sh_objs := (sh_objs s)(p \<mapsto> ob\<lparr>p_shape := b\<rparr>)\<rparr>)"
      "sapart p s (s3\<lparr>sh_objs := (sh_objs s)(p \<mapsto> ob\<lparr>p_shape := b\<rparr>)\<rparr>)" "shapes s b = None"
      "shapes s3 b = Some sh3" "bare sh3 = bare sh" "sh_ref_count sh3 = 1" "freed s3 = freed s" "array_shape s3 = array_shape s"
proof -
  let ?a = "p_shape ob" and ?sh = "sh\<lparr>sh_ref_count := 1, sh_is_hashed := False\<rparr>"
  have r0: "rt {} (add_mset ?a E) (rest p s) s" using rt_detach [of "{}" E "sh_objs s" s p ob] i ob by (simp add: shapes_inv_def)
  show ?thesis
  proof (cases rule: clone_ok [OF e r0 sh(1)])
    case 1
    then show ?case by simp
  next
    case 2
    then show ?thesis by (rule fail)
  next
    case (3 b s1)
    let ?sh1 = "sh\<lparr>sh_ref_count := 1\<rparr>"
    let ?f = "\<lambda>sh. sh\<lparr>sh_is_hashed := True\<rparr>"
    let ?s = "upd_shape b ?f s1"
    have sb: "shapes s1 b = Some ?sh" using 3(6) by simp
    have so: "shape_ok ?sh1" using rt_cell [OF r0, of ?a] sh(1) shape_ok_recount(1) by simp
    have r1: "rt {} (add_mset b (add_mset ?a E)) (rest p s) s1" using 3(4) by simp
    have h1: "?f ?sh = ?sh1" using sh(2) by (cases sh) simp
    have r2: "rt {b} (add_mset b (add_mset ?a E)) (rest p s) ?s"
      by (rule alter_ok [OF r1 sb]) (unfold h1, use so in \<open>simp_all add: shape_held_def\<close>)
    have sb2: "shapes ?s b = Some ?sh1" using sb h1 by simp
    have t: "tab_ok {b} ?s" using r2 by (simp add: rt_def)
    obtain s2 where s2: "jsi_shape_hash_link b ?s = Some s2" "tab_ok {} s2" "relinks ?s s2" using link_ok [OF t _ sb2] sh(2) by auto
    have r3: "rt {} (add_mset b (add_mset ?a E)) (rest p s) s2" by (rule relinks_rt [OF s2(3) r2 s2(2)])
    have o: "sh_objs s1 = sh_objs s" "sh_objs s2 = sh_objs s" using 3(5) s2(3) by (simp_all add: sframe_def relinks_def)
    then have o2: "sh_objs s2 = (sh_objs s)(p := Some ob)" using ob by (simp add: fun_upd_idem)
    have "sframe {b} s ?s" using 3(5) by (simp add: sframe_def)
    then have f: "sframe {b} (s\<lparr>sh_objs := sh_objs s2\<rparr>) s2"
      using frame_trans [OF _ relinks_frame [OF s2(3), of "{b}"], of "{b}" s "{b}"] o by simp
    have fb: "b \<notin># owners (rest p s)" "b \<notin># E" by (rule fresh_not_owned [OF i 3(3)])+
    obtain m where m: "shapes s2 b = Some (?sh1\<lparr>shape_hash_next := m\<rparr>)" using relinks_shape [OF s2(3) sb2] by blast
    have pl: "prop_size (?sh1\<lparr>shape_hash_next := m\<rparr>) \<le> length (p_prop (ob\<lparr>p_shape := b\<rparr>))"
      using inv_obj [OF i ob] sh(1) by fastforce
    have d: "{b} \<inter> set_mset (owners (rest p s)) = {}" using fb by simp
    obtain s3 sh3 where s3: "shape_free ?a s2 = Some s3" "sh_objs s3 = sh_objs s2" "freed s3 = freed s" "array_shape s3 = array_shape s"
      "shapes_inv E (s3\<lparr>sh_objs := (sh_objs s)(p \<mapsto> ob\<lparr>p_shape := b\<rparr>)\<rparr>)" "sapart p s (s3\<lparr>sh_objs := (sh_objs s)(p \<mapsto> ob\<lparr>p_shape := b\<rparr>)\<rparr>)"
      "shapes s3 b = Some sh3" "bare sh3 = bare (?sh1\<lparr>shape_hash_next := m\<rparr>)"
      using give_up [OF r3 o2 f d m _ pl] by auto
    have "sh_ref_count sh3 = 1" using count_one [OF s3(5), of p "ob\<lparr>p_shape := b\<rparr>" sh3] s3(7) fb by simp
    moreover have "bare sh3 = bare sh" using s3(8) by (simp add: bare_def)
    ultimately show ?thesis using ok [OF 3(1) s2(1) s3(1)] s3 o 3(3) by simp
  qed
qed

lemma prepare_ok:
  assumes e: "env_ok V" and i: "shapes_inv E s" and ob: "sh_objs s p = Some ob" and sh: "shapes s (p_shape ob) = Some sh"
  obtains (fail) "jsi_shape_prepare_update V p s = Some (-1, s)"
  | (ok) b s' sh' where "jsi_shape_prepare_update V p s = Some (0, s')" "sh_objs s' = (sh_objs s)(p \<mapsto> ob\<lparr>p_shape := b\<rparr>)"
      "shapes_inv E s'" "sapart p s s'" "shapes s' b = Some sh'" "bare sh' = bare (sh\<lparr>sh_is_hashed := False\<rparr>)" "sh_ref_count sh' = 1"
      "freed s' = freed s" "array_shape s' = array_shape s"
proof -
  let ?a = "p_shape ob" and ?f = "\<lambda>sh. sh\<lparr>sh_is_hashed := False\<rparr>"
  have r0: "rt {} (add_mset ?a E) (rest p s) s" using rt_detach [of "{}" E "sh_objs s" s p ob] i ob by (simp add: shapes_inv_def)
  obtain pl: "prop_size sh \<le> length (p_prop ob)" "shape_ok sh" "\<not> sh_is_hashed sh \<Longrightarrow> sh_ref_count sh = 1"
    using inv_obj [OF i ob] sh by (metis option.inject)
  have ob': "(sh_objs s)(p \<mapsto> ob\<lparr>p_shape := ?a\<rparr>) = sh_objs s" using ob by (simp add: fun_upd_idem)
  consider (plain) "\<not> sh_is_hashed sh" | (shared) "sh_is_hashed sh" "sh_ref_count sh \<noteq> 1" | (single) "sh_is_hashed sh" "sh_ref_count sh = 1" by blast
  then show ?thesis
  proof cases
    case plain
    then have "sh = ?f sh" by (cases sh) simp
    then have "bare sh = bare (?f sh)" by simp
    then show ?thesis using ok [of s ?a sh] plain ob sh pl(3) i apart_refl [of p s] ob' by (simp add: jsi_shape_prepare_update_def)
  next
    case shared
    show ?thesis
    proof (cases rule: clone_ok [OF e r0 sh])
      case 1
      then show ?case by simp
    next
      case 2
      then show ?thesis using fail ob sh shared by (simp add: jsi_shape_prepare_update_def)
    next
      case (3 b s1)
      let ?sh = "sh\<lparr>sh_ref_count := 1, sh_is_hashed := False\<rparr>"
      have r1: "rt {} (add_mset b (add_mset ?a E)) (rest p s) s1" using 3(4) by simp
      have o1: "sh_objs s1 = sh_objs s" using 3(5) by (simp add: sframe_def)
      then have o: "sh_objs s1 = (sh_objs s)(p := Some ob)" using ob by (simp add: fun_upd_idem)
      have f: "sframe {b} (s\<lparr>sh_objs := sh_objs s1\<rparr>) s1" using 3(5) o1 by simp
      have fb: "b \<notin># owners (rest p s)" "b \<notin># E" by (rule fresh_not_owned [OF i 3(3)])+
      then have d: "{b} \<inter> set_mset (owners (rest p s)) = {}" by simp
      have sb: "shapes s1 b = Some ?sh" using 3(6) by simp
      have l: "p_shape (ob\<lparr>p_shape := b\<rparr>) = b" "prop_size ?sh \<le> length (p_prop (ob\<lparr>p_shape := b\<rparr>))" using pl(1) by simp_all
      obtain s3 sh3 where s3: "shape_free ?a s1 = Some s3" "sh_objs s3 = sh_objs s1" "freed s3 = freed s" "array_shape s3 = array_shape s"
        "shapes_inv E (s3\<lparr>sh_objs := (sh_objs s)(p \<mapsto> ob\<lparr>p_shape := b\<rparr>)\<rparr>)" "sapart p s (s3\<lparr>sh_objs := (sh_objs s)(p \<mapsto> ob\<lparr>p_shape := b\<rparr>)\<rparr>)"
        "shapes s3 b = Some sh3" "bare sh3 = bare ?sh" using give_up [OF r1 o f d sb l] .
      have c: "sh_ref_count sh3 = 1" using count_one [OF s3(5), of p "ob\<lparr>p_shape := b\<rparr>" sh3] s3(7) fb by simp
      have u: "upd_sobj p (\<lambda>ob. ob\<lparr>p_shape := b\<rparr>) s3 = s3\<lparr>sh_objs := (sh_objs s)(p \<mapsto> ob\<lparr>p_shape := b\<rparr>)\<rparr>"
        using s3(2) o1 ob by (simp add: upd_sobj_def)
      have "jsi_shape_prepare_update V p s = Some (0, s3\<lparr>sh_objs := (sh_objs s)(p \<mapsto> ob\<lparr>p_shape := b\<rparr>)\<rparr>)"
        using ob sh shared 3(1) s3(1) u by (simp add: jsi_shape_prepare_update_def)
      moreover have "bare sh3 = bare (?f sh)" using s3(8) by (simp add: bare_def)
      ultimately show ?thesis using ok [of "s3\<lparr>sh_objs := (sh_objs s)(p \<mapsto> ob\<lparr>p_shape := b\<rparr>)\<rparr>" b sh3] s3 c by simp
    qed
  next
    case single
    have t: "tab_ok {} s" using r0 by (simp add: rt_def)
    obtain s1 where s1: "jsi_shape_hash_unlink ?a s = Some s1" "tab_ok {?a} s1" "relinks s s1" using unlink_ok [OF t _ sh single(1)] by auto
    obtain m where m: "shapes s1 ?a = Some (sh\<lparr>shape_hash_next := m\<rparr>)" using relinks_shape [OF s1(3) sh] by blast
    let ?s = "upd_shape ?a ?f s1" and ?sh = "sh\<lparr>shape_hash_next := m\<rparr>"
    have r1: "rt {?a} (add_mset ?a E) (rest p s) s1" by (rule relinks_rt [OF s1(3) r0 s1(2)])
    have "shape_ok (?f sh)" using pl(2) by (simp add: shape_ok_def names_def)
    then have so: "shape_ok (?f ?sh)" by (simp add: shape_ok_def names_def)
    have "rt {} (add_mset ?a E) (rest p s) ?s"
      by (rule alter_ok [OF r1 m]) (use so single(2) in \<open>simp_all add: shape_held_def\<close>)
    then have "rt {} E ((sh_objs s)(p \<mapsto> ob)) ?s" using rt_attach [of "{}" ob E "sh_objs s" p ?s "?f ?sh"] m pl(1) by simp
    moreover have o: "sh_objs ?s = sh_objs s" "freed ?s = freed s" "array_shape ?s = array_shape s" using s1(3) by (simp_all add: relinks_def)
    ultimately have i2: "shapes_inv E ?s" using ob by (simp add: shapes_inv_def fun_upd_idem)
    have "sframe {?a} s ?s" using relinks_frame [OF s1(3), of "{?a}"] by (simp add: sframe_def)
    then have "sframe {?a} (s\<lparr>sh_objs := sh_objs ?s\<rparr>) ?s" using o(1) by simp
    moreover have "{?a} \<inter> set_mset (owners (rest p s)) = {}" using sole_owner(1) [OF i ob sh single(2)] by simp
    ultimately have "sapart p s ?s" using frame_apart o(1) by metis
    moreover have "bare (?f ?sh) = bare (?f sh)" by (simp add: bare_def)
    moreover have "jsi_shape_prepare_update V p s = Some (0, ?s)" using ob sh single s1(1) by (simp add: jsi_shape_prepare_update_def)
    ultimately show ?thesis using ok [of ?s ?a "?f ?sh"] i2 o ob' m single(2) by simp
  qed
qed

end
