(* ===== verification/QShapeOps.thy ===== *)
theory QShapeOps
  imports QShapeProp
begin

text \<open>
  The operations on properties: lookup, addition, change of flags, removal with compaction, the
  conversion of a fast array, and new objects.
\<close>

section \<open>Addition\<close>

text \<open>Result of adding \<open>(atom, flags)\<close> to \<open>p\<close>: either no memory, or the property is the last one, at the index returned.\<close>

definition added :: "nat multiset \<Rightarrow> nat \<Rightarrow> nat \<Rightarrow> nat \<Rightarrow> nat option \<Rightarrow> 'v shape_rt \<Rightarrow> 'v shape_rt \<Rightarrow> bool" where
  "added E p atom flags k s s' \<longleftrightarrow> shapes_inv E s' \<and> sapart p s s' \<and> freed s' = freed s \<and> array_shape s' = array_shape s
     \<and> (\<exists>ob sh ob' sh'. sh_objs s p = Some ob \<and> shapes s (p_shape ob) = Some sh \<and> sh_objs s' p = Some ob' \<and> shapes s' (p_shape ob') = Some sh'
          \<and> ob'\<lparr>p_shape := 0, p_prop := []\<rparr> = ob\<lparr>p_shape := 0, p_prop := []\<rparr> \<and> sh_proto sh' = sh_proto sh
          \<and> take (length (names sh)) (p_prop ob') = take (length (names sh)) (p_prop ob)
          \<and> (case k of None \<Rightarrow> names sh' = names sh | Some i \<Rightarrow> i = length (names sh) \<and> names sh' = names sh @ [(atom, flags)]))"

lemma add_sole:
  assumes e: "env_ok V" and i: "shapes_inv E s" and ob: "sh_objs s p = Some ob" and sh: "shapes s (p_shape ob) = Some sh" "sh_ref_count sh = 1"
    and at: "atom \<noteq> 0" "atom \<notin> set (live_atoms (names sh))" "flags < 64" and n: "length (names sh) + 1 < 2 ^ 26"
  obtains r b s1 k where "add_shape_property V (p_shape ob) (Some p) atom flags s = Some (r, b, s1)"
    "shapes s1 b \<noteq> None" "added E p atom flags k s (upd_sobj p (\<lambda>ob. ob\<lparr>p_shape := b\<rparr>) s1)"
    "k = (if r \<noteq> 0 then None else Some (length (sh_props (the (shapes s1 b))) - 1))"
proof -
  let ?a = "p_shape ob"
  have r: "rt {} E (sh_objs s) s" using i by (simp add: shapes_inv_def)
  have nr: "?a \<notin># owners (rest p s)" by (rule sole_owner(1) [OF i ob sh])
  show ?thesis
  proof (cases rule: add_shape_ok [OF e r ob refl sh at n])
    case (1 vs s')
    have e1: "upd_sobj p (\<lambda>ob. ob\<lparr>p_shape := ?a\<rparr>) s' = s'" using 1(2) by (simp add: upd_sobj_def fun_upd_idem)
    have ap: "sapart p s s'" using frame_apart [OF 1(4)] 1(2) by simp
    have "map_option bare (shapes s' ?a) = map_option bare (shapes s ?a)" using 1(4) by (simp add: sframe_def)
    then obtain sh' where sh': "shapes s' ?a = Some sh'" "bare sh' = bare sh" using sh(1) by auto
    have "freed s' = freed s" "array_shape s' = array_shape s" using 1(4) by (simp_all add: sframe_def)
    then have "added E p atom flags None s s'"
      unfolding added_def using 1(2,3,5) ap ob sh(1) sh'(1) bareD(7,8) [OF sh'(2)] by (simp add: shapes_inv_def)
    then show ?thesis using that [of "-1" ?a s' None] 1(1) e1 sh'(1) by simp
  next
    case (2 b vs s' sh')
    let ?ob = "ob\<lparr>p_prop := vs, p_shape := b\<rparr>"
    have e2: "upd_sobj p (\<lambda>ob. ob\<lparr>p_shape := b\<rparr>) s' = s'\<lparr>sh_objs := (sh_objs s)(p \<mapsto> ?ob)\<rparr>" using 2(2) by (simp add: upd_sobj_def)
    have "b \<notin># owners (rest p s)" using 2(5) nr fresh_not_owned(1) [OF i] by blast
    then have d: "{?a, b} \<inter> set_mset (owners (rest p s)) = {}" using nr by simp
    have "sapart p s (s'\<lparr>sh_objs := (sh_objs s)(p \<mapsto> ?ob)\<rparr>)"
      by (rule frame_apart [OF _ _ d]) (use 2(4) in \<open>simp_all add: sframe_def\<close>)
    moreover have "freed s' = freed s" "array_shape s' = array_shape s" using 2(4) by (simp_all add: sframe_def)
    moreover have nm: "names sh' = names sh @ [(atom, flags)]" "sh_proto sh' = sh_proto sh" using 2(7) by (simp_all add: sdata_eq)
    ultimately have ad: "added E p atom flags (Some (length (names sh))) s (upd_sobj p (\<lambda>ob. ob\<lparr>p_shape := b\<rparr>) s')"
      unfolding added_def e2 using 2(3,6,9) ob sh(1) by (simp add: shapes_inv_def)
    have "length (sh_props sh') - 1 = length (names sh)" using arg_cong [OF nm(1), of length] shape_hashD(4) [of sh'] by simp
    then have k: "Some (length (names sh)) = (if (0::int) \<noteq> 0 then None else Some (length (sh_props (the (shapes s' b))) - 1))" using 2(6) by simp
    have "shapes s' b \<noteq> None" using 2(6) by simp
    then show ?thesis by (rule that [OF 2(1) _ ad k])
  qed
qed

lemma added_apart:
  assumes a: "added E p atom flags k s1 s2" and o: "sh_objs s1 = (sh_objs s)(p \<mapsto> ob\<lparr>p_shape := b\<rparr>)" "sh_objs s p = Some ob"
    and b: "shapes s1 b = Some sh1" "shapes s (p_shape ob) = Some sh" "names sh1 = names sh" "sh_proto sh1 = sh_proto sh"
    and p: "sapart p s s1" "freed s1 = freed s" "array_shape s1 = array_shape s"
  shows "added E p atom flags k s s2"
  using a o b apart_trans [OF p(1), of s2] p(2,3) unfolding added_def by (auto split: option.splits)

lemma add_property_ok:
  assumes e: "env_ok V" and i: "shapes_inv E s" and ob: "sh_objs s p = Some ob" and sh: "shapes s (p_shape ob) = Some sh"
    and at: "atom \<noteq> 0" "atom \<notin> set (live_atoms (names sh))" "flags < 64" and n: "length (names sh) + 1 < 2 ^ 26"
  shows "\<exists>k s'. add_property V p atom flags s = Some (k, s') \<and> added E p atom flags k s s'"
proof -
  let ?a = "p_shape ob"
  have r: "rt {} E (sh_objs s) s" using i by (simp add: shapes_inv_def)
  obtain pl: "prop_size sh \<le> length (p_prop ob)" "shape_ok sh" "\<not> sh_is_hashed sh \<Longrightarrow> sh_ref_count sh = 1" "length (names sh) \<le> length (p_prop ob)"
    using inv_obj [OF i ob] sh by (metis option.inject)
  obtain f where f: "find_hashed_shape_prop sh atom flags s = Some f"
    "\<And>b. f = Some b \<Longrightarrow> \<exists>sh1. shapes s b = Some sh1 \<and> sh_is_hashed sh1 \<and> names sh1 = names sh @ [(atom, flags)] \<and> sh_proto sh1 = sh_proto sh"
    using find_prop_ok [OF r] by blast
  define g where "g = (if sh_is_hashed sh then f else None)"
  have fd: "(if sh_is_hashed sh then find_hashed_shape_prop sh atom flags s else Some None) = Some g" using f(1) by (simp add: g_def)
  show ?thesis
  proof (cases g)
    case (Some b)
    obtain shb where b: "shapes s b = Some shb" "sh_is_hashed shb" "names shb = names sh @ [(atom, flags)]" "sh_proto shb = sh_proto sh"
      using f(2) Some by (auto simp: g_def split: if_splits)
    show ?thesis
    proof (cases "prop_size shb \<noteq> prop_size sh \<and> \<not> se_props V (prop_size shb)")
      case True
      have "added E p atom flags None s s" using i ob sh apart_refl [of p s] by (simp add: added_def)
      moreover have "add_property V p atom flags s = Some (None, s)" using ob sh fd Some b(1) True by (simp add: add_property_def)
      ultimately show ?thesis by blast
    next
      case False
      have so: "shape_ok shb" using rt_cell [OF r, of b] b(1) by simp
      have "length (names sh) < prop_size shb" using shape_hashD(2) [OF so] b(3) by simp
      then obtain vs where vs: "(if prop_size shb \<noteq> prop_size sh then upd_sobj p (realloc_prop (prop_size shb)) s else s)
          = s\<lparr>sh_objs := (sh_objs s)(p \<mapsto> ob\<lparr>p_prop := vs\<rparr>)\<rparr>" "prop_size shb \<le> length vs"
        "take (length (names sh)) vs = take (length (names sh)) (p_prop ob)"
      proof (cases "prop_size shb = prop_size sh")
        case True
        have "s = s\<lparr>sh_objs := (sh_objs s)(p \<mapsto> ob\<lparr>p_prop := p_prop ob\<rparr>)\<rparr>" using ob by (simp add: fun_upd_idem)
        then show ?thesis using that [of "p_prop ob"] True pl(1) by simp
      next
        case False
        obtain vs where "realloc_prop (prop_size shb) ob = ob\<lparr>p_prop := vs\<rparr>" "length vs = prop_size shb"
          "take (length (names sh)) vs = take (length (names sh)) (p_prop ob)"
          using realloc_prop_ok [of "length (names sh)" "prop_size shb" ob] \<open>length (names sh) < prop_size shb\<close> pl(4) by auto
        then show ?thesis using that [of vs] False upd_sobj_eq [OF ob, of "realloc_prop (prop_size shb)"] by simp
      qed
      let ?ob = "ob\<lparr>p_prop := vs, p_shape := b\<rparr>"
      obtain s2 s3 sh3 where s: "jsi_dup_shape b (s\<lparr>sh_objs := (sh_objs s)(p \<mapsto> ob\<lparr>p_prop := vs\<rparr>)\<rparr>) = Some s2"
        "shape_free ?a (upd_sobj p (\<lambda>ob. ob\<lparr>p_shape := b\<rparr>) s2) = Some s3" "sh_objs s3 = (sh_objs s)(p \<mapsto> ?ob)" "shapes_inv E s3" "sapart p s s3"
        "shapes s3 b = Some sh3" "bare sh3 = bare shb" "freed s3 = freed s" "array_shape s3 = array_shape s"
        using reuse_ok [OF i ob b(1,2) vs(2)] by metis
      have "added E p atom flags (Some (length (names sh))) s s3"
        unfolding added_def using s(3-6,8,9) ob sh vs(3) bareD(7,8) [OF s(7)] b(3,4) by simp
      moreover have "add_property V p atom flags s = Some (Some (length (sh_props shb) - 1), s3)"
        unfolding add_property_def ob sh Option.bind.bind_lunit fd Some option.case b(1) Let_def vs(1) s(1) s(2) using False by simp
      moreover have "length (sh_props shb) - 1 = length (names sh)" using arg_cong [OF b(3), of length] shape_hashD(4) [of shb] by simp
      ultimately show ?thesis by auto
    qed
  next
    case None
    let ?un = "if sh_is_hashed sh \<and> sh_ref_count sh \<noteq> 1 then do {
                        (c, s) \<leftarrow> jsi_clone_shape V ?a s;
                        (case c of
                           None \<Rightarrow> Some (False, s)
                         | Some b \<Rightarrow> do {
                             s \<leftarrow> jsi_shape_hash_link b (upd_shape b (\<lambda>sh. sh\<lparr>sh_is_hashed := True\<rparr>) s);
                             s \<leftarrow> shape_free ?a s;
                             Some (True, upd_sobj p (\<lambda>ob. ob\<lparr>p_shape := b\<rparr>) s) }) }
                      else Some (True, s)"
    consider (no) "?un = Some (False, s)"
      | (yes) b s1 sh1 where "?un = Some (True, s1)" "sh_objs s1 = (sh_objs s)(p \<mapsto> ob\<lparr>p_shape := b\<rparr>)" "shapes s1 b = Some sh1" "sh_ref_count sh1 = 1"
        "names sh1 = names sh" "sh_proto sh1 = sh_proto sh" "shapes_inv E s1" "sapart p s s1" "freed s1 = freed s" "array_shape s1 = array_shape s"
    proof (cases "sh_is_hashed sh \<and> sh_ref_count sh \<noteq> 1")
      case False
      then have "sh_ref_count sh = 1" using pl(3) by blast
      moreover have "sh_objs s = (sh_objs s)(p \<mapsto> ob\<lparr>p_shape := ?a\<rparr>)" using ob by (simp add: fun_upd_idem)
      ultimately show ?thesis using yes [of s ?a sh] False i sh apart_refl [of p s] by simp
    next
      case True
      then have h: "sh_is_hashed sh" by blast
      show ?thesis
      proof (cases rule: unshare_ok [OF e i ob sh h])
        case 1
        then show ?thesis using no True by simp
      next
        case (2 b s1 s2 s3 sh3)
        let ?s = "s3\<lparr>sh_objs := (sh_objs s)(p \<mapsto> ob\<lparr>p_shape := b\<rparr>)\<rparr>"
        have "upd_sobj p (\<lambda>ob. ob\<lparr>p_shape := b\<rparr>) s3 = ?s" using 2(4) ob by (simp add: upd_sobj_def)
        then have u: "?un = Some (True, ?s)" using True 2(1-3) by simp
        have "shapes ?s b = Some sh3" "sh_objs ?s = (sh_objs s)(p \<mapsto> ob\<lparr>p_shape := b\<rparr>)" "freed ?s = freed s" "array_shape ?s = array_shape s"
          using 2(8,11,12) by simp_all
        then show ?thesis using yes [OF u _ _ 2(10) _ _ 2(5,6)] bareD(7,8) [OF 2(9)] by simp
      qed
    qed
    then show ?thesis
    proof cases
      case no
      have "added E p atom flags None s s" using i ob sh apart_refl [of p s] by (simp add: added_def)
      moreover have "add_property V p atom flags s = Some (None, s)"
        unfolding add_property_def ob sh Option.bind.bind_lunit fd None option.case no by simp
      ultimately show ?thesis by blast
    next
      case (yes b s1 sh1)
      have o1: "sh_objs s1 p = Some (ob\<lparr>p_shape := b\<rparr>)" "shapes s1 (p_shape (ob\<lparr>p_shape := b\<rparr>)) = Some sh1" using yes(2,3) by simp_all
      have pre: "atom \<notin> set (live_atoms (names sh1))" "length (names sh1) + 1 < 2 ^ 26" using at(2) n yes(5) by simp_all
      have ps: "p_shape (ob\<lparr>p_shape := b\<rparr>) = b" by simp
      obtain r b2 s2 k where a: "add_shape_property V b (Some p) atom flags s1 = Some (r, b2, s2)" "shapes s2 b2 \<noteq> None"
        "added E p atom flags k s1 (upd_sobj p (\<lambda>ob. ob\<lparr>p_shape := b2\<rparr>) s2)"
        "k = (if r \<noteq> 0 then None else Some (length (sh_props (the (shapes s2 b2))) - 1))"
        using add_sole [OF e yes(7) o1 yes(4) at(1) pre(1) at(3) pre(2), unfolded ps] .
      let ?s = "upd_sobj p (\<lambda>ob. ob\<lparr>p_shape := b2\<rparr>) s2"
      have "added E p atom flags k s ?s" by (rule added_apart [OF a(3) yes(2) ob yes(3) sh yes(5,6,8-10)])
      moreover obtain sh2 where sh2: "shapes s2 b2 = Some sh2" using a(2) by blast
      moreover have "add_property V p atom flags s = Some (k, ?s)"
        unfolding add_property_def ob sh Option.bind.bind_lunit fd None option.case yes(1) prod.case
        using o1 yes(4) a(1,4) sh2 by (simp add: upd_sobj_def)
      ultimately show ?thesis by blast
    qed
  qed
qed

end
