(* ===== verification/QShapeDel.thy ===== *)
theory QShapeDel
  imports QShapeOps
begin

text \<open>
  Lookup, change of flags and removal of properties, with the compaction that a removal may start.
\<close>

section \<open>Lists of properties\<close>

lemma own_map_of:
  assumes "i < length ns" and "ns ! i = (a, f)" and "a \<noteq> 0" and "length ns \<le> length vs" and "distinct (live_atoms ns)"
  shows "map_of (own ns vs) a = Some (f, vs ! i)"
proof -
  have "((a, f), vs ! i) \<in> set (zip ns vs)" using assms by (auto simp: set_zip intro!: exI [of _ i])
  then have "(a, f, vs ! i) \<in> set (own ns vs)" using assms(3) by (force simp: own_def)
  moreover have "distinct (map fst (own ns vs))" using own_live [OF assms(4)] assms(5) by simp
  ultimately show ?thesis by simp
qed

lemma own_absent: "length ns \<le> length vs \<Longrightarrow> a \<notin> set (live_atoms ns) \<Longrightarrow> map_of (own ns vs) a = None"
  using own_live [of ns vs] by (simp add: map_of_eq_None_iff flip: set_map)

lemma own_append: "length ns = length vs \<Longrightarrow> own (ns @ ns') (vs @ vs') = own ns vs @ own ns' vs'"
  by (simp add: own_def)

lemma own_split:
  assumes "i < length ns" and "length ns \<le> length vs"
  shows "own (ns[i := n]) (vs[i := w]) = own (take i ns) (take i vs) @ own [n] [w] @ own (drop (Suc i) ns) (drop (Suc i) vs)"
proof -
  have "own (ns[i := n]) (vs[i := w]) = own (take i ns @ [n] @ drop (Suc i) ns) (take i vs @ [w] @ drop (Suc i) vs)"
    using assms by (simp add: upd_conv_take_nth_drop)
  then show ?thesis using assms by (simp add: own_append del: append_Cons append_Nil)
qed

lemma own_fst: "a \<notin> set (live_atoms ns) \<Longrightarrow> length ns \<le> length vs \<Longrightarrow> (b, x) \<in> set (own ns vs) \<Longrightarrow> b \<noteq> a"
  using own_live [of ns vs] by (metis fst_conv image_eqI set_map)

lemma own_remove:
  assumes i: "i < length ns" "length ns \<le> length vs" and a: "ns ! i = (a, f)" "a \<noteq> 0" and d: "distinct (live_atoms ns)"
  shows "own (ns[i := (0, g)]) (vs[i := w]) = filter (\<lambda>(b, _). b \<noteq> a) (own ns vs)"
    "live_atoms (ns[i := (0, g)]) = filter (\<lambda>b. b \<noteq> a) (live_atoms ns)"
    "length (live_atoms ns) = Suc (length (live_atoms (ns[i := (0, g)])))"
proof -
  let ?n1 = "take i ns" and ?n2 = "drop (Suc i) ns" and ?v1 = "take i vs" and ?v2 = "drop (Suc i) vs"
  have o: "own ns vs = own ?n1 ?v1 @ [(a, f, vs ! i)] @ own ?n2 ?v2"
    using own_split [OF i, of "(a, f)" "vs ! i", folded a(1), unfolded list_update_id] a by (simp add: own_def)
  have n: "ns = ?n1 @ (a, f) # ?n2" using i(1) a(1) by (metis id_take_nth_drop)
  have l: "live_atoms ns = live_atoms ?n1 @ a # live_atoms ?n2" by (subst n) (use a(2) in \<open>simp add: live_atoms_def\<close>)
  then have na: "a \<notin> set (live_atoms ?n1)" "a \<notin> set (live_atoms ?n2)" using d by auto
  have k: "filter (\<lambda>(b, _). b \<noteq> a) (own ms us) = own ms us" if "a \<notin> set (live_atoms ms)" "length ms \<le> length us" for ms :: "(nat \<times> nat) list" and us :: "'a option list"
    using own_fst [OF that] by (intro filter_True) auto
  have "own (ns[i := (0, g)]) (vs[i := w]) = own ?n1 ?v1 @ own ?n2 ?v2" using own_split [OF i, of "(0, g)" w] by (simp add: own_def)
  then show "own (ns[i := (0, g)]) (vs[i := w]) = filter (\<lambda>(b, _). b \<noteq> a) (own ns vs)"
    unfolding o using k [OF na(1), of ?v1] k [OF na(2), of ?v2] i by simp
  have u: "live_atoms (ns[i := (0, g)]) = live_atoms ?n1 @ live_atoms ?n2" using i(1) by (simp add: upd_conv_take_nth_drop live_atoms_def)
  have "filter (\<lambda>b. b \<noteq> a) (live_atoms ?n1) = live_atoms ?n1" "filter (\<lambda>b. b \<noteq> a) (live_atoms ?n2) = live_atoms ?n2" using na by (auto intro!: filter_True)
  then show "live_atoms (ns[i := (0, g)]) = filter (\<lambda>b. b \<noteq> a) (live_atoms ns)" unfolding u l by simp
  show "length (live_atoms ns) = Suc (length (live_atoms (ns[i := (0, g)])))" unfolding u l by simp
qed

lemma own_flags:
  assumes i: "i < length ns" "length ns \<le> length vs" and a: "ns ! i = (a, f)" "a \<noteq> 0" and d: "distinct (live_atoms ns)"
  shows "own (ns[i := (a, g)]) vs = map (\<lambda>(b, f, v). (b, if b = a then g else f, v)) (own ns vs)"
    "live_atoms (ns[i := (a, g)]) = live_atoms ns"
proof -
  let ?n1 = "take i ns" and ?n2 = "drop (Suc i) ns" and ?v1 = "take i vs" and ?v2 = "drop (Suc i) vs"
  have n: "ns = ?n1 @ (a, f) # ?n2" using i(1) a(1) by (metis id_take_nth_drop)
  have l: "live_atoms ns = live_atoms ?n1 @ a # live_atoms ?n2" by (subst n) (use a(2) in \<open>simp add: live_atoms_def\<close>)
  then have na: "a \<notin> set (live_atoms ?n1)" "a \<notin> set (live_atoms ?n2)" using d by auto
  have k: "map (\<lambda>(b, f, v). (b, if b = a then g else f, v)) (own ms us) = own ms us" if "a \<notin> set (live_atoms ms)" "length ms \<le> length us"
    for ms :: "(nat \<times> nat) list" and us :: "'a option list"
    using own_fst [OF that] by (intro map_idI) auto
  have o: "own (ns[i := (a, h)]) vs = own ?n1 ?v1 @ [(a, h, vs ! i)] @ own ?n2 ?v2" for h
    using own_split [OF i, of "(a, h)" "vs ! i"] a(2) by (simp add: own_def)
  have "own ns vs = own ?n1 ?v1 @ [(a, f, vs ! i)] @ own ?n2 ?v2" using o [of f] a(1) by (metis list_update_id)
  then show "own (ns[i := (a, g)]) vs = map (\<lambda>(b, f, v). (b, if b = a then g else f, v)) (own ns vs)"
    unfolding o using k [OF na(1), of ?v1] k [OF na(2), of ?v2] i by simp
  show "live_atoms (ns[i := (a, g)]) = live_atoms ns" unfolding l using i(1) a(2) by (simp add: upd_conv_take_nth_drop live_atoms_def)
qed

section \<open>Lookup\<close>

lemma find_ok:
  assumes i: "shapes_inv E s" and l: "look s p = Some (h, pr, ps)" and a: "atom \<noteq> 0"
  shows "\<exists>r. find_own_property p atom s = Some r \<and> map_option (\<lambda>(q, v). (pr_flags q, v)) r = map_of ps atom"
proof -
  obtain ob sh where o: "sh_objs s p = Some ob" "shapes s (p_shape ob) = Some sh" "ps = own (names sh) (p_prop ob)" using lookE [OF l] by metis
  obtain pl: "shape_ok sh" "length (names sh) \<le> length (p_prop ob)" using inv_obj [OF i o(1)] o(2) by (metis option.inject)
  have d: "distinct (live_atoms (names sh))" using pl(1) by (simp add: shape_ok_def)
  show ?thesis
  proof (cases rule: shape_find_ok [OF shape_hashD(1) [OF pl(1)] a])
    case (1 l)
    then have "atom \<notin> set (live_atoms (names sh))" by (auto simp: live_atoms_def names_def)
    then show ?thesis using 1(1) o own_absent [OF pl(2)] by (simp add: find_own_property_def)
  next
    case (2 l x us ws)
    let ?q = "sh_props sh ! (x - 1)"
    have x: "x - 1 < length (sh_props sh)" "x - 1 < length (p_prop ob)" using 2(2,3) pl(2) shape_hashD(4) [of sh] by auto
    have "map_of ps atom = Some (pr_flags ?q, p_prop ob ! (x - 1))"
      unfolding o(3) by (rule own_map_of [OF _ _ a pl(2) d]) (use x 2(4) shape_hashD(4) [of sh] in \<open>simp_all add: names_def\<close>)
    then show ?thesis using 2(1,2) o x by (simp add: find_own_property_def mem_simps)
  qed
qed

lemma find1_ok:
  assumes i: "shapes_inv E s" and ob: "sh_objs s p = Some ob" and sh: "shapes s (p_shape ob) = Some sh" and a: "atom \<noteq> 0"
    and f: "find_own_property1 p atom s = Some (Some i)"
  shows "i < length (names sh) \<and> fst (names sh ! i) = atom"
proof -
  obtain so: "shape_ok sh" using inv_obj [OF i ob] sh by (metis option.inject)
  show ?thesis
    by (cases rule: shape_find_ok [OF shape_hashD(1) [OF so] a])
      (use f ob sh shape_hashD(4) [of sh] in \<open>auto simp: find_own_property1_def names_def\<close>)
qed

section \<open>Changing the only owner's shape\<close>

lemma sole_change:
  assumes i: "shapes_inv E s" and ob: "sh_objs s p = Some ob" and sh: "shapes s (p_shape ob) = Some sh" "sh_ref_count sh = 1" "\<not> sh_is_hashed sh"
    and b: "b = p_shape ob \<or> b \<noteq> 0 \<and> shapes s b = None" and sh': "shape_ok sh'" "sh_ref_count sh' = 1" "\<not> sh_is_hashed sh'"
    and ob': "p_shape ob' = b" "prop_size sh' \<le> length (p_prop ob')"
    and s': "shapes s' = (shapes s)(p_shape ob := None, b \<mapsto> sh')" "held s' = held s - shape_held sh + shape_held sh'"
      "sh_objs s' = (sh_objs s)(p \<mapsto> ob')" "table_same s s'"
  shows "shapes_inv E s'" "sapart p s s'"
proof -
  let ?a = "p_shape ob"
  have r: "rt {} (add_mset ?a E) (rest p s) s" using rt_detach [of "{}" E "sh_objs s" s p ob] i ob by (simp add: shapes_inv_def)
  have "rt {} (add_mset b E) (rest p s) (s\<lparr>shapes := shapes s', held := held s'\<rparr>)"
    unfolding s'(1,2) by (rule replace_ok [OF r sh(1,2) b sh'(1,2)]) (use sh(3) sh'(3) in simp_all)
  then have bd: "body (add_mset b E) (shapes s') (rest p s) (held s')" by (simp add: rt_def)
  have "tab_ok {} (s\<lparr>shapes := shapes s', held := held s'\<rparr>)"
    using \<open>rt {} (add_mset b E) (rest p s) (s\<lparr>shapes := shapes s', held := held s'\<rparr>)\<close> by (simp add: rt_def)
  moreover have "snext (s\<lparr>shapes := shapes s', held := held s'\<rparr>) = snext s'" by (simp add: snext_def fun_eq_iff)
  ultimately have "tab_ok {} s'"
    using s'(4) unfolding tab_ok_def by (simp add: in_bucket_def all_hashed_def table_same_def)
  then have "rt {} (add_mset (p_shape ob') E) ((sh_objs s)(p := None)) s'" using bd ob'(1) by (simp add: rt_def)
  then have "rt {} E ((sh_objs s)(p \<mapsto> ob')) s'" by (rule rt_attach [where sh = sh']) (use s'(1) ob' in simp_all)
  then show "shapes_inv E s'" using s'(3) by (simp add: shapes_inv_def)
  have "?a \<notin># owners (rest p s)" by (rule sole_owner(1) [OF i ob sh(1,2)])
  moreover have "b \<notin># owners (rest p s)" using b calculation fresh_not_owned(1) [OF i] by blast
  ultimately show "sapart p s s'" unfolding sapart_def s'(1,3) by auto
qed

lemma prepared:
  assumes e: "env_ok V" and i: "shapes_inv E s" and ob: "sh_objs s p = Some ob" and sh: "shapes s (p_shape ob) = Some sh"
  obtains (fail) "jsi_shape_prepare_update V p s = Some (-1, s)"
  | (ok) b s' sh' where "jsi_shape_prepare_update V p s = Some (0, s')" "sh_objs s' = (sh_objs s)(p \<mapsto> ob\<lparr>p_shape := b\<rparr>)"
      "shapes_inv E s'" "sapart p s s'" "shapes s' b = Some sh'" "sh_ref_count sh' = 1" "\<not> sh_is_hashed sh'"
      "names sh' = names sh" "sh_proto sh' = sh_proto sh" "sh_props sh' = sh_props sh" "sh_tab sh' = sh_tab sh"
      "deleted_prop_count sh' = deleted_prop_count sh" "prop_size sh' = prop_size sh" "shape_ok sh'" "prop_size sh' \<le> length (p_prop ob)"
      "freed s' = freed s" "array_shape s' = array_shape s"
proof (cases rule: prepare_ok [OF e i ob sh])
  case (2 b s' sh')
  note d = bareD [OF 2(6)]
  have o: "sh_objs s' p = Some (ob\<lparr>p_shape := b\<rparr>)" using 2(2) by simp
  obtain z where z: "shapes s' (p_shape (ob\<lparr>p_shape := b\<rparr>)) = Some z" "shape_ok z" "prop_size z \<le> length (p_prop (ob\<lparr>p_shape := b\<rparr>))"
    using inv_obj [OF 2(3) o] by blast
  then have k: "shape_ok sh'" "prop_size sh' \<le> length (p_prop ob)" using 2(5) by simp_all
  show ?thesis using ok [OF 2(1-5,7)] d k 2(8,9) by (simp add: names_def)
qed (rule fail)

section \<open>Change of flags\<close>

lemma shape_flags_ok:
  assumes so: "shape_ok sh" "\<not> sh_is_hashed sh" and i: "i < length (names sh)" "fst (names sh ! i) \<noteq> 0" and f: "flags < 64"
  defines "sh' \<equiv> sh\<lparr>sh_props := (sh_props sh)[i := (sh_props sh ! i)\<lparr>pr_flags := take_bit 6 flags\<rparr>]\<rparr>"
  shows "shape_ok sh'" "names sh' = (names sh)[i := (fst (names sh ! i), flags)]" "shape_held sh' = shape_held sh"
proof -
  have l: "i < length (sh_props sh)" using i(1) shape_hashD(4) [of sh] by simp
  have fl: "take_bit 6 flags = flags" using f by (simp add: take_bit_nat_eq_self)
  show nm: "names sh' = (names sh)[i := (fst (names sh ! i), flags)]" using l fl by (simp add: sh'_def names_def map_update)
  have d: "distinct (live_atoms (names sh))" using so(1) by (simp add: shape_ok_def)
  have "names sh ! i = (fst (names sh ! i), snd (names sh ! i))" by simp
  note lv = own_flags(2) [OF i(1) _ this i(2) d, of "replicate (length (names sh)) None" flags]
  have "hash_ok (sh_props sh') (sh_tab sh)"
    by (rule hash_ok_cong [OF shape_hashD(1) [OF so(1)]]) (use l in \<open>auto simp: sh'_def nth_list_update\<close>)
  then show "shape_ok sh'" using so lv nm unfolding shape_ok_def by (simp add: sh'_def)
  have "(map g (sh_props sh))[i := g (sh_props sh ! i)] = map g (sh_props sh)" for g :: "shape_prop \<Rightarrow> held_ref multiset" by (metis list_update_id map_update)
  from this [of "\<lambda>p. atom_held (pr_atom p)"] show "shape_held sh' = shape_held sh" by (simp add: shape_held_def sh'_def map_update)
qed

lemma update_flags_ok:
  assumes e: "env_ok V" and i: "shapes_inv E s" and l: "look s p = Some (h, pr, ps)" and a: "atom \<noteq> 0"
    and f: "find_own_property1 p atom s = Some (Some k)" "flags < 64"
  shows "\<exists>r s'. jsi_update_property_flags V p k flags s = Some (r, s') \<and> shapes_inv E s' \<and> sapart p s s'
    \<and> (r = 0 \<and> look s' p = Some (h, pr, map (\<lambda>(b, f, v). (b, if b = atom then flags else f, v)) ps) \<or> r = -1 \<and> s' = s)"
proof -
  obtain ob sh where o: "sh_objs s p = Some ob" "shapes s (p_shape ob) = Some sh" "h = ob\<lparr>p_shape := 0, p_prop := []\<rparr>" "pr = sh_proto sh"
    "ps = own (names sh) (p_prop ob)" using lookE [OF l] .
  obtain pl: "shape_ok sh" "length (names sh) \<le> length (p_prop ob)" using inv_obj [OF i o(1)] o(2) by (metis option.inject)
  have k: "k < length (names sh)" "fst (names sh ! k) = atom" using find1_ok [OF i o(1,2) a f(1)] by auto
  have kp: "k < length (sh_props sh)" using k(1) shape_hashD(4) [of sh] by simp
  have d: "distinct (live_atoms (names sh))" using pl(1) by (simp add: shape_ok_def)
  have nk: "names sh ! k = (atom, pr_flags (sh_props sh ! k))" using k kp by (simp add: names_def)
  note of = own_flags(1) [OF k(1) pl(2) nk a d]
  show ?thesis
  proof (cases "flags = pr_flags (sh_props sh ! k)")
    case True
    have "look s p = Some (h, pr, map (\<lambda>(b, f, v). (b, if b = atom then flags else f, v)) ps)"
      using l of [of flags] nk True unfolding o(5) by (metis list_update_id)
    then show ?thesis using True kp o(1,2) i apart_refl [of p s] by (simp add: jsi_update_property_flags_def mem_simps)
  next
    case False
    show ?thesis
    proof (cases rule: prepared [OF e i o(1,2)])
      case 1
      then show ?thesis using False kp o(1,2) i apart_refl [of p s] by (simp add: jsi_update_property_flags_def mem_simps)
    next
      case (2 b s1 sh1)
      let ?f = "\<lambda>sh. sh\<lparr>sh_props := (sh_props sh)[k := (sh_props sh ! k)\<lparr>pr_flags := take_bit 6 flags\<rparr>]\<rparr>"
      let ?s = "upd_shape b ?f s1" and ?ob = "ob\<lparr>p_shape := b\<rparr>"
      have pre: "k < length (names sh1)" "fst (names sh1 ! k) \<noteq> 0" using k a 2(8) by simp_all
      note sf = shape_flags_ok [OF 2(14,7) pre f(2)]
      have o1: "sh_objs s1 p = Some ?ob" "shapes s1 (p_shape ?ob) = Some sh1" using 2(2,5) by simp_all
      have hs: "shape_held sh1 \<subseteq># held s1" using 2(3,5) held_sub [of _ "shapes s1" _ "held s1" b sh1] unfolding shapes_inv_def rt_def by blast
      have iv: "shapes_inv E ?s" "sapart p s1 ?s"
        by (rule sole_change [OF 2(3) o1 2(6,7), of b "?f sh1" ?ob]; use sf 2 hs o1 in \<open>simp add: upd_shape_def table_same_def fun_upd_idem\<close>)+
      have "look ?s p = Some (h, pr, own ((names sh)[k := (atom, flags)]) (p_prop ob))"
        using o1 2(5,8,9) sf(2) k(2) o(3,4) by (simp add: look_def names_def)
      then have "look ?s p = Some (h, pr, map (\<lambda>(b, f, v). (b, if b = atom then flags else f, v)) ps)" using of [of flags] o(5) by simp
      moreover have "jsi_update_property_flags V p k flags s = Some (0, ?s)"
        using False kp o(1,2) 2(1) o1 by (simp add: jsi_update_property_flags_def mem_simps)
      ultimately show ?thesis using iv apart_trans [OF 2(4) iv(2)] by blast
    qed
  qed
qed

section \<open>Removal\<close>

lemma shape_held_names: "shape_held sh = proto_held (sh_proto sh) + (\<Sum>n \<leftarrow> names sh. atom_held (fst n))"
  by (simp add: shape_held_def names_def comp_def)

lemma shape_removed_ok:
  assumes so: "shape_ok sh" "\<not> sh_is_hashed sh" and x: "0 < x" "x \<le> length (sh_props sh)" "pr_atom (sh_props sh ! (x - 1)) = atom"
    and a: "atom \<noteq> 0" and l: "l = (if us = [] then 0 else last us)"
    and b: "bucket (sh_props sh) (length (sh_tab sh)) (atom AND (length (sh_tab sh) - 1)) = us @ x # ws"
  defines "sh' \<equiv> shape_remove atom l x sh"
  shows "shape_ok sh'" "names sh' = (names sh)[x - 1 := (0, 0)]" "shape_held sh = shape_held sh' + atom_held atom"
    "sh_proto sh' = sh_proto sh" "prop_size sh' = prop_size sh" "sh_ref_count sh' = sh_ref_count sh" "\<not> sh_is_hashed sh'"
    "deleted_prop_count sh' = deleted_prop_count sh + 1"
proof -
  note rm = shape_remove_ok [OF shape_hashD(1) [OF so(1)] x a l b]
  show nm: "names sh' = (names sh)[x - 1 := (0, 0)]" using rm(2) by (simp add: names_def sh'_def)
  show f: "sh_proto sh' = sh_proto sh" "prop_size sh' = prop_size sh" "sh_ref_count sh' = sh_ref_count sh" "\<not> sh_is_hashed sh'"
    "deleted_prop_count sh' = deleted_prop_count sh + 1" using so(2) by (simp_all add: sh'_def shape_remove_def Let_def)
  have i: "x - 1 < length (names sh)" "names sh ! (x - 1) = (atom, pr_flags (sh_props sh ! (x - 1)))"
    using x shape_hashD(4) [of sh] by (auto simp: names_def)
  have d: "distinct (live_atoms (names sh))" using so(1) by (simp add: shape_ok_def)
  note lv = own_remove(2,3) [OF i(1) _ i(2) a d, of "replicate (length (names sh)) None" 0]
  have "hash_ok (sh_props sh') (sh_tab sh')" using rm(1) by (simp add: sh'_def)
  moreover have "has_small_array_index sh' = has_small_array_index sh" by (simp add: sh'_def shape_remove_def Let_def)
  ultimately show "shape_ok sh'" using so(1) lv f nm unfolding shape_ok_def by auto
  have n: "names sh = take (x - 1) (names sh) @ names sh ! (x - 1) # drop (Suc (x - 1)) (names sh)" using i(1) by (rule id_take_nth_drop)
  have n': "(names sh)[x - 1 := (0, 0)] = take (x - 1) (names sh) @ (0, 0) # drop (Suc (x - 1)) (names sh)" using i(1) by (rule upd_conv_take_nth_drop)
  show "shape_held sh = shape_held sh' + atom_held atom"
    unfolding shape_held_names f(1) nm n' by (subst n) (use i(2) in \<open>simp add: atom_held_def\<close>)
qed

text \<open>Compaction of an object whose shape is its own.\<close>

lemma own_compact:
  "length ns \<le> length vs \<Longrightarrow> own (filter (\<lambda>(a, f). a \<noteq> 0) ns) (map snd (filter (\<lambda>((a, f), v). a \<noteq> 0) (zip ns vs))) = own ns vs"
proof (induction ns arbitrary: vs)
  case (Cons n ns)
  then show ?case by (cases vs) (auto simp: own_def split: prod.splits)
qed (simp add: own_def)

lemma live_filter: "live_atoms (filter (\<lambda>(a, f). a \<noteq> 0) ns) = live_atoms ns" "length (filter (\<lambda>(a, f). a \<noteq> 0) ns) = length (live_atoms ns)"
  by (induction ns) (auto simp: live_atoms_def)

lemma held_filter: "(\<Sum>n \<leftarrow> filter (\<lambda>(a, f). a \<noteq> 0) ns. atom_held (fst n)) = (\<Sum>n \<leftarrow> ns. atom_held (fst n))"
  by (induction ns) (auto simp: atom_held_def)

lemma compact_properties_ok:
  assumes e: "env_ok V" and i: "shapes_inv E s" and ob: "sh_objs s p = Some ob"
    and sh: "shapes s (p_shape ob) = Some sh" "sh_ref_count sh = 1" "\<not> sh_is_hashed sh" and n: "2 \<le> prop_size sh"
  shows "\<exists>r s'. compact_properties V p s = Some (r, s') \<and> shapes_inv E s' \<and> sapart p s s' \<and> look s' p = look s p
    \<and> freed s' = freed s \<and> array_shape s' = array_shape s"
proof -
  obtain pl: "prop_size sh \<le> length (p_prop ob)" "shape_ok sh" "length (names sh) \<le> length (p_prop ob)"
    using inv_obj [OF i ob] sh(1) by (metis option.inject)
  define m where "m = length (sh_props sh) - deleted_prop_count sh"
  have "length (live_atoms (names sh)) + deleted_prop_count sh = length (names sh)" using pl(2) by (simp add: shape_ok_def)
  then have m: "m = length (live_atoms (names sh))" using shape_hashD(4) [of sh] by (simp add: m_def)
  define N where "N = max JSI_PROP_INITIAL_SIZE m"
  define M where "M = shrink_hash (length (sh_tab sh)) N"
  have "m \<le> length (names sh)" unfolding m live_atoms_def using length_filter_le [of _ "map fst (names sh)"] by simp
  then have N: "1 < N" "m \<le> N" "N \<le> prop_size sh" using n shape_hashD(2) [OF pl(2)] by (auto simp: N_def JSI_PROP_INITIAL_SIZE_def)
  obtain j where j: "M = 2 ^ j" using shape_hashD(3) [OF pl(2)] shrink_hash_power [OF N(1)] unfolding M_def by metis
  show ?thesis
  proof (cases "se_shape V s M N")
    case None
    have "compact_properties V p s = Some (-1, s)"
      unfolding compact_properties_def ob sh(1) Option.bind.bind_lunit Let_def m_def [symmetric] N_def [symmetric] M_def [symmetric] None
      using sh(3) N(3) by simp
    then show ?thesis using i apart_refl [of p s] by blast
  next
    case (Some b)
    then have b: "b \<noteq> 0" "shapes s b = None" using e by (auto simp: env_ok_def)
    have "0 + length (sh_props sh) \<le> length (p_prop ob)" "length [] + length (sh_props sh) < 2 ^ 26"
      using pl(3) shape_hashD(4) [of sh] hash_okD(2) [OF shape_hashD(1) [OF pl(2)]] by simp_all
    then obtain qs t vs where c: "compact_loop 0 (sh_props sh) 0 (replicate M 0) (p_prop ob) = Some (qs, t, vs)" "hash_ok qs t"
      "map name_flags qs = map name_flags (filter (\<lambda>p. pr_atom p \<noteq> 0) (sh_props sh))" "length vs = length (p_prop ob)"
      "take (length qs) vs = map snd (filter (\<lambda>(p, v). pr_atom p \<noteq> 0) (zip (sh_props sh) (p_prop ob)))"
      using compact_ok [of "[]" "replicate M 0" 0 "sh_props sh" "p_prop ob"] hash_empty [of j] j by auto
    let ?sh = "sh\<lparr>sh_props := qs, sh_tab := t, prop_size := N, deleted_prop_count := 0\<rparr>"
    have nm: "names ?sh = filter (\<lambda>(a, f). a \<noteq> 0) (names sh)" using c(3) by (simp add: names_def filter_map comp_def)
    have lq: "length qs = m" using arg_cong [OF nm, of length] live_filter(2) [of "names sh"] m by (simp add: names_def)
    have so: "shape_ok ?sh"
      using pl(2) c(2) live_filter [of "names sh"] m N(2) sh(3) unfolding shape_ok_def nm by simp
    have "zip (names sh) (p_prop ob) = map (\<lambda>(p, v). (name_flags p, v)) (zip (sh_props sh) (p_prop ob))" by (simp add: names_def zip_map1)
    then have "map snd (filter (\<lambda>((a, f), v). a \<noteq> 0) (zip (names sh) (p_prop ob))) = take (length qs) vs"
      using c(5) by (simp add: filter_map comp_def case_prod_unfold)
    then have ow: "own (names ?sh) vs = own (names sh) (p_prop ob)"
      using own_compact [OF pl(3)] own_take [of "names ?sh" vs] lq nm by (simp add: names_def)
    obtain ws where ws: "(if se_props V N then realloc_prop N (ob\<lparr>p_shape := b, p_prop := vs\<rparr>) else ob\<lparr>p_shape := b, p_prop := vs\<rparr>)
        = ob\<lparr>p_shape := b, p_prop := ws\<rparr>" "N \<le> length ws" "take m ws = take m vs"
    proof (cases "se_props V N")
      case True
      have "m \<le> length (p_prop (ob\<lparr>p_shape := b, p_prop := vs\<rparr>))" using N pl(1) c(4) by simp
      with realloc_prop_ok [OF N(2)] obtain ws where "realloc_prop N (ob\<lparr>p_shape := b, p_prop := vs\<rparr>) = (ob\<lparr>p_shape := b, p_prop := vs\<rparr>)\<lparr>p_prop := ws\<rparr>"
        "length ws = N" "take m ws = take m (p_prop (ob\<lparr>p_shape := b, p_prop := vs\<rparr>))" by metis
      then show ?thesis using that [of ws] True by simp
    next
      case False
      then show ?thesis using that [of vs] N(3) pl(1) c(4) by simp
    qed
    let ?ob = "ob\<lparr>p_shape := b, p_prop := ws\<rparr>"
    let ?s = "s\<lparr>shapes := (shapes s)(p_shape ob := None, b \<mapsto> ?sh), sh_objs := (sh_objs s)(p \<mapsto> ?ob)\<rparr>"
    have "shape_held ?sh = shape_held sh" unfolding shape_held_names nm held_filter by simp
    moreover have "shape_held sh \<subseteq># held s" using i sh(1) held_sub [of _ "shapes s" _ "held s"] unfolding shapes_inv_def rt_def by blast
    ultimately have iv: "shapes_inv E ?s" "sapart p s ?s"
      by (intro sole_change [OF i ob sh, of b ?sh ?ob]; use b so sh ws(2) in \<open>simp add: table_same_def\<close>)+
    have "own (names ?sh) ws = own (names ?sh) vs"
      using own_take [of "names ?sh" ws] own_take [of "names ?sh" vs] ws(3) lq by (simp add: names_def)
    then have "look ?s p = look s p" using ob sh(1) ow by (simp add: look_def)
    moreover have "compact_properties V p s = Some (0, ?s)"
      unfolding compact_properties_def ob sh(1) Option.bind.bind_lunit Let_def m_def [symmetric] N_def [symmetric] M_def [symmetric] Some option.case c(1) prod.case ws(1)
      using sh(3) N(3) lq by simp
    ultimately show ?thesis using iv by simp
  qed
qed

lemma delete_found_ok:
  assumes e: "env_ok V" and i: "shapes_inv E s" and ob: "sh_objs s p = Some ob" and sh: "shapes s (p_shape ob) = Some sh"
    and x: "0 < x" "x \<le> length (sh_props sh)" "pr_atom (sh_props sh ! (x - 1)) = atom" and a: "atom \<noteq> 0"
    and l: "l = (if us = [] then 0 else last us)"
    and b: "bucket (sh_props sh) (length (sh_tab sh)) (atom AND (length (sh_tab sh) - 1)) = us @ x # ws"
    and lk: "look s p = Some (h, pr, ps)"
  shows "\<exists>r s'. delete_found V p atom l x s = Some (r, s') \<and> shapes_inv E s' \<and> sapart p s s' \<and> array_shape s' = array_shape s
    \<and> (r = 1 \<and> look s' p = Some (h, pr, filter (\<lambda>(c, _). c \<noteq> atom) ps)
           \<and> freed s' = freed s @ [(pr_flags (sh_props sh ! (x - 1)), p_prop ob ! (x - 1))] \<or> r = -1 \<and> s' = s)"
proof -
  have o: "h = ob\<lparr>p_shape := 0, p_prop := []\<rparr>" "pr = sh_proto sh" "ps = own (names sh) (p_prop ob)" using lk ob sh by (auto simp: look_def)
  show ?thesis
  proof (cases rule: prepared [OF e i ob sh])
    case 1
    then show ?thesis using i apart_refl [of p s] by (simp add: delete_found_def)
  next
    case (2 c s1 sh1)
    let ?k = "x - 1" and ?ob = "ob\<lparr>p_shape := c\<rparr>" and ?sh = "shape_remove atom l x sh1"
    have o1: "sh_objs s1 p = Some ?ob" "shapes s1 (p_shape ?ob) = Some sh1" using 2(2,5) by simp_all
    have x1: "x \<le> length (sh_props sh1)" "pr_atom (sh_props sh1 ! ?k) = atom" "bucket (sh_props sh1) (length (sh_tab sh1)) (atom AND (length (sh_tab sh1) - 1)) = us @ x # ws"
      using x b 2(10,11) by simp_all
    note rm = shape_removed_ok [OF 2(14,7) x(1) x1(1,2) a l x1(3)]
    have ln: "length (names sh1) \<le> length (p_prop ob)" using shape_hashD(2) [OF 2(14)] 2(15) by simp
    have k: "?k < length (names sh1)" "?k < length (sh_props sh1)" "?k < length (p_prop ob)" using x(1) x1(1) shape_hashD(4) [of sh1] ln by auto
    have nk: "names sh1 ! ?k = (atom, pr_flags (sh_props sh1 ! ?k))" using k(2) x1(2) by (simp add: names_def)
    have d: "distinct (live_atoms (names sh1))" using 2(14) by (simp add: shape_ok_def)
    let ?vs = "(p_prop ob)[?k := Some (se_undefined V)]" and ?fr = "(pr_flags (sh_props sh ! ?k), p_prop ob ! ?k)"
    let ?ob2 = "?ob\<lparr>p_prop := ?vs\<rparr>"
    let ?s = "upd_sobj p (\<lambda>ob. ob\<lparr>p_prop := (p_prop ob)[?k := Some (se_undefined V)]\<rparr>)
      (unhold (atom_held atom) ((upd_shape c (shape_remove atom l x) s1)\<lparr>freed := freed s1 @ [?fr]\<rparr>))"
    have se: "?s = s1\<lparr>shapes := (shapes s1)(c \<mapsto> ?sh), held := held s1 - atom_held atom, freed := freed s1 @ [?fr], sh_objs := (sh_objs s1)(p \<mapsto> ?ob2)\<rparr>"
      using o1 2(5) by (simp add: upd_sobj_def unhold_def upd_shape_def)
    have hs: "shape_held sh1 \<subseteq># held s1" using 2(3,5) held_sub [of _ "shapes s1" _ "held s1" c sh1] unfolding shapes_inv_def rt_def by blast
    have hh: "held s1 - atom_held atom = held s1 - shape_held sh1 + shape_held ?sh"
    proof -
      obtain R where R: "held s1 = shape_held ?sh + atom_held atom + R" using hs unfolding rm(3) by (metis mset_subset_eq_exists_conv)
      have "shape_held ?sh + atom_held atom + R - atom_held atom = R + shape_held ?sh"
        using add_diff_cancel_right' [of "R + shape_held ?sh" "atom_held atom"] by (simp add: union_ac)
      then show ?thesis unfolding R rm(3) by simp
    qed
    have iv: "shapes_inv E ?s" "sapart p s1 ?s"
      unfolding se by (rule sole_change [OF 2(3) o1 2(6,7), of c ?sh ?ob2]; use rm 2 hh in \<open>simp add: table_same_def\<close>)+
    have "own ((names sh1)[?k := (0, 0)]) ?vs = filter (\<lambda>(c, _). c \<noteq> atom) (own (names sh1) (p_prop ob))"
      by (rule own_remove(1) [OF k(1) ln nk a d])
    then have lks: "look ?s p = Some (h, pr, filter (\<lambda>(c, _). c \<noteq> atom) ps)"
      unfolding se using o rm(2,4) 2(8,9) by (simp add: look_def)
    have fs: "freed ?s = freed s @ [?fr]" "array_shape ?s = array_shape s" unfolding se using 2(16,17) by simp_all
    have ap: "sapart p s ?s" by (rule apart_trans [OF 2(4) iv(2)])
    let ?d = "deleted_prop_count sh1 + 1"
    have df: "delete_found V p atom l x s = (if 8 \<le> ?d \<and> length (sh_props sh1) div 2 \<le> ?d
       then do { (_, s) \<leftarrow> compact_properties V p ?s; Some (1, s) } else Some (1, ?s))"
      unfolding delete_found_def 2(1) Option.bind.bind_lunit prod.case o1 Let_def using 2(5,10) k(2,3) by (simp add: mem_simps)
    show ?thesis
    proof (cases "8 \<le> ?d \<and> length (sh_props sh1) div 2 \<le> ?d")
      case False
      then have "delete_found V p atom l x s = Some (1, ?s)" unfolding df by (simp only: if_False)
      then show ?thesis using iv(1) ap fs lks by blast
    next
      case True
      have c: "sh_objs ?s p = Some ?ob2" "shapes ?s (p_shape ?ob2) = Some ?sh" unfolding se by simp_all
      have "deleted_prop_count ?sh \<le> length (names ?sh)" using rm(1) by (simp add: shape_ok_def)
      then have n: "2 \<le> prop_size ?sh" using True rm(8) shape_hashD(2) [OF rm(1)] by simp
      have "sh_ref_count ?sh = 1" using rm(6) 2(6) by simp
      from compact_properties_ok [OF e iv(1) c this rm(7) n] obtain r s2 where
        s2: "compact_properties V p ?s = Some (r, s2)" "shapes_inv E s2" "sapart p ?s s2" "look s2 p = look ?s p" "freed s2 = freed ?s" "array_shape s2 = array_shape ?s"
        by blast
      have "delete_found V p atom l x s = Some (1, s2)" unfolding df s2(1) using True by (simp only: if_True) simp
      moreover have "look s2 p = Some (h, pr, filter (\<lambda>(c, _). c \<noteq> atom) ps)" "freed s2 = freed s @ [?fr]" "array_shape s2 = array_shape s"
        unfolding s2(4-6) by (rule lks fs)+
      ultimately show ?thesis using s2(2) apart_trans [OF ap s2(3)] by blast
    qed
  qed
qed

end
