(* ===== verification/QShapeArr.thy ===== *)
theory QShapeArr
  imports QShapeDel QAtomNum
begin

text \<open>
  The conversion of a fast array to an object with one property per element, and \<open>delete_property\<close>.
\<close>

section \<open>Adding where there is room\<close>

lemma obj_change:
  assumes i: "shapes_inv E s" and ob: "sh_objs s p = Some ob" and sh: "shapes s (p_shape ob) = Some sh"
    and ob': "p_shape ob' = p_shape ob" "prop_size sh \<le> length (p_prop ob')"
  shows "shapes_inv E (s\<lparr>sh_objs := (sh_objs s)(p \<mapsto> ob')\<rparr>)" "sapart p s (s\<lparr>sh_objs := (sh_objs s)(p \<mapsto> ob')\<rparr>)"
proof -
  have "rt {} (add_mset (p_shape ob) E) (rest p s) s" using rt_detach [of "{}" E "sh_objs s" s p ob] i ob by (simp add: shapes_inv_def)
  then have "rt {} E ((sh_objs s)(p \<mapsto> ob')) s" using rt_attach [of "{}" ob' E "sh_objs s" p s sh] sh ob' by simp
  then show "shapes_inv E (s\<lparr>sh_objs := (sh_objs s)(p \<mapsto> ob')\<rparr>)" by (simp add: shapes_inv_def)
  show "sapart p s (s\<lparr>sh_objs := (sh_objs s)(p \<mapsto> ob')\<rparr>)" by (simp add: sapart_def)
qed

lemma set_value_ok:
  assumes i: "shapes_inv E s" and ob: "sh_objs s p = Some ob" and k: "k < length (p_prop ob)"
    and ob': "ob' = ob\<lparr>p_prop := (p_prop ob)[k := Some v]\<rparr>"
  shows "set_value p k v s = Some (s\<lparr>sh_objs := (sh_objs s)(p \<mapsto> ob')\<rparr>)" "shapes_inv E (s\<lparr>sh_objs := (sh_objs s)(p \<mapsto> ob')\<rparr>)"
    "sapart p s (s\<lparr>sh_objs := (sh_objs s)(p \<mapsto> ob')\<rparr>)"
proof -
  show "set_value p k v s = Some (s\<lparr>sh_objs := (sh_objs s)(p \<mapsto> ob')\<rparr>)"
    using ob k by (simp add: set_value_def mem_simps upd_sobj_def ob')
  obtain sh where sh: "shapes s (p_shape ob) = Some sh" "prop_size sh \<le> length (p_prop ob)" using inv_obj [OF i ob] by metis
  show "shapes_inv E (s\<lparr>sh_objs := (sh_objs s)(p \<mapsto> ob')\<rparr>)" "sapart p s (s\<lparr>sh_objs := (sh_objs s)(p \<mapsto> ob')\<rparr>)"
    using obj_change [OF i ob sh(1), of ob'] sh(2) by (simp_all add: ob')
qed

lemma add_plain:
  assumes i: "shapes_inv E s" and ob: "sh_objs s p = Some ob" and sh: "shapes s (p_shape ob) = Some sh" "\<not> sh_is_hashed sh"
    and at: "atom \<noteq> 0" "atom \<notin> set (live_atoms (names sh))" "flags < 64"
    and n: "length (names sh) < prop_size sh" "length (names sh) + 1 < 2 ^ 26"
  obtains s' sh' where "add_property V p atom flags s = Some (Some (length (names sh)), s')" "shapes_inv E s'" "sapart p s s'"
    "sh_objs s' = sh_objs s" "shapes s' (p_shape ob) = Some sh'" "\<not> sh_is_hashed sh'" "names sh' = names sh @ [(atom, flags)]"
    "sh_proto sh' = sh_proto sh" "prop_size sh' = prop_size sh" "freed s' = freed s" "array_shape s' = array_shape s"
proof -
  let ?a = "p_shape ob" and ?sh = "shape_append atom flags sh"
  let ?s = "hold (atom_held atom) (upd_shape ?a (shape_append atom flags) s)"
  obtain so: "shape_ok sh" "sh_ref_count sh = 1" "prop_size sh \<le> length (p_prop ob)" using inv_obj [OF i ob] sh by (metis option.inject)
  have sh1: "sh = (if sh_is_hashed sh then sh\<lparr>sh_hash := shape_hash (shape_hash (sh_hash sh) (of_nat atom)) (of_nat flags)\<rparr> else sh)" using sh(2) by simp
  note ap = shape_append_ok [OF so(1) at n sh1]
  have nm: "names ?sh = names sh @ [(atom, flags)]" "sh_proto ?sh = sh_proto sh" "prop_size ?sh = prop_size sh" using ap(2) by (simp_all add: sdata_eq)
  have hs: "shape_held sh \<subseteq># held s" using i sh(1) held_sub [of _ "shapes s" _ "held s"] unfolding shapes_inv_def rt_def by blast
  have iv: "shapes_inv E ?s" "sapart p s ?s"
    by (rule sole_change [OF i ob sh(1) so(2) sh(2), of ?a ?sh ob]; use ap so nm sh hs ob in \<open>simp add: hold_def upd_shape_def table_same_def fun_upd_idem\<close>)+
  have "length (sh_props ?sh) = length (names sh) + 1" using arg_cong [OF nm(1), of length] shape_hashD(4) [of ?sh] by simp
  then have "add_property V p atom flags s = Some (Some (length (names sh)), ?s)"
    using ob sh so(2) n(1) shape_hashD(4) [of sh] by (simp add: add_property_def add_shape_property_def hold_def upd_sobj_def upd_shape_def fun_upd_idem)
  moreover have "shapes ?s ?a = Some ?sh" "sh_objs ?s = sh_objs s" "freed ?s = freed s" "array_shape ?s = array_shape s" using sh(1) by (simp_all add: hold_def)
  ultimately show ?thesis using that [of ?s ?sh] iv nm ap(4) sh(2) by simp
qed

section \<open>Elements\<close>

definition array_elems :: "nat \<Rightarrow> 'v list \<Rightarrow> (nat \<times> nat \<times> 'v option) list" where
  "array_elems i vs = map (\<lambda>(j, v). (JSI_AtomFromUInt32 j, JSI_PROP_C_W_E, Some v)) (enumerate i vs)"

lemma C_W_E: "JSI_PROP_C_W_E = 7" by (simp add: JSI_PROP_C_W_E_def JSI_PROP_CONFIGURABLE_def JSI_PROP_WRITABLE_def JSI_PROP_ENUMERABLE_def)

lemma add_elements_ok:
  assumes "shapes_inv E s" and "sh_objs s p = Some ob" and "shapes s (p_shape ob) = Some sh" "\<not> sh_is_hashed sh"
    and "length (names sh) + length vs \<le> prop_size sh" and "length (names sh) + length vs < 2 ^ 26" and "i + length vs \<le> 2 ^ 31"
    and "\<forall>j. i \<le> j \<and> j < i + length vs \<longrightarrow> JSI_AtomFromUInt32 j \<notin> set (live_atoms (names sh))"
  shows "\<exists>s' ob' sh'. add_elements V p i vs s = Some s' \<and> shapes_inv E s' \<and> sapart p s s' \<and> freed s' = freed s \<and> array_shape s' = array_shape s
    \<and> sh_objs s' p = Some ob' \<and> shapes s' (p_shape ob') = Some sh' \<and> ob'\<lparr>p_prop := []\<rparr> = ob\<lparr>p_prop := []\<rparr> \<and> sh_proto sh' = sh_proto sh
    \<and> own (names sh') (p_prop ob') = own (names sh) (p_prop ob) @ array_elems i vs"
  using assms
proof (induction vs arbitrary: i s ob sh)
  case Nil
  then show ?case using apart_refl [of p s] by (auto simp: array_elems_def)
next
  case (Cons v vs)
  let ?at = "JSI_AtomFromUInt32 i" and ?k = "length (names sh)"
  have at: "?at \<noteq> 0" "?at \<notin> set (live_atoms (names sh))" "JSI_PROP_C_W_E < 64" using Cons.prems(7,8) by (simp_all add: tag_or C_W_E)
  have n: "?k < prop_size sh" "?k + 1 < 2 ^ 26" using Cons.prems(5,6) by simp_all
  obtain s1 sh1 where s1: "add_property V p ?at JSI_PROP_C_W_E s = Some (Some ?k, s1)" "shapes_inv E s1" "sapart p s s1"
    "sh_objs s1 = sh_objs s" "shapes s1 (p_shape ob) = Some sh1" "\<not> sh_is_hashed sh1" "names sh1 = names sh @ [(?at, JSI_PROP_C_W_E)]"
    "sh_proto sh1 = sh_proto sh" "prop_size sh1 = prop_size sh" "freed s1 = freed s" "array_shape s1 = array_shape s"
    using add_plain [OF Cons.prems(1-4) at n] .
  have o1: "sh_objs s1 p = Some ob" using s1(4) Cons.prems(2) by simp
  obtain pl: "prop_size sh \<le> length (p_prop ob)" using inv_obj [OF Cons.prems(1,2)] Cons.prems(3) by (metis option.inject)
  then have k: "?k < length (p_prop ob)" using n(1) by simp
  let ?ob = "ob\<lparr>p_prop := (p_prop ob)[?k := Some v]\<rparr>"
  let ?s = "s1\<lparr>sh_objs := (sh_objs s1)(p \<mapsto> ?ob)\<rparr>"
  note sv = set_value_ok [OF s1(2) o1 k refl, of v]
  have o2: "sh_objs ?s p = Some ?ob" "shapes ?s (p_shape ?ob) = Some sh1" using s1(5) by simp_all
  have nj: "JSI_AtomFromUInt32 j \<noteq> ?at" if "i + 1 \<le> j" "j < i + 1 + length vs" for j using that Cons.prems(7) by (simp add: tag_or)
  have "JSI_AtomFromUInt32 j \<notin> set (live_atoms (names sh1))" if j: "i + 1 \<le> j \<and> j < i + 1 + length vs" for j
  proof -
    have "JSI_AtomFromUInt32 j \<notin> set (live_atoms (names sh))" using Cons.prems(8) j by simp
    then show ?thesis using nj [of j] j unfolding s1(7) by (simp add: live_atoms_def)
  qed
  then obtain s2 ob2 sh2 where s2: "add_elements V p (i + 1) vs ?s = Some s2" "shapes_inv E s2" "sapart p ?s s2" "freed s2 = freed ?s" "array_shape s2 = array_shape ?s"
    "sh_objs s2 p = Some ob2" "shapes s2 (p_shape ob2) = Some sh2" "ob2\<lparr>p_prop := []\<rparr> = ?ob\<lparr>p_prop := []\<rparr>" "sh_proto sh2 = sh_proto sh1"
    "own (names sh2) (p_prop ob2) = own (names sh1) (p_prop ?ob) @ array_elems (i + 1) vs"
    using Cons.IH [OF sv(2) o2 s1(6), of "i + 1"] Cons.prems(5-7) s1(7,9) by auto
  have "own (names sh1) (p_prop ?ob) = own (names sh) (p_prop ob) @ [(?at, JSI_PROP_C_W_E, Some v)]"
    using own_snoc [of "names sh" "p_prop ?ob" ?at "p_prop ob"] k at(1) s1(7) by simp
  then have "own (names sh2) (p_prop ob2) = own (names sh) (p_prop ob) @ array_elems i (v # vs)" using s2(10) by (simp add: array_elems_def)
  moreover have "add_elements V p i (v # vs) s = Some s2" using s1(1) sv(1) s2(1) by simp
  moreover have "sapart p s s2" using apart_trans [OF apart_trans [OF s1(3) sv(3)] s2(3)] .
  ultimately show ?case using s2(2,4-9) s1(8,10,11) by (intro exI [of _ s2] exI [of _ ob2] exI [of _ sh2]) simp
qed

section \<open>Conversion of a fast array\<close>

lemma resize_sole:
  assumes e: "env_ok V" and i: "shapes_inv E s" and ob: "sh_objs s p = Some ob" and sh: "shapes s (p_shape ob) = Some sh" "\<not> sh_is_hashed sh"
    and n: "length (names sh) \<le> n"
  obtains r b s1 ob' sh' where "(if prop_size sh < n then resize_properties V (p_shape ob) (Some p) n s else Some (0, p_shape ob, s)) = Some (r, b, s1)"
    "shapes_inv E (upd_sobj p (\<lambda>ob. ob\<lparr>p_shape := b\<rparr>) s1)" "sapart p s (upd_sobj p (\<lambda>ob. ob\<lparr>p_shape := b\<rparr>) s1)"
    "sh_objs (upd_sobj p (\<lambda>ob. ob\<lparr>p_shape := b\<rparr>) s1) p = Some ob'" "shapes s1 b = Some sh'" "p_shape ob' = b"
    "ob'\<lparr>p_shape := 0, p_prop := []\<rparr> = ob\<lparr>p_shape := 0, p_prop := []\<rparr>" "names sh' = names sh" "sh_proto sh' = sh_proto sh" "\<not> sh_is_hashed sh'"
    "own (names sh) (p_prop ob') = own (names sh) (p_prop ob)" "r = 0 \<and> n \<le> prop_size sh' \<or> r = -1" "freed s1 = freed s" "array_shape s1 = array_shape s"
proof (cases "prop_size sh < n")
  case False
  have "upd_sobj p (\<lambda>x. x\<lparr>p_shape := p_shape ob\<rparr>) s = s" using ob by (simp add: upd_sobj_def fun_upd_idem)
  then show ?thesis using that [of 0 "p_shape ob" s ob sh] False i ob sh apart_refl [of p s] by simp
next
  case True
  obtain pl: "prop_size sh \<le> length (p_prop ob)" "shape_ok sh" "sh_ref_count sh = 1" using inv_obj [OF i ob] sh by (metis option.inject)
  have cut: "own (names sh) us = own (names sh) (p_prop ob)" if "take (length (names sh)) us = take (length (names sh)) (p_prop ob)" for us
    using own_take [of "names sh" us] own_take [of "names sh" "p_prop ob"] that by simp
  show ?thesis
  proof (cases rule: resize_props_ok [OF e sh(1) pl(2) ob pl(1) n])
    case (1 vs)
    let ?ob = "ob\<lparr>p_prop := vs\<rparr>"
    let ?s = "s\<lparr>sh_objs := (sh_objs s)(p \<mapsto> ?ob)\<rparr>"
    have u: "upd_sobj p (\<lambda>x. x\<lparr>p_shape := p_shape ob\<rparr>) ?s = ?s" by (simp add: upd_sobj_def)
    note oc = obj_change [OF i ob sh(1), of ?ob]
    show ?thesis by (rule that [of "-1" "p_shape ob" ?s ?ob sh], unfold u) (use True 1 sh oc cut [OF 1(3)] in simp_all)
  next
    case (2 b vs sh')
    let ?ob = "ob\<lparr>p_prop := vs, p_shape := b\<rparr>"
    let ?s = "s\<lparr>sh_objs := (sh_objs s)(p \<mapsto> ob\<lparr>p_prop := vs\<rparr>), shapes := (shapes s)(p_shape ob := None, b \<mapsto> sh')\<rparr>"
    have u: "upd_sobj p (\<lambda>x. x\<lparr>p_shape := b\<rparr>) ?s = s\<lparr>sh_objs := (sh_objs s)(p \<mapsto> ?ob), shapes := (shapes s)(p_shape ob := None, b \<mapsto> sh')\<rparr>"
      by (simp add: upd_sobj_def)
    have nm: "names sh' = names sh" "sh_proto sh' = sh_proto sh" "prop_size sh' = length vs" using 2(5) by (simp_all add: sdata_eq)
    have hs: "shape_held sh \<subseteq># held s" using i sh(1) held_sub [of _ "shapes s" _ "held s"] unfolding shapes_inv_def rt_def by blast
    have iv: "shapes_inv E (upd_sobj p (\<lambda>x. x\<lparr>p_shape := b\<rparr>) ?s)" "sapart p s (upd_sobj p (\<lambda>x. x\<lparr>p_shape := b\<rparr>) ?s)"
      unfolding u by (rule sole_change [OF i ob sh(1) pl(3) sh(2), of b sh' ?ob]; use 2 pl(3) sh(2) nm hs names_held [OF nm(1,2)] in \<open>simp add: table_same_def\<close>)+
    show ?thesis by (rule that [of 0 b ?s ?ob sh']) (use True 2 sh(2) nm iv cut [OF 2(7)] in \<open>simp_all add: upd_sobj_def\<close>)
  qed
qed

lemma convert_ok:
  assumes e: "env_ok V" and i: "shapes_inv E s" and l: "look s p = Some (h, pr, ps)" and v: "p_values h = Some vs"
    and rm: "room s p (length vs)" and d: "\<forall>j < length vs. JSI_AtomFromUInt32 j \<notin> fst ` set ps"
  shows "\<exists>r s'. convert_fast_array_to_array V p s = Some (r, s') \<and> shapes_inv E s' \<and> sapart p s s' \<and> freed s' = freed s \<and> array_shape s' = array_shape s
    \<and> (r = 0 \<and> look s' p = Some (h\<lparr>p_values := Some [], p_fast_array := False\<rparr>, pr, ps @ array_elems 0 vs) \<or> r = -1 \<and> look s' p = look s p)"
proof -
  obtain ob sh where o: "sh_objs s p = Some ob" "shapes s (p_shape ob) = Some sh" "h = ob\<lparr>p_shape := 0, p_prop := []\<rparr>" "pr = sh_proto sh"
    "ps = own (names sh) (p_prop ob)" using lookE [OF l] .
  obtain pl: "length (names sh) \<le> length (p_prop ob)" using inv_obj [OF i o(1)] o(2) by (metis option.inject)
  have dn: "\<forall>j < length vs. JSI_AtomFromUInt32 j \<notin> set (live_atoms (names sh))" using d own_live [OF pl] unfolding o(5) by (metis set_map)
  have n: "length (names sh) + length vs < 2 ^ 26" using rm o(1,2) by (simp add: room_def)
  have pv: "p_values ob = Some vs" using v o(3) by simp
  show ?thesis
  proof (cases rule: prepared [OF e i o(1,2)])
    case 1
    then show ?thesis using i apart_refl [of p s] by (simp add: convert_fast_array_to_array_def)
  next
    case (2 b s1 sh1)
    let ?ob = "ob\<lparr>p_shape := b\<rparr>" and ?n = "length (sh_props sh1) + length vs"
    have o1: "sh_objs s1 p = Some ?ob" "shapes s1 (p_shape ?ob) = Some sh1" using 2(2,5) by simp_all
    have n1: "length (names sh1) \<le> ?n" using shape_hashD(4) [of sh1] by simp
    obtain r c s2 ob2 sh2 where q: "(if prop_size sh1 < ?n then resize_properties V (p_shape ?ob) (Some p) ?n s1 else Some (0, p_shape ?ob, s1)) = Some (r, c, s2)"
      "shapes_inv E (upd_sobj p (\<lambda>ob. ob\<lparr>p_shape := c\<rparr>) s2)" "sapart p s1 (upd_sobj p (\<lambda>ob. ob\<lparr>p_shape := c\<rparr>) s2)"
      "sh_objs (upd_sobj p (\<lambda>ob. ob\<lparr>p_shape := c\<rparr>) s2) p = Some ob2" "shapes s2 c = Some sh2" "p_shape ob2 = c"
      "ob2\<lparr>p_shape := 0, p_prop := []\<rparr> = ?ob\<lparr>p_shape := 0, p_prop := []\<rparr>" "names sh2 = names sh1" "sh_proto sh2 = sh_proto sh1" "\<not> sh_is_hashed sh2"
      "own (names sh1) (p_prop ob2) = own (names sh1) (p_prop ?ob)" "r = 0 \<and> ?n \<le> prop_size sh2 \<or> r = -1" "freed s2 = freed s1" "array_shape s2 = array_shape s1"
      using resize_sole [OF e 2(3) o1 2(7) n1] .
    let ?s = "upd_sobj p (\<lambda>ob. ob\<lparr>p_shape := c\<rparr>) s2"
    have fs: "shapes ?s = shapes s2" "freed ?s = freed s" "array_shape ?s = array_shape s" using q(13,14) 2(16,17) by (simp_all add: upd_sobj_def)
    have s2': "shapes ?s (p_shape ob2) = Some sh2" using q(5,6) fs(1) by simp
    have hd: "ob2\<lparr>p_shape := 0, p_prop := []\<rparr> = h" using q(7) o(3) by simp
    have ap: "sapart p s ?s" by (rule apart_trans [OF 2(4) q(3)])
    have lk: "look ?s p = Some (h, pr, ps)" using q(4,8,9,11) s2' hd o(4,5) 2(8,9) by (simp add: look_def)
    have cv: "convert_fast_array_to_array V p s = (if r \<noteq> 0 then Some (-1, ?s) else do {
         s \<leftarrow> add_elements V p 0 vs ?s;
         Some (0, upd_sobj p (\<lambda>ob. ob\<lparr>p_values := Some [], p_fast_array := False\<rparr>) s) })"
      unfolding convert_fast_array_to_array_def 2(1) Option.bind.bind_lunit prod.case o1(1)
      using o1(2) pv q(1) by (simp add: Let_def)
    show ?thesis
    proof (cases "r = 0")
      case False
      then have "r = -1" using q(12) by blast
      then have "convert_fast_array_to_array V p s = Some (-1, ?s)" using cv by simp
      moreover have "look ?s p = look s p" using lk l by simp
      ultimately show ?thesis using q(2) ap fs(2,3) by blast
    next
      case True
      have pre: "length (names sh2) + length vs \<le> prop_size sh2" "length (names sh2) + length vs < 2 ^ 26" "0 + length vs \<le> 2 ^ 31"
        "\<forall>j. 0 \<le> j \<and> j < 0 + length vs \<longrightarrow> JSI_AtomFromUInt32 j \<notin> set (live_atoms (names sh2))"
        using q(8,12) 2(8) n dn True shape_hashD(4) [of sh1] by auto
      obtain s3 ob3 sh3 where s3: "add_elements V p 0 vs ?s = Some s3" "shapes_inv E s3" "sapart p ?s s3" "freed s3 = freed ?s" "array_shape s3 = array_shape ?s"
        "sh_objs s3 p = Some ob3" "shapes s3 (p_shape ob3) = Some sh3" "ob3\<lparr>p_prop := []\<rparr> = ob2\<lparr>p_prop := []\<rparr>" "sh_proto sh3 = sh_proto sh2"
        "own (names sh3) (p_prop ob3) = own (names sh2) (p_prop ob2) @ array_elems 0 vs"
        using add_elements_ok [OF q(2,4) s2' q(10) pre, of V] by blast
      let ?ob3 = "ob3\<lparr>p_values := Some [], p_fast_array := False\<rparr>"
      let ?s3 = "upd_sobj p (\<lambda>ob. ob\<lparr>p_values := Some [], p_fast_array := False\<rparr>) s3"
      have u: "?s3 = s3\<lparr>sh_objs := (sh_objs s3)(p \<mapsto> ?ob3)\<rparr>" by (rule upd_sobj_eq [OF s3(6)])
      obtain pl3: "prop_size sh3 \<le> length (p_prop ob3)" using inv_obj [OF s3(2,6)] s3(7) by (metis option.inject)
      have oc: "shapes_inv E ?s3" "sapart p s3 ?s3" unfolding u using obj_change [OF s3(2,6,7), of ?ob3] pl3 by simp_all
      have "ob3\<lparr>p_shape := 0, p_prop := []\<rparr> = (ob3\<lparr>p_prop := []\<rparr>)\<lparr>p_shape := 0\<rparr>" by simp
      also have "\<dots> = (ob2\<lparr>p_prop := []\<rparr>)\<lparr>p_shape := 0\<rparr>" by (simp only: s3(8))
      also have "\<dots> = ob2\<lparr>p_shape := 0, p_prop := []\<rparr>" by simp
      also have "\<dots> = h" by (rule hd)
      finally have "?ob3\<lparr>p_shape := 0, p_prop := []\<rparr> = h\<lparr>p_values := Some [], p_fast_array := False\<rparr>" by auto
      then have "look ?s3 p = Some (h\<lparr>p_values := Some [], p_fast_array := False\<rparr>, pr, ps @ array_elems 0 vs)"
        unfolding u using s3(7,9,10) q(8,9,11) 2(8,9) o(4,5) by (simp add: look_def)
      moreover have "convert_fast_array_to_array V p s = Some (0, ?s3)" using cv True s3(1) by simp
      moreover have "freed ?s3 = freed s" "array_shape ?s3 = array_shape s" unfolding u using s3(4,5) fs by simp_all
      moreover have "sapart p s ?s3" by (rule apart_trans [OF apart_trans [OF ap s3(3)] oc(2)])
      ultimately show ?thesis using oc(1) by blast
    qed
  qed
qed

section \<open>Removal\<close>

text \<open>What \<open>delete_property\<close> does with a property that the object has, and with one it does not have.\<close>

definition deleted :: "nat multiset \<Rightarrow> nat \<Rightarrow> nat \<Rightarrow> 'v shape_rt \<Rightarrow> int \<Rightarrow> 'v shape_rt \<Rightarrow> bool" where
  "deleted E p atom s r s' \<longleftrightarrow> shapes_inv E s' \<and> sapart p s s' \<and> array_shape s' = array_shape s
     \<and> (\<exists>h pr ps f v. look s p = Some (h, pr, ps) \<and> map_of ps atom = Some (f, v)
        \<and> (f AND JSI_PROP_CONFIGURABLE = 0 \<and> r = 0 \<and> s' = s
           \<or> f AND JSI_PROP_CONFIGURABLE \<noteq> 0 \<and> r = 1 \<and> look s' p = Some (h, pr, filter (\<lambda>(c, _). c \<noteq> atom) ps) \<and> freed s' = freed s @ [(f, v)]
           \<or> f AND JSI_PROP_CONFIGURABLE \<noteq> 0 \<and> r = -1 \<and> s' = s))"

lemma delete_own_ok:
  assumes e: "env_ok V" and i: "shapes_inv E s" and l: "look s p = Some (h, pr, ps)" and a: "atom \<noteq> 0" and m: "map_of ps atom \<noteq> None"
  shows "\<exists>r s'. delete_property V ar p atom s = Some (r, s') \<and> deleted E p atom s r s'"
proof -
  obtain ob sh where o: "sh_objs s p = Some ob" "shapes s (p_shape ob) = Some sh" "ps = own (names sh) (p_prop ob)" using lookE [OF l] by metis
  obtain pl: "shape_ok sh" "length (names sh) \<le> length (p_prop ob)" using inv_obj [OF i o(1)] o(2) by (metis option.inject)
  have d: "distinct (live_atoms (names sh))" using pl(1) by (simp add: shape_ok_def)
  show ?thesis
  proof (cases rule: shape_find_ok [OF shape_hashD(1) [OF pl(1)] a])
    case (1 l)
    then have "atom \<notin> set (live_atoms (names sh))" by (auto simp: live_atoms_def names_def)
    then show ?thesis using m own_absent [OF pl(2)] o(3) by simp
  next
    case (2 lp x us ws)
    let ?q = "sh_props sh ! (x - 1)" and ?v = "p_prop ob ! (x - 1)"
    have x: "x - 1 < length (sh_props sh)" using 2(2,3) by simp
    have mo: "map_of ps atom = Some (pr_flags ?q, ?v)"
      unfolding o(3) by (rule own_map_of [OF _ _ a pl(2) d]) (use x 2(4) shape_hashD(4) [of sh] in \<open>simp_all add: names_def\<close>)
    have dp: "delete_property V ar p atom s = (if pr_flags ?q AND JSI_PROP_CONFIGURABLE = 0 then Some (0, s) else delete_found V p atom lp x s)"
      using o(1,2) 2(1,2) x by (subst delete_property.simps) (simp add: mem_simps)
    show ?thesis
    proof (cases "pr_flags ?q AND JSI_PROP_CONFIGURABLE = 0")
      case True
      then show ?thesis using dp i l mo apart_refl [of p s] by (auto simp: deleted_def)
    next
      case False
      obtain r s' where "delete_found V p atom lp x s = Some (r, s')" "shapes_inv E s'" "sapart p s s'" "array_shape s' = array_shape s"
        "r = 1 \<and> look s' p = Some (h, pr, filter (\<lambda>(c, _). c \<noteq> atom) ps) \<and> freed s' = freed s @ [(pr_flags ?q, ?v)] \<or> r = -1 \<and> s' = s"
        using delete_found_ok [OF e i o(1,2) 2(2-4) a 2(5,6) l] by blast
      then show ?thesis using dp False l mo unfolding deleted_def by (intro exI [of _ r] exI [of _ s'] conjI) auto
    qed
  qed
qed

lemma delete_absent:
  assumes i: "shapes_inv E s" and l: "look s p = Some (h, pr, ps)" and a: "atom \<noteq> 0" and m: "map_of ps atom = None"
    and o: "sh_objs s p = Some ob"
  shows "delete_property V ar p atom s =
    (if \<not> p_is_exotic ob then Some (1, s)
     else if p_fast_array ob then do {
       idx \<leftarrow> JSI_AtomIsArrayIndex ar atom;
       (case idx of
          None \<Rightarrow> Some (1, s)
        | Some idx \<Rightarrow> do {
            vs \<leftarrow> p_values ob;
            if \<not> idx < length vs then Some (1, s)
            else if p_class_id ob = JSI_CLASS_ARRAY \<or> p_class_id ob = JSI_CLASS_ARGUMENTS then
              if idx = length vs - 1 then
                Some (1, upd_sobj p (\<lambda>ob. ob\<lparr>p_values := Some (butlast vs)\<rparr>) (s\<lparr>freed := freed s @ [(0, Some (vs ! idx))]\<rparr>))
              else do {
                (r, s) \<leftarrow> convert_fast_array_to_array V p s;
                if r \<noteq> 0 then Some (-1, s) else delete_property V ar p atom s }
            else Some (0, s) }) }
     else (case se_delete V (p_class_id ob) of None \<Rightarrow> Some (1, s) | Some f \<Rightarrow> f p atom s))"
proof -
  obtain sh where sh: "shapes s (p_shape ob) = Some sh" "shape_ok sh" "length (names sh) \<le> length (p_prop ob)" using inv_obj [OF i o] by metis
  have ps: "ps = own (names sh) (p_prop ob)" using l o sh(1) by (simp add: look_def)
  have d: "distinct (live_atoms (names sh))" using sh(2) by (simp add: shape_ok_def)
  have "\<exists>lp. shape_find sh atom = Some (lp, 0)"
  proof (cases rule: shape_find_ok [OF shape_hashD(1) [OF sh(2)] a])
    case (2 lp x us ws)
    have "x - 1 < length (sh_props sh)" using 2(2,3) by simp
    then have "map_of ps atom = Some (pr_flags (sh_props sh ! (x - 1)), p_prop ob ! (x - 1))"
      unfolding ps by (intro own_map_of [OF _ _ a sh(3) d]) (use 2(4) shape_hashD(4) [of sh] in \<open>simp_all add: names_def\<close>)
    then show ?thesis using m by simp
  qed blast
  then obtain lp where "shape_find sh atom = Some (lp, 0)" by blast
  then show ?thesis using o sh(1) by (subst delete_property.simps) (simp del: delete_property.simps)
qed

end
