(* ===== verification/QShapeNew.thy ===== *)
theory QShapeNew
  imports QShapeArr
begin

text \<open>
  New objects and the end of objects.
\<close>

section \<open>The first state\<close>

lemma init_ok:
  assumes "shapes s = Map.empty" and "sh_objs s = Map.empty" and "held s = {#}" and "se_table V 16"
  shows "fst (init_shape_hash V s) = 0" "shapes_inv {#} (snd (init_shape_hash V s))" "sh_objs (snd (init_shape_hash V s)) = Map.empty"
proof -
  let ?s = "s\<lparr>shape_hash_bits := 4, shape_hash_count := 0, shape_tab := replicate (2 ^ 4) 0\<rparr>"
  have e: "init_shape_hash V s = (0, ?s)" using assms(4) by (simp add: init_shape_hash_def)
  have "in_bucket {} ?s c = {}" "all_hashed {} ?s = {}" for c using assms(1) by (auto simp: in_bucket_def all_hashed_def)
  then have "tab_ok {} ?s" using assms(1) by (simp add: tab_ok_def del: replicate.simps)
  moreover have "body {#} (shapes ?s) (sh_objs ?s) (held ?s)" using assms(1-3) by (simp add: body_def owners_def heldm_def)
  ultimately have "shapes_inv {#} ?s" by (simp add: shapes_inv_def rt_def)
  then show "fst (init_shape_hash V s) = 0" "shapes_inv {#} (snd (init_shape_hash V s))" "sh_objs (snd (init_shape_hash V s)) = Map.empty"
    unfolding e using assms(2) by simp_all
qed

text \<open>When there are no objects and no other references, there are no shapes, and nothing is held.\<close>

lemma no_leak:
  assumes i: "shapes_inv {#} s" and o: "sh_objs s = Map.empty"
  shows "shapes s = Map.empty" "held s = {#}" "shape_hash_count s = 0"
proof -
  have r: "rt {} {#} Map.empty s" using i o by (simp add: shapes_inv_def)
  have "shapes s a = None" for a using rt_cell [OF r, of a] by (cases "shapes s a") (auto simp: owners_def)
  then show e: "shapes s = Map.empty" by blast
  show "held s = {#}" using r e by (simp add: rt_def body_def heldm_def)
  have "shape_hash_count s = card (all_hashed {} s)" using r tab_okD(5) [of "{}" s] by (simp add: rt_def)
  then show "shape_hash_count s = 0" using e by (simp add: all_hashed_def)
qed

section \<open>New objects\<close>

definition new_obj :: "'v shape_env \<Rightarrow> nat \<Rightarrow> 'v sh_obj" where
  "new_obj V class_id = \<lparr>p_class_id = class_id, p_is_exotic = (class_id = JSI_CLASS_ARGUMENTS \<or> class_id \<noteq> 1 \<and> se_exotic V class_id),
     p_fast_array = (class_id = JSI_CLASS_ARGUMENTS), p_shape = 0, p_prop = [], p_values = None\<rparr>"

lemma from_shape_ok:
  assumes e: "env_ok V" and r: "rt {} (add_mset a E) (sh_objs s) s" and c: "class_id \<noteq> JSI_CLASS_ARRAY" "class_id \<noteq> JSI_CLASS_C_FUNCTION"
    and sh: "shapes s a = Some sh" "names sh = []"
  obtains (fail) s' where "JSI_NewObjectFromShape V a class_id s = Some (None, s')" "shapes_inv E s'" "sh_objs s' = sh_objs s"
      "\<And>p. sh_objs s p = None \<Longrightarrow> sapart p s s'"
  | (ok) p s' where "JSI_NewObjectFromShape V a class_id s = Some (Some p, s')" "shapes_inv E s'" "sapart p s s'" "sh_objs s p = None"
      "look s' p = Some (new_obj V class_id, sh_proto sh, [])" "\<forall>n < 2 ^ 26. room s' p n"
proof (cases "\<exists>p. se_object V s = Some p \<and> se_props V (prop_size sh)")
  case True
  then obtain p where p: "se_object V s = Some p" "se_props V (prop_size sh)" by blast
  have np: "sh_objs s p = None" using e p(1) by (simp add: env_ok_def)
  let ?ob = "(new_obj V class_id)\<lparr>p_shape := a, p_prop := replicate (prop_size sh) None\<rparr>"
  let ?s = "s\<lparr>sh_objs := (sh_objs s)(p \<mapsto> ?ob)\<rparr>"
  have "rt {} (add_mset (p_shape ?ob) E) ((sh_objs s)(p := None)) s" using r np by (simp add: fun_upd_idem)
  then have "rt {} E ((sh_objs s)(p \<mapsto> ?ob)) s" by (rule rt_attach [where sh = sh]) (use sh in simp_all)
  then have "shapes_inv E ?s" by (simp add: shapes_inv_def)
  moreover have "sapart p s ?s" by (simp add: sapart_def)
  moreover have "JSI_NewObjectFromShape V a class_id s = Some (Some p, ?s)"
    using sh(1) p c by (auto simp: JSI_NewObjectFromShape_def new_obj_def Let_def)
  moreover have "look ?s p = Some (new_obj V class_id, sh_proto sh, [])" using sh by (simp add: look_def own_def new_obj_def)
  moreover have "\<forall>n < 2 ^ 26. room ?s p n" using sh by (simp add: room_def)
  ultimately show ?thesis using ok [of p ?s] np by simp
next
  case False
  obtain s' where s': "shape_free a s = Some s'" "rt {} E (sh_objs s) s'" "sframe (if a \<in># owners (sh_objs s) + E then {} else {a}) s s'"
    using free_ok [OF r] by blast
  have o: "sh_objs s' = sh_objs s" using s'(3) by (simp add: sframe_def)
  have "JSI_NewObjectFromShape V a class_id s = Some (None, s')"
    using sh(1) s'(1) False by (auto simp: JSI_NewObjectFromShape_def split: option.splits)
  moreover have "shapes_inv E s'" using s'(2) o by (simp add: shapes_inv_def)
  moreover have "sapart p s s'" if p: "sh_objs s p = None" for p
  proof (rule frame_apart)
    show "sframe (if a \<in># owners (sh_objs s) + E then {} else {a}) (s\<lparr>sh_objs := sh_objs s'\<rparr>) s'" using s'(3) o by simp
    show "rest p s' = rest p s" using o by simp
    show "(if a \<in># owners (sh_objs s) + E then {} else {a}) \<inter> set_mset (owners (rest p s)) = {}" using p by (auto simp: fun_upd_idem)
  qed
  ultimately show ?thesis using fail o by blast
qed

lemma new_sobj_ok:
  assumes e: "env_ok V" and i: "shapes_inv E s" and c: "class_id \<noteq> JSI_CLASS_ARRAY" "class_id \<noteq> JSI_CLASS_C_FUNCTION" and b: "shape_hash_bits s < 30"
  obtains (fail) s' where "JSI_NewObjectProtoClass V proto class_id s = Some (None, s')" "shapes_inv E s'" "sh_objs s' = sh_objs s"
      "\<And>p. sh_objs s p = None \<Longrightarrow> sapart p s s'"
  | (ok) p s' where "JSI_NewObjectProtoClass V proto class_id s = Some (Some p, s')" "shapes_inv E s'" "sapart p s s'" "sh_objs s p = None"
      "look s' p = Some (new_obj V class_id, proto, [])" "\<forall>n < 2 ^ 26. room s' p n"
proof -
  have r: "rt {} E (sh_objs s) s" using i by (simp add: shapes_inv_def)
  obtain f where f: "find_hashed_shape_proto proto s = Some f"
    "\<And>a. f = Some a \<Longrightarrow> \<exists>sh. shapes s a = Some sh \<and> sh_is_hashed sh \<and> names sh = [] \<and> sh_proto sh = proto" using find_proto_ok [OF r] by blast
  have go: thesis if q: "JSI_NewObjectProtoClass V proto class_id s = JSI_NewObjectFromShape V a class_id s1" "rt {} (add_mset a E) (sh_objs s) s1"
    "sframe A s s1" "\<And>p. sh_objs s p = None \<Longrightarrow> A \<inter> set_mset (owners (rest p s)) = {}" "shapes s1 a = Some sh1" "names sh1 = []" "sh_proto sh1 = proto" for a A s1 sh1
  proof -
    have o1: "sh_objs s1 = sh_objs s" using q(3) by (simp add: sframe_def)
    have ap: "sapart p s s1" if "sh_objs s p = None" for p
      by (rule frame_apart [of A]) (use q(3) q(4) [OF that] o1 in simp_all)
    have r1: "rt {} (add_mset a E) (sh_objs s1) s1" using q(2) o1 by simp
    show thesis
    proof (cases rule: from_shape_ok [OF e r1 c q(5,6)])
      case (1 s')
      have "sapart p s s'" if "sh_objs s p = None" for p using apart_trans [OF ap [OF that]] 1(4) [of p] that o1 by simp
      then show ?thesis using fail [of s'] 1 q(1) o1 by simp
    next
      case (2 p s')
      then show ?thesis using ok [of p s'] q(1,7) apart_trans [OF ap [of p] 2(3)] o1 by simp
    qed
  qed
  show thesis
  proof (cases f)
    case (Some a)
    obtain sh where sh: "shapes s a = Some sh" "sh_is_hashed sh" "names sh = []" "sh_proto sh = proto" using f(2) [OF Some] by blast
    obtain s1 where s1: "jsi_dup_shape a s = Some s1" "rt {} (add_mset a E) (sh_objs s) s1" "sframe {} s s1" using dup_ok [OF r sh(1,2)] by blast
    have "map_option bare (shapes s1 a) = Some (bare sh)" using s1(3) sh(1) by (simp add: sframe_def)
    then obtain sh1 where sh1: "shapes s1 a = Some sh1" "bare sh1 = bare sh" by auto
    show thesis by (rule go [OF _ s1(2,3) _ sh1(1)]) (use f(1) Some s1(1) sh bareD(7,8) [OF sh1(2)] in \<open>simp_all add: JSI_NewObjectProtoClass_def\<close>)
  next
    case None
    have h: "JSI_PROP_INITIAL_HASH_SIZE = 2 ^ 2" by (simp add: JSI_PROP_INITIAL_HASH_SIZE_def)
    show thesis
    proof (cases rule: new_shape_ok [OF e r h b, of proto JSI_PROP_INITIAL_SIZE])
      case (1 s')
      have o1: "sh_objs s' = sh_objs s" using 1(3) by (simp add: sframe_def)
      have "sapart p s s'" for p by (rule frame_apart [of "{}"]) (use 1(3) o1 in simp_all)
      then show ?thesis using fail [of s'] 1 o1 f(1) None by (simp add: JSI_NewObjectProtoClass_def jsi_new_shape_def shapes_inv_def)
    next
      case (2 a s' sh)
      have na: "{a} \<inter> set_mset (owners (rest p s)) = {}" for p using fresh_not_owned(1) [OF i 2(3)] by simp
      show ?thesis by (rule go [OF _ 2(4,5) _ 2(6)])
        (use 2(1,7) na f(1) None in \<open>simp_all add: JSI_NewObjectProtoClass_def jsi_new_shape_def sdata_eq\<close>)
    qed
  qed
qed

section \<open>The end of an object\<close>

lemma free_sobj_ok:
  assumes i: "shapes_inv E s" and ob: "sh_objs s p = Some ob" and sh: "shapes s (p_shape ob) = Some sh"
  obtains s' where "free_sobj p s = (if p_class_id ob = JSI_CLASS_ARRAY \<or> p_class_id ob = JSI_CLASS_ARGUMENTS
      then map_option (\<lambda>ws. s'\<lparr>freed := freed s' @ map (\<lambda>w. (0, Some w)) ws\<rparr>) (p_values ob) else Some s')"
    "shapes_inv E s'" "sapart p s s'" "sh_objs s' p = None" "freed s' = freed s @ zip (map snd (names sh)) (p_prop ob)"
proof -
  let ?a = "p_shape ob" and ?fr = "freed s @ zip (map snd (names sh)) (p_prop ob)"
  obtain pl: "length (names sh) \<le> length (p_prop ob)" using inv_obj [OF i ob] sh by (metis option.inject)
  have z: "mem_slice (p_prop ob) 0 (length (sh_props sh)) = Some (take (length (names sh)) (p_prop ob))"
    using pl shape_hashD(4) [of sh] by (simp add: mem_simps)
  have fl: "map pr_flags (sh_props sh) = map snd (names sh)" by (simp add: names_def)
  have zz: "zip (map pr_flags (sh_props sh)) (take (length (names sh)) (p_prop ob)) = zip (map snd (names sh)) (p_prop ob)"
    unfolding fl using zip_take_length [of "map snd (names sh)" "p_prop ob"] by simp
  have r: "rt {} (add_mset ?a E) (rest p s) (s\<lparr>freed := ?fr\<rparr>)" using rt_detach [of "{}" E "sh_objs s" s p ob] i ob by (simp add: shapes_inv_def)
  obtain s1 where s1: "shape_free ?a (s\<lparr>freed := ?fr\<rparr>) = Some s1" "rt {} E (rest p s) s1"
    "sframe (if ?a \<in># owners (rest p s) + E then {} else {?a}) (s\<lparr>freed := ?fr\<rparr>) s1" using free_ok [OF r] by blast
  let ?s = "s1\<lparr>sh_objs := (sh_objs s1)(p := None)\<rparr>"
  have o: "sh_objs s1 = sh_objs s" "freed s1 = ?fr" using s1(3) by (simp_all add: sframe_def)
  have "free_sobj p s = (if p_class_id ob = JSI_CLASS_ARRAY \<or> p_class_id ob = JSI_CLASS_ARGUMENTS
      then map_option (\<lambda>ws. ?s\<lparr>freed := freed ?s @ map (\<lambda>w. (0, Some w)) ws\<rparr>) (p_values ob) else Some ?s)"
    unfolding free_sobj_def ob sh Option.bind.bind_lunit z Let_def zz s1(1) by (cases "p_values ob") simp_all
  moreover have "shapes_inv E ?s" using s1(2) o by (simp add: shapes_inv_def)
  moreover have "sapart p s ?s"
  proof -
    have "map_option bare (shapes s1 c) = map_option bare (shapes s c)" if "c \<in># owners (rest p s)" for c
    proof -
      have "c \<notin> (if ?a \<in># owners (rest p s) + E then {} else {?a})" using that by auto
      then show ?thesis using s1(3) by (simp only: sframe_def) simp
    qed
    then show ?thesis using o by (simp add: sapart_def)
  qed
  ultimately show ?thesis using that [of ?s] o(2) by simp
qed

end
