(* ===== verification/QShapeWhole.thy ===== *)
theory QShapeWhole
  imports QShapeNew QAtomIntern
begin

text \<open>
  The own properties of an object together with the elements of a fast array, and \<open>delete_property\<close> on
  them: it removes exactly the property it is asked to, also when the array has to be converted first.
\<close>

definition isolated :: "nat \<Rightarrow> 'v shape_rt \<Rightarrow> 'v shape_rt \<Rightarrow> bool" where
  "isolated p s s' \<longleftrightarrow> (\<forall>q. q \<noteq> p \<longrightarrow> look s' q = look s q)"

lemma inv_finite: "shapes_inv E s \<Longrightarrow> finite (dom (sh_objs s))"
  by (simp add: shapes_inv_def rt_def body_def)

lemma apart_isolated: "shapes_inv E s \<Longrightarrow> sapart p s s' \<Longrightarrow> isolated p s s'"
  unfolding isolated_def using apart_look inv_finite by blast

section \<open>Elements and properties together\<close>

text \<open>The own properties of an object, with the elements of a fast array as properties.\<close>

fun whole :: "'v sh_obj \<times> nat \<times> (nat \<times> nat \<times> 'v option) list \<Rightarrow> (nat \<times> nat \<times> 'v option) list" where
  "whole (h, pr, ps) = ps @ (if p_fast_array h then (case p_values h of None \<Rightarrow> [] | Some vs \<Rightarrow> array_elems 0 vs) else [])"

text \<open>A fast array is an array or an arguments object, and its elements are not properties too.\<close>

definition regular :: "'v shape_env \<Rightarrow> 'v shape_rt \<Rightarrow> nat \<Rightarrow> bool" where
  "regular V s p \<longleftrightarrow> (\<forall>h pr ps. look s p = Some (h, pr, ps) \<longrightarrow>
     (if p_fast_array h then
        p_is_exotic h \<and> p_class_id h \<in> {JSI_CLASS_ARRAY, JSI_CLASS_ARGUMENTS}
        \<and> (\<exists>vs. p_values h = Some vs \<and> room s p (length vs) \<and> (\<forall>j < length vs. JSI_AtomFromUInt32 j \<notin> fst ` set ps))
      else p_is_exotic h \<longrightarrow> se_delete V (p_class_id h) = None))"

lemma regularD:
  assumes g: "regular V s p" and l: "look s p = Some (h, pr, ps)"
  shows "\<not> p_fast_array h \<Longrightarrow> p_is_exotic h \<Longrightarrow> se_delete V (p_class_id h) = None"
    "p_fast_array h \<Longrightarrow> \<exists>vs. p_is_exotic h \<and> p_class_id h \<in> {JSI_CLASS_ARRAY, JSI_CLASS_ARGUMENTS} \<and> p_values h = Some vs
       \<and> room s p (length vs) \<and> (\<forall>j < length vs. JSI_AtomFromUInt32 j \<notin> fst ` set ps)"
  using g [unfolded regular_def, rule_format, OF l] by (simp_all del: insert_iff)

lemma elems_fst: "fst ` set (array_elems i vs) = JSI_AtomFromUInt32 ` {i..<i + length vs}"
proof -
  have "map fst (array_elems i vs) = map JSI_AtomFromUInt32 [i..<i + length vs]"
    unfolding array_elems_def by (rule nth_equalityI) (simp_all add: nth_enumerate_eq)
  then show ?thesis by (metis set_map set_upt)
qed

lemma elems_map_of:
  assumes "i < length vs" and "length vs \<le> 2 ^ 31"
  shows "map_of (array_elems 0 vs) (JSI_AtomFromUInt32 i) = Some (JSI_PROP_C_W_E, Some (vs ! i))"
proof -
  have m: "map fst (array_elems 0 vs) = map JSI_AtomFromUInt32 [0..<length vs]"
    unfolding array_elems_def by (rule nth_equalityI) (simp_all add: nth_enumerate_eq)
  have "inj_on JSI_AtomFromUInt32 {0..<length vs}" using assms(2) by (auto simp: inj_on_def tag_or)
  then have "distinct (map fst (array_elems 0 vs))" unfolding m by (simp add: distinct_map)
  moreover have "array_elems 0 vs ! i = (JSI_AtomFromUInt32 i, JSI_PROP_C_W_E, Some (vs ! i))" "i < length (array_elems 0 vs)"
    using assms(1) by (simp_all add: array_elems_def nth_enumerate_eq)
  ultimately show ?thesis by (metis map_of_eq_Some_iff nth_mem)
qed

lemma elems_butlast:
  assumes "vs \<noteq> []" and "length vs \<le> 2 ^ 31"
  shows "filter (\<lambda>(c, _). c \<noteq> JSI_AtomFromUInt32 (length vs - 1)) (array_elems 0 vs) = array_elems 0 (butlast vs)"
proof -
  have v: "vs = butlast vs @ [last vs]" using assms(1) by simp
  have "enumerate 0 (butlast vs @ [last vs]) = enumerate 0 (butlast vs) @ [(length vs - 1, last vs)]"
    by (simp only: enumerate_append_eq) simp
  then have e: "array_elems 0 vs = array_elems 0 (butlast vs) @ [(JSI_AtomFromUInt32 (length vs - 1), JSI_PROP_C_W_E, Some (last vs))]"
    unfolding array_elems_def by (subst v) simp
  have "filter (\<lambda>(c, _). c \<noteq> JSI_AtomFromUInt32 (length vs - 1)) (array_elems 0 (butlast vs)) = array_elems 0 (butlast vs)"
  proof (rule filter_True, rule ballI, rule ccontr)
    fix y assume "y \<in> set (array_elems 0 (butlast vs))" "\<not> (case y of (c, _) \<Rightarrow> c \<noteq> JSI_AtomFromUInt32 (length vs - 1))"
    then have "JSI_AtomFromUInt32 (length vs - 1) \<in> fst ` set (array_elems 0 (butlast vs))" by force
    then obtain j where "j < length vs - 1" "JSI_AtomFromUInt32 (length vs - 1) = JSI_AtomFromUInt32 j" unfolding elems_fst by auto
    then show False using assms(2) by (simp add: tag_or)
  qed
  then show ?thesis unfolding e by simp
qed

lemma index_key:
  assumes t: "atoms_ok ar" and k: "atom_key ar atom = Some nm"
  obtains idx where "JSI_AtomIsArrayIndex ar atom = Some idx" "\<forall>j < 2 ^ 31. idx = Some j \<longleftrightarrow> atom = JSI_AtomFromUInt32 j"
proof (cases "JSI_AtomIsTaggedInt atom")
  case True
  have l: "atom < 2 ^ 32" using k by (auto simp: atom_key_def split: if_splits)
  have "JSI_AtomToUInt32 atom = j \<longleftrightarrow> atom = JSI_AtomFromUInt32 j" if "j < 2 ^ 31" for j
    using untag_inj [OF l True] untag [OF that] tag_or [OF that] by auto
  then show ?thesis using that [of "Some (JSI_AtomToUInt32 atom)"] True by (simp add: JSI_AtomIsArrayIndex_def)
next
  case False
  obtain a p where p: "atom_entry ar atom = Some (a, p)" "atom_type p = 1" "\<not> small_num (s_data p)" using key_entry [OF k False] .
  have "sizes_ok ar" using t by (simp add: atoms_ok_def table_ok_def)
  then have "atom < atom_size ar" using p(1) by (auto simp: sizes_ok_def atom_entry_def mem_get_def bind_eq_Some_conv split: if_splits)
  then have i: "JSI_AtomIsArrayIndex ar atom = Some (case is_num_string (s_data p) of Some n \<Rightarrow> if n \<noteq> 2 ^ 32 - 1 then Some n else None | None \<Rightarrow> None)"
    using False p(1,2) by (simp add: JSI_AtomIsArrayIndex_def JSI_ATOM_TYPE_STRING_def)
  have "atom \<noteq> JSI_AtomFromUInt32 j" if j: "j < 2 ^ 31" for j
    using False tag_test [of "j + 2 ^ 31"] tag_or [OF j] j by auto
  then show ?thesis using that [OF i] p(3) by (auto simp: small_num_def JSI_ATOM_MAX_INT_def JSI_ATOM_TAG_INT_def split: option.splits if_splits)
qed

section \<open>Deletion\<close>

lemma map_of_whole:
  "map_of (whole (h, pr, ps)) a = (case map_of ps a of
     Some x \<Rightarrow> Some x | None \<Rightarrow> if p_fast_array h then (case p_values h of None \<Rightarrow> None | Some vs \<Rightarrow> map_of (array_elems 0 vs) a) else None)"
  by (auto simp: map_add_def split: option.splits)

lemma filter_absent: "a \<notin> fst ` set xs \<Longrightarrow> filter (\<lambda>(c, _). c \<noteq> a) xs = xs"
  by (rule filter_True) force

text \<open>What is left after a deletion, for every outcome.\<close>

definition delete_post :: "nat multiset \<Rightarrow> nat \<Rightarrow> nat \<Rightarrow> 'v shape_rt \<Rightarrow> int \<Rightarrow> 'v shape_rt \<Rightarrow> bool" where
  "delete_post E p atom s r s' \<longleftrightarrow> shapes_inv E s' \<and> isolated p s s' \<and> array_shape s' = array_shape s
     \<and> (\<exists>h pr ps h' ps'. look s p = Some (h, pr, ps) \<and> look s' p = Some (h', pr, ps')
        \<and> (case map_of (whole (h, pr, ps)) atom of
             None \<Rightarrow> r = 1 \<and> s' = s
           | Some (f, v) \<Rightarrow>
               if f AND JSI_PROP_CONFIGURABLE = 0 then r = 0 \<and> s' = s
               else r = 1 \<and> whole (h', pr, ps') = filter (\<lambda>(c, _). c \<noteq> atom) (whole (h, pr, ps)) \<and> map snd (freed s') = map snd (freed s) @ [v]
                 \<or> r = -1 \<and> whole (h', pr, ps') = whole (h, pr, ps)))"

lemma isolated_refl: "isolated p s s" by (simp add: isolated_def)

lemma C_W_E_conf: "JSI_PROP_C_W_E AND JSI_PROP_CONFIGURABLE \<noteq> 0"
  by (simp add: C_W_E JSI_PROP_CONFIGURABLE_def)

lemma delete_all_ok:
  assumes e: "env_ok V" and i: "shapes_inv E s" and l: "look s p = Some (h, pr, ps)" and a: "atom \<noteq> 0"
    and t: "atoms_ok ar" "atom_key ar atom = Some nm" and g: "regular V s p"
  shows "\<exists>r s'. delete_property V ar p atom s = Some (r, s') \<and> delete_post E p atom s r s'"
proof (cases "map_of ps atom")
  case (Some x)
  obtain f v where x: "x = (f, v)" by fastforce
  have mw: "map_of (whole (h, pr, ps)) atom = Some (f, v)" using Some x by (simp add: map_of_whole del: whole.simps)
  have m: "map_of ps atom \<noteq> None" using Some by simp
  obtain r s' where r: "delete_property V ar p atom s = Some (r, s')" "deleted E p atom s r s'" using delete_own_ok [OF e i l a m, of ar] by blast
  have ap: "atom \<in> fst ` set ps" using m by (metis map_of_eq_None_iff)
  have na: "atom \<notin> fst ` set (array_elems 0 vs)" if "p_fast_array h" "p_values h = Some vs" for vs
  proof -
    have "\<forall>j < length vs. JSI_AtomFromUInt32 j \<notin> fst ` set ps" using regularD(2) [OF g l that(1)] that(2) by auto
    then show ?thesis unfolding elems_fst using ap by (metis (no_types, lifting) add_0 atLeastLessThan_iff imageE)
  qed
  have w: "whole (h, pr, filter (\<lambda>(c, _). c \<noteq> atom) ps) = filter (\<lambda>(c, _). c \<noteq> atom) (whole (h, pr, ps))"
  proof (cases "p_fast_array h")
    case True
    obtain vs where v: "p_values h = Some vs" using regularD(2) [OF g l True] by blast
    show ?thesis using filter_absent [OF na [OF True v]] True v by simp
  qed simp
  have "isolated p s s'" using apart_isolated [OF i] r(2) unfolding deleted_def by blast
  moreover have "shapes_inv E s'" "array_shape s' = array_shape s" using r(2) unfolding deleted_def by blast+
  moreover have "f AND JSI_PROP_CONFIGURABLE = 0 \<and> r = 0 \<and> s' = s
     \<or> f AND JSI_PROP_CONFIGURABLE \<noteq> 0 \<and> r = 1 \<and> look s' p = Some (h, pr, filter (\<lambda>(c, _). c \<noteq> atom) ps) \<and> freed s' = freed s @ [(f, v)]
     \<or> f AND JSI_PROP_CONFIGURABLE \<noteq> 0 \<and> r = -1 \<and> s' = s"
    using r(2) l Some x unfolding deleted_def by auto
  ultimately have "delete_post E p atom s r s'" unfolding delete_post_def using l mw w by (elim disjE) (simp_all del: whole.simps)
  then show ?thesis using r(1) by blast
next
  case None
  obtain ob sh where o: "sh_objs s p = Some ob" "h = ob\<lparr>p_shape := 0, p_prop := []\<rparr>" using lookE [OF l] by metis
  have hd: "p_is_exotic ob = p_is_exotic h" "p_fast_array ob = p_fast_array h" "p_values ob = p_values h" "p_class_id ob = p_class_id h" using o(2) by simp_all
  note dp = delete_absent [OF i l a None o(1), of V ar, unfolded hd]
  have same: "delete_post E p atom s 1 s" if "map_of (whole (h, pr, ps)) atom = None"
    unfolding delete_post_def using that i l isolated_refl [of p s] by (simp del: whole.simps)
  show ?thesis
  proof (cases "p_fast_array h")
    case False
    then have "p_is_exotic h \<Longrightarrow> se_delete V (p_class_id h) = None" using regularD(1) [OF g l] by blast
    then have "delete_property V ar p atom s = Some (1, s)" using dp False by (simp split: option.splits)
    moreover have "map_of (whole (h, pr, ps)) atom = None" using None False by (simp add: map_of_whole del: whole.simps)
    ultimately show ?thesis using same by blast
  next
    case True
    obtain vs where g1: "p_is_exotic h" "p_class_id h \<in> {JSI_CLASS_ARRAY, JSI_CLASS_ARGUMENTS}" "p_values h = Some vs" "room s p (length vs)"
      "\<forall>j < length vs. JSI_AtomFromUInt32 j \<notin> fst ` set ps" using regularD(2) [OF g l True] by blast
    obtain sh where "shapes s (p_shape ob) = Some sh" using inv_obj [OF i o(1)] by metis
    then have lv: "length vs < 2 ^ 26" using g1(4) o(1) by (simp add: room_def)
    obtain idx where idx: "JSI_AtomIsArrayIndex ar atom = Some idx" "\<forall>j < 2 ^ 31. idx = Some j \<longleftrightarrow> atom = JSI_AtomFromUInt32 j"
      using index_key [OF t] .
    have mo: "map_of (whole (h, pr, ps)) atom = map_of (array_elems 0 vs) atom" using None True g1(3) by (simp add: map_of_whole del: whole.simps)
    show ?thesis
    proof (cases "\<exists>j < length vs. idx = Some j")
      case False
      have "atom \<notin> fst ` set (array_elems 0 vs)" unfolding elems_fst using False idx(2) lv by force
      then have "map_of (whole (h, pr, ps)) atom = None" unfolding mo by (simp add: map_of_eq_None_iff)
      moreover have "delete_property V ar p atom s = Some (1, s)" using dp True g1(1,3) idx(1) False by (auto split: option.splits)
      ultimately show ?thesis using same by blast
    next
      case True
      then obtain j where j: "j < length vs" "idx = Some j" by blast
      have at: "atom = JSI_AtomFromUInt32 j" using idx(2) [rule_format, of j] j lv by simp
      have mw: "map_of (whole (h, pr, ps)) atom = Some (JSI_PROP_C_W_E, Some (vs ! j))" using mo elems_map_of [OF j(1)] lv at by (simp del: whole.simps)
      have np: "atom \<notin> fst ` set ps" using g1(5) [rule_format, OF j(1)] at by metis
      have wh: "whole (h, pr, ps) = ps @ array_elems 0 vs" using \<open>p_fast_array h\<close> g1(3) by simp
      show ?thesis
      proof (cases "j = length vs - 1")
        case True
        let ?ob = "ob\<lparr>p_values := Some (butlast vs)\<rparr>"
        let ?t = "s\<lparr>freed := freed s @ [(0, Some (vs ! j))]\<rparr>"
        let ?s = "upd_sobj p (\<lambda>ob. ob\<lparr>p_values := Some (butlast vs)\<rparr>) ?t"
        have u: "?s = ?t\<lparr>sh_objs := (sh_objs ?t)(p \<mapsto> ?ob)\<rparr>" by (rule upd_sobj_eq) (use o(1) in simp)
        obtain sh where sh: "shapes s (p_shape ob) = Some sh" "prop_size sh \<le> length (p_prop ob)" using inv_obj [OF i o(1)] by metis
        have i0: "shapes_inv E ?t" "sh_objs ?t p = Some ob" "shapes ?t (p_shape ob) = Some sh" using i o(1) sh(1) by (simp_all add: shapes_inv_def)
        note oc = obj_change [OF i0, of ?ob]
        have "sapart p s ?t" by (simp add: sapart_def)
        then have "isolated p s ?s" using apart_isolated [OF i apart_trans] oc(2) sh(2) u by simp
        moreover have "look ?s p = Some (h\<lparr>p_values := Some (butlast vs)\<rparr>, pr, ps)" using l o sh(1) u by (auto simp: look_def)
        moreover have "filter (\<lambda>(c, _). c \<noteq> atom) (whole (h, pr, ps)) = whole (h\<lparr>p_values := Some (butlast vs)\<rparr>, pr, ps)"
          unfolding wh using filter_absent [OF np] elems_butlast [of vs] j(1) lv at True \<open>p_fast_array h\<close> by force
        moreover have "shapes_inv E ?s" "freed ?s = freed s @ [(0, Some (vs ! j))]" "array_shape ?s = array_shape s" using oc(1) sh(2) u by simp_all
        ultimately have "delete_post E p atom s 1 ?s" unfolding delete_post_def using l mw C_W_E_conf by (simp del: whole.simps)
        moreover have "delete_property V ar p atom s = Some (1, ?s)" using dp \<open>p_fast_array h\<close> g1(1-3) idx(1) j True by auto
        ultimately show ?thesis by blast
      next
        case False
        obtain r s1 where c: "convert_fast_array_to_array V p s = Some (r, s1)" "shapes_inv E s1" "sapart p s s1" "freed s1 = freed s" "array_shape s1 = array_shape s"
          "r = 0 \<and> look s1 p = Some (h\<lparr>p_values := Some [], p_fast_array := False\<rparr>, pr, ps @ array_elems 0 vs) \<or> r = -1 \<and> look s1 p = look s p"
          using convert_ok [OF e i l g1(3-5)] by blast
        have d1: "delete_property V ar p atom s = (if r \<noteq> 0 then Some (-1, s1) else delete_property V ar p atom s1)"
          using dp \<open>p_fast_array h\<close> g1(1-3) idx(1) j False c(1) by auto
        have is1: "isolated p s s1" by (rule apart_isolated [OF i c(3)])
        show ?thesis
        proof (cases "r = 0")
          case False
          then have "delete_post E p atom s (-1) s1" unfolding delete_post_def using c is1 l mw C_W_E_conf by (simp del: whole.simps)
          then show ?thesis using d1 False by simp
        next
          case True
          let ?h = "h\<lparr>p_values := Some [], p_fast_array := False\<rparr>"
          have l1: "look s1 p = Some (?h, pr, ps @ array_elems 0 vs)" using c(6) True by simp
          have m1: "map_of (ps @ array_elems 0 vs) atom = Some (JSI_PROP_C_W_E, Some (vs ! j))" using mw wh by simp
          then have "map_of (ps @ array_elems 0 vs) atom \<noteq> None" by simp
          from delete_own_ok [OF e c(2) l1 a this, of ar] obtain r2 s2 where
            r2: "delete_property V ar p atom s1 = Some (r2, s2)" "deleted E p atom s1 r2 s2" by blast
          have q: "r2 = 1 \<and> look s2 p = Some (?h, pr, filter (\<lambda>(c, _). c \<noteq> atom) (ps @ array_elems 0 vs)) \<and> freed s2 = freed s1 @ [(JSI_PROP_C_W_E, Some (vs ! j))]
              \<or> r2 = -1 \<and> s2 = s1" "shapes_inv E s2" "sapart p s1 s2" "array_shape s2 = array_shape s1"
            using r2(2) l1 m1 C_W_E_conf unfolding deleted_def by auto
          have "isolated p s s2" by (rule apart_isolated [OF i apart_trans [OF c(3) q(3)]])
          then have "delete_post E p atom s r2 s2"
            unfolding delete_post_def using q c(4,5) l l1 mw wh C_W_E_conf by (elim disjE conjE) (simp_all add: whole.simps del: filter_append)
          then show ?thesis using d1 True r2(1) by simp
        qed
      qed
    qed
  qed
qed

end
