(* ===== verification/QShapeMain.thy ===== *)
theory QShapeMain
  imports QShapeWhole
begin

text \<open>
  The properties of objects as the interpreter sees them: adding, finding and deleting a property act on one
  list of properties per object, in every state that the operations reach, and no object changes
  another one although they share shapes. The last section is about an object that is not initialised.
\<close>

section \<open>Operations on objects as steps\<close>

text \<open>One call of an operation on the object \<open>p\<close>, with what the callers guarantee.\<close>

inductive shape_step :: "'v shape_env \<Rightarrow> atom_rt \<Rightarrow> 'v shape_rt \<Rightarrow> nat option \<Rightarrow> 'v shape_rt \<Rightarrow> bool" for V ar where
  new: "class_id \<noteq> JSI_CLASS_ARRAY \<Longrightarrow> class_id \<noteq> JSI_CLASS_C_FUNCTION \<Longrightarrow> shape_hash_bits s < 30
    \<Longrightarrow> JSI_NewObjectProtoClass V proto class_id s = Some (Some p, s') \<Longrightarrow> shape_step V ar s (Some p) s'"
| new_fails: "class_id \<noteq> JSI_CLASS_ARRAY \<Longrightarrow> class_id \<noteq> JSI_CLASS_C_FUNCTION \<Longrightarrow> shape_hash_bits s < 30
    \<Longrightarrow> JSI_NewObjectProtoClass V proto class_id s = Some (None, s') \<Longrightarrow> sh_objs s p = None \<Longrightarrow> shape_step V ar s (Some p) s'"
| add: "look s p = Some (h, pr, ps) \<Longrightarrow> atom \<noteq> 0 \<Longrightarrow> atom \<notin> fst ` set ps \<Longrightarrow> flags < 64 \<Longrightarrow> room s p 1
    \<Longrightarrow> add_property V p atom flags s = Some (k, s') \<Longrightarrow> shape_step V ar s (Some p) s'"
| set: "set_value p k v s = Some s' \<Longrightarrow> shape_step V ar s (Some p) s'"
| flags: "atom \<noteq> 0 \<Longrightarrow> flags < 64 \<Longrightarrow> find_own_property1 p atom s = Some (Some k)
    \<Longrightarrow> jsi_update_property_flags V p k flags s = Some (r, s') \<Longrightarrow> shape_step V ar s (Some p) s'"
| delete: "look s p \<noteq> None \<Longrightarrow> atom \<noteq> 0 \<Longrightarrow> atoms_ok ar \<Longrightarrow> atom_key ar atom = Some nm \<Longrightarrow> regular V s p
    \<Longrightarrow> delete_property V ar p atom s = Some (r, s') \<Longrightarrow> shape_step V ar s (Some p) s'"
| free: "free_sobj p s = Some s' \<Longrightarrow> shape_step V ar s (Some p) s'"

section \<open>Steps on one object at a time\<close>

text \<open>A store whose steps keep an invariant and change what is seen of one object only.\<close>

locale object_store =
  fixes ok :: "'s \<Rightarrow> bool" and view :: "'s \<Rightarrow> 'o \<Rightarrow> 'a option" and step :: "'s \<Rightarrow> 'o option \<Rightarrow> 's \<Rightarrow> bool"
  assumes step_ok: "ok s \<Longrightarrow> step s l s' \<Longrightarrow> ok s'"
    and step_view: "ok s \<Longrightarrow> step s l s' \<Longrightarrow> l \<noteq> Some q \<Longrightarrow> view s' q = view s q"
begin

lemma run_ok: "run step s tr s' \<Longrightarrow> ok s \<Longrightarrow> ok s'"
  by (induction rule: run.induct) (use step_ok in blast)+

lemma run_view: "run step s tr s' \<Longrightarrow> ok s \<Longrightarrow> q \<notin> set tr \<Longrightarrow> view s' q = view s q"
proof (induction rule: run.induct)
  case (run_silent s tr s' s'')
  then show ?case using step_view [of s' None s'' q] run_ok by simp
next
  case (run_label s tr s' l s'')
  then show ?case using step_view [of s' "Some l" s'' q] run_ok by auto
qed simp

end

lemma look_obj: "shapes_inv E s \<Longrightarrow> sh_objs s p = Some ob \<Longrightarrow> \<exists>h pr ps. look s p = Some (h, pr, ps)"
  using inv_obj [of E s p ob] by (fastforce simp: look_def)

lemma added_look:
  assumes i: "shapes_inv E s" and l: "look s p = Some (h, pr, ps)" and a: "added E p atom flags k s s'" "atom \<noteq> 0"
  shows "case k of None \<Rightarrow> look s' p = look s p
    | Some n \<Rightarrow> \<exists>ob. sh_objs s' p = Some ob \<and> n < length (p_prop ob) \<and> look s' p = Some (h, pr, ps @ [(atom, flags, p_prop ob ! n)])
        \<and> (\<forall>v. look (s'\<lparr>sh_objs := (sh_objs s')(p \<mapsto> ob\<lparr>p_prop := (p_prop ob)[n := Some v]\<rparr>)\<rparr>) p = Some (h, pr, ps @ [(atom, flags, Some v)]))"
proof -
  obtain ob sh ob' sh' where o: "sh_objs s p = Some ob" "shapes s (p_shape ob) = Some sh" "sh_objs s' p = Some ob'" "shapes s' (p_shape ob') = Some sh'"
    "ob'\<lparr>p_shape := 0, p_prop := []\<rparr> = ob\<lparr>p_shape := 0, p_prop := []\<rparr>" "sh_proto sh' = sh_proto sh"
    "take (length (names sh)) (p_prop ob') = take (length (names sh)) (p_prop ob)"
    "case k of None \<Rightarrow> names sh' = names sh | Some i \<Rightarrow> i = length (names sh) \<and> names sh' = names sh @ [(atom, flags)]"
    using a(1) unfolding added_def by blast
  have h: "h = ob\<lparr>p_shape := 0, p_prop := []\<rparr>" "pr = sh_proto sh" "ps = own (names sh) (p_prop ob)" using l o(1,2) by (auto simp: look_def)
  have i': "shapes_inv E s'" using a(1) by (simp add: added_def)
  obtain pl: "length (names sh') \<le> length (p_prop ob')" using inv_obj [OF i' o(3)] o(4) by (metis option.inject)
  show ?thesis
  proof (cases k)
    case None
    have "own (names sh) (p_prop ob') = own (names sh) (p_prop ob)" using own_take [of "names sh" "p_prop ob'"] own_take [of "names sh" "p_prop ob"] o(7) by simp
    then show ?thesis using None o by (simp add: look_def)
  next
    case (Some n)
    have n: "n = length (names sh)" "names sh' = names sh @ [(atom, flags)]" "n < length (p_prop ob')" using o(8) Some pl by auto
    have ow: "own (names sh') us = ps @ [(atom, flags, us ! n)]" if "length us = length (p_prop ob')" "take n us = take n (p_prop ob')" for us
      using own_snoc [of "names sh" us atom "p_prop ob" flags] that n a(2) o(7) h(3) by simp
    have lk: "look (s'\<lparr>sh_objs := (sh_objs s')(p \<mapsto> ob'\<lparr>p_prop := us\<rparr>)\<rparr>) p = Some (h, pr, ps @ [(atom, flags, us ! n)])"
      if "length us = length (p_prop ob')" "take n us = take n (p_prop ob')" for us
      using ow [OF that] o(4,5,6) h by (simp add: look_def)
    have "look s' p = Some (h, pr, ps @ [(atom, flags, p_prop ob' ! n)])" using lk [of "p_prop ob'"] o(3) by (simp add: fun_upd_idem)
    moreover have "look (s'\<lparr>sh_objs := (sh_objs s')(p \<mapsto> ob'\<lparr>p_prop := (p_prop ob')[n := Some v]\<rparr>)\<rparr>) p = Some (h, pr, ps @ [(atom, flags, Some v)])" for v
      using lk [of "(p_prop ob')[n := Some v]"] n(3) by simp
    ultimately show ?thesis unfolding Some option.case using o(3) n(3) by (intro exI [of _ ob'] conjI allI) simp_all
  qed
qed

lemma step_apart:
  assumes e: "env_ok V" and i: "shapes_inv E s" and s: "shape_step V ar s (Some p) s'"
  shows "shapes_inv E s' \<and> isolated p s s'"
  using s
proof (cases rule: shape_step.cases)
  case (new class_id proto)
  then show ?thesis by (cases rule: new_sobj_ok [OF e i new(1-3), of proto]) (use apart_isolated [OF i] in auto)
next
  case (new_fails class_id proto)
  then show ?thesis by (cases rule: new_sobj_ok [OF e i new_fails(1-3), of proto]) (use apart_isolated [OF i] in auto)
next
  case (add h pr ps atom flags k)
  obtain ob sh where o: "sh_objs s p = Some ob" "shapes s (p_shape ob) = Some sh" "ps = own (names sh) (p_prop ob)" using lookE [OF add(1)] by metis
  obtain pl: "length (names sh) \<le> length (p_prop ob)" using inv_obj [OF i o(1)] o(2) by (metis option.inject)
  have "atom \<notin> set (live_atoms (names sh))" using add(3) own_live [OF pl] o(3) by (metis set_map)
  moreover have "length (names sh) + 1 < 2 ^ 26" using add(5) o(1,2) by (simp add: room_def)
  ultimately show ?thesis
    using add_property_ok [OF e i o(1,2) add(2) _ add(4)] add(6) apart_isolated [OF i] by (auto simp: added_def)
next
  case (set k v)
  then obtain ob where o: "sh_objs s p = Some ob" "k < length (p_prop ob)" by (auto simp: set_value_def mem_set_def bind_eq_Some_conv split: if_splits)
  show ?thesis using set_value_ok [OF i o refl, of v] set apart_isolated [OF i] by auto
next
  case (flags atom flags k r)
  then obtain ob where "sh_objs s p = Some ob" by (auto simp: find_own_property1_def bind_eq_Some_conv)
  then obtain h pr ps where l: "look s p = Some (h, pr, ps)" using look_obj [OF i] by blast
  show ?thesis using update_flags_ok [OF e i l flags(1,3,2)] flags(4) apart_isolated [OF i] by auto
next
  case (delete atom nm r)
  obtain h pr ps where l: "look s p = Some (h, pr, ps)" using delete(1) by auto
  show ?thesis using delete_all_ok [OF e i l delete(2-5)] delete(6) by (auto simp: delete_post_def)
next
  case free
  then obtain ob where o: "sh_objs s p = Some ob" by (auto simp: free_sobj_def bind_eq_Some_conv)
  obtain sh where sh: "shapes s (p_shape ob) = Some sh" using inv_obj [OF i o] by metis
  obtain t where t: "free_sobj p s = (if p_class_id ob = JSI_CLASS_ARRAY \<or> p_class_id ob = JSI_CLASS_ARGUMENTS
      then map_option (\<lambda>ws. t\<lparr>freed := freed t @ map (\<lambda>w. (0, Some w)) ws\<rparr>) (p_values ob) else Some t)"
    "shapes_inv E t" "sapart p s t" using free_sobj_ok [OF i o sh] by metis
  obtain z where z: "s' = t\<lparr>freed := z\<rparr>"
  proof (cases "p_class_id ob = JSI_CLASS_ARRAY \<or> p_class_id ob = JSI_CLASS_ARGUMENTS")
    case True
    then show ?thesis using t(1) free that by (auto simp: map_option_case split: option.splits)
  next
    case False
    have "t = t\<lparr>freed := freed t\<rparr>" by simp
    then show ?thesis using t(1) free that False by (metis option.inject)
  qed
  then show ?thesis using t(2,3) apart_isolated [OF i, of p s'] by (simp add: shapes_inv_def sapart_def)
qed

lemma step_labelled: "shape_step V ar s l s' \<Longrightarrow> l \<noteq> None" by (cases rule: shape_step.cases) auto

interpretation shape_store: object_store "\<lambda>s. env_ok V \<and> shapes_inv E s" look "shape_step V ar" for V E ar
proof
  fix s l s' assume ok: "env_ok V \<and> shapes_inv E s" and s: "shape_step V ar s l s'"
  obtain p where p: "l = Some p" using step_labelled [OF s] by blast
  note a = step_apart [of V E s ar p s', OF conjunct1 [OF ok] conjunct2 [OF ok] s [unfolded p]]
  show "env_ok V \<and> shapes_inv E s'" using ok a by blast
  show "look s' q = look s q" if "l \<noteq> Some q" for q using a that p by (auto simp: isolated_def)
qed

section \<open>A small runtime\<close>

definition demo_env :: "nat shape_env" where
  "demo_env = \<lparr>se_shape = (\<lambda>s n m. find (\<lambda>a. shapes s a = None) [1..<9]), se_object = (\<lambda>s. find (\<lambda>p. sh_objs s p = None) [1..<9]),
     se_props = (\<lambda>_. True), se_table = (\<lambda>_. True), se_exotic = (\<lambda>_. False), se_delete = (\<lambda>_. None), se_undefined = 0, se_int = nat\<rparr>"

definition demo_start :: "nat shape_rt" where
  "demo_start = \<lparr>shapes = Map.empty, shape_tab = [], shape_hash_bits = 0, shape_hash_count = 0, sh_objs = Map.empty,
     array_shape = 0, held = {#}, freed = []\<rparr>"

definition demo_rt :: "nat shape_rt" where
  "demo_rt = snd (init_shape_hash demo_env demo_start)"

lemma find_bound: "find P xs = Some x \<Longrightarrow> P x \<and> x \<in> set xs"
  by (auto simp: find_Some_iff)

lemma demo_env_ok: "env_ok demo_env"
  unfolding env_ok_def demo_env_def by (auto dest!: find_bound simp del: upt_rec_numeral)

lemma demo_start_ok: "shapes demo_start = Map.empty" "sh_objs demo_start = Map.empty" "held demo_start = {#}" "se_table demo_env 16"
  by (simp_all add: demo_start_def demo_env_def)

lemma demo_rt_ok: "shapes_inv {#} demo_rt" "sh_objs demo_rt = Map.empty" "shape_hash_bits demo_rt = 4"
  using init_ok [OF demo_start_ok] by (simp_all add: demo_rt_def init_shape_hash_def demo_env_def)

lemma demo_new:
  assumes c: "class_id \<noteq> JSI_CLASS_ARRAY" "class_id \<noteq> JSI_CLASS_C_FUNCTION"
  obtains s where "JSI_NewObjectProtoClass demo_env 0 class_id demo_rt = Some (Some 1, s)" "shapes_inv {#} s"
    "look s 1 = Some (new_obj demo_env class_id, 0, [])" "isolated 1 demo_rt s" "room s 1 1"
proof -
  have t: "shape_tab demo_rt = replicate 16 0" "shapes demo_rt = Map.empty" "shape_hash_count demo_rt = 0"
    by (simp_all add: demo_rt_def init_shape_hash_def demo_env_def demo_start_def)
  have r: "rt {} {#} (sh_objs demo_rt) demo_rt" using demo_rt_ok(1) by (simp add: shapes_inv_def)
  have "tab_ok {} demo_rt" using r by (simp add: rt_def)
  then have "get_shape_hash h (shape_hash_bits demo_rt) < 16" for h using tab_index [of "{}" demo_rt h] t(1) by simp
  then have f: "find_hashed_shape_proto 0 demo_rt = Some None"
    using t(1) by (simp add: find_hashed_shape_proto_def mem_get_def shape_search.simps Let_def del: replicate.simps)
  have n: "se_shape demo_env demo_rt JSI_PROP_INITIAL_HASH_SIZE JSI_PROP_INITIAL_SIZE = Some 1" using t(2) by (simp add: demo_env_def upt_rec)
  have h: "JSI_PROP_INITIAL_HASH_SIZE = 2 ^ 2" by (simp add: JSI_PROP_INITIAL_HASH_SIZE_def)
  have b: "shape_hash_bits demo_rt < 30" using demo_rt_ok(3) by simp
  obtain a s1 sh where s1: "jsi_new_shape demo_env 0 demo_rt = Some (Some a, s1)" "sh_objs s1 = sh_objs demo_rt" "shapes s1 a = Some sh"
  proof (cases rule: new_shape_ok [OF demo_env_ok r h b, of 0 JSI_PROP_INITIAL_SIZE])
    case (1 s')
    then show ?thesis using n t by (auto simp: jsi_new_shape2_def bind_eq_Some_conv split: option.splits)
  next
    case (2 a s' sh)
    then show ?thesis using that by (simp add: jsi_new_shape_def sframe_def)
  qed
  have o: "se_object demo_env s1 = Some 1" "se_props demo_env (prop_size sh)" using s1(2) demo_rt_ok(2) by (simp_all add: demo_env_def upt_rec)
  have "JSI_NewObjectProtoClass demo_env 0 class_id demo_rt = JSI_NewObjectFromShape demo_env a class_id s1"
    using f s1(1) by (simp add: JSI_NewObjectProtoClass_def)
  then obtain s2 where s2: "JSI_NewObjectProtoClass demo_env 0 class_id demo_rt = Some (Some 1, s2)" using s1(3) o c by (auto simp: JSI_NewObjectFromShape_def Let_def)
  show ?thesis
  proof (cases rule: new_sobj_ok [OF demo_env_ok demo_rt_ok(1) c b, of 0])
    case (1 s')
    then show ?thesis using s2 by simp
  next
    case (2 p s')
    have "room s' 1 1" using 2(1,6) s2 by simp
    then show ?thesis using that [of s'] 2 s2 apart_isolated [OF demo_rt_ok(1)] by auto
  qed
qed

section \<open>The properties of objects\<close>



text \<open>C6: the search along the hash chain of a shape finds a property exactly when the object has it, with
  its flags and its value.\<close>

theorem property_find:
  assumes "shapes_inv E s" and "look s p = Some (h, pr, ps)" and "atom \<noteq> 0"
  shows "\<exists>r. find_own_property p atom s = Some r \<and> map_option (\<lambda>(q, v). (pr_flags q, v)) r = map_of ps atom"
  by (rule find_ok [OF assms])

theorem property_find_witness:
  "\<exists>s r. JSI_NewObjectProtoClass demo_env 0 1 demo_rt = Some (Some 1, s) \<and> find_own_property 1 50 s = Some r \<and> r = None"
proof -
  obtain s where s: "JSI_NewObjectProtoClass demo_env 0 1 demo_rt = Some (Some 1, s)" "shapes_inv {#} s" "look s 1 = Some (new_obj demo_env 1, 0, [])"
    by (rule demo_new [of 1]) (simp_all add: JSI_CLASS_ARRAY_def JSI_CLASS_C_FUNCTION_def)
  show ?thesis using property_find [OF s(2,3), of 50] s(1) by auto
qed

definition demo_atoms :: atom_rt where
  "demo_atoms = \<lparr>atom_hash_size = 1, atom_count = 0, atom_size = 0, atom_count_resize = 2, atom_hash = [0], atom_array = [], atom_free_index = 0, strs = Map.empty\<rparr>"

lemma demo_atoms_ok: "atoms_ok demo_atoms"
proof -
  have e: "atom_entry demo_atoms i = None" for i by (simp add: atom_entry_def mem_get_def demo_atoms_def)
  have "sizes_ok demo_atoms" by (auto simp: sizes_ok_def live_set_def e) (simp_all add: demo_atoms_def exI [of _ 0])
  moreover have "slots_ok demo_atoms" by (simp add: slots_ok_def e) (auto simp: demo_atoms_def free_set_def mem_get_def intro: exI [of _ "[]"])
  moreover have "store_ok demo_atoms" by (simp add: store_ok_def e) (simp add: demo_atoms_def)
  moreover have "unique_ok demo_atoms" by (simp add: unique_ok_def e)
  moreover have "bucket_set demo_atoms b = {}" for b by (simp add: bucket_set_def e)
  then have "buckets_ok {} demo_atoms" unfolding buckets_ok_def by (auto simp: demo_atoms_def intro: exI [of _ "[]"])
  ultimately show ?thesis by (simp add: atoms_ok_def table_ok_def)
qed

text \<open>C4: deleting a property of an ordinary object, an array or an arguments object always returns. A property
  that is not there gives true and one that is not configurable false, and nothing changes; otherwise exactly this property is removed and its value freed, or memory runs
  out and all properties are as before. Elements of fast arrays count as properties: the conversion of the array, the
  removal from the shape and the compaction cannot be seen, and no other object changes.\<close>

theorem property_delete:
  assumes "env_ok V" and "shapes_inv E s" and "look s p = Some (h, pr, ps)" and "atom \<noteq> 0"
    and "atoms_ok ar" and "atom_key ar atom = Some nm" and "regular V s p"
  shows "\<exists>r s'. delete_property V ar p atom s = Some (r, s') \<and> shapes_inv E s' \<and> isolated p s s'
    \<and> (\<exists>h' ps'. look s' p = Some (h', pr, ps')
        \<and> (case map_of (whole (h, pr, ps)) atom of
             None \<Rightarrow> r = 1 \<and> s' = s
           | Some (f, v) \<Rightarrow>
               if f AND JSI_PROP_CONFIGURABLE = 0 then r = 0 \<and> s' = s
               else r = 1 \<and> whole (h', pr, ps') = filter (\<lambda>(c, _). c \<noteq> atom) (whole (h, pr, ps)) \<and> map snd (freed s') = map snd (freed s) @ [v]
                 \<or> r = -1 \<and> whole (h', pr, ps') = whole (h, pr, ps)))"
proof -
  obtain r s' where r: "delete_property V ar p atom s = Some (r, s')" "delete_post E p atom s r s'" using delete_all_ok [OF assms] by blast
  show ?thesis using r assms(3) unfolding delete_post_def by (intro exI [of _ r] exI [of _ s']) (auto simp del: whole.simps)
qed

theorem property_delete_witness:
  "\<exists>s r s'. JSI_NewObjectProtoClass demo_env 0 1 demo_rt = Some (Some 1, s) \<and> delete_property demo_env demo_atoms 1 (JSI_AtomFromUInt32 5) s = Some (r, s')
     \<and> r = 1 \<and> s' = s"
proof -
  obtain s where s: "JSI_NewObjectProtoClass demo_env 0 1 demo_rt = Some (Some 1, s)" "shapes_inv {#} s" "look s 1 = Some (new_obj demo_env 1, 0, [])"
    by (rule demo_new [of 1]) (simp_all add: JSI_CLASS_ARRAY_def JSI_CLASS_C_FUNCTION_def)
  have n: "\<not> p_fast_array (new_obj demo_env 1)" by (simp add: new_obj_def JSI_CLASS_ARGUMENTS_def)
  have g: "regular demo_env s 1" using s(3) n by (simp add: regular_def demo_env_def)
  have k: "atom_key demo_atoms (JSI_AtomFromUInt32 5) = Some (dec_units 5)" by (rule tagged_key) (simp add: JSI_ATOM_MAX_INT_def JSI_ATOM_TAG_INT_def)
  have z: "JSI_AtomFromUInt32 5 \<noteq> 0" by (simp add: tag_or)
  show ?thesis using property_delete [OF demo_env_ok s(2,3) z demo_atoms_ok k g] s(1) n by auto
qed



section \<open>The object of the arguments of a call\<close>

lemma arguments_steps:
  assumes e: "env_ok V" and i: "shapes_inv E s" and b: "shape_hash_bits s < 30"
    and n: "JSI_NewObjectProtoClass V proto JSI_CLASS_ARGUMENTS s = Some (Some p, s1)"
  obtains k s2 where "add_property V p JSI_ATOM_length (JSI_PROP_WRITABLE OR JSI_PROP_CONFIGURABLE) s1 = Some (k, s2)" "shapes_inv E s2"
    "shapes_inv E s1" "look s1 p = Some (new_obj V JSI_CLASS_ARGUMENTS, proto, [])"
    "added E p JSI_ATOM_length (JSI_PROP_WRITABLE OR JSI_PROP_CONFIGURABLE) k s1 s2"
proof (cases rule: new_sobj_ok [OF e i _ _ b, of JSI_CLASS_ARGUMENTS proto])
  case (4 q s')
  then have q: "q = p" "s' = s1" using n by simp_all
  obtain ob sh where o: "sh_objs s1 p = Some ob" "shapes s1 (p_shape ob) = Some sh" "[] = own (names sh) (p_prop ob)" using lookE [OF 4(5) [unfolded q]] by metis
  obtain pl: "length (names sh) \<le> length (p_prop ob)" using inv_obj [OF 4(2) [unfolded q] o(1)] o(2) by (metis option.inject)
  have "live_atoms (names sh) = []" using own_live [OF pl] o(3) by simp
  moreover have "room s1 p 1" using 4(6) q by simp
  then have "length (names sh) + 1 < 2 ^ 26" using o(1,2) by (simp add: room_def)
  ultimately show ?thesis
    using add_property_ok [OF e 4(2) [unfolded q] o(1,2), of JSI_ATOM_length "JSI_PROP_WRITABLE OR JSI_PROP_CONFIGURABLE"] that 4 q
    by (auto simp: JSI_ATOM_length_def JSI_PROP_WRITABLE_def JSI_PROP_CONFIGURABLE_def added_def)
qed (use n in \<open>simp_all add: JSI_CLASS_ARRAY_def JSI_CLASS_C_FUNCTION_def JSI_CLASS_ARGUMENTS_def\<close>)

lemma look_values: "look s p = Some (h, pr, ps) \<Longrightarrow> look (upd_sobj p (\<lambda>ob. ob\<lparr>p_values := x\<rparr>) s) p = Some (h\<lparr>p_values := x\<rparr>, pr, ps)"
  by (auto simp: look_def upd_sobj_def bind_eq_Some_conv)

lemma free_uninitialised:
  assumes "shapes_inv E s" and "look s p = Some (h, pr, ps)" and "p_class_id h = JSI_CLASS_ARGUMENTS" and "p_values h = None"
  shows "free_sobj p s = None"
proof -
  obtain ob sh where o: "sh_objs s p = Some ob" "shapes s (p_shape ob) = Some sh" "h = ob\<lparr>p_shape := 0, p_prop := []\<rparr>" using lookE [OF assms(2)] by metis
  have "p_class_id ob = JSI_CLASS_ARGUMENTS" "p_values ob = None" using assms(3,4) o(3) by simp_all
  then show ?thesis by (cases rule: free_sobj_ok [OF assms(1) o(1,2)]) simp
qed

text \<open>C36: the array part of a new arguments object is not initialised. When the object has been made and then the memory for
  the elements, or for the property \<open>length\<close>, runs out, the object is freed and its
  finalizer reads a pointer and a count that were never written. When the memory is there, the object has the
  arguments as elements and their number as \<open>length\<close>.\<close>

theorem arguments_object:
  assumes "env_ok V" and "shapes_inv E s" and "shape_hash_bits s < 30"
    and "JSI_NewObjectProtoClass V proto JSI_CLASS_ARGUMENTS s = Some (Some p, s1)"
  shows "(argv \<noteq> [] \<longrightarrow> arguments_array V False proto argv s = None)
    \<and> (\<exists>k s2. add_property V p JSI_ATOM_length (JSI_PROP_WRITABLE OR JSI_PROP_CONFIGURABLE) s1 = Some (k, s2)
        \<and> (case k of None \<Rightarrow> arguments_array V m proto argv s = None
           | Some n \<Rightarrow> \<exists>s'. arguments_array V True proto argv s = Some (Some p, s')
               \<and> look s' p = Some ((new_obj V JSI_CLASS_ARGUMENTS)\<lparr>p_values := Some argv\<rparr>, proto,
                   [(JSI_ATOM_length, JSI_PROP_WRITABLE OR JSI_PROP_CONFIGURABLE, Some (se_int V (int (length argv))))])))"
proof -
  let ?h = "new_obj V JSI_CLASS_ARGUMENTS" and ?f = "JSI_PROP_WRITABLE OR JSI_PROP_CONFIGURABLE" and ?v = "se_int V (int (length argv))"
  obtain k s2 where k: "add_property V p JSI_ATOM_length ?f s1 = Some (k, s2)" "shapes_inv E s2" "shapes_inv E s1" "look s1 p = Some (?h, proto, [])"
    "added E p JSI_ATOM_length ?f k s1 s2" using arguments_steps [OF assms] .
  have h: "p_class_id ?h = JSI_CLASS_ARGUMENTS" "p_values ?h = None" by (simp_all add: new_obj_def)
  have l0: "JSI_ATOM_length \<noteq> 0" by (simp add: JSI_ATOM_length_def)
  note lk = added_look [OF k(3,4,5) l0]
  show ?thesis
  proof (cases k)
    case None
    have "free_sobj p s2 = None" using free_uninitialised [OF k(2) _ h] lk k(4) None by simp
    then have "arguments_array V m proto argv s = None" for m using assms(4) k(1) None by (simp add: arguments_array_def)
    then show ?thesis using k(1) None by auto
  next
    case (Some n)
    obtain ob where o: "sh_objs s2 p = Some ob" "n < length (p_prop ob)"
      "\<forall>v. look (s2\<lparr>sh_objs := (sh_objs s2)(p \<mapsto> ob\<lparr>p_prop := (p_prop ob)[n := Some v]\<rparr>)\<rparr>) p = Some (?h, proto, [(JSI_ATOM_length, ?f, Some v)])"
      using lk Some by auto
    let ?ob = "ob\<lparr>p_prop := (p_prop ob)[n := Some ?v]\<rparr>"
    let ?s = "s2\<lparr>sh_objs := (sh_objs s2)(p \<mapsto> ?ob)\<rparr>"
    note sv = set_value_ok [OF k(2) o(1,2) refl, of ?v]
    have lv: "look ?s p = Some (?h, proto, [(JSI_ATOM_length, ?f, Some ?v)])" using o(3) by blast
    have "free_sobj p ?s = None" by (rule free_uninitialised [OF sv(2) lv h])
    then have "argv \<noteq> [] \<longrightarrow> arguments_array V False proto argv s = None" using assms(4) k(1) Some sv(1) by (simp add: arguments_array_def)
    moreover have "arguments_array V True proto argv s = Some (Some p, upd_sobj p (\<lambda>ob. ob\<lparr>p_values := Some argv\<rparr>) ?s)"
      using assms(4) k(1) Some sv(1) by (simp add: arguments_array_def)
    moreover have "look (upd_sobj p (\<lambda>ob. ob\<lparr>p_values := Some argv\<rparr>) ?s) p = Some (?h\<lparr>p_values := Some argv\<rparr>, proto, [(JSI_ATOM_length, ?f, Some ?v)])"
      by (rule look_values [OF lv])
    ultimately show ?thesis using k(1) Some by auto
  qed
qed

theorem arguments_object_witness:
  "\<exists>s1. JSI_NewObjectProtoClass demo_env 0 JSI_CLASS_ARGUMENTS demo_rt = Some (Some 1, s1) \<and> arguments_array demo_env False 0 [7] demo_rt = None"
proof -
  obtain s1 where s1: "JSI_NewObjectProtoClass demo_env 0 JSI_CLASS_ARGUMENTS demo_rt = Some (Some 1, s1)"
    by (rule demo_new [of JSI_CLASS_ARGUMENTS]) (simp_all add: JSI_CLASS_ARRAY_def JSI_CLASS_C_FUNCTION_def JSI_CLASS_ARGUMENTS_def)
  have b: "shape_hash_bits demo_rt < 30" using demo_rt_ok(3) by simp
  show ?thesis using arguments_object [OF demo_env_ok demo_rt_ok(1) b s1, of "[7]"] s1 by simp
qed

end
