(* ===== verification/Spec2Isabelle.thy ===== *)
theory Spec2Isabelle
  imports QCutils QUtf8 QExchange QSortOrder QPow QArith QAtomInit QGcMain QShapeMain
begin

text \<open>
  A verification development for the C core of the mtjs repository.

  \<^bold>\<open>The program.\<close> mtjs is a JavaScript runtime with a blockchain. Contracts run in the project's own
  engine, \<^verbatim>\<open>src/src/qjsi/quickjs_i.c\<close>: a fork of QuickJS without floating point numbers, in which a
  number is an \<open>int64_t\<close>. The development follows that file from the bottom up, each component using the
  ones before it, and adds the stand-alone proof-of-work program \<^verbatim>\<open>src/src/js/test/pow.c\<close>.

  \<^bold>\<open>Theories and sources.\<close>
  \<^item> \<open>QPrelude\<close>: word types, checked memory (\<open>mem_get\<close>, \<open>mem_set\<close>, \<open>mem_slice\<close>, \<open>mem_write\<close>: \<open>None\<close> is an
    access outside the object) and lemmas shared by the components.
  \<^item> \<open>QCutils\<close>: the helpers of \<^verbatim>\<open>cutils\<close> on C strings (\<open>pstrcpy_jsi\<close>, \<open>pstrcat\<close>, \<open>strstart\<close>, \<open>has_suffix\<close>) and the
    growing byte buffer \<open>DynBuf\<close> with \<open>size_t\<close> wrap-around and failing reallocation.
  \<^item> \<open>QUtf8\<close>: \<open>unicode_jsi_to_utf8\<close>, \<open>unicode_jsi_from_utf8\<close> and the surrogate arithmetic of \<^verbatim>\<open>cutils_i.h\<close>.
  \<^item> \<open>QSort\<close>, \<open>QSortOrder\<close>, \<open>QExchange\<close>: \<open>rqsort_jsi\<close> with its fixed stack of 50 segments, the heap sort it falls
    back to, and the routines that exchange elements of any size. The locale \<open>cmp_order\<close> is the contract
    of a comparison function.
  \<^item> \<open>QPow\<close>: SHA-256, the test for leading zero bits and the nonce search of \<open>main\<close> in \<^verbatim>\<open>pow.c\<close>.
  \<^item> \<open>QAlloc\<close>: \<open>jsi_def_malloc\<close>, \<open>jsi_def_free\<close>, \<open>jsi_def_realloc\<close> with the memory limit and the counters of
    \<open>JSIMallocState\<close>, and the wrappers \<open>jsi_malloc\<close>, \<open>jsi_realloc\<close>, \<open>jsi_realloc2\<close>, \<open>jsi_resize_array\<close>. The C library's
    allocator is a parameter with the locale \<open>libc_alloc\<close> as its contract.
  \<^item> \<open>QStrBuf\<close>: \<open>StringBuffer\<close> at the level of bytes: growth by 3/2, use of slack, widening in place from 8 to
    16 bits, errors that stick. The locale \<open>str_realloc\<close> is what it needs of reallocation; a
    \<open>sublocale\<close> derives it from \<open>libc_alloc\<close>.
  \<^item> \<open>QString\<close>: finished strings: creation, substrings, comparison, concatenation, conversion from and to
    UTF-8, and the default comparison of array sort, on which \<open>cmp_order\<close> is interpreted.
  \<^item> \<open>QRope\<close>: ropes: indexing, the iterator with its stack of 60 entries, comparison, linearisation,
    rebalancing in 44 Fibonacci buckets (locale \<open>rope_making\<close>), \<open>JSI_ConcatString\<close>.
  \<^item> \<open>QNumber\<close>: tagged values, \<open>JSI_ToPrimitiveFree\<close>, \<open>JSI_ToBoolFree\<close>, number scanning and printing, all
    conversions to strings and integers, \<open>parseInt\<close>.
  \<^item> \<open>QArith\<close>: the slow paths of the operators and the arithmetic, logical and comparison cases of the
    interpreter loop \<open>JSI_CallInternal\<close> on an operand stack and local variables.
  \<^item> \<open>QAtom\<close>: the atom table, the interned strings and symbols that name properties: hash buckets, free list,
    growth, resize, reference counts, \<open>__JSI_NewAtom\<close> (here \<open>new_atom\<close>), \<open>__JSI_FindAtom\<close> (\<open>find_atom\<close>),
    \<open>__JSI_FreeAtom\<close> (\<open>free_atom\<close>), symbols, values of atoms, and the predefined atoms of
    \<^verbatim>\<open>quickjs-atom_i.h\<close>. \<open>QAtomTable\<close> has the invariant \<open>table_ok\<close>, \<open>QAtomNum\<close> the integer atoms, \<open>QAtomOps\<close>
    what each operation does to a table, \<open>QAtomIntern\<close> the locale \<open>interner\<close> (an interning table as its
    clients see it) with its interpretation on the table, \<open>QAtomInit\<close> the initial table.
  \<^item> \<open>QGc\<close>: reference counting and the cycle collector: the heap of the runtime, the mark and finalizer
    functions of every type of object and every class, \<open>gc_decref\<close>, \<open>gc_scan\<close>, \<open>gc_free_cycles\<close>, \<open>JSI_RunGC\<close>, and freeing
    by count (\<open>JSI_FreeValueRT\<close>, \<open>free_zero_refcount\<close>, \<open>JSI_FreeContext\<close>, \<open>free_var_ref\<close>, \<open>jsi_free_shape\<close>). \<open>QGcMark\<close> proves
    the first two passes, \<open>QGcFree\<close> has the invariant \<open>core\<close>, \<open>QGcRelease\<close> the locale \<open>releasing\<close> (giving up the
    references of an object, for both phases in which that happens), \<open>QGcRun\<close> and \<open>QGcCycles\<close> its two
    interpretations, \<open>QGcMain\<close> the properties.
  \<^item> \<open>QShape\<close>: the properties of objects: shapes with their hash chains, the hash table of shapes in the runtime, sharing,
    cloning, growth and compaction of shapes, \<open>find_own_property\<close>, \<open>add_property\<close>, \<open>delete_property\<close>,
    \<open>jsi_update_property_flags\<close>, \<open>convert_fast_array_to_array\<close>, \<open>JSI_NewObjectFromShape\<close>, and what \<open>free_object\<close> does to properties and
    shape (\<open>free_sobj\<close>; \<open>shape_free\<close> is \<open>jsi_free_shape\<close>). \<open>QShapeHash\<close> proves the chains inside a shape, \<open>QShapeTable\<close> the table of
    shapes, \<open>QShapeObj\<close> has the invariant of shapes and their owners, \<open>QShapeStep\<close> the steps that make and change shapes,
    \<open>QShapeProp\<close> what is seen of an object (\<open>look\<close>) and why objects that share a shape do not affect each other,
    \<open>QShapeOps\<close>, \<open>QShapeDel\<close>, \<open>QShapeArr\<close>, \<open>QShapeNew\<close> and \<open>QShapeWhole\<close> the operations one by one, \<open>QShapeMain\<close> the locale
    \<open>object_store\<close> (steps that change one object at a time) with its interpretation, and the properties.

  \<^bold>\<open>State and effects.\<close> C structures are records, machine integers are words of their width, tagged values
  a datatype. The outer \<open>option\<close> of an operation is memory safety: \<open>None\<close> is an access outside an object,
  a failed assertion or other undefined behaviour, so a theorem that a result is \<open>Some\<close> is also a theorem
  that this does not happen. Errors the code reports are values of a sum type. Conversions run user code;
  property lookup, calls and allocators are fields of the record \<open>host\<close>, which acts on a state of any type,
  and an operation returns \<open>Ok\<close>, a thrown error or \<open>Undef\<close> together with the new state. Reference counts
  are modelled where a decision depends on them (\<open>JSI_ConcatStringInPlace\<close>, linearisation, atoms, the collector).
  The heap of the collector keeps of every object the fields that hold references to others; \<open>gc_state E s\<close>
  says that every count is the number of these references and of those from outside, \<open>E\<close>.

  \<^bold>\<open>What the lemmas show.\<close> Memory safety and exact contents for every buffer (\<open>DynBuf\<close>, \<open>StringBuffer\<close>, strings);
  refinement of the byte-level operations to lists of code units, so that everything above is independent of
  the 8-bit or 16-bit representation and of ropes; round trips (code points and UTF-8, strings and
  UTF-8, numbers and decimal strings, surrogate pairs); sorting: termination within the fixed stack for any
  comparison function, order and stability for a consistent one; exact accounting of memory and respect of
  its limit in every reachable state; the invariant of ropes and its preservation by concatenation and
  linearisation; SHA-256 equal to the standard and the nonce search exact; integer arithmetic exact or
  raising, fast paths equal to slow paths, equality and order of values equal to those of their
  meanings, and the stack effect of instructions as the opcode table declares it; the atom table
  well-formed in every state (slots, free list and buckets agree, no walk runs forever), interning
  injective along every run after initialisation, and the predefined atoms at their constants; exact
  reference counts as an invariant of creating objects, copying and giving up values and collecting: no
  reachable object is freed, a collection frees all others, and neither fails an assertion or uses a freed
  object; the operations on properties as operations on one list per object, independent of the
  sharing of shapes, with the counts of shapes and the held atoms and prototypes exact in every
  reachable state. Where the
  code does not do what it means to, the theorem states what it does.

  \<^bold>\<open>Fuel and bounds.\<close> Loops are structural or have a termination proof. Fuel appears in three
  places. Nested rebalancing of ropes: two levels are proved enough for texts below 2178309 code units, the
  length of the thirtieth bucket, up to which a rebalanced rope has at most 59 levels. Loose
  equality: four rounds are proved enough. The length of an array: no fuel is enough for \<open>undefined\<close>, where
  the C function does not return. The nonce search is a partial function, and its theorem says exactly when it
  returns. The walks along the buckets of the atom table are partial functions too, proved to return
  on every well-formed table, and so are the loops of the collector, proved to return on every heap with
  exact counts. There the classes of objects fit their data (which excludes iterators over strings and says
  nothing of generators, see \<open>string_iterator_mark_undefined\<close>) and objects have no weak references. The allocator of atoms is a parameter that returns an address not in use
  (\<open>fresh_env\<close>) or fails, and so is that of shapes and objects (\<open>env_ok\<close>); a shape has fewer than \<open>2 ^ 26\<close>
  properties (\<open>room\<close>), which is what a link of 26 bits can hold, and the table of shapes fewer than \<open>2 ^ 30\<close> buckets where
  it may have to grow; \<open>atom_room\<close> bounds the number of slots where the growth would overflow \<open>int\<close>.

  \<^bold>\<open>Not modelled.\<close> The lexer, parser and bytecode compiler of the engine; the rest of the interpreter loop (calls,
  exceptions, generators); getters, setters, exotic objects and the prototype chain in the access to properties, module linking and the built-in
  classes beyond the functions above; the collection that the creation of an object may trigger is not part of the
  state of shapes, and the references that properties hold are given up there by listing them in \<open>freed\<close>; a local variable changed by user code in the middle of an instruction on it;
  the tables of Unicode properties; the vendored QuickJS and llhttp, which are third-party code; the C++
  services of the blockchain and the framework around them.
\<close>

end
